(* ===== verification/Pops_Prelude.thy ===== *)
theory Pops_Prelude
  imports Main
begin

text \<open>
  Shared vocabulary of the development: the exceptions the Python code raises and the result type
  that carries them, the sequencing combinators every fallible operation of the models is written
  with, and the generic list facts the component theories share.

  A Python function that may raise is a function into \<open>exn + 'a\<close>: \<open>Inl\<close> is the class of
  the exception (its message is not modelled), \<open>Inr\<close> the returned value.
\<close>

section \<open>Exceptions and results\<close>

datatype exn =
    TypeError
  | ValueError
  | KeyError
  | RuntimeError
  | OverflowError
  | ZeroDivisionError
  | FileNotFoundError
  | FileExistsError
  | NotImplementedError
  | IndexError
  | AttributeError
  | OSError
  | AssertionError
  | CoefficientLiteralError

type_synonym 'a result = "exn + 'a"

named_theorems result_simps \<open>rewriting of results that are known to be values\<close>

text \<open>Sequencing: the continuation runs only on a value (an exception propagates).\<close>

fun bindR :: "'a result \<Rightarrow> ('a \<Rightarrow> 'b result) \<Rightarrow> 'b result" where
  "bindR (Inl e) f = Inl e"
| "bindR (Inr x) f = f x"

text \<open>The statement \<open>if b: raise e\<close> in front of the remaining statements \<open>k\<close>.\<close>

definition raise_if :: "bool \<Rightarrow> exn \<Rightarrow> 'a result \<Rightarrow> 'a result" where
  "raise_if b e k = (if b then Inl e else k)"

text \<open>A comprehension whose element expression may raise: left to right, first exception wins.\<close>

fun traverse :: "('a \<Rightarrow> 'b result) \<Rightarrow> 'a list \<Rightarrow> 'b list result" where
  "traverse f [] = Inr []"
| "traverse f (x # xs) = bindR (f x) (\<lambda>y. bindR (traverse f xs) (\<lambda>ys. Inr (y # ys)))"

definition is_value :: "'a result \<Rightarrow> bool" where
  "is_value r = (case r of Inl _ \<Rightarrow> False | Inr _ \<Rightarrow> True)"

lemma is_value_simps [simp]: "is_value (Inr x)" "\<not> is_value (Inl e)"
  by (simp_all add: is_value_def)

lemma is_value_iff: "is_value r \<longleftrightarrow> (\<exists>x. r = Inr x)"
  by (cases r) auto

lemma bindR_Inr_iff [simp]: "bindR m f = Inr y \<longleftrightarrow> (\<exists>x. m = Inr x \<and> f x = Inr y)"
  by (cases m) auto

lemma bindR_Inl_iff: "bindR m f = Inl e \<longleftrightarrow> m = Inl e \<or> (\<exists>x. m = Inr x \<and> f x = Inl e)"
  by (cases m) auto

lemma raise_if_Inr_iff [simp]: "raise_if b e k = Inr y \<longleftrightarrow> \<not> b \<and> k = Inr y"
  by (simp add: raise_if_def)

lemma raise_if_False [simp]: "raise_if False e k = k"
  by (simp add: raise_if_def)

lemma raise_if_True [simp]: "raise_if True e k = Inl e"
  by (simp add: raise_if_def)

lemma bindR_assoc: "bindR (bindR m f) g = bindR m (\<lambda>x. bindR (f x) g)"
  by (cases m) auto

lemma bindR_Inr_right [simp]: "bindR m Inr = m"
  by (cases m) auto

lemma bindR_cong [fundef_cong]:
  "m = m' \<Longrightarrow> (\<And>x. m' = Inr x \<Longrightarrow> f x = f' x) \<Longrightarrow> bindR m f = bindR m' f'"
  by (cases m') auto

lemma traverse_Inr_iff: "traverse f xs = Inr ys \<longleftrightarrow> list_all2 (\<lambda>x y. f x = Inr y) xs ys"
proof (induction xs arbitrary: ys)
  case Nil
  then show ?case by auto
next
  case (Cons x xs)
  then show ?case by (cases ys) auto
qed

lemma traverse_length: "traverse f xs = Inr ys \<Longrightarrow> length ys = length xs"
  by (auto simp: traverse_Inr_iff dest: list_all2_lengthD)

lemma traverse_pure [simp]: "traverse (\<lambda>x. Inr (g x)) xs = Inr (map g xs)"
  by (induction xs) auto

lemma traverse_map_Inr:
  "(\<And>x. x \<in> set xs \<Longrightarrow> f x = Inr (g x)) \<Longrightarrow> traverse f xs = Inr (map g xs)"
  by (induction xs) auto

lemma traverse_cong [fundef_cong]:
  "xs = ys \<Longrightarrow> (\<And>x. x \<in> set ys \<Longrightarrow> f x = g x) \<Longrightarrow> traverse f xs = traverse g ys"
  by (induction ys arbitrary: xs) auto

lemma traverse_is_value:
  "(\<And>x. x \<in> set xs \<Longrightarrow> is_value (f x)) \<Longrightarrow> is_value (traverse f xs)"
  by (induction xs) (auto simp: is_value_iff)

lemma traverse_InlD: "traverse f xs = Inl e \<Longrightarrow> \<exists>x \<in> set xs. f x = Inl e"
  by (induction xs) (auto simp: bindR_Inl_iff)

section \<open>Lists\<close>

lemma sum_list_map_upt: "sum_list (map f [0..<n]) = (\<Sum>i<n. f i)"
  by (simp add: sum_list_distinct_conv_sum_set atLeast0LessThan)

lemma filter_eq_upt: "i < n \<Longrightarrow> filter ((=) i) [0..<n] = [i]"
proof (induction n)
  case (Suc n)
  have "filter ((=) n) [0..<n] = []" by (simp add: filter_empty_conv)
  with Suc show ?case by (cases "i = n") auto
qed simp

text \<open>\<open>list(dict.fromkeys(xs))\<close>: the first occurrence of each element, in order.\<close>

fun dedup_aux :: "'a list \<Rightarrow> 'a list \<Rightarrow> 'a list" where
  "dedup_aux seen [] = []"
| "dedup_aux seen (x # xs) =
     (if x \<in> set seen then dedup_aux seen xs else x # dedup_aux (x # seen) xs)"

definition dedup :: "'a list \<Rightarrow> 'a list" where
  "dedup xs = dedup_aux [] xs"

lemma set_dedup_aux: "set (dedup_aux seen xs) = set xs - set seen"
  by (induction seen xs rule: dedup_aux.induct) auto

lemma distinct_dedup_aux: "distinct (dedup_aux seen xs)"
  by (induction seen xs rule: dedup_aux.induct) (auto simp: set_dedup_aux)

lemma set_dedup [simp]: "set (dedup xs) = set xs"
  by (simp add: dedup_def set_dedup_aux)

lemma distinct_dedup [simp]: "distinct (dedup xs)"
  by (simp add: dedup_def distinct_dedup_aux)

lemma dedup_aux_distinct: "distinct xs \<Longrightarrow> set xs \<inter> set seen = {} \<Longrightarrow> dedup_aux seen xs = xs"
  by (induction seen xs rule: dedup_aux.induct) auto

lemma dedup_distinct: "distinct xs \<Longrightarrow> dedup xs = xs"
  by (simp add: dedup_def dedup_aux_distinct)

section \<open>Insertion-ordered dictionaries\<close>

text \<open>
  A Python dict as an association list with distinct keys: assignment updates in place or appends.
\<close>

fun dict_set :: "'k \<Rightarrow> 'v \<Rightarrow> ('k \<times> 'v) list \<Rightarrow> ('k \<times> 'v) list" where
  "dict_set k v [] = [(k, v)]"
| "dict_set k v ((k', v') # rest) = (if k = k' then (k, v) # rest else (k', v') # dict_set k v rest)"

lemma map_of_dict_set [simp]: "map_of (dict_set k v d) = (map_of d)(k \<mapsto> v)"
  by (induction d) auto

lemma keys_dict_set: "map fst (dict_set k v d) = (if k \<in> fst ` set d then map fst d else map fst d @ [k])"
  by (induction d) (fastforce simp: image_iff)+

lemma set_keys_dict_set [simp]: "fst ` set (dict_set k v d) = insert k (fst ` set d)"
  using arg_cong [OF keys_dict_set, of set k v d] by (auto split: if_splits)

lemma distinct_dict_set [simp]: "distinct (map fst d) \<Longrightarrow> distinct (map fst (dict_set k v d))"
  by (auto simp: keys_dict_set)

lemma in_dict_set: "x \<in> set (dict_set k v d) \<Longrightarrow> x = (k, v) \<or> x \<in> set d"
  by (induction d) (auto split: if_splits)

text \<open>A weighted sum over a dictionary changes by the weight of the assigned key.\<close>

lemma sum_dict_set:
  fixes g :: "'k \<Rightarrow> 'v \<Rightarrow> 'a::ab_group_add"
  shows "sum_list (map (\<lambda>(k, v). g k v) (dict_set k v d))
       = sum_list (map (\<lambda>(k, v). g k v) d)
         + (g k v - (case map_of d k of None \<Rightarrow> 0 | Some w \<Rightarrow> g k w))"
  by (induction d) auto

text \<open>Left fold with a fallible step.\<close>

fun foldR :: "('a \<Rightarrow> 's \<Rightarrow> 's result) \<Rightarrow> 'a list \<Rightarrow> 's \<Rightarrow> 's result" where
  "foldR f [] s = Inr s"
| "foldR f (x # xs) s = bindR (f x s) (foldR f xs)"

lemma foldR_cong [fundef_cong]:
  "xs = ys \<Longrightarrow> s = t \<Longrightarrow> (\<And>x u. x \<in> set ys \<Longrightarrow> f x u = g x u) \<Longrightarrow> foldR f xs s = foldR g ys t"
  by (induction ys arbitrary: xs s t) (auto intro: bindR_cong)

lemma foldR_append: "foldR f (xs @ ys) s = bindR (foldR f xs s) (foldR f ys)"
  by (induction xs arbitrary: s) (auto simp: bindR_assoc intro!: bindR_cong)

lemma foldR_invariant:
  assumes "foldR f xs s = Inr t" and "I s"
    and "\<And>x u v. x \<in> set xs \<Longrightarrow> I u \<Longrightarrow> f x u = Inr v \<Longrightarrow> I v"
  shows "I t"
  using assms by (induction xs arbitrary: s) auto

end
