(* ===== verification/Pops_Journal.thy ===== *)
theory Pops_Journal
  imports Pops_Prelude "HOL-Library.List_Lexorder" "HOL-Library.Char_ord"
begin

text \<open>
  The durable observer journal (\<open>python/pops/output/_durable_journal.py\<close>): the three-state protocol
  prepared, pending, delivered over a file system with directory links, and what a crash at any
  point between two file-system calls may leave behind.

  An operation is a function of the file system into its result and the list of file-system actions
  it performs, so every prefix of that list is a point where the process may die. The file system
  keeps two views: what the running process sees and what is on disk. A link or unlink reaches the
  disk when its directory is synced, the bytes of a file when the file is. The frame codec
  (\<open>_observer_archive.py\<close>), the digests and the frame identities are a parameter. Creating the
  directories of the journal and failing reads or writes are not represented.
\<close>

section \<open>File system\<close>

datatype jstate = Prepared | Pending | Delivered

datatype jdir = Root | StateDir jstate

text \<open>
  \<open>Archive h\<close> is the name \<open>h.pfa\<close> with a digest \<open>h\<close>; \<open>Temporary n k\<close> is \<open>.n.k.tmp\<close> with the
  random token \<open>k\<close>; \<open>Marker\<close> and \<open>Authority\<close> are the two files of the root; \<open>Foreign\<close> any other name.
\<close>

datatype jname = Archive string | Marker | Authority | Temporary jname nat | Foreign string

type_synonym path = "jdir \<times> jname"

text \<open>\<open>f_stable\<close>: the bytes of the file are on disk.\<close>

record 'b inode =
  f_bytes :: 'b
  f_stable :: bool

datatype 'b entry = Regular "'b inode" | Special

record 'b fs =
  fs_seen :: "(path \<times> 'b entry) list"
  fs_disk :: "(path \<times> 'b entry) list"

definition seen :: "'b fs \<Rightarrow> path \<Rightarrow> 'b entry option" where
  "seen s p = map_of (fs_seen s) p"

definition disk :: "'b fs \<Rightarrow> path \<Rightarrow> 'b entry option" where
  "disk s p = map_of (fs_disk s) p"

datatype 'b action =
    Write path 'b
  | SyncFile path
  | Link path path
  | Unlink path
  | SyncDir jdir

definition dict_remove :: "'k \<Rightarrow> ('k \<times> 'v) list \<Rightarrow> ('k \<times> 'v) list" where
  "dict_remove k d = filter (\<lambda>(k', _). k' \<noteq> k) d"

definition stabilise :: "path \<Rightarrow> (path \<times> 'b entry) list \<Rightarrow> (path \<times> 'b entry) list" where
  "stabilise p d =
     map (\<lambda>(q, e). (q, if q = p then (case e of Regular f \<Rightarrow> Regular (f\<lparr>f_stable := True\<rparr>) | Special \<Rightarrow> Special) else e)) d"

definition perform :: "'b action \<Rightarrow> 'b fs \<Rightarrow> 'b fs" where
  "perform a s =
     (case a of
        Write p b \<Rightarrow> s\<lparr>fs_seen := dict_set p (Regular \<lparr>f_bytes = b, f_stable = False\<rparr>) (fs_seen s)\<rparr>
      | SyncFile p \<Rightarrow> s\<lparr>fs_seen := stabilise p (fs_seen s), fs_disk := stabilise p (fs_disk s)\<rparr>
      | Link p q \<Rightarrow> (case seen s p of None \<Rightarrow> s | Some e \<Rightarrow> s\<lparr>fs_seen := dict_set q e (fs_seen s)\<rparr>)
      | Unlink p \<Rightarrow> s\<lparr>fs_seen := dict_remove p (fs_seen s)\<rparr>
      | SyncDir d \<Rightarrow> s\<lparr>fs_disk := filter (\<lambda>(p, _). fst p = d) (fs_seen s) @ filter (\<lambda>(p, _). fst p \<noteq> d) (fs_disk s)\<rparr>)"

definition perform_all :: "'b action list \<Rightarrow> 'b fs \<Rightarrow> 'b fs" where
  "perform_all as s = foldl (\<lambda>s a. perform a s) s as"

section \<open>Operations with their action traces\<close>

type_synonym ('a, 'b) op = "'b fs \<Rightarrow> 'a result \<times> 'b action list"

definition ret :: "'a \<Rightarrow> ('a, 'b) op" where
  "ret x s = (Inr x, [])"

definition fail :: "exn \<Rightarrow> ('a, 'b) op" where
  "fail e s = (Inl e, [])"

definition look :: "('b fs \<Rightarrow> 'a result) \<Rightarrow> ('a, 'b) op" where
  "look f s = (f s, [])"

definition do_action :: "'b action \<Rightarrow> (unit, 'b) op" where
  "do_action a s = (Inr (), [a])"

definition andThen :: "('a, 'b) op \<Rightarrow> ('a \<Rightarrow> ('c, 'b) op) \<Rightarrow> ('c, 'b) op" where
  "andThen m f s =
     (case m s of
        (Inl e, as) \<Rightarrow> (Inl e, as)
      | (Inr x, as) \<Rightarrow> (let (r, bs) = f x (perform_all as s) in (r, as @ bs)))"

text \<open>\<open>try: m finally: f\<close>; an exception of \<open>f\<close> wins.\<close>

definition finally_do :: "('a, 'b) op \<Rightarrow> (unit, 'b) op \<Rightarrow> ('a, 'b) op" where
  "finally_do m f s =
     (let (r, as) = m s; (q, bs) = f (perform_all as s)
      in (case q of Inl e \<Rightarrow> Inl e | Inr _ \<Rightarrow> r, as @ bs))"

fun for_each :: "('x \<Rightarrow> (unit, 'b) op) \<Rightarrow> 'x list \<Rightarrow> (unit, 'b) op" where
  "for_each f [] = ret ()"
| "for_each f (x # xs) = andThen (f x) (\<lambda>_. for_each f xs)"

section \<open>The journal\<close>

record config =
  cf_fsync :: bool
  cf_automatic :: bool

record ('b, 'f) codec =
  cd_encode :: "'f \<Rightarrow> 'b"
  cd_decode :: "'b \<Rightarrow> 'f result"
  cd_frame_id :: "'f \<Rightarrow> string"
  cd_archive_id :: "'f \<Rightarrow> string"
  cd_sha :: "'b \<Rightarrow> string"

record 'f jrecord =
  jr_frame :: 'f
  jr_frame_id :: string
  jr_archive_id :: string
  jr_sha :: string
  jr_name :: jname
  jr_state :: jstate

definition sync_directory :: "config \<Rightarrow> jdir \<Rightarrow> (unit, 'b) op" where
  "sync_directory cfg d = (if cf_fsync cfg then do_action (SyncDir d) else ret ())"

definition regular_bytes :: "'b fs \<Rightarrow> path \<Rightarrow> 'b result" where
  "regular_bytes s p =
     (case seen s p of None \<Rightarrow> Inl FileNotFoundError | Some Special \<Rightarrow> Inl ValueError | Some (Regular f) \<Rightarrow> Inr (f_bytes f))"

definition write_temporary :: "config \<Rightarrow> path \<Rightarrow> nat \<Rightarrow> 'b \<Rightarrow> (path, 'b) op" where
  "write_temporary cfg target token payload =
     (let tmp = (fst target, Temporary (snd target) token)
      in andThen (look (\<lambda>s. raise_if (seen s tmp \<noteq> None) FileExistsError (Inr ()))) (\<lambda>_.
         andThen (do_action (Write tmp payload)) (\<lambda>_.
         andThen (if cf_fsync cfg then do_action (SyncFile tmp) else ret ()) (\<lambda>_. ret tmp))))"

definition remove_path :: "config \<Rightarrow> path \<Rightarrow> (unit, 'b) op" where
  "remove_path cfg p s =
     (if seen s p = None then ret () s
      else andThen (do_action (Unlink p)) (\<lambda>_. sync_directory cfg (fst p)) s)"

definition publish_exact :: "config \<Rightarrow> path \<Rightarrow> nat \<Rightarrow> 'b \<Rightarrow> (unit, 'b) op" where
  "publish_exact cfg target token payload =
     andThen (write_temporary cfg target token payload) (\<lambda>tmp.
       finally_do
         (andThen (\<lambda>s. if seen s target = None then do_action (Link tmp target) s
                       else look (\<lambda>s. bindR (regular_bytes s target) (\<lambda>b.
                              raise_if (b \<noteq> payload) FileExistsError (Inr ()))) s) (\<lambda>_.
          sync_directory cfg (fst target)))
         (remove_path cfg tmp))"

definition load_record :: "('b, 'f) codec \<Rightarrow> jstate \<Rightarrow> jname \<Rightarrow> 'b fs \<Rightarrow> 'f jrecord result" where
  "load_record cd st name s =
     (case name of
        Archive h \<Rightarrow>
          bindR (regular_bytes s (StateDir st, name)) (\<lambda>payload.
          bindR (cd_decode cd payload) (\<lambda>frame.
          raise_if (cd_frame_id cd frame \<noteq> h) ValueError
            (Inr \<lparr>jr_frame = frame, jr_frame_id = cd_frame_id cd frame, jr_archive_id = cd_archive_id cd frame,
                  jr_sha = cd_sha cd payload, jr_name = name, jr_state = st\<rparr>)))
      | _ \<Rightarrow> Inl ValueError)"

definition same_record :: "'f jrecord \<Rightarrow> 'f jrecord \<Rightarrow> bool" where
  "same_record l r \<longleftrightarrow> jr_frame_id l = jr_frame_id r \<and> jr_archive_id l = jr_archive_id r \<and> jr_sha l = jr_sha r"

definition record_path :: "'f jrecord \<Rightarrow> path" where
  "record_path r = (StateDir (jr_state r), jr_name r)"

definition directory_names :: "'b fs \<Rightarrow> jdir \<Rightarrow> jname list" where
  "directory_names s d = map (snd \<circ> fst) (filter (\<lambda>(p, _). fst p = d) (fs_seen s))"

definition check_entry :: "jstate \<Rightarrow> jname \<Rightarrow> (unit, 'b) op" where
  "check_entry st name s =
     (case name of
        Archive _ \<Rightarrow> (case seen s (StateDir st, name) of Some (Regular _) \<Rightarrow> ret () s | None \<Rightarrow> fail FileNotFoundError s | _ \<Rightarrow> fail ValueError s)
      | _ \<Rightarrow> fail ValueError s)"

definition is_temporary :: "jname \<Rightarrow> bool" where
  "is_temporary n = (case n of Temporary _ _ \<Rightarrow> True | _ \<Rightarrow> False)"

definition state_entries :: "config \<Rightarrow> jstate \<Rightarrow> bool \<Rightarrow> (jname list, 'b) op" where
  "state_entries cfg st remove_temporary s =
     (let names = directory_names s (StateDir st) in
      andThen (for_each (\<lambda>name.
          if is_temporary name then
            (if remove_temporary then remove_path cfg (StateDir st, name) else fail ValueError)
          else check_entry st name) names)
        (\<lambda>_. ret (filter (\<lambda>n. \<not> is_temporary n) names)) s)"

definition archive_key :: "jname \<Rightarrow> string" where
  "archive_key n = (case n of Archive h \<Rightarrow> h | _ \<Rightarrow> [])"

definition jstates :: "jstate list" where
  "jstates = [Prepared, Pending, Delivered]"

text \<open>One frame of \<open>_recover\<close>: its records in the states that list it, then the clean-up.\<close>

definition remove_stale :: "config \<Rightarrow> jstate list \<Rightarrow> jname \<Rightarrow> (unit, 'b) op" where
  "remove_stale cfg states name =
     (if Delivered \<in> set states then
        for_each (\<lambda>stale. if stale \<in> set states then remove_path cfg (StateDir stale, name) else ret ())
          [Pending, Prepared]
      else if Pending \<in> set states then
        (if Prepared \<in> set states then remove_path cfg (StateDir Prepared, name) else ret ())
      else remove_path cfg (StateDir Prepared, name))"

definition recover_name :: "config \<Rightarrow> ('b, 'f) codec \<Rightarrow> (jstate \<times> jname list) list \<Rightarrow> jname \<Rightarrow> (unit, 'b) op" where
  "recover_name cfg cd entries name =
     andThen (look (\<lambda>s. traverse (\<lambda>st. load_record cd st name s)
                (map fst (filter (\<lambda>(_, names). name \<in> set names) entries)))) (\<lambda>present.
       case present of
         [] \<Rightarrow> fail IndexError
       | reference # rest \<Rightarrow>
           if \<not> list_all (same_record reference) rest then fail ValueError
           else remove_stale cfg (map jr_state present) name)"

definition recover :: "config \<Rightarrow> ('b, 'f) codec \<Rightarrow> (unit, 'b) op" where
  "recover cfg cd =
     andThen (state_entries cfg Prepared True) (\<lambda>e1.
     andThen (state_entries cfg Pending True) (\<lambda>e2.
     andThen (state_entries cfg Delivered True) (\<lambda>e3.
       for_each (recover_name cfg cd [(Prepared, e1), (Pending, e2), (Delivered, e3)])
         (sort_key archive_key (dedup (e1 @ e2 @ e3))))))"

text \<open>The part of \<open>_initialize\<close> after the directories exist: the schema marker and the recovery.\<close>

definition initialize :: "config \<Rightarrow> ('b, 'f) codec \<Rightarrow> 'b \<Rightarrow> nat \<Rightarrow> (unit, 'b) op" where
  "initialize cfg cd marker_bytes token =
     andThen (\<lambda>s. if seen s (Root, Marker) = None then publish_exact cfg (Root, Marker) token marker_bytes s
                  else look (\<lambda>s. bindR (regular_bytes s (Root, Marker)) (\<lambda>b.
                         raise_if (b \<noteq> marker_bytes) ValueError (Inr ()))) s) (\<lambda>_.
     if cf_automatic cfg then
       andThen (\<lambda>s. for_each (\<lambda>name. remove_path cfg (Root, name))
           (filter (\<lambda>n. case n of Temporary Marker _ \<Rightarrow> True | _ \<Rightarrow> False) (directory_names s Root)) s) (\<lambda>_.
         recover cfg cd)
     else ret ())"

definition bind_authority :: "config \<Rightarrow> nat \<Rightarrow> 'b \<Rightarrow> (unit, 'b) op" where
  "bind_authority cfg token payload =
     andThen (\<lambda>s. if seen s (Root, Authority) = None then publish_exact cfg (Root, Authority) token payload s else ret () s) (\<lambda>_.
       look (\<lambda>s. bindR (regular_bytes s (Root, Authority)) (\<lambda>current.
         raise_if (current \<noteq> payload) RuntimeError (Inr ()))))"

definition expected :: "('b, 'f) codec \<Rightarrow> 'f jrecord \<Rightarrow> (jname \<times> 'f jrecord) result" where
  "expected cd r =
     raise_if (cd_frame_id cd (jr_frame r) \<noteq> jr_frame_id r \<or> cd_archive_id cd (jr_frame r) \<noteq> jr_archive_id r) ValueError
       (Inr (Archive (jr_frame_id r), r))"

definition existing_exact :: "('b, 'f) codec \<Rightarrow> jstate \<Rightarrow> jname \<Rightarrow> 'f jrecord \<Rightarrow> 'b fs \<Rightarrow> 'f jrecord option result" where
  "existing_exact cd st name r s =
     (case load_record cd st name s of
        Inl e \<Rightarrow> if e = FileNotFoundError then Inr None else Inl e
      | Inr actual \<Rightarrow> raise_if (\<not> same_record actual r) FileExistsError (Inr (Some actual)))"

definition remove_existing :: "config \<Rightarrow> ('b, 'f) codec \<Rightarrow> jname \<Rightarrow> 'f jrecord \<Rightarrow> jstate \<Rightarrow> (unit, 'b) op" where
  "remove_existing cfg cd name r st =
     andThen (look (existing_exact cd st name r)) (\<lambda>stale.
       case stale of None \<Rightarrow> ret () | Some x \<Rightarrow> remove_path cfg (record_path x))"

definition promote ::
  "config \<Rightarrow> ('b, 'f) codec \<Rightarrow> jstate \<Rightarrow> jstate \<Rightarrow> jname \<Rightarrow> 'f jrecord \<Rightarrow> ('f jrecord, 'b) op" where
  "promote cfg cd from_state to_state name r =
     andThen (look (existing_exact cd from_state name r)) (\<lambda>source.
       case source of
         None \<Rightarrow> fail FileNotFoundError
       | Some src \<Rightarrow>
           andThen (\<lambda>s. if seen s (StateDir to_state, name) \<noteq> None then
                look (\<lambda>s. bindR (existing_exact cd to_state name r s) (\<lambda>t.
                  case t of None \<Rightarrow> Inl RuntimeError | Some x \<Rightarrow> Inr x)) s
              else andThen (do_action (Link (record_path src) (StateDir to_state, name))) (\<lambda>_.
                look (\<lambda>s. bindR (load_record cd to_state name s) (\<lambda>t.
                  raise_if (\<not> same_record t r) RuntimeError (Inr t)))) s) (\<lambda>target.
           andThen (sync_directory cfg (StateDir to_state)) (\<lambda>_.
           andThen (remove_existing cfg cd name r from_state) (\<lambda>_. ret target))))"

definition prepare :: "config \<Rightarrow> ('b, 'f) codec \<Rightarrow> nat \<Rightarrow> 'f \<Rightarrow> ('f jrecord, 'b) op" where
  "prepare cfg cd token frame =
     (let payload = cd_encode cd frame;
          name = Archive (cd_frame_id cd frame);
          r = \<lparr>jr_frame = frame, jr_frame_id = cd_frame_id cd frame, jr_archive_id = cd_archive_id cd frame,
               jr_sha = cd_sha cd payload, jr_name = name, jr_state = Prepared\<rparr>
      in andThen (look (existing_exact cd Delivered name r)) (\<lambda>d. case d of Some x \<Rightarrow> ret x | None \<Rightarrow>
         andThen (look (existing_exact cd Pending name r)) (\<lambda>p. case p of Some x \<Rightarrow> ret x | None \<Rightarrow>
         andThen (look (existing_exact cd Prepared name r)) (\<lambda>q. case q of Some x \<Rightarrow> ret x | None \<Rightarrow>
         andThen (publish_exact cfg (StateDir Prepared, name) token payload) (\<lambda>_.
           look (\<lambda>s. bindR (existing_exact cd Prepared name r s) (\<lambda>x.
             Inr (case x of None \<Rightarrow> r | Some y \<Rightarrow> y))))))))"

definition discard_prepared :: "config \<Rightarrow> ('b, 'f) codec \<Rightarrow> 'f jrecord \<Rightarrow> (bool, 'b) op" where
  "discard_prepared cfg cd rec =
     andThen (look (\<lambda>_. expected cd rec)) (\<lambda>(name, r).
     andThen (look (existing_exact cd Delivered name r)) (\<lambda>d. if d \<noteq> None then fail RuntimeError else
     andThen (look (existing_exact cd Pending name r)) (\<lambda>p. if p \<noteq> None then fail RuntimeError else
     andThen (look (existing_exact cd Prepared name r)) (\<lambda>q.
       case q of None \<Rightarrow> ret False | Some x \<Rightarrow> andThen (remove_path cfg (record_path x)) (\<lambda>_. ret True)))))"

definition commit :: "config \<Rightarrow> ('b, 'f) codec \<Rightarrow> 'f jrecord \<Rightarrow> ('f jrecord, 'b) op" where
  "commit cfg cd rec =
     andThen (look (\<lambda>_. expected cd rec)) (\<lambda>(name, r).
     andThen (look (existing_exact cd Delivered name r)) (\<lambda>d.
       case d of
         Some x \<Rightarrow> andThen (remove_existing cfg cd name r Prepared) (\<lambda>_. ret x)
       | None \<Rightarrow>
           andThen (look (existing_exact cd Pending name r)) (\<lambda>p.
             case p of
               Some x \<Rightarrow> andThen (remove_existing cfg cd name r Prepared) (\<lambda>_. ret x)
             | None \<Rightarrow> promote cfg cd Prepared Pending name r)))"

definition delivered :: "config \<Rightarrow> ('b, 'f) codec \<Rightarrow> 'f jrecord \<Rightarrow> ('f jrecord, 'b) op" where
  "delivered cfg cd rec =
     andThen (look (\<lambda>_. expected cd rec)) (\<lambda>(name, r).
     andThen (look (existing_exact cd Delivered name r)) (\<lambda>d.
     andThen (case d of Some x \<Rightarrow> ret x | None \<Rightarrow> promote cfg cd Pending Delivered name r) (\<lambda>acknowledged.
     andThen (for_each (remove_existing cfg cd name r) [Pending, Prepared]) (\<lambda>_. ret acknowledged))))"

definition list_pending :: "config \<Rightarrow> ('b, 'f) codec \<Rightarrow> ('f jrecord \<Rightarrow> 'k::linorder) \<Rightarrow> ('f jrecord list, 'b) op" where
  "list_pending cfg cd order =
     andThen (state_entries cfg Pending False) (\<lambda>names.
       look (\<lambda>s. bindR (traverse (\<lambda>n. load_record cd Pending n s) names) (\<lambda>rs. Inr (sort_key order rs))))"

definition list_committed :: "config \<Rightarrow> ('b, 'f) codec \<Rightarrow> ('f jrecord \<Rightarrow> 'k::linorder) \<Rightarrow> ('f jrecord list, 'b) op" where
  "list_committed cfg cd order =
     andThen (state_entries cfg Pending False) (\<lambda>names1.
     andThen (look (\<lambda>s. traverse (\<lambda>n. load_record cd Pending n s) names1)) (\<lambda>rs1.
     andThen (state_entries cfg Delivered False) (\<lambda>names2.
       look (\<lambda>s. bindR (traverse (\<lambda>n. load_record cd Delivered n s) names2) (\<lambda>rs2.
         Inr (sort_key order (rs1 @ rs2)))))))"

section \<open>The two views\<close>

lemma map_of_filter_key: "map_of (filter (\<lambda>(k, _). P k) d) k = (if P k then map_of d k else None)"
  by (induction d) auto

lemma map_of_dict_remove: "map_of (dict_remove k d) j = (if j = k then None else map_of d j)"
  using map_of_filter_key [of "\<lambda>k'. k' \<noteq> k" d j] by (simp add: dict_remove_def)

lemma distinct_filter_keys: "distinct (map fst d) \<Longrightarrow> distinct (map fst (filter P d))"
  by (simp add: distinct_map_filter)

fun stable_entry :: "'b entry \<Rightarrow> 'b entry" where
  "stable_entry (Regular f) = Regular (f\<lparr>f_stable := True\<rparr>)"
| "stable_entry Special = Special"

lemma map_of_stabilise: "map_of (stabilise p d) q = (if q = p then map_option stable_entry (map_of d q) else map_of d q)"
  by (induction d) (auto simp: stabilise_def split: entry.splits)

lemma keys_stabilise: "map fst (stabilise p d) = map fst d"
  by (induction d) (auto simp: stabilise_def)

lemma seen_perform [simp]:
  "seen (perform (Write p b) s) q = (if q = p then Some (Regular \<lparr>f_bytes = b, f_stable = False\<rparr>) else seen s q)"
  "seen (perform (SyncFile p) s) q = (if q = p then map_option stable_entry (seen s q) else seen s q)"
  "seen (perform (Link p p') s) q = (if q = p' \<and> seen s p \<noteq> None then seen s p else seen s q)"
  "seen (perform (Unlink p) s) q = (if q = p then None else seen s q)"
  "seen (perform (SyncDir d) s) q = seen s q"
  by (auto simp: perform_def seen_def map_of_stabilise map_of_dict_remove split: option.splits)

lemma disk_perform [simp]:
  "disk (perform (Write p b) s) q = disk s q"
  "disk (perform (SyncFile p) s) q = (if q = p then map_option stable_entry (disk s q) else disk s q)"
  "disk (perform (Link p p') s) q = disk s q"
  "disk (perform (Unlink p) s) q = disk s q"
  "disk (perform (SyncDir d) s) q = (if fst q = d then seen s q else disk s q)"
  by (auto simp: perform_def seen_def disk_def map_of_stabilise map_add_def map_of_filter_key
      map_of_filter_key [of "\<lambda>p. fst p = d" "fs_seen s" q, simplified]
      map_of_filter_key [of "\<lambda>p. fst p \<noteq> d" "fs_disk s" q, simplified] split: option.splits)

definition keys_ok :: "'b fs \<Rightarrow> bool" where
  "keys_ok s \<longleftrightarrow> distinct (map fst (fs_seen s))"

lemma keys_ok_perform: "keys_ok s \<Longrightarrow> keys_ok (perform a s)"
  by (auto simp: keys_ok_def perform_def keys_stabilise dict_remove_def distinct_filter_keys split: action.splits option.splits)

lemma directory_names_iff: "n \<in> set (directory_names s d) \<longleftrightarrow> seen s (d, n) \<noteq> None"
proof -
  have "n \<in> set (directory_names s d) \<longleftrightarrow> (d, n) \<in> fst ` set (fs_seen s)"
    by (force simp: directory_names_def)
  then show ?thesis by (simp add: seen_def map_of_eq_None_iff)
qed

lemma directory_names_distinct: "keys_ok s \<Longrightarrow> distinct (directory_names s d)"
proof -
  assume "keys_ok s"
  then have "distinct (map fst (filter (\<lambda>(p, _). fst p = d) (fs_seen s)))"
    by (simp add: keys_ok_def distinct_filter_keys)
  moreover have "inj_on snd (fst ` set (filter (\<lambda>(p, _). fst p = d) (fs_seen s)))"
    by (auto simp: inj_on_def)
  ultimately have "distinct (map snd (map fst (filter (\<lambda>(p, _). fst p = d) (fs_seen s))))"
    by (subst distinct_map) simp
  then show ?thesis by (simp add: directory_names_def comp_def)
qed

section \<open>Journal invariant, lawful actions and crashes\<close>

definition in_view :: "'b fs \<Rightarrow> path \<Rightarrow> 'b entry \<Rightarrow> bool" where
  "in_view s p e \<longleftrightarrow> seen s p = Some e \<or> disk s p = Some e"

definition authentic :: "('b, 'f) codec \<Rightarrow> string \<Rightarrow> 'b entry \<Rightarrow> bool" where
  "authentic cd h e \<longleftrightarrow>
     (\<exists>f frame. e = Regular f \<and> f_stable f \<and> cd_decode cd (f_bytes f) = Inr frame \<and> cd_frame_id cd frame = h)"

definition entry_ok :: "('b, 'f) codec \<Rightarrow> path \<Rightarrow> 'b entry \<Rightarrow> bool" where
  "entry_ok cd p e =
     (case p of
        (Root, _) \<Rightarrow> True
      | (StateDir st, name) \<Rightarrow>
          (case name of Archive h \<Rightarrow> authentic cd h e | Temporary _ _ \<Rightarrow> True | _ \<Rightarrow> False))"

definition journal_ok :: "('b, 'f) codec \<Rightarrow> 'b fs \<Rightarrow> bool" where
  "journal_ok cd s \<longleftrightarrow> keys_ok s \<and> (\<forall>p e. in_view s p e \<longrightarrow> entry_ok cd p e)
     \<and> (\<forall>h st st' e e'. in_view s (StateDir st, Archive h) e \<longrightarrow> in_view s (StateDir st', Archive h) e' \<longrightarrow> e = e')"

definition settled :: "'b fs \<Rightarrow> bool" where
  "settled s \<longleftrightarrow> (\<forall>p. disk s p = seen s p)"

definition held :: "'b fs \<Rightarrow> jstate \<Rightarrow> string \<Rightarrow> bool" where
  "held s st h \<longleftrightarrow> seen s (StateDir st, Archive h) \<noteq> None \<and> disk s (StateDir st, Archive h) \<noteq> None"

definition in_state :: "'b fs \<Rightarrow> jstate \<Rightarrow> string \<Rightarrow> bool" where
  "in_state s st h \<longleftrightarrow> seen s (StateDir st, Archive h) \<noteq> None"

definition committed :: "'b fs \<Rightarrow> string \<Rightarrow> bool" where
  "committed s h \<longleftrightarrow> in_state s Pending h \<or> in_state s Delivered h"

text \<open>Actions that lose no committed frame: the only links removed are temporaries, preparations, and
  pending links whose delivered link is on disk already.\<close>

definition lawful :: "('b, 'f) codec \<Rightarrow> 'b action \<Rightarrow> 'b fs \<Rightarrow> bool" where
  "lawful cd a s =
     (case a of
        Write p b \<Rightarrow> is_temporary (snd p) \<and> seen s p = None
      | SyncFile p \<Rightarrow> is_temporary (snd p)
      | Link p q \<Rightarrow> seen s q = None \<and>
          (\<exists>st h e. q = (StateDir st, Archive h) \<and> seen s p = Some e \<and> authentic cd h e
             \<and> (\<forall>st' e'. in_view s (StateDir st', Archive h) e' \<longrightarrow> e' = e))
      | Unlink p \<Rightarrow> is_temporary (snd p) \<or> fst p = StateDir Prepared
          \<or> (\<exists>h. p = (StateDir Pending, Archive h) \<and> held s Delivered h)
      | SyncDir d \<Rightarrow> True)"

fun lawful_trace :: "('b, 'f) codec \<Rightarrow> 'b action list \<Rightarrow> 'b fs \<Rightarrow> bool" where
  "lawful_trace cd [] s = True"
| "lawful_trace cd (a # as) s = (lawful cd a s \<and> lawful_trace cd as (perform a s))"

text \<open>What a power failure may leave: each directory entry is the one the process saw or the one on
  disk; the bytes of a file that was not synced may be anything.\<close>

definition survives :: "'b entry option \<Rightarrow> 'b entry option \<Rightarrow> bool" where
  "survives before after =
     (case before of
        None \<Rightarrow> after = None
      | Some Special \<Rightarrow> after = Some Special
      | Some (Regular f) \<Rightarrow> (\<exists>f'. after = Some (Regular f') \<and> f_stable f' \<and> (f_stable f \<longrightarrow> f' = f)))"

definition crash_image :: "'b fs \<Rightarrow> 'b fs \<Rightarrow> bool" where
  "crash_image s s' \<longleftrightarrow> keys_ok s' \<and> settled s'
     \<and> (\<forall>p. survives (seen s p) (seen s' p) \<or> survives (disk s p) (seen s' p))"

definition safe :: "string set \<Rightarrow> string set \<Rightarrow> 'b fs \<Rightarrow> bool" where
  "safe C D s \<longleftrightarrow> (\<forall>h \<in> C. held s Pending h \<or> held s Delivered h) \<and> (\<forall>h \<in> D. held s Delivered h)"

lemma journal_okD:
  assumes "journal_ok cd s"
  shows "keys_ok s" and "in_view s p e \<Longrightarrow> entry_ok cd p e"
    and "in_view s (StateDir st, Archive h) e \<Longrightarrow> in_view s (StateDir st', Archive h) e' \<Longrightarrow> e = e'"
  using assms unfolding journal_ok_def by blast+

lemma lawful_views:
  assumes l: "lawful cd a s" and v: "in_view (perform a s) p e" and np: "\<not> is_temporary (snd p)"
  shows "in_view s p e \<or> (\<exists>st h q p'. a = Link q p' \<and> seen s q = Some e \<and> p = (StateDir st, Archive h) \<and> authentic cd h e
      \<and> (\<forall>st' e'. in_view s (StateDir st', Archive h) e' \<longrightarrow> e' = e))"
proof (cases a)
  case (Link q p')
  with l obtain st h e0 where h: "p' = (StateDir st, Archive h)" "seen s q = Some e0" "authentic cd h e0"
    "\<forall>st' e'. in_view s (StateDir st', Archive h) e' \<longrightarrow> e' = e0"
    by (auto simp: lawful_def)
  show ?thesis
  proof (cases "p = p' \<and> e = e0")
    case True
    with h Link show ?thesis by blast
  next
    case False
    with v Link h(2) have "in_view s p e" by (auto simp: in_view_def split: if_splits)
    then show ?thesis ..
  qed
qed (use l v np in \<open>auto simp: lawful_def in_view_def split: if_splits\<close>)

lemma lawful_ok:
  assumes "journal_ok cd s" and l: "lawful cd a s"
  shows "journal_ok cd (perform a s)"
  unfolding journal_ok_def
proof (intro conjI allI impI)
  show "keys_ok (perform a s)" using journal_okD(1) [OF assms(1)] by (rule keys_ok_perform)
  show "entry_ok cd p e" if v: "in_view (perform a s) p e" for p e
  proof (cases "is_temporary (snd p)")
    case True
    then show ?thesis by (cases p; cases "fst p") (auto simp: entry_ok_def is_temporary_def split: jname.splits)
  next
    case False
    from lawful_views [OF l v False] journal_okD(2) [OF assms(1)] show ?thesis
      by (auto simp: entry_ok_def)
  qed
  show "e = e'" if v: "in_view (perform a s) (StateDir st, Archive h) e" "in_view (perform a s) (StateDir st', Archive h) e'"
    for h st st' e e'
    using lawful_views [OF l v(1)] lawful_views [OF l v(2)] journal_okD(3) [OF assms(1)]
    by (auto simp: is_temporary_def)
qed

lemma held_perform:
  assumes "lawful cd a s" and "held s st h"
  shows "held (perform a s) st h \<or> st = Prepared \<or> st = Pending \<and> held (perform a s) Delivered h \<and> held s Delivered h"
proof (cases a)
  case (Unlink p)
  with assms show ?thesis
    by (cases st) (auto simp: lawful_def held_def is_temporary_def split: if_splits)
qed (use assms in \<open>auto simp: held_def lawful_def is_temporary_def split: if_splits\<close>)

lemma lawful_safe: "lawful cd a s \<Longrightarrow> safe C D s \<Longrightarrow> safe C D (perform a s)"
  unfolding safe_def using held_perform by (metis jstate.distinct(2,4,6))

lemma perform_all_Cons: "perform_all (a # as) s = perform_all as (perform a s)"
  by (simp add: perform_all_def)

lemma perform_all_append: "perform_all (as @ bs) s = perform_all bs (perform_all as s)"
  by (simp add: perform_all_def)

lemma perform_all_Nil [simp]: "perform_all [] s = s"
  by (simp add: perform_all_def)

lemma lawful_trace_append: "lawful_trace cd (as @ bs) s \<longleftrightarrow> lawful_trace cd as s \<and> lawful_trace cd bs (perform_all as s)"
  by (induction as arbitrary: s) (auto simp: perform_all_Cons)

lemma lawful_trace_prefix:
  "journal_ok cd s \<Longrightarrow> safe C D s \<Longrightarrow> lawful_trace cd as s
    \<Longrightarrow> journal_ok cd (perform_all (take k as) s) \<and> safe C D (perform_all (take k as) s)"
proof (induction as arbitrary: s k)
  case (Cons a as)
  then show ?case
  proof (cases k)
    case (Suc m)
    have l: "lawful cd a s" "lawful_trace cd as (perform a s)" using Cons.prems(3) by simp_all
    show ?thesis
      using Cons.IH [OF lawful_ok [OF Cons.prems(1) l(1)] lawful_safe [OF l(1) Cons.prems(2)] l(2), of m]
      by (simp add: Suc perform_all_Cons)
  qed (use Cons.prems in simp)
qed simp

lemma authentic_survives: "authentic cd h e \<Longrightarrow> survives (Some e) x \<Longrightarrow> x = Some e"
  by (auto simp: authentic_def survives_def)

lemma survives_some: "survives b x \<Longrightarrow> b \<noteq> None \<Longrightarrow> x \<noteq> None"
  by (auto simp: survives_def split: option.splits entry.splits)

lemma crash_ok:
  assumes ok: "journal_ok cd s" and crash: "crash_image s s'"
  shows "journal_ok cd s'" and "settled s'"
    and "safe C D s \<Longrightarrow> (\<forall>h \<in> C. committed s' h) \<and> (\<forall>h \<in> D. in_state s' Delivered h)"
proof -
  show st: "settled s'" using crash by (simp add: crash_image_def)
  have from_view: "in_view s (StateDir st, Archive h) e" if e: "seen s' (StateDir st, Archive h) = Some e" for st h e
  proof -
    have "survives (seen s (StateDir st, Archive h)) (Some e) \<or> survives (disk s (StateDir st, Archive h)) (Some e)"
      using crash e unfolding crash_image_def by metis
    then obtain e0 where e0: "in_view s (StateDir st, Archive h) e0" "survives (Some e0) (Some e)"
      unfolding in_view_def
      by (cases "seen s (StateDir st, Archive h)"; cases "disk s (StateDir st, Archive h)") (auto simp: survives_def)
    then have "authentic cd h e0" using journal_okD(2) [OF ok, of "(StateDir st, Archive h)"] by (simp add: entry_ok_def)
    with e0 authentic_survives show ?thesis by blast
  qed
  have named: "\<exists>e0. in_view s p e0" if e: "seen s' p = Some e" for p e
  proof -
    have "survives (seen s p) (Some e) \<or> survives (disk s p) (Some e)"
      using crash e unfolding crash_image_def by metis
    then show ?thesis by (cases "seen s p"; cases "disk s p") (auto simp: survives_def in_view_def)
  qed
  have view: "in_view s' p e \<longleftrightarrow> seen s' p = Some e" for p e using st unfolding in_view_def settled_def by metis
  show "journal_ok cd s'"
    unfolding journal_ok_def view
  proof (intro conjI allI impI)
    show "keys_ok s'" using crash by (simp add: crash_image_def)
    show "entry_ok cd p e" if e: "seen s' p = Some e" for p e
    proof -
      obtain e0 where e0: "entry_ok cd p e0" using named [OF e] journal_okD(2) [OF ok] by blast
      show ?thesis
      proof (cases "\<exists>st h. p = (StateDir st, Archive h)")
        case True
        then show ?thesis using from_view e journal_okD(2) [OF ok] by blast
      next
        case False
        then show ?thesis using e0 by (auto simp: entry_ok_def split: prod.splits jdir.splits jname.splits)
      qed
    qed
    show "e = e'" if "seen s' (StateDir st, Archive h) = Some e" "seen s' (StateDir st', Archive h) = Some e'" for h st st' e e'
      using journal_okD(3) [OF ok from_view [OF that(1)] from_view [OF that(2)]] .
  qed
  have keep: "in_state s' st h" if "held s st h" for st h
  proof -
    have held: "seen s (StateDir st, Archive h) \<noteq> None" "disk s (StateDir st, Archive h) \<noteq> None"
      using that by (simp_all add: held_def)
    have "survives (seen s (StateDir st, Archive h)) (seen s' (StateDir st, Archive h))
        \<or> survives (disk s (StateDir st, Archive h)) (seen s' (StateDir st, Archive h))"
      using crash by (simp add: crash_image_def)
    then show ?thesis unfolding in_state_def using survives_some [OF _ held(1)] survives_some [OF _ held(2)] by (elim disjE)
  qed
  show "safe C D s \<Longrightarrow> (\<forall>h \<in> C. committed s' h) \<and> (\<forall>h \<in> D. in_state s' Delivered h)"
    using keep unfolding safe_def committed_def by blast
qed

section \<open>Runs of operations\<close>

text \<open>\<open>runs cd m s r s'\<close>: from \<open>s\<close> the operation returns \<open>r\<close>, performs lawful actions only and leaves \<open>s'\<close>.\<close>

definition runs :: "('b, 'f) codec \<Rightarrow> ('a, 'b) op \<Rightarrow> 'b fs \<Rightarrow> 'a result \<Rightarrow> 'b fs \<Rightarrow> bool" where
  "runs cd m s r s' \<longleftrightarrow> (\<exists>as. m s = (r, as) \<and> perform_all as s = s' \<and> lawful_trace cd as s)"

lemma runs_ret: "runs cd (ret x) s (Inr x) s"
  by (simp add: runs_def ret_def)

lemma runs_fail: "runs cd (fail e) s (Inl e) s"
  by (simp add: runs_def fail_def)

lemma runs_look: "runs cd (look f) s (f s) s"
  by (simp add: runs_def look_def)

lemma runs_look_eq: "f s = r \<Longrightarrow> runs cd (look f) s r s"
  by (simp add: runs_def look_def)

lemma runs_action: "lawful cd a s \<Longrightarrow> runs cd (do_action a) s (Inr ()) (perform a s)"
  by (simp add: runs_def do_action_def perform_all_Cons)

lemma runs_andThen: "runs cd m s (Inr x) mid \<Longrightarrow> runs cd (f x) mid r s' \<Longrightarrow> runs cd (andThen m f) s r s'"
  by (auto simp: runs_def andThen_def perform_all_append lawful_trace_append)

lemma runs_andThen_fail: "runs cd m s (Inl e) s1 \<Longrightarrow> runs cd (andThen m f) s (Inl e) s1"
  by (auto simp: runs_def andThen_def)

lemma runs_finally: "runs cd m s r s1 \<Longrightarrow> runs cd f s1 (Inr ()) s2 \<Longrightarrow> runs cd (finally_do m f) s r s2"
  by (auto simp: runs_def finally_do_def perform_all_append lawful_trace_append)

lemma runs_at: "m s = m' s \<Longrightarrow> runs cd m' s r s' \<Longrightarrow> runs cd m s r s'"
  by (simp add: runs_def)

lemma runs_ok: "journal_ok cd s \<Longrightarrow> runs cd m s r s' \<Longrightarrow> journal_ok cd s'"
proof -
  assume ok: "journal_ok cd s" and "runs cd m s r s'"
  then obtain as where "perform_all as s = s'" "lawful_trace cd as s" by (auto simp: runs_def)
  moreover have "safe {} {} s" by (simp add: safe_def)
  ultimately show ?thesis using lawful_trace_prefix [OF ok, of "{}" "{}" as "length as"] by simp
qed

text \<open>A journal at rest: consistent, and everything that is seen is on disk.\<close>

definition at_rest :: "('b, 'f) codec \<Rightarrow> 'b fs \<Rightarrow> bool" where
  "at_rest cd s \<longleftrightarrow> journal_ok cd s \<and> settled s"

definition removable :: "'b fs \<Rightarrow> path \<Rightarrow> bool" where
  "removable s p \<longleftrightarrow> is_temporary (snd p) \<or> fst p = StateDir Prepared
     \<or> (\<exists>h. p = (StateDir Pending, Archive h) \<and> held s Delivered h)"

lemma run_sync: "cf_fsync cfg \<Longrightarrow> runs cd (sync_directory cfg d) s (Inr ()) (perform (SyncDir d) s)"
  unfolding sync_directory_def by (simp add: runs_action lawful_def)

lemma run_remove:
  assumes sync: "cf_fsync cfg" and rest: "at_rest cd s" and p: "removable s p"
  shows "\<exists>s'. runs cd (remove_path cfg p) s (Inr ()) s' \<and> at_rest cd s' \<and> seen s' = (seen s)(p := None)"
proof (cases "seen s p = None")
  case True
  then have "runs cd (remove_path cfg p) s (Inr ()) s"
    by (intro runs_at [OF _ runs_ret]) (simp add: remove_path_def)
  moreover have "seen s = (seen s)(p := None)" using True by auto
  ultimately show ?thesis using rest by metis
next
  case False
  let ?s1 = "perform (Unlink p) s" and ?s2 = "perform (SyncDir (fst p)) (perform (Unlink p) s)"
  have "runs cd (andThen (do_action (Unlink p)) (\<lambda>_. sync_directory cfg (fst p))) s (Inr ()) ?s2"
    by (rule runs_andThen [OF runs_action run_sync [OF sync]]) (use p in \<open>auto simp: lawful_def removable_def\<close>)
  then have run: "runs cd (remove_path cfg p) s (Inr ()) ?s2"
    by (rule runs_at [rotated]) (simp add: remove_path_def False)
  have seen: "seen ?s2 = (seen s)(p := None)" by auto
  have "settled ?s2" using rest by (auto simp: settled_def at_rest_def)
  with runs_ok [OF _ run] rest run seen show ?thesis unfolding at_rest_def by blast
qed

lemma in_view_rest: "settled s \<Longrightarrow> in_view s p e \<longleftrightarrow> seen s p = Some e"
  unfolding in_view_def settled_def by metis

text \<open>The record an authentic entry holds.\<close>

definition entry_record :: "('b, 'f) codec \<Rightarrow> jstate \<Rightarrow> string \<Rightarrow> 'b entry \<Rightarrow> 'f jrecord" where
  "entry_record cd st h e =
     (case e of
        Regular f \<Rightarrow> (case cd_decode cd (f_bytes f) of
            Inr frame \<Rightarrow> \<lparr>jr_frame = frame, jr_frame_id = h, jr_archive_id = cd_archive_id cd frame,
                         jr_sha = cd_sha cd (f_bytes f), jr_name = Archive h, jr_state = st\<rparr>
          | Inl _ \<Rightarrow> undefined)
      | Special \<Rightarrow> undefined)"

lemma load_record_ok:
  assumes "journal_ok cd s"
  shows "load_record cd st (Archive h) s
     = (case seen s (StateDir st, Archive h) of None \<Rightarrow> Inl FileNotFoundError | Some e \<Rightarrow> Inr (entry_record cd st h e))"
proof (cases "seen s (StateDir st, Archive h)")
  case None
  then show ?thesis by (simp add: load_record_def regular_bytes_def)
next
  case (Some e)
  then have "entry_ok cd (StateDir st, Archive h) e" using journal_okD(2) [OF assms] by (simp add: in_view_def)
  then have "authentic cd h e" by (simp add: entry_ok_def)
  with Some show ?thesis by (auto simp: load_record_def regular_bytes_def authentic_def entry_record_def)
qed

lemma entry_record_simps:
  "authentic cd h e \<Longrightarrow> record_path (entry_record cd st h e) = (StateDir st, Archive h)
     \<and> same_record (entry_record cd st h e) (entry_record cd st' h e) \<and> jr_state (entry_record cd st h e) = st
     \<and> jr_frame_id (entry_record cd st h e) = h"
  by (auto simp: authentic_def entry_record_def record_path_def same_record_def)

lemma seen_authentic: "journal_ok cd s \<Longrightarrow> seen s (StateDir st, Archive h) = Some e \<Longrightarrow> authentic cd h e"
  using journal_okD(2) [of cd s "(StateDir st, Archive h)" e] by (simp add: in_view_def entry_ok_def)

text \<open>What a record matches in the journal.\<close>

definition matches :: "('b, 'f) codec \<Rightarrow> string \<Rightarrow> 'b entry \<Rightarrow> 'f jrecord \<Rightarrow> bool" where
  "matches cd h e r = same_record (entry_record cd Prepared h e) r"

lemma existing_exact_ok:
  assumes "journal_ok cd s"
  shows "existing_exact cd st (Archive h) r s
     = (case seen s (StateDir st, Archive h) of
          None \<Rightarrow> Inr None
        | Some e \<Rightarrow> if matches cd h e r then Inr (Some (entry_record cd st h e)) else Inl FileExistsError)"
proof (cases "seen s (StateDir st, Archive h)")
  case None
  then show ?thesis by (simp add: existing_exact_def load_record_ok [OF assms])
next
  case (Some e)
  have "same_record (entry_record cd st h e) r \<longleftrightarrow> matches cd h e r"
    using entry_record_simps [OF seen_authentic [OF assms Some], of st Prepared] by (auto simp: matches_def same_record_def)
  with Some show ?thesis by (simp add: existing_exact_def load_record_ok [OF assms])
qed

lemma runs_existing:
  assumes "journal_ok cd s"
  shows "seen s (StateDir st, Archive h) = None \<Longrightarrow> runs cd (k None) s res s'
      \<Longrightarrow> runs cd (andThen (look (existing_exact cd st (Archive h) r)) k) s res s'"
    and "seen s (StateDir st, Archive h) = Some e \<Longrightarrow> matches cd h e r
      \<Longrightarrow> runs cd (k (Some (entry_record cd st h e))) s res s'
      \<Longrightarrow> runs cd (andThen (look (existing_exact cd st (Archive h) r)) k) s res s'"
    and "seen s (StateDir st, Archive h) = Some e \<Longrightarrow> \<not> matches cd h e r
      \<Longrightarrow> runs cd (andThen (look (existing_exact cd st (Archive h) r)) k) s (Inl FileExistsError) s"
  by (rule runs_andThen [where mid = s], rule runs_look_eq, simp add: existing_exact_ok [OF assms], assumption,
      rule runs_andThen [where mid = s], rule runs_look_eq, simp add: existing_exact_ok [OF assms], assumption,
      rule runs_andThen_fail, rule runs_look_eq, simp add: existing_exact_ok [OF assms])

lemma run_remove_existing:
  assumes sync: "cf_fsync cfg" and rest: "at_rest cd s" and p: "removable s (StateDir st, Archive h)"
    and m: "\<And>e. seen s (StateDir st, Archive h) = Some e \<Longrightarrow> matches cd h e r"
  shows "\<exists>s'. runs cd (remove_existing cfg cd (Archive h) r st) s (Inr ()) s' \<and> at_rest cd s'
     \<and> seen s' = (seen s)((StateDir st, Archive h) := None)"
proof -
  have ok: "journal_ok cd s" using rest by (simp add: at_rest_def)
  show ?thesis
  proof (cases "seen s (StateDir st, Archive h)")
    case None
    have "runs cd (remove_existing cfg cd (Archive h) r st) s (Inr ()) s"
      unfolding remove_existing_def by (rule runs_existing(1) [OF ok None]) (simp add: runs_ret)
    moreover have "seen s = (seen s)((StateDir st, Archive h) := None)" using None by auto
    ultimately show ?thesis using rest by metis
  next
    case (Some e)
    obtain s' where s': "runs cd (remove_path cfg (StateDir st, Archive h)) s (Inr ()) s'" "at_rest cd s'"
      "seen s' = (seen s)((StateDir st, Archive h) := None)"
      using run_remove [OF sync rest p] by blast
    have "record_path (entry_record cd st h e) = (StateDir st, Archive h)"
      using entry_record_simps [OF seen_authentic [OF ok Some]] by simp
    then have "runs cd (remove_existing cfg cd (Archive h) r st) s (Inr ()) s'"
      unfolding remove_existing_def by (intro runs_existing(2) [OF ok Some m [OF Some]]) (simp add: s'(1))
    with s' show ?thesis by blast
  qed
qed

text \<open>A promotion from a state whose archive is present; the destination is absent or the same.\<close>

lemma run_promote:
  assumes sync: "cf_fsync cfg" and rest: "at_rest cd s"
    and src: "seen s (StateDir st, Archive h) = Some e" and m: "matches cd h e r"
    and st: "(st, st') = (Prepared, Pending) \<or> (st, st') = (Pending, Delivered)"
  shows "\<exists>s'. runs cd (promote cfg cd st st' (Archive h) r) s (Inr (entry_record cd st' h e)) s' \<and> at_rest cd s'
     \<and> seen s' = (seen s)((StateDir st', Archive h) := Some e, (StateDir st, Archive h) := None)"
proof -
  have ok: "journal_ok cd s" and settled: "settled s" using rest by (simp_all add: at_rest_def)
  have auth: "authentic cd h e" by (rule seen_authentic [OF ok src])
  let ?src = "(StateDir st, Archive h)" and ?dst = "(StateDir st', Archive h)"
  have path: "record_path (entry_record cd st h e) = ?src" using entry_record_simps [OF auth] by simp
  have ne: "?src \<noteq> ?dst" using st by auto
  define s1 where "s1 = (if seen s ?dst = None then perform (Link ?src ?dst) s else s)"
  define s2 where "s2 = perform (SyncDir (StateDir st')) s1"
  have same: "seen s ?dst = Some e" if "seen s ?dst \<noteq> None"
    using that src journal_okD(3) [OF ok, of st' h _ st e] by (auto simp: in_view_def)
  have seen1: "seen s1 = (seen s)(?dst := Some e)" using src same by (auto simp: s1_def)
  have lawful: "lawful cd (Link ?src ?dst) s" if "seen s ?dst = None"
    using that src auth journal_okD(3) [OF ok, of _ h _ st e] by (auto simp: lawful_def in_view_def)
  have run1: "runs cd (\<lambda>s. if seen s ?dst \<noteq> None then
                look (\<lambda>s. bindR (existing_exact cd st' (Archive h) r s) (\<lambda>t.
                  case t of None \<Rightarrow> Inl RuntimeError | Some x \<Rightarrow> Inr x)) s
              else andThen (do_action (Link (record_path (entry_record cd st h e)) ?dst)) (\<lambda>_.
                look (\<lambda>s. bindR (load_record cd st' (Archive h) s) (\<lambda>t.
                  raise_if (\<not> same_record t r) RuntimeError (Inr t)))) s) s (Inr (entry_record cd st' h e)) s1"
  proof (cases "seen s ?dst = None")
    case False
    then show ?thesis
      using same [OF False] by (simp add: runs_def look_def s1_def existing_exact_ok [OF ok] m del: bindR_Inr_iff)
  next
    case True
    have r1: "runs cd (do_action (Link ?src ?dst)) s (Inr ()) s1"
      using runs_action [OF lawful [OF True]] True by (simp add: s1_def)
    have ok1: "journal_ok cd s1" by (rule runs_ok [OF ok r1])
    have "same_record (entry_record cd st' h e) r"
      using m entry_record_simps [OF auth, of st' Prepared] by (auto simp: matches_def same_record_def)
    then have "runs cd (look (\<lambda>s. bindR (load_record cd st' (Archive h) s) (\<lambda>t.
                  raise_if (\<not> same_record t r) RuntimeError (Inr t)))) s1 (Inr (entry_record cd st' h e)) s1"
      by (intro runs_look_eq) (simp add: load_record_ok [OF ok1] seen1 del: bindR_Inr_iff)
    note both = runs_andThen [OF r1 this]
    show ?thesis by (rule runs_at [OF _ both]) (simp only: True path not_True_eq_False if_False simp_thms)
  qed
  have run2: "runs cd (sync_directory cfg (StateDir st')) s1 (Inr ()) s2"
    unfolding s2_def by (rule run_sync [OF sync])
  have ok2: "journal_ok cd s2" by (rule runs_ok [OF runs_ok [OF ok run1] run2])
  have seen2: "seen s2 = (seen s)(?dst := Some e)" unfolding s2_def seen1 [symmetric] by auto
  have "disk s1 = disk s" by (auto simp: s1_def)
  then have settled2: "settled s2"
    using settled seen1 by (auto simp: s2_def settled_def)
  have rem: "removable s2 ?src"
    using st settled2 seen2 by (auto simp: removable_def held_def settled_def)
  have src2: "seen s2 ?src = Some e" using src ne by (simp add: seen2)
  obtain s' where s': "runs cd (remove_existing cfg cd (Archive h) r st) s2 (Inr ()) s'" "at_rest cd s'"
    "seen s' = (seen s2)(?src := None)"
    using run_remove_existing [OF sync _ rem, of cd r] ok2 settled2 src2 m by (auto simp: at_rest_def)
  have "runs cd (promote cfg cd st st' (Archive h) r) s (Inr (entry_record cd st' h e)) s'"
    unfolding promote_def
    by (rule runs_existing(2) [OF ok src m], simp only: option.case, rule runs_andThen [OF run1],
        rule runs_andThen [OF run2], rule runs_andThen [OF s'(1)], rule runs_ret)
  with s' seen2 show ?thesis by auto
qed

end
