(* ===== verification/Pops_Recovery.thy ===== *)
theory Pops_Recovery
  imports Pops_Journal
begin

text \<open>
  What the durable journal guarantees: every operation, from a journal at rest, performs lawful
  actions only, so a power failure between any two of them loses no committed frame, and the
  recovery of the reopened journal leaves each frame in one state and no preparation.
\<close>

section \<open>Recovery\<close>

definition keeps :: "'b fs \<Rightarrow> jstate \<Rightarrow> string \<Rightarrow> bool" where
  "keeps s st h \<longleftrightarrow> st = Delivered \<or> st = Pending \<and> \<not> in_state s Delivered h"

abbreviation entry_body :: "config \<Rightarrow> jstate \<Rightarrow> jname \<Rightarrow> (unit, 'b) op" where
  "entry_body cfg st \<equiv> (\<lambda>name. if is_temporary name then (if True then remove_path cfg (StateDir st, name) else fail ValueError)
     else check_entry st name)"

lemma run_entry:
  assumes sync: "cf_fsync cfg" and rest: "at_rest cd s" and n: "is_temporary n \<or> (\<exists>h. n = Archive h \<and> in_state s st h)"
  shows "\<exists>s'. runs cd (entry_body cfg st n) s (Inr ()) s' \<and> at_rest cd s'
     \<and> seen s' = (if is_temporary n then (seen s)((StateDir st, n) := None) else seen s)"
proof (cases "is_temporary n")
  case True
  then show ?thesis using run_remove [OF sync rest, of "(StateDir st, n)"] by (simp add: removable_def)
next
  case False
  then obtain h e where h: "n = Archive h" "seen s (StateDir st, Archive h) = Some e"
    using n by (auto simp: in_state_def)
  have "authentic cd h e" using seen_authentic h(2) rest unfolding at_rest_def by blast
  then have "runs cd (check_entry st n) s (Inr ()) s"
    using h by (auto simp: runs_def check_entry_def authentic_def ret_def)
  with False rest show ?thesis by auto
qed

lemma run_entries_loop:
  assumes sync: "cf_fsync cfg"
  shows "at_rest cd s \<Longrightarrow> \<forall>n \<in> set names. is_temporary n \<or> (\<exists>h. n = Archive h \<and> in_state s st h) \<Longrightarrow>
    \<exists>s'. runs cd (for_each (entry_body cfg st) names) s (Inr ()) s' \<and> at_rest cd s'
     \<and> seen s' = (\<lambda>p. if fst p = StateDir st \<and> snd p \<in> set names \<and> is_temporary (snd p) then None else seen s p)"
proof (induction names arbitrary: s)
  case Nil
  have "runs cd (for_each (entry_body cfg st) []) s (Inr ()) s" by (simp only: for_each.simps runs_ret)
  with Nil show ?case by (intro exI [of _ s]) (simp add: fun_eq_iff)
next
  case (Cons n names)
  have n: "is_temporary n \<or> (\<exists>h. n = Archive h \<and> in_state s st h)" using Cons.prems(2) by simp
  obtain mid where mid: "runs cd (entry_body cfg st n) s (Inr ()) mid" "at_rest cd mid"
    "seen mid = (if is_temporary n then (seen s)((StateDir st, n) := None) else seen s)"
    using run_entry [OF sync Cons.prems(1) n] by blast
  have same: "in_state mid st h \<longleftrightarrow> in_state s st h" for h
    by (auto simp: in_state_def mid(3) is_temporary_def)
  have "\<forall>n \<in> set names. is_temporary n \<or> (\<exists>h. n = Archive h \<and> in_state mid st h)"
    using Cons.prems(2) unfolding same by simp
  from Cons.IH [OF mid(2) this] obtain s' where s': "runs cd (for_each (entry_body cfg st) names) mid (Inr ()) s'" "at_rest cd s'"
    "seen s' = (\<lambda>p. if fst p = StateDir st \<and> snd p \<in> set names \<and> is_temporary (snd p) then None else seen mid p)" by blast
  have "seen s' = (\<lambda>p. if fst p = StateDir st \<and> snd p \<in> set (n # names) \<and> is_temporary (snd p) then None else seen s p)"
    unfolding s'(3) mid(3) fun_eq_iff by (auto split: if_splits)
  moreover have "runs cd (for_each (entry_body cfg st) (n # names)) s (Inr ()) s'"
    unfolding for_each.simps by (rule runs_andThen [OF mid(1) s'(1)])
  ultimately show ?case using s'(2) by blast
qed

lemma rest_name:
  assumes "at_rest cd s" and "seen s (StateDir st, n) \<noteq> None"
  shows "is_temporary n \<or> (\<exists>h. n = Archive h \<and> in_state s st h)"
proof -
  obtain e where e: "seen s (StateDir st, n) = Some e" using assms(2) by auto
  then have "entry_ok cd (StateDir st, n) e"
    using journal_okD(2) assms(1) unfolding at_rest_def in_view_def by blast
  then show ?thesis using e by (auto simp: entry_ok_def in_state_def is_temporary_def split: jname.splits)
qed

lemma run_state_entries:
  assumes sync: "cf_fsync cfg" and rest: "at_rest cd s"
  shows "\<exists>names s'. runs cd (state_entries cfg st True) s (Inr names) s' \<and> at_rest cd s' \<and> distinct names
     \<and> (\<forall>n. n \<in> set names \<longleftrightarrow> (\<exists>h. n = Archive h \<and> in_state s st h))
     \<and> seen s' = (\<lambda>p. if fst p = StateDir st \<and> is_temporary (snd p) then None else seen s p)"
proof -
  let ?names = "directory_names s (StateDir st)"
  have all: "\<forall>n \<in> set ?names. is_temporary n \<or> (\<exists>h. n = Archive h \<and> in_state s st h)"
    using rest_name [OF rest] by (simp add: directory_names_iff)
  obtain s' where s': "runs cd (for_each (entry_body cfg st) ?names) s (Inr ()) s'" "at_rest cd s'"
     "seen s' = (\<lambda>p. if fst p = StateDir st \<and> snd p \<in> set ?names \<and> is_temporary (snd p) then None else seen s p)"
    using run_entries_loop [OF sync rest all] by blast
  have run: "runs cd (state_entries cfg st True) s (Inr (filter (\<lambda>n. \<not> is_temporary n) ?names)) s'"
    by (rule runs_at [OF _ runs_andThen [OF s'(1) runs_ret]]) (simp add: state_entries_def Let_def)
  have "seen s' = (\<lambda>p. if fst p = StateDir st \<and> is_temporary (snd p) then None else seen s p)"
  proof
    fix p
    show "seen s' p = (if fst p = StateDir st \<and> is_temporary (snd p) then None else seen s p)"
      by (cases p) (auto simp: s'(3) directory_names_iff)
  qed
  moreover have "distinct (filter (\<lambda>n. \<not> is_temporary n) ?names)"
    using rest directory_names_distinct [of s "StateDir st"] unfolding at_rest_def journal_ok_def by (simp add: distinct_filter)
  moreover have "n \<in> set (filter (\<lambda>n. \<not> is_temporary n) ?names) \<longleftrightarrow> (\<exists>h. n = Archive h \<and> in_state s st h)" for n
    using all by (auto simp: directory_names_iff in_state_def is_temporary_def)
  ultimately show ?thesis using run s'(2) by blast
qed

lemma stale_removable:
  "settled s \<Longrightarrow> st = Prepared \<or> st = Pending \<and> in_state s Delivered h \<Longrightarrow> removable s (StateDir st, Archive h)"
  by (auto simp: removable_def held_def in_state_def settled_def)

lemma run_remove_listed:
  assumes "cf_fsync cfg" and "at_rest cd s" and "st = Prepared \<or> st = Pending \<and> in_state s Delivered h"
    and "st \<notin> set P \<Longrightarrow> \<not> in_state s st h"
  shows "\<exists>s'. runs cd (if st \<in> set P then remove_path cfg (StateDir st, Archive h) else ret ()) s (Inr ()) s' \<and> at_rest cd s'
    \<and> seen s' = (seen s)((StateDir st, Archive h) := None)"
proof (cases "st \<in> set P")
  case True
  then show ?thesis using run_remove [OF assms(1,2) stale_removable] assms(2,3) by (simp add: at_rest_def)
next
  case False
  then have "seen s = (seen s)((StateDir st, Archive h) := None)" using assms(4) by (auto simp: in_state_def)
  with False assms(2) runs_ret [of cd "()" s] show ?thesis by (intro exI [of _ s]) simp
qed

lemma run_remove_stale:
  assumes sync: "cf_fsync cfg" and rest: "at_rest cd s" and P: "\<And>st. st \<in> set P \<longleftrightarrow> in_state s st h" and some: "P \<noteq> []"
  shows "\<exists>s'. runs cd (remove_stale cfg P (Archive h)) s (Inr ()) s' \<and> at_rest cd s'
     \<and> seen s' = (\<lambda>p. if \<exists>st. p = (StateDir st, Archive h) \<and> \<not> keeps s st h then None else seen s p)"
proof (cases "in_state s Delivered h")
  case True
  obtain mid where mid: "runs cd (if Pending \<in> set P then remove_path cfg (StateDir Pending, Archive h) else ret ()) s (Inr ()) mid"
    "at_rest cd mid" "seen mid = (seen s)((StateDir Pending, Archive h) := None)"
    using run_remove_listed [OF sync rest, of Pending h P] True P by auto
  have "Prepared \<notin> set P \<Longrightarrow> \<not> in_state mid Prepared h" using P by (simp add: in_state_def mid(3))
  from run_remove_listed [OF sync mid(2) _ this]
  obtain s' where s': "runs cd (if Prepared \<in> set P then remove_path cfg (StateDir Prepared, Archive h) else ret ()) mid (Inr ()) s'"
    "at_rest cd s'" "seen s' = (seen mid)((StateDir Prepared, Archive h) := None)" by blast
  have run: "runs cd (remove_stale cfg P (Archive h)) s (Inr ()) s'"
    unfolding remove_stale_def for_each.simps
    by (simp only: P True if_True,
        rule runs_andThen [OF mid(1) [unfolded P]], rule runs_andThen [OF s'(1) [unfolded P]], rule runs_ret)
  have keep: "keeps s st h \<longleftrightarrow> st = Delivered" for st using True by (simp add: keeps_def)
  have seen: "seen s' = (\<lambda>p. if \<exists>st. p = (StateDir st, Archive h) \<and> \<not> keeps s st h then None else seen s p)"
  proof
    fix p
    show "seen s' p = (if \<exists>st. p = (StateDir st, Archive h) \<and> \<not> keeps s st h then None else seen s p)"
      unfolding keep s'(3) mid(3) using jstate.exhaust by (auto simp del: split_paired_Ex)
  qed
  show ?thesis using run s'(2) seen by blast
next
  case False
  obtain s' where s': "runs cd (if Prepared \<in> set P then remove_path cfg (StateDir Prepared, Archive h) else ret ()) s (Inr ()) s'"
    "at_rest cd s'" "seen s' = (seen s)((StateDir Prepared, Archive h) := None)"
    using run_remove_listed [OF sync rest, of Prepared h P] P by auto
  have only: "\<not> in_state s Pending h \<Longrightarrow> in_state s Prepared h"
    using hd_in_set [OF some, unfolded P] False by (cases "hd P") auto
  have run: "runs cd (remove_stale cfg P (Archive h)) s (Inr ()) s'"
    by (rule runs_at [OF _ s'(1)]) (use False only in \<open>simp add: remove_stale_def P\<close>)
  have seen: "seen s' = (\<lambda>p. if \<exists>st. p = (StateDir st, Archive h) \<and> \<not> keeps s st h then None else seen s p)"
  proof
    fix p
    show "seen s' p = (if \<exists>st. p = (StateDir st, Archive h) \<and> \<not> keeps s st h then None else seen s p)"
      using False unfolding s'(3) keeps_def in_state_def by (auto; metis jstate.exhaust)
  qed
  show ?thesis using run s'(2) seen by blast
qed

lemma run_recover_name:
  assumes sync: "cf_fsync cfg" and rest: "at_rest cd s"
    and member: "\<And>st. Archive h \<in> set (E st) \<longleftrightarrow> in_state s st h" and some: "\<exists>st. in_state s st h"
  shows "\<exists>s'. runs cd (recover_name cfg cd [(Prepared, E Prepared), (Pending, E Pending), (Delivered, E Delivered)] (Archive h)) s (Inr ()) s'
     \<and> at_rest cd s'
     \<and> seen s' = (\<lambda>p. if \<exists>st. p = (StateDir st, Archive h) \<and> \<not> keeps s st h then None else seen s p)"
proof -
  have ok: "journal_ok cd s" using rest by (simp add: at_rest_def)
  obtain st0 e where e0: "seen s (StateDir st0, Archive h) = Some e" using some by (auto simp: in_state_def)
  have e: "seen s (StateDir st, Archive h) = Some e" if "in_state s st h" for st
    using that e0 journal_okD(3) [OF ok, of st h _ st0 e] by (auto simp: in_state_def in_view_def)
  define P where "P = filter (\<lambda>st. in_state s st h) [Prepared, Pending, Delivered]"
  have names: "map fst (filter (\<lambda>(_, names). Archive h \<in> set names) [(Prepared, E Prepared), (Pending, E Pending), (Delivered, E Delivered)]) = P"
    by (simp add: P_def member)
  have load: "traverse (\<lambda>st. load_record cd st (Archive h) s) P = Inr (map (\<lambda>st. entry_record cd st h e) P)"
    by (rule traverse_map_Inr) (auto simp: P_def load_record_ok [OF ok] dest!: e simp del: filter.simps)
  have inP: "st \<in> set P \<longleftrightarrow> in_state s st h" for st by (cases st) (auto simp: P_def)
  obtain p ps where P: "P = p # ps" using some inP by (cases P) auto
  have p: "in_state s p h" using P inP [of p] by simp
  have states: "map jr_state (map (\<lambda>st. entry_record cd st h e) P) = P"
    using entry_record_simps [OF seen_authentic [OF ok e0]] by (simp add: comp_def)
  have same: "list_all (same_record (entry_record cd p h e)) (map (\<lambda>st. entry_record cd st h e) ps)"
    using entry_record_simps [OF seen_authentic [OF ok e0]] by (simp add: list_all_iff)
  have nonempty: "P \<noteq> []" by (simp add: P)
  obtain s' where s': "runs cd (remove_stale cfg P (Archive h)) s (Inr ()) s'" "at_rest cd s'"
     "seen s' = (\<lambda>p. if \<exists>st. p = (StateDir st, Archive h) \<and> \<not> keeps s st h then None else seen s p)"
    using run_remove_stale [OF sync rest inP nonempty] by blast
  have "runs cd (recover_name cfg cd [(Prepared, E Prepared), (Pending, E Pending), (Delivered, E Delivered)] (Archive h)) s (Inr ()) s'"
    unfolding recover_name_def names
    by (rule runs_andThen, rule runs_look_eq, rule load)
      (simp only: states P list.map list.case same not_True_eq_False if_False, simp only: s'(1) P [symmetric] states [unfolded P list.map])
  with s' show ?thesis by blast
qed

lemma run_recover_loop:
  assumes sync: "cf_fsync cfg"
  shows "at_rest cd s \<Longrightarrow> distinct names \<Longrightarrow> \<forall>n \<in> set names. \<exists>h st. n = Archive h \<and> in_state s st h
    \<Longrightarrow> \<forall>h. Archive h \<in> set names \<longrightarrow> (\<forall>st. Archive h \<in> set (E st) \<longleftrightarrow> in_state s st h) \<Longrightarrow>
    \<exists>s'. runs cd (for_each (recover_name cfg cd [(Prepared, E Prepared), (Pending, E Pending), (Delivered, E Delivered)]) names) s (Inr ()) s'
     \<and> at_rest cd s'
     \<and> seen s' = (\<lambda>p. if \<exists>st h. p = (StateDir st, Archive h) \<and> Archive h \<in> set names \<and> \<not> keeps s st h then None else seen s p)"
proof (induction names arbitrary: s)
  case Nil
  then show ?case by (intro exI [of _ s]) (simp add: runs_ret)
next
  case (Cons n names)
  let ?body = "recover_name cfg cd [(Prepared, E Prepared), (Pending, E Pending), (Delivered, E Delivered)]"
  obtain h where n: "n = Archive h" and some: "\<exists>st. in_state s st h" using Cons.prems(3) by auto
  have member: "Archive h \<in> set (E st) \<longleftrightarrow> in_state s st h" for st using Cons.prems(4) n by simp
  obtain mid where mid: "runs cd (?body n) s (Inr ()) mid" "at_rest cd mid"
    "seen mid = (\<lambda>p. if \<exists>st. p = (StateDir st, Archive h) \<and> \<not> keeps s st h then None else seen s p)"
    using run_recover_name [OF sync Cons.prems(1) member some] unfolding n by blast
  have new: "h' \<noteq> h" if "Archive h' \<in> set names" for h' using that Cons.prems(2) n by auto
  have same: "in_state mid st h' \<longleftrightarrow> in_state s st h'" if "h' \<noteq> h" for st h'
    using that by (simp add: in_state_def mid(3))
  have each: "\<forall>n \<in> set names. \<exists>h st. n = Archive h \<and> in_state mid st h"
  proof
    fix n' assume n': "n' \<in> set names"
    then obtain h' st where "n' = Archive h'" "in_state s st h'" using Cons.prems(3) by auto
    with n' show "\<exists>h st. n' = Archive h \<and> in_state mid st h" using same [OF new] by blast
  qed
  have members: "\<forall>h. Archive h \<in> set names \<longrightarrow> (\<forall>st. Archive h \<in> set (E st) \<longleftrightarrow> in_state mid st h)"
    using Cons.prems(4) same [OF new] by simp
  have "distinct names" using Cons.prems(2) by simp
  from Cons.IH [OF mid(2) this each members] obtain s' where s': "runs cd (for_each ?body names) mid (Inr ()) s'" "at_rest cd s'"
    "seen s' = (\<lambda>p. if \<exists>st h. p = (StateDir st, Archive h) \<and> Archive h \<in> set names \<and> \<not> keeps mid st h then None else seen mid p)"
    by blast
  have kept: "keeps mid st h' \<longleftrightarrow> keeps s st h'" if "Archive h' \<in> set names" for st h'
    using same [OF new [OF that]] by (simp add: keeps_def)
  have "seen s' = (\<lambda>p. if \<exists>st h. p = (StateDir st, Archive h) \<and> Archive h \<in> set (n # names) \<and> \<not> keeps s st h then None else seen s p)"
  proof
    fix p
    show "seen s' p = (if \<exists>st h. p = (StateDir st, Archive h) \<and> Archive h \<in> set (n # names) \<and> \<not> keeps s st h then None else seen s p)"
      unfolding s'(3) mid(3) n using kept by auto
  qed
  moreover have "runs cd (for_each ?body (n # names)) s (Inr ()) s'"
    unfolding for_each.simps by (rule runs_andThen [OF mid(1) s'(1)])
  ultimately show ?case using s'(2) by blast
qed

lemma ex_jstate: "(\<exists>st. P st) \<longleftrightarrow> P Prepared \<or> P Pending \<or> P Delivered"
  by (metis jstate.exhaust)

text \<open>What a recovery leaves of a name.\<close>

definition survivor :: "'b fs \<Rightarrow> path \<Rightarrow> bool" where
  "survivor s p =
     (case p of
        (Root, _) \<Rightarrow> True
      | (StateDir st, n) \<Rightarrow> (case n of Archive h \<Rightarrow> keeps s st h | _ \<Rightarrow> \<not> is_temporary n))"

lemma run_recover:
  assumes sync: "cf_fsync cfg" and rest: "at_rest cd s"
  shows "\<exists>s'. runs cd (recover cfg cd) s (Inr ()) s' \<and> at_rest cd s'
     \<and> seen s' = (\<lambda>p. if survivor s p then seen s p else None)"
proof -
  obtain E1 s1 where r1: "runs cd (state_entries cfg Prepared True) s (Inr E1) s1" "at_rest cd s1" "distinct E1"
    "\<forall>n. n \<in> set E1 \<longleftrightarrow> (\<exists>h. n = Archive h \<and> in_state s Prepared h)"
    "seen s1 = (\<lambda>p. if fst p = StateDir Prepared \<and> is_temporary (snd p) then None else seen s p)"
    using run_state_entries [OF sync rest] by metis
  obtain E2 s2 where r2: "runs cd (state_entries cfg Pending True) s1 (Inr E2) s2" "at_rest cd s2" "distinct E2"
    "\<forall>n. n \<in> set E2 \<longleftrightarrow> (\<exists>h. n = Archive h \<and> in_state s1 Pending h)"
    "seen s2 = (\<lambda>p. if fst p = StateDir Pending \<and> is_temporary (snd p) then None else seen s1 p)"
    using run_state_entries [OF sync r1(2)] by metis
  obtain E3 s3 where r3: "runs cd (state_entries cfg Delivered True) s2 (Inr E3) s3" "at_rest cd s3" "distinct E3"
    "\<forall>n. n \<in> set E3 \<longleftrightarrow> (\<exists>h. n = Archive h \<and> in_state s2 Delivered h)"
    "seen s3 = (\<lambda>p. if fst p = StateDir Delivered \<and> is_temporary (snd p) then None else seen s2 p)"
    using run_state_entries [OF sync r2(2)] by metis
  have seen3: "seen s3 = (\<lambda>p. if fst p \<noteq> Root \<and> is_temporary (snd p) then None else seen s p)"
  proof
    fix p :: path
    obtain d n where p: "p = (d, n)" by (cases p)
    show "seen s3 p = (if fst p \<noteq> Root \<and> is_temporary (snd p) then None else seen s p)"
      unfolding r3(5) r2(5) r1(5) p by (cases d) (auto split: if_splits intro: jstate.exhaust)
  qed
  have in3: "in_state s3 st h \<longleftrightarrow> in_state s st h" for st h by (simp add: in_state_def seen3 is_temporary_def)
  have in12: "in_state s1 st h \<longleftrightarrow> in_state s st h" "in_state s2 st h \<longleftrightarrow> in_state s st h" for st h
    by (simp_all add: in_state_def r1(5) r2(5) is_temporary_def)
  define E where "E st = (case st of Prepared \<Rightarrow> E1 | Pending \<Rightarrow> E2 | Delivered \<Rightarrow> E3)" for st
  have E: "n \<in> set (E st) \<longleftrightarrow> (\<exists>h. n = Archive h \<and> in_state s st h)" for n st
    using r1(4) r2(4) r3(4) in12 by (cases st) (simp_all add: E_def)
  let ?names = "sort_key archive_key (dedup (E1 @ E2 @ E3))"
  have names: "n \<in> set ?names \<longleftrightarrow> (\<exists>h. n = Archive h \<and> (\<exists>st. in_state s st h))" for n
  proof -
    have "n \<in> set ?names \<longleftrightarrow> (\<exists>st. n \<in> set (E st))"
      by (simp add: set_dedup ex_jstate E_def)
    then show ?thesis by (auto simp: E)
  qed
  have "\<exists>s'. runs cd (for_each (recover_name cfg cd [(Prepared, E Prepared), (Pending, E Pending), (Delivered, E Delivered)]) ?names) s3 (Inr ()) s'
     \<and> at_rest cd s' \<and> seen s' = (\<lambda>p. if \<exists>st h. p = (StateDir st, Archive h) \<and> Archive h \<in> set ?names \<and> \<not> keeps s3 st h then None else seen s3 p)"
    by (rule run_recover_loop [OF sync r3(2)]) (use names in \<open>auto simp: in3 E distinct_dedup\<close>)
  then obtain s' where s': "runs cd (for_each (recover_name cfg cd [(Prepared, E1), (Pending, E2), (Delivered, E3)]) ?names) s3 (Inr ()) s'"
     "at_rest cd s'" "seen s' = (\<lambda>p. if \<exists>st h. p = (StateDir st, Archive h) \<and> Archive h \<in> set ?names \<and> \<not> keeps s3 st h then None else seen s3 p)"
    by (auto simp: E_def)
  have run: "runs cd (recover cfg cd) s (Inr ()) s'"
    unfolding recover_def by (rule runs_andThen [OF r1(1)], rule runs_andThen [OF r2(1)], rule runs_andThen [OF r3(1)], rule s'(1))
  have "seen s' = (\<lambda>p. if survivor s p then seen s p else None)"
  proof
    fix p :: path
    obtain d n where p: "p = (d, n)" by (cases p)
    have keep3: "keeps s3 st h \<longleftrightarrow> keeps s st h" for st h by (simp add: keeps_def in3)
    show "seen s' p = (if survivor s p then seen s p else None)"
      unfolding s'(3) seen3 p keep3 survivor_def names
      by (cases d) (auto simp: is_temporary_def in_state_def split: jname.splits)
  qed
  with run s'(2) show ?thesis by blast
qed

section \<open>Requests\<close>

text \<open>\<open>yields cd m s P\<close>: from \<open>s\<close> the operation performs lawful actions only, ends at rest, and its
  result and final state satisfy \<open>P\<close>.\<close>

definition yields :: "('b, 'f) codec \<Rightarrow> ('a, 'b) op \<Rightarrow> 'b fs \<Rightarrow> ('a result \<Rightarrow> (path \<Rightarrow> 'b entry option) \<Rightarrow> bool) \<Rightarrow> bool" where
  "yields cd m s P \<longleftrightarrow> (\<exists>r s'. runs cd m s r s' \<and> at_rest cd s' \<and> P r (seen s'))"

lemma yields_runs: "runs cd m s r s' \<Longrightarrow> at_rest cd s' \<Longrightarrow> P r (seen s') \<Longrightarrow> yields cd m s P"
  unfolding yields_def by blast

lemma yields_ret: "at_rest cd s \<Longrightarrow> P (Inr x) (seen s) \<Longrightarrow> yields cd (ret x) s P"
  by (rule yields_runs [OF runs_ret])

lemma yields_fail: "at_rest cd s \<Longrightarrow> P (Inl x) (seen s) \<Longrightarrow> yields cd (fail x) s P"
  by (rule yields_runs [OF runs_fail])

lemma yields_after: "runs cd m s (Inr x) mid \<Longrightarrow> yields cd (f x) mid P \<Longrightarrow> yields cd (andThen m f) s P"
  unfolding yields_def using runs_andThen [of cd m s x mid f] by blast

lemma yields_existing:
  assumes rest: "at_rest cd s"
    and none: "seen s (StateDir st, Archive h) = None \<Longrightarrow> yields cd (k None) s P"
    and same: "\<And>e. seen s (StateDir st, Archive h) = Some e \<Longrightarrow> matches cd h e r
      \<Longrightarrow> yields cd (k (Some (entry_record cd st h e))) s P"
    and other: "\<And>e. seen s (StateDir st, Archive h) = Some e \<Longrightarrow> \<not> matches cd h e r \<Longrightarrow> P (Inl FileExistsError) (seen s)"
  shows "yields cd (andThen (look (existing_exact cd st (Archive h) r)) k) s P"
proof -
  have ok: "journal_ok cd s" using rest by (simp add: at_rest_def)
  show ?thesis
  proof (cases "seen s (StateDir st, Archive h)")
    case None
    from none [OF None] obtain res s' where "runs cd (k None) s res s'" "at_rest cd s'" "P res (seen s')"
      unfolding yields_def by blast
    with runs_existing(1) [OF ok None, of k res s' r] show ?thesis unfolding yields_def by blast
  next
    case (Some e)
    show ?thesis
    proof (cases "matches cd h e r")
      case True
      from same [OF Some True] obtain res s' where "runs cd (k (Some (entry_record cd st h e))) s res s'" "at_rest cd s'" "P res (seen s')"
        unfolding yields_def by blast
      with runs_existing(2) [OF ok Some True, of k res s'] show ?thesis unfolding yields_def by blast
    next
      case False
      then show ?thesis
        using runs_existing(3) [OF ok Some, of r k] rest other [OF Some] unfolding yields_def by blast
    qed
  qed
qed

text \<open>The archive is new: the temporary is written and synced, linked, and its directory synced.\<close>

lemma run_publish:
  assumes sync: "cf_fsync cfg" and rest: "at_rest cd s" and new: "\<And>st. seen s (StateDir st, Archive h) = None"
    and auth: "authentic cd h (Regular \<lparr>f_bytes = payload, f_stable = True\<rparr>)"
    and fresh: "seen s (StateDir Prepared, Temporary (Archive h) token) = None"
  shows "\<exists>s'. runs cd (publish_exact cfg (StateDir Prepared, Archive h) token payload) s (Inr ()) s' \<and> at_rest cd s'
    \<and> seen s' = (seen s)((StateDir Prepared, Archive h) := Some (Regular \<lparr>f_bytes = payload, f_stable = True\<rparr>))"
proof -
  let ?d = "StateDir Prepared"
  let ?t = "(?d, Archive h)" and ?tmp = "(?d, Temporary (Archive h) token)" and ?e = "Regular \<lparr>f_bytes = payload, f_stable = True\<rparr>"
  have ok: "journal_ok cd s" and settled: "settled s" using rest by (simp_all add: at_rest_def)
  define s1 where "s1 = perform (Write ?tmp payload) s"
  define s2 where "s2 = perform (SyncFile ?tmp) s1"
  define s3 where "s3 = perform (Link ?tmp ?t) s2"
  define s4 where "s4 = perform (SyncDir ?d) s3"
  define s5 where "s5 = perform (Unlink ?tmp) s4"
  define s6 where "s6 = perform (SyncDir ?d) s5"
  have disk: "disk s p = seen s p" for p using settled unfolding settled_def by blast
  have seen2: "seen s2 p = (if p = ?tmp then Some ?e else seen s p)" for p by (simp add: s2_def s1_def)
  have disk2: "disk s2 p = seen s p" for p using fresh by (simp add: s2_def s1_def disk)
  have r1: "runs cd (do_action (Write ?tmp payload)) s (Inr ()) s1"
    unfolding s1_def by (rule runs_action) (simp add: lawful_def is_temporary_def fresh)
  have r2: "runs cd (do_action (SyncFile ?tmp)) s1 (Inr ()) s2"
    unfolding s2_def by (rule runs_action) (simp add: lawful_def is_temporary_def)
  have l3: "lawful cd (Link ?tmp ?t) s2"
    using new auth by (auto simp: lawful_def seen2 in_view_def disk2)
  have r3: "runs cd (do_action (Link ?tmp ?t)) s2 (Inr ()) s3"
    unfolding s3_def by (rule runs_action [OF l3])
  have r4: "runs cd (sync_directory cfg ?d) s3 (Inr ()) s4" unfolding s4_def by (rule run_sync [OF sync])
  have r5: "runs cd (do_action (Unlink ?tmp)) s4 (Inr ()) s5"
    unfolding s5_def by (rule runs_action) (simp add: lawful_def is_temporary_def)
  have r6: "runs cd (sync_directory cfg ?d) s5 (Inr ()) s6" unfolding s6_def by (rule run_sync [OF sync])
  have look: "runs cd (look (\<lambda>s. raise_if (seen s ?tmp \<noteq> None) FileExistsError (Inr ()))) s (Inr ()) s"
    by (rule runs_look_eq) (simp add: fresh)
  have wrote: "runs cd (write_temporary cfg ?t token payload) s (Inr ?tmp) s2"
    unfolding write_temporary_def Let_def fst_conv snd_conv
    by (rule runs_andThen [OF look], rule runs_andThen [OF r1], rule runs_andThen, simp only: sync if_True, rule r2, rule runs_ret)
  have "seen s2 ?t = None" using new by (simp add: seen2)
  then have link: "runs cd (\<lambda>s. if seen s ?t = None then do_action (Link ?tmp ?t) s
                       else look (\<lambda>s. bindR (regular_bytes s ?t) (\<lambda>b.
                              raise_if (b \<noteq> payload) FileExistsError (Inr ()))) s) s2 (Inr ()) s3"
    by (intro runs_at [OF _ r3]) simp
  have "seen s4 ?tmp \<noteq> None" by (simp add: s4_def s3_def seen2)
  then have same: "remove_path cfg ?tmp s4 = andThen (do_action (Unlink ?tmp)) (\<lambda>_. sync_directory cfg ?d) s4"
    by (auto simp: remove_path_def)
  have remove: "runs cd (remove_path cfg ?tmp) s4 (Inr ()) s6"
    by (rule runs_at, rule same, rule runs_andThen [OF r5], rule r6)
  have run: "runs cd (publish_exact cfg ?t token payload) s (Inr ()) s6"
    unfolding publish_exact_def fst_conv
    by (rule runs_andThen [OF wrote], rule runs_finally, rule runs_andThen [OF link r4], rule remove)
  have seen6: "seen s6 = (seen s)(?t := Some ?e)"
    using fresh by (auto simp: s6_def s5_def s4_def s3_def seen2)
  have "settled s6"
    unfolding settled_def s6_def s5_def s4_def s3_def using fresh by (auto simp: disk2 seen2)
  with runs_ok [OF ok run] run seen6 show ?thesis by (auto simp: at_rest_def)
qed

text \<open>The frame codec reads back what it wrote.\<close>

definition codec_ok :: "('b, 'f) codec \<Rightarrow> bool" where
  "codec_ok cd \<longleftrightarrow> (\<forall>f. cd_decode cd (cd_encode cd f) = Inr f)"

definition frame_entry :: "('b, 'f) codec \<Rightarrow> 'f \<Rightarrow> 'b entry" where
  "frame_entry cd f = Regular \<lparr>f_bytes = cd_encode cd f, f_stable = True\<rparr>"

definition frame_record :: "('b, 'f) codec \<Rightarrow> 'f \<Rightarrow> jstate \<Rightarrow> 'f jrecord" where
  "frame_record cd f st =
     \<lparr>jr_frame = f, jr_frame_id = cd_frame_id cd f, jr_archive_id = cd_archive_id cd f,
      jr_sha = cd_sha cd (cd_encode cd f), jr_name = Archive (cd_frame_id cd f), jr_state = st\<rparr>"

lemma frame_entry_record: "codec_ok cd \<Longrightarrow> entry_record cd st (cd_frame_id cd f) (frame_entry cd f) = frame_record cd f st"
  by (simp add: codec_ok_def entry_record_def frame_entry_def frame_record_def)

lemma frame_entry_authentic: "codec_ok cd \<Longrightarrow> authentic cd (cd_frame_id cd f) (frame_entry cd f)"
  by (simp add: codec_ok_def authentic_def frame_entry_def)

section \<open>Abstract transitions\<close>

text \<open>The archive of a record in a state: absent, present, or other bytes under the same name.\<close>

type_synonym 'b files = "path \<Rightarrow> 'b entry option"

definition find :: "'b files \<Rightarrow> ('b, 'f) codec \<Rightarrow> 'f jrecord \<Rightarrow> jstate \<Rightarrow> 'b entry option result" where
  "find files cd r st =
     (case files (StateDir st, Archive (jr_frame_id r)) of
        None \<Rightarrow> Inr None
      | Some e \<Rightarrow> if matches cd (jr_frame_id r) e r then Inr (Some e) else Inl FileExistsError)"

definition put :: "'f jrecord \<Rightarrow> jstate \<Rightarrow> 'b entry option \<Rightarrow> 'b files \<Rightarrow> 'b files" where
  "put r st e files = files((StateDir st, Archive (jr_frame_id r)) := e)"

definition as_record :: "('b, 'f) codec \<Rightarrow> 'f jrecord \<Rightarrow> jstate \<Rightarrow> 'b entry \<Rightarrow> 'f jrecord" where
  "as_record cd r st e = entry_record cd st (jr_frame_id r) e"

definition commit_spec :: "('b, 'f) codec \<Rightarrow> 'f jrecord \<Rightarrow> 'b files \<Rightarrow> ('f jrecord \<times> 'b files) result" where
  "commit_spec cd r files =
     bindR (find files cd r Delivered) (\<lambda>d. case d of
       Some e \<Rightarrow> Inr (as_record cd r Delivered e, put r Prepared None files)
     | None \<Rightarrow> bindR (find files cd r Pending) (\<lambda>p. case p of
       Some e \<Rightarrow> Inr (as_record cd r Pending e, put r Prepared None files)
     | None \<Rightarrow> bindR (find files cd r Prepared) (\<lambda>q. case q of
       Some e \<Rightarrow> Inr (as_record cd r Pending e, put r Prepared None (put r Pending (Some e) files))
     | None \<Rightarrow> Inl FileNotFoundError)))"

definition delivered_spec :: "('b, 'f) codec \<Rightarrow> 'f jrecord \<Rightarrow> 'b files \<Rightarrow> ('f jrecord \<times> 'b files) result" where
  "delivered_spec cd r files =
     bindR (find files cd r Delivered) (\<lambda>d. case d of
       Some e \<Rightarrow> Inr (as_record cd r Delivered e, put r Prepared None (put r Pending None files))
     | None \<Rightarrow> bindR (find files cd r Pending) (\<lambda>p. case p of
       Some e \<Rightarrow> Inr (as_record cd r Delivered e, put r Prepared None (put r Pending None (put r Delivered (Some e) files)))
     | None \<Rightarrow> Inl FileNotFoundError))"

definition discard_spec :: "('b, 'f) codec \<Rightarrow> 'f jrecord \<Rightarrow> 'b files \<Rightarrow> (bool \<times> 'b files) result" where
  "discard_spec cd r files =
     bindR (find files cd r Delivered) (\<lambda>d. if d \<noteq> None then Inl RuntimeError else
     bindR (find files cd r Pending) (\<lambda>p. if p \<noteq> None then Inl RuntimeError else
     bindR (find files cd r Prepared) (\<lambda>q. Inr (q \<noteq> None, put r Prepared None files))))"

definition prepare_spec :: "('b, 'f) codec \<Rightarrow> 'f \<Rightarrow> 'b files \<Rightarrow> ('f jrecord \<times> 'b files) result" where
  "prepare_spec cd f files =
     (let r = frame_record cd f Prepared in
      bindR (find files cd r Delivered) (\<lambda>d. case d of Some e \<Rightarrow> Inr (as_record cd r Delivered e, files) | None \<Rightarrow>
      bindR (find files cd r Pending) (\<lambda>p. case p of Some e \<Rightarrow> Inr (as_record cd r Pending e, files) | None \<Rightarrow>
      bindR (find files cd r Prepared) (\<lambda>q. case q of Some e \<Rightarrow> Inr (as_record cd r Prepared e, files) | None \<Rightarrow>
        Inr (r, put r Prepared (Some (frame_entry cd f)) files)))))"

text \<open>The operation returns what the specification says and changes nothing when it fails.\<close>

definition implements :: "('a \<times> 'b files) result \<Rightarrow> 'b files \<Rightarrow> 'a result \<Rightarrow> 'b files \<Rightarrow> bool" where
  "implements spec files r files' =
     (case spec of Inl e \<Rightarrow> r = Inl e \<and> files' = files | Inr (x, files'') \<Rightarrow> r = Inr x \<and> files' = files'')"

lemma implements_simps [simp]:
  "implements (Inl e) files r files' \<longleftrightarrow> r = Inl e \<and> files' = files"
  "implements (Inr (x, files'')) files r files' \<longleftrightarrow> r = Inr x \<and> files' = files''"
  by (simp_all add: implements_def)

lemma find_simps:
  "files (StateDir st, Archive (jr_frame_id r)) = None \<Longrightarrow> find files cd r st = Inr None"
  "files (StateDir st, Archive (jr_frame_id r)) = Some e \<Longrightarrow> matches cd (jr_frame_id r) e r \<Longrightarrow> find files cd r st = Inr (Some e)"
  "files (StateDir st, Archive (jr_frame_id r)) = Some e \<Longrightarrow> \<not> matches cd (jr_frame_id r) e r \<Longrightarrow> find files cd r st = Inl FileExistsError"
  by (simp_all add: find_def)

lemma expected_ok:
  "expected cd r = Inr (name, r') \<longleftrightarrow> r' = r \<and> name = Archive (jr_frame_id r)
     \<and> cd_frame_id cd (jr_frame r) = jr_frame_id r \<and> cd_archive_id cd (jr_frame r) = jr_archive_id r"
  by (auto simp: expected_def raise_if_def)

lemma one_entry:
  assumes "at_rest cd s" and "seen s (StateDir st, Archive h) = Some e" and "seen s (StateDir st', Archive h) = Some e'"
  shows "e' = e"
  using assms journal_okD(3) [of cd s st' h e' st e] unfolding at_rest_def in_view_def by blast

lemma yields_remove_existing:
  assumes "cf_fsync cfg" and "at_rest cd s" and "removable s (StateDir st, Archive h)"
    and "\<And>e. seen s (StateDir st, Archive h) = Some e \<Longrightarrow> matches cd h e r"
    and "\<And>s'. at_rest cd s' \<Longrightarrow> seen s' = (seen s)((StateDir st, Archive h) := None) \<Longrightarrow> yields cd (k ()) s' P"
  shows "yields cd (andThen (remove_existing cfg cd (Archive h) r st) k) s P"
  using run_remove_existing [OF assms(1-4)] yields_after assms(5) by metis

lemma yields_bind:
  assumes "yields cd m s Q" and "\<And>e s'. at_rest cd s' \<Longrightarrow> Q (Inl e) (seen s') \<Longrightarrow> P (Inl e) (seen s')"
    and "\<And>x s'. at_rest cd s' \<Longrightarrow> Q (Inr x) (seen s') \<Longrightarrow> yields cd (f x) s' P"
  shows "yields cd (andThen m f) s P"
proof -
  obtain r s' where run: "runs cd m s r s'" "at_rest cd s'" "Q r (seen s')" using assms(1) unfolding yields_def by blast
  show ?thesis
  proof (cases r)
    case (Inl e)
    with run assms(2) runs_andThen_fail [of cd m s e s' f] show ?thesis unfolding yields_def by blast
  next
    case (Inr x)
    with run have "runs cd m s (Inr x) s'" "yields cd (f x) s' P" using assms(3) by blast+
    then show ?thesis by (rule yields_after)
  qed
qed

lemma yields_promote:
  assumes sync: "cf_fsync cfg" and rest: "at_rest cd s"
    and st: "(st, st') = (Prepared, Pending) \<or> (st, st') = (Pending, Delivered)"
    and none: "seen s (StateDir st, Archive h) = None \<Longrightarrow> P (Inl FileNotFoundError) (seen s)"
    and same: "\<And>e. seen s (StateDir st, Archive h) = Some e \<Longrightarrow> matches cd h e r
      \<Longrightarrow> P (Inr (entry_record cd st' h e)) ((seen s)((StateDir st', Archive h) := Some e, (StateDir st, Archive h) := None))"
    and other: "\<And>e. seen s (StateDir st, Archive h) = Some e \<Longrightarrow> \<not> matches cd h e r \<Longrightarrow> P (Inl FileExistsError) (seen s)"
  shows "yields cd (promote cfg cd st st' (Archive h) r) s P"
proof (cases "\<exists>e. seen s (StateDir st, Archive h) = Some e \<and> matches cd h e r")
  case True
  then obtain e where e: "seen s (StateDir st, Archive h) = Some e" "matches cd h e r" by blast
  show ?thesis using run_promote [OF sync rest e st] same [OF e] unfolding yields_def by metis
next
  case False
  show ?thesis
    unfolding promote_def
    by (rule yields_existing [OF rest])
      (use False none other rest in \<open>auto intro!: yields_fail\<close>)
qed

lemma commit_implements:
  assumes sync: "cf_fsync cfg" and rest: "at_rest cd s" and exp: "expected cd r = Inr (name, r)"
  shows "yields cd (commit cfg cd r) s (implements (commit_spec cd r (seen s)) (seen s))"
proof -
  let ?h = "jr_frame_id r"
  have name: "expected cd r = Inr (Archive ?h, r)" using exp by (simp add: expected_ok)
  have prep: "removable s (StateDir Prepared, Archive ?h)" by (simp add: removable_def)
  note spec = commit_spec_def find_simps as_record_def put_def
  show ?thesis
    unfolding commit_def
    apply (rule yields_after, rule runs_look_eq, rule name)
    apply (simp only: prod.case)
    apply (rule yields_existing [OF rest])
    subgoal
      apply (simp only: option.case)
      apply (rule yields_existing [OF rest])
      subgoal
        apply (simp only: option.case)
        apply (rule yields_promote [OF sync rest])
        apply (simp_all add: spec)
        done
      subgoal for e
        apply (simp only: option.case)
        apply (rule yields_remove_existing [OF sync rest prep])
        subgoal for e' using one_entry [OF rest, of Pending ?h e Prepared e'] by simp
        subgoal by (rule yields_ret) (simp_all add: spec)
        done
      subgoal by (simp add: spec)
      done
    subgoal for e
      apply (simp only: option.case)
      apply (rule yields_remove_existing [OF sync rest prep])
      subgoal for e' using one_entry [OF rest, of Delivered ?h e Prepared e'] by simp
      subgoal by (rule yields_ret) (simp_all add: spec)
      done
    subgoal by (simp add: spec)
    done
qed

lemma delivered_implements:
  assumes sync: "cf_fsync cfg" and rest: "at_rest cd s" and exp: "expected cd r = Inr (name, r)"
  shows "yields cd (delivered cfg cd r) s (implements (delivered_spec cd r (seen s)) (seen s))"
proof -
  let ?h = "jr_frame_id r"
  have name: "expected cd r = Inr (Archive ?h, r)" using exp by (simp add: expected_ok)
  note spec = delivered_spec_def find_simps as_record_def put_def
  have cleanup: "yields cd (andThen (for_each (remove_existing cfg cd (Archive ?h) r) [Pending, Prepared]) (\<lambda>_. ret x)) s' P"
    if rest': "at_rest cd s'" and d: "seen s' (StateDir Delivered, Archive ?h) = Some e" and m: "matches cd ?h e r"
      and P: "P (Inr x) ((seen s')((StateDir Pending, Archive ?h) := None, (StateDir Prepared, Archive ?h) := None))" for x s' e P
  proof -
    have pend: "removable s' (StateDir Pending, Archive ?h)"
      using d rest' by (auto simp: removable_def held_def at_rest_def settled_def)
    obtain mid where mid: "runs cd (remove_existing cfg cd (Archive ?h) r Pending) s' (Inr ()) mid" "at_rest cd mid"
      "seen mid = (seen s')((StateDir Pending, Archive ?h) := None)"
      using run_remove_existing [OF sync rest' pend] one_entry [OF rest' d] m by metis
    have prep: "removable mid (StateDir Prepared, Archive ?h)" by (simp add: removable_def)
    have m': "matches cd ?h e' r" if "seen mid (StateDir Prepared, Archive ?h) = Some e'" for e'
      using that one_entry [OF rest' d, of Prepared e'] m by (simp add: mid(3))
    obtain fin where fin: "runs cd (remove_existing cfg cd (Archive ?h) r Prepared) mid (Inr ()) fin" "at_rest cd fin"
      "seen fin = (seen mid)((StateDir Prepared, Archive ?h) := None)"
      using run_remove_existing [OF sync mid(2) prep m'] by blast
    have "runs cd (for_each (remove_existing cfg cd (Archive ?h) r) [Pending, Prepared]) s' (Inr ()) fin"
      unfolding for_each.simps by (rule runs_andThen [OF mid(1)], rule runs_andThen [OF fin(1)], rule runs_ret)
    then show ?thesis by (rule yields_after) (use fin(2) P in \<open>auto intro!: yields_ret simp: fin(3) mid(3)\<close>)
  qed
  show ?thesis
    unfolding delivered_def
    apply (rule yields_after, rule runs_look_eq, rule name)
    apply (simp only: prod.case)
    apply (rule yields_existing [OF rest])
    subgoal
      apply (simp only: option.case)
      apply (rule yields_bind [where Q = "\<lambda>x files. case x of
          Inl e \<Rightarrow> files = seen s \<and> delivered_spec cd r (seen s) = Inl e
        | Inr x \<Rightarrow> \<exists>e. seen s (StateDir Pending, Archive ?h) = Some e \<and> matches cd ?h e r \<and> x = entry_record cd Delivered ?h e
            \<and> files = (seen s)((StateDir Delivered, Archive ?h) := Some e, (StateDir Pending, Archive ?h) := None)"])
      subgoal by (rule yields_promote [OF sync rest]) (simp_all add: spec)
      subgoal by simp
      subgoal for x s'
        apply (simp only: sum.case)
        apply (elim exE conjE)
        subgoal for e
          apply (rule cleanup)
          apply (simp_all add: spec fun_upd_twist)
          done
        done
      done
    subgoal for e
      apply (simp only: option.case)
      apply (rule yields_after [OF runs_ret])
      apply (rule cleanup [OF rest])
      apply (simp_all add: spec fun_upd_twist)
      done
    subgoal by (simp add: spec)
    done
qed

lemma discard_implements:
  assumes sync: "cf_fsync cfg" and rest: "at_rest cd s" and exp: "expected cd r = Inr (name, r)"
  shows "yields cd (discard_prepared cfg cd r) s (implements (discard_spec cd r (seen s)) (seen s))"
proof -
  let ?h = "jr_frame_id r"
  have name: "expected cd r = Inr (Archive ?h, r)" using exp by (simp add: expected_ok)
  have prep: "removable s (StateDir Prepared, Archive ?h)" by (simp add: removable_def)
  note spec = discard_spec_def find_simps put_def
  have remove: "yields cd (andThen (remove_path cfg (record_path (entry_record cd Prepared ?h e))) (\<lambda>_. ret True)) s P"
    if "seen s (StateDir Prepared, Archive ?h) = Some e"
      and "P (Inr True) ((seen s)((StateDir Prepared, Archive ?h) := None))" for e P
  proof -
    have "record_path (entry_record cd Prepared ?h e) = (StateDir Prepared, Archive ?h)"
      using entry_record_simps seen_authentic that(1) rest unfolding at_rest_def by blast
    with run_remove [OF sync rest prep] that(2) show ?thesis by (metis yields_after yields_ret)
  qed
  show ?thesis
    unfolding discard_prepared_def
    apply (rule yields_after, rule runs_look_eq, rule name)
    apply (simp only: prod.case)
    apply (rule yields_existing [OF rest])
    subgoal
      apply (simp only: simp_thms if_False)
      apply (rule yields_existing [OF rest])
      subgoal
        apply (simp only: simp_thms if_False)
        apply (rule yields_existing [OF rest])
        subgoal by (simp only: option.case, rule yields_ret [OF rest]) (simp add: spec fun_upd_idem)
        subgoal by (simp only: option.case, rule remove) (simp_all add: spec)
        subgoal by (simp add: spec)
        done
      subgoal by (simp, rule yields_fail [OF rest]) (simp add: spec)
      subgoal by (simp add: spec)
      done
    subgoal by (simp, rule yields_fail [OF rest]) (simp add: spec)
    subgoal by (simp add: spec)
    done
qed

lemma frame_record_sel [simp]: "jr_frame_id (frame_record cd f st) = cd_frame_id cd f"
  by (simp add: frame_record_def)

lemma prepare_implements:
  assumes sync: "cf_fsync cfg" and codec: "codec_ok cd" and rest: "at_rest cd s"
    and fresh: "seen s (StateDir Prepared, Temporary (Archive (cd_frame_id cd f)) token) = None"
  shows "yields cd (prepare cfg cd token f) s (implements (prepare_spec cd f (seen s)) (seen s))"
proof -
  let ?h = "cd_frame_id cd f" and ?r = "frame_record cd f Prepared"
  let ?t = "(StateDir Prepared, Archive ?h)"
  note spec = prepare_spec_def find_simps as_record_def put_def Let_def
  have fold: "\<lparr>jr_frame = f, jr_frame_id = cd_frame_id cd f, jr_archive_id = cd_archive_id cd f,
      jr_sha = cd_sha cd (cd_encode cd f), jr_name = Archive (cd_frame_id cd f), jr_state = Prepared\<rparr> = ?r"
    by (simp add: frame_record_def)
  have entry: "frame_entry cd f = Regular \<lparr>f_bytes = cd_encode cd f, f_stable = True\<rparr>" by (simp add: frame_entry_def)
  have publish: "yields cd (andThen (publish_exact cfg ?t token (cd_encode cd f)) (\<lambda>_.
           look (\<lambda>s. bindR (existing_exact cd Prepared (Archive ?h) ?r s) (\<lambda>x.
             Inr (case x of None \<Rightarrow> ?r | Some y \<Rightarrow> y))))) s P"
    if none: "\<And>st. seen s (StateDir st, Archive ?h) = None" and P: "P (Inr ?r) ((seen s)(?t := Some (frame_entry cd f)))" for P
  proof -
    obtain s' where s': "runs cd (publish_exact cfg ?t token (cd_encode cd f)) s (Inr ()) s'" "at_rest cd s'"
      "seen s' = (seen s)(?t := Some (frame_entry cd f))"
      using run_publish [OF sync rest none frame_entry_authentic [OF codec, of f, unfolded entry] fresh] unfolding entry by blast
    have ok: "journal_ok cd s'" using s'(2) by (simp add: at_rest_def)
    have "matches cd ?h (frame_entry cd f) ?r"
      by (simp add: matches_def frame_entry_record [OF codec] same_record_def)
    then have "existing_exact cd Prepared (Archive ?h) ?r s' = Inr (Some ?r)"
      by (simp add: existing_exact_ok [OF ok] s'(3) frame_entry_record [OF codec] del: bindR_Inr_iff)
    then have "runs cd (look (\<lambda>s. bindR (existing_exact cd Prepared (Archive ?h) ?r s) (\<lambda>x.
             Inr (case x of None \<Rightarrow> ?r | Some y \<Rightarrow> y)))) s' (Inr ?r) s'"
      by (intro runs_look_eq) simp
    with runs_andThen [OF s'(1)] show ?thesis using s'(2) P unfolding s'(3) [symmetric] by (metis yields_runs)
  qed
  show ?thesis
    unfolding prepare_def Let_def fold
    apply (rule yields_existing [OF rest])
    subgoal
      apply (simp only: option.case)
      apply (rule yields_existing [OF rest])
      subgoal
        apply (simp only: option.case)
        apply (rule yields_existing [OF rest])
        subgoal
          apply (simp only: option.case)
          apply (rule publish)
          subgoal for st by (cases st) simp_all
          subgoal by (simp add: spec)
          done
        subgoal by (simp only: option.case, rule yields_ret [OF rest]) (simp add: spec)
        subgoal by (simp add: spec)
        done
      subgoal by (simp only: option.case, rule yields_ret [OF rest]) (simp add: spec)
      subgoal by (simp add: spec)
      done
    subgoal by (simp only: option.case, rule yields_ret [OF rest]) (simp add: spec)
    subgoal by (simp add: spec)
    done
qed

section \<open>Requests and crashes\<close>

datatype 'f request =
    Prepare nat 'f
  | Discard "'f jrecord"
  | Commit "'f jrecord"
  | Acknowledge "'f jrecord"
  | Recover

text \<open>A caller holds records of frames, and the random token of a temporary is new.\<close>

fun admissible :: "('b, 'f) codec \<Rightarrow> 'f request \<Rightarrow> 'b fs \<Rightarrow> bool" where
  "admissible cd (Prepare token f) s \<longleftrightarrow> seen s (StateDir Prepared, Temporary (Archive (cd_frame_id cd f)) token) = None"
| "admissible cd (Discard r) s \<longleftrightarrow> True"
| "admissible cd (Commit r) s \<longleftrightarrow> True"
| "admissible cd (Acknowledge r) s \<longleftrightarrow> True"
| "admissible cd Recover s \<longleftrightarrow> True"

fun serve :: "config \<Rightarrow> ('b, 'f) codec \<Rightarrow> 'f request \<Rightarrow> (unit, 'b) op" where
  "serve cfg cd (Prepare token f) = andThen (prepare cfg cd token f) (\<lambda>_. ret ())"
| "serve cfg cd (Discard r) = andThen (discard_prepared cfg cd r) (\<lambda>_. ret ())"
| "serve cfg cd (Commit r) = andThen (commit cfg cd r) (\<lambda>_. ret ())"
| "serve cfg cd (Acknowledge r) = andThen (delivered cfg cd r) (\<lambda>_. ret ())"
| "serve cfg cd Recover = recover cfg cd"

lemma yields_any: "yields cd m s P \<Longrightarrow> yields cd (andThen m (\<lambda>_. ret ())) s (\<lambda>_ _. True)"
  by (erule yields_bind) (auto intro: yields_ret)

lemma yields_expected:
  assumes rest: "at_rest cd s"
    and good: "expected cd r = Inr (Archive (jr_frame_id r), r) \<Longrightarrow> yields cd (andThen (look (\<lambda>_. expected cd r)) k) s P"
  shows "yields cd (andThen (andThen (look (\<lambda>_. expected cd r)) k) (\<lambda>_. ret ())) s (\<lambda>_ _. True)"
proof (cases "expected cd r = Inr (Archive (jr_frame_id r), r)")
  case True
  show ?thesis by (rule yields_any [OF good [OF True]])
next
  case False
  then have "expected cd r = Inl ValueError" by (auto simp: expected_def raise_if_def split: if_splits)
  then have "runs cd (look (\<lambda>_. expected cd r)) s (Inl ValueError) s" by (rule runs_look_eq)
  then have "runs cd (andThen (andThen (look (\<lambda>_. expected cd r)) k) (\<lambda>_. ret ())) s (Inl ValueError) s"
    by (intro runs_andThen_fail)
  with rest show ?thesis unfolding yields_def by blast
qed

lemma serve_yields:
  assumes sync: "cf_fsync cfg" and codec: "codec_ok cd" and rest: "at_rest cd s" and adm: "admissible cd q s"
  shows "yields cd (serve cfg cd q) s (\<lambda>_ _. True)"
proof (cases q)
  case (Prepare token f)
  with adm show ?thesis by (simp add: yields_any [OF prepare_implements [OF sync codec rest]])
next
  case (Discard r)
  show ?thesis unfolding Discard serve.simps discard_prepared_def
    by (rule yields_expected [OF rest]) (rule discard_implements [OF sync rest, unfolded discard_prepared_def])
next
  case (Commit r)
  show ?thesis unfolding Commit serve.simps commit_def
    by (rule yields_expected [OF rest]) (rule commit_implements [OF sync rest, unfolded commit_def])
next
  case (Acknowledge r)
  show ?thesis unfolding Acknowledge serve.simps delivered_def
    by (rule yields_expected [OF rest]) (rule delivered_implements [OF sync rest, unfolded delivered_def])
next
  case Recover
  show ?thesis unfolding Recover serve.simps using run_recover [OF sync rest] unfolding yields_def by blast
qed

lemma serve_crash:
  assumes sync: "cf_fsync cfg" and codec: "codec_ok cd" and rest: "at_rest cd s" and adm: "admissible cd q s"
    and crash: "crash_image (perform_all (take k (snd (serve cfg cd q s))) s) s'"
  shows "at_rest cd s' \<and> (\<forall>h. committed s h \<longrightarrow> committed s' h) \<and> (\<forall>h. in_state s Delivered h \<longrightarrow> in_state s' Delivered h)"
proof -
  obtain r as where run: "serve cfg cd q s = (r, as)" "lawful_trace cd as s"
    using serve_yields [OF sync codec rest adm] unfolding yields_def runs_def by auto
  have ok: "journal_ok cd s" and disk: "disk s p = seen s p" for p
    using rest unfolding at_rest_def settled_def by blast+
  have "safe {h. committed s h} {h. in_state s Delivered h} s"
    by (auto simp: safe_def committed_def held_def in_state_def disk)
  from lawful_trace_prefix [OF ok this run(2), of k] crash run(1)
  show ?thesis using crash_ok [of cd "perform_all (take k as) s" s'] unfolding at_rest_def by auto
qed

text \<open>What a reopened journal looks like: at rest, every frame in one state, none prepared.\<close>

definition recovered :: "('b, 'f) codec \<Rightarrow> 'b fs \<Rightarrow> bool" where
  "recovered cd s \<longleftrightarrow> at_rest cd s \<and> (\<forall>h. \<not> in_state s Prepared h)
     \<and> (\<forall>h. \<not> (in_state s Pending h \<and> in_state s Delivered h))
     \<and> (\<forall>st n. is_temporary n \<longrightarrow> seen s (StateDir st, n) = None)"

lemma recover_recovers:
  assumes "cf_fsync cfg" and "at_rest cd s"
  shows "\<exists>as. recover cfg cd s = (Inr (), as) \<and> recovered cd (perform_all as s)
     \<and> (\<forall>h. committed (perform_all as s) h \<longleftrightarrow> committed s h)
     \<and> (\<forall>h. in_state (perform_all as s) Delivered h \<longleftrightarrow> in_state s Delivered h)"
proof -
  obtain s' as where s': "recover cfg cd s = (Inr (), as)" "perform_all as s = s'" "at_rest cd s'"
    "seen s' = (\<lambda>p. if survivor s p then seen s p else None)"
    using run_recover [OF assms] unfolding runs_def by blast
  have state: "in_state s' st h \<longleftrightarrow> keeps s st h \<and> in_state s st h" for st h
    by (simp add: in_state_def s'(4) survivor_def)
  have "recovered cd s'"
    using s'(3) unfolding recovered_def state
    by (auto simp: keeps_def s'(4) survivor_def is_temporary_def split: jname.splits)
  moreover have "committed s' h \<longleftrightarrow> committed s h" and "in_state s' Delivered h \<longleftrightarrow> in_state s Delivered h" for h
    unfolding committed_def state by (auto simp: keeps_def)
  ultimately show ?thesis using s'(1,2) by blast
qed

section \<open>Properties\<close>

text \<open>The operation, run to its end, leaves the journal at rest, its result and its files satisfy \<open>P\<close>.\<close>

definition outcome :: "('b, 'f) codec \<Rightarrow> ('a, 'b) op \<Rightarrow> 'b fs \<Rightarrow> ('a result \<Rightarrow> 'b files \<Rightarrow> bool) \<Rightarrow> bool" where
  "outcome cd m s P =
     (case m s of (r, as) \<Rightarrow> at_rest cd (perform_all as s) \<and> P r (seen (perform_all as s)))"

lemma yields_outcome: "yields cd m s P \<Longrightarrow> outcome cd m s P"
  unfolding yields_def runs_def outcome_def by auto

lemma entries_quiet:
  assumes "\<forall>n \<in> set names. \<exists>h e. n = Archive h \<and> seen s (StateDir st, n) = Some e \<and> authentic cd h e"
  shows "for_each (\<lambda>name. if is_temporary name then (if False then remove_path cfg (StateDir st, name) else fail ValueError)
      else check_entry st name) names s = (Inr (), [])"
  using assms
proof (induction names)
  case (Cons n names)
  then obtain h e where "n = Archive h" "seen s (StateDir st, n) = Some e" "authentic cd h e" by auto
  then have "(if is_temporary n then (if False then remove_path cfg (StateDir st, n) else fail ValueError)
      else check_entry st n) s = (Inr (), [])"
    by (auto simp: is_temporary_def check_entry_def authentic_def ret_def)
  with Cons show ?case by (simp add: andThen_def)
qed (simp add: ret_def)

definition state_records :: "('b, 'f) codec \<Rightarrow> 'b fs \<Rightarrow> jstate \<Rightarrow> 'f jrecord set" where
  "state_records cd s st = {entry_record cd st h e |h e. seen s (StateDir st, Archive h) = Some e}"

lemma state_records_listed:
  assumes rest: "recovered cd s"
  shows "\<exists>rs. state_entries cfg st False s = (Inr (directory_names s (StateDir st)), [])
     \<and> traverse (\<lambda>n. load_record cd st n s) (directory_names s (StateDir st)) = Inr rs
     \<and> set rs = state_records cd s st \<and> distinct (map jr_frame_id rs)"
proof -
  let ?names = "directory_names s (StateDir st)"
  have ok: "journal_ok cd s" using rest by (simp add: recovered_def at_rest_def)
  have entry: "\<exists>h e. n = Archive h \<and> seen s (StateDir st, n) = Some e \<and> authentic cd h e" if "n \<in> set ?names" for n
  proof -
    have n: "seen s (StateDir st, n) \<noteq> None" using that by (simp add: directory_names_iff)
    have "is_temporary n \<longrightarrow> seen s (StateDir st, n) = None" using rest by (simp add: recovered_def)
    with n have "\<not> is_temporary n" by metis
    then obtain h where "n = Archive h" using rest_name [OF _ n] rest by (auto simp: recovered_def)
    with n seen_authentic [OF ok, of st h] show ?thesis by auto
  qed
  then have "for_each (\<lambda>name. if is_temporary name then (if False then remove_path cfg (StateDir st, name) else fail ValueError)
      else check_entry st name) ?names s = (Inr (), [])"
    by (intro entries_quiet) blast
  moreover have "filter (\<lambda>n. \<not> is_temporary n) ?names = ?names"
    by (intro filter_True) (auto simp: is_temporary_def dest!: entry)
  ultimately have quiet: "state_entries cfg st False s = (Inr ?names, [])"
    by (simp add: state_entries_def Let_def andThen_def ret_def)
  define R where "R n = entry_record cd st (archive_key n) (the (seen s (StateDir st, n)))" for n
  have "traverse (\<lambda>n. load_record cd st n s) ?names = Inr (map R ?names)"
    by (rule traverse_map_Inr) (auto simp: load_record_ok [OF ok] R_def archive_key_def dest!: entry)
  moreover have "x \<in> set (map R ?names) \<longleftrightarrow> x \<in> state_records cd s st" for x
  proof
    assume "x \<in> set (map R ?names)"
    then show "x \<in> state_records cd s st"
      by (force simp: state_records_def R_def archive_key_def dest!: entry)
  next
    assume "x \<in> state_records cd s st"
    then obtain h e where "x = entry_record cd st h e" "seen s (StateDir st, Archive h) = Some e"
      by (auto simp: state_records_def)
    then have "x = R (Archive h)" "Archive h \<in> set ?names" by (simp_all add: R_def archive_key_def directory_names_iff)
    then show "x \<in> set (map R ?names)" by simp
  qed
  moreover have ids: "map jr_frame_id (map R ?names) = map archive_key ?names"
    by (auto simp: R_def archive_key_def entry_record_simps dest!: entry)
  moreover have "inj_on archive_key (set ?names)"
    by (rule inj_onI) (auto simp: archive_key_def dest!: entry)
  then have "distinct (map jr_frame_id (map R ?names))"
    unfolding ids using directory_names_distinct [of s "StateDir st"] journal_okD(1) [OF ok] by (simp add: distinct_map)
  ultimately show ?thesis using quiet by (intro exI [of _ "map R ?names"] conjI set_eqI)
qed

text \<open>A journal with one archive in one state, over a codec whose bytes are the frame itself.\<close>

definition plain_codec :: "(string, string) codec" where
  "plain_codec = \<lparr>cd_encode = (\<lambda>f. f), cd_decode = Inr, cd_frame_id = (\<lambda>f. f), cd_archive_id = (\<lambda>f. f), cd_sha = (\<lambda>b. b)\<rparr>"

definition durable :: config where
  "durable = \<lparr>cf_fsync = True, cf_automatic = True\<rparr>"

definition one_archive :: "jstate \<Rightarrow> string \<Rightarrow> string fs" where
  "one_archive st h =
     (let d = [((StateDir st, Archive h), Regular \<lparr>f_bytes = h, f_stable = True\<rparr>)] in \<lparr>fs_seen = d, fs_disk = d\<rparr>)"

lemma plain_codec_ok: "codec_ok plain_codec"
  by (simp add: codec_ok_def plain_codec_def)

lemma seen_one_archive:
  "seen (one_archive st h) p = (if p = (StateDir st, Archive h) then Some (Regular \<lparr>f_bytes = h, f_stable = True\<rparr>) else None)"
  by (simp add: one_archive_def seen_def Let_def)

lemma one_archive_at_rest: "at_rest plain_codec (one_archive st h)"
proof -
  have same: "disk (one_archive st h) p = seen (one_archive st h) p" for p by (simp add: seen_def disk_def one_archive_def Let_def)
  have "keys_ok (one_archive st h)" by (simp add: keys_ok_def one_archive_def Let_def)
  then show ?thesis
    by (auto simp: at_rest_def settled_def same journal_ok_def in_view_def seen_one_archive entry_ok_def authentic_def plain_codec_def
        split: if_splits)
qed

lemma one_archive_record: "expected plain_codec (frame_record plain_codec h st) = Inr (Archive h, frame_record plain_codec h st)"
  by (simp add: expected_ok) (simp add: plain_codec_def frame_record_def)

text \<open>
  Claim C29. The transitions of the journal implement their abstract specification: from a journal at
  rest, \<open>commit\<close> and \<open>delivered\<close> of a record whose identities authenticate its frame return the
  record of the strongest state or fail exactly as specified, a failing request changes no file, a
  successful one moves the one archive and nothing else, and the journal is at rest again.
\<close>

theorem commit_and_acknowledge_refine:
  assumes "cf_fsync cfg" and "at_rest cd s" and "expected cd r = Inr (name, r)"
  shows "outcome cd (commit cfg cd r) s (implements (commit_spec cd r (seen s)) (seen s))
     \<and> outcome cd (delivered cfg cd r) s (implements (delivered_spec cd r (seen s)) (seen s))"
  using commit_implements [OF assms] delivered_implements [OF assms] by (simp add: yields_outcome)

lemma commit_and_acknowledge_refine_witness:
  "outcome plain_codec (commit durable plain_codec (frame_record plain_codec ''a'' Prepared)) (one_archive Prepared ''a'')
     (implements (commit_spec plain_codec (frame_record plain_codec ''a'' Prepared) (seen (one_archive Prepared ''a'')))
        (seen (one_archive Prepared ''a'')))"
  using commit_and_acknowledge_refine [OF _ one_archive_at_rest one_archive_record] by (simp add: durable_def)

text \<open>
  Claim C30. Preparation and its roll-back implement their specification: \<open>prepare\<close> returns the
  record of a frame that is already journalled and otherwise publishes its archive in the prepared
  state only, \<open>discard_prepared\<close> refuses a committed record and removes an uncommitted one, and
  neither changes any other file.
\<close>

theorem prepare_and_discard_refine:
  assumes "cf_fsync cfg" and "codec_ok cd" and "at_rest cd s" and "expected cd r = Inr (name, r)"
    and "seen s (StateDir Prepared, Temporary (Archive (cd_frame_id cd f)) token) = None"
  shows "outcome cd (prepare cfg cd token f) s (implements (prepare_spec cd f (seen s)) (seen s))
     \<and> outcome cd (discard_prepared cfg cd r) s (implements (discard_spec cd r (seen s)) (seen s))"
  using prepare_implements [OF assms(1-3,5)] discard_implements [OF assms(1,3,4)] by (simp add: yields_outcome)

lemma prepare_and_discard_refine_witness:
  "outcome plain_codec (prepare durable plain_codec 7 ''b'') (one_archive Prepared ''a'')
     (implements (prepare_spec plain_codec ''b'' (seen (one_archive Prepared ''a''))) (seen (one_archive Prepared ''a'')))"
  using prepare_and_discard_refine [OF _ plain_codec_ok one_archive_at_rest one_archive_record]
  by (simp add: durable_def seen_one_archive)

text \<open>
  Claim C1. No crash turns a committed frame back into an uncommitted one: whatever request the
  journal was serving, after however many of its file-system actions the power fails, and whatever
  unsynced entries the disk kept, the recovery of the reopened journal succeeds, every frame that was
  pending or delivered still is, every acknowledged frame is still acknowledged, no frame is in two
  states and no preparation or temporary file remains.
\<close>

theorem crash_keeps_committed_frames:
  assumes sync: "cf_fsync cfg" and codec: "codec_ok cd" and rest: "at_rest cd s" and adm: "admissible cd q s"
    and crash: "crash_image (perform_all (take k (snd (serve cfg cd q s))) s) s'"
  shows "\<exists>as. recover cfg cd s' = (Inr (), as) \<and> recovered cd (perform_all as s')
     \<and> (\<forall>h. committed s h \<longrightarrow> committed (perform_all as s') h)
     \<and> (\<forall>h. in_state s Delivered h \<longrightarrow> in_state (perform_all as s') Delivered h)"
  using serve_crash [OF assms] recover_recovers [OF sync, of cd s'] by metis

lemma crash_keeps_committed_frames_witness:
  "\<exists>as. recover durable plain_codec (one_archive Pending ''a'') = (Inr (), as)
     \<and> committed (perform_all as (one_archive Pending ''a'')) ''a''"
proof -
  have "crash_image (one_archive Pending ''a'') (one_archive Pending ''a'')"
    using one_archive_at_rest [of Pending "''a''"]
    by (auto simp: crash_image_def at_rest_def journal_ok_def seen_one_archive survives_def)
  then show ?thesis
    using crash_keeps_committed_frames [OF _ plain_codec_ok one_archive_at_rest, of durable Recover Pending "''a''" 0]
    by (simp add: durable_def committed_def in_state_def seen_one_archive) metis
qed

text \<open>Any number of requests, each served to its end or cut off by a power failure.\<close>

inductive journal_step :: "config \<Rightarrow> ('b, 'f) codec \<Rightarrow> 'b fs \<Rightarrow> 'b fs \<Rightarrow> bool" for cfg cd where
  served: "admissible cd q s \<Longrightarrow> serve cfg cd q s = (res, as) \<Longrightarrow> journal_step cfg cd s (perform_all as s)"
| crashed: "admissible cd q s \<Longrightarrow> crash_image (perform_all (take k (snd (serve cfg cd q s))) s) s' \<Longrightarrow> journal_step cfg cd s s'"

inductive_cases journal_stepE: "journal_step cfg cd s s'"

definition committed_kept :: "'b fs \<Rightarrow> 'b fs \<Rightarrow> bool" where
  "committed_kept s s' \<longleftrightarrow> (\<forall>h. committed s h \<longrightarrow> committed s' h) \<and> (\<forall>h. in_state s Delivered h \<longrightarrow> in_state s' Delivered h)"

lemma served_keeps:
  assumes sync: "cf_fsync cfg" and codec: "codec_ok cd" and rest: "at_rest cd s" and adm: "admissible cd q s"
    and serve: "serve cfg cd q s = (res, as)"
  shows "at_rest cd (perform_all as s) \<and> committed_kept s (perform_all as s)"
proof -
  have run: "lawful_trace cd as s" "at_rest cd (perform_all as s)"
    using serve_yields [OF sync codec rest adm] serve unfolding yields_def runs_def by auto
  have ok: "journal_ok cd s" and disk: "disk s p = seen s p" for p
    using rest unfolding at_rest_def settled_def by blast+
  have "safe {h. committed s h} {h. in_state s Delivered h} s"
    by (auto simp: safe_def committed_def held_def in_state_def disk)
  from lawful_trace_prefix [OF ok this run(1), of "length as"] run(2)
  show ?thesis by (auto simp: safe_def committed_kept_def committed_def held_def in_state_def)
qed

lemma journal_step_keeps:
  assumes "cf_fsync cfg" and "codec_ok cd" and "at_rest cd s" and "journal_step cfg cd s s'"
  shows "at_rest cd s' \<and> committed_kept s s'"
proof (rule journal_stepE [OF assms(4)])
  show ?thesis if "s' = perform_all as s" "admissible cd q s" "serve cfg cd q s = (res, as)" for q res as
    using served_keeps [OF assms(1-3) that(2,3)] that(1) by simp
  show ?thesis if "admissible cd q s" "crash_image (perform_all (take k (snd (serve cfg cd q s))) s) s'" for q k
    using serve_crash [OF assms(1-3) that] unfolding committed_kept_def by blast
qed

text \<open>
  Claim C26. A committed frame stays committed for ever: along every sequence of requests, each
  completed or cut off at any point by a power failure, the journal stays at rest, a pending or
  delivered frame stays pending or delivered and an acknowledged one stays acknowledged.
\<close>

theorem committed_forever:
  assumes "cf_fsync cfg" and "codec_ok cd" and "at_rest cd s" and "(journal_step cfg cd)\<^sup>*\<^sup>* s s'"
  shows "at_rest cd s' \<and> committed_kept s s'"
  using assms(4)
proof (induction rule: rtranclp_induct)
  case base
  show ?case using assms(3) by (simp add: committed_kept_def)
next
  case (step mid s')
  then show ?case using journal_step_keeps [OF assms(1,2), of mid s'] by (auto simp: committed_kept_def)
qed

lemma committed_forever_witness:
  "at_rest plain_codec (perform_all (snd (serve durable plain_codec Recover (one_archive Pending ''a''))) (one_archive Pending ''a''))"
proof -
  have "journal_step durable plain_codec (one_archive Pending ''a'')
      (perform_all (snd (serve durable plain_codec Recover (one_archive Pending ''a''))) (one_archive Pending ''a''))"
    by (rule served [where q = Recover and res = "fst (serve durable plain_codec Recover (one_archive Pending ''a''))"]) simp_all
  note step = r_into_rtranclp [of "journal_step durable plain_codec", OF this]
  have "cf_fsync durable" by (simp add: durable_def)
  from committed_forever [OF this plain_codec_ok one_archive_at_rest step] show ?thesis by (rule conjunct1)
qed

text \<open>
  Listing is exact on a recovered journal: \<open>list_pending\<close> performs no action and returns
  the records of the pending archives, each frame once, in the order of the clock key, and
  \<open>list_committed\<close> those of the pending and delivered archives.
\<close>

theorem listing_is_exact:
  assumes "recovered cd s"
  shows "(\<exists>rs. list_pending cfg cd order s = (Inr rs, []) \<and> set rs = state_records cd s Pending
       \<and> distinct (map jr_frame_id rs) \<and> sorted (map order rs))
    \<and> (\<exists>rs. list_committed cfg cd order s = (Inr rs, []) \<and> set rs = state_records cd s Pending \<union> state_records cd s Delivered
       \<and> sorted (map order rs))"
proof -
  obtain ps ds where ps: "state_entries cfg Pending False s = (Inr (directory_names s (StateDir Pending)), [])"
      "traverse (\<lambda>n. load_record cd Pending n s) (directory_names s (StateDir Pending)) = Inr ps"
      "set ps = state_records cd s Pending" "distinct (map jr_frame_id ps)"
    and ds: "state_entries cfg Delivered False s = (Inr (directory_names s (StateDir Delivered)), [])"
      "traverse (\<lambda>n. load_record cd Delivered n s) (directory_names s (StateDir Delivered)) = Inr ds"
      "set ds = state_records cd s Delivered"
    using state_records_listed [OF assms, of cfg Pending] state_records_listed [OF assms, of cfg Delivered] by blast
  have "list_pending cfg cd order s = (Inr (sort_key order ps), [])"
    by (simp add: list_pending_def andThen_def look_def ps del: bindR_Inr_iff)
  moreover have "distinct (map jr_frame_id (sort_key order ps))"
    using ps(4) by (auto simp: distinct_map)
  ultimately have first: "\<exists>rs. list_pending cfg cd order s = (Inr rs, []) \<and> set rs = state_records cd s Pending
       \<and> distinct (map jr_frame_id rs) \<and> sorted (map order rs)"
    using ps(3) by simp
  have "list_committed cfg cd order s = (Inr (sort_key order (ps @ ds)), [])"
    by (simp add: list_committed_def andThen_def look_def ps ds del: bindR_Inr_iff)
  then have "\<exists>rs. list_committed cfg cd order s = (Inr rs, []) \<and> set rs = state_records cd s Pending \<union> state_records cd s Delivered
       \<and> sorted (map order rs)"
    using ps(3) ds(3) by simp
  with first show ?thesis by (rule conjI)
qed

lemma listing_is_exact_witness:
  "\<exists>rs. list_pending durable plain_codec jr_frame_id (one_archive Pending ''a'') = (Inr rs, [])
     \<and> set rs = state_records plain_codec (one_archive Pending ''a'') Pending"
proof -
  have "recovered plain_codec (one_archive Pending ''a'')"
    using one_archive_at_rest [of Pending "''a''"]
    by (auto simp: recovered_def in_state_def seen_one_archive is_temporary_def)
  from listing_is_exact [OF this, of durable jr_frame_id] show ?thesis by blast
qed

text \<open>
  Recovery itself is not durable after a process that was killed without a power failure:
  a frame committed in the pending state is being acknowledged, the process dies after the link in
  the delivered directory and before that directory is synced, the reopened journal removes the
  pending link (and syncs that removal) but never syncs the delivered directory, and a power failure
  then leaves no trace of the committed frame.
\<close>

theorem unsynced_recovery_loses_a_frame:
  "let s = one_archive Pending ''a'';
       killed = perform_all (take 1 (snd (delivered durable plain_codec (frame_record plain_codec ''a'' Pending) s))) s;
       reopened = perform_all (snd (recover durable plain_codec killed)) killed;
       failed = \<lparr>fs_seen = [], fs_disk = []\<rparr>
   in committed s ''a'' \<and> fst (recover durable plain_codec killed) = Inr () \<and> committed reopened ''a''
      \<and> crash_image reopened failed \<and> \<not> committed failed ''a''"
proof -
  let ?s = "one_archive Pending ''a''" and ?e = "Regular \<lparr>f_bytes = ''a'', f_stable = True\<rparr>"
  let ?killed = "\<lparr>fs_seen = fs_seen ?s @ [((StateDir Delivered, Archive ''a''), ?e)], fs_disk = fs_disk ?s\<rparr>"
  have killed: "perform_all (take 1 (snd (delivered durable plain_codec (frame_record plain_codec ''a'' Pending) ?s))) ?s = ?killed"
    by code_simp
  have reopened: "recover durable plain_codec ?killed = (Inr (), [Unlink (StateDir Pending, Archive ''a''), SyncDir (StateDir Pending)])"
    by code_simp
  have gone: "perform_all [Unlink (StateDir Pending, Archive ''a''), SyncDir (StateDir Pending)] ?killed
      = \<lparr>fs_seen = [((StateDir Delivered, Archive ''a''), ?e)], fs_disk = []\<rparr>"
    by code_simp
  have "crash_image \<lparr>fs_seen = [((StateDir Delivered, Archive ''a''), ?e)], fs_disk = []\<rparr> \<lparr>fs_seen = [], fs_disk = []\<rparr>"
    by (simp add: crash_image_def keys_ok_def settled_def seen_def disk_def survives_def)
  then show ?thesis
    unfolding Let_def killed reopened fst_conv snd_conv gone
    by (simp add: committed_def in_state_def seen_def one_archive_def Let_def)
qed

end
