(* ===== verification/Pops_Scalar.thy ===== *)
theory Pops_Scalar
  imports Pops_Prelude Complex_Main
begin

text \<open>
  Canonical scalars (\<open>python/pops/identity/scalar.py\<close>): the lossless scalar literal every
  coefficient, time offset and threshold of the package goes through, the exact decimal algebra,
  and the C++ spelling of a literal.

  Python's unbounded integers are \<open>int\<close> and its \<open>Fraction\<close> is \<open>rat\<close>. A finite
  \<open>Decimal\<close> is its \<open>as_tuple()\<close>: sign, coefficient, exponent (so \<open>-0\<close> and \<open>1.0\<close>/\<open>1.00\<close> are
  told apart, as in Python). A finite binary64 is sign, integer significand and binary exponent.
  A payload that Python keeps as canonical text (\<open>str(decimal)\<close>, \<open>float.hex()\<close>, \<open>str(int)\<close>)
  is represented by the number it spells.
\<close>

section \<open>Numbers\<close>

datatype decimal = Dec (dec_neg: bool) (dec_coeff: nat) (dec_exp: int)

datatype binary64 = B64 (b64_neg: bool) (b64_sig: nat) (b64_exp: int)

definition signed :: "bool \<Rightarrow> nat \<Rightarrow> int" where
  "signed neg n = (if neg then - int n else int n)"

definition scaled :: "int \<Rightarrow> int \<Rightarrow> int \<Rightarrow> rat" where
  "scaled base c e =
     (if 0 \<le> e then of_int c * of_int base ^ nat e else of_int c / of_int base ^ nat (- e))"

fun decimal_value :: "decimal \<Rightarrow> rat" where
  "decimal_value (Dec neg c e) = scaled 10 (signed neg c) e"

fun binary64_value :: "binary64 \<Rightarrow> rat" where
  "binary64_value (B64 neg m e) = scaled 2 (signed neg m) e"

text \<open>The Python numbers a literal may carry.\<close>

datatype pynum = PyInt int | PyFrac rat | PyDec decimal | PyFloat binary64

fun num_value :: "pynum \<Rightarrow> rat" where
  "num_value (PyInt i) = of_int i"
| "num_value (PyFrac q) = q"
| "num_value (PyDec d) = decimal_value d"
| "num_value (PyFloat f) = binary64_value f"

lemma scaled_shift:
  assumes "0 \<le> k" and "base \<noteq> 0"
  shows "scaled base (c * base ^ nat k) e = scaled base c (e + k)"
proof -
  have nz: "(of_int base :: rat) \<noteq> 0" using assms by simp
  consider (pos) "0 \<le> e" | (mid) "e < 0" "0 \<le> e + k" | (neg) "e + k < 0" by linarith
  then show ?thesis
  proof cases
    case pos
    then show ?thesis using assms
      by (simp add: scaled_def nat_add_distrib power_add mult_ac)
  next
    case mid
    have "nat k = nat (e + k) + nat (- e)" using mid assms by linarith
    then show ?thesis using mid nz by (simp add: scaled_def power_add)
  next
    case neg
    have "nat (- e) = nat (- (e + k)) + nat k" using neg assms by linarith
    moreover have "\<not> 0 \<le> e" using neg assms by linarith
    ultimately show ?thesis using neg nz by (simp add: scaled_def power_add)
  qed
qed

lemma scaled_add: "scaled base (a + b) e = scaled base a e + scaled base b e"
  by (simp add: scaled_def add_divide_distrib distrib_right)

lemma scaled_mult:
  assumes "base \<noteq> 0"
  shows "scaled base a d * scaled base b e = scaled base (a * b) (d + e)"
proof -
  have nz: "(of_int base :: rat) \<noteq> 0" using assms by simp
  consider "0 \<le> d" "0 \<le> e" | "d < 0" "e < 0" | "0 \<le> d" "e < 0" | "d < 0" "0 \<le> e" by linarith
  then show ?thesis
  proof cases
    case 1
    then show ?thesis by (simp add: scaled_def nat_add_distrib power_add)
  next
    case 2
    have "nat (- (d + e)) = nat (- d) + nat (- e)" using 2 by linarith
    then show ?thesis using 2 nz by (simp add: scaled_def power_add)
  next
    case 3
    have "scaled base a d * scaled base b e = scaled base (a * b * base ^ nat d) e"
      using 3 by (simp add: scaled_def)
    then show ?thesis using 3 assms by (simp add: scaled_shift add.commute)
  next
    case 4
    have "scaled base a d * scaled base b e = scaled base (a * b * base ^ nat e) d"
      using 4 by (simp add: scaled_def)
    then show ?thesis using 4 assms by (simp add: scaled_shift)
  qed
qed

lemma scaled_neg: "scaled base (- a) e = - scaled base a e"
  by (simp add: scaled_def)

lemma signed_not [simp]: "signed (\<not> s) n = - signed s n"
  by (simp add: signed_def)

lemma signed_sign_abs [simp]: "signed (c < 0) (nat \<bar>c\<bar>) = c"
  by (simp add: signed_def)

section \<open>Exact decimal algebra\<close>

text \<open>\<open>Decimal | int\<close> operands.\<close>

datatype dec_operand = OpInt int | OpDec decimal

fun operand_value :: "dec_operand \<Rightarrow> rat" where
  "operand_value (OpInt i) = of_int i"
| "operand_value (OpDec d) = decimal_value d"

fun decimal_parts :: "dec_operand \<Rightarrow> int \<times> int" where
  "decimal_parts (OpInt i) = (i, 0)"
| "decimal_parts (OpDec (Dec neg c e)) = (if neg then - int c else int c, e)"

definition decimal_from_parts :: "int \<Rightarrow> int \<Rightarrow> decimal" where
  "decimal_from_parts coefficient exponent = Dec (coefficient < 0) (nat \<bar>coefficient\<bar>) exponent"

definition exact_decimal_add :: "dec_operand \<Rightarrow> dec_operand \<Rightarrow> decimal" where
  "exact_decimal_add left right =
     (let (left_coeff, left_exp) = decimal_parts left;
          (right_coeff, right_exp) = decimal_parts right;
          exponent = min left_exp right_exp;
          coefficient = left_coeff * 10 ^ nat (left_exp - exponent)
                      + right_coeff * 10 ^ nat (right_exp - exponent)
      in decimal_from_parts coefficient exponent)"

fun exact_decimal_negate :: "decimal \<Rightarrow> decimal" where
  "exact_decimal_negate (Dec sign digits exponent) = Dec (\<not> sign) digits exponent"

definition exact_decimal_multiply :: "dec_operand \<Rightarrow> dec_operand \<Rightarrow> decimal" where
  "exact_decimal_multiply left right =
     (let (left_coeff, left_exp) = decimal_parts left;
          (right_coeff, right_exp) = decimal_parts right
      in decimal_from_parts (left_coeff * right_coeff) (left_exp + right_exp))"

text \<open>
  The two \<open>while denominator % p == 0\<close> loops of the division: the remaining factor and the number
  of divisions. The measure is the denominator, which is positive whenever the loop is entered.
\<close>

function strip_factor :: "nat \<Rightarrow> nat \<Rightarrow> nat \<times> nat" where
  "strip_factor p n =
     (if 1 < p \<and> 0 < n \<and> n mod p = 0
      then (let (r, k) = strip_factor p (n div p) in (r, Suc k))
      else (n, 0))"
  by pat_completeness auto
termination
  by (relation "measure snd") auto

declare strip_factor.simps [simp del]

definition exact_decimal_divide :: "dec_operand \<Rightarrow> dec_operand \<Rightarrow> decimal option result" where
  "exact_decimal_divide left right =
     raise_if (operand_value right = 0) ZeroDivisionError
       (let (num, den) = quotient_of (operand_value left / operand_value right);
            (d2, powers_two) = strip_factor 2 (nat den);
            (d5, powers_five) = strip_factor 5 d2;
            scale = max powers_two powers_five
        in if d5 \<noteq> 1 then Inr None
           else Inr (Some (decimal_from_parts
                  (num * 5 ^ (scale - powers_two) * 2 ^ (scale - powers_five)) (- int scale))))"

lemma decimal_value_from_parts [simp]: "decimal_value (decimal_from_parts c e) = scaled 10 c e"
  by (simp add: decimal_from_parts_def)

lemma operand_value_parts: "operand_value x = scaled 10 (fst (decimal_parts x)) (snd (decimal_parts x))"
proof (cases x)
  case (OpInt i)
  then show ?thesis by (simp add: scaled_def)
next
  case (OpDec d)
  then show ?thesis by (cases d) (simp add: signed_def)
qed

lemma strip_factor_spec:
  assumes "strip_factor p n = (r, k)"
  shows "n = r * p ^ k"
  using assms
proof (induction p n arbitrary: r k rule: strip_factor.induct)
  case (1 p n)
  show ?case
  proof (cases "1 < p \<and> 0 < n \<and> n mod p = 0")
    case True
    obtain r' k' where rec: "strip_factor p (n div p) = (r', k')" by fastforce
    from True "1.prems" rec have "r = r'" and "k = Suc k'"
      by (auto simp: strip_factor.simps [of p n])
    moreover have "n div p = r' * p ^ k'" using "1.IH" [OF True rec] .
    ultimately show ?thesis using True by auto
  next
    case False
    with "1.prems" show ?thesis by (auto simp: strip_factor.simps [of p n])
  qed
qed

lemma strip_factor_coprime:
  assumes "strip_factor p n = (r, k)" and "1 < p" and "0 < n"
  shows "0 < r \<and> \<not> p dvd r"
  using assms
proof (induction p n arbitrary: r k rule: strip_factor.induct)
  case (1 p n)
  show ?case
  proof (cases "n mod p = 0")
    case True
    with "1.prems" have c: "1 < p \<and> 0 < n \<and> n mod p = 0" by simp
    obtain r' k' where rec: "strip_factor p (n div p) = (r', k')" by fastforce
    from c "1.prems" rec have "r = r'" by (auto simp: strip_factor.simps [of p n])
    moreover have "0 < n div p" using c by (simp add: div_greater_zero_iff dvd_imp_le mod_eq_0_iff_dvd)
    ultimately show ?thesis using "1.IH" [OF c rec] "1.prems"(2) by simp
  next
    case False
    with "1.prems" show ?thesis by (auto simp: strip_factor.simps [of p n])
  qed
qed

lemma decimal_add_value:
  "decimal_value (exact_decimal_add l r) = operand_value l + operand_value r"
proof -
  obtain a d where l: "decimal_parts l = (a, d)" by fastforce
  obtain b e where r: "decimal_parts r = (b, e)" by fastforce
  let ?m = "min d e"
  have "scaled 10 (a * 10 ^ nat (d - ?m)) ?m = scaled 10 a d"
    by (subst scaled_shift) auto
  moreover have "scaled 10 (b * 10 ^ nat (e - ?m)) ?m = scaled 10 b e"
    by (subst scaled_shift) auto
  ultimately show ?thesis
    by (simp add: exact_decimal_add_def Let_def l r scaled_add operand_value_parts [of l]
        operand_value_parts [of r])
qed

lemma decimal_multiply_value:
  "decimal_value (exact_decimal_multiply l r) = operand_value l * operand_value r"
  by (simp add: exact_decimal_multiply_def Let_def case_prod_unfold scaled_mult operand_value_parts [of l]
      operand_value_parts [of r])

lemma decimal_negate_value: "decimal_value (exact_decimal_negate d) = - decimal_value d"
  by (cases d) (simp add: scaled_neg)

text \<open>
  What the division computes. When the reduced denominator is \<open>2 ^ a * 5 ^ b\<close> the code multiplies
  the numerator by \<open>5 ^ (scale - a) * 2 ^ (scale - b)\<close>; the factors that complete the denominator to
  a power of ten are \<open>2 ^ (scale - a) * 5 ^ (scale - b)\<close>, so the value is \<open>n / (5 ^ a * 2 ^ b)\<close>.
\<close>

lemma quotient_den_factors:
  assumes "quotient_of q = (num, den)"
    and "strip_factor 2 (nat den) = (d2, a)" and "strip_factor 5 d2 = (1, b)"
  shows "q = of_int num / (2 ^ a * 5 ^ b)"
proof -
  have "0 < den" using assms(1) by (rule quotient_of_denom_pos)
  moreover have "nat den = 5 ^ b * 2 ^ a"
    using strip_factor_spec [OF assms(2)] strip_factor_spec [OF assms(3)] by simp
  ultimately have "den = 5 ^ b * 2 ^ a"
    by (metis nat_eq_numeral_power_cancel_iff int_nat_eq less_le_not_le of_nat_mult of_nat_numeral of_nat_power linorder_not_le)
  then show ?thesis using quotient_of_div [OF assms(1)] by (simp add: mult.commute)
qed

lemma exact_divide_Some:
  assumes "operand_value r \<noteq> 0"
    and q: "quotient_of (operand_value l / operand_value r) = (num, den)"
    and d2: "strip_factor 2 (nat den) = (d2, a)" and d5: "strip_factor 5 d2 = (1, b)"
  shows "\<exists>d. exact_decimal_divide l r = Inr (Some d) \<and> decimal_value d = of_int num / (5 ^ a * 2 ^ b)"
proof -
  let ?s = "max a b"
  have five: "(5::rat) ^ (?s - a) * 5 ^ a = 5 ^ ?s" and two: "(2::rat) ^ (?s - b) * 2 ^ b = 2 ^ ?s"
    by (simp_all flip: power_add)
  have ten: "(10::rat) ^ ?s = 5 ^ ?s * 2 ^ ?s" by (simp flip: power_mult_distrib)
  have "scaled 10 (num * 5 ^ (?s - a) * 2 ^ (?s - b)) (- int ?s)
      = of_int num * 5 ^ (?s - a) * 2 ^ (?s - b) / 10 ^ ?s"
    by (cases "?s = 0") (auto simp: scaled_def)
  also have "\<dots> = of_int num / (5 ^ a * 2 ^ b)"
    unfolding ten five [symmetric] two [symmetric] by simp
  finally show ?thesis
    using assms(1) by (simp add: exact_decimal_divide_def q d2 d5 Let_def)
qed

lemma exact_divide_None:
  assumes "operand_value r \<noteq> 0"
    and q: "quotient_of (operand_value l / operand_value r) = (num, den)"
    and d2: "strip_factor 2 (nat den) = (d2, a)" and d5: "strip_factor 5 d2 = (e, b)" and "e \<noteq> 1"
  shows "exact_decimal_divide l r = Inr None"
  using assms by (simp add: exact_decimal_divide_def Let_def)

lemma five_two_powers: "(5::rat) ^ a * 2 ^ b = 2 ^ a * 5 ^ b \<longleftrightarrow> a = b"
proof
  assume eq: "(5::rat) ^ a * 2 ^ b = 2 ^ a * 5 ^ b"
  have "(5 / 2 :: rat) ^ a = (5 / 2) ^ b"
    using eq by (simp add: power_divide field_simps)
  then show "a = b" by (simp add: power_inject_exp)
qed simp

section \<open>Properties\<close>

text \<open>
  Exact decimal algebra: addition, multiplication and negation of decimals (and of decimals
  with integers) return a decimal whose value is exactly the sum, product or negation, whatever the
  exponents and the ambient decimal context.
\<close>

theorem decimal_algebra_exact:
  "decimal_value (exact_decimal_add l r) = operand_value l + operand_value r
   \<and> decimal_value (exact_decimal_multiply l r) = operand_value l * operand_value r
   \<and> decimal_value (exact_decimal_negate d) = - decimal_value d
   \<and> exact_decimal_negate (exact_decimal_negate d) = d"
  by (cases d) (simp add: decimal_add_value decimal_multiply_value scaled_neg)

text \<open>
  What \<open>exact_decimal_divide\<close> computes on a non-zero divisor: it answers \<open>None\<close> exactly
  when the reduced denominator has a prime factor other than 2 and 5, and when the denominator is
  \<open>2 ^ a * 5 ^ b\<close> the decimal it returns is the quotient if and only if \<open>a = b\<close> or the quotient is
  zero. (The completing factors are swapped: one half is returned as \<open>0.2\<close>.)
\<close>

theorem decimal_divide_characterised:
  assumes "operand_value r \<noteq> 0"
    and q: "quotient_of (operand_value l / operand_value r) = (num, den)"
    and d2: "strip_factor 2 (nat den) = (d2, a)" and d5: "strip_factor 5 d2 = (rest, b)"
  shows "(exact_decimal_divide l r = Inr None \<longleftrightarrow> rest \<noteq> 1)
    \<and> (rest = 1 \<longrightarrow> (\<exists>d. exact_decimal_divide l r = Inr (Some d)
        \<and> (decimal_value d = operand_value l / operand_value r \<longleftrightarrow> num = 0 \<or> a = b)))"
proof (cases "rest = 1")
  case True
  then obtain d where d: "exact_decimal_divide l r = Inr (Some d)"
    and v: "decimal_value d = of_int num / (5 ^ a * 2 ^ b)"
    using exact_divide_Some [OF assms(1) q d2] d5 by blast
  have "operand_value l / operand_value r = of_int num / (2 ^ a * 5 ^ b)"
    using quotient_den_factors [OF q d2] d5 True by simp
  then have "decimal_value d = operand_value l / operand_value r \<longleftrightarrow> num = 0 \<or> a = b"
    by (simp only: v divide_cancel_left five_two_powers of_int_eq_0_iff)
  with d True show ?thesis by auto
next
  case False
  then show ?thesis using exact_divide_None [OF assms(1) q d2 d5] by simp
qed

theorem decimal_divide_characterised_witness:
  "exact_decimal_divide (OpInt 1) (OpInt 2) \<noteq> Inr None
   \<and> (\<exists>d. exact_decimal_divide (OpInt 1) (OpInt 2) = Inr (Some d) \<and> decimal_value d \<noteq> 1 / 2)"
proof -
  have q: "quotient_of (operand_value (OpInt 1) / operand_value (OpInt 2)) = (1, 2)"
    by code_simp
  have d2: "strip_factor 2 (nat 2) = (1, 1)" by code_simp
  have d5: "strip_factor 5 1 = (1, 0)" by code_simp
  show ?thesis using decimal_divide_characterised [OF _ q d2 d5] by auto
qed

end
