(* ===== verification/Pops_Literal.thy ===== *)
theory Pops_Literal
  imports Pops_Scalar
begin

text \<open>
  \<open>ScalarLiteral\<close> of \<open>python/pops/identity/scalar.py\<close>: its validating constructor, the coercion
  \<open>from_value\<close> from an authored Python value, the canonical data projection, the conversion back
  to a Python number, and the C++ lowering. The text a literal is lowered to is modelled as an
  expression tree, one constructor per spelling the code concatenates.
\<close>

section \<open>Literals\<close>

text \<open>JSON-shaped payload of a custom literal (\<open>POpaque\<close>: any value outside strict JSON).\<close>

datatype payload =
    PNone | PBool bool | PInt int | PStr string | PFloat binary64 | PNonFinite
  | PSeq "payload list" | PMap "(string \<times> payload) list" | PBadKeyMap | POpaque

fun freeze_payload :: "payload \<Rightarrow> payload result" where
  "freeze_payload (PMap rows) =
     bindR (traverse (\<lambda>(k, v). bindR (freeze_payload v) (\<lambda>w. Inr (k, w))) rows) (\<lambda>rs. Inr (PMap rs))"
| "freeze_payload PBadKeyMap = Inl TypeError"
| "freeze_payload (PSeq xs) = bindR (traverse freeze_payload xs) (\<lambda>ys. Inr (PSeq ys))"
| "freeze_payload PNonFinite = Inl ValueError"
| "freeze_payload POpaque = Inl TypeError"
| "freeze_payload v = Inr v"

text \<open>
  The kind of a literal with its payload. \<open>LDecimal None\<close> and \<open>LBinary64 None\<close> are payload texts
  that parse to a non-finite number (\<open>NaN\<close>, \<open>Infinity\<close>); a payload of the wrong shape is
  \<open>LMalformed\<close>.
\<close>

datatype body =
    LInteger int
  | LRational int int
  | LDecimal "decimal option"
  | LBinary64 "binary64 option"
  | LAlgebraic string
  | LCustom string payload
  | LMalformed

record literal =
  lit_body :: body
  lit_unit :: "string option"
  lit_target :: "string option"
  lit_cpp :: "string option"

text \<open>
  \<open>_CPP_TYPE_RE.fullmatch\<close>: identifiers joined by \<open>::\<close>. The matcher's state is whether an
  identifier must start (\<open>0\<close>), is being read (\<open>1\<close>), or one colon has been read (\<open>2\<close>).
\<close>

definition ident_start :: "char \<Rightarrow> bool" where
  "ident_start c = (let n = (of_char c :: nat) in 65 \<le> n \<and> n \<le> 90 \<or> n = 95 \<or> 97 \<le> n \<and> n \<le> 122)"

definition ident_part :: "char \<Rightarrow> bool" where
  "ident_part c = (let n = (of_char c :: nat) in ident_start c \<or> 48 \<le> n \<and> n \<le> 57)"

fun cpp_type_match :: "nat \<Rightarrow> string \<Rightarrow> bool" where
  "cpp_type_match st [] = (st = 1)"
| "cpp_type_match st (c # cs) =
     (if st = 0 then ident_start c \<and> cpp_type_match 1 cs
      else if st = 1 then
        (if ident_part c then cpp_type_match 1 cs
         else c = CHR '':'' \<and> cpp_type_match 2 cs)
      else c = CHR '':'' \<and> cpp_type_match 0 cs)"

definition empty_text :: "string option \<Rightarrow> bool" where
  "empty_text t = (t = Some '''')"

definition check_body :: "body \<Rightarrow> string option \<Rightarrow> body result" where
  "check_body b cpp =
     (case b of
        LInteger i \<Rightarrow> Inr (LInteger i)
      | LRational n d \<Rightarrow>
          raise_if (d = 0) TypeError
            (let (p, q) = quotient_of (Fract n d) in Inr (LRational p q))
      | LDecimal d \<Rightarrow> raise_if (d = None) ValueError (Inr (LDecimal d))
      | LBinary64 f \<Rightarrow> raise_if (f = None) ValueError (Inr (LBinary64 f))
      | LAlgebraic text \<Rightarrow> raise_if (text = [] \<or> cpp = None) ValueError (Inr (LAlgebraic text))
      | LCustom kind p \<Rightarrow> bindR (freeze_payload p) (\<lambda>q. Inr (LCustom kind q))
      | LMalformed \<Rightarrow> Inl TypeError)"

definition mk_literal :: "body \<Rightarrow> string option \<Rightarrow> string option \<Rightarrow> string option \<Rightarrow> literal result" where
  "mk_literal b unit target cpp =
     raise_if (case b of LCustom kind _ \<Rightarrow> kind = [] | _ \<Rightarrow> False) ValueError
    (raise_if (empty_text unit \<or> empty_text target \<or> empty_text cpp) ValueError
    (raise_if (case target of None \<Rightarrow> False | Some t \<Rightarrow> \<not> cpp_type_match 0 t) ValueError
    (bindR (check_body b cpp)
      (\<lambda>b'. Inr \<lparr>lit_body = b', lit_unit = unit, lit_target = target, lit_cpp = cpp\<rparr>))))"

text \<open>
  The authored values \<open>from_value\<close> dispatches on: \<open>AHook\<close> is an object with a
  \<open>__pops_scalar_literal__\<close> hook (\<open>None\<close>: the hook returned an invalid record), \<open>AConst\<close> a
  typed constant descriptor with its \<open>value\<close>, \<open>unit\<close> and \<open>dtype\<close>, \<open>AOther\<close> anything else.
\<close>

datatype authored =
    ALiteral literal
  | ABool bool
  | AInt int
  | AFraction rat
  | ADecimal "decimal option"
  | AFloat "binary64 option"
  | AHook "(body \<times> string option \<times> string option \<times> string option) option"
  | AConst authored "string option" "string option"
  | AOther

fun target_name :: "string option \<Rightarrow> string option result" where
  "target_name None = Inr None"
| "target_name (Some name) = raise_if (name = []) TypeError (Inr (Some name))"

fun from_value :: "authored \<Rightarrow> string option \<Rightarrow> string option \<Rightarrow> literal result" where
  "from_value (ALiteral l) unit target =
     (if unit = None \<and> target = None then Inr l
      else bindR (if target = None then Inr (lit_target l) else target_name target)
        (\<lambda>t. mk_literal (lit_body l) (if unit = None then lit_unit l else unit) t (lit_cpp l)))"
| "from_value (ABool b) unit target = Inl TypeError"
| "from_value (AInt i) unit target =
     bindR (target_name target) (\<lambda>t. mk_literal (LInteger i) unit t None)"
| "from_value (AFraction q) unit target =
     bindR (target_name target)
       (\<lambda>t. mk_literal (LRational (fst (quotient_of q)) (snd (quotient_of q))) unit t None)"
| "from_value (ADecimal d) unit target =
     raise_if (d = None) ValueError
       (bindR (target_name target) (\<lambda>t. mk_literal (LDecimal d) unit t None))"
| "from_value (AFloat f) unit target =
     raise_if (f = None) ValueError
       (bindR (target_name target) (\<lambda>t. mk_literal (LBinary64 f) unit t None))"
| "from_value (AHook None) unit target = Inl TypeError"
| "from_value (AHook (Some (b, u, t, c))) unit target = mk_literal b u t c"
| "from_value (AConst v u t) unit target = from_value v u t"
| "from_value AOther unit target = Inl TypeError"

definition scalar_literal :: "authored \<Rightarrow> literal result" where
  "scalar_literal v = from_value v None None"

text \<open>\<open>ScalarLiteral.to_python\<close>; an algebraic or custom literal has no Python number.\<close>

definition to_python :: "literal \<Rightarrow> pynum result" where
  "to_python l =
     (case lit_body l of
        LInteger i \<Rightarrow> Inr (PyInt i)
      | LRational n d \<Rightarrow> Inr (PyFrac (Fract n d))
      | LDecimal (Some d) \<Rightarrow> Inr (PyDec d)
      | LBinary64 (Some f) \<Rightarrow> Inr (PyFloat f)
      | _ \<Rightarrow> Inl TypeError)"

text \<open>
  \<open>ScalarLiteral.to_data\<close>: an insertion-ordered dictionary. A leaf that Python stores as text is
  represented by the number it spells.
\<close>

datatype leaf = DKind string | DInt int | DDecimal decimal | DHex binary64 | DText string | DPayload payload

definition opt_row :: "string \<Rightarrow> string option \<Rightarrow> (string \<times> leaf) list" where
  "opt_row k v = (case v of None \<Rightarrow> [] | Some t \<Rightarrow> [(k, DText t)])"

definition to_data :: "literal \<Rightarrow> (string \<times> leaf) list" where
  "to_data l =
     (case lit_body l of
        LInteger i \<Rightarrow> [(''kind'', DKind ''integer''), (''value'', DInt i)]
      | LRational n d \<Rightarrow>
          [(''kind'', DKind ''rational''), (''numerator'', DInt n), (''denominator'', DInt d)]
      | LDecimal (Some d) \<Rightarrow> [(''kind'', DKind ''decimal''), (''value'', DDecimal d)]
      | LBinary64 (Some f) \<Rightarrow> [(''kind'', DKind ''binary64''), (''value'', DHex f)]
      | LAlgebraic t \<Rightarrow> [(''kind'', DKind ''algebraic''), (''value'', DText t)]
      | LCustom k p \<Rightarrow> [(''kind'', DKind k), (''value'', DPayload p)]
      | _ \<Rightarrow> [])
     @ opt_row ''unit'' (lit_unit l) @ opt_row ''target'' (lit_target l) @ opt_row ''cpp'' (lit_cpp l)"

text \<open>\<open>exact_numeric_scalar\<close>: a number, only when no annotation would be erased.\<close>

definition exact_numeric_scalar :: "authored \<Rightarrow> pynum result" where
  "exact_numeric_scalar v =
     bindR (scalar_literal v)
       (\<lambda>l. raise_if (lit_unit l \<noteq> None \<or> lit_target l \<noteq> None) TypeError (to_python l))"

definition cpp_int_max :: int where
  "cpp_int_max = 2 ^ 31 - 1"

text \<open>\<open>exact_cpp_int\<close>: the bounds are Python ints and the value may be any authored value.\<close>

definition exact_cpp_int :: "authored \<Rightarrow> int \<Rightarrow> int \<Rightarrow> int result" where
  "exact_cpp_int value minimum maximum =
     raise_if (maximum < minimum) TypeError
       (case value of
          AInt v \<Rightarrow> raise_if (v < minimum \<or> v > maximum) ValueError (Inr v)
        | _ \<Rightarrow> Inl ValueError)"

definition numeric_domains_compatible :: "pynum \<Rightarrow> pynum \<Rightarrow> bool" where
  "numeric_domains_compatible left right =
     (case (left, right) of
        (PyInt _, PyInt _) \<Rightarrow> True
      | (PyFrac _, PyFrac _) \<Rightarrow> True
      | (PyDec _, PyDec _) \<Rightarrow> True
      | (PyFloat _, PyFloat _) \<Rightarrow> True
      | (PyInt i, PyFloat _) \<Rightarrow> \<bar>i\<bar> \<le> 2 ^ 53
      | (PyFloat _, PyInt i) \<Rightarrow> \<bar>i\<bar> \<le> 2 ^ 53
      | (PyInt _, _) \<Rightarrow> True
      | (_, PyInt _) \<Rightarrow> True
      | _ \<Rightarrow> False)"

lemma mk_literal_body:
  "mk_literal b u t c = Inr l \<Longrightarrow> lit_unit l = u \<and> lit_target l = t \<and> lit_cpp l = c \<and> check_body b c = Inr (lit_body l)"
  by (auto simp: mk_literal_def)

text \<open>The number an authored value stands for, when it is one.\<close>

fun authored_number :: "authored \<Rightarrow> pynum option" where
  "authored_number (AInt i) = Some (PyInt i)"
| "authored_number (AFraction q) = Some (PyFrac q)"
| "authored_number (ADecimal (Some d)) = Some (PyDec d)"
| "authored_number (AFloat (Some f)) = Some (PyFloat f)"
| "authored_number (AConst v u t) = authored_number v"
| "authored_number _ = None"

lemma Fract_quotient_of: "Fract (fst (quotient_of q)) (snd (quotient_of q)) = q"
  by (metis Fract_of_int_quotient quotient_of_div prod.collapse)

lemma check_body_quotient:
  "check_body (LRational (fst (quotient_of q)) (snd (quotient_of q))) c
     = Inr (LRational (fst (quotient_of q)) (snd (quotient_of q)))"
proof -
  have "snd (quotient_of q) \<noteq> 0"
    using quotient_of_denom_pos [of q "fst (quotient_of q)" "snd (quotient_of q)"] by simp
  then show ?thesis by (simp add: check_body_def Fract_quotient_of case_prod_unfold Let_def)
qed

lemma mk_literal_number:
  assumes "mk_literal b u t c = Inr l"
  shows "b = LInteger i \<Longrightarrow> to_python l = Inr (PyInt i)"
    and "b = LDecimal (Some d) \<Longrightarrow> to_python l = Inr (PyDec d)"
    and "b = LBinary64 (Some f) \<Longrightarrow> to_python l = Inr (PyFloat f)"
    and "b = LRational (fst (quotient_of q)) (snd (quotient_of q)) \<Longrightarrow> to_python l = Inr (PyFrac q)"
proof -
  have body: "check_body b c = Inr (lit_body l)" using mk_literal_body [OF assms] by simp
  show "b = LInteger i \<Longrightarrow> to_python l = Inr (PyInt i)"
    using body by (auto simp: check_body_def to_python_def dest: sym)
  show "b = LDecimal (Some d) \<Longrightarrow> to_python l = Inr (PyDec d)"
    using body by (auto simp: check_body_def to_python_def dest: sym)
  show "b = LBinary64 (Some f) \<Longrightarrow> to_python l = Inr (PyFloat f)"
    using body by (auto simp: check_body_def to_python_def dest: sym)
  assume "b = LRational (fst (quotient_of q)) (snd (quotient_of q))"
  then have "lit_body l = LRational (fst (quotient_of q)) (snd (quotient_of q))"
    using body check_body_quotient [of q c] by simp
  then show "to_python l = Inr (PyFrac q)" by (simp add: to_python_def Fract_quotient_of)
qed

lemma from_value_number:
  assumes "authored_number v = Some n" and "from_value v u t = Inr l"
  shows "to_python l = Inr n"
  using assms
  by (induction v u t arbitrary: l rule: from_value.induct) (auto dest: mk_literal_number)

section \<open>C++ spelling\<close>

text \<open>
  One constructor per spelling: \<open>CTok i\<close> is \<open>T(i)\<close>, \<open>CReal q\<close> is \<open>T(repr(float(q)))\<close> (one rounding
  of an exact number), \<open>CDecimal d\<close> is \<open>T(str(d))\<close> (\<open>-0.0\<close> for a negative zero), \<open>CFloat cast f\<close> is
  \<open>repr(f)\<close> with or without the cast, \<open>CText t\<close> an authored spelling.
\<close>

datatype cexpr =
    CTok int | CReal rat | CDecimal decimal | CFloat bool binary64 | CText string
  | CMul cexpr cexpr | CAdd cexpr cexpr | CDiv cexpr cexpr | CNeg cexpr

text \<open>The exact value of a spelling, before the target type rounds it (an authored text has none).\<close>

fun cvalue :: "cexpr \<Rightarrow> rat option" where
  "cvalue (CTok i) = Some (of_int i)"
| "cvalue (CReal q) = Some q"
| "cvalue (CDecimal d) = Some (decimal_value d)"
| "cvalue (CFloat c f) = Some (binary64_value f)"
| "cvalue (CText t) = None"
| "cvalue (CMul a b) = Option.bind (cvalue a) (\<lambda>x. map_option (\<lambda>y. x * y) (cvalue b))"
| "cvalue (CAdd a b) = Option.bind (cvalue a) (\<lambda>x. map_option (\<lambda>y. x + y) (cvalue b))"
| "cvalue (CDiv a b) = Option.bind (cvalue a) (\<lambda>x. map_option (\<lambda>y. x / y) (cvalue b))"
| "cvalue (CNeg a) = map_option uminus (cvalue a)"

text \<open>The integer tokens of a spelling.\<close>

fun int_tokens :: "cexpr \<Rightarrow> int list" where
  "int_tokens (CTok i) = [i]"
| "int_tokens (CMul a b) = int_tokens a @ int_tokens b"
| "int_tokens (CAdd a b) = int_tokens a @ int_tokens b"
| "int_tokens (CDiv a b) = int_tokens a @ int_tokens b"
| "int_tokens (CNeg a) = int_tokens a"
| "int_tokens _ = []"

definition cpp_signed_integer_max :: int where
  "cpp_signed_integer_max = 2 ^ 63 - 1"

definition binary64_exact_integer_max :: int where
  "binary64_exact_integer_max = 2 ^ 53"

text \<open>
  \<open>_finite_real_token\<close>: \<open>float(value)\<close> overflows exactly from half an ulp above the largest finite
  binary64.
\<close>

definition finite_real_token :: "rat \<Rightarrow> cexpr result" where
  "finite_real_token q = raise_if (2 ^ 1024 - 2 ^ 970 \<le> \<bar>q\<bar>) OverflowError (Inr (CReal q))"

text \<open>The decimal digits of \<open>str(n)\<close>, most significant first, and the value of a digit slice.\<close>

fun digits :: "nat \<Rightarrow> nat list" where
  "digits n = (if n < 10 then [n] else digits (n div 10) @ [n mod 10])"

declare digits.simps [simp del]

definition horner :: "nat list \<Rightarrow> nat" where
  "horner ds = foldl (\<lambda>a d. 10 * a + d) 0 ds"

function chunks9 :: "nat list \<Rightarrow> nat list" where
  "chunks9 ds = (if ds = [] then [] else horner (take 9 ds) # chunks9 (drop 9 ds))"
  by pat_completeness auto
termination
  by (relation "measure length") auto

declare chunks9.simps [simp del]

definition integer_chunks :: "int \<Rightarrow> nat list" where
  "integer_chunks value =
     (let ds = digits (nat \<bar>value\<bar>);
          first = (if length ds mod 9 = 0 then 9 else length ds mod 9)
      in horner (take first ds) # chunks9 (drop first ds))"

definition join_chunks :: "cexpr \<Rightarrow> nat list \<Rightarrow> cexpr" where
  "join_chunks e cs =
     foldl (\<lambda>e c. CAdd (CMul e (CTok 1000000000)) (CTok (int c))) e cs"

definition integer_chunks_cpp :: "int \<Rightarrow> cexpr" where
  "integer_chunks_cpp value =
     (let chunks = integer_chunks value;
          expression = join_chunks (CTok (int (hd chunks))) (tl chunks)
      in if value < 0 then CNeg expression else expression)"

definition integer_cpp :: "int \<Rightarrow> bool \<Rightarrow> cexpr result" where
  "integer_cpp value bounded_real =
     (if \<bar>value\<bar> \<le> cpp_signed_integer_max then Inr (CTok value)
      else if bounded_real then finite_real_token (of_int value)
      else Inr (integer_chunks_cpp value))"

definition rational_cpp :: "int \<Rightarrow> int \<Rightarrow> bool \<Rightarrow> cexpr result" where
  "rational_cpp num den bounded_real =
     (if bounded_real then
        (if \<bar>num\<bar> \<le> binary64_exact_integer_max \<and> \<bar>den\<bar> \<le> binary64_exact_integer_max
         then Inr (CDiv (CTok num) (CTok den))
         else finite_real_token (Fract num den))
      else if \<bar>num\<bar> \<le> cpp_signed_integer_max \<and> \<bar>den\<bar> \<le> cpp_signed_integer_max
      then Inr (CDiv (CTok num) (CTok den))
      else Inr (CDiv (integer_chunks_cpp num) (integer_chunks_cpp den)))"

definition to_cpp :: "literal \<Rightarrow> cexpr result" where
  "to_cpp l =
     raise_if (lit_unit l \<noteq> None) TypeError
       (let cpp_type = (case lit_target l of None \<Rightarrow> ''pops::Real'' | Some t \<Rightarrow> t);
            bounded_real = (cpp_type = ''pops::Real'')
        in case lit_body l of
             LInteger i \<Rightarrow> integer_cpp i bounded_real
           | LRational n d \<Rightarrow> rational_cpp n d bounded_real
           | LDecimal (Some d) \<Rightarrow>
               (if bounded_real then
                  bindR (finite_real_token (decimal_value d)) (\<lambda>_. Inr (CDecimal d))
                else if dec_coeff d = 0 \<and> dec_neg d then Inr (CDecimal d)
                else rational_cpp (fst (quotient_of (decimal_value d)))
                       (snd (quotient_of (decimal_value d))) False)
           | LBinary64 (Some f) \<Rightarrow> Inr (CFloat (lit_target l \<noteq> None) f)
           | _ \<Rightarrow> (case lit_cpp l of None \<Rightarrow> Inl TypeError | Some t \<Rightarrow> Inr (CText t)))"

lemma foldl_horner: "foldl (\<lambda>a d. 10 * a + d) x ys = x * 10 ^ length ys + horner ys"
  by (induction ys rule: rev_induct) (auto simp: horner_def)

lemma horner_append: "horner (xs @ ys) = horner xs * 10 ^ length ys + horner ys"
proof -
  have "horner (xs @ ys) = foldl (\<lambda>a d. 10 * a + d) (horner xs) ys" by (simp add: horner_def)
  then show ?thesis by (simp only: foldl_horner)
qed

lemma digits_low: "n < 10 \<Longrightarrow> digits n = [n]"
  by (subst digits.simps) simp

lemma digits_high: "\<not> n < 10 \<Longrightarrow> digits n = digits (n div 10) @ [n mod 10]"
  by (subst digits.simps) simp

lemma horner_single: "horner [d] = d"
  by (simp add: horner_def)

lemma horner_digits: "horner (digits n) = n"
proof (induction n rule: digits.induct)
  case (1 n)
  show ?case
  proof (cases "n < 10")
    case True
    then show ?thesis by (simp add: digits_low horner_single)
  next
    case False
    then have "horner (digits n) = horner (digits (n div 10)) * 10 + n mod 10"
      by (simp add: digits_high horner_append horner_single)
    then show ?thesis using 1 False by simp
  qed
qed

lemma digits_small: "d \<in> set (digits n) \<Longrightarrow> d < 10"
proof (induction n rule: digits.induct)
  case (1 n)
  then show ?case by (cases "n < 10") (auto simp: digits_low digits_high)
qed

lemma chunks9_Nil [simp]: "chunks9 [] = []"
  by (subst chunks9.simps) simp

lemma chunks9_Cons: "ds \<noteq> [] \<Longrightarrow> chunks9 ds = horner (take 9 ds) # chunks9 (drop 9 ds)"
  by (subst chunks9.simps) simp

lemma digits_nonempty [simp]: "digits n \<noteq> []"
  by (cases "n < 10") (simp_all add: digits_low digits_high)

lemma horner_bound: "(\<And>d. d \<in> set ds \<Longrightarrow> d < 10) \<Longrightarrow> horner ds < 10 ^ length ds"
proof (induction ds rule: rev_induct)
  case Nil
  then show ?case by (simp add: horner_def)
next
  case (snoc d ds)
  then have "horner ds < 10 ^ length ds" and "d < 10" by simp_all
  then show ?case by (simp add: horner_append) (simp add: horner_def)
qed

lemma join_chunks_value:
  assumes "cvalue e = Some (of_nat m)" and "9 dvd length ds"
  shows "cvalue (join_chunks e (chunks9 ds)) = Some (of_nat (m * 10 ^ length ds + horner ds))"
  using assms
proof (induction ds arbitrary: e m rule: chunks9.induct)
  case (1 ds)
  show ?case
  proof (cases "ds = []")
    case True
    then show ?thesis using 1 by (simp add: join_chunks_def horner_def)
  next
    case False
    with 1 have len: "9 \<le> length ds" by (auto dest: dvd_imp_le)
    let ?c = "horner (take 9 ds)"
    let ?e = "CAdd (CMul e (CTok 1000000000)) (CTok (int ?c))"
    have e: "cvalue ?e = Some (of_nat (m * 10 ^ 9 + ?c))" using 1 by simp
    have "9 dvd length (drop 9 ds)" using 1 len by (simp add: dvd_diff_nat)
    from "1.IH" [OF False e this]
    have "cvalue (join_chunks ?e (chunks9 (drop 9 ds)))
        = Some (of_nat ((m * 10 ^ 9 + ?c) * 10 ^ (length ds - 9) + horner (drop 9 ds)))" by simp
    moreover have "horner ds = ?c * 10 ^ (length ds - 9) + horner (drop 9 ds)"
      using horner_append [of "take 9 ds" "drop 9 ds"] by simp
    moreover have "(10::nat) ^ length ds = 10 ^ 9 * 10 ^ (length ds - 9)"
      using len by (metis le_add_diff_inverse power_add)
    ultimately show ?thesis using False
      by (simp add: chunks9_Cons join_chunks_def algebra_simps)
  qed
qed

lemma join_chunks_tokens:
  assumes "\<And>i. i \<in> set (int_tokens e) \<Longrightarrow> 0 \<le> i \<and> i \<le> 10 ^ 9"
    and "\<And>d. d \<in> set ds \<Longrightarrow> d < 10" and "i \<in> set (int_tokens (join_chunks e (chunks9 ds)))"
  shows "0 \<le> i \<and> i \<le> 10 ^ 9"
  using assms
proof (induction ds arbitrary: e rule: chunks9.induct)
  case (1 ds)
  show ?case
  proof (cases "ds = []")
    case True
    then show ?thesis using 1 by (simp add: join_chunks_def)
  next
    case False
    let ?c = "horner (take 9 ds)"
    let ?e = "CAdd (CMul e (CTok 1000000000)) (CTok (int ?c))"
    have "?c < 10 ^ length (take 9 ds)" using "1.prems"(2) by (intro horner_bound) (auto dest: in_set_takeD)
    also have "\<dots> \<le> 10 ^ 9" by (rule power_increasing) auto
    finally have "int ?c \<le> 10 ^ 9" by simp
    then have "\<And>i. i \<in> set (int_tokens ?e) \<Longrightarrow> 0 \<le> i \<and> i \<le> 10 ^ 9"
      using "1.prems"(1) by auto
    moreover have "\<And>d. d \<in> set (drop 9 ds) \<Longrightarrow> d < 10" using "1.prems"(2) by (auto dest: in_set_dropD)
    moreover have "i \<in> set (int_tokens (join_chunks ?e (chunks9 (drop 9 ds))))"
      using "1.prems"(3) False by (simp add: chunks9_Cons join_chunks_def)
    ultimately show ?thesis by (rule "1.IH" [OF False])
  qed
qed

lemma integer_chunks_split:
  fixes v :: int
  defines "ds \<equiv> digits (nat \<bar>v\<bar>)"
  defines "k \<equiv> (if length ds mod 9 = 0 then 9 else length ds mod 9)"
  shows "integer_chunks v = horner (take k ds) # chunks9 (drop k ds)" "k \<le> 9" "k \<le> length ds"
    "9 dvd length (drop k ds)" "horner (take k ds) * 10 ^ length (drop k ds) + horner (drop k ds) = nat \<bar>v\<bar>"
proof -
  have pos: "0 < length ds" by (simp add: ds_def)
  show "integer_chunks v = horner (take k ds) # chunks9 (drop k ds)"
    by (simp add: integer_chunks_def ds_def k_def Let_def)
  show "k \<le> 9" by (simp add: k_def)
  show "k \<le> length ds" using pos by (auto simp: k_def dvd_imp_le intro: mod_less_eq_dividend)
  show "9 dvd length (drop k ds)"
    using pos by (auto simp: k_def dvd_imp_le dvd_diff_nat mod_eq_0_iff_dvd minus_mod_eq_mult_div)
  show "horner (take k ds) * 10 ^ length (drop k ds) + horner (drop k ds) = nat \<bar>v\<bar>"
    using horner_append [of "take k ds" "drop k ds"] by (simp add: ds_def horner_digits)
qed

lemma integer_chunks_cpp_value: "cvalue (integer_chunks_cpp v) = Some (of_int v)"
proof -
  note split = integer_chunks_split [of v]
  let ?ds = "digits (nat \<bar>v\<bar>)"
  let ?k = "if length ?ds mod 9 = 0 then 9 else length ?ds mod 9"
  have "cvalue (join_chunks (CTok (int (horner (take ?k ?ds)))) (chunks9 (drop ?k ?ds)))
      = Some (of_nat (nat \<bar>v\<bar>))"
    using join_chunks_value [of "CTok (int (horner (take ?k ?ds)))" "horner (take ?k ?ds)", OF _ split(4)]
    by (simp only: split(5) cvalue.simps of_int_of_nat_eq)
  then show ?thesis by (auto simp: integer_chunks_cpp_def split(1) Let_def)
qed

lemma integer_chunks_cpp_tokens:
  assumes "i \<in> set (int_tokens (integer_chunks_cpp v))"
  shows "0 \<le> i \<and> i \<le> 10 ^ 9"
proof -
  note split = integer_chunks_split [of v]
  let ?ds = "digits (nat \<bar>v\<bar>)"
  let ?k = "if length ?ds mod 9 = 0 then 9 else length ?ds mod 9"
  have "horner (take ?k ?ds) < 10 ^ length (take ?k ?ds)"
    by (intro horner_bound) (auto dest: in_set_takeD digits_small)
  also have "\<dots> \<le> 10 ^ 9" using split(2) by (intro power_increasing) auto
  finally have "horner (take ?k ?ds) \<le> 10 ^ 9" by simp
  then have first: "\<And>j. j \<in> set (int_tokens (CTok (int (horner (take ?k ?ds))))) \<Longrightarrow> 0 \<le> j \<and> j \<le> 10 ^ 9"
    by simp
  have rest: "\<And>d. d \<in> set (drop ?k ?ds) \<Longrightarrow> d < 10"
    by (rule digits_small) (erule in_set_dropD)
  have "int_tokens (integer_chunks_cpp v)
      = int_tokens (join_chunks (CTok (int (horner (take ?k ?ds)))) (chunks9 (drop ?k ?ds)))"
    by (simp add: integer_chunks_cpp_def split(1) Let_def)
  then show ?thesis using assms by (simp only:) (rule join_chunks_tokens [OF first rest])
qed

lemma finite_real_token_Inr [simp]:
  "finite_real_token q = Inr e \<longleftrightarrow> \<bar>q\<bar> < 2 ^ 1024 - 2 ^ 970 \<and> e = CReal q"
  by (auto simp: finite_real_token_def)

lemma integer_cpp_exact:
  assumes "integer_cpp v br = Inr e"
  shows "cvalue e = Some (of_int v) \<and> (\<forall>i \<in> set (int_tokens e). \<bar>i\<bar> \<le> cpp_signed_integer_max)"
proof -
  have "\<bar>i\<bar> \<le> cpp_signed_integer_max" if "i \<in> set (int_tokens (integer_chunks_cpp v))" for i
    using integer_chunks_cpp_tokens [OF that] by (simp add: cpp_signed_integer_max_def)
  then show ?thesis using assms integer_chunks_cpp_value [of v]
    by (auto simp: integer_cpp_def split: if_splits)
qed

lemma rational_cpp_exact:
  assumes "rational_cpp n d br = Inr e"
  shows "cvalue e = Some (Fract n d) \<and> (\<forall>i \<in> set (int_tokens e). \<bar>i\<bar> \<le> cpp_signed_integer_max)"
proof -
  have small: "\<bar>i\<bar> \<le> cpp_signed_integer_max" if "\<bar>i\<bar> \<le> binary64_exact_integer_max" for i
    using that by (simp add: cpp_signed_integer_max_def binary64_exact_integer_max_def)
  have chunk: "\<bar>i\<bar> \<le> cpp_signed_integer_max" if "i \<in> set (int_tokens (integer_chunks_cpp v))" for i v
    using integer_chunks_cpp_tokens [OF that] by (simp add: cpp_signed_integer_max_def)
  show ?thesis using assms small
    by (auto simp: rational_cpp_def integer_chunks_cpp_value Fract_of_int_quotient chunk split: if_splits)
qed

section \<open>Properties\<close>



text \<open>
  C++ lowering is exact up to one rounding: the expression a validated numeric literal is
  spelled as has exactly the literal's value before the target type rounds it, and every integer
  token in it fits a signed 64-bit integer, however large the authored integers are.
\<close>

theorem cpp_spelling_exact:
  assumes lit: "mk_literal b unit target cpp = Inr l"
    and num: "to_python l = Inr n" and out: "to_cpp l = Inr e"
  shows "cvalue e = Some (num_value n) \<and> (\<forall>i \<in> set (int_tokens e). \<bar>i\<bar> \<le> cpp_signed_integer_max)"
proof (cases "lit_body l")
  case (LDecimal x)
  with num obtain d where d: "x = Some d" by (auto simp: to_python_def split: option.splits)
  have "Fract (fst (quotient_of (decimal_value d))) (snd (quotient_of (decimal_value d))) = decimal_value d"
    by (rule Fract_quotient_of)
  then show ?thesis using num out LDecimal d
    by (auto simp: to_python_def to_cpp_def Let_def split: if_splits dest: rational_cpp_exact)
qed (use num out in \<open>auto simp: to_python_def to_cpp_def Let_def split: option.splits if_splits
    dest: integer_cpp_exact rational_cpp_exact\<close>)

theorem cpp_spelling_exact_witness:
  "\<exists>e. to_cpp \<lparr>lit_body = LInteger (10 ^ 20 + 7), lit_unit = None, lit_target = Some ''double'', lit_cpp = None\<rparr> = Inr e
     \<and> cvalue e = Some (10 ^ 20 + 7) \<and> (\<forall>i \<in> set (int_tokens e). \<bar>i\<bar> \<le> cpp_signed_integer_max)"
proof -
  let ?l = "\<lparr>lit_body = LInteger (10 ^ 20 + 7), lit_unit = None, lit_target = Some ''double'', lit_cpp = None\<rparr>"
  have lit: "mk_literal (LInteger (10 ^ 20 + 7)) None (Some ''double'') None = Inr ?l" by code_simp
  have num: "to_python ?l = Inr (PyInt (10 ^ 20 + 7))" by (simp add: to_python_def)
  have out: "to_cpp ?l = Inr (integer_chunks_cpp (10 ^ 20 + 7))"
    by (simp add: to_cpp_def integer_cpp_def cpp_signed_integer_max_def)
  show ?thesis using cpp_spelling_exact [OF lit num out] out by simp
qed

end
