(* ===== verification/Pops_Points.thy ===== *)
theory Pops_Points
  imports Pops_Literal "HOL-Library.List_Lexorder" "HOL-Library.Char_ord"
begin

text \<open>
  Temporal coordinates (\<open>python/pops/time/points.py\<close>): logical clocks, exact time points and stage
  points with named partitions. A canonical owner path is represented by its text; a partition
  mapping by its items, whose keys a Python dict keeps distinct.
\<close>

record clock =
  clk_name :: string
  clk_owner :: "string option"

definition mk_clock :: "string \<Rightarrow> string option \<Rightarrow> clock result" where
  "mk_clock name owner = raise_if (name = []) ValueError (Inr \<lparr>clk_name = name, clk_owner = owner\<rparr>)"

text \<open>\<open>_offset\<close>: a number with no unit, target or custom spelling.\<close>

definition point_offset :: "authored \<Rightarrow> literal result" where
  "point_offset value =
     bindR (scalar_literal value) (\<lambda>literal.
     raise_if (case lit_body literal of LAlgebraic _ \<Rightarrow> True | LCustom _ _ \<Rightarrow> True | _ \<Rightarrow> False) TypeError
    (raise_if (lit_unit literal \<noteq> None \<or> lit_target literal \<noteq> None \<or> lit_cpp literal \<noteq> None) TypeError
       (Inr literal)))"

record time_point =
  tp_clock :: clock
  tp_offset :: literal
  tp_step :: int

definition mk_time_point :: "clock \<Rightarrow> authored \<Rightarrow> int \<Rightarrow> time_point result" where
  "mk_time_point c offset step =
     bindR (point_offset offset) (\<lambda>o'. Inr \<lparr>tp_clock = c, tp_offset = o', tp_step = step\<rparr>)"

record stage_point =
  sp_name :: string
  sp_coordinates :: "(string \<times> time_point) list"

definition mk_stage_point :: "string \<Rightarrow> (string \<times> time_point) list \<Rightarrow> stage_point result" where
  "mk_stage_point name partitions =
     raise_if (name = []) ValueError
    (raise_if (partitions = []) TypeError
    (raise_if (\<exists>(p, _) \<in> set partitions. p = []) ValueError
       (Inr \<lparr>sp_name = name, sp_coordinates = sort_key fst partitions\<rparr>)))"

definition time_for :: "stage_point \<Rightarrow> string \<Rightarrow> time_point result" where
  "time_for sp pname =
     raise_if (pname = []) ValueError
       (case map_of (sp_coordinates sp) pname of None \<Rightarrow> Inl KeyError | Some t \<Rightarrow> Inr t)"

definition stage_time :: "stage_point \<Rightarrow> time_point result" where
  "stage_time sp =
     (case sp_coordinates sp of
        [] \<Rightarrow> Inl IndexError
      | (_, first) # rest \<Rightarrow> raise_if (\<exists>(_, t) \<in> set rest. t \<noteq> first) ValueError (Inr first))"

datatype point = AtTime time_point | AtStage stage_point

definition point_clocks :: "point \<Rightarrow> clock set" where
  "point_clocks p =
     (case p of AtTime t \<Rightarrow> {tp_clock t} | AtStage s \<Rightarrow> set (map (tp_clock \<circ> snd) (sp_coordinates s)))"

definition point_clock :: "point \<Rightarrow> clock result" where
  "point_clock p =
     (case p of
        AtTime t \<Rightarrow> Inr (tp_clock t)
      | AtStage s \<Rightarrow>
          (case dedup (map (tp_clock \<circ> snd) (sp_coordinates s)) of
             [c] \<Rightarrow> Inr c
           | _ \<Rightarrow> Inl ValueError))"

text \<open>A constructed stage point has coordinates, in the order of their partition names.\<close>

definition stage_ok :: "stage_point \<Rightarrow> bool" where
  "stage_ok s \<longleftrightarrow> sp_name s \<noteq> [] \<and> sp_coordinates s \<noteq> [] \<and> sorted (map fst (sp_coordinates s))
     \<and> (\<forall>(p, _) \<in> set (sp_coordinates s). p \<noteq> [])"

lemma mk_stage_point_ok: "mk_stage_point name ps = Inr s \<Longrightarrow> stage_ok s"
  by (auto simp: mk_stage_point_def stage_ok_def) (metis length_0_conv length_sort)

lemma map_of_sort_key:
  fixes ps :: "('k::linorder \<times> 'v) list"
  assumes "distinct (map fst ps)"
  shows "map_of (sort_key fst ps) = map_of ps"
proof -
  have "distinct (map fst (sort_key fst ps))"
    using assms by (metis distinct_map distinct_sort set_sort)
  then show ?thesis using assms by (intro map_of_inject_set [THEN iffD2]) auto
qed

lemma mk_stage_point_time_for:
  "mk_stage_point name ps = Inr s \<Longrightarrow> distinct (map fst ps) \<Longrightarrow> p \<noteq> [] \<Longrightarrow>
     time_for s p = (case map_of ps p of None \<Rightarrow> Inl KeyError | Some t \<Rightarrow> Inr t)"
  by (auto simp: mk_stage_point_def time_for_def map_of_sort_key split: option.splits)

lemma stage_time_iff:
  assumes "stage_ok s"
  shows "stage_time s = Inr t \<longleftrightarrow> (\<forall>(p, u) \<in> set (sp_coordinates s). u = t)"
  using assms by (auto simp: stage_time_def stage_ok_def split: list.splits)

lemma point_clock_iff: "point_clock p = Inr c \<longleftrightarrow> point_clocks p = {c}"
proof (cases p)
  case (AtStage s)
  let ?cs = "map (tp_clock \<circ> snd) (sp_coordinates s)"
  have "dedup ?cs = [c] \<longleftrightarrow> set ?cs = {c}"
  proof
    assume "dedup ?cs = [c]"
    then show "set ?cs = {c}" by (metis set_dedup list.set(1,2))
  next
    assume "set ?cs = {c}"
    then have "set (dedup ?cs) = {c}" "distinct (dedup ?cs)" by simp_all
    then show "dedup ?cs = [c]" by (cases "dedup ?cs"; cases "tl (dedup ?cs)") auto
  qed
  then show ?thesis by (auto simp: AtStage point_clock_def point_clocks_def split: list.splits)
qed (auto simp: point_clock_def point_clocks_def)

section \<open>Properties\<close>

text \<open>A stage point answers by partition exactly what it was built from, whatever the order
  of the mapping; its unqualified time exists exactly when every partition has the same coordinate,
  and is then that coordinate; and its clock exists exactly when all coordinates share one clock.\<close>

theorem stage_point_coordinates:
  assumes "mk_stage_point name ps = Inr s" and "distinct (map fst ps)"
  shows "(\<forall>p t. p \<noteq> [] \<longrightarrow> (time_for s p = Inr t \<longleftrightarrow> (p, t) \<in> set ps))
       \<and> (\<forall>t. stage_time s = Inr t \<longleftrightarrow> (\<forall>(p, u) \<in> set ps. u = t))
       \<and> (\<forall>c. point_clock (AtStage s) = Inr c \<longleftrightarrow> (\<forall>(p, u) \<in> set ps. tp_clock u = c))"
proof -
  have s: "set (sp_coordinates s) = set ps" and ne: "ps \<noteq> []"
    using assms(1) by (auto simp: mk_stage_point_def)
  have "time_for s p = Inr t \<longleftrightarrow> (p, t) \<in> set ps" if "p \<noteq> []" for p t
    using mk_stage_point_time_for [OF assms that] map_of_eq_Some_iff [OF assms(2), of p t]
    by (auto split: option.splits)
  moreover have "stage_time s = Inr t \<longleftrightarrow> (\<forall>(p, u) \<in> set ps. u = t)" for t
    using stage_time_iff [OF mk_stage_point_ok [OF assms(1)]] by (simp add: s)
  moreover have "point_clocks (AtStage s) = {c} \<longleftrightarrow> (\<forall>(p, u) \<in> set ps. tp_clock u = c)" for c
    using ne by (cases ps) (auto simp: point_clocks_def s)
  ultimately show ?thesis by (simp add: point_clock_iff)
qed

definition noon :: "int \<Rightarrow> time_point" where
  "noon k = \<lparr>tp_clock = \<lparr>clk_name = ''t'', clk_owner = None\<rparr>,
             tp_offset = \<lparr>lit_body = LInteger k, lit_unit = None, lit_target = None, lit_cpp = None\<rparr>, tp_step = 0\<rparr>"

definition two_partitions :: stage_point where
  "two_partitions = \<lparr>sp_name = ''s'', sp_coordinates = [(''explicit'', noon 0), (''implicit'', noon 1)]\<rparr>"

theorem stage_point_coordinates_witness:
  "time_for two_partitions ''implicit'' = Inr (noon 1) \<and> \<not> (\<exists>t. stage_time two_partitions = Inr t)
     \<and> point_clock (AtStage two_partitions) = Inr (tp_clock (noon 0))"
proof -
  have "mk_stage_point ''s'' [(''implicit'', noon 1), (''explicit'', noon 0)] = Inr two_partitions"
    by code_simp
  from stage_point_coordinates [OF this] show ?thesis by (auto simp: noon_def)
qed

end
