(* ===== verification/Pops_Graph.thy ===== *)
theory Pops_Graph
  imports Pops_Points
begin

text \<open>
  The canonical temporal SSA graph (\<open>python/pops/time/_graph/\<close>): canonical metadata, the node
  records, structured regions, and the validation every region and graph passes when it is built.

  A \<open>ValueRef\<close> is its node id, a natural number. Metadata is JSON; a text that spells a number is
  represented by the number it spells (\<open>JIntText\<close>, \<open>JDecText\<close>, \<open>JHexText\<close>). \<open>attrs\<close> metadata is
  a mapping. The digest of the graph is not represented: it is a function of the content.
\<close>

section \<open>Canonical metadata\<close>

datatype json =
    JNull
  | JBool bool
  | JInt int
  | JStr string
  | JIntText int
  | JDecText decimal
  | JHexText binary64
  | JPayload payload
  | JList "json list"
  | JObj "(string \<times> json) list"

type_synonym attrs = "(string \<times> json) list"

text \<open>\<open>x.get(key)\<close> on a value that need not be a mapping, and \<open>isinstance(x, str)\<close>.\<close>

definition obj_get :: "json \<Rightarrow> string \<Rightarrow> json option result" where
  "obj_get j k = (case j of JObj d \<Rightarrow> Inr (map_of d k) | _ \<Rightarrow> Inl AttributeError)"

definition is_str :: "json \<Rightarrow> bool" where
  "is_str j = (case j of JStr _ \<Rightarrow> True | JIntText _ \<Rightarrow> True | JDecText _ \<Rightarrow> True | JHexText _ \<Rightarrow> True | _ \<Rightarrow> False)"

definition nonempty_str :: "json \<Rightarrow> bool" where
  "nonempty_str j = (is_str j \<and> j \<noteq> JStr [])"

definition nonempty :: "string \<Rightarrow> string result" where
  "nonempty value = raise_if (value = []) ValueError (Inr value)"

fun leaf_json :: "leaf \<Rightarrow> json" where
  "leaf_json (DKind s) = JStr s"
| "leaf_json (DText s) = JStr s"
| "leaf_json (DInt i) = JIntText i"
| "leaf_json (DDecimal d) = JDecText d"
| "leaf_json (DHex f) = JHexText f"
| "leaf_json (DPayload p) = JPayload p"

definition literal_json :: "literal \<Rightarrow> json" where
  "literal_json l = JObj (map (\<lambda>(k, v). (k, leaf_json v)) (to_data l))"

definition clock_data :: "clock \<Rightarrow> json" where
  "clock_data c = JObj [(''schema_version'', JInt 1), (''name'', JStr (clk_name c)),
     (''owner'', case clk_owner c of None \<Rightarrow> JNull | Some w \<Rightarrow> JStr w)]"

definition time_point_data :: "time_point \<Rightarrow> json" where
  "time_point_data t = JObj [(''schema_version'', JInt 1), (''clock'', clock_data (tp_clock t)),
     (''step'', JInt (tp_step t)), (''offset'', literal_json (tp_offset t))]"

definition stage_point_data :: "stage_point \<Rightarrow> json" where
  "stage_point_data s = JObj [(''schema_version'', JInt 1), (''name'', JStr (sp_name s)),
     (''partitions'', JObj (map (\<lambda>(n, t). (n, time_point_data t)) (sp_coordinates s)))]"

text \<open>
  The Python values metadata may hold. \<open>MImmutable\<close> is an object whose \<open>canonical_identity\<close>, or
  \<open>to_data\<close> of an immutable IR class, returns the given value; \<open>MMap\<close> carries \<open>None\<close> for a key that
  is not a string.
\<close>

datatype meta =
    MCanonical json
  | MNone
  | MBool bool
  | MStr json
  | MScalar authored
  | MEnum string
  | MOwner json
  | MClock clock
  | MTime time_point
  | MStage stage_point
  | MMap "(string option \<times> meta) list"
  | MSeq "meta list"
  | MImmutable meta
  | MOpaque

fun strict_data :: "meta \<Rightarrow> json result" where
  "strict_data (MCanonical j) = Inr j"
| "strict_data MNone = Inr JNull"
| "strict_data (MBool b) = Inr (JBool b)"
| "strict_data (MStr s) = Inr s"
| "strict_data (MScalar v) = bindR (scalar_literal v) (\<lambda>l. Inr (JObj [(''scalar'', literal_json l)]))"
| "strict_data (MEnum name) = Inr (JObj [(''enum'', JStr name)])"
| "strict_data (MOwner path) = Inr (JObj [(''owner_path'', path)])"
| "strict_data (MClock c) = Inr (clock_data c)"
| "strict_data (MTime t) = Inr (time_point_data t)"
| "strict_data (MStage s) = Inr (stage_point_data s)"
| "strict_data (MMap items) =
     raise_if (\<exists>(k, _) \<in> set items. k = None \<or> k = Some []) TypeError
       (bindR (traverse (\<lambda>(k, v). bindR (strict_data v) (\<lambda>j. Inr (the k, j))) items) (\<lambda>d. Inr (JObj d)))"
| "strict_data (MSeq items) = bindR (traverse strict_data items) (\<lambda>js. Inr (JList js))"
| "strict_data (MImmutable v) = strict_data v"
| "strict_data MOpaque = Inl TypeError"

text \<open>Loaded JSON as a Python value again (numbers are plain ints, texts plain texts).\<close>

fun meta_of :: "json \<Rightarrow> meta" where
  "meta_of JNull = MNone"
| "meta_of (JBool b) = MBool b"
| "meta_of (JInt i) = MScalar (AInt i)"
| "meta_of (JList js) = MSeq (map meta_of js)"
| "meta_of (JObj d) = MMap (map (\<lambda>(k, v). (Some k, meta_of v)) d)"
| "meta_of (JPayload p) = MCanonical (JPayload p)"
| "meta_of j = MStr j"

text \<open>\<open>CanonicalData\<close>: the strict data with the keys of every object sorted.\<close>

fun sort_keys :: "json \<Rightarrow> json" where
  "sort_keys (JList js) = JList (map sort_keys js)"
| "sort_keys (JObj d) = JObj (sort_key fst (map (\<lambda>(k, v). (k, sort_keys v)) d))"
| "sort_keys j = j"

definition canonical_data :: "meta \<Rightarrow> json result" where
  "canonical_data v = bindR (strict_data v) (\<lambda>j. Inr (sort_keys j))"

text \<open>
  Canonical data is stable: it depends on the mapping and not on the order of its items, and
  canonicalising what was loaded returns it (for data without raw numbers, which become scalars).
\<close>

lemma sort_key_fst_map:
  fixes d :: "(string \<times> json) list"
  shows "map (\<lambda>(k, v). (k, f v)) (sort_key fst d) = sort_key fst (map (\<lambda>(k, v). (k, f v)) d)"
proof -
  have ins: "map (\<lambda>(k, v). (k, f v)) (insort_key fst (k, v) xs) = insort_key fst (k, f v) (map (\<lambda>(k, v). (k, f v)) xs)"
    for k v and xs :: "(string \<times> json) list"
    by (induction xs) auto
  show ?thesis
  proof (induction d)
    case (Cons p d)
    then show ?case by (cases p) (simp add: ins)
  qed simp
qed

lemma sort_keys_idem: "sort_keys (sort_keys j) = sort_keys j"
proof (induction j)
  case (JObj d)
  then have "map (\<lambda>(k, v). (k, sort_keys v)) (map (\<lambda>(k, v). (k, sort_keys v)) d) = map (\<lambda>(k, v). (k, sort_keys v)) d"
    by (fastforce simp: snds.simps)
  then show ?case by (simp add: sort_key_fst_map sort_key_id_if_sorted del: map_map)
qed simp_all

section \<open>Nodes and regions\<close>

record capture =
  cp_value :: nat
  cp_clock :: clock
  cp_point :: point
  cp_signature :: "json option"

text \<open>
  \<open>gn_clock\<close> of a \<open>Synchronize\<close> node is its target clock, as the \<open>clock\<close> property says. A
  \<open>Commit\<close> has no name.
\<close>

datatype gnode = GNode (gn_id: nat) (gn_clock: clock) (gn_point: point) (gn_name: string) (gn_body: gbody)
and gbody =
    StateRead json json
  | ProgramValue string string "nat list" attrs
  | Unknown json
  | OperatorCall json "nat list"
  | ResidualEvaluation json "nat list" attrs
  | ResidualSolve nat "nat list" attrs
  | Solve nat nat nat attrs
  | Synchronize nat clock json
  | Commit json nat
  | Branch nat gregion gregion json
  | Loop string nat gregion "gregion option" "int option" "clock option"
and gregion = GRegion (rg_name: string) (rg_captures: "capture list") (rg_nodes: "gnode list")
    (rg_result: nat) (rg_clocks: "clock list") (rg_signature: "json option")

definition readable :: "gnode \<Rightarrow> bool" where
  "readable n = (case gn_body n of Commit _ _ \<Rightarrow> False | _ \<Rightarrow> True)"

definition capture_refs :: "gregion list \<Rightarrow> nat list" where
  "capture_refs regions = dedup (concat (map (\<lambda>r. map cp_value (rg_captures r)) regions))"

definition references :: "gnode \<Rightarrow> nat list" where
  "references n =
     (case gn_body n of
        StateRead _ _ \<Rightarrow> []
      | ProgramValue _ _ inputs _ \<Rightarrow> inputs
      | Unknown _ \<Rightarrow> []
      | OperatorCall _ inputs \<Rightarrow> inputs
      | ResidualEvaluation _ unknowns _ \<Rightarrow> unknowns
      | ResidualSolve residual initial _ \<Rightarrow> residual # initial
      | Solve unknown operator rhs _ \<Rightarrow> [unknown, operator, rhs]
      | Synchronize value _ _ \<Rightarrow> [value]
      | Commit _ value \<Rightarrow> [value]
      | Branch c t f _ \<Rightarrow> c # filter (\<lambda>r. r \<noteq> c) (capture_refs [t, f])
      | Loop _ initial body cond _ _ \<Rightarrow>
          initial # filter (\<lambda>r. r \<noteq> initial)
            (capture_refs ((case cond of None \<Rightarrow> [] | Some r \<Rightarrow> [r]) @ [body])))"

definition nested_regions :: "gnode \<Rightarrow> gregion list" where
  "nested_regions n =
     (case gn_body n of
        Branch _ t f _ \<Rightarrow> [t, f]
      | Loop _ _ body cond _ _ \<Rightarrow> (case cond of None \<Rightarrow> [] | Some r \<Rightarrow> [r]) @ [body]
      | _ \<Rightarrow> [])"

section \<open>Node constructors\<close>

definition mk_state_read :: "nat \<Rightarrow> meta \<Rightarrow> clock \<Rightarrow> point \<Rightarrow> string \<Rightarrow> meta \<Rightarrow> gnode result" where
  "mk_state_read i state c p name metadata =
     bindR (canonical_data state) (\<lambda>s.
     bindR (nonempty name) (\<lambda>name.
     bindR (canonical_data metadata) (\<lambda>m.
     Inr (GNode i c p name (StateRead s m)))))"

text \<open>\<open>attrs\<close>: \<open>None\<close> is the empty mapping.\<close>

definition canonical_attrs :: "(string option \<times> meta) list \<Rightarrow> attrs result" where
  "canonical_attrs items =
     bindR (canonical_data (MMap items)) (\<lambda>j. case j of JObj d \<Rightarrow> Inr d | _ \<Rightarrow> Inl TypeError)"

definition mk_program_value ::
  "nat \<Rightarrow> string \<Rightarrow> string \<Rightarrow> string \<Rightarrow> nat list \<Rightarrow> clock \<Rightarrow> point \<Rightarrow> (string option \<times> meta) list \<Rightarrow> gnode result" where
  "mk_program_value i name vtype op inputs c p attrs =
     bindR (nonempty name) (\<lambda>name.
     bindR (nonempty vtype) (\<lambda>vtype.
     bindR (nonempty op) (\<lambda>op.
     bindR (canonical_attrs attrs) (\<lambda>a.
     Inr (GNode i c p name (ProgramValue vtype op inputs a))))))"

definition mk_unknown :: "nat \<Rightarrow> string \<Rightarrow> meta \<Rightarrow> clock \<Rightarrow> point \<Rightarrow> gnode result" where
  "mk_unknown i name space c p =
     bindR (nonempty name) (\<lambda>name.
     bindR (canonical_data space) (\<lambda>s. Inr (GNode i c p name (Unknown s))))"

definition mk_operator_call :: "nat \<Rightarrow> meta \<Rightarrow> nat list \<Rightarrow> clock \<Rightarrow> point \<Rightarrow> string \<Rightarrow> gnode result" where
  "mk_operator_call i operator inputs c p name =
     bindR (canonical_data operator) (\<lambda>o'.
     bindR (nonempty name) (\<lambda>name. Inr (GNode i c p name (OperatorCall o' inputs))))"

definition mk_residual_evaluation ::
  "nat \<Rightarrow> meta \<Rightarrow> nat list \<Rightarrow> clock \<Rightarrow> point \<Rightarrow> string \<Rightarrow> (string option \<times> meta) list \<Rightarrow> gnode result" where
  "mk_residual_evaluation i operator unknowns c p name attrs =
     raise_if (unknowns = []) ValueError
    (bindR (canonical_data operator) (\<lambda>o'.
     bindR (nonempty name) (\<lambda>name.
     bindR (canonical_attrs attrs) (\<lambda>a.
     Inr (GNode i c p name (ResidualEvaluation o' unknowns a))))))"

definition mk_residual_solve ::
  "nat \<Rightarrow> nat \<Rightarrow> nat list \<Rightarrow> clock \<Rightarrow> point \<Rightarrow> string \<Rightarrow> (string option \<times> meta) list \<Rightarrow> gnode result" where
  "mk_residual_solve i residual initial c p name attrs =
     raise_if (initial = []) ValueError
    (bindR (nonempty name) (\<lambda>name.
     bindR (canonical_attrs attrs) (\<lambda>a.
     Inr (GNode i c p name (ResidualSolve residual initial a)))))"

definition mk_solve ::
  "nat \<Rightarrow> nat \<Rightarrow> nat \<Rightarrow> nat \<Rightarrow> clock \<Rightarrow> point \<Rightarrow> string \<Rightarrow> (string option \<times> meta) list \<Rightarrow> gnode result" where
  "mk_solve i unknown operator rhs c p name attrs =
     bindR (nonempty name) (\<lambda>name.
     bindR (canonical_attrs attrs) (\<lambda>a.
     Inr (GNode i c p name (Solve unknown operator rhs a))))"

definition mk_synchronize :: "nat \<Rightarrow> nat \<Rightarrow> clock \<Rightarrow> clock \<Rightarrow> meta \<Rightarrow> point \<Rightarrow> string \<Rightarrow> gnode result" where
  "mk_synchronize i value source target relation p name =
     raise_if (source = target) ValueError
    (bindR (canonical_data relation) (\<lambda>r.
     bindR (nonempty name) (\<lambda>name.
     Inr (GNode i target p name (Synchronize value source r)))))"

definition mk_commit :: "nat \<Rightarrow> meta \<Rightarrow> nat \<Rightarrow> clock \<Rightarrow> point \<Rightarrow> gnode result" where
  "mk_commit i target value c p = bindR (canonical_data target) (\<lambda>t. Inr (GNode i c p [] (Commit t value)))"

section \<open>Synchronization relations\<close>

definition int_of_text :: "json \<Rightarrow> int result" where
  "int_of_text raw = (case raw of JIntText i \<Rightarrow> Inr i | _ \<Rightarrow> Inl ValueError)"

definition canonical_int :: "json \<Rightarrow> int option" where
  "canonical_int j =
     (case j of
        JInt i \<Rightarrow> Some i
      | JObj [(key, JObj scalar)] \<Rightarrow>
          if key = ''scalar'' \<and> map_of scalar ''kind'' = Some (JStr ''integer'')
          then (case map_of scalar ''value'' of
                  Some raw \<Rightarrow> (case int_of_text raw of Inl _ \<Rightarrow> None | Inr i \<Rightarrow> Some i)
                | None \<Rightarrow> None)
          else None
      | _ \<Rightarrow> None)"

definition has_keys :: "json \<Rightarrow> string list \<Rightarrow> bool" where
  "has_keys j ks = (case j of JObj d \<Rightarrow> set (map fst d) = set ks | _ \<Rightarrow> False)"

definition jat :: "json \<Rightarrow> string \<Rightarrow> json" where
  "jat j k = (case j of JObj d \<Rightarrow> (case map_of d k of Some v \<Rightarrow> v | None \<Rightarrow> JNull) | _ \<Rightarrow> JNull)"

definition is_obj :: "json \<Rightarrow> bool" where
  "is_obj j = (case j of JObj _ \<Rightarrow> True | _ \<Rightarrow> False)"

text \<open>Python compares mappings without regard to the order of their items.\<close>

definition json_eq :: "json \<Rightarrow> json \<Rightarrow> bool" where
  "json_eq a b = (sort_keys a = sort_keys b)"

definition validate_history_contract :: "json option \<Rightarrow> json result" where
  "validate_history_contract contract =
     (case contract of
        None \<Rightarrow> Inl ValueError
      | Some c \<Rightarrow>
          raise_if (\<not> has_keys c [''schema_version'', ''owner'', ''state'', ''space'', ''clock'', ''validity'',
                                  ''interpolation'', ''depth'']) ValueError
         (raise_if (canonical_int (jat c ''schema_version'') \<noteq> Some 1) ValueError
         (raise_if (case canonical_int (jat c ''depth'') of None \<Rightarrow> True | Some d \<Rightarrow> d < 1) ValueError
         (let clock = jat c ''clock'' in
          raise_if (\<not> has_keys clock [''schema_version'', ''name'', ''owner'']
                    \<or> canonical_int (jat clock ''schema_version'') \<noteq> Some 1
                    \<or> \<not> nonempty_str (jat clock ''name'')) ValueError
         (raise_if (\<not> json_eq (jat c ''owner'') (jat clock ''owner'')) ValueError
         (let state = jat c ''state''; space = jat c ''space'' in
          raise_if (\<not> is_obj state \<or> jat state ''kind'' \<noteq> JStr ''state'' \<or> \<not> is_obj (jat state ''block_ref'')) ValueError
         (raise_if (\<not> is_obj space \<or> jat space ''kind'' \<noteq> JStr ''state'') ValueError
         (let validity = jat c ''validity'' in
          raise_if (\<not> has_keys validity [''schema_version'', ''oldest'', ''newest'']
                    \<or> canonical_int (jat validity ''schema_version'') \<noteq> Some 1) ValueError
         (raise_if (\<exists>endpoint \<in> set [''oldest'', ''newest''].
                      let point = jat validity endpoint in
                      \<not> has_keys point [''schema_version'', ''clock'', ''step'', ''offset'']
                      \<or> canonical_int (jat point ''schema_version'') \<noteq> Some 1
                      \<or> \<not> json_eq (jat point ''clock'') clock) ValueError
         (let capability = jat c ''interpolation'' in
          raise_if (\<not> is_obj capability \<or> jat capability ''kind'' = JNull \<or> jat capability ''kind'' = JStr ''none'') ValueError
           (Inr c)))))))))))"

text \<open>
  \<open>validate_synchronization_relation_data\<close> as the graph calls it: with the contract of the source
  history, when there is one, and the data of the source clock.
\<close>

definition validate_relation :: "json \<Rightarrow> json option \<Rightarrow> json \<Rightarrow> json result" where
  "validate_relation data source_contract source_clock =
     raise_if (\<not> is_obj data \<or> \<not> nonempty_str (jat data ''kind'')) TypeError
    (let provider = jat data ''provider'' in
     raise_if (\<not> is_obj provider \<or> \<not> nonempty_str (jat provider ''kind'')) ValueError
    (if jat data ''kind'' = JStr ''history_interpolation'' then
       raise_if (jat provider ''kind'' \<noteq> JStr ''typed_history'') ValueError
      (bindR (validate_history_contract (map_of (case provider of JObj d \<Rightarrow> d | _ \<Rightarrow> []) ''contract'')) (\<lambda>contract.
       bindR (strict_data (meta_of contract)) (\<lambda>normalized.
       bindR (strict_data (meta_of (jat data ''interpolation''))) (\<lambda>interpolation.
       raise_if (\<not> json_eq interpolation (jat normalized ''interpolation'')) ValueError
      (bindR (strict_data (meta_of source_clock)) (\<lambda>clk.
       raise_if (\<not> json_eq (jat normalized ''clock'') clk) ValueError
      (case source_contract of
         None \<Rightarrow> Inr data
       | Some s \<Rightarrow> bindR (strict_data (meta_of s)) (\<lambda>s'. raise_if (\<not> json_eq normalized s') ValueError (Inr data)))))))))
     else Inr data))"

section \<open>Validation\<close>

text \<open>What an id names inside a region or graph: a local node or an explicit capture.\<close>

datatype source = SNode gnode | SCapture capture

definition src_clock :: "source \<Rightarrow> clock" where
  "src_clock s = (case s of SNode n \<Rightarrow> gn_clock n | SCapture c \<Rightarrow> cp_clock c)"

definition src_point :: "source \<Rightarrow> point" where
  "src_point s = (case s of SNode n \<Rightarrow> gn_point n | SCapture c \<Rightarrow> cp_point c)"

definition src_readable :: "source \<Rightarrow> bool" where
  "src_readable s = (case s of SNode n \<Rightarrow> readable n | SCapture _ \<Rightarrow> True)"

definition program_op :: "gnode \<Rightarrow> string option" where
  "program_op n = (case gn_body n of ProgramValue _ op _ _ \<Rightarrow> Some op | _ \<Rightarrow> None)"

definition solve_ops :: "string list" where
  "solve_ops = [''solve_fields'', ''solve_fields_from_blocks'', ''solve_local_linear'',
     ''solve_local_nonlinear'', ''solve_coupled_implicit'']"

definition is_solve_node :: "gnode \<Rightarrow> bool" where
  "is_solve_node n =
     (case gn_body n of
        Solve _ _ _ _ \<Rightarrow> True
      | ResidualSolve _ _ _ \<Rightarrow> True
      | ProgramValue _ op _ _ \<Rightarrow> op \<in> set solve_ops
      | _ \<Rightarrow> False)"

definition is_solve_token :: "source \<Rightarrow> bool" where
  "is_solve_token s = (case s of SNode n \<Rightarrow> is_solve_node n | SCapture _ \<Rightarrow> False)"

definition payload_attrs :: "attrs \<Rightarrow> attrs" where
  "payload_attrs a = (case map_of a ''attrs'' of Some (JObj d) \<Rightarrow> d | _ \<Rightarrow> a)"

definition int_attr :: "json option \<Rightarrow> int option result" where
  "int_attr v =
     (case v of
        Some (JInt i) \<Rightarrow> Inr (Some i)
      | Some (JObj d) \<Rightarrow>
          (case map_of d ''scalar'' of
             Some (JObj scalar) \<Rightarrow>
               (if map_of scalar ''kind'' = Some (JStr ''integer'')
                then (case map_of scalar ''value'' of
                        Some raw \<Rightarrow> if is_str raw then bindR (int_of_text raw) (\<lambda>i. Inr (Some i)) else Inr None
                      | None \<Rightarrow> Inr None)
                else Inr None)
           | _ \<Rightarrow> Inr None)
      | _ \<Rightarrow> Inr None)"

text \<open>\<open>_int_attr(x) or n\<close>: zero counts as absent.\<close>

definition int_or :: "int option \<Rightarrow> int \<Rightarrow> int" where
  "int_or v n = (case v of None \<Rightarrow> n | Some i \<Rightarrow> if i = 0 then n else i)"

definition solve_arity :: "source \<Rightarrow> int result" where
  "solve_arity s =
     (case s of
        SCapture _ \<Rightarrow> Inl AttributeError
      | SNode n \<Rightarrow>
          (case gn_body n of
             Solve _ _ _ _ \<Rightarrow> Inr 1
           | ResidualSolve _ initial a \<Rightarrow>
               bindR (int_attr (map_of (payload_attrs a) ''unknown_count'')) (\<lambda>c. Inr (int_or c (int (length initial))))
           | ProgramValue _ op _ a \<Rightarrow>
               if op \<in> set [''solve_fields'', ''solve_fields_from_blocks'', ''solve_local_linear'', ''solve_local_nonlinear'']
               then Inr 1
               else if op = ''solve_coupled_implicit'' then
                 bindR (int_attr (map_of (payload_attrs a) ''output_count'')) (\<lambda>c. Inr (int_or c 0))
               else Inl TypeError
           | _ \<Rightarrow> Inl TypeError))"

definition residual_operator_unknowns :: "json \<Rightarrow> json list result" where
  "residual_operator_unknowns data =
     bindR (obj_get data ''kind'') (\<lambda>kind.
     raise_if (kind \<noteq> Some (JStr ''residual_operator'')) ValueError
    (case jat data ''unknown_space'' of
       JObj space \<Rightarrow> (case map_of space ''components'' of
                        Some (JList components) \<Rightarrow> raise_if (components = []) ValueError (Inr components)
                      | _ \<Rightarrow> Inl ValueError)
     | _ \<Rightarrow> Inl ValueError))"

definition solve_statuses :: "string list" where
  "solve_statuses = [''singular'', ''breakdown'', ''iteration_limit'', ''invalid_evaluation'', ''capability_failure'',
     ''invalid_input'', ''incompatible_rhs'', ''inadmissible_candidate'', ''safeguard_failure'']"

definition check_outcome_action :: "attrs \<Rightarrow> bool result" where
  "check_outcome_action a =
     (case map_of (payload_attrs a) ''action'' of
        Some (JObj action) \<Rightarrow>
          raise_if (\<not> (\<exists>k \<in> set [''fail_run'', ''reject_attempt'']. map_of action ''kind'' = Some (JStr k))) ValueError
          (case map_of action ''statuses'' of
             Some (JList statuses) \<Rightarrow>
               raise_if (statuses = []) ValueError
              (let unknown = filter (\<lambda>s. \<not> (\<exists>t \<in> set solve_statuses. s = JStr t)) statuses
               in raise_if (\<exists>s \<in> set unknown. \<not> is_str s) TypeError (raise_if (unknown \<noteq> []) ValueError (Inr True)))
           | _ \<Rightarrow> Inl ValueError)
      | _ \<Rightarrow> Inl ValueError)"

type_synonym scope = "(nat \<times> source) list"

record vstate =
  vs_available :: scope
  vs_solves :: "nat list"
  vs_consumed :: "nat list"

text \<open>The reads of one node; a structured node may read another clock through a capture only.\<close>

definition direct_ids :: "gnode \<Rightarrow> nat list" where
  "direct_ids n = (case gn_body n of Branch c _ _ _ \<Rightarrow> [c] | Loop _ i _ _ _ _ \<Rightarrow> [i] | _ \<Rightarrow> [])"

definition structured :: "gnode \<Rightarrow> bool" where
  "structured n = (case gn_body n of Branch _ _ _ _ \<Rightarrow> True | Loop _ _ _ _ _ _ \<Rightarrow> True | _ \<Rightarrow> False)"

definition check_reference :: "scope \<Rightarrow> gnode \<Rightarrow> nat \<Rightarrow> bool result" where
  "check_reference available n r =
     (case map_of available r of
        None \<Rightarrow> Inl ValueError
      | Some source \<Rightarrow>
          raise_if (\<not> src_readable source) ValueError
         (raise_if (is_solve_token source \<and> program_op n \<noteq> Some ''solve_outcome'') ValueError
         (case gn_body n of
            Synchronize _ source_clock _ \<Rightarrow> raise_if (src_clock source \<noteq> source_clock) ValueError (Inr True)
          | _ \<Rightarrow>
              if r \<in> set (direct_ids n) \<or> \<not> structured n
              then raise_if (src_clock source \<noteq> gn_clock n) ValueError (Inr True)
              else Inr True)))"

definition available_at :: "scope \<Rightarrow> nat \<Rightarrow> source result" where
  "available_at available i = (case map_of available i of None \<Rightarrow> Inl KeyError | Some s \<Rightarrow> Inr s)"

definition value_type_of :: "json option \<Rightarrow> json option result" where
  "value_type_of signature = (case signature of None \<Rightarrow> Inr None | Some j \<Rightarrow> obj_get j ''value_type'')"

definition is_bool_source :: "source \<Rightarrow> bool result" where
  "is_bool_source s =
     bindR (value_type_of (case s of SCapture c \<Rightarrow> cp_signature c | SNode _ \<Rightarrow> None)) (\<lambda>by_signature.
       if (case s of SNode n \<Rightarrow> (case gn_body n of ProgramValue vt _ _ _ \<Rightarrow> vt = ''bool'' | _ \<Rightarrow> False) | SCapture _ \<Rightarrow> False)
          \<or> by_signature = Some (JStr ''bool'') then Inr True
       else bindR (value_type_of (case s of SNode n \<Rightarrow> (case gn_body n of Branch _ _ _ sig \<Rightarrow> Some sig | _ \<Rightarrow> None) | SCapture _ \<Rightarrow> None))
              (\<lambda>by_result. Inr (by_result = Some (JStr ''bool''))))"

definition check_kind :: "scope \<Rightarrow> gnode \<Rightarrow> bool result" where
  "check_kind available n =
     (case gn_body n of
        Branch condition _ _ _ \<Rightarrow>
          bindR (available_at available condition) (\<lambda>s.
          bindR (is_bool_source s) (\<lambda>is_bool. raise_if (\<not> is_bool) ValueError (Inr True)))
      | ResidualSolve residual initial a \<Rightarrow>
          bindR (available_at available residual) (\<lambda>s.
          case s of
            SNode m \<Rightarrow>
              (case gn_body m of
                 ResidualEvaluation _ unknowns _ \<Rightarrow>
                   raise_if (length initial \<noteq> length unknowns) ValueError
                  (let attrs = payload_attrs a in
                   bindR (int_attr (map_of attrs ''unknown_count'')) (\<lambda>count.
                   raise_if (map_of attrs ''unknown_count'' \<noteq> None \<and> count \<noteq> Some (int (length initial))) ValueError
                     (Inr True)))
               | _ \<Rightarrow> Inl ValueError)
          | SCapture _ \<Rightarrow> Inl ValueError)
      | ResidualEvaluation operator unknowns _ \<Rightarrow>
          bindR (residual_operator_unknowns operator) (\<lambda>components.
          raise_if (length components \<noteq> length unknowns) ValueError (Inr True))
      | _ \<Rightarrow> Inr True)"

definition check_component :: "scope \<Rightarrow> nat list \<Rightarrow> attrs \<Rightarrow> bool result" where
  "check_component available inputs a =
     (case inputs of
        [i] \<Rightarrow>
          bindR (available_at available i) (\<lambda>s.
          case s of
            SNode m \<Rightarrow>
              (case gn_body m of
                 ProgramValue _ op (solve # _) _ \<Rightarrow>
                   raise_if (op \<noteq> ''solve_outcome'') ValueError
                  (bindR (int_attr (map_of (payload_attrs a) ''index'')) (\<lambda>index.
                   bindR (available_at available solve) (\<lambda>solve_source.
                   case index of
                     None \<Rightarrow> Inl ValueError
                   | Some k \<Rightarrow> raise_if (k < 0) ValueError
                       (bindR (solve_arity solve_source) (\<lambda>arity. raise_if (k \<ge> arity) ValueError (Inr True))))))
               | ProgramValue _ op [] _ \<Rightarrow> if op = ''solve_outcome'' then Inl IndexError else Inl ValueError
               | _ \<Rightarrow> Inl ValueError)
          | SCapture _ \<Rightarrow> Inl ValueError)
      | _ \<Rightarrow> Inl ValueError)"

text \<open>The token an outcome consumes, when the node is an outcome.\<close>

definition check_outcome :: "scope \<Rightarrow> gnode \<Rightarrow> nat list result" where
  "check_outcome available n =
     (case gn_body n of
        ProgramValue _ op inputs a \<Rightarrow>
          if op = ''solve_outcome'' then
            (case inputs of
               [i] \<Rightarrow> bindR (available_at available i) (\<lambda>s.
                       raise_if (\<not> is_solve_token s) ValueError
                      (bindR (check_outcome_action a) (\<lambda>_. Inr [i])))
             | _ \<Rightarrow> Inl ValueError)
          else if op = ''solve_outcome_component'' then bindR (check_component available inputs a) (\<lambda>_. Inr [])
          else Inr []
      | _ \<Rightarrow> Inr [])"

definition check_synchronize :: "scope \<Rightarrow> gnode \<Rightarrow> bool result" where
  "check_synchronize available n =
     (case gn_body n of
        Synchronize value source_clock relation \<Rightarrow>
          bindR (available_at available value) (\<lambda>s.
          let contract = (case s of
                SNode m \<Rightarrow> (case gn_body m of
                   ProgramValue _ op _ a \<Rightarrow> if op = ''history'' then map_of (payload_attrs a) ''history_contract'' else None
                 | _ \<Rightarrow> None)
              | SCapture _ \<Rightarrow> None)
          in bindR (if contract = None then obj_get relation ''kind'' else Inr None) (\<lambda>kind.
             raise_if (kind = Some (JStr ''history_interpolation'')) ValueError
            (bindR (strict_data (meta_of (clock_data source_clock))) (\<lambda>clk.
             bindR (validate_relation relation contract clk) (\<lambda>_. Inr True)))))
      | _ \<Rightarrow> Inr True)"

definition check_boundary :: "scope \<Rightarrow> clock list \<Rightarrow> gregion \<Rightarrow> bool result" where
  "check_boundary available declared region =
     raise_if (\<not> set (rg_clocks region) \<subseteq> set declared) ValueError
    (bindR (traverse (\<lambda>c.
        case map_of available (cp_value c) of
          None \<Rightarrow> Inl ValueError
        | Some s \<Rightarrow> raise_if (\<not> src_readable s) ValueError
           (raise_if (src_clock s \<noteq> cp_clock c \<or> src_point s \<noteq> cp_point c) ValueError (Inr True)))
      (rg_captures region)) (\<lambda>_. Inr True))"

definition validate_node :: "clock list \<Rightarrow> gnode \<Rightarrow> vstate \<Rightarrow> vstate result" where
  "validate_node declared n s =
     raise_if (gn_id n \<in> fst ` set (vs_available s)) ValueError
    (let solves = (if is_solve_node n then gn_id n # vs_solves s else vs_solves s) in
     raise_if (gn_clock n \<notin> set declared) ValueError
    (raise_if (point_clocks (gn_point n) \<noteq> {gn_clock n}) ValueError
    (bindR (traverse (check_reference (vs_available s) n) (references n)) (\<lambda>_.
     bindR (check_kind (vs_available s) n) (\<lambda>_.
     bindR (check_outcome (vs_available s) n) (\<lambda>consumed.
     bindR (check_synchronize (vs_available s) n) (\<lambda>_.
     bindR (traverse (check_boundary (vs_available s) declared) (nested_regions n)) (\<lambda>_.
     Inr \<lparr>vs_available = (gn_id n, SNode n) # vs_available s, vs_solves = solves,
          vs_consumed = consumed @ vs_consumed s\<rparr>))))))))"

definition validate_nodes :: "gnode list \<Rightarrow> clock list \<Rightarrow> scope \<Rightarrow> scope result" where
  "validate_nodes nodes clocks available =
     bindR (foldR (validate_node clocks) nodes \<lparr>vs_available = available, vs_solves = [], vs_consumed = []\<rparr>) (\<lambda>s.
     raise_if (\<exists>i \<in> set (vs_solves s). count_list (vs_consumed s) i \<noteq> 1) ValueError
       (Inr (vs_available s)))"

section \<open>Regions and graphs\<close>

definition mk_region ::
  "string \<Rightarrow> capture list \<Rightarrow> gnode list \<Rightarrow> nat \<Rightarrow> clock list option \<Rightarrow> meta option \<Rightarrow> gregion result" where
  "mk_region name captures nodes result clocks signature =
     bindR (nonempty name) (\<lambda>name.
     let declared = (case clocks of Some cs \<Rightarrow> cs | None \<Rightarrow> dedup (map cp_clock captures @ map gn_clock nodes)) in
     raise_if (\<not> distinct declared) ValueError
    (bindR (case signature of None \<Rightarrow> Inr None | Some m \<Rightarrow> bindR (canonical_data m) (\<lambda>j. Inr (Some j))) (\<lambda>sig.
     raise_if (\<not> distinct (map cp_value captures)) ValueError
    (bindR (validate_nodes nodes declared (rev (map (\<lambda>c. (cp_value c, SCapture c)) captures))) (\<lambda>available.
     case map_of available result of
       None \<Rightarrow> Inl ValueError
     | Some source \<Rightarrow>
         raise_if (\<not> src_readable source) ValueError
        (raise_if (case source of
            SCapture c \<Rightarrow> sig \<noteq> None \<and> cp_signature c \<noteq> None \<and> cp_signature c \<noteq> sig
          | SNode _ \<Rightarrow> False) ValueError
          (Inr (GRegion name captures nodes result declared sig))))))))"

definition result_source :: "gregion \<Rightarrow> source result" where
  "result_source r =
     (case find (\<lambda>c. cp_value c = rg_result r) (rg_captures r) of
        Some c \<Rightarrow> Inr (SCapture c)
      | None \<Rightarrow> (case find (\<lambda>n. gn_id n = rg_result r) (rg_nodes r) of
                   Some n \<Rightarrow> Inr (SNode n)
                 | None \<Rightarrow> Inl RuntimeError))"

definition mk_branch ::
  "nat \<Rightarrow> nat \<Rightarrow> gregion \<Rightarrow> gregion \<Rightarrow> clock \<Rightarrow> point \<Rightarrow> string \<Rightarrow> meta \<Rightarrow> gnode result" where
  "mk_branch i condition when_true when_false c p name signature =
     bindR (canonical_data signature) (\<lambda>sig.
     raise_if (rg_signature when_true \<noteq> Some sig \<or> rg_signature when_false \<noteq> Some sig) ValueError
    (bindR (traverse (\<lambda>arm. bindR (result_source arm) (\<lambda>s.
        raise_if (src_clock s \<noteq> c \<or> src_point s \<noteq> p) ValueError (Inr True))) [when_true, when_false]) (\<lambda>_.
     bindR (nonempty name) (\<lambda>name.
     Inr (GNode i c p name (Branch condition when_true when_false sig))))))"

definition mk_loop ::
  "nat \<Rightarrow> string \<Rightarrow> nat \<Rightarrow> gregion \<Rightarrow> clock \<Rightarrow> point \<Rightarrow> gregion option \<Rightarrow> int option \<Rightarrow> clock option \<Rightarrow> string \<Rightarrow> gnode result" where
  "mk_loop i kind initial body c p condition count parent name =
     raise_if (kind \<notin> set [''while'', ''range'', ''subcycle'']) ValueError
    (raise_if (kind = ''while'' \<and> (condition = None \<or> count \<noteq> None)) ValueError
    (raise_if (kind = ''range'' \<and> (condition \<noteq> None \<or> (case count of None \<Rightarrow> True | Some k \<Rightarrow> k < 0))) ValueError
    (raise_if (kind = ''subcycle'' \<and> (condition \<noteq> None \<or> (case count of None \<Rightarrow> True | Some k \<Rightarrow> k \<le> 0)
        \<or> parent = None \<or> parent = Some c)) ValueError
    (raise_if (kind \<noteq> ''subcycle'' \<and> parent \<noteq> None) ValueError
    (bindR (nonempty name) (\<lambda>name.
     Inr (GNode i c p name (Loop kind initial body condition count parent))))))))"

record graph =
  gr_name :: string
  gr_clocks :: "clock list"
  gr_nodes :: "gnode list"

definition mk_graph :: "string \<Rightarrow> gnode list \<Rightarrow> clock list option \<Rightarrow> graph result" where
  "mk_graph name nodes clocks =
     bindR (nonempty name) (\<lambda>name.
     let declared = (case clocks of Some cs \<Rightarrow> cs | None \<Rightarrow> dedup (map gn_clock nodes)) in
     raise_if (\<not> distinct declared) ValueError
    (bindR (validate_nodes nodes declared []) (\<lambda>_.
     Inr \<lparr>gr_name = name, gr_clocks = declared, gr_nodes = nodes\<rparr>)))"

definition graph_ref :: "graph \<Rightarrow> gnode \<Rightarrow> nat result" where
  "graph_ref g n =
     raise_if (n \<notin> set (gr_nodes g)) ValueError (raise_if (\<not> readable n) TypeError (Inr (gn_id n)))"

section \<open>What validation establishes\<close>

definition well_read :: "scope \<Rightarrow> gnode \<Rightarrow> nat \<Rightarrow> bool" where
  "well_read scope n r \<longleftrightarrow>
     (\<exists>s. map_of scope r = Some s \<and> src_readable s
        \<and> (is_solve_token s \<longrightarrow> program_op n = Some ''solve_outcome'')
        \<and> (case gn_body n of
             Synchronize _ source_clock _ \<Rightarrow> src_clock s = source_clock
           | _ \<Rightarrow> r \<in> set (direct_ids n) \<or> \<not> structured n \<longrightarrow> src_clock s = gn_clock n))"

definition well_bounded :: "scope \<Rightarrow> clock list \<Rightarrow> gregion \<Rightarrow> bool" where
  "well_bounded scope declared region \<longleftrightarrow> set (rg_clocks region) \<subseteq> set declared
     \<and> (\<forall>c \<in> set (rg_captures region). \<exists>s. map_of scope (cp_value c) = Some s \<and> src_readable s
          \<and> src_clock s = cp_clock c \<and> src_point s = cp_point c)"

definition node_ok :: "scope \<Rightarrow> clock list \<Rightarrow> gnode \<Rightarrow> bool" where
  "node_ok scope declared n \<longleftrightarrow> gn_id n \<notin> fst ` set scope \<and> gn_clock n \<in> set declared
     \<and> point_clocks (gn_point n) = {gn_clock n}
     \<and> (\<forall>r \<in> set (references n). well_read scope n r)
     \<and> (\<forall>region \<in> set (nested_regions n). well_bounded scope declared region)"

lemma check_reference_ok: "check_reference scope n r = Inr b \<Longrightarrow> well_read scope n r"
  by (auto simp: check_reference_def well_read_def split: option.splits gbody.splits if_splits)

lemma check_boundary_ok: "check_boundary scope declared region = Inr b \<Longrightarrow> well_bounded scope declared region"
  by (fastforce simp: check_boundary_def well_bounded_def traverse_Inr_iff list_all2_conv_all_nth in_set_conv_nth split: option.splits)

lemma traverse_Inr_each: "traverse f xs = Inr ys \<Longrightarrow> x \<in> set xs \<Longrightarrow> \<exists>y. f x = Inr y"
  by (fastforce simp: traverse_Inr_iff list_all2_conv_all_nth in_set_conv_nth)

lemma validate_node_ok:
  assumes "validate_node declared n s = Inr s'"
  shows "node_ok (vs_available s) declared n"
    and "vs_available s' = (gn_id n, SNode n) # vs_available s"
    and "vs_solves s' = (if is_solve_node n then gn_id n # vs_solves s else vs_solves s)"
    and "\<exists>consumed. check_outcome (vs_available s) n = Inr consumed \<and> vs_consumed s' = consumed @ vs_consumed s"
    and "\<exists>b. check_kind (vs_available s) n = Inr b"
proof -
  obtain refs kind consumed sync bounds where h: "gn_id n \<notin> fst ` set (vs_available s)" "gn_clock n \<in> set declared"
    "point_clocks (gn_point n) = {gn_clock n}"
    "traverse (check_reference (vs_available s) n) (references n) = Inr refs"
    "check_kind (vs_available s) n = Inr kind" "check_outcome (vs_available s) n = Inr consumed"
    "check_synchronize (vs_available s) n = Inr sync"
    "traverse (check_boundary (vs_available s) declared) (nested_regions n) = Inr bounds"
    "s' = \<lparr>vs_available = (gn_id n, SNode n) # vs_available s,
        vs_solves = (if is_solve_node n then gn_id n # vs_solves s else vs_solves s),
        vs_consumed = consumed @ vs_consumed s\<rparr>"
    using assms by (auto simp: validate_node_def Let_def)
  show "node_ok (vs_available s) declared n"
    using h(1-3) traverse_Inr_each [OF h(4)] traverse_Inr_each [OF h(8)] check_reference_ok check_boundary_ok
    unfolding node_ok_def by blast
qed (use assms in \<open>auto simp: validate_node_def Let_def\<close>)

definition scope_of :: "gnode list \<Rightarrow> scope" where
  "scope_of nodes = rev (map (\<lambda>n. (gn_id n, SNode n)) nodes)"

definition consumed_by :: "gnode \<Rightarrow> nat list" where
  "consumed_by n =
     (case gn_body n of ProgramValue _ op inputs _ \<Rightarrow> if op = ''solve_outcome'' then inputs else [] | _ \<Rightarrow> [])"

lemma scope_of_snoc: "scope_of (pre @ [n]) = (gn_id n, SNode n) # scope_of pre"
  by (simp add: scope_of_def)

lemma keys_scope_of: "fst ` set (scope_of nodes) = gn_id ` set nodes"
  by (force simp: scope_of_def)

lemma map_of_scope_of: "map_of (scope_of nodes) i = Some s \<Longrightarrow> \<exists>n \<in> set nodes. gn_id n = i \<and> s = SNode n"
  by (auto simp: scope_of_def dest!: map_of_SomeD)

lemma check_outcome_consumes:
  "check_outcome scope n = Inr c \<Longrightarrow> c = consumed_by n
     \<and> (\<forall>i \<in> set c. \<exists>s a. available_at scope i = Inr s \<and> is_solve_token s \<and> (\<exists>vt. gn_body n = ProgramValue vt ''solve_outcome'' [i] a)
          \<and> check_outcome_action a = Inr True)"
  by (auto simp: check_outcome_def consumed_by_def check_outcome_action_def Let_def
      split: gbody.splits if_splits list.splits option.splits json.splits)

lemma validate_fold:
  assumes "foldR (validate_node cs) nodes s0 = Inr s"
  shows "vs_available s = scope_of nodes @ vs_available s0"
    and "nodes = pre @ n # suf \<Longrightarrow> node_ok (scope_of pre @ vs_available s0) cs n
      \<and> check_outcome (scope_of pre @ vs_available s0) n = Inr (consumed_by n)"
    and "set (vs_solves s) = gn_id ` set (filter is_solve_node nodes) \<union> set (vs_solves s0)"
    and "vs_consumed s = concat (rev (map consumed_by nodes)) @ vs_consumed s0"
proof -
  have "foldR (validate_node cs) nodes s0 = Inr s \<Longrightarrow>
      vs_available s = scope_of nodes @ vs_available s0
    \<and> (\<forall>pre n suf. nodes = pre @ n # suf \<longrightarrow> node_ok (scope_of pre @ vs_available s0) cs n
      \<and> check_outcome (scope_of pre @ vs_available s0) n = Inr (consumed_by n))
    \<and> set (vs_solves s) = gn_id ` set (filter is_solve_node nodes) \<union> set (vs_solves s0)
    \<and> vs_consumed s = concat (rev (map consumed_by nodes)) @ vs_consumed s0"
  proof (induction nodes arbitrary: s rule: rev_induct)
    case Nil
    then show ?case by (simp add: scope_of_def)
  next
    case (snoc m nodes)
    obtain s1 where s1: "foldR (validate_node cs) nodes s0 = Inr s1" "validate_node cs m s1 = Inr s"
      using snoc.prems by (auto simp: foldR_append)
    note ih = snoc.IH [OF s1(1)] and v = validate_node_ok [OF s1(2)]
    obtain c where c: "check_outcome (vs_available s1) m = Inr c" "vs_consumed s = c @ vs_consumed s1"
      using v(4) by blast
    have cm: "c = consumed_by m" using check_outcome_consumes [OF c(1)] by blast
    have split: "node_ok (scope_of pre @ vs_available s0) cs n
      \<and> check_outcome (scope_of pre @ vs_available s0) n = Inr (consumed_by n)"
      if "nodes @ [m] = pre @ n # suf" for pre n suf
    proof (cases suf rule: rev_cases)
      case Nil
      with that ih v(1) c(1) cm show ?thesis by auto
    next
      case (snoc suf' k)
      with that ih show ?thesis by auto
    qed
    show ?case
    proof (intro conjI allI impI)
      show "node_ok (scope_of pre @ vs_available s0) cs n" "check_outcome (scope_of pre @ vs_available s0) n = Inr (consumed_by n)"
        if "nodes @ [m] = pre @ n # suf" for pre n suf using split [OF that] by blast+
      show "vs_available s = scope_of (nodes @ [m]) @ vs_available s0"
        using ih v(2) by (simp add: scope_of_snoc)
      show "set (vs_solves s) = gn_id ` set (filter is_solve_node (nodes @ [m])) \<union> set (vs_solves s0)"
        using ih v(3) by auto
      show "vs_consumed s = concat (rev (map consumed_by (nodes @ [m]))) @ vs_consumed s0"
        using ih c(2) cm by simp
    qed
  qed
  then show "vs_available s = scope_of nodes @ vs_available s0"
    and "nodes = pre @ n # suf \<Longrightarrow> node_ok (scope_of pre @ vs_available s0) cs n
      \<and> check_outcome (scope_of pre @ vs_available s0) n = Inr (consumed_by n)"
    and "set (vs_solves s) = gn_id ` set (filter is_solve_node nodes) \<union> set (vs_solves s0)"
    and "vs_consumed s = concat (rev (map consumed_by nodes)) @ vs_consumed s0"
    using assms by blast+
qed

lemma validate_nodes_ok:
  assumes "validate_nodes nodes cs scope = Inr out"
  shows "out = scope_of nodes @ scope"
    and "nodes = pre @ n # suf \<Longrightarrow> node_ok (scope_of pre @ scope) cs n"
    and "nodes = pre @ n # suf \<Longrightarrow> check_outcome (scope_of pre @ scope) n = Inr (consumed_by n)"
    and "n \<in> set nodes \<Longrightarrow> is_solve_node n \<Longrightarrow> count_list (concat (rev (map consumed_by nodes))) (gn_id n) = 1"
proof -
  obtain s where s: "foldR (validate_node cs) nodes \<lparr>vs_available = scope, vs_solves = [], vs_consumed = []\<rparr> = Inr s"
    "\<not> (\<exists>i \<in> set (vs_solves s). count_list (vs_consumed s) i \<noteq> 1)" "out = vs_available s"
    using assms by (auto simp: validate_nodes_def)
  note f = validate_fold [OF s(1)]
  show "out = scope_of nodes @ scope" using f(1) s(3) by simp
  show "nodes = pre @ n # suf \<Longrightarrow> node_ok (scope_of pre @ scope) cs n"
    and "nodes = pre @ n # suf \<Longrightarrow> check_outcome (scope_of pre @ scope) n = Inr (consumed_by n)"
    using f(2) [of pre n suf] by simp_all
  assume "n \<in> set nodes" "is_solve_node n"
  then have "gn_id n \<in> set (vs_solves s)" using f(3) by auto
  then show "count_list (concat (rev (map consumed_by nodes))) (gn_id n) = 1" using s(2) f(4) by auto
qed

lemma node_ok_fresh: "node_ok (scope_of pre @ scope) cs n \<Longrightarrow> gn_id n \<notin> gn_id ` set pre \<and> gn_id n \<notin> fst ` set scope"
  by (simp add: node_ok_def keys_scope_of image_Un)

lemma validated_distinct:
  assumes "\<And>pre n suf. nodes = pre @ n # suf \<Longrightarrow> node_ok (scope_of pre @ scope) cs n"
  shows "distinct (map gn_id nodes)"
  using assms
proof (induction nodes rule: rev_induct)
  case (snoc n nodes)
  have "distinct (map gn_id nodes)"
  proof (rule snoc.IH)
    fix pre m suf assume "nodes = pre @ m # suf"
    then show "node_ok (scope_of pre @ scope) cs m" using snoc.prems [of pre m "suf @ [n]"] by simp
  qed
  with node_ok_fresh [OF snoc.prems [of nodes n "[]"]] show ?case by simp
qed simp

lemma mk_graph_facts:
  assumes "mk_graph name nodes clocks = Inr g"
  shows "gr_nodes g = nodes" and "\<exists>out. validate_nodes (gr_nodes g) (gr_clocks g) [] = Inr out"
    and "distinct (gr_clocks g)"
  using assms by (auto simp: mk_graph_def nonempty_def Let_def)

lemma mk_region_facts:
  assumes "mk_region name captures nodes result clocks signature = Inr r"
  shows "rg_captures r = captures" and "rg_nodes r = nodes" and "rg_result r = result"
    and "distinct (map cp_value captures)"
    and "\<exists>out s. validate_nodes nodes (rg_clocks r) (rev (map (\<lambda>c. (cp_value c, SCapture c)) captures)) = Inr out
       \<and> map_of out result = Some s \<and> src_readable s"
  using assms by (auto simp: mk_region_def nonempty_def Let_def split: option.splits)

text \<open>A read of a scope made of earlier nodes only.\<close>

definition reads_earlier :: "gnode list \<Rightarrow> gnode \<Rightarrow> nat \<Rightarrow> bool" where
  "reads_earlier pre n r \<longleftrightarrow>
     (\<exists>m \<in> set pre. gn_id m = r \<and> readable m \<and> (is_solve_node m \<longrightarrow> program_op n = Some ''solve_outcome'')
        \<and> (case gn_body n of
             Synchronize _ source_clock _ \<Rightarrow> gn_clock m = source_clock
           | _ \<Rightarrow> r \<in> set (direct_ids n) \<or> \<not> structured n \<longrightarrow> gn_clock m = gn_clock n))"

lemma well_read_earlier: "well_read (scope_of pre) n r \<Longrightarrow> reads_earlier pre n r"
  unfolding well_read_def reads_earlier_def
proof (elim exE conjE, drule map_of_scope_of, elim bexE conjE, rule bexI)
  fix s m
  assume "src_readable s" "is_solve_token s \<longrightarrow> program_op n = Some ''solve_outcome''" "m \<in> set pre" "gn_id m = r"
    and s: "s = SNode m"
    and clk: "case gn_body n of Synchronize _ source_clock _ \<Rightarrow> src_clock s = source_clock
        | _ \<Rightarrow> r \<in> set (direct_ids n) \<or> \<not> structured n \<longrightarrow> src_clock s = gn_clock n"
  moreover have sc: "src_clock s = gn_clock m" by (simp add: s src_clock_def)
  moreover note clk [unfolded sc]
  ultimately show "gn_id m = r \<and> readable m \<and> (is_solve_node m \<longrightarrow> program_op n = Some ''solve_outcome'')
     \<and> (case gn_body n of Synchronize _ source_clock _ \<Rightarrow> gn_clock m = source_clock
        | _ \<Rightarrow> r \<in> set (direct_ids n) \<or> \<not> structured n \<longrightarrow> gn_clock m = gn_clock n)"
    by (simp only: s src_readable_def is_solve_token_def source.case simp_thms)
qed

text \<open>Claim C8. A constructed graph is an ordered SSA program: its ids are distinct, each node is on a
  declared clock and at a point of that clock alone, and each of its references names an earlier
  readable node of the same clock, unless the node is a \<open>Synchronize\<close> of exactly that source clock or a
  structured node capturing it. A solve token is read by \<open>solve_outcome\<close> nodes only, and every
  capture of a nested region agrees with an earlier node in clock and point.\<close>

theorem graph_is_ordered_ssa:
  assumes "mk_graph name nodes clocks = Inr g"
  shows "distinct (map gn_id (gr_nodes g))
    \<and> (\<forall>pre n suf. gr_nodes g = pre @ n # suf \<longrightarrow>
         gn_clock n \<in> set (gr_clocks g) \<and> point_clocks (gn_point n) = {gn_clock n}
       \<and> (\<forall>r \<in> set (references n). reads_earlier pre n r)
       \<and> (\<forall>region \<in> set (nested_regions n). set (rg_clocks region) \<subseteq> set (gr_clocks g)
            \<and> (\<forall>c \<in> set (rg_captures region). \<exists>m \<in> set pre.
                 gn_id m = cp_value c \<and> readable m \<and> gn_clock m = cp_clock c \<and> gn_point m = cp_point c)))"
proof -
  obtain out where out: "validate_nodes (gr_nodes g) (gr_clocks g) [] = Inr out"
    using mk_graph_facts(2) [OF assms] by blast
  note v = validate_nodes_ok(2) [OF out]
  have caps: "\<exists>m \<in> set pre. gn_id m = cp_value c \<and> readable m \<and> gn_clock m = cp_clock c \<and> gn_point m = cp_point c"
    if "well_bounded (scope_of pre) cs region" "c \<in> set (rg_captures region)" for pre cs region c
    using that unfolding well_bounded_def
    by (auto dest!: bspec map_of_scope_of simp: src_readable_def src_clock_def src_point_def)
  show ?thesis
  proof (intro conjI allI impI ballI)
    show "distinct (map gn_id (gr_nodes g))" by (rule validated_distinct [OF v])
    fix pre n suf assume "gr_nodes g = pre @ n # suf"
    then have n: "node_ok (scope_of pre) (gr_clocks g) n" using v by simp
    then show "gn_clock n \<in> set (gr_clocks g)" "point_clocks (gn_point n) = {gn_clock n}" by (auto simp: node_ok_def)
    show "reads_earlier pre n r" if "r \<in> set (references n)" for r
      using n that well_read_earlier by (auto simp: node_ok_def)
    show "set (rg_clocks region) \<subseteq> set (gr_clocks g)" if "region \<in> set (nested_regions n)" for region
      using n that by (auto simp: node_ok_def well_bounded_def)
    show "\<exists>m \<in> set pre. gn_id m = cp_value c \<and> readable m \<and> gn_clock m = cp_clock c \<and> gn_point m = cp_point c"
      if "region \<in> set (nested_regions n)" "c \<in> set (rg_captures region)" for region c
      using n that caps by (auto simp: node_ok_def)
  qed
qed

lemma count_list_concat_unique:
  assumes "distinct xs" and "count_list (concat (rev (map f xs))) i = 1"
  shows "\<exists>!x. x \<in> set xs \<and> i \<in> set (f x)"
proof -
  have "count_list (concat (rev (map f xs))) i = sum_list (map (\<lambda>x. count_list (f x) i) xs)" for xs
    by (induction xs) auto
  then have total: "(\<Sum>x\<in>set xs. count_list (f x) i) = 1"
    using assms by (simp add: sum_list_distinct_conv_sum_set)
  have "\<exists>x \<in> set xs. count_list (f x) i \<noteq> 0" using total by (auto intro: ccontr)
  then obtain x where x: "x \<in> set xs" "i \<in> set (f x)" by (metis count_list_0_iff)
  show ?thesis
  proof (rule ex1I [of _ x])
    fix y assume y: "y \<in> set xs \<and> i \<in> set (f y)"
    show "y = x"
    proof (rule ccontr)
      assume "y \<noteq> x"
      then have "(\<Sum>z\<in>{x, y}. count_list (f z) i) \<le> (\<Sum>z\<in>set xs. count_list (f z) i)"
        using x y by (intro sum_mono2) auto
      moreover have "count_list (f x) i \<ge> 1" "count_list (f y) i \<ge> 1"
        using x y by (simp_all add: Suc_le_eq) (metis count_list_0_iff gr0I)+
      ultimately show False using total \<open>y \<noteq> x\<close> by simp
    qed
  qed (use x in simp)
qed

lemma outcome_references: "program_op m = Some ''solve_outcome'' \<Longrightarrow> references m = consumed_by m"
  by (cases "gn_body m") (simp_all add: program_op_def consumed_by_def references_def)

lemma consumed_references: "i \<in> set (consumed_by m) \<Longrightarrow> i \<in> set (references m)"
  by (cases "gn_body m") (auto simp: consumed_by_def references_def split: if_splits)

lemma token_reader:
  assumes ok: "\<And>pre n suf. nodes = pre @ n # suf \<Longrightarrow> node_ok (scope_of pre @ scope) cs n"
    and t: "t \<in> set nodes" "is_solve_node t" and m: "m \<in> set nodes"
  shows "gn_id t \<in> set (references m) \<longleftrightarrow> gn_id t \<in> set (consumed_by m)"
proof
  assume read: "gn_id t \<in> set (references m)"
  have dist: "distinct (map gn_id nodes)" by (rule validated_distinct [OF ok])
  obtain pre suf where split: "nodes = pre @ m # suf" using m by (meson split_list)
  have "well_read (scope_of pre @ scope) m (gn_id t)"
    using ok [OF split] read by (simp add: node_ok_def)
  then obtain s where s: "map_of (scope_of pre @ scope) (gn_id t) = Some s" "is_solve_token s \<longrightarrow> program_op m = Some ''solve_outcome''"
    unfolding well_read_def by blast
  obtain tpre tsuf where tsplit: "nodes = tpre @ t # tsuf" using t(1) by (meson split_list)
  have "gn_id t \<notin> fst ` set scope" using node_ok_fresh [OF ok [OF tsplit]] by blast
  then have "map_of scope (gn_id t) = None" by (simp add: map_of_eq_None_iff)
  then have "map_of (scope_of pre) (gn_id t) = Some s"
    using s(1) by (auto simp: map_add_Some_iff)
  then obtain u where u: "u \<in> set pre" "gn_id u = gn_id t" "s = SNode u" using map_of_scope_of by blast
  have "u \<in> set nodes" using u(1) split by simp
  then have "u = t" using dist t(1) u(2) by (metis distinct_map inj_onD)
  then have "program_op m = Some ''solve_outcome''" using s(2) u(3) t(2) by (simp add: is_solve_token_def)
  then show "gn_id t \<in> set (consumed_by m)" using read outcome_references by simp
qed (rule consumed_references)

lemma tokens_consumed_once:
  assumes v: "validate_nodes nodes cs scope = Inr out" and n: "t \<in> set nodes" "is_solve_node t"
  shows "\<exists>!n. n \<in> set nodes \<and> gn_id t \<in> set (references n)"
    and "\<exists>n \<in> set nodes. \<exists>vt a. gn_body n = ProgramValue vt ''solve_outcome'' [gn_id t] a \<and> check_outcome_action a = Inr True"
proof -
  note ok = validate_nodes_ok(2) [OF v]
  have dist: "distinct nodes" using validated_distinct [OF ok] by (simp add: distinct_map)
  have once: "\<exists>!m. m \<in> set nodes \<and> gn_id t \<in> set (consumed_by m)"
    by (rule count_list_concat_unique [OF dist validate_nodes_ok(4) [OF v n]])
  have "(\<lambda>m. m \<in> set nodes \<and> gn_id t \<in> set (references m)) = (\<lambda>m. m \<in> set nodes \<and> gn_id t \<in> set (consumed_by m))"
  proof
    fix m
    have "m \<in> set nodes \<Longrightarrow> gn_id t \<in> set (references m) \<longleftrightarrow> gn_id t \<in> set (consumed_by m)"
      by (rule token_reader [OF _ n]) (rule ok)
    then show "(m \<in> set nodes \<and> gn_id t \<in> set (references m)) = (m \<in> set nodes \<and> gn_id t \<in> set (consumed_by m))" by blast
  qed
  then show "\<exists>!m. m \<in> set nodes \<and> gn_id t \<in> set (references m)" using once by simp
  obtain m where m: "m \<in> set nodes" "gn_id t \<in> set (consumed_by m)" using once by blast
  then obtain pre suf where split: "nodes = pre @ m # suf" by (meson split_list)
  obtain s vt a where "gn_body m = ProgramValue vt ''solve_outcome'' [gn_id t] a" "check_outcome_action a = Inr True"
    using check_outcome_consumes [OF validate_nodes_ok(3) [OF v split]] m(2) by blast
  then show "\<exists>n \<in> set nodes. \<exists>vt a. gn_body n = ProgramValue vt ''solve_outcome'' [gn_id t] a \<and> check_outcome_action a = Inr True"
    using m(1) by blast
qed

text \<open>Claim C27. In a constructed graph no solve result goes unchecked: each solve token is read by
  exactly one node, a \<open>solve_outcome\<close> with that token as its only input and an explicit, well-formed
  failure action.\<close>

theorem solve_tokens_consumed_once:
  assumes "mk_graph name nodes clocks = Inr g" and "t \<in> set (gr_nodes g)" and "is_solve_node t"
  shows "(\<exists>!n. n \<in> set (gr_nodes g) \<and> gn_id t \<in> set (references n))
    \<and> (\<exists>n \<in> set (gr_nodes g). \<exists>vt a. gn_body n = ProgramValue vt ''solve_outcome'' [gn_id t] a
         \<and> check_outcome_action a = Inr True)"
  using mk_graph_facts(2) [OF assms(1)] tokens_consumed_once [OF _ assms(2,3)] by blast

text \<open>A constructed region is closed: everything its nodes read is an explicit capture or an
  earlier readable node of the region, its result is available, and every solve it starts is consumed
  inside it exactly once.\<close>

theorem regions_are_closed:
  assumes "mk_region name captures nodes result clocks signature = Inr r"
  shows "(\<forall>pre n suf. rg_nodes r = pre @ n # suf \<longrightarrow>
           gn_id n \<notin> cp_value ` set (rg_captures r) \<and>
           (\<forall>i \<in> set (references n). i \<in> cp_value ` set (rg_captures r) \<or> (\<exists>m \<in> set pre. gn_id m = i \<and> readable m)))
    \<and> (rg_result r \<in> cp_value ` set (rg_captures r) \<or> (\<exists>m \<in> set (rg_nodes r). gn_id m = rg_result r \<and> readable m))
    \<and> (\<forall>t \<in> set (rg_nodes r). is_solve_node t \<longrightarrow> (\<exists>!n. n \<in> set (rg_nodes r) \<and> gn_id t \<in> set (references n)))"
proof -
  note r = mk_region_facts [OF assms]
  let ?caps = "rev (map (\<lambda>c. (cp_value c, SCapture c)) captures)"
  obtain out s where out: "validate_nodes nodes (rg_clocks r) ?caps = Inr out" "map_of out result = Some s" "src_readable s"
    using r(5) by blast
  have keys: "fst ` set ?caps = cp_value ` set captures" by force
  have named: "i \<in> cp_value ` set captures \<or> (\<exists>m \<in> set pre. gn_id m = i \<and> readable m)"
    if "map_of (scope_of pre @ ?caps) i = Some s" "src_readable s" for pre i s
  proof (cases "map_of (scope_of pre) i")
    case None
    then have "map_of ?caps i = Some s" using that(1) by (simp only: map_of_append map_add_def option.case)
    then show ?thesis using keys by (metis domI dom_map_of_conv_image_fst)
  next
    case (Some u)
    then have "u = s" using that(1) by (simp add: map_add_def)
    with Some show ?thesis using map_of_scope_of that(2) by (fastforce simp: src_readable_def)
  qed
  have "gn_id n \<notin> cp_value ` set captures \<and>
      (\<forall>i \<in> set (references n). i \<in> cp_value ` set captures \<or> (\<exists>m \<in> set pre. gn_id m = i \<and> readable m))"
    if split: "nodes = pre @ n # suf" for pre n suf
  proof -
    have ok: "node_ok (scope_of pre @ ?caps) (rg_clocks r) n" by (rule validate_nodes_ok(2) [OF out(1) split])
    have "i \<in> cp_value ` set captures \<or> (\<exists>m \<in> set pre. gn_id m = i \<and> readable m)" if i: "i \<in> set (references n)" for i
    proof -
      have "well_read (scope_of pre @ ?caps) n i" using ok i by (simp add: node_ok_def)
      then obtain s where "map_of (scope_of pre @ ?caps) i = Some s" "src_readable s" unfolding well_read_def by blast
      then show ?thesis by (rule named)
    qed
    moreover have "gn_id n \<notin> cp_value ` set captures" using node_ok_fresh [OF ok] unfolding keys by blast
    ultimately show ?thesis by blast
  qed
  moreover have "result \<in> cp_value ` set captures \<or> (\<exists>m \<in> set nodes. gn_id m = result \<and> readable m)"
    by (rule named [OF _ out(3)]) (use out(2) validate_nodes_ok(1) [OF out(1)] in \<open>simp only:\<close>)
  moreover have "\<exists>!n. n \<in> set nodes \<and> gn_id t \<in> set (references n)" if "t \<in> set nodes" "is_solve_node t" for t
    by (rule tokens_consumed_once(1) [OF out(1) that])
  ultimately show ?thesis unfolding r(1-3) by blast
qed

section \<open>A concrete graph\<close>

definition sample_clock :: clock where
  "sample_clock = \<lparr>clk_name = ''macro'', clk_owner = None\<rparr>"

definition sample_point :: point where
  "sample_point = AtTime \<lparr>tp_clock = sample_clock,
     tp_offset = \<lparr>lit_body = LInteger 0, lit_unit = None, lit_target = None, lit_cpp = None\<rparr>, tp_step = 0\<rparr>"

definition sample_node :: "nat \<Rightarrow> gbody \<Rightarrow> gnode" where
  "sample_node i b = GNode i sample_clock sample_point ''v'' b"

definition sample_action :: attrs where
  "sample_action = [(''attrs'', JObj [(''action'', JObj [(''kind'', JStr ''fail_run''),
     (''statuses'', JList [JStr ''singular'', JStr ''breakdown''])])])]"

text \<open>An arm whose only node reads its capture, and a step that solves fields and branches on a test.\<close>

definition sample_arm :: "string \<Rightarrow> gregion result" where
  "sample_arm name = mk_region name [\<lparr>cp_value = 0, cp_clock = sample_clock, cp_point = sample_point, cp_signature = None\<rparr>]
     [sample_node 10 (ProgramValue ''state'' ''linear_combine'' [0] []),
      sample_node 11 (Solve 0 10 0 []), sample_node 12 (ProgramValue ''fields'' ''solve_outcome'' [11] sample_action)]
     10 None (Some (MMap [(Some ''value_type'', MStr (JStr ''state''))]))"

definition sample_nodes :: "gnode list result" where
  "sample_nodes =
     bindR (sample_arm ''t'') (\<lambda>t. bindR (sample_arm ''f'') (\<lambda>f.
     bindR (mk_branch 5 4 t f sample_clock sample_point ''choice'' (MMap [(Some ''value_type'', MStr (JStr ''state''))])) (\<lambda>b.
     Inr [sample_node 0 (StateRead JNull JNull),
          sample_node 1 (ProgramValue ''fields'' ''solve_fields'' [0] []),
          sample_node 2 (ProgramValue ''fields'' ''solve_outcome'' [1] sample_action),
          sample_node 3 (ProgramValue ''rhs'' ''rhs'' [0, 2] []),
          sample_node 4 (ProgramValue ''bool'' ''compare'' [0] []), b,
          sample_node 6 (ProgramValue ''state'' ''linear_combine'' [5, 3] []),
          sample_node 7 (Commit JNull 6)])))"

definition sample_graph :: "graph result" where
  "sample_graph = bindR sample_nodes (\<lambda>nodes. mk_graph ''step'' nodes None)"

lemma sample_graph_value: "is_value sample_graph \<and> is_value (sample_arm ''t'')"
  by code_simp

lemma sample_graph_built: "\<exists>nodes g. mk_graph ''step'' nodes None = Inr g \<and> sample_graph = Inr g"
  using sample_graph_value by (auto simp: sample_graph_def is_value_iff)

theorem graph_is_ordered_ssa_witness:
  "\<exists>g. sample_graph = Inr g \<and> distinct (map gn_id (gr_nodes g))"
  using sample_graph_built graph_is_ordered_ssa [of "''step''" _ None] by blast

lemma sample_graph_solve: "case sample_graph of Inr g \<Rightarrow> gn_id (gr_nodes g ! 1) = 1 \<and> is_solve_node (gr_nodes g ! 1)
    \<and> length (gr_nodes g) = 8 | Inl _ \<Rightarrow> False"
  by code_simp

theorem solve_tokens_consumed_once_witness:
  "\<exists>g. sample_graph = Inr g \<and> (\<exists>!n. n \<in> set (gr_nodes g) \<and> 1 \<in> set (references n))"
proof -
  obtain nodes g where g: "mk_graph ''step'' nodes None = Inr g" "sample_graph = Inr g"
    using sample_graph_built by blast
  then have s: "gn_id (gr_nodes g ! 1) = 1" "is_solve_node (gr_nodes g ! 1)" "gr_nodes g ! 1 \<in> set (gr_nodes g)"
    using sample_graph_solve unfolding g(2) by auto
  show ?thesis using solve_tokens_consumed_once [OF g(1) s(3,2)] g(2) s(1) by auto
qed

theorem regions_are_closed_witness:
  "\<exists>r. sample_arm ''t'' = Inr r \<and> (\<exists>!n. n \<in> set (rg_nodes r) \<and> 11 \<in> set (references n))"
proof -
  obtain r where r: "sample_arm ''t'' = Inr r" using sample_graph_value by (auto simp: is_value_iff)
  have n: "rg_nodes r = [sample_node 10 (ProgramValue ''state'' ''linear_combine'' [0] []),
      sample_node 11 (Solve 0 10 0 []), sample_node 12 (ProgramValue ''fields'' ''solve_outcome'' [11] sample_action)]"
    using mk_region_facts(2) r unfolding sample_arm_def by blast
  have "\<forall>t \<in> set (rg_nodes r). is_solve_node t \<longrightarrow> (\<exists>!n. n \<in> set (rg_nodes r) \<and> gn_id t \<in> set (references n))"
    using regions_are_closed [OF r [unfolded sample_arm_def]] by blast
  moreover have "is_solve_node (sample_node 11 (Solve 0 10 0 []))" "gn_id (sample_node 11 (Solve 0 10 0 [])) = 11"
    by (simp_all add: sample_node_def is_solve_node_def)
  ultimately show ?thesis using n r by (metis list.set_intros(1,2))
qed

end
