(* ===== verification/Pops_Tableau.thy ===== *)
theory Pops_Tableau
  imports Pops_Literal
begin

text \<open>
  Coefficient authorities of the Runge--Kutta families (\<open>python/pops/time/_methods/tableau.py\<close> and
  \<open>coefficients.py\<close>): normalisation of authored coefficients, the triangular coefficient rows, the
  weights and the nodes, and the two validating constructors \<open>RungeKuttaTableau\<close> and
  \<open>AdditiveRungeKuttaTableau\<close>. Coefficients keep the Python number domain they were written in.
\<close>

section \<open>Coefficients\<close>

definition exact_coefficient :: "authored \<Rightarrow> pynum result" where
  "exact_coefficient v =
     bindR (scalar_literal v)
       (\<lambda>l. raise_if (lit_unit l \<noteq> None \<or> lit_target l \<noteq> None \<or> lit_cpp l \<noteq> None) TypeError
              (to_python l))"

text \<open>A normalised coefficient, authored again (the code passes it through the same functions).\<close>

fun author :: "pynum \<Rightarrow> authored" where
  "author (PyInt i) = AInt i"
| "author (PyFrac q) = AFraction q"
| "author (PyDec d) = ADecimal (Some d)"
| "author (PyFloat f) = AFloat (Some f)"

definition exact_fraction :: "authored \<Rightarrow> rat result" where
  "exact_fraction v = bindR (exact_coefficient v) (\<lambda>n. Inr (num_value n))"

lemma exact_coefficient_author [simp]: "exact_coefficient (author n) = Inr n"
proof (cases n)
  case (PyFrac q)
  have "from_value (AFraction q) None None
      = Inr \<lparr>lit_body = LRational (fst (quotient_of q)) (snd (quotient_of q)),
             lit_unit = None, lit_target = None, lit_cpp = None\<rparr>"
    by (simp add: mk_literal_def check_body_quotient empty_text_def)
  then show ?thesis
    by (simp add: PyFrac exact_coefficient_def scalar_literal_def to_python_def Fract_quotient_of)
qed (simp_all add: exact_coefficient_def scalar_literal_def mk_literal_def check_body_def
    empty_text_def to_python_def)

lemma exact_fraction_author [simp]: "exact_fraction (author n) = Inr (num_value n)"
  by (simp add: exact_fraction_def)

section \<open>Rows, weights, nodes\<close>

definition rk_row :: "nat \<Rightarrow> bool \<Rightarrow> nat \<times> authored list \<Rightarrow> pynum list result" where
  "rk_row stages diagonal ir =
     (let (i, raw) = ir; width = i + of_bool diagonal
      in raise_if (length raw < width \<or> stages < length raw) ValueError
           (bindR (traverse exact_coefficient raw) (\<lambda>row.
            bindR (traverse (\<lambda>item. exact_fraction (author item)) (drop width row)) (\<lambda>tail.
            raise_if (\<exists>x \<in> set tail. x \<noteq> 0) ValueError (Inr (take width row))))))"

definition rk_rows :: "authored list list \<Rightarrow> nat \<Rightarrow> bool \<Rightarrow> pynum list list result" where
  "rk_rows A stages diagonal =
     raise_if (length A \<noteq> stages) ValueError
       (traverse (rk_row stages diagonal) (enumerate 0 A))"

definition rk_weights :: "authored list \<Rightarrow> pynum list result" where
  "rk_weights vals =
     bindR (traverse exact_coefficient vals) (\<lambda>r. raise_if (r = []) ValueError (Inr r))"

definition row_sum :: "pynum list \<Rightarrow> rat result" where
  "row_sum row = bindR (traverse (\<lambda>item. exact_fraction (author item)) row) (\<lambda>xs. Inr (sum_list xs))"

definition rk_nodes :: "pynum list list \<Rightarrow> authored list option \<Rightarrow> pynum list result" where
  "rk_nodes rows c =
     bindR (traverse row_sum rows) (\<lambda>rsums.
       (case c of
          None \<Rightarrow> Inr (map PyFrac rsums)
        | Some cs \<Rightarrow>
            bindR (rk_weights cs) (\<lambda>r.
            raise_if (length r \<noteq> length rows) ValueError
              (bindR (traverse (\<lambda>(actual, expected).
                         bindR (exact_fraction (author actual))
                           (\<lambda>x. raise_if (x \<noteq> expected) ValueError (Inr ())))
                       (zip r rsums))
                 (\<lambda>_. Inr r)))))"

section \<open>Tableaux\<close>

record tableau =
  tab_A :: "pynum list list"
  tab_b :: "pynum list"
  tab_c :: "pynum list"
  tab_name :: "string option"

definition tab_stages :: "tableau \<Rightarrow> nat" where
  "tab_stages t = length (tab_b t)"

definition mk_tableau ::
  "authored list list \<Rightarrow> authored list \<Rightarrow> authored list option \<Rightarrow> string option \<Rightarrow> tableau result" where
  "mk_tableau A b c name =
     bindR (rk_weights b) (\<lambda>weights.
     bindR (rk_rows A (length weights) False) (\<lambda>rows.
     bindR (row_sum weights) (\<lambda>total.
     raise_if (total \<noteq> 1) ValueError
    (raise_if (name = Some []) ValueError
       (bindR (rk_nodes rows c) (\<lambda>nodes.
        Inr \<lparr>tab_A = rows, tab_b = weights, tab_c = nodes, tab_name = name\<rparr>))))))"

record ark_tableau =
  ark_explicit :: tableau
  ark_A :: "pynum list list"
  ark_b :: "pynum list"
  ark_c :: "pynum list"
  ark_name :: "string option"

definition mk_ark_tableau ::
  "tableau \<Rightarrow> authored list list \<Rightarrow> authored list \<Rightarrow> authored list option \<Rightarrow> string option
     \<Rightarrow> ark_tableau result" where
  "mk_ark_tableau explicit A b c name =
     bindR (rk_weights b) (\<lambda>weights.
     raise_if (length weights \<noteq> tab_stages explicit) ValueError
       (bindR (row_sum weights) (\<lambda>total.
        raise_if (total \<noteq> 1) ValueError
          (bindR (rk_rows A (length weights) True) (\<lambda>rows.
           raise_if (name = Some []) ValueError
             (bindR (rk_nodes rows c) (\<lambda>nodes.
              Inr \<lparr>ark_explicit = explicit, ark_A = rows, ark_b = weights, ark_c = nodes,
                   ark_name = name\<rparr>)))))))"

definition abscissae :: "ark_tableau \<Rightarrow> (pynum \<times> pynum) list" where
  "abscissae t = zip (tab_c (ark_explicit t)) (ark_c t)"

section \<open>Well-formed tableaux\<close>

definition vals :: "pynum list \<Rightarrow> rat list" where
  "vals = map num_value"

lemma length_vals [simp]: "length (vals xs) = length xs"
  by (simp add: vals_def)

lemma traverse_fractions [simp]: "traverse (\<lambda>item. exact_fraction (author item)) xs = Inr (vals xs)"
  by (simp add: vals_def)

lemma row_sum_vals [simp]: "row_sum row = Inr (sum_list (vals row))"
  by (simp add: row_sum_def vals_def)

lemma row_sum_fun: "row_sum = (\<lambda>row. Inr (sum_list (vals row)))"
  by (rule ext) simp

lemma traverse_row_sum [simp]: "traverse row_sum rows = Inr (map (\<lambda>row. sum_list (vals row)) rows)"
  by (simp add: row_sum_fun)

text \<open>
  The invariant both constructors establish: one weight per stage, triangular rows, weights that sum
  to one, nodes equal to the row rsums.
\<close>

definition coefficients_ok :: "bool \<Rightarrow> pynum list list \<Rightarrow> pynum list \<Rightarrow> pynum list \<Rightarrow> bool" where
  "coefficients_ok diagonal A b c \<longleftrightarrow>
     b \<noteq> [] \<and> length A = length b \<and> length c = length b
     \<and> (\<forall>i < length A. length (A ! i) = i + of_bool diagonal)
     \<and> sum_list (vals b) = 1
     \<and> vals c = map (\<lambda>row. sum_list (vals row)) A"

definition tableau_ok :: "tableau \<Rightarrow> bool" where
  "tableau_ok t \<longleftrightarrow> coefficients_ok False (tab_A t) (tab_b t) (tab_c t) \<and> tab_name t \<noteq> Some []"

definition ark_tableau_ok :: "ark_tableau \<Rightarrow> bool" where
  "ark_tableau_ok t \<longleftrightarrow>
     coefficients_ok True (ark_A t) (ark_b t) (ark_c t) \<and> ark_name t \<noteq> Some []
     \<and> length (ark_b t) = tab_stages (ark_explicit t)"

lemma rk_rows_shape:
  assumes "rk_rows A stages diagonal = Inr rows"
  shows "length rows = stages \<and> (\<forall>i < stages. length (rows ! i) = i + of_bool diagonal)"
proof -
  have len: "length A = stages" and rel: "list_all2 (\<lambda>x y. rk_row stages diagonal x = Inr y) (enumerate 0 A) rows"
    using assms by (auto simp: rk_rows_def traverse_Inr_iff)
  have "length rows = stages" using list_all2_lengthD [OF rel] len by simp
  moreover have "length (rows ! i) = i + of_bool diagonal" if "i < stages" for i
  proof -
    have "rk_row stages diagonal (i, A ! i) = Inr (rows ! i)"
      using list_all2_nthD [OF rel] that len by (simp add: nth_enumerate_eq)
    then obtain row where "traverse exact_coefficient (A ! i) = Inr row"
        and "rows ! i = take (i + of_bool diagonal) row" and "i + of_bool diagonal \<le> length (A ! i)"
      by (auto simp: rk_row_def Let_def not_less)
    then show ?thesis by (auto dest: traverse_length)
  qed
  ultimately show ?thesis by simp
qed

lemma rk_nodes_vals:
  assumes "rk_nodes rows c = Inr r"
  shows "length r = length rows \<and> vals r = map (\<lambda>row. sum_list (vals row)) rows"
proof (cases c)
  case None
  with assms show ?thesis by (auto simp: rk_nodes_def vals_def)
next
  case (Some cs)
  let ?S = "map (\<lambda>row. sum_list (vals row)) rows"
  from assms Some have len: "length r = length rows"
    and ok: "\<exists>us. list_all2 (\<lambda>(actual, expected) (u::unit). num_value actual = expected) (zip r ?S) us"
    by (auto simp: rk_nodes_def traverse_Inr_iff case_prod_unfold)
  from ok have eq: "num_value (r ! i) = ?S ! i" if "i < length rows" for i
    using that by (auto simp: list_all2_conv_all_nth len)
  with len have "vals r = ?S"
    by (intro nth_equalityI) (auto simp: vals_def)
  with len show ?thesis by simp
qed


lemma traverse_coefficients_author [simp]: "traverse exact_coefficient (map author xs) = Inr xs"
  by (induction xs) auto

lemma rk_weights_author: "rk_weights (map author xs) = (if xs = [] then Inl ValueError else Inr xs)"
  by (simp add: rk_weights_def)

lemma rk_rows_author:
  assumes "length A = stages" and "\<And>i. i < stages \<Longrightarrow> length (A ! i) = i + of_bool diagonal"
  shows "rk_rows (map (map author) A) stages diagonal = Inr A"
proof -
  have "rk_row stages diagonal (i, map author (A ! i)) = Inr (A ! i)" if "i < stages" for i
    using that assms(2) [OF that] by (simp add: rk_row_def Let_def split: if_splits)
  then show ?thesis using assms(1)
    by (auto simp: rk_rows_def traverse_Inr_iff list_all2_conv_all_nth nth_enumerate_eq)
qed

lemma rk_nodes_author:
  assumes "cs \<noteq> []" and "vals cs = map (\<lambda>row. sum_list (vals row)) rows"
  shows "rk_nodes rows (Some (map author cs)) = Inr cs"
proof -
  let ?S = "map (\<lambda>row. sum_list (vals row)) rows"
  have len: "length cs = length rows" using arg_cong [OF assms(2), of length] by simp
  have eq: "num_value (cs ! i) = sum_list (vals (rows ! i))" if "i < length rows" for i
    using arg_cong [OF assms(2), of "\<lambda>l. l ! i"] that len by (simp add: vals_def)
  have "traverse (\<lambda>(actual, expected). bindR (exact_fraction (author actual))
            (\<lambda>x. raise_if (x \<noteq> expected) ValueError (Inr ()))) (zip cs ?S)
      = Inr (map (\<lambda>_. ()) (zip cs ?S))"
    by (rule traverse_map_Inr) (auto simp: set_zip eq len)
  then show ?thesis using assms(1) len
    by (simp add: rk_nodes_def rk_weights_author)
qed

lemma mk_tableau_ok:
  assumes "mk_tableau A b c name = Inr t"
  shows "tableau_ok t"
proof -
  from assms obtain weights rows nodes
    where "rk_weights b = Inr weights" and "rk_rows A (length weights) False = Inr rows"
      and "sum_list (vals weights) = 1" and "name \<noteq> Some []" and "rk_nodes rows c = Inr nodes"
      and "t = \<lparr>tab_A = rows, tab_b = weights, tab_c = nodes, tab_name = name\<rparr>"
    by (auto simp: mk_tableau_def)
  then show ?thesis
    using rk_rows_shape [of A "length weights" False rows] rk_nodes_vals [of rows c nodes]
    by (auto simp: tableau_ok_def coefficients_ok_def rk_weights_def)
qed

lemma mk_ark_tableau_ok:
  assumes "mk_ark_tableau e A b c name = Inr t"
  shows "ark_tableau_ok t \<and> ark_explicit t = e"
proof -
  from assms obtain weights rows nodes
    where "rk_weights b = Inr weights" and "rk_rows A (length weights) True = Inr rows"
      and "length weights = tab_stages e"
      and "sum_list (vals weights) = 1" and "name \<noteq> Some []" and "rk_nodes rows c = Inr nodes"
      and "t = \<lparr>ark_explicit = e, ark_A = rows, ark_b = weights, ark_c = nodes, ark_name = name\<rparr>"
    by (auto simp: mk_ark_tableau_def)
  then show ?thesis
    using rk_rows_shape [of A "length weights" True rows] rk_nodes_vals [of rows c nodes]
    by (auto simp: ark_tableau_ok_def coefficients_ok_def rk_weights_def)
qed

section \<open>Properties\<close>

text \<open>A constructed tableau is well formed and is a fixed point of construction: square
  lower-triangular rows, consistent weights and nodes equal to the row sums, and authoring its own
  normalised coefficients again gives the same tableau.\<close>

theorem tableau_construction_is_stable:
  assumes "mk_tableau A b c name = Inr t"
  shows "tableau_ok t \<and> mk_tableau (map (map author) (tab_A t)) (map author (tab_b t))
           (Some (map author (tab_c t))) (tab_name t) = Inr t"
proof -
  have ok: "tableau_ok t" using assms by (rule mk_tableau_ok)
  then have b: "tab_b t \<noteq> []" and len: "length (tab_A t) = length (tab_b t)" "length (tab_c t) = length (tab_b t)"
    and rows: "\<And>i. i < length (tab_b t) \<Longrightarrow> length (tab_A t ! i) = i + of_bool False"
    and total: "sum_list (vals (tab_b t)) = 1" and nodes: "vals (tab_c t) = map (\<lambda>row. sum_list (vals row)) (tab_A t)"
    and name: "tab_name t \<noteq> Some []"
    by (auto simp: tableau_ok_def coefficients_ok_def)
  have "tab_c t \<noteq> []" using b len(2) by auto
  note parts = rk_rows_author [OF len(1) rows] rk_nodes_author [OF this nodes]
  have "mk_tableau (map (map author) (tab_A t)) (map author (tab_b t)) (Some (map author (tab_c t))) (tab_name t) = Inr t"
    using b total name parts by (simp add: mk_tableau_def rk_weights_author del: bindR_Inr_iff)
  with ok show ?thesis by (rule conjI)
qed

definition heun_tableau :: tableau where
  "heun_tableau = \<lparr>tab_A = [[], [PyInt 1]], tab_b = [PyFrac (1/2), PyFrac (1/2)],
     tab_c = [PyInt 0, PyInt 1], tab_name = Some ''ssprk2''\<rparr>"

lemma heun_tableau_built:
  "mk_tableau [[], [AInt 1]] [AFraction (1/2), AFraction (1/2)] (Some [AInt 0, AInt 1]) (Some ''ssprk2'') = Inr heun_tableau"
  by code_simp

theorem tableau_construction_is_stable_witness:
  "mk_tableau (map (map author) (tab_A heun_tableau)) (map author (tab_b heun_tableau))
     (Some (map author (tab_c heun_tableau))) (tab_name heun_tableau) = Inr heun_tableau"
  using tableau_construction_is_stable [OF heun_tableau_built] by (rule conjunct2)

end
