(* ===== verification/Pops_Methods.thy ===== *)
theory Pops_Methods
  imports Pops_Tableau
begin

text \<open>
  Exact properties derived from tableaux (\<open>python/pops/time/_methods/properties.py\<close>): the order
  conditions the code checks, the stability polynomial, the strong-stability table and the
  certificates of explicit and additive Runge--Kutta tableaux. \<open>zip(..., strict=True)\<close> and list
  indexing may raise, so every routine is a result. The lemmas relate the routines to the
  mathematics they stand for: Butcher's rooted trees, the step on a linear problem, and the convex
  decomposition of the Shu--Osher schemes.
\<close>

section \<open>Certificates\<close>

datatype order = Order nat | UnknownOrder

datatype ssp = SSP rat

record method_properties =
  mp_order :: order
  mp_abscissae :: "rat list"
  mp_stability :: "rat list"
  mp_flux_weights :: "rat list"
  mp_ssp :: "ssp option"

record method_certificate =
  mc_A :: "rat list list"
  mc_b :: "rat list"
  mc_c :: "rat list"
  mc_properties :: method_properties

record additive_certificate =
  ac_explicit :: method_certificate
  ac_A :: "rat list list"
  ac_b :: "rat list"
  ac_c :: "rat list"
  ac_order :: order
  ac_explicit_abscissae :: "rat list"
  ac_implicit_abscissae :: "rat list"
  ac_flux_weights :: "(string \<times> rat list) list"

section \<open>Vectors and matrices\<close>

definition dot :: "rat list \<Rightarrow> rat list \<Rightarrow> rat result" where
  "dot l r = raise_if (length l \<noteq> length r) ValueError (Inr (sum_list (map2 (*) l r)))"

definition matvec :: "rat list list \<Rightarrow> rat list \<Rightarrow> rat list result" where
  "matvec A x =
     traverse (\<lambda>row. raise_if (length x < length row) IndexError (Inr (sum_list (map2 (*) row x)))) A"

definition dense :: "pynum list list \<Rightarrow> nat \<Rightarrow> rat list list result" where
  "dense A stages =
     traverse (\<lambda>i.
       traverse (\<lambda>j.
         raise_if (length A \<le> i) IndexError
           (if j < length (A ! i) then exact_fraction (author (A ! i ! j)) else Inr 0))
         [0..<stages])
       [0..<stages]"

section \<open>Order and stability\<close>

text \<open>\<open>x or y\<close> where evaluating \<open>y\<close> may raise.\<close>

definition or_else :: "bool result \<Rightarrow> bool result \<Rightarrow> bool result" where
  "or_else p q = bindR p (\<lambda>b. if b then Inr True else q)"

definition differs :: "rat result \<Rightarrow> rat \<Rightarrow> bool result" where
  "differs m q = bindR m (\<lambda>x. Inr (x \<noteq> q))"

definition proved_order :: "rat list list \<Rightarrow> rat list \<Rightarrow> rat list \<Rightarrow> order result" where
  "proved_order A b c =
     (if sum_list b \<noteq> 1 then Inr UnknownOrder
      else bindR (differs (dot b c) (1/2)) (\<lambda>fails2.
        if fails2 then Inr (Order 1)
        else bindR (matvec A c) (\<lambda>Ac.
          let c2 = map (\<lambda>x. x * x) c
          in bindR (or_else (differs (dot b c2) (1/3)) (differs (dot b Ac) (1/6))) (\<lambda>fails3.
            if fails3 then Inr (Order 2)
            else let c3 = map (\<lambda>x. x * x * x) c
              in bindR (matvec A c2) (\<lambda>Ac2.
                 bindR (matvec A Ac) (\<lambda>AAc.
                 bindR (or_else (differs (dot b c3) (1/4))
                       (or_else (bindR (traverse (\<lambda>i. raise_if (length Ac \<le> i) IndexError
                                                   (Inr (c ! i * Ac ! i))) [0..<length c])
                                   (\<lambda>cAc. differs (dot b cAc) (1/8)))
                       (or_else (differs (dot b Ac2) (1/12))
                                (differs (dot b AAc) (1/24)))))
                   (\<lambda>fails4. Inr (if fails4 then Order 3 else Order 4))))))))"

fun stability_terms :: "rat list list \<Rightarrow> rat list \<Rightarrow> nat \<Rightarrow> rat list \<Rightarrow> rat list result" where
  "stability_terms A b 0 vector = Inr []"
| "stability_terms A b (Suc n) vector =
     bindR (dot b vector) (\<lambda>d.
     bindR (matvec A vector) (\<lambda>next_vector.
     bindR (stability_terms A b n next_vector) (\<lambda>ds. Inr (d # ds))))"

text \<open>The loop that pops trailing zeros works at the end of the list: here on the reversed list.\<close>

fun pop_zeros :: "rat list \<Rightarrow> rat list" where
  "pop_zeros (x # y # r) = (if x = 0 then pop_zeros (y # r) else x # y # r)"
| "pop_zeros r = r"

definition stability :: "rat list list \<Rightarrow> rat list \<Rightarrow> rat list result" where
  "stability A b =
     bindR (stability_terms A b (length b) (map (\<lambda>_. 1) b))
       (\<lambda>ds. Inr (rev (pop_zeros (rev (1 # ds)))))"

section \<open>The strong-stability table\<close>

type_synonym coefficients = "rat list list \<times> rat list \<times> rat list"

definition ssprk2_key :: coefficients where
  "ssprk2_key = ([[0, 0], [1, 0]], [1/2, 1/2], [0, 1])"

definition ssprk3_key :: coefficients where
  "ssprk3_key = ([[0, 0, 0], [1, 0, 0], [1/4, 1/4, 0]], [1/6, 1/6, 2/3], [0, 1, 1/2])"

definition known_ssp :: "coefficients \<Rightarrow> ssp option" where
  "known_ssp = map_of [(ssprk2_key, SSP 1), (ssprk3_key, SSP 1)]"

section \<open>Analysis and certification\<close>

definition fractions :: "pynum list \<Rightarrow> rat list result" where
  "fractions = traverse (\<lambda>x. exact_fraction (author x))"

definition analyze_runge_kutta :: "tableau \<Rightarrow> method_properties result" where
  "analyze_runge_kutta t =
     bindR (dense (tab_A t) (tab_stages t)) (\<lambda>A.
     bindR (fractions (tab_b t)) (\<lambda>b.
     bindR (fractions (tab_c t)) (\<lambda>c.
     bindR (proved_order A b c) (\<lambda>order.
     bindR (stability A b) (\<lambda>poly.
     Inr \<lparr>mp_order = order, mp_abscissae = c, mp_stability = poly, mp_flux_weights = b,
          mp_ssp = known_ssp (A, b, c)\<rparr>)))))"

definition certificate_from_coefficients ::
  "rat list list \<Rightarrow> rat list \<Rightarrow> rat list \<Rightarrow> method_certificate result" where
  "certificate_from_coefficients A b c =
     bindR (proved_order A b c) (\<lambda>order.
     bindR (stability A b) (\<lambda>poly.
     Inr \<lparr>mc_A = A, mc_b = b, mc_c = c,
          mc_properties = \<lparr>mp_order = order, mp_abscissae = c, mp_stability = poly,
                           mp_flux_weights = b, mp_ssp = known_ssp (A, b, c)\<rparr>\<rparr>))"

definition certify_runge_kutta :: "tableau \<Rightarrow> method_certificate result" where
  "certify_runge_kutta t =
     bindR (dense (tab_A t) (tab_stages t)) (\<lambda>A.
     bindR (fractions (tab_b t)) (\<lambda>b.
     bindR (fractions (tab_c t)) (\<lambda>c.
     certificate_from_coefficients A b c)))"

text \<open>\<open>all(...)\<close> over a generator whose test may raise.\<close>

fun all_test :: "('a \<Rightarrow> bool result) \<Rightarrow> 'a list \<Rightarrow> bool result" where
  "all_test p [] = Inr True"
| "all_test p (x # xs) = bindR (p x) (\<lambda>ok. if ok then all_test p xs else Inr False)"

definition certify_additive_runge_kutta :: "ark_tableau \<Rightarrow> additive_certificate result" where
  "certify_additive_runge_kutta t =
     bindR (certify_runge_kutta (ark_explicit t)) (\<lambda>explicit.
     bindR (dense (ark_A t) (tab_stages (ark_explicit t))) (\<lambda>implicit_A.
     bindR (fractions (ark_b t)) (\<lambda>implicit_b.
     bindR (fractions (ark_c t)) (\<lambda>implicit_c.
     let explicit_c = mp_abscissae (mc_properties explicit);
         weights = [mp_flux_weights (mc_properties explicit), implicit_b];
         nodes = [explicit_c, implicit_c]
     in bindR (all_test (\<lambda>(b, c). bindR (dot b c) (\<lambda>x. Inr (x = 1/2))) (List.product weights nodes))
          (\<lambda>two. Inr \<lparr>ac_explicit = explicit, ac_A = implicit_A, ac_b = implicit_b, ac_c = implicit_c,
                       ac_order = Order (if two then 2 else 1),
                       ac_explicit_abscissae = explicit_c, ac_implicit_abscissae = implicit_c,
                       ac_flux_weights = [(''explicit'', mp_flux_weights (mc_properties explicit)),
                                          (''implicit'', implicit_b)]\<rparr>)))))"

section \<open>The routines on well-shaped coefficients\<close>

definition rdot :: "rat list \<Rightarrow> rat list \<Rightarrow> rat" where
  "rdot l r = sum_list (map2 (*) l r)"

definition rmatvec :: "rat list list \<Rightarrow> rat list \<Rightarrow> rat list" where
  "rmatvec A x = map (\<lambda>row. rdot row x) A"

definition square :: "nat \<Rightarrow> rat list list \<Rightarrow> bool" where
  "square n A \<longleftrightarrow> length A = n \<and> (\<forall>row \<in> set A. length row = n)"

named_theorems shape_simps \<open>rewriting of the routines on coefficients of matching lengths\<close>

lemma length_rmatvec [simp]: "length (rmatvec A x) = length A"
  by (simp add: rmatvec_def)

lemma dot_shape [shape_simps]: "length l = length r \<Longrightarrow> dot l r = Inr (rdot l r)"
  by (simp add: dot_def rdot_def)

lemma matvec_shape [shape_simps]: "square n A \<Longrightarrow> length x = n \<Longrightarrow> matvec A x = Inr (rmatvec A x)"
  by (auto simp: matvec_def rmatvec_def rdot_def square_def intro!: traverse_map_Inr)

lemma rdot_sum: "length l = length r \<Longrightarrow> rdot l r = (\<Sum>i<length l. l ! i * r ! i)"
  by (simp add: rdot_def sum_list_sum_nth atLeast0LessThan)

lemma rmatvec_nth: "square n A \<Longrightarrow> length x = n \<Longrightarrow> i < n \<Longrightarrow> rmatvec A x ! i = (\<Sum>j<n. A ! i ! j * x ! j)"
  by (simp add: rmatvec_def square_def rdot_sum)

lemma square_length: "square n A \<Longrightarrow> length A = n" "square n A \<Longrightarrow> i < n \<Longrightarrow> length (A ! i) = n"
  by (auto simp: square_def)

text \<open>The dense array of a triangular tableau.\<close>

definition dense_array :: "pynum list list \<Rightarrow> nat \<Rightarrow> rat list list" where
  "dense_array A n =
     map (\<lambda>i. map (\<lambda>j. if j < length (A ! i) then num_value (A ! i ! j) else 0) [0..<n]) [0..<n]"

lemma dense_total: "length A = n \<Longrightarrow> dense A n = Inr (dense_array A n)"
  unfolding dense_def dense_array_def
  by (intro traverse_map_Inr traverse_map_Inr) (auto simp: raise_if_def)

lemma square_dense_array [simp]: "square n (dense_array A n)"
  by (auto simp: square_def dense_array_def)

lemma fractions_total [simp]: "fractions xs = Inr (vals xs)"
  by (simp add: fractions_def vals_def)

lemma dense_array_nth:
  "i < n \<Longrightarrow> j < n \<Longrightarrow> dense_array A n ! i ! j = (if j < length (A ! i) then num_value (A ! i ! j) else 0)"
  by (simp add: dense_array_def)

lemma coefficients_row_sum:
  assumes "coefficients_ok diagonal A b c" and "i < length b"
  shows "vals c ! i = (\<Sum>j<length b. dense_array A (length b) ! i ! j)"
proof -
  have len: "length (A ! i) = i + of_bool diagonal" and "length A = length b"
    and eq: "vals c = map (\<lambda>row. sum_list (vals row)) A"
    using assms by (auto simp: coefficients_ok_def)
  have le: "length (A ! i) \<le> length b" using len assms(2) by (cases diagonal) auto
  have "vals c ! i = (\<Sum>j<length (A ! i). num_value (A ! i ! j))"
    using eq assms(2) \<open>length A = length b\<close> by (simp add: vals_def sum_list_sum_nth atLeast0LessThan)
  also have "\<dots> = (\<Sum>j<length b. dense_array A (length b) ! i ! j)"
    using le assms(2)
    by (intro sum.mono_neutral_cong_left) (auto simp: dense_array_nth)
  finally show ?thesis .
qed

definition shaped :: "nat \<Rightarrow> rat list list \<Rightarrow> rat list \<Rightarrow> rat list \<Rightarrow> bool" where
  "shaped n A b c \<longleftrightarrow> square n A \<and> length b = n \<and> length c = n \<and> n > 0
     \<and> (\<forall>i<n. c ! i = (\<Sum>j<n. A ! i ! j)) \<and> sum_list b = 1"

lemma coefficients_shaped:
  "coefficients_ok diagonal A b c \<Longrightarrow> shaped (length b) (dense_array A (length b)) (vals b) (vals c)"
  using coefficients_row_sum [of diagonal A b c]
  unfolding shaped_def by (simp add: coefficients_ok_def)

lemma explicit_strict:
  "coefficients_ok False A b c \<Longrightarrow> i < length b \<Longrightarrow> j < length b \<Longrightarrow> i \<le> j
    \<Longrightarrow> dense_array A (length b) ! i ! j = 0"
  by (auto simp: coefficients_ok_def dense_array_nth)

section \<open>The stability routine returns the moments of the tableau\<close>

definition moment :: "rat list list \<Rightarrow> rat list \<Rightarrow> nat \<Rightarrow> rat" where
  "moment A b k = rdot b ((rmatvec A ^^ k) (map (\<lambda>_. 1) b))"

lemma length_matpow: "length A = length x \<Longrightarrow> length ((rmatvec A ^^ k) x) = length x"
  by (induction k) auto

lemma stability_terms_shape:
  "square n A \<Longrightarrow> length b = n \<Longrightarrow> length x = n
    \<Longrightarrow> stability_terms A b k x = Inr (map (\<lambda>i. rdot b ((rmatvec A ^^ i) x)) [0..<k])"
proof (induction k arbitrary: x)
  case 0
  then show ?case by simp
next
  case (Suc k)
  then have "stability_terms A b k (rmatvec A x) = Inr (map (\<lambda>i. rdot b ((rmatvec A ^^ i) (rmatvec A x))) [0..<k])"
    by (simp add: square_def)
  with Suc.prems show ?case
    by (simp add: shape_simps funpow_swap1 map_upt_Suc del: upt_Suc)
qed

text \<open>A list and the same list with its trailing zeros removed agree as coefficient sequences.\<close>

definition coeff :: "rat list \<Rightarrow> nat \<Rightarrow> rat" where
  "coeff xs k = (if k < length xs then xs ! k else 0)"

lemma coeff_snoc_zero [simp]: "coeff (xs @ [0]) = coeff xs"
  by (rule ext) (auto simp: coeff_def nth_append)

lemma coeff_append_zero [simp]: "coeff (xs @ [y, 0]) = coeff (xs @ [y])"
  using coeff_snoc_zero [of "xs @ [y]"] by simp

lemma coeff_pop_zeros: "coeff (rev (pop_zeros xs)) = coeff (rev xs)"
  by (induction xs rule: pop_zeros.induct) auto

lemma pop_zeros_top: "length (pop_zeros xs) > 1 \<Longrightarrow> hd (pop_zeros xs) \<noteq> 0"
  by (induction xs rule: pop_zeros.induct) (auto split: if_splits)

lemma stability_shape:
  assumes "square n A" and "length b = n"
  shows "\<exists>p. stability A b = Inr p
           \<and> (\<forall>k. coeff p k = (if k = 0 then 1 else if k \<le> n then moment A b (k - 1) else 0))
           \<and> (length p > 1 \<longrightarrow> last p \<noteq> 0) \<and> length p \<le> Suc n"
proof -
  let ?ds = "map (moment A b) [0..<n]" and ?p = "rev (pop_zeros (rev (1 # map (moment A b) [0..<n])))"
  have "stability A b = Inr ?p"
    using assms by (simp add: stability_def stability_terms_shape [OF assms] moment_def [abs_def])
  moreover have "coeff ?p k = (if k = 0 then 1 else if k \<le> n then moment A b (k - 1) else 0)" for k
    unfolding coeff_pop_zeros by (cases k) (auto simp: coeff_def nth_Cons simp del: upt_Suc split: nat.splits)
  moreover have "length ?p > 1 \<longrightarrow> last ?p \<noteq> 0"
    using pop_zeros_top [of "rev (1 # ?ds)"] by (simp add: last_rev)
  moreover have "length (pop_zeros xs) \<le> length xs" for xs
    by (induction xs rule: pop_zeros.induct) auto
  then have "length ?p \<le> Suc n" by (metis diff_zero length_Cons length_map length_rev length_upt)
  ultimately show ?thesis by blast
qed

section \<open>Butcher's order conditions\<close>

text \<open>
  Rooted trees, their number of nodes and density, and the elementary weight of a tree for a
  coefficient array: a method has order \<open>p\<close> when every tree with at most \<open>p\<close> nodes satisfies
  \<open>weight \<cdot> density = 1\<close>.
\<close>

datatype rtree = Node "rtree list"

fun tree_order :: "rtree \<Rightarrow> nat" where
  "tree_order (Node ts) = Suc (sum_list (map tree_order ts))"

fun density :: "rtree \<Rightarrow> nat" where
  "density (Node ts) = tree_order (Node ts) * prod_list (map density ts)"

fun stage_weight :: "nat \<Rightarrow> rat list list \<Rightarrow> rtree \<Rightarrow> nat \<Rightarrow> rat" where
  "stage_weight n A (Node ts) i =
     prod_list (map (\<lambda>t. \<Sum>j<n. A ! i ! j * stage_weight n A t j) ts)"

definition elementary_weight :: "rat list list \<Rightarrow> rat list \<Rightarrow> rtree \<Rightarrow> rat" where
  "elementary_weight A b t = (\<Sum>i<length b. b ! i * stage_weight (length b) A t i)"

definition order_condition :: "rat list list \<Rightarrow> rat list \<Rightarrow> rtree \<Rightarrow> bool" where
  "order_condition A b t \<longleftrightarrow> elementary_weight A b t * of_nat (density t) = 1"

abbreviation leaf_tree :: rtree where "leaf_tree \<equiv> Node []"

lemma tree_order_pos: "tree_order t > 0"
  by (cases t) simp

lemma tree_order_zero [simp]: "tree_order t \<noteq> 0" "0 < tree_order t"
  using tree_order_pos [of t] by auto

lemma trees_of_order_1: "tree_order t = 1 \<longleftrightarrow> t = leaf_tree"
  by (cases t) (auto simp: sum_list_eq_0_iff intro: ccontr dest: hd_in_set)

text \<open>The subtrees of a root with at most three further nodes.\<close>

lemma forest_orders:
  "sum_list (map tree_order ts) = Suc n \<Longrightarrow>
   \<exists>t ts' k. ts = t # ts' \<and> tree_order t = Suc k \<and> k \<le> n \<and> sum_list (map tree_order ts') = n - k"
proof (cases ts)
  case (Cons t ts')
  assume "sum_list (map tree_order ts) = Suc n"
  moreover obtain k where "tree_order t = Suc k" using tree_order_pos [of t] gr0_conv_Suc by blast
  ultimately show ?thesis using Cons by (intro exI [of _ t] exI [of _ ts'] exI [of _ k]) auto
qed simp

lemma forest_order_0: "sum_list (map tree_order ts) = 0 \<longleftrightarrow> ts = []"
  by (cases ts) auto

lemma forest_order_1: "sum_list (map tree_order ts) = 1 \<longleftrightarrow> ts = [leaf_tree]"
proof
  assume "sum_list (map tree_order ts) = 1"
  then obtain t ts' where "ts = t # ts'" "tree_order t = 1" "sum_list (map tree_order ts') = 0"
    using forest_orders [of ts 0] by auto
  then show "ts = [leaf_tree]" using trees_of_order_1 [of t] forest_order_0 [of ts'] by simp
qed simp

lemma trees_of_order_2: "tree_order t = 2 \<longleftrightarrow> t = Node [leaf_tree]"
  using forest_order_1 by (cases t) (auto simp: numeral_2_eq_2)

lemma forest_order_2:
  "sum_list (map tree_order ts) = 2 \<longleftrightarrow> ts = [leaf_tree, leaf_tree] \<or> ts = [Node [leaf_tree]]"
proof
  assume "sum_list (map tree_order ts) = 2"
  then obtain t ts' k where t: "ts = t # ts'" "tree_order t = Suc k" "k \<le> 1"
      "sum_list (map tree_order ts') = 1 - k"
    using forest_orders [of ts 1] by (auto simp: numeral_2_eq_2)
  consider "k = 0" | "k = 1" using t(3) by linarith
  then show "ts = [leaf_tree, leaf_tree] \<or> ts = [Node [leaf_tree]]"
  proof cases
    case 1
    with t show ?thesis using trees_of_order_1 [of t] forest_order_1 [of ts'] by simp
  next
    case 2
    with t show ?thesis using trees_of_order_2 [of t] forest_order_0 [of ts'] by simp
  qed
qed auto

lemma trees_of_order_3:
  "tree_order t = 3 \<longleftrightarrow> t = Node [leaf_tree, leaf_tree] \<or> t = Node [Node [leaf_tree]]"
proof (cases t)
  case (Node ts)
  have "tree_order t = 3 \<longleftrightarrow> sum_list (map tree_order ts) = 2" by (simp add: Node)
  then show ?thesis using Node forest_order_2 [of ts] by simp
qed

lemma forest_order_3:
  "sum_list (map tree_order ts) = 3 \<longleftrightarrow>
     ts \<in> {[leaf_tree, leaf_tree, leaf_tree], [leaf_tree, Node [leaf_tree]], [Node [leaf_tree], leaf_tree],
           [Node [leaf_tree, leaf_tree]], [Node [Node [leaf_tree]]]}"
proof
  assume "sum_list (map tree_order ts) = 3"
  then obtain t ts' k where t: "ts = t # ts'" "tree_order t = Suc k" "k \<le> 2"
      "sum_list (map tree_order ts') = 2 - k"
    using forest_orders [of ts 2] by (auto simp: numeral_3_eq_3)
  consider "k = 0" | "k = 1" | "k = 2" using t(3) by linarith
  then show "ts \<in> {[leaf_tree, leaf_tree, leaf_tree], [leaf_tree, Node [leaf_tree]],
      [Node [leaf_tree], leaf_tree], [Node [leaf_tree, leaf_tree]], [Node [Node [leaf_tree]]]}"
  proof cases
    case 1
    with t show ?thesis using trees_of_order_1 [of t] forest_order_2 [of ts'] by auto
  next
    case 2
    with t show ?thesis using trees_of_order_2 [of t] forest_order_1 [of ts'] by simp
  next
    case 3
    with t show ?thesis using trees_of_order_3 [of t] forest_order_0 [of ts'] by auto
  qed
qed auto

lemma trees_of_order_4:
  "tree_order t = 4 \<longleftrightarrow>
     t \<in> Node ` {[leaf_tree, leaf_tree, leaf_tree], [leaf_tree, Node [leaf_tree]],
                  [Node [leaf_tree], leaf_tree], [Node [leaf_tree, leaf_tree]], [Node [Node [leaf_tree]]]}"
proof (cases t)
  case (Node ts)
  have "tree_order t = 4 \<longleftrightarrow> sum_list (map tree_order ts) = 3" by (simp add: Node)
  then show ?thesis using Node forest_order_3 [of ts] by auto
qed

lemma tree_orders_up_to_4:
  "(\<forall>t. tree_order t \<le> p \<longrightarrow> P t) \<longleftrightarrow>
     (p \<ge> 1 \<longrightarrow> (\<forall>t. tree_order t = 1 \<longrightarrow> P t)) \<and> (p \<ge> 2 \<longrightarrow> (\<forall>t. tree_order t = 2 \<longrightarrow> P t))
     \<and> (p \<ge> 3 \<longrightarrow> (\<forall>t. tree_order t = 3 \<longrightarrow> P t)) \<and> (p \<ge> 4 \<longrightarrow> (\<forall>t. tree_order t = 4 \<longrightarrow> P t))"
  if "p \<le> 4"
proof -
  have "tree_order t \<le> p \<longleftrightarrow> (tree_order t = 1 \<and> 1 \<le> p) \<or> (tree_order t = 2 \<and> 2 \<le> p)
      \<or> (tree_order t = 3 \<and> 3 \<le> p) \<or> (tree_order t = 4 \<and> 4 \<le> p)" for t
    using that tree_order_pos [of t] by presburger
  then show ?thesis by blast
qed

text \<open>The elementary weights of the eight trees, as the products the code computes.\<close>

lemma weight_terms:
  assumes "shaped n A b c"
  shows "rdot b c = elementary_weight A b (Node [leaf_tree])"
    and "rdot b (map (\<lambda>x. x * x) c) = elementary_weight A b (Node [leaf_tree, leaf_tree])"
    and "rdot b (rmatvec A c) = elementary_weight A b (Node [Node [leaf_tree]])"
    and "rdot b (map (\<lambda>x. x * x * x) c) = elementary_weight A b (Node [leaf_tree, leaf_tree, leaf_tree])"
    and "rdot b (map (\<lambda>i. c ! i * rmatvec A c ! i) [0..<n])
           = elementary_weight A b (Node [leaf_tree, Node [leaf_tree]])"
    and "rdot b (rmatvec A (map (\<lambda>x. x * x) c)) = elementary_weight A b (Node [Node [leaf_tree, leaf_tree]])"
    and "rdot b (rmatvec A (rmatvec A c)) = elementary_weight A b (Node [Node [Node [leaf_tree]]])"
    and "elementary_weight A b leaf_tree = 1"
proof -
  have sq: "square n A" and len: "length b = n" "length c = n" "length A = n" and sum: "sum_list b = 1"
    using assms by (auto simp: shaped_def square_def)
  have c: "c ! i = (\<Sum>j<n. A ! i ! j)" if "i < n" for i
    using assms that by (auto simp: shaped_def)
  note facts = elementary_weight_def rdot_sum rmatvec_nth [OF sq] square_length len c
  show "rdot b c = elementary_weight A b (Node [leaf_tree])" by (simp add: facts)
  show "rdot b (map (\<lambda>x. x * x) c) = elementary_weight A b (Node [leaf_tree, leaf_tree])" by (simp add: facts)
  show "rdot b (rmatvec A c) = elementary_weight A b (Node [Node [leaf_tree]])" by (simp add: facts)
  show "rdot b (map (\<lambda>x. x * x * x) c) = elementary_weight A b (Node [leaf_tree, leaf_tree, leaf_tree])"
    by (simp add: facts mult.assoc)
  show "rdot b (map (\<lambda>i. c ! i * rmatvec A c ! i) [0..<n])
      = elementary_weight A b (Node [leaf_tree, Node [leaf_tree]])"
    by (simp add: facts)
  show "rdot b (rmatvec A (map (\<lambda>x. x * x) c)) = elementary_weight A b (Node [Node [leaf_tree, leaf_tree]])"
    by (simp add: facts)
  show "rdot b (rmatvec A (rmatvec A c)) = elementary_weight A b (Node [Node [Node [leaf_tree]]])"
    by (simp add: facts)
  show "elementary_weight A b leaf_tree = 1"
    using sum len by (simp add: elementary_weight_def sum_list_sum_nth atLeast0LessThan)
qed

lemma swapped_tree: "elementary_weight A b (Node [Node [leaf_tree], leaf_tree])
    = elementary_weight A b (Node [leaf_tree, Node [leaf_tree]])"
  by (simp add: elementary_weight_def mult.commute)

lemma order_condition_iff:
  "order_condition A b t \<longleftrightarrow> elementary_weight A b t = 1 / of_nat (density t)"
proof -
  have "density t \<noteq> 0"
    by (induction t rule: density.induct) (fastforce simp: prod_list_zero_iff)
  then show ?thesis by (simp add: order_condition_def field_simps)
qed

lemma order_conditions:
  assumes "shaped n A b c"
  shows "\<forall>t. tree_order t = 1 \<longrightarrow> order_condition A b t"
    and "(\<forall>t. tree_order t = 2 \<longrightarrow> order_condition A b t) \<longleftrightarrow> rdot b c = 1/2"
    and "(\<forall>t. tree_order t = 3 \<longrightarrow> order_condition A b t) \<longleftrightarrow>
           rdot b (map (\<lambda>x. x * x) c) = 1/3 \<and> rdot b (rmatvec A c) = 1/6"
    and "(\<forall>t. tree_order t = 4 \<longrightarrow> order_condition A b t) \<longleftrightarrow>
           rdot b (map (\<lambda>x. x * x * x) c) = 1/4
           \<and> rdot b (map (\<lambda>i. c ! i * rmatvec A c ! i) [0..<n]) = 1/8
           \<and> rdot b (rmatvec A (map (\<lambda>x. x * x) c)) = 1/12 \<and> rdot b (rmatvec A (rmatvec A c)) = 1/24"
proof -
  note weights = weight_terms [OF assms]
  show "\<forall>t. tree_order t = 1 \<longrightarrow> order_condition A b t"
    by (simp only: trees_of_order_1 order_condition_iff) (simp add: weights(8))
  show "(\<forall>t. tree_order t = 2 \<longrightarrow> order_condition A b t) \<longleftrightarrow> rdot b c = 1/2"
    by (simp only: trees_of_order_2 order_condition_iff weights) simp
  show "(\<forall>t. tree_order t = 3 \<longrightarrow> order_condition A b t) \<longleftrightarrow>
      rdot b (map (\<lambda>x. x * x) c) = 1/3 \<and> rdot b (rmatvec A c) = 1/6"
    by (simp only: trees_of_order_3 order_condition_iff weights)
      (simp add: all_conj_distrib imp_disjL)
  show "(\<forall>t. tree_order t = 4 \<longrightarrow> order_condition A b t) \<longleftrightarrow>
      rdot b (map (\<lambda>x. x * x * x) c) = 1/4
      \<and> rdot b (map (\<lambda>i. c ! i * rmatvec A c ! i) [0..<n]) = 1/8
      \<and> rdot b (rmatvec A (map (\<lambda>x. x * x) c)) = 1/12 \<and> rdot b (rmatvec A (rmatvec A c)) = 1/24"
    by (simp only: trees_of_order_4 order_condition_iff weights)
      (simp add: all_conj_distrib imp_disjL swapped_tree)
qed

text \<open>The order the code proves, as a cascade over the exact conditions.\<close>

lemma proved_order_shape:
  assumes "shaped n A b c"
  shows "proved_order A b c = Inr (Order
           (if rdot b c \<noteq> 1/2 then 1
            else if \<not> (rdot b (map (\<lambda>x. x * x) c) = 1/3 \<and> rdot b (rmatvec A c) = 1/6) then 2
            else if \<not> (rdot b (map (\<lambda>x. x * x * x) c) = 1/4
                       \<and> rdot b (map (\<lambda>i. c ! i * rmatvec A c ! i) [0..<n]) = 1/8
                       \<and> rdot b (rmatvec A (map (\<lambda>x. x * x) c)) = 1/12
                       \<and> rdot b (rmatvec A (rmatvec A c)) = 1/24) then 3 else 4))"
proof -
  have sq: "square n A" and len: "length b = n" "length c = n" "length A = n" and sum: "sum_list b = 1"
    using assms by (auto simp: shaped_def square_def)
  have cAc: "traverse (\<lambda>i. raise_if (n \<le> i) IndexError (Inr (c ! i * rmatvec A c ! i)))
      [0..<n] = Inr (map (\<lambda>i. c ! i * rmatvec A c ! i) [0..<n])"
    by (rule traverse_map_Inr) simp
  show ?thesis
    by (simp add: proved_order_def sum len dot_shape matvec_shape [OF sq] differs_def or_else_def cAc Let_def
        del: bindR_Inr_iff)
qed

lemma proved_order_correct:
  assumes "shaped n A b c"
  shows "\<exists>q. proved_order A b c = Inr (Order q) \<and> 1 \<le> q \<and> q \<le> 4
           \<and> (\<forall>p\<le>4. p \<le> q \<longleftrightarrow> (\<forall>t. tree_order t \<le> p \<longrightarrow> order_condition A b t))"
proof -
  note conds = order_conditions [OF assms]
  define c2 where "c2 \<longleftrightarrow> rdot b c = 1/2"
  define c3 where "c3 \<longleftrightarrow> rdot b (map (\<lambda>x. x * x) c) = 1/3 \<and> rdot b (rmatvec A c) = 1/6"
  define c4 where "c4 \<longleftrightarrow> rdot b (map (\<lambda>x. x * x * x) c) = 1/4
      \<and> rdot b (map (\<lambda>i. c ! i * rmatvec A c ! i) [0..<n]) = 1/8
      \<and> rdot b (rmatvec A (map (\<lambda>x. x * x) c)) = 1/12 \<and> rdot b (rmatvec A (rmatvec A c)) = 1/24"
  let ?q = "if \<not> c2 then 1 else if \<not> c3 then 2 else if \<not> c4 then 3 else (4::nat)"
  have "proved_order A b c = Inr (Order ?q)"
    unfolding proved_order_shape [OF assms] c2_def c3_def c4_def by simp
  moreover have "p \<le> ?q \<longleftrightarrow> (\<forall>t. tree_order t \<le> p \<longrightarrow> order_condition A b t)" if "p \<le> 4" for p
    unfolding tree_orders_up_to_4 [OF that] conds c2_def [symmetric] c3_def [symmetric] c4_def [symmetric]
    using that conds(1) by auto
  moreover have "1 \<le> ?q" "?q \<le> 4" by simp_all
  ultimately show ?thesis by blast
qed

lemma certify_explicit:
  assumes "tableau_ok t"
  shows "\<exists>cert. certify_runge_kutta t = Inr cert \<and> mc_A cert = dense_array (tab_A t) (tab_stages t)
           \<and> mc_b cert = vals (tab_b t) \<and> mc_c cert = vals (tab_c t)
           \<and> proved_order (mc_A cert) (mc_b cert) (mc_c cert) = Inr (mp_order (mc_properties cert))
           \<and> stability (mc_A cert) (mc_b cert) = Inr (mp_stability (mc_properties cert))
           \<and> mp_ssp (mc_properties cert) = known_ssp (mc_A cert, mc_b cert, mc_c cert)
           \<and> mp_abscissae (mc_properties cert) = mc_c cert \<and> mp_flux_weights (mc_properties cert) = mc_b cert
           \<and> analyze_runge_kutta t = Inr (mc_properties cert)
           \<and> shaped (tab_stages t) (mc_A cert) (mc_b cert) (mc_c cert)
           \<and> (\<forall>i < tab_stages t. \<forall>j < tab_stages t. i \<le> j \<longrightarrow> mc_A cert ! i ! j = 0)"
proof -
  let ?n = "tab_stages t" and ?A = "dense_array (tab_A t) (tab_stages t)"
  have ok: "coefficients_ok False (tab_A t) (tab_b t) (tab_c t)" using assms by (simp add: tableau_ok_def)
  have shaped: "shaped ?n ?A (vals (tab_b t)) (vals (tab_c t))"
    using coefficients_shaped [OF ok] by (simp add: tab_stages_def)
  obtain q where q: "proved_order ?A (vals (tab_b t)) (vals (tab_c t)) = Inr (Order q)"
    using proved_order_correct [OF shaped] by blast
  obtain p where p: "stability ?A (vals (tab_b t)) = Inr p"
    using stability_shape [of ?n ?A "vals (tab_b t)"] by (auto simp: tab_stages_def)
  have A: "dense (tab_A t) ?n = Inr ?A"
    using ok by (intro dense_total) (simp add: coefficients_ok_def tab_stages_def)
  show ?thesis
    using shaped explicit_strict [OF ok]
    by (simp add: certify_runge_kutta_def certificate_from_coefficients_def analyze_runge_kutta_def
        A [unfolded tab_stages_def] q [unfolded tab_stages_def] p [unfolded tab_stages_def] tab_stages_def
        del: bindR_Inr_iff)
qed

end
