(* ===== verification/Pops_RK_Steps.thy ===== *)
theory Pops_RK_Steps
  imports Pops_Methods Complex_Main
begin

text \<open>
  What a coefficient array means: the explicit Runge--Kutta step it describes over a real vector
  space, as a reference definition, and the theorems that tie the certificates of
  \<open>python/pops/time/_methods/properties.py\<close> to that step: proved order against the rooted-tree
  conditions, stability polynomial against the step of a linear rate, strong-stability certificate
  against the convex decomposition.
\<close>

section \<open>The reference step\<close>

definition combine :: "rat list \<Rightarrow> 'v::real_vector list \<Rightarrow> 'v" where
  "combine row ks = sum_list (map2 (\<lambda>a k. of_rat a *\<^sub>R k) row ks)"

fun rk_rates :: "('v::real_vector \<Rightarrow> 'v) \<Rightarrow> real \<Rightarrow> 'v \<Rightarrow> rat list list \<Rightarrow> 'v list \<Rightarrow> 'v list" where
  "rk_rates f h y [] ks = ks"
| "rk_rates f h y (row # A) ks = rk_rates f h y A (ks @ [f (y + h *\<^sub>R combine row ks)])"

definition rk_step ::
  "('v::real_vector \<Rightarrow> 'v) \<Rightarrow> real \<Rightarrow> rat list list \<Rightarrow> rat list \<Rightarrow> 'v \<Rightarrow> 'v" where
  "rk_step f h A b y = y + h *\<^sub>R combine b (rk_rates f h y A [])"

lemma combine_sum:
  "length row \<ge> length ks \<Longrightarrow> combine row ks = (\<Sum>j<length ks. of_rat (row ! j) *\<^sub>R ks ! j)"
  by (simp add: combine_def sum_list_sum_nth atLeast0LessThan min_def)

lemma rk_rates_length: "length (rk_rates f h y A ks) = length ks + length A"
  by (induction A arbitrary: ks) auto

lemma rk_rates_prefix: "i < length ks \<Longrightarrow> rk_rates f h y A ks ! i = ks ! i"
  by (induction A arbitrary: ks) (auto simp: nth_append)

lemma rk_rates_take: "take (length ks) (rk_rates f h y A ks) = ks"
  by (rule nth_equalityI) (auto simp: rk_rates_length rk_rates_prefix)

lemma rk_rates_nth:
  "i < length A \<Longrightarrow> rk_rates f h y A ks ! (length ks + i)
     = f (y + h *\<^sub>R combine (A ! i) (take (length ks + i) (rk_rates f h y A ks)))"
proof (induction A arbitrary: ks i)
  case Nil
  then show ?case by simp
next
  case (Cons row A)
  let ?ks = "ks @ [f (y + h *\<^sub>R combine row ks)]"
  show ?case
  proof (cases i)
    case 0
    have "take (length ks) (rk_rates f h y A ?ks) = ks"
      using arg_cong [OF rk_rates_take [of ?ks f h y A], of "take (length ks)"] by (simp add: min_def)
    then show ?thesis using 0 by (simp add: rk_rates_prefix nth_append)
  next
    case (Suc m)
    then show ?thesis using Cons.IH [of m ?ks] Cons.prems by simp
  qed
qed

text \<open>The stages of a square, strictly lower triangular array, as sums over all columns.\<close>

definition strict_lower :: "nat \<Rightarrow> rat list list \<Rightarrow> bool" where
  "strict_lower n A \<longleftrightarrow> square n A \<and> (\<forall>i<n. \<forall>j<n. i \<le> j \<longrightarrow> A ! i ! j = 0)"

lemma rk_rates_eqn:
  assumes "strict_lower n A" and "i < n"
  shows "rk_rates f h y A [] ! i
       = f (y + h *\<^sub>R (\<Sum>j<n. of_rat (A ! i ! j) *\<^sub>R rk_rates f h y A [] ! j))"
proof -
  let ?K = "rk_rates f h y A []"
  have sq: "square n A" using assms by (simp add: strict_lower_def)
  have len: "length ?K = n" using sq by (simp add: rk_rates_length square_def)
  have "combine (A ! i) (take i ?K) = (\<Sum>j<i. of_rat (A ! i ! j) *\<^sub>R ?K ! j)"
    using assms(2) len sq by (simp add: combine_sum square_length)
  also have "\<dots> = (\<Sum>j<n. of_rat (A ! i ! j) *\<^sub>R ?K ! j)"
    using assms by (intro sum.mono_neutral_left) (auto simp: strict_lower_def)
  finally show ?thesis
    using rk_rates_nth [of i A f h y "[]"] assms(2) sq by (simp add: square_length)
qed

lemma rk_step_sum:
  assumes "square n A" and "length b = n"
  shows "rk_step f h A b y = y + h *\<^sub>R (\<Sum>i<n. of_rat (b ! i) *\<^sub>R rk_rates f h y A [] ! i)"
  using assms by (simp add: rk_step_def combine_sum rk_rates_length square_length)

text \<open>A strictly lower triangular system has exactly one solution.\<close>

lemma rk_rates_unique:
  assumes lower: "strict_lower n A" and "length K = n"
    and eqn: "\<And>i. i < n \<Longrightarrow> K ! i = f (y + h *\<^sub>R (\<Sum>j<n. of_rat (A ! i ! j) *\<^sub>R K ! j))"
  shows "rk_rates f h y A [] = K"
proof (rule nth_equalityI)
  have sq: "square n A" using lower by (simp add: strict_lower_def)
  show len: "length (rk_rates f h y A []) = length K"
    using assms(2) sq by (simp add: rk_rates_length square_length)
  fix i
  assume "i < length (rk_rates f h y A [])"
  then have "i < n" using len assms(2) by simp
  then show "rk_rates f h y A [] ! i = K ! i"
  proof (induction i rule: less_induct)
    case (less i)
    have "of_rat (A ! i ! j) *\<^sub>R rk_rates f h y A [] ! j = of_rat (A ! i ! j) *\<^sub>R K ! j" if "j < n" for j
      using less lower that by (cases "j < i") (auto simp: strict_lower_def)
    then have "(\<Sum>j<n. of_rat (A ! i ! j) *\<^sub>R rk_rates f h y A [] ! j)
        = (\<Sum>j<n. of_rat (A ! i ! j) *\<^sub>R K ! j)"
      by (intro sum.cong) auto
    then show ?case using rk_rates_eqn [OF lower less.prems, of f h y] eqn [OF less.prems] by simp
  qed
qed

section \<open>Linear rates: the step is the stability polynomial\<close>

lemma power_vector_nth:
  assumes "square n A" and "length x = n" and "i < n"
  shows "(rmatvec A ^^ Suc k) x ! i = (\<Sum>j<n. A ! i ! j * (rmatvec A ^^ k) x ! j)"
  using assms by (simp add: rmatvec_nth length_matpow square_length)

lemma power_vector_zero:
  assumes "strict_lower n A" and "length x = n"
  shows "i < n \<Longrightarrow> i < k \<Longrightarrow> (rmatvec A ^^ k) x ! i = 0"
proof (induction k arbitrary: i)
  case 0
  then show ?case by simp
next
  case (Suc k)
  have sq: "square n A" using assms by (simp add: strict_lower_def)
  have "A ! i ! j * (rmatvec A ^^ k) x ! j = 0" if "j < n" for j
    using Suc that assms by (cases "i \<le> j") (auto simp: strict_lower_def)
  then show ?case
    unfolding power_vector_nth [OF sq assms(2) Suc.prems(1)] by (intro sum.neutral) auto
qed

lemma linear_funpow_scale:
  assumes "linear L"
  shows "L ((L ^^ k) (y :: 'v::real_vector)) = (L ^^ Suc k) y" and "L (c *\<^sub>R v) = c *\<^sub>R L v"
    and "L (\<Sum>i\<in>S. g i) = (\<Sum>i\<in>S. L (g i))" and "L (v + w) = L v + L w"
  using assms by (auto simp: linear_sum linear_scale linear_add)

lemma linear_rates:
  assumes lin: "linear L" and lower: "strict_lower n A" and "length ones = n"
    and ones: "\<And>i. i < n \<Longrightarrow> ones ! i = 1" and "i < n"
  shows "rk_rates L h y A [] ! i
       = (\<Sum>k<n. (of_rat ((rmatvec A ^^ k) ones ! i) * h ^ k) *\<^sub>R (L ^^ Suc k) y)"
proof -
  define V where "V k i = (rmatvec A ^^ k) ones ! i" for k i
  define K where "K = map (\<lambda>i. \<Sum>k<n. (of_rat (V k i) * h ^ k) *\<^sub>R (L ^^ Suc k) y) [0..<n]"
  have sq: "square n A" using lower by (simp add: strict_lower_def)
  have V_0: "V 0 i = 1" if "i < n" for i using ones [OF that] by (simp add: V_def)
  have next_V: "V (Suc k) i = (\<Sum>j<n. A ! i ! j * V k j)" if "i < n" for k i
    using power_vector_nth [OF sq assms(3) that] by (simp only: V_def)
  have "K ! i = L (y + h *\<^sub>R (\<Sum>j<n. of_rat (A ! i ! j) *\<^sub>R K ! j))" if i: "i < n" for i
  proof -
    have "(\<Sum>j<n. of_rat (A ! i ! j) *\<^sub>R K ! j)
        = (\<Sum>j<n. \<Sum>k<n. (of_rat (A ! i ! j * V k j) * h ^ k) *\<^sub>R (L ^^ Suc k) y)"
      by (intro sum.cong) (auto simp: K_def scaleR_sum_right of_rat_mult mult.assoc)
    also have "\<dots> = (\<Sum>k<n. (\<Sum>j<n. (of_rat (A ! i ! j * V k j) * h ^ k) *\<^sub>R (L ^^ Suc k) y))"
      by (rule sum.swap)
    also have "\<dots> = (\<Sum>k<n. (of_rat (V (Suc k) i) * h ^ k) *\<^sub>R (L ^^ Suc k) y)"
      by (intro sum.cong) (simp_all add: next_V i of_rat_sum scaleR_sum_left sum_distrib_right)
    finally have "h *\<^sub>R (\<Sum>j<n. of_rat (A ! i ! j) *\<^sub>R K ! j)
        = (\<Sum>k<n. (of_rat (V (Suc k) i) * h ^ Suc k) *\<^sub>R (L ^^ Suc k) y)"
      by (simp add: scaleR_sum_right mult_ac)
    also have "y + \<dots> = (\<Sum>k<Suc n. (of_rat (V k i) * h ^ k) *\<^sub>R (L ^^ k) y)"
      unfolding sum.lessThan_Suc_shift by (simp add: V_0 i del: funpow.simps(2))
    also have "\<dots> = (\<Sum>k<n. (of_rat (V k i) * h ^ k) *\<^sub>R (L ^^ k) y)"
      using power_vector_zero [OF lower assms(3) i, of n] i by (simp add: V_def)
    finally show ?thesis using i by (simp add: K_def linear_funpow_scale [OF lin] del: funpow.simps(2))
  qed
  then have "rk_rates L h y A [] = K" by (intro rk_rates_unique [OF lower]) (auto simp: K_def)
  then show ?thesis using \<open>i < n\<close> by (simp add: K_def V_def)
qed

lemma linear_step:
  assumes lin: "linear L" and lower: "strict_lower n A" and b: "length b = n" and n: "n > 0"
    and stab: "stability A b = Inr p"
  shows "rk_step L h A b y = (\<Sum>k<length p. (of_rat (p ! k) * h ^ k) *\<^sub>R (L ^^ k) y)"
proof -
  have sq: "square n A" using lower by (simp add: strict_lower_def)
  let ?V = "\<lambda>k i. (rmatvec A ^^ k) (map (\<lambda>_. 1) b) ! i"
  have p: "coeff p k = (if k = 0 then 1 else if k \<le> n then moment A b (k - 1) else 0)" for k
    using stability_shape [OF sq b] stab by auto
  have plen: "length p \<le> Suc n"
    using stability_shape [OF sq b] stab by auto
  have mom: "moment A b k = (\<Sum>i<n. b ! i * ?V k i)" for k
    using b sq by (simp add: moment_def rdot_sum length_matpow square_length)
  have "(\<Sum>i<n. of_rat (b ! i) *\<^sub>R rk_rates L h y A [] ! i)
      = (\<Sum>i<n. \<Sum>k<n. (of_rat (b ! i * ?V k i) * h ^ k) *\<^sub>R (L ^^ Suc k) y)"
    using b by (intro sum.cong)
      (auto simp: linear_rates [OF lin lower, of "map (\<lambda>_. 1) b"] scaleR_sum_right of_rat_mult mult.assoc)
  also have "\<dots> = (\<Sum>k<n. \<Sum>i<n. (of_rat (b ! i * ?V k i) * h ^ k) *\<^sub>R (L ^^ Suc k) y)"
    by (rule sum.swap)
  also have "\<dots> = (\<Sum>k<n. (of_rat (moment A b k) * h ^ k) *\<^sub>R (L ^^ Suc k) y)"
    by (intro sum.cong) (simp_all add: mom of_rat_sum scaleR_sum_left sum_distrib_right)
  finally have "rk_step L h A b y
      = y + (\<Sum>k<n. (of_rat (moment A b k) * h ^ Suc k) *\<^sub>R (L ^^ Suc k) y)"
    by (simp add: rk_step_sum [OF sq b] scaleR_sum_right mult_ac)
  also have "\<dots> = (\<Sum>k<Suc n. (of_rat (coeff p k) * h ^ k) *\<^sub>R (L ^^ k) y)"
    unfolding sum.lessThan_Suc_shift by (simp add: p del: funpow.simps(2))
  also have "\<dots> = (\<Sum>k<length p. (of_rat (coeff p k) * h ^ k) *\<^sub>R (L ^^ k) y)"
    using plen by (intro sum.mono_neutral_right) (auto simp: coeff_def)
  finally show ?thesis by (simp add: coeff_def)
qed

section \<open>Properties of certified explicit tableaux\<close>

text \<open>The facts of a certificate that the properties below use, for a well-formed tableau.\<close>

lemma certificate_facts:
  assumes "tableau_ok t" and "certify_runge_kutta t = Inr cert"
  shows "shaped (tab_stages t) (mc_A cert) (mc_b cert) (mc_c cert)"
    and "strict_lower (tab_stages t) (mc_A cert)" and "length (mc_b cert) = tab_stages t"
    and "tab_stages t > 0"
    and "proved_order (mc_A cert) (mc_b cert) (mc_c cert) = Inr (mp_order (mc_properties cert))"
    and "stability (mc_A cert) (mc_b cert) = Inr (mp_stability (mc_properties cert))"
    and "mp_ssp (mc_properties cert) = known_ssp (mc_A cert, mc_b cert, mc_c cert)"
  using certify_explicit [OF assms(1)] assms(2) by (auto simp: strict_lower_def shaped_def)

text \<open>Claim C28. The order a certificate reports is the Butcher order of the tableau, up to four:
  an order \<open>p \<le> 4\<close> is below the reported one exactly when every rooted tree with at most \<open>p\<close> nodes
  satisfies its order condition, and the certifier never raises on a constructed tableau.\<close>

theorem certified_order_is_butcher_order:
  assumes "mk_tableau A b c name = Inr t"
  shows "\<exists>cert q. certify_runge_kutta t = Inr cert \<and> mp_order (mc_properties cert) = Order q
           \<and> 1 \<le> q \<and> q \<le> 4
           \<and> (\<forall>p\<le>4. p \<le> q \<longleftrightarrow>
                (\<forall>\<tau>. tree_order \<tau> \<le> p \<longrightarrow>
                   elementary_weight (mc_A cert) (mc_b cert) \<tau> * of_nat (density \<tau>) = 1))"
proof -
  have ok: "tableau_ok t" using assms by (rule mk_tableau_ok)
  obtain cert where cert: "certify_runge_kutta t = Inr cert" using certify_explicit [OF ok] by blast
  note facts = certificate_facts [OF ok cert]
  show ?thesis
    using proved_order_correct [OF facts(1)] facts(5) cert by (auto simp: order_condition_def)
qed

text \<open>On a linear rate the step of a constructed tableau is the certificate's stability
  polynomial, applied to the operator: exact for every linear operator, step size and state.\<close>

theorem stability_polynomial_is_step:
  fixes y :: "'v::real_vector"
  assumes "mk_tableau A b c name = Inr t" and "certify_runge_kutta t = Inr cert" and "linear L"
  shows "rk_step L h (mc_A cert) (mc_b cert) y
       = (\<Sum>k<length (mp_stability (mc_properties cert)).
            (of_rat (mp_stability (mc_properties cert) ! k) * h ^ k) *\<^sub>R (L ^^ k) y)"
  using certificate_facts [OF mk_tableau_ok [OF assms(1)] assms(2)] assms(3) by (intro linear_step) auto

text \<open>The stability coefficients a proved order fixes: those of the exponential.\<close>

lemma moments_of_order:
  assumes "shaped n A b c" and "proved_order A b c = Inr (Order q)" and "k \<le> q" and "1 \<le> k"
  shows "moment A b (k - 1) = 1 / fact k"
proof -
  have sq: "square n A" and len: "length b = n" "length c = n" and sum: "sum_list b = 1"
    using assms(1) by (auto simp: shaped_def)
  have "rmatvec A (map (\<lambda>_. 1) b) = c"
    using assms(1) by (intro nth_equalityI) (auto simp: rmatvec_nth [OF sq] shaped_def square_def)
  then have m: "moment A b 0 = 1" "moment A b 1 = rdot b c" "moment A b 2 = rdot b (rmatvec A c)"
      "moment A b 3 = rdot b (rmatvec A (rmatvec A c))"
    using sum by (simp_all add: moment_def numeral_2_eq_2 numeral_3_eq_3 rdot_sum sum_list_sum_nth
        atLeast0LessThan)
  have q: "q \<le> 4" "2 \<le> q \<Longrightarrow> rdot b c = 1/2" "3 \<le> q \<Longrightarrow> rdot b (rmatvec A c) = 1/6"
      "4 \<le> q \<Longrightarrow> rdot b (rmatvec A (rmatvec A c)) = 1/24"
    using assms(2) unfolding proved_order_shape [OF assms(1)] by (auto split: if_splits)
  consider "k = 1" | "k = 2" | "k = 3" | "k = 4" using assms(3,4) q(1) by linarith
  then show ?thesis using m q assms(3) by cases (auto simp: fact_numeral)
qed

text \<open>A certificate of order \<open>q\<close> carries a stability polynomial that starts with the first
  \<open>q + 1\<close> coefficients of the exponential series, none of them removed by the trimming loop.\<close>

theorem certified_order_fixes_stability:
  assumes "mk_tableau A b c name = Inr t" and "certify_runge_kutta t = Inr cert"
    and "mp_order (mc_properties cert) = Order q" and "k \<le> q"
  shows "k < length (mp_stability (mc_properties cert))
       \<and> mp_stability (mc_properties cert) ! k = 1 / fact k"
proof -
  let ?A = "mc_A cert" and ?b = "mc_b cert" and ?p = "mp_stability (mc_properties cert)"
  note facts = certificate_facts [OF mk_tableau_ok [OF assms(1)] assms(2)]
  have sq: "square (tab_stages t) ?A" using facts(1) by (simp add: shaped_def)
  have order: "proved_order ?A ?b (mc_c cert) = Inr (Order q)" using facts(5) assms(3) by simp
  have nil: "moment ?A ?b j = 0" if "tab_stages t \<le> j" for j
  proof -
    have "(rmatvec ?A ^^ j) (map (\<lambda>_. 1) ?b) ! i = 0" if "i < tab_stages t" for i
      using power_vector_zero [OF facts(2), of "map (\<lambda>_. 1) ?b" i j] facts(3) that \<open>tab_stages t \<le> j\<close>
      by simp
    then show ?thesis
      using facts(3) sq by (simp add: moment_def rdot_sum length_matpow square_length)
  qed
  have "coeff ?p k = 1 / fact k"
  proof (cases k)
    case (Suc j)
    have m: "moment ?A ?b j = 1 / fact k"
      using moments_of_order [OF facts(1) order assms(4)] Suc by simp
    then have "k \<le> tab_stages t" using nil [of j] Suc by (cases "tab_stages t \<le> j") auto
    then show ?thesis using stability_shape [OF sq facts(3)] facts(6) m Suc by auto
  qed (use stability_shape [OF sq facts(3)] facts(6) in auto)
  then show ?thesis by (auto simp: coeff_def split: if_splits)
qed

section \<open>Strong stability\<close>

text \<open>
  What the strong-stability coefficient promises: a functional that is convex and that no forward
  Euler step of size at most \<open>\<tau>\<close> increases is not increased by the method with step \<open>C \<cdot> \<tau>\<close>.
\<close>

definition convex_functional :: "('v::real_vector \<Rightarrow> real) \<Rightarrow> bool" where
  "convex_functional g \<longleftrightarrow>
     (\<forall>u v \<theta>. 0 \<le> \<theta> \<longrightarrow> \<theta> \<le> 1 \<longrightarrow> g (\<theta> *\<^sub>R u + (1 - \<theta>) *\<^sub>R v) \<le> \<theta> * g u + (1 - \<theta>) * g v)"

definition euler_stable :: "('v::real_vector \<Rightarrow> 'v) \<Rightarrow> ('v \<Rightarrow> real) \<Rightarrow> real \<Rightarrow> bool" where
  "euler_stable f g \<tau> \<longleftrightarrow> (\<forall>u \<epsilon>. 0 \<le> \<epsilon> \<longrightarrow> \<epsilon> \<le> \<tau> \<longrightarrow> g (u + \<epsilon> *\<^sub>R f u) \<le> g u)"

lemma convex_mix:
  "convex_functional g \<Longrightarrow> 0 \<le> \<theta> \<Longrightarrow> \<theta> \<le> 1 \<Longrightarrow> g u \<le> m \<Longrightarrow> g v \<le> m
    \<Longrightarrow> g (\<theta> *\<^sub>R u + (1 - \<theta>) *\<^sub>R v) \<le> m"
proof -
  assume g: "convex_functional g" "0 \<le> \<theta>" "\<theta> \<le> 1" and m: "g u \<le> m" "g v \<le> m"
  have "g (\<theta> *\<^sub>R u + (1 - \<theta>) *\<^sub>R v) \<le> \<theta> * g u + (1 - \<theta>) * g v"
    using g by (simp add: convex_functional_def)
  also have "\<dots> \<le> \<theta> * m + (1 - \<theta>) * m" using g m by (intro add_mono mult_left_mono) auto
  finally show ?thesis by (simp add: algebra_simps)
qed

text \<open>The convex decompositions of Shu and Osher.\<close>

lemma ssprk2_step:
  "rk_step f h [[0, 0], [1, 0]] [1/2, 1/2] y
     = (1/2) *\<^sub>R y + (1 - 1/2) *\<^sub>R (let u = y + h *\<^sub>R f y in u + h *\<^sub>R f u)"
  by (simp add: rk_step_def combine_def of_rat_divide Let_def algebra_simps flip: scaleR_add_left)

lemma ssprk3_step:
  "rk_step f h [[0, 0, 0], [1, 0, 0], [1/4, 1/4, 0]] [1/6, 1/6, 2/3] y
     = (1/3) *\<^sub>R y + (1 - 1/3) *\<^sub>R
         (let u = y + h *\<^sub>R f y; v = (3/4) *\<^sub>R y + (1 - 3/4) *\<^sub>R (u + h *\<^sub>R f u) in v + h *\<^sub>R f v)"
proof -
  have quarter: "(1/4) *\<^sub>R y + (a + ((3/4) *\<^sub>R y + w)) = y + (a + w)" for a w
  proof -
    have "(1/4) *\<^sub>R y + (a + ((3/4) *\<^sub>R y + w)) = ((1/4) *\<^sub>R y + (3/4) *\<^sub>R y) + (a + w)"
      by (simp add: algebra_simps)
    then show ?thesis by (simp flip: scaleR_add_left)
  qed
  have sixths: "(1/2) *\<^sub>R y + ((1/3) *\<^sub>R y + ((1/6) *\<^sub>R y + w)) = y + w" for w
    by (simp flip: add.assoc scaleR_add_left)
  show ?thesis
    by (simp add: rk_step_def combine_def of_rat_divide Let_def algebra_simps quarter sixths
        flip: scaleR_add_left)
qed

lemma known_ssp_Some:
  "known_ssp (A, b, c) = Some (SSP C) \<longleftrightarrow> C = 1 \<and> ((A, b, c) = ssprk2_key \<or> (A, b, c) = ssprk3_key)"
  by (auto simp: known_ssp_def)

text \<open>Claim C34. The strong-stability certificate keeps its promise: when the table attaches the
  coefficient \<open>C\<close>, no convex functional that forward Euler steps up to \<open>\<tau>\<close> keep from growing grows
  over a step of the method of size at most \<open>C \<cdot> \<tau>\<close>.\<close>

theorem ssp_certificate_sound:
  fixes y :: "'v::real_vector"
  assumes "certify_runge_kutta t = Inr cert" and "tableau_ok t"
    and "mp_ssp (mc_properties cert) = Some (SSP C)"
    and g: "convex_functional g" "euler_stable f g \<tau>" and h: "0 \<le> h" "h \<le> of_rat C * \<tau>"
  shows "g (rk_step f h (mc_A cert) (mc_b cert) y) \<le> g y"
proof -
  have "known_ssp (mc_A cert, mc_b cert, mc_c cert) = Some (SSP C)"
    using certificate_facts(7) [OF assms(2,1)] assms(3) by simp
  then have key: "C = 1" "(mc_A cert, mc_b cert, mc_c cert) = ssprk2_key
      \<or> (mc_A cert, mc_b cert, mc_c cert) = ssprk3_key"
    by (simp_all add: known_ssp_Some)
  have fe: "g (u + h *\<^sub>R f u) \<le> g u" for u using g(2) h key(1) by (simp add: euler_stable_def)
  have fe2: "g (u + h *\<^sub>R f u + h *\<^sub>R f (u + h *\<^sub>R f u)) \<le> g u" for u
    using fe order_trans by blast
  note mix = convex_mix [OF g(1)]
  from key(2) show ?thesis
  proof
    assume "(mc_A cert, mc_b cert, mc_c cert) = ssprk2_key"
    then have k: "mc_A cert = [[0, 0], [1, 0]]" "mc_b cert = [1/2, 1/2]" by (simp_all add: ssprk2_key_def)
    show ?thesis unfolding k ssprk2_step Let_def by (rule mix) (use fe2 in auto)
  next
    assume "(mc_A cert, mc_b cert, mc_c cert) = ssprk3_key"
    then have k: "mc_A cert = [[0, 0, 0], [1, 0, 0], [1/4, 1/4, 0]]" "mc_b cert = [1/6, 1/6, 2/3]"
      by (simp_all add: ssprk3_key_def)
    define w where "w = (3/4) *\<^sub>R y + (1 - 3/4) *\<^sub>R (y + h *\<^sub>R f y + h *\<^sub>R f (y + h *\<^sub>R f y))"
    have "g w \<le> g y" unfolding w_def by (rule mix) (use fe2 in auto)
    then have "g (w + h *\<^sub>R f w) \<le> g y" using fe order_trans by blast
    then show ?thesis
      unfolding k ssprk3_step Let_def w_def [symmetric] by (intro mix) auto
  qed
qed

section \<open>Additive methods\<close>

text \<open>Two-coloured trees with at most two nodes: the colour of the weights and of the inner array.\<close>

datatype partition = Explicit | Implicit

fun part :: "partition \<Rightarrow> 'a \<Rightarrow> 'a \<Rightarrow> 'a" where
  "part Explicit e i = e"
| "part Implicit e i = i"

definition coloured_order_two :: "additive_certificate \<Rightarrow> bool" where
  "coloured_order_two cert \<longleftrightarrow>
     (\<forall>\<kappa> \<mu>. elementary_weight (part \<mu> (mc_A (ac_explicit cert)) (ac_A cert))
                             (part \<kappa> (mc_b (ac_explicit cert)) (ac_b cert)) (Node [leaf_tree]) = 1/2)"

lemma all_partition: "(\<forall>p. P p) \<longleftrightarrow> P Explicit \<and> P Implicit"
  by (metis partition.exhaust)

lemma all_test_pure: "all_test (\<lambda>x. Inr (p x)) xs = Inr (\<forall>x \<in> set xs. p x)"
  by (induction xs) auto

lemma all_test_cong: "(\<And>x. x \<in> set xs \<Longrightarrow> p x = q x) \<Longrightarrow> all_test p xs = all_test q xs"
  by (induction xs) (auto intro!: bindR_cong)

lemma weight_two:
  assumes "square n A" and "length b = n" and "length c = n" and "\<And>i. i < n \<Longrightarrow> c ! i = (\<Sum>j<n. A ! i ! j)"
  shows "rdot b c = elementary_weight A b (Node [leaf_tree])"
  using assms by (simp add: elementary_weight_def rdot_sum)

text \<open>The additive certificate claims order two exactly when the four two-coloured trees
  with two nodes satisfy their conditions, and order one otherwise.\<close>

theorem additive_certificate_order:
  assumes "mk_tableau eA eb ec ename = Inr e" and "mk_ark_tableau e A b c name = Inr t"
  shows "\<exists>cert. certify_additive_runge_kutta t = Inr cert
           \<and> ac_order cert = Order (if coloured_order_two cert then 2 else 1)"
proof -
  let ?n = "tab_stages e" and ?iA = "dense_array (ark_A t) (tab_stages e)"
  have ok: "tableau_ok e" "ark_tableau_ok t" and e: "ark_explicit t = e"
    using mk_tableau_ok [OF assms(1)] mk_ark_tableau_ok [OF assms(2)] by auto
  obtain cert where cert: "certify_runge_kutta e = Inr cert" using certify_explicit [OF ok(1)] by blast
  have ecert: "mc_b cert = vals (tab_b e)" "mp_abscissae (mc_properties cert) = mc_c cert"
      "mp_flux_weights (mc_properties cert) = mc_b cert"
    using certify_explicit [OF ok(1)] cert by auto
  have es: "shaped ?n (mc_A cert) (mc_b cert) (mc_c cert)"
    using certificate_facts(1) [OF ok(1) cert] .
  have len: "length (ark_b t) = ?n" "length (ark_A t) = ?n"
    using ok(2) e by (auto simp: ark_tableau_ok_def coefficients_ok_def)
  have impl: "shaped ?n ?iA (vals (ark_b t)) (vals (ark_c t))"
    using ok(2) len coefficients_shaped [of True "ark_A t" "ark_b t" "ark_c t"]
    by (simp add: ark_tableau_ok_def)
  let ?bs = "[mc_b cert, vals (ark_b t)]" and ?cs = "[mc_c cert, vals (ark_c t)]"
  have lens: "length (mc_b cert) = ?n" "length (mc_c cert) = ?n" "length (ark_c t) = ?n"
    using es impl by (auto simp: shaped_def)
  have test: "all_test (\<lambda>(b, c). bindR (dot b c) (\<lambda>x. Inr (x = 1/2))) (List.product ?bs ?cs)
      = Inr (\<forall>(b, c) \<in> set (List.product ?bs ?cs). rdot b c = 1/2)"
  proof -
    have "all_test (\<lambda>(b, c). bindR (dot b c) (\<lambda>x. Inr (x = 1/2))) (List.product ?bs ?cs)
        = all_test (\<lambda>p. Inr (case p of (b, c) \<Rightarrow> rdot b c = 1/2)) (List.product ?bs ?cs)"
      by (rule all_test_cong) (auto simp: dot_shape lens len)
    then show ?thesis by (simp add: all_test_pure)
  qed
  have weights: "rdot b (mc_c cert) = elementary_weight (mc_A cert) b (Node [leaf_tree])"
      "rdot b (vals (ark_c t)) = elementary_weight ?iA b (Node [leaf_tree])" if "length b = ?n" for b
    using es impl that by (auto intro!: weight_two simp: shaped_def)
  define two where "two \<longleftrightarrow> (\<forall>(b, c) \<in> set (List.product ?bs ?cs). rdot b c = 1/2)"
  define C where "C = \<lparr>ac_explicit = cert, ac_A = ?iA, ac_b = vals (ark_b t), ac_c = vals (ark_c t),
      ac_order = Order (if two then 2 else 1), ac_explicit_abscissae = mc_c cert,
      ac_implicit_abscissae = vals (ark_c t),
      ac_flux_weights = [(''explicit'', mc_b cert), (''implicit'', vals (ark_b t))]\<rparr>"
  have "certify_additive_runge_kutta t = Inr C"
    by (simp add: certify_additive_runge_kutta_def e cert dense_total len(2) ecert(2,3) Let_def test
        C_def two_def del: bindR_Inr_iff List.product.simps all_test.simps eq_divide_eq_numeral1)
  moreover have "two \<longleftrightarrow> coloured_order_two C"
    by (auto simp: two_def coloured_order_two_def all_partition C_def weights lens len)
  then have "ac_order C = Order (if coloured_order_two C then 2 else 1)" by (simp add: C_def)
  ultimately show ?thesis by blast
qed

definition heun_certificate :: method_certificate where
  "heun_certificate = (case certify_runge_kutta heun_tableau of Inr c \<Rightarrow> c | Inl _ \<Rightarrow> undefined)"

lemma heun_certificate_facts:
  "certify_runge_kutta heun_tableau = Inr heun_certificate"
  "mp_order (mc_properties heun_certificate) = Order 2"
  "mp_stability (mc_properties heun_certificate) = [1, 1, 1/2]"
  "mp_ssp (mc_properties heun_certificate) = Some (SSP 1)"
  by code_simp+

theorem certified_order_is_butcher_order_witness:
  "\<exists>q. mp_order (mc_properties heun_certificate) = Order q \<and> 1 \<le> q \<and> q \<le> 4"
  using certified_order_is_butcher_order [OF heun_tableau_built] heun_certificate_facts(1) by auto

theorem stability_polynomial_is_step_witness:
  "rk_step (\<lambda>x. 2 * x) (1/2) (mc_A heun_certificate) (mc_b heun_certificate) (3::real) = 15/2"
proof -
  have "linear (\<lambda>x::real. 2 * x)" by (simp add: linear_iff algebra_simps)
  from stability_polynomial_is_step [OF heun_tableau_built heun_certificate_facts(1) this, of "1/2" 3]
  show ?thesis
    unfolding heun_certificate_facts(3) by (simp add: of_rat_divide)
qed

theorem certified_order_fixes_stability_witness:
  "mp_stability (mc_properties heun_certificate) ! 2 = 1 / fact 2"
  using certified_order_fixes_stability [OF heun_tableau_built heun_certificate_facts(1,2), of 2] by simp

theorem ssp_certificate_sound_witness:
  "\<bar>rk_step (\<lambda>x. - x) 1 (mc_A heun_certificate) (mc_b heun_certificate) (5::real)\<bar> \<le> \<bar>5\<bar>"
proof -
  have "convex_functional (\<lambda>x::real. \<bar>x\<bar>)" 
    unfolding convex_functional_def by (auto intro!: abs_triangle_ineq [THEN order_trans] simp: abs_mult)
  moreover have "euler_stable (\<lambda>x. - x) (\<lambda>x::real. \<bar>x\<bar>) 1" 
  proof -
    have "\<bar>u - \<epsilon> * u\<bar> \<le> \<bar>u\<bar>" if "0 \<le> \<epsilon>" "\<epsilon> \<le> 1" for u \<epsilon> :: real
    proof -
      have "u - \<epsilon> * u = (1 - \<epsilon>) * u" by (simp add: algebra_simps)
      then show ?thesis using that by (simp add: abs_mult mult_left_le_one_le)
    qed
    then show ?thesis by (simp add: euler_stable_def)
  qed
  ultimately show ?thesis
    using ssp_certificate_sound [OF heun_certificate_facts(1) mk_tableau_ok [OF heun_tableau_built] heun_certificate_facts(4),
        where g = "\<lambda>x::real. \<bar>x\<bar>" and f = "\<lambda>x. - x" and \<tau> = 1 and h = 1 and y = 5]
    by simp
qed

lemma imex_euler_built:
  "mk_tableau [[]] [AInt 1] (Some [AInt 0]) None
     = Inr \<lparr>tab_A = [[]], tab_b = [PyInt 1], tab_c = [PyInt 0], tab_name = None\<rparr>"
  "mk_ark_tableau \<lparr>tab_A = [[]], tab_b = [PyInt 1], tab_c = [PyInt 0], tab_name = None\<rparr>
       [[AInt 1]] [AInt 1] (Some [AInt 1]) None
     = Inr \<lparr>ark_explicit = \<lparr>tab_A = [[]], tab_b = [PyInt 1], tab_c = [PyInt 0], tab_name = None\<rparr>,
            ark_A = [[PyInt 1]], ark_b = [PyInt 1], ark_c = [PyInt 1], ark_name = None\<rparr>"
  by code_simp+

theorem additive_certificate_order_witness:
  "\<exists>cert. certify_additive_runge_kutta
       \<lparr>ark_explicit = \<lparr>tab_A = [[]], tab_b = [PyInt 1], tab_c = [PyInt 0], tab_name = None\<rparr>,
        ark_A = [[PyInt 1]], ark_b = [PyInt 1], ark_c = [PyInt 1], ark_name = None\<rparr> = Inr cert
     \<and> ac_order cert = Order (if coloured_order_two cert then 2 else 1)"
  by (rule additive_certificate_order [OF imex_euler_built])

end
