(* ===== verification/Pops_Certificate.thy ===== *)
theory Pops_Certificate
  imports Pops_Graph Pops_RK_Steps
begin

text \<open>
  The certificate of a normalized graph (\<open>certify_program_graph\<close> in
  \<open>python/pops/time/_methods/properties.py\<close>): an explicit Runge--Kutta tableau is read back from the
  affine structure of the graph. The theorems say that the certificate, when it is given, describes
  the step every valuation of the graph's equations takes.
\<close>

section \<open>Decoding canonical scalars\<close>

definition jget :: "(string \<times> json) list \<Rightarrow> string \<Rightarrow> json result" where
  "jget d k = (case map_of d k of None \<Rightarrow> Inl KeyError | Some v \<Rightarrow> Inr v)"

definition unwrap_scalar :: "json \<Rightarrow> json" where
  "unwrap_scalar j = (case j of JObj [(k, v)] \<Rightarrow> if k = ''scalar'' then v else j | _ \<Rightarrow> j)"

text \<open>\<open>Fraction(text)\<close> and \<open>float.fromhex(text)\<close>.\<close>

definition fraction_of_text :: "json \<Rightarrow> rat result" where
  "fraction_of_text j =
     (case j of JIntText i \<Rightarrow> Inr (of_int i) | JDecText d \<Rightarrow> Inr (decimal_value d) | _ \<Rightarrow> Inl ValueError)"

definition float_of_hex :: "json \<Rightarrow> rat result" where
  "float_of_hex j =
     (case j of JHexText f \<Rightarrow> Inr (binary64_value f) | _ \<Rightarrow> Inl ValueError)"

definition literal_value :: "json \<Rightarrow> rat result" where
  "literal_value j =
     (case unwrap_scalar j of
        JObj d \<Rightarrow>
          (if map_of d ''kind'' = Some (JStr ''integer'') then
             bindR (jget d ''value'') (\<lambda>v. bindR (int_of_text v) (\<lambda>i. Inr (of_int i)))
           else if map_of d ''kind'' = Some (JStr ''rational'') then
             bindR (jget d ''numerator'') (\<lambda>n. bindR (int_of_text n) (\<lambda>p.
             bindR (jget d ''denominator'') (\<lambda>m. bindR (int_of_text m) (\<lambda>q.
             raise_if (q = 0) ZeroDivisionError (Inr (Fract p q))))))
           else if map_of d ''kind'' = Some (JStr ''decimal'') then
             bindR (jget d ''value'') fraction_of_text
           else if map_of d ''kind'' = Some (JStr ''binary64'') then
             bindR (jget d ''hex'') float_of_hex
           else Inl ValueError)
      | _ \<Rightarrow> Inl ValueError)"

text \<open>\<open>int(Fraction)\<close> truncates towards zero.\<close>

definition int_of_fraction :: "rat \<Rightarrow> int" where
  "int_of_fraction q = (if q < 0 then - \<lfloor>- q\<rfloor> else \<lfloor>q\<rfloor>)"

type_synonym polynomial = "(int \<times> rat) list"

definition polynomial_of :: "json \<Rightarrow> polynomial result" where
  "polynomial_of data =
     (case data of
        JList rows \<Rightarrow>
          foldR (\<lambda>row p.
            case row of
              JList [pw, coefficient] \<Rightarrow>
                bindR (literal_value pw) (\<lambda>k.
                bindR (literal_value coefficient) (\<lambda>c. Inr (dict_set (int_of_fraction k) c p)))
            | _ \<Rightarrow> Inl ValueError) rows []
      | _ \<Rightarrow> Inl TypeError)"

definition offset_of_point :: "point \<Rightarrow> rat result" where
  "offset_of_point p =
     bindR (case p of AtStage s \<Rightarrow> stage_time s | AtTime t \<Rightarrow> Inr t) (\<lambda>t. literal_value (literal_json (tp_offset t)))"

section \<open>Classification and reconstruction\<close>

definition get_obj :: "json \<Rightarrow> string \<Rightarrow> json result" where
  "get_obj j k = bindR (obj_get j k) (\<lambda>v. Inr (case v of None \<Rightarrow> JObj [] | Some x \<Rightarrow> x))"

definition hashable :: "json option \<Rightarrow> bool" where
  "hashable j = (case j of Some (JObj _) \<Rightarrow> False | Some (JList _) \<Rightarrow> False | _ \<Rightarrow> True)"

definition is_explicit_rate_call :: "gnode \<Rightarrow> bool result" where
  "is_explicit_rate_call n =
     (case gn_body n of
        ProgramValue _ op _ _ \<Rightarrow> Inr (op = ''rhs'')
      | OperatorCall operator _ \<Rightarrow>
          bindR (get_obj operator ''handle'') (\<lambda>handle.
          bindR (get_obj operator ''lowering'') (\<lambda>lowering.
          bindR (obj_get handle ''kind'') (\<lambda>kind.
          raise_if (\<not> hashable kind) TypeError
         (if \<not> (kind = Some (JStr ''grid_operator'') \<or> kind = Some (JStr ''local_rate'')) then Inr False
          else bindR (obj_get lowering ''op'') (\<lambda>op.
            if op \<noteq> Some (JStr ''rhs'') then Inr False
            else bindR (obj_get lowering ''value_type'') (\<lambda>vt. Inr (vt = Some (JStr ''rhs''))))))))
      | _ \<Rightarrow> Inr False)"

fun filter_test :: "('a \<Rightarrow> bool result) \<Rightarrow> 'a list \<Rightarrow> 'a list result" where
  "filter_test p [] = Inr []"
| "filter_test p (x # xs) = bindR (p x) (\<lambda>b. bindR (filter_test p xs) (\<lambda>ys. Inr (if b then x # ys else ys)))"

record program_certificate =
  pc_method :: "method_certificate option"
  pc_properties :: method_properties

definition unknown_graph :: "rat list \<Rightarrow> program_certificate" where
  "unknown_graph offsets = \<lparr>pc_method = None, pc_properties =
     \<lparr>mp_order = UnknownOrder, mp_abscissae = offsets, mp_stability = [], mp_flux_weights = [], mp_ssp = None\<rparr>\<rparr>"

text \<open>\<open>except (KeyError, TypeError, ValueError)\<close>.\<close>

definition catch :: "'a result \<Rightarrow> 'a result \<Rightarrow> 'a result" where
  "catch m h = (case m of Inl e \<Rightarrow> if e \<in> set [KeyError, TypeError, ValueError] then h else Inl e | Inr x \<Rightarrow> Inr x)"

fun index_in :: "nat list \<Rightarrow> nat \<Rightarrow> nat option" where
  "index_in [] i = None"
| "index_in (x # xs) i = (if x = i then Some 0 else map_option Suc (index_in xs i))"

definition coeffs_of :: "attrs \<Rightarrow> json list result" where
  "coeffs_of a =
     bindR (jget a ''attrs'') (\<lambda>inner.
     case inner of
       JObj d \<Rightarrow> bindR (jget d ''coeffs'') (\<lambda>data. case data of JList cs \<Rightarrow> Inr cs | _ \<Rightarrow> Inl TypeError)
     | _ \<Rightarrow> Inl TypeError)"

definition poly_get :: "polynomial \<Rightarrow> int \<Rightarrow> rat" where
  "poly_get p k = (case map_of p k of None \<Rightarrow> 0 | Some c \<Rightarrow> c)"

definition affine_term :: "nat \<Rightarrow> nat list \<Rightarrow> nat \<Rightarrow> nat \<times> json \<Rightarrow> rat \<times> rat list \<Rightarrow> (rat \<times> rat list) result" where
  "affine_term state_id rates stage = (\<lambda>(r, encoded) (base, row).
     bindR (polynomial_of encoded) (\<lambda>p.
     if r = state_id then
       raise_if (\<not> set (map fst p) \<subseteq> {0}) ValueError (Inr (base + poly_get p 0, row))
     else
       (case index_in rates r of
          None \<Rightarrow> Inl ValueError
        | Some j \<Rightarrow> raise_if (j \<ge> stage \<or> \<not> set (map fst p) \<subseteq> {1}) ValueError
                     (Inr (base, row[j := row ! j + poly_get p 1])))))"

definition affine_row :: "gnode list \<Rightarrow> nat \<Rightarrow> nat list \<Rightarrow> nat \<Rightarrow> nat \<Rightarrow> (rat \<times> rat list) result" where
  "affine_row nodes state_id rates i stage =
     (if i = state_id then Inr (1, replicate stage 0)
      else case find (\<lambda>n. gn_id n = i) (rev nodes) of
             None \<Rightarrow> Inl KeyError
           | Some n \<Rightarrow>
               (case gn_body n of
                  ProgramValue _ op refs a \<Rightarrow>
                    raise_if (op \<noteq> ''linear_combine'') ValueError
                   (bindR (coeffs_of a) (\<lambda>cs.
                    bindR (foldR (affine_term state_id rates stage) (zip refs cs) (0, replicate stage 0)) (\<lambda>res.
                    raise_if (length refs \<noteq> length cs) ValueError (Inr res))))
                | _ \<Rightarrow> Inl ValueError))"

definition first_reference :: "gnode \<Rightarrow> nat result" where
  "first_reference n = (case references n of [] \<Rightarrow> Inl IndexError | r # _ \<Rightarrow> Inr r)"

definition reconstruct ::
  "gnode list \<Rightarrow> nat \<Rightarrow> gnode list \<Rightarrow> gnode \<Rightarrow> rat list \<Rightarrow> (rat list list \<times> rat list) result" where
  "reconstruct nodes state_id rhs commit offsets =
     (let rates = map gn_id rhs in
      bindR (traverse (\<lambda>(i, rate).
          bindR (first_reference rate) (\<lambda>r.
          bindR (affine_row nodes state_id rates r i) (\<lambda>(base, row).
          raise_if (base \<noteq> 1) ValueError (Inr row)))) (enumerate 0 rhs)) (\<lambda>A.
      bindR (first_reference commit) (\<lambda>r.
      bindR (affine_row nodes state_id rates r (length rhs)) (\<lambda>(base, b).
      raise_if (base \<noteq> 1 \<or> sum_list b \<noteq> 1) ValueError
     (raise_if (map sum_list A \<noteq> offsets) ValueError (Inr (A, b)))))))"

definition pad_rows :: "rat list list \<Rightarrow> nat \<Rightarrow> rat list list" where
  "pad_rows A n = map (\<lambda>row. map (\<lambda>j. if j < length row then row ! j else 0) [0..<n]) A"

definition is_state_read :: "gnode \<Rightarrow> bool" where
  "is_state_read n = (case gn_body n of StateRead _ _ \<Rightarrow> True | _ \<Rightarrow> False)"

definition is_commit :: "gnode \<Rightarrow> bool" where
  "is_commit n = (case gn_body n of Commit _ _ \<Rightarrow> True | _ \<Rightarrow> False)"

definition certify_program_graph :: "graph \<Rightarrow> program_certificate result" where
  "certify_program_graph g =
     bindR (filter_test is_explicit_rate_call (gr_nodes g)) (\<lambda>rhs.
     bindR (traverse (\<lambda>n. offset_of_point (gn_point n)) rhs) (\<lambda>offsets.
     case (filter is_state_read (gr_nodes g), rhs, filter is_commit (gr_nodes g)) of
       ([state], _ # _, [commit]) \<Rightarrow>
         bindR (catch (bindR (reconstruct (gr_nodes g) (gn_id state) rhs commit offsets) (\<lambda>x. Inr (Some x))) (Inr None)) (\<lambda>found.
         case found of
           None \<Rightarrow> Inr (unknown_graph offsets)
         | Some (A, b) \<Rightarrow>
             bindR (certificate_from_coefficients (pad_rows A (length b)) b offsets) (\<lambda>cert.
             Inr \<lparr>pc_method = Some cert, pc_properties = mc_properties cert\<rparr>))
     | _ \<Rightarrow> Inr (unknown_graph offsets)))"

section \<open>What a graph computes\<close>

text \<open>
  A valuation gives every node id a vector. It is a step of rate \<open>f\<close>, size \<open>h\<close> and start \<open>y\<close> when
  the state read is the start, every explicit rate call is the rate of the state it reads, and every
  linear combination is the sum its polynomial coefficients in \<open>dt\<close> describe.
\<close>

definition poly_at :: "real \<Rightarrow> polynomial \<Rightarrow> real" where
  "poly_at h p = (\<Sum>(k, c)\<leftarrow>p. of_rat c * (if 0 \<le> k then h ^ nat k else inverse h ^ nat (- k)))"

definition combination :: "real \<Rightarrow> (nat \<Rightarrow> 'v) \<Rightarrow> (nat \<times> polynomial) list \<Rightarrow> 'v::real_vector" where
  "combination h val terms = (\<Sum>(r, p)\<leftarrow>terms. poly_at h p *\<^sub>R val r)"

definition takes_step :: "gnode list \<Rightarrow> ('v::real_vector \<Rightarrow> 'v) \<Rightarrow> real \<Rightarrow> 'v \<Rightarrow> (nat \<Rightarrow> 'v) \<Rightarrow> bool" where
  "takes_step nodes f h y val \<longleftrightarrow>
     (\<forall>n \<in> set nodes.
        (is_state_read n \<longrightarrow> val (gn_id n) = y)
      \<and> (\<forall>r rs. is_explicit_rate_call n = Inr True \<and> references n = r # rs \<longrightarrow> val (gn_id n) = f (val r))
      \<and> (\<forall>vt refs a cs ps. gn_body n = ProgramValue vt ''linear_combine'' refs a \<and> coeffs_of a = Inr cs
            \<and> traverse polynomial_of cs = Inr ps \<and> length refs = length cs
            \<longrightarrow> val (gn_id n) = combination h val (zip refs ps)))"

lemma index_in_Some: "index_in xs i = Some j \<Longrightarrow> j < length xs \<and> xs ! j = i"
proof (induction xs arbitrary: j)
  case (Cons x xs)
  then show ?case by (cases j) (auto split: if_splits)
qed simp

lemma poly_keys:
  assumes "polynomial_of data = Inr p"
  shows "distinct (map fst p)"
proof (cases data)
  case (JList rows)
  have fold: "foldR (\<lambda>row p.
            case row of
              JList [pw, coefficient] \<Rightarrow>
                bindR (literal_value pw) (\<lambda>k.
                bindR (literal_value coefficient) (\<lambda>c. Inr (dict_set (int_of_fraction k) c p)))
            | _ \<Rightarrow> Inl ValueError) rows [] = Inr p"
    using assms by (simp add: polynomial_of_def JList)
  show ?thesis
  proof (rule foldR_invariant [where I = "\<lambda>p. distinct (map fst p)", OF fold])
    fix row u v
    assume "distinct (map fst u)" and "(case row of
              JList [pw, coefficient] \<Rightarrow>
                bindR (literal_value pw) (\<lambda>k.
                bindR (literal_value coefficient) (\<lambda>c. Inr (dict_set (int_of_fraction k) c u)))
            | _ \<Rightarrow> Inl ValueError) = Inr v"
    then show "distinct (map fst v)" by (auto split: json.splits list.splits)
  qed simp
qed (use assms in \<open>simp_all add: polynomial_of_def\<close>)

lemma poly_at_single:
  assumes "distinct (map fst p)" and "set (map fst p) \<subseteq> {k}" and "0 \<le> k"
  shows "poly_at h p = of_rat (poly_get p k) * h ^ nat k"
proof (cases p)
  case Nil
  then show ?thesis by (simp add: poly_at_def poly_get_def)
next
  case (Cons x p')
  then have "p' = []" "fst x = k" using assms(1,2) by (cases p'; auto)+
  then show ?thesis using Cons assms(3) by (cases x) (simp add: poly_at_def poly_get_def)
qed

lemma sum_row_update:
  fixes K :: "nat \<Rightarrow> 'v::real_vector"
  assumes "j < length row"
  shows "(\<Sum>i<length row. of_rat (row[j := row ! j + c] ! i) *\<^sub>R K i)
       = (\<Sum>i<length row. of_rat (row ! i) *\<^sub>R K i) + of_rat c *\<^sub>R K j"
proof -
  have "(\<Sum>i<length row. of_rat (row[j := row ! j + c] ! i) *\<^sub>R K i)
      = (\<Sum>i<length row. of_rat (row ! i) *\<^sub>R K i + (if i = j then of_rat c *\<^sub>R K j else 0))"
    by (intro sum.cong) (auto simp: nth_list_update of_rat_add scaleR_add_left)
  then show ?thesis using assms by (simp add: sum.distrib)
qed

lemma affine_fold:
  fixes y :: "'v::real_vector"
  assumes "foldR (affine_term state_id rates stage) zs (base0, row0) = Inr (base, row)"
    and "length row0 = stage" and "stage \<le> length rates" and "val state_id = y"
  shows "\<exists>ps. traverse polynomial_of (map snd zs) = Inr ps \<and> length row = stage
     \<and> of_rat base *\<^sub>R y + h *\<^sub>R (\<Sum>j<stage. of_rat (row ! j) *\<^sub>R val (rates ! j))
       = of_rat base0 *\<^sub>R y + h *\<^sub>R (\<Sum>j<stage. of_rat (row0 ! j) *\<^sub>R val (rates ! j))
         + combination h val (zip (map fst zs) ps)"
  using assms(1,2)
proof (induction zs arbitrary: base0 row0)
  case Nil
  then show ?case by (simp add: combination_def)
next
  case (Cons z zs)
  obtain r e where z: "z = (r, e)" by (cases z)
  obtain b1 row1 where step: "affine_term state_id rates stage (r, e) (base0, row0) = Inr (b1, row1)"
    and rest: "foldR (affine_term state_id rates stage) zs (b1, row1) = Inr (base, row)"
    using Cons.prems(1) by (auto simp: z)
  obtain p where p: "polynomial_of e = Inr p" using step by (auto simp: affine_term_def)
  note keys = poly_keys [OF p]
  have "length row1 = stage \<and> of_rat b1 *\<^sub>R y + h *\<^sub>R (\<Sum>j<stage. of_rat (row1 ! j) *\<^sub>R val (rates ! j))
      = of_rat base0 *\<^sub>R y + h *\<^sub>R (\<Sum>j<stage. of_rat (row0 ! j) *\<^sub>R val (rates ! j)) + poly_at h p *\<^sub>R val r"
  proof (cases "r = state_id")
    case True
    then have "set (map fst p) \<subseteq> {0}" "b1 = base0 + poly_get p 0" "row1 = row0"
      using step by (auto simp: affine_term_def p)
    then show ?thesis
      using poly_at_single [OF keys, of 0 h] Cons.prems(2) assms(4) True by (simp add: of_rat_add scaleR_add_left)
  next
    case False
    then obtain j where j: "index_in rates r = Some j" "j < stage" "set (map fst p) \<subseteq> {1}"
      "b1 = base0" "row1 = row0[j := row0 ! j + poly_get p 1]"
      using step by (auto simp: affine_term_def p split: option.splits)
    have "val (rates ! j) = val r" using index_in_Some [OF j(1)] by simp
    then show ?thesis
      using poly_at_single [OF keys j(3), of h] sum_row_update [of j row0 "poly_get p 1" "\<lambda>j. val (rates ! j)"] j Cons.prems(2)
      by (simp add: scaleR_add_right)
  qed
  with Cons.IH [OF rest] show ?case by (auto simp: z p combination_def)
qed

lemma traverse_map: "traverse f (map g xs) = traverse (f \<circ> g) xs"
  by (induction xs) auto

lemma affine_row_value:
  assumes row: "affine_row nodes state_id rates i stage = Inr (base, row)"
    and step: "takes_step nodes f h y val" and y: "val state_id = y" and "stage \<le> length rates"
  shows "length row = stage
    \<and> val i = of_rat base *\<^sub>R y + h *\<^sub>R (\<Sum>j<stage. of_rat (row ! j) *\<^sub>R val (rates ! j))"
proof (cases "i = state_id")
  case True
  then show ?thesis using row y by (auto simp: affine_row_def)
next
  case False
  then obtain n vt refs a cs where n: "find (\<lambda>n. gn_id n = i) (rev nodes) = Some n"
    "gn_body n = ProgramValue vt ''linear_combine'' refs a" "coeffs_of a = Inr cs"
    "foldR (affine_term state_id rates stage) (zip refs cs) (0, replicate stage 0) = Inr (base, row)"
    "length refs = length cs"
    using row by (auto simp: affine_row_def split: option.splits gbody.splits)
  have mem: "n \<in> set nodes" "gn_id n = i" using n(1) unfolding find_Some_iff by (metis length_rev nth_mem set_rev)+
  obtain ps where ps: "traverse polynomial_of (map snd (zip refs cs)) = Inr ps" "length row = stage"
    "of_rat base *\<^sub>R y + h *\<^sub>R (\<Sum>j<stage. of_rat (row ! j) *\<^sub>R val (rates ! j))
       = of_rat 0 *\<^sub>R y + h *\<^sub>R (\<Sum>j<stage. of_rat (replicate stage 0 ! j) *\<^sub>R val (rates ! j))
         + combination h val (zip (map fst (zip refs cs)) ps)"
    using affine_fold [where val = val and h = h, OF n(4) length_replicate assms(4) y] by blast
  have "val i = combination h val (zip refs ps)"
    using step mem n(2,3,5) ps(1) by (auto simp: takes_step_def)
  with ps n(5) show ?thesis by simp
qed

lemma filter_testD: "filter_test p xs = Inr ys \<Longrightarrow> y \<in> set ys \<Longrightarrow> y \<in> set xs \<and> p y = Inr True"
  by (induction xs arbitrary: ys) (auto split: if_splits)

lemma reconstruct_stages:
  assumes rec: "reconstruct nodes state_id rhs commit offsets = Inr (A, b)"
    and step: "takes_step nodes f h y val" and y: "val state_id = y"
    and rhs: "\<forall>n \<in> set rhs. n \<in> set nodes \<and> is_explicit_rate_call n = Inr True"
  shows "length A = length rhs" and "length b = length rhs" and "map sum_list A = offsets" and "sum_list b = 1"
    and "i < length rhs \<Longrightarrow> length (A ! i) = i
      \<and> val (gn_id (rhs ! i)) = f (y + h *\<^sub>R (\<Sum>j<i. of_rat (A ! i ! j) *\<^sub>R val (gn_id (rhs ! j))))"
    and "\<exists>r. first_reference commit = Inr r
      \<and> val r = y + h *\<^sub>R (\<Sum>j<length rhs. of_rat (b ! j) *\<^sub>R val (gn_id (rhs ! j)))"
proof -
  let ?rates = "map gn_id rhs"
  let ?g = "\<lambda>(i, rate). bindR (first_reference rate) (\<lambda>r.
          bindR (affine_row nodes state_id ?rates r i) (\<lambda>(base, row).
          raise_if (base \<noteq> 1) ValueError (Inr row)))"
  obtain r base where h: "traverse ?g (enumerate 0 rhs) = Inr A" "first_reference commit = Inr r"
    "affine_row nodes state_id ?rates r (length rhs) = Inr (base, b)" "base = 1" "sum_list b = 1" "map sum_list A = offsets"
    using rec by (auto simp: reconstruct_def Let_def)
  show lenA: "length A = length rhs" using traverse_length [OF h(1)] by simp
  show "map sum_list A = offsets" "sum_list b = 1" by (fact h)+
  note e = affine_row_value [OF h(3) step y]
  show "length b = length rhs" using e by simp
  show "\<exists>r. first_reference commit = Inr r
      \<and> val r = y + h *\<^sub>R (\<Sum>j<length rhs. of_rat (b ! j) *\<^sub>R val (gn_id (rhs ! j)))"
    using e h(2,4) by simp
  show "length (A ! i) = i
      \<and> val (gn_id (rhs ! i)) = f (y + h *\<^sub>R (\<Sum>j<i. of_rat (A ! i ! j) *\<^sub>R val (gn_id (rhs ! j))))"
    if i: "i < length rhs"
  proof -
    have "list_all2 (\<lambda>x z. ?g x = Inr z) (enumerate 0 rhs) A" using h(1) by (simp add: traverse_Inr_iff)
    then have "?g (enumerate 0 rhs ! i) = Inr (A ! i)" using i by (auto simp: list_all2_conv_all_nth)
    then have "?g (i, rhs ! i) = Inr (A ! i)" using i by (simp add: nth_enumerate_eq)
    then obtain q where q: "first_reference (rhs ! i) = Inr q" "affine_row nodes state_id ?rates q i = Inr (1, A ! i)"
      by auto
    note v = affine_row_value [OF q(2) step y]
    obtain rs where "references (rhs ! i) = q # rs"
      using q(1) by (auto simp: first_reference_def split: list.splits)
    then have "val (gn_id (rhs ! i)) = f (val q)"
      using rhs nth_mem [OF i] step by (auto simp: takes_step_def)
    with v i show ?thesis by simp
  qed
qed

lemma pad_rows_lower:
  assumes "length A = n" and "\<forall>i<n. length (A ! i) = i"
  shows "strict_lower n (pad_rows A n)"
    and "i < n \<Longrightarrow> (\<Sum>j<n. of_rat (pad_rows A n ! i ! j) *\<^sub>R K j) = (\<Sum>j<i. of_rat (A ! i ! j) *\<^sub>R (K j :: 'v::real_vector))"
    and "i < n \<Longrightarrow> (\<Sum>j<n. pad_rows A n ! i ! j) = sum_list (A ! i)"
proof -
  have entry: "pad_rows A n ! i ! j = (if j < i then A ! i ! j else 0)" if "i < n" "j < n" for i j
    using assms that by (simp add: pad_rows_def)
  show "strict_lower n (pad_rows A n)"
    using assms entry by (auto simp: strict_lower_def square_def pad_rows_def)
  show "(\<Sum>j<n. of_rat (pad_rows A n ! i ! j) *\<^sub>R K j) = (\<Sum>j<i. of_rat (A ! i ! j) *\<^sub>R (K j :: 'v::real_vector))"
    if i: "i < n"
    using i by (intro sum.mono_neutral_cong_right) (auto simp: entry)
  show "(\<Sum>j<n. pad_rows A n ! i ! j) = sum_list (A ! i)" if i: "i < n"
  proof -
    have "(\<Sum>j<n. pad_rows A n ! i ! j) = (\<Sum>j<i. A ! i ! j)"
      using i by (intro sum.mono_neutral_cong_right) (auto simp: entry)
    then show ?thesis using assms(2) i by (simp add: sum_list_sum_nth atLeast0LessThan)
  qed
qed

lemma certify_program_graph_facts:
  assumes "certify_program_graph g = Inr c" and "pc_method c = Some cert"
  shows "\<exists>state commit rhs offsets A b. filter is_state_read (gr_nodes g) = [state] \<and> filter is_commit (gr_nodes g) = [commit]
     \<and> (\<forall>n \<in> set rhs. n \<in> set (gr_nodes g) \<and> is_explicit_rate_call n = Inr True)
     \<and> reconstruct (gr_nodes g) (gn_id state) rhs commit offsets = Inr (A, b)
     \<and> certificate_from_coefficients (pad_rows A (length b)) b offsets = Inr cert
     \<and> pc_properties c = mc_properties cert \<and> rhs \<noteq> []"
proof -
  obtain rhs offsets where rhs: "filter_test is_explicit_rate_call (gr_nodes g) = Inr rhs"
    "traverse (\<lambda>n. offset_of_point (gn_point n)) rhs = Inr offsets"
    using assms(1) by (auto simp: certify_program_graph_def)
  note D = assms(1) [unfolded certify_program_graph_def rhs bindR.simps]
  obtain state commit where s: "filter is_state_read (gr_nodes g) = [state]" "filter is_commit (gr_nodes g) = [commit]" "rhs \<noteq> []"
    using D assms(2) by (auto simp: unknown_graph_def split: list.splits)
  obtain A b where "reconstruct (gr_nodes g) (gn_id state) rhs commit offsets = Inr (A, b)"
    "certificate_from_coefficients (pad_rows A (length b)) b offsets = Inr cert" "pc_properties c = mc_properties cert"
    using D s assms(2) by (auto simp: catch_def unknown_graph_def split: list.splits sum.splits option.splits if_splits)
  with s filter_testD [OF rhs(1)] show ?thesis by blast
qed

lemma certified_step:
  fixes y :: "'v::real_vector"
  assumes "certify_program_graph g = Inr c" and "pc_method c = Some cert"
    and "takes_step (gr_nodes g) f h y val"
    and "n \<in> set (gr_nodes g)" and "gn_body n = Commit target r"
  shows "val r = rk_step f h (mc_A cert) (mc_b cert) y
    \<and> strict_lower (length (mc_b cert)) (mc_A cert) \<and> mc_c cert = map sum_list (mc_A cert)
    \<and> (\<exists>q. mp_order (pc_properties c) = Order q \<and> 1 \<le> q \<and> q \<le> 4
         \<and> (\<forall>p\<le>4. p \<le> q \<longleftrightarrow> (\<forall>\<tau>. tree_order \<tau> \<le> p \<longrightarrow> order_condition (mc_A cert) (mc_b cert) \<tau>)))"
proof -
  obtain state commit rhs offsets A b where g: "filter is_state_read (gr_nodes g) = [state]" "filter is_commit (gr_nodes g) = [commit]"
    "\<forall>n \<in> set rhs. n \<in> set (gr_nodes g) \<and> is_explicit_rate_call n = Inr True"
    "reconstruct (gr_nodes g) (gn_id state) rhs commit offsets = Inr (A, b)"
    "certificate_from_coefficients (pad_rows A (length b)) b offsets = Inr cert"
    "pc_properties c = mc_properties cert" "rhs \<noteq> []"
    using certify_program_graph_facts [OF assms(1,2)] by blast
  have "state \<in> set (filter is_state_read (gr_nodes g))" using g(1) by simp
  then have y: "val (gn_id state) = y" using assms(3) by (simp add: takes_step_def)
  have "n \<in> set (filter is_commit (gr_nodes g))" using assms(4,5) by (simp add: is_commit_def)
  then have "commit = n" using g(2) by simp
  then have ref: "first_reference commit = Inr r" using assms(5) by (simp add: first_reference_def references_def)
  let ?m = "length rhs" and ?K = "map (\<lambda>n. val (gn_id n)) rhs"
  note st = reconstruct_stages [OF g(4) assms(3) y g(3)]
  have lens: "\<forall>i<?m. length (A ! i) = i" using st(5) by blast
  note pad = pad_rows_lower [OF st(1) lens]
  have c: "mc_A cert = pad_rows A ?m" "mc_b cert = b" "mc_c cert = offsets"
    "proved_order (pad_rows A ?m) b offsets = Inr (mp_order (mc_properties cert))"
    using g(5) st(2) by (auto simp: certificate_from_coefficients_def)
  have rates: "rk_rates f h y (pad_rows A ?m) [] = ?K"
  proof (rule rk_rates_unique [OF pad(1)])
    fix i assume i: "i < ?m"
    have "(\<Sum>j<?m. of_rat (pad_rows A ?m ! i ! j) *\<^sub>R ?K ! j) = (\<Sum>j<?m. of_rat (pad_rows A ?m ! i ! j) *\<^sub>R val (gn_id (rhs ! j)))"
      by (intro sum.cong) auto
    then show "?K ! i = f (y + h *\<^sub>R (\<Sum>j<?m. of_rat (pad_rows A ?m ! i ! j) *\<^sub>R ?K ! j))"
      using st(5) [OF i] pad(2) [OF i, of "\<lambda>j. val (gn_id (rhs ! j))"] i by simp
  qed simp
  have sq: "square ?m (pad_rows A ?m)" using pad(1) by (simp add: strict_lower_def)
  have "(\<Sum>i<?m. of_rat (b ! i) *\<^sub>R ?K ! i) = (\<Sum>i<?m. of_rat (b ! i) *\<^sub>R val (gn_id (rhs ! i)))"
    by (intro sum.cong) auto
  then have val: "val r = rk_step f h (mc_A cert) (mc_b cert) y"
    using st(6) ref by (simp add: c rk_step_sum [OF sq st(2)] rates)
  have offs: "offsets = map sum_list (pad_rows A ?m)"
  proof (rule nth_equalityI)
    show len: "length offsets = length (map sum_list (pad_rows A ?m))" using st(1,3) by (auto simp: pad_rows_def)
    fix i assume "i < length offsets"
    then have i: "i < ?m" using st(1,3) by auto
    have "sum_list (pad_rows A ?m ! i) = (\<Sum>j<?m. pad_rows A ?m ! i ! j)"
      using i sq by (simp add: sum_list_sum_nth square_length atLeast0LessThan)
    then show "offsets ! i = map sum_list (pad_rows A ?m) ! i"
      using pad(3) [OF i] i st(1,3) sq by (auto simp: square_length)
  qed
  have shaped: "shaped ?m (pad_rows A ?m) b offsets"
    unfolding shaped_def
  proof (intro conjI allI impI)
    show "offsets ! i = (\<Sum>j<?m. pad_rows A ?m ! i ! j)" if "i < ?m" for i
      using that sq by (simp add: offs sum_list_sum_nth square_length atLeast0LessThan)
  qed (use sq st g(7) in \<open>auto simp: offs square_length\<close>)
  have "\<exists>q. mp_order (pc_properties c) = Order q \<and> 1 \<le> q \<and> q \<le> 4
     \<and> (\<forall>p\<le>4. p \<le> q \<longleftrightarrow> (\<forall>\<tau>. tree_order \<tau> \<le> p \<longrightarrow> order_condition (mc_A cert) (mc_b cert) \<tau>))"
    using proved_order_correct [OF shaped] by (auto simp: c g(6))
  with val pad(1) offs show ?thesis by (simp add: c st(2))
qed

section \<open>Running a graph\<close>

text \<open>The value of one node from the values of its references, and the pass over the nodes in order.\<close>

definition node_value :: "('v::real_vector \<Rightarrow> 'v) \<Rightarrow> real \<Rightarrow> 'v \<Rightarrow> (nat \<Rightarrow> 'v) \<Rightarrow> gnode \<Rightarrow> 'v" where
  "node_value f h y env n =
     (if is_state_read n then y
      else if is_explicit_rate_call n = Inr True then (case references n of r # _ \<Rightarrow> f (env r) | [] \<Rightarrow> 0)
      else (case gn_body n of
              ProgramValue _ op refs a \<Rightarrow>
                if op = ''linear_combine'' then
                  (case bindR (coeffs_of a) (traverse polynomial_of) of
                     Inr ps \<Rightarrow> combination h env (zip refs ps)
                   | Inl _ \<Rightarrow> 0)
                else 0
            | _ \<Rightarrow> 0))"

definition run_graph :: "('v::real_vector \<Rightarrow> 'v) \<Rightarrow> real \<Rightarrow> 'v \<Rightarrow> gnode list \<Rightarrow> nat \<Rightarrow> 'v" where
  "run_graph f h y nodes = foldl (\<lambda>env n. env(gn_id n := node_value f h y env n)) (\<lambda>_. 0) nodes"

lemma run_graph_snoc:
  "run_graph f h y (nodes @ [n]) = (run_graph f h y nodes)(gn_id n := node_value f h y (run_graph f h y nodes) n)"
  by (simp add: run_graph_def)

lemma run_graph_stable:
  "i \<notin> gn_id ` set suf \<Longrightarrow> run_graph f h y (pre @ suf) i = run_graph f h y pre i"
  by (induction suf rule: rev_induct) (auto simp: run_graph_snoc simp flip: append_assoc)

lemma combination_cong:
  "(\<And>r. r \<in> set refs \<Longrightarrow> u r = v r) \<Longrightarrow> combination h u (zip refs ps) = combination h v (zip refs ps)"
  unfolding combination_def by (intro arg_cong [where f = sum_list] map_cong) (auto dest: set_zip_leftD)

lemma node_value_cong:
  assumes "\<And>r. r \<in> set (references n) \<Longrightarrow> u r = v r"
  shows "node_value f h y u n = node_value f h y v n"
proof -
  have "refs = references n" if "gn_body n = ProgramValue vt op refs a" for vt op refs a
    using that by (simp add: references_def)
  then show ?thesis
    using assms unfolding node_value_def
    by (auto simp: combination_def split: list.splits gbody.splits sum.splits intro!: combination_cong [unfolded combination_def])
qed

lemma run_graph_equation:
  assumes ssa: "\<And>pre n suf. nodes = pre @ n # suf \<Longrightarrow> set (references n) \<subseteq> gn_id ` set pre"
    and "distinct (map gn_id nodes)" and "n \<in> set nodes"
  shows "run_graph f h y nodes (gn_id n) = node_value f h y (run_graph f h y nodes) n"
proof -
  obtain pre suf where split: "nodes = pre @ n # suf" using assms(3) by (meson split_list)
  have fresh: "gn_id n \<notin> gn_id ` set suf" "gn_id n \<notin> gn_id ` set pre" "gn_id ` set pre \<inter> gn_id ` set suf = {}"
    using assms(2) split by auto
  have "run_graph f h y nodes (gn_id n) = run_graph f h y (pre @ [n]) (gn_id n)"
    using run_graph_stable [of "gn_id n" suf f h y "pre @ [n]"] fresh(1) by (simp add: split)
  also have "\<dots> = node_value f h y (run_graph f h y pre) n" by (simp add: run_graph_snoc)
  also have "\<dots> = node_value f h y (run_graph f h y nodes) n"
  proof (rule node_value_cong)
    fix r assume "r \<in> set (references n)"
    then have "r \<in> gn_id ` set pre" using ssa [OF split] by blast
    then have "r \<notin> gn_id ` set suf" "r \<noteq> gn_id n" using fresh(2,3) by blast+
    then have "r \<notin> gn_id ` set (n # suf)" by simp
    then show "run_graph f h y pre r = run_graph f h y nodes r"
      using run_graph_stable [of r "n # suf" f h y pre] by (simp add: split)
  qed
  finally show ?thesis .
qed

lemma graph_ssa:
  assumes "mk_graph name nodes clocks = Inr g"
  shows "distinct (map gn_id (gr_nodes g))"
    and "gr_nodes g = pre @ n # suf \<Longrightarrow> set (references n) \<subseteq> gn_id ` set pre"
proof -
  obtain out where out: "validate_nodes (gr_nodes g) (gr_clocks g) [] = Inr out"
    using mk_graph_facts(2) [OF assms] by blast
  note v = validate_nodes_ok(2) [OF out]
  show "distinct (map gn_id (gr_nodes g))" by (rule validated_distinct [OF v])
  show "set (references n) \<subseteq> gn_id ` set pre" if "gr_nodes g = pre @ n # suf"
  proof
    fix r assume "r \<in> set (references n)"
    then have "well_read (scope_of pre) n r" using v [OF that] by (simp add: node_ok_def)
    then show "r \<in> gn_id ` set pre" unfolding well_read_def using map_of_scope_of by blast
  qed
qed

lemma run_graph_takes_step:
  assumes "mk_graph name nodes clocks = Inr g"
  shows "takes_step (gr_nodes g) f h y (run_graph f h y (gr_nodes g))"
proof -
  have eq: "run_graph f h y (gr_nodes g) (gn_id n) = node_value f h y (run_graph f h y (gr_nodes g)) n"
    if "n \<in> set (gr_nodes g)" for n
    by (rule run_graph_equation [OF graph_ssa(2) [OF assms] graph_ssa(1) [OF assms] that])
  show ?thesis
    unfolding takes_step_def
  proof (intro ballI conjI allI impI)
    fix n assume n: "n \<in> set (gr_nodes g)"
    show "is_state_read n \<Longrightarrow> run_graph f h y (gr_nodes g) (gn_id n) = y"
      using eq [OF n] by (simp add: node_value_def)
    show "run_graph f h y (gr_nodes g) (gn_id n) = f (run_graph f h y (gr_nodes g) r)"
      if "is_explicit_rate_call n = Inr True \<and> references n = r # rs" for r rs
    proof -
      have "\<not> is_state_read n" using that by (auto simp: is_state_read_def references_def split: gbody.splits)
      then show ?thesis using eq [OF n] that by (simp add: node_value_def)
    qed
    show "run_graph f h y (gr_nodes g) (gn_id n) = combination h (run_graph f h y (gr_nodes g)) (zip refs ps)"
      if "gn_body n = ProgramValue vt ''linear_combine'' refs a \<and> coeffs_of a = Inr cs
         \<and> traverse polynomial_of cs = Inr ps \<and> length refs = length cs" for vt refs a cs ps
      using eq [OF n] that by (simp add: node_value_def is_state_read_def is_explicit_rate_call_def)
  qed
qed


section \<open>Which offsets the certifier can read\<close>

lemma from_value_denominator:
  assumes "authored_number v = Some n" and "from_value v u t = Inr l" and "lit_body l = LRational p q"
  shows "q \<noteq> 0"
  using assms
proof (induction v u t arbitrary: l rule: from_value.induct)
  case (4 w unit target)
  then obtain u t c where "mk_literal (LRational (fst (quotient_of w)) (snd (quotient_of w))) u t c = Inr l" by auto
  then have "LRational p q = LRational (fst (quotient_of w)) (snd (quotient_of w))"
    using mk_literal_body 4(3) check_body_quotient by fastforce
  then show ?case using quotient_of_denom_pos' [of w] by simp
qed (auto dest!: mk_literal_body simp: check_body_def split: if_splits)

text \<open>What an authored offset decodes to when a graph is certified: an integer, fraction or
  decimal to exactly its value, whereas every binary64 offset raises \<open>KeyError\<close>, because the decoder
  reads a key the encoder does not write.\<close>

theorem offset_decoding:
  assumes "point_offset v = Inr l" and "authored_number v = Some n"
  shows "literal_value (literal_json l) = (case n of PyFloat _ \<Rightarrow> Inl KeyError | _ \<Rightarrow> Inr (num_value n))"
proof -
  have l: "from_value v None None = Inr l" "lit_unit l = None" "lit_target l = None" "lit_cpp l = None"
    using assms(1) by (auto simp: point_offset_def scalar_literal_def)
  have num: "to_python l = Inr n" by (rule from_value_number [OF assms(2) l(1)])
  show ?thesis
  proof (cases "lit_body l")
    case (LRational p q)
    have "q \<noteq> 0" by (rule from_value_denominator [OF assms(2) l(1) LRational])
    then show ?thesis using num LRational l
      by (auto simp: to_python_def literal_value_def literal_json_def to_data_def opt_row_def unwrap_scalar_def jget_def int_of_text_def)
  qed (use num l in \<open>auto simp: to_python_def literal_value_def literal_json_def to_data_def opt_row_def
      unwrap_scalar_def jget_def int_of_text_def fraction_of_text_def split: option.splits\<close>)
qed

section \<open>Concrete graphs\<close>

definition whole :: "int \<Rightarrow> json" where
  "whole i = JObj [(''scalar'', JObj [(''kind'', JStr ''integer''), (''value'', JIntText i)])]"

definition half :: json where
  "half = JObj [(''scalar'', JObj [(''kind'', JStr ''rational''), (''numerator'', JIntText 1), (''denominator'', JIntText 2)])]"

definition monomial :: "int \<Rightarrow> json \<Rightarrow> json" where
  "monomial k c = JList [JList [whole k, c]]"

definition combine_node :: "nat \<Rightarrow> point \<Rightarrow> (nat \<times> json) list \<Rightarrow> gnode" where
  "combine_node i p terms = GNode i sample_clock p ''u'' (ProgramValue ''state'' ''linear_combine'' (map fst terms)
     [(''attrs'', JObj [(''coeffs'', JList (map snd terms))])])"

definition rate_node :: "nat \<Rightarrow> point \<Rightarrow> nat \<Rightarrow> gnode" where
  "rate_node i p u = GNode i sample_clock p ''k'' (ProgramValue ''rhs'' ''rhs'' [u] [])"

definition point_at :: "literal \<Rightarrow> point" where
  "point_at l = AtTime \<lparr>tp_clock = sample_clock, tp_offset = l, tp_step = 0\<rparr>"

definition literal_of :: "body \<Rightarrow> literal" where
  "literal_of b = \<lparr>lit_body = b, lit_unit = None, lit_target = None, lit_cpp = None\<rparr>"

text \<open>The two-stage Heun step, its second stage at an offset of one, spelled as given.\<close>

definition heun_nodes :: "body \<Rightarrow> gnode list" where
  "heun_nodes one =
     [GNode 0 sample_clock sample_point ''u'' (StateRead JNull JNull),
      rate_node 1 sample_point 0,
      combine_node 2 (point_at (literal_of one)) [(0, monomial 0 (whole 1)), (1, monomial 1 (whole 1))],
      rate_node 3 (point_at (literal_of one)) 2,
      combine_node 4 (point_at (literal_of one)) [(0, monomial 0 (whole 1)), (1, monomial 1 half), (3, monomial 1 half)],
      GNode 5 sample_clock (point_at (literal_of one)) [] (Commit JNull 4)]"

lemma heun_graph:
  "case mk_graph ''heun'' (heun_nodes (LInteger 1)) None of Inl _ \<Rightarrow> False
   | Inr g \<Rightarrow> gr_nodes g ! 5 = GNode 5 sample_clock (point_at (literal_of (LInteger 1))) [] (Commit JNull 4)
       \<and> (case certify_program_graph g of Inl _ \<Rightarrow> False
          | Inr c \<Rightarrow> (case pc_method c of None \<Rightarrow> False
              | Some cert \<Rightarrow> mp_order (pc_properties c) = Order 2 \<and> mc_A cert = [[0, 0], [1, 0]] \<and> mc_b cert = [1/2, 1/2]))"
  by code_simp


theorem offset_decoding_witness:
  "literal_value (literal_json (literal_of (LRational 1 2))) = Inr (1 / 2)
   \<and> literal_value (literal_json (literal_of (LBinary64 (Some (B64 False 1 (- 1)))))) = Inl KeyError"
proof -
  have "point_offset (AFraction (1 / 2)) = Inr (literal_of (LRational 1 2))"
    "point_offset (AFloat (Some (B64 False 1 (- 1)))) = Inr (literal_of (LBinary64 (Some (B64 False 1 (- 1)))))"
    by code_simp+
  from this [THEN offset_decoding] show ?thesis by simp
qed

text \<open>The same two-stage step is certified of order two when its stage offset is authored as
  the integer one, and raises \<open>KeyError\<close> instead of returning a certificate when the offset is
  authored as the float \<open>1.0\<close>, although both graphs are valid.\<close>

theorem float_offset_loses_certificate:
  "(\<exists>g c. mk_graph ''heun'' (heun_nodes (LInteger 1)) None = Inr g \<and> certify_program_graph g = Inr c
      \<and> mp_order (pc_properties c) = Order 2)
   \<and> (\<exists>g. mk_graph ''heun'' (heun_nodes (LBinary64 (Some (B64 False 1 0)))) None = Inr g
      \<and> certify_program_graph g = Inl KeyError)"
proof
  show "\<exists>g c. mk_graph ''heun'' (heun_nodes (LInteger 1)) None = Inr g \<and> certify_program_graph g = Inr c
      \<and> mp_order (pc_properties c) = Order 2"
    using heun_graph by (auto split: sum.splits option.splits)
  have "case mk_graph ''heun'' (heun_nodes (LBinary64 (Some (B64 False 1 0)))) None of Inl _ \<Rightarrow> False
     | Inr g \<Rightarrow> (case certify_program_graph g of Inl e \<Rightarrow> e = KeyError | Inr _ \<Rightarrow> False)"
    by code_simp
  then show "\<exists>g. mk_graph ''heun'' (heun_nodes (LBinary64 (Some (B64 False 1 0)))) None = Inr g
      \<and> certify_program_graph g = Inl KeyError"
    by (auto split: sum.splits)
qed

end
