(* ===== verification/Pops_Affine.thy ===== *)
theory Pops_Affine
  imports Pops_Points "HOL-Library.Log_Nat"
begin

text \<open>
  The symbolic algebra of Program authoring (\<open>python/pops/time/values.py\<close> and
  \<open>value_metadata.py\<close>): exact coefficient arithmetic inside one number domain, coefficient
  polynomials in \<open>dt\<close>, affine combinations of SSA values and local linear operators. The meaning of
  a coefficient, a combination and an operator is given by evaluating them, and the lemmas show that
  every operation is a homomorphism for that meaning.
\<close>

section \<open>Coefficient arithmetic\<close>

text \<open>
  Python's float arithmetic rounds the exact result to the nearest binary64, ties to even; \<open>None\<close> is
  an overflow to infinity, which no coefficient can carry.
\<close>

definition half_even :: "rat \<Rightarrow> int" where
  "half_even q =
     (let f = \<lfloor>q\<rfloor>; r = q - of_int f
      in if r < 1/2 then f else if 1/2 < r then f + 1 else if even f then f else f + 1)"

definition round64 :: "rat \<Rightarrow> binary64 option" where
  "round64 q =
     (if q = 0 then Some (B64 False 0 0)
      else let (n, d) = quotient_of \<bar>q\<bar>;
               b = int (floorlog 2 (nat n)) - int (floorlog 2 (nat d));
               top = (if scaled 2 1 b \<le> \<bar>q\<bar> then b else b - 1);
               e = max (top - 52) (- 1074);
               m = half_even (\<bar>q\<bar> * scaled 2 1 (- e))
           in if scaled 2 1 1024 \<le> scaled 2 m e then None else Some (B64 (q < 0) (nat m) e))"

definition float_result :: "rat \<Rightarrow> pynum result" where
  "float_result q = (case round64 q of None \<Rightarrow> Inl ValueError | Some f \<Rightarrow> Inr (PyFloat f))"

text \<open>\<open>_exact_number\<close>: annotations and algebraic literals cannot be erased by the algebra.\<close>

definition exact_number :: "authored \<Rightarrow> pynum result" where
  "exact_number value =
     bindR (scalar_literal value) (\<lambda>literal.
     raise_if (lit_unit literal \<noteq> None \<or> lit_target literal \<noteq> None) CoefficientLiteralError
    (raise_if (case lit_body literal of LAlgebraic _ \<Rightarrow> True | _ \<Rightarrow> False) CoefficientLiteralError
       (to_python literal)))"

fun decimal_of :: "pynum \<Rightarrow> dec_operand option" where
  "decimal_of (PyInt i) = Some (OpInt i)"
| "decimal_of (PyDec d) = Some (OpDec d)"
| "decimal_of _ = None"

fun is_exact :: "pynum \<Rightarrow> bool" where
  "is_exact (PyFloat _) = False"
| "is_exact _ = True"

definition exact_add :: "pynum \<Rightarrow> pynum \<Rightarrow> pynum result" where
  "exact_add left right =
     raise_if (\<not> numeric_domains_compatible left right) CoefficientLiteralError
       (case (left, right) of
          (PyInt a, PyInt b) \<Rightarrow> Inr (PyInt (a + b))
        | (PyDec d, y) \<Rightarrow> Inr (PyDec (exact_decimal_add (OpDec d) (the (decimal_of y))))
        | (x, PyDec d) \<Rightarrow> Inr (PyDec (exact_decimal_add (the (decimal_of x)) (OpDec d)))
        | (PyFloat f, y) \<Rightarrow> float_result (num_value (PyFloat f) + num_value y)
        | (x, PyFloat f) \<Rightarrow> float_result (num_value x + num_value (PyFloat f))
        | (x, y) \<Rightarrow> Inr (PyFrac (num_value x + num_value y)))"

definition exact_multiply :: "pynum \<Rightarrow> pynum \<Rightarrow> pynum result" where
  "exact_multiply left right =
     raise_if (\<not> numeric_domains_compatible left right) CoefficientLiteralError
       (case (left, right) of
          (PyInt a, PyInt b) \<Rightarrow> Inr (PyInt (a * b))
        | (PyDec d, y) \<Rightarrow> Inr (PyDec (exact_decimal_multiply (OpDec d) (the (decimal_of y))))
        | (x, PyDec d) \<Rightarrow> Inr (PyDec (exact_decimal_multiply (the (decimal_of x)) (OpDec d)))
        | (PyFloat f, y) \<Rightarrow> float_result (num_value (PyFloat f) * num_value y)
        | (x, PyFloat f) \<Rightarrow> float_result (num_value x * num_value (PyFloat f))
        | (x, y) \<Rightarrow> Inr (PyFrac (num_value x * num_value y)))"

text \<open>
  \<open>_exact_divide\<close>: integers and fractions make a fraction, decimals go through
  \<open>exact_decimal_divide\<close> (a quotient that does not terminate is refused), floats round.
\<close>

definition exact_divide :: "pynum \<Rightarrow> pynum \<Rightarrow> pynum result" where
  "exact_divide numerator denominator =
     raise_if (\<not> numeric_domains_compatible numerator denominator) CoefficientLiteralError
       (case (decimal_of numerator, decimal_of denominator) of
          (Some l, Some r) \<Rightarrow>
            (case (l, r) of
               (OpInt a, OpInt b) \<Rightarrow>
                 raise_if (b = 0) ZeroDivisionError (Inr (PyFrac (of_int a / of_int b)))
             | _ \<Rightarrow> bindR (exact_decimal_divide l r)
                      (\<lambda>q. case q of None \<Rightarrow> Inl CoefficientLiteralError | Some d \<Rightarrow> Inr (PyDec d)))
        | _ \<Rightarrow>
            raise_if (num_value denominator = 0) ZeroDivisionError
              (let q = num_value numerator / num_value denominator
               in if is_exact numerator \<and> is_exact denominator then Inr (PyFrac q) else float_result q))"

fun exact_negate :: "pynum \<Rightarrow> pynum" where
  "exact_negate (PyInt i) = PyInt (- i)"
| "exact_negate (PyFrac q) = PyFrac (- q)"
| "exact_negate (PyDec d) = PyDec (exact_decimal_negate d)"
| "exact_negate (PyFloat (B64 s m e)) = PyFloat (B64 (\<not> s) m e)"

lemma exact_add_value:
  "exact_add x y = Inr z \<Longrightarrow> is_exact x \<Longrightarrow> is_exact y \<Longrightarrow> num_value z = num_value x + num_value y \<and> is_exact z"
  by (cases x; cases y)
    (auto simp: exact_add_def raise_if_def numeric_domains_compatible_def decimal_add_value)

lemma exact_multiply_value:
  "exact_multiply x y = Inr z \<Longrightarrow> is_exact x \<Longrightarrow> is_exact y
    \<Longrightarrow> num_value z = num_value x * num_value y \<and> is_exact z"
  by (cases x; cases y)
    (auto simp: exact_multiply_def raise_if_def numeric_domains_compatible_def
      decimal_multiply_value)

lemma exact_negate_value [simp]: "num_value (exact_negate x) = - num_value x"
  by (cases x rule: exact_negate.cases) (auto simp: decimal_negate_value scaled_neg)

lemma exact_negate_exact [simp]: "is_exact (exact_negate x) = is_exact x"
  by (cases x rule: exact_negate.cases) auto

text \<open>A quotient of integers or fractions is exact.\<close>

lemma exact_divide_value:
  "exact_divide x y = Inr z \<Longrightarrow> is_exact x \<Longrightarrow> is_exact y \<Longrightarrow> \<not> (\<exists>d. x = PyDec d \<or> y = PyDec d)
    \<Longrightarrow> num_value z = num_value x / num_value y \<and> is_exact z"
  by (cases x; cases y)
    (auto simp: exact_divide_def raise_if_def numeric_domains_compatible_def Let_def split: if_splits)

section \<open>Coefficient polynomials\<close>

text \<open>
  \<open>_Coeff\<close>: powers of \<open>dt\<close> with their exact coefficients, in insertion order, zeros dropped. The
  powers the code builds are sums of \<open>0\<close> and \<open>1\<close>. An operation that raises is the error it raises.
\<close>

type_synonym coeff = "(nat \<times> pynum) list"

definition mk_coeff :: "coeff \<Rightarrow> coeff" where
  "mk_coeff powers = filter (\<lambda>(p, v). num_value v \<noteq> 0) powers"

definition coeff_number :: "pynum \<Rightarrow> coeff" where
  "coeff_number x = mk_coeff [(0, x)]"

definition coeff_dt :: coeff where
  "coeff_dt = mk_coeff [(1, PyInt 1)]"

definition get_coeff :: "coeff \<Rightarrow> nat \<Rightarrow> pynum" where
  "get_coeff out p = (case map_of out p of None \<Rightarrow> PyInt 0 | Some v \<Rightarrow> v)"

definition accumulate :: "nat \<Rightarrow> pynum \<Rightarrow> coeff \<Rightarrow> coeff result" where
  "accumulate p x out = bindR (exact_add (get_coeff out p) x) (\<lambda>s. Inr (dict_set p s out))"

definition coeff_add :: "coeff \<Rightarrow> coeff \<Rightarrow> coeff result" where
  "coeff_add c d = bindR (foldR (\<lambda>(p, x). accumulate p x) d c) (\<lambda>out. Inr (mk_coeff out))"

definition coeff_neg :: "coeff \<Rightarrow> coeff" where
  "coeff_neg c = mk_coeff (map (\<lambda>(p, v). (p, exact_negate v)) c)"

definition coeff_sub :: "coeff \<Rightarrow> coeff \<Rightarrow> coeff result" where
  "coeff_sub c d = coeff_add c (coeff_neg d)"

definition coeff_scale :: "coeff \<Rightarrow> pynum \<Rightarrow> coeff result" where
  "coeff_scale c x =
     bindR (traverse (\<lambda>(p, v). bindR (exact_multiply v x) (\<lambda>w. Inr (p, w))) c) (\<lambda>out. Inr (mk_coeff out))"

definition coeff_mul :: "coeff \<Rightarrow> coeff \<Rightarrow> coeff result" where
  "coeff_mul c d =
     bindR (foldR (\<lambda>(p1, c1). foldR (\<lambda>(p2, c2) out.
              bindR (exact_multiply c1 c2) (\<lambda>product. accumulate (p1 + p2) product out)) d) c [])
       (\<lambda>out. Inr (mk_coeff out))"

definition coeff_div :: "coeff \<Rightarrow> pynum \<Rightarrow> coeff result" where
  "coeff_div c x =
     bindR (traverse (\<lambda>(p, v). bindR (exact_divide v x) (\<lambda>w. Inr (p, w))) c) (\<lambda>out. Inr (mk_coeff out))"

text \<open>\<open>CoeffPolynomial\<close>: the same polynomial sorted by power.\<close>

definition to_polynomial :: "coeff \<Rightarrow> coeff" where
  "to_polynomial c = sort_key fst c"

text \<open>The meaning of a polynomial at a step size, and the coefficients that contain no float.\<close>

definition term_eval :: "real \<Rightarrow> nat \<times> pynum \<Rightarrow> real" where
  "term_eval h = (\<lambda>(p, v). of_rat (num_value v) * h ^ p)"

definition coeff_eval :: "real \<Rightarrow> coeff \<Rightarrow> real" where
  "coeff_eval h c = sum_list (map (term_eval h) c)"

definition coeff_exact :: "coeff \<Rightarrow> bool" where
  "coeff_exact c \<longleftrightarrow> (\<forall>(p, v) \<in> set c. is_exact v)"

definition coeff_wf :: "coeff \<Rightarrow> bool" where
  "coeff_wf c \<longleftrightarrow> distinct (map fst c) \<and> (\<forall>(p, v) \<in> set c. num_value v \<noteq> 0)"

lemma coeff_eval_simps [simp]:
  "coeff_eval h [] = 0"
  "coeff_eval h (t # c) = term_eval h t + coeff_eval h c"
  by (simp_all add: coeff_eval_def)

lemma coeff_exact_Nil [simp]: "coeff_exact []"
  by (simp add: coeff_exact_def)

lemma mk_coeff_eval [simp]: "coeff_eval h (mk_coeff c) = coeff_eval h c"
  by (induction c) (auto simp: mk_coeff_def term_eval_def)

lemma mk_coeff_exact [simp]: "coeff_exact c \<Longrightarrow> coeff_exact (mk_coeff c)"
  by (auto simp: coeff_exact_def mk_coeff_def)

lemma mk_coeff_wf: "distinct (map fst c) \<Longrightarrow> coeff_wf (mk_coeff c)"
  by (auto simp: coeff_wf_def mk_coeff_def distinct_map inj_on_def)

lemma get_coeff_exact: "coeff_exact c \<Longrightarrow> is_exact (get_coeff c p)"
  by (auto simp: get_coeff_def coeff_exact_def split: option.splits dest: map_of_SomeD)

lemma coeff_exact_dict_set: "coeff_exact c \<Longrightarrow> is_exact v \<Longrightarrow> coeff_exact (dict_set p v c)"
  by (induction c) (auto simp: coeff_exact_def split: if_splits)

lemma accumulate_eval:
  assumes "accumulate p x out = Inr out'" and "coeff_exact out" and "is_exact x"
  shows "coeff_eval h out' = coeff_eval h out + term_eval h (p, x) \<and> coeff_exact out'"
proof -
  from assms(1) obtain s where s: "exact_add (get_coeff out p) x = Inr s" and out': "out' = dict_set p s out"
    by (auto simp: accumulate_def)
  have v: "num_value s = num_value (get_coeff out p) + num_value x" "is_exact s"
    using exact_add_value [OF s] get_coeff_exact [OF assms(2)] assms(3) by auto
  have "coeff_eval h out' = coeff_eval h out
      + (term_eval h (p, s) - (case map_of out p of None \<Rightarrow> 0 | Some w \<Rightarrow> term_eval h (p, w)))"
    using sum_dict_set [of "\<lambda>p v. term_eval h (p, v)" p s out]
    by (simp add: coeff_eval_def out' case_prod_unfold)
  also have "\<dots> = coeff_eval h out + term_eval h (p, x)"
    by (auto simp: term_eval_def v get_coeff_def of_rat_add algebra_simps split: option.splits)
  finally show ?thesis using assms(2) v by (simp add: out' coeff_exact_dict_set)
qed

lemma accumulate_distinct: "accumulate p x out = Inr out' \<Longrightarrow> distinct (map fst out) \<Longrightarrow> distinct (map fst out')"
  by (auto simp: accumulate_def)

lemma fold_accumulate:
  assumes "foldR (\<lambda>(p, x). accumulate p x) d c = Inr out" and "coeff_exact c" and "coeff_exact d"
  shows "coeff_eval h out = coeff_eval h c + coeff_eval h d \<and> coeff_exact out"
  using assms
proof (induction d arbitrary: c)
  case Nil
  then show ?case by simp
next
  case (Cons t d)
  obtain p x where t: "t = (p, x)" by fastforce
  from Cons.prems obtain c' where c': "accumulate p x c = Inr c'"
      and rest: "foldR (\<lambda>(p, x). accumulate p x) d c' = Inr out"
    by (auto simp: t)
  have "coeff_eval h c' = coeff_eval h c + term_eval h (p, x) \<and> coeff_exact c'"
    using accumulate_eval [OF c'] Cons.prems by (auto simp: t coeff_exact_def)
  with Cons.IH [OF rest] Cons.prems(3) show ?case by (auto simp: t coeff_exact_def)
qed

lemma coeff_add_eval:
  "coeff_add c d = Inr e \<Longrightarrow> coeff_exact c \<Longrightarrow> coeff_exact d
    \<Longrightarrow> coeff_eval h e = coeff_eval h c + coeff_eval h d \<and> coeff_exact e"
  using fold_accumulate by (auto simp: coeff_add_def)

lemma coeff_neg_eval: "coeff_eval h (coeff_neg c) = - coeff_eval h c"
  unfolding coeff_neg_def mk_coeff_eval by (induction c) (auto simp: term_eval_def of_rat_minus)

lemma coeff_neg_exact: "coeff_exact c \<Longrightarrow> coeff_exact (coeff_neg c)"
  unfolding coeff_neg_def by (intro mk_coeff_exact) (auto simp: coeff_exact_def)

lemma coeff_sub_eval:
  "coeff_sub c d = Inr e \<Longrightarrow> coeff_exact c \<Longrightarrow> coeff_exact d
    \<Longrightarrow> coeff_eval h e = coeff_eval h c - coeff_eval h d \<and> coeff_exact e"
  unfolding coeff_sub_def by (drule coeff_add_eval) (auto simp: coeff_neg_eval coeff_neg_exact)

lemma coeff_map_eval:
  assumes "traverse (\<lambda>(p, v). bindR (f v) (\<lambda>w. Inr (p, w))) c = Inr out" and "coeff_exact c"
    and "\<And>v w. is_exact v \<Longrightarrow> v \<in> snd ` set c \<Longrightarrow> f v = Inr w \<Longrightarrow> num_value w = num_value v * k \<and> is_exact w"
  shows "coeff_eval h out = coeff_eval h c * of_rat k \<and> coeff_exact out"
  using assms
proof (induction c arbitrary: out)
  case Nil
  then show ?case by simp
next
  case (Cons t c)
  obtain p v where t: "t = (p, v)" by fastforce
  from Cons.prems(1) obtain w out' where w: "f v = Inr w" and out: "out = (p, w) # out'"
      and rest: "traverse (\<lambda>(p, v). bindR (f v) (\<lambda>w. Inr (p, w))) c = Inr out'"
    by (auto simp: t)
  have "num_value w = num_value v * k \<and> is_exact w"
    using Cons.prems(2,3) w by (auto simp: t coeff_exact_def)
  moreover have "coeff_eval h out' = coeff_eval h c * of_rat k \<and> coeff_exact out'"
    using Cons.prems(2,3) by (intro Cons.IH [OF rest]) (auto simp: coeff_exact_def)
  ultimately show ?case
    by (auto simp: t out term_eval_def coeff_exact_def of_rat_mult algebra_simps)
qed

lemma coeff_scale_eval:
  "coeff_scale c x = Inr e \<Longrightarrow> coeff_exact c \<Longrightarrow> is_exact x
    \<Longrightarrow> coeff_eval h e = coeff_eval h c * of_rat (num_value x) \<and> coeff_exact e"
  unfolding coeff_scale_def
  using coeff_map_eval [of "\<lambda>v. exact_multiply v x" c _ "num_value x" h] exact_multiply_value
  by auto

lemma coeff_div_eval:
  assumes "coeff_div c x = Inr e" and "coeff_exact c" and "is_exact x"
    and "\<not> (\<exists>d. x = PyDec d)" and "\<And>d. PyDec d \<notin> snd ` set c"
  shows "coeff_eval h e = coeff_eval h c / of_rat (num_value x) \<and> coeff_exact e"
proof -
  have "num_value w = num_value v * inverse (num_value x) \<and> is_exact w"
    if "is_exact v" "v \<in> snd ` set c" "exact_divide v x = Inr w" for v w
  proof -
    have "\<not> (\<exists>d. v = PyDec d \<or> x = PyDec d)" using assms(4,5) that(2) by metis
    from exact_divide_value [OF that(3,1) assms(3) this] show ?thesis by (simp add: divide_inverse)
  qed
  then show ?thesis
    using assms coeff_map_eval [of "\<lambda>v. exact_divide v x" c _ "inverse (num_value x)" h]
    by (auto simp: coeff_div_def divide_inverse of_rat_inverse)
qed

lemma coeff_mul_row:
  assumes "foldR (\<lambda>(p2, c2) out. bindR (exact_multiply c1 c2) (\<lambda>product. accumulate (p1 + p2) product out)) d c
      = Inr out"
    and "coeff_exact c" and "coeff_exact d" and "is_exact c1"
  shows "coeff_eval h out = coeff_eval h c + term_eval h (p1, c1) * coeff_eval h d \<and> coeff_exact out"
  using assms
proof (induction d arbitrary: c)
  case Nil
  then show ?case by simp
next
  case (Cons t d)
  obtain p2 c2 where t: "t = (p2, c2)" by fastforce
  from Cons.prems obtain product c' where m: "exact_multiply c1 c2 = Inr product"
      and c': "accumulate (p1 + p2) product c = Inr c'"
      and rest: "foldR (\<lambda>(p2, c2) out. bindR (exact_multiply c1 c2)
          (\<lambda>product. accumulate (p1 + p2) product out)) d c' = Inr out"
    by (auto simp: t)
  have v: "num_value product = num_value c1 * num_value c2" "is_exact product"
    using exact_multiply_value [OF m] Cons.prems(3,4) by (auto simp: t coeff_exact_def)
  then have "coeff_eval h c' = coeff_eval h c + term_eval h (p1, c1) * term_eval h (p2, c2) \<and> coeff_exact c'"
    using accumulate_eval [OF c' Cons.prems(2) v(2), of h]
    by (simp add: term_eval_def of_rat_mult power_add)
  with Cons.IH [OF rest] Cons.prems(3,4) show ?case by (auto simp: t coeff_exact_def algebra_simps)
qed

lemma coeff_mul_eval:
  assumes "coeff_mul c d = Inr e" and "coeff_exact c" and "coeff_exact d"
  shows "coeff_eval h e = coeff_eval h c * coeff_eval h d \<and> coeff_exact e"
proof -
  let ?row = "\<lambda>(p1, c1). foldR (\<lambda>(p2, c2) out.
      bindR (exact_multiply c1 c2) (\<lambda>product. accumulate (p1 + p2) product out)) d"
  have "coeff_eval h out = coeff_eval h acc + coeff_eval h c * coeff_eval h d \<and> coeff_exact out"
    if "foldR ?row c acc = Inr out" and "coeff_exact acc" for acc out
    using that assms(2)
  proof (induction c arbitrary: acc)
    case Nil
    then show ?case by simp
  next
    case (Cons t c)
    obtain p1 c1 where t: "t = (p1, c1)" by fastforce
    from Cons.prems(1) obtain acc' where row: "?row (p1, c1) acc = Inr acc'"
        and rest: "foldR ?row c acc' = Inr out"
      by (auto simp: t)
    have "coeff_eval h acc' = coeff_eval h acc + term_eval h (p1, c1) * coeff_eval h d \<and> coeff_exact acc'"
      using row Cons.prems(2,3) assms(3) by (intro coeff_mul_row) (auto simp: t coeff_exact_def)
    with Cons.IH [OF rest] Cons.prems(3) show ?case
      by (auto simp: t coeff_exact_def algebra_simps)
  qed
  from this [where acc = "[]"] show ?thesis
    using assms(1) by (auto simp: coeff_mul_def)
qed

text \<open>Every operation keeps the powers distinct and the coefficients non-zero.\<close>

lemma map_fst_traverse:
  "traverse (\<lambda>(p, v). bindR (f v) (\<lambda>w. Inr (p, w))) c = Inr out \<Longrightarrow> map fst out = map fst c"
  by (induction c arbitrary: out) auto

lemma coeff_operations_wf:
  assumes "coeff_wf c" and "coeff_wf d"
  shows "coeff_add c d = Inr e \<Longrightarrow> coeff_wf e" and "coeff_wf (coeff_neg c)"
    and "coeff_scale c x = Inr e \<Longrightarrow> coeff_wf e" and "coeff_div c x = Inr e \<Longrightarrow> coeff_wf e"
    and "coeff_mul c d = Inr e \<Longrightarrow> coeff_wf e"
proof -
  note accumulate_keeps = foldR_invariant [where I = "\<lambda>out. distinct (map fst out)"]
  show "coeff_add c d = Inr e \<Longrightarrow> coeff_wf e"
    using assms accumulate_keeps [of "\<lambda>(p, x). accumulate p x" d c]
    by (auto simp: coeff_add_def coeff_wf_def intro!: mk_coeff_wf [unfolded coeff_wf_def]
        dest: accumulate_distinct)
  show "coeff_wf (coeff_neg c)"
    using assms unfolding coeff_neg_def by (intro mk_coeff_wf) (simp add: coeff_wf_def comp_def case_prod_unfold)
  show "coeff_scale c x = Inr e \<Longrightarrow> coeff_wf e" "coeff_div c x = Inr e \<Longrightarrow> coeff_wf e"
    using assms(1) by (auto simp: coeff_scale_def coeff_div_def coeff_wf_def dest!: map_fst_traverse
        intro!: mk_coeff_wf [unfolded coeff_wf_def])
  show "coeff_mul c d = Inr e \<Longrightarrow> coeff_wf e"
  proof -
    assume "coeff_mul c d = Inr e"
    then obtain out where out: "foldR (\<lambda>(p1, c1). foldR (\<lambda>(p2, c2) out.
          bindR (exact_multiply c1 c2) (\<lambda>product. accumulate (p1 + p2) product out)) d) c [] = Inr out"
        and e: "e = mk_coeff out"
      by (auto simp: coeff_mul_def)
    have "distinct (map fst out)"
      by (rule accumulate_keeps [OF out])
        (auto elim!: accumulate_keeps dest: accumulate_distinct)
    then show "coeff_wf e" by (simp add: e mk_coeff_wf)
  qed
qed

section \<open>Affine combinations\<close>

text \<open>
  The part of a \<open>ProgramValue\<close> the algebra reads: its SSA id, its value type and its clock.
\<close>

record operand =
  opd_id :: nat
  opd_vtype :: string
  opd_clock :: clock

definition is_field :: "string \<Rightarrow> bool" where
  "is_field vtype \<longleftrightarrow> vtype \<in> {''state'', ''rhs'', ''scalar_field''}"

type_synonym affine = "(operand \<times> coeff) list"

text \<open>\<open>_Affine.__init__\<close>: the terms of one combination share a clock.\<close>

definition mk_affine :: "affine \<Rightarrow> affine result" where
  "mk_affine terms =
     raise_if (1 < card (set (map (\<lambda>(v, c). opd_clock v) terms))) ValueError (Inr terms)"

definition to_affine :: "operand \<Rightarrow> affine result" where
  "to_affine x =
     (if is_field (opd_vtype x) then mk_affine [(x, mk_coeff [(0, PyInt 1)])] else Inl TypeError)"

definition affine_add :: "affine \<Rightarrow> affine \<Rightarrow> affine result" where
  "affine_add a b = mk_affine (a @ b)"

definition affine_neg :: "affine \<Rightarrow> affine result" where
  "affine_neg a = mk_affine (map (\<lambda>(v, c). (v, coeff_neg c)) a)"

definition affine_sub :: "affine \<Rightarrow> affine \<Rightarrow> affine result" where
  "affine_sub a b = bindR (affine_neg b) (\<lambda>nb. mk_affine (a @ nb))"

definition affine_mul :: "affine \<Rightarrow> coeff \<Rightarrow> affine result" where
  "affine_mul a k =
     bindR (traverse (\<lambda>(v, c). bindR (coeff_mul c k) (\<lambda>d. Inr (v, d))) a) mk_affine"

definition affine_div :: "affine \<Rightarrow> pynum \<Rightarrow> affine result" where
  "affine_div a x =
     bindR (traverse (\<lambda>(v, c). bindR (coeff_div c x) (\<lambda>d. Inr (v, d))) a) mk_affine"

text \<open>\<open>_Coeff.__mul__\<close> on a field value: one weighted term.\<close>

definition coeff_times_value :: "coeff \<Rightarrow> operand \<Rightarrow> affine result" where
  "coeff_times_value c x = (if is_field (opd_vtype x) then mk_affine [(x, c)] else Inl TypeError)"

text \<open>
  \<open>_merge\<close>: repeated values are coalesced in first-seen order. The accumulator is keyed by the SSA
  id and keeps the record that was seen last.
\<close>

definition merge_term :: "operand \<times> coeff \<Rightarrow> (nat \<times> operand \<times> coeff) list
    \<Rightarrow> (nat \<times> operand \<times> coeff) list result" where
  "merge_term = (\<lambda>(v, c) acc.
     (case map_of acc (opd_id v) of
        None \<Rightarrow> Inr (dict_set (opd_id v) (v, c) acc)
      | Some (_, old) \<Rightarrow> bindR (coeff_add old c) (\<lambda>s. Inr (dict_set (opd_id v) (v, s) acc))))"

definition merge :: "affine \<Rightarrow> affine result" where
  "merge terms = bindR (foldR merge_term terms []) (\<lambda>acc. Inr (map snd acc))"

text \<open>The meaning of a combination in an environment of vectors.\<close>

definition affine_eval :: "(nat \<Rightarrow> 'v::real_vector) \<Rightarrow> real \<Rightarrow> affine \<Rightarrow> 'v" where
  "affine_eval env h a = sum_list (map (\<lambda>(v, c). coeff_eval h c *\<^sub>R env (opd_id v)) a)"

definition affine_exact :: "affine \<Rightarrow> bool" where
  "affine_exact a \<longleftrightarrow> (\<forall>(v, c) \<in> set a. coeff_exact c)"

lemma affine_eval_simps [simp]:
  "affine_eval env h [] = 0"
  "affine_eval env h ((v, c) # a) = coeff_eval h c *\<^sub>R env (opd_id v) + affine_eval env h a"
  "affine_eval env h (a @ b) = affine_eval env h a + affine_eval env h b"
  by (simp_all add: affine_eval_def)

lemma affine_exact_simps [simp]:
  "affine_exact []" "affine_exact ((v, c) # a) \<longleftrightarrow> coeff_exact c \<and> affine_exact a"
  "affine_exact (a @ b) \<longleftrightarrow> affine_exact a \<and> affine_exact b"
  by (auto simp: affine_exact_def)

lemma mk_affine_Inr [simp]: "mk_affine a = Inr b \<Longrightarrow> b = a"
  by (simp add: mk_affine_def)

lemma affine_neg_eval: "affine_neg a = Inr b \<Longrightarrow> affine_eval env h b = - affine_eval env h a"
proof -
  assume "affine_neg a = Inr b"
  then have "b = map (\<lambda>(v, c). (v, coeff_neg c)) a" unfolding affine_neg_def by (rule mk_affine_Inr)
  moreover have "affine_eval env h (map (\<lambda>(v, c). (v, coeff_neg c)) a) = - affine_eval env h a"
    by (induction a) (auto simp: coeff_neg_eval)
  ultimately show ?thesis by simp
qed

lemma affine_neg_exact: "affine_neg a = Inr b \<Longrightarrow> affine_exact a \<Longrightarrow> affine_exact b"
proof -
  assume "affine_neg a = Inr b" and "affine_exact a"
  then have "b = map (\<lambda>(v, c). (v, coeff_neg c)) a" unfolding affine_neg_def by (intro mk_affine_Inr)
  with \<open>affine_exact a\<close> show ?thesis by (auto simp: affine_exact_def coeff_neg_exact)
qed

lemma affine_map_eval:
  assumes "traverse (\<lambda>(v, c). bindR (f c) (\<lambda>d. Inr (v, d))) a = Inr out" and "affine_exact a"
    and "\<And>c d. coeff_exact c \<Longrightarrow> c \<in> snd ` set a \<Longrightarrow> f c = Inr d
           \<Longrightarrow> coeff_eval h d = coeff_eval h c * k \<and> coeff_exact d"
  shows "affine_eval env h out = k *\<^sub>R affine_eval env h a \<and> affine_exact out"
  using assms
proof (induction a arbitrary: out)
  case Nil
  then show ?case by simp
next
  case (Cons t a)
  obtain v c where t: "t = (v, c)" by fastforce
  from Cons.prems(1) obtain d out' where d: "f c = Inr d" and out: "out = (v, d) # out'"
      and rest: "traverse (\<lambda>(v, c). bindR (f c) (\<lambda>d. Inr (v, d))) a = Inr out'"
    by (auto simp: t)
  have "coeff_eval h d = coeff_eval h c * k \<and> coeff_exact d"
    using Cons.prems(2,3) d by (auto simp: t)
  moreover have "affine_eval env h out' = k *\<^sub>R affine_eval env h a \<and> affine_exact out'"
    using Cons.prems(2,3) by (intro Cons.IH [OF rest]) (auto simp: t)
  ultimately show ?case by (simp add: t out algebra_simps)
qed

lemma affine_mul_eval:
  "affine_mul a k = Inr b \<Longrightarrow> affine_exact a \<Longrightarrow> coeff_exact k
    \<Longrightarrow> affine_eval env h b = coeff_eval h k *\<^sub>R affine_eval env h a \<and> affine_exact b"
  using affine_map_eval [of "\<lambda>c. coeff_mul c k" a _ h "coeff_eval h k" env] coeff_mul_eval
  by (fastforce simp: affine_mul_def dest: mk_affine_Inr)

definition keyed :: "(nat \<times> operand \<times> coeff) list \<Rightarrow> bool" where
  "keyed acc \<longleftrightarrow> (\<forall>(k, w, d) \<in> set acc. opd_id w = k)"

lemma keyed_Nil [simp]: "keyed []"
  by (simp add: keyed_def)

lemma keyed_dict_set: "keyed acc \<Longrightarrow> opd_id w = k \<Longrightarrow> keyed (dict_set k (w, d) acc)"
  by (auto simp: keyed_def dest!: in_dict_set)

lemma affine_exact_dict_set:
  "affine_exact (map snd acc) \<Longrightarrow> coeff_exact d \<Longrightarrow> affine_exact (map snd (dict_set k (w, d) acc))"
  by (fastforce simp: affine_exact_def dest!: in_dict_set)

lemma merge_term_eval:
  assumes "merge_term (v, c) acc = Inr acc'" and "affine_exact (map snd acc)" and "coeff_exact c"
    and "keyed acc"
  shows "affine_eval env h (map snd acc') = affine_eval env h (map snd acc) + coeff_eval h c *\<^sub>R env (opd_id v)
       \<and> affine_exact (map snd acc') \<and> keyed acc'"
proof -
  let ?g = "\<lambda>k (w, d). coeff_eval h d *\<^sub>R env (opd_id w)"
  have eval: "affine_eval env h (map snd x) = sum_list (map (\<lambda>(k, p). ?g k p) x)" for x
    by (simp add: affine_eval_def comp_def case_prod_unfold)
  have keep: "affine_exact (map snd (dict_set k (w, d) acc)) \<and> keyed (dict_set k (w, d) acc)"
    if "coeff_exact d" and "opd_id w = k" for k w d
    using that assms(2,4) by (simp add: affine_exact_dict_set keyed_dict_set)
  show ?thesis
  proof (cases "map_of acc (opd_id v)")
    case None
    then have acc': "acc' = dict_set (opd_id v) (v, c) acc" using assms(1) by (simp add: merge_term_def)
    show ?thesis using keep [of c v "opd_id v"] assms(3) sum_dict_set [of ?g "opd_id v" "(v, c)" acc] None
      by (simp add: eval acc')
  next
    case (Some p)
    obtain w old where p: "p = (w, old)" by fastforce
    then obtain s where s: "coeff_add old c = Inr s" and acc': "acc' = dict_set (opd_id v) (v, s) acc"
      using assms(1) Some by (auto simp: merge_term_def)
    have w: "(opd_id v, w, old) \<in> set acc" using Some p by (simp add: map_of_SomeD)
    then have old: "coeff_exact old" "opd_id w = opd_id v" using assms(2,4) by (auto simp: affine_exact_def keyed_def)
    have "coeff_eval h s = coeff_eval h old + coeff_eval h c \<and> coeff_exact s"
      using coeff_add_eval [OF s old(1) assms(3)] .
    then show ?thesis
      using keep [of s v "opd_id v"] sum_dict_set [of ?g "opd_id v" "(v, s)" acc] Some p old(2)
      by (simp add: eval acc' algebra_simps)
  qed
qed

lemma merge_eval:
  assumes "merge a = Inr b" and "affine_exact a"
  shows "affine_eval env h b = affine_eval env h a \<and> affine_exact b"
proof -
  have "affine_eval env h (map snd out) = affine_eval env h (map snd acc) + affine_eval env h a
      \<and> affine_exact (map snd out)"
    if "foldR merge_term a acc = Inr out" "affine_exact (map snd acc)" "keyed acc"
    for acc out
    using that assms(2)
  proof (induction a arbitrary: acc)
    case Nil
    then show ?case by simp
  next
    case (Cons t a)
    obtain v c where t: "t = (v, c)" by fastforce
    from Cons.prems(1) obtain acc' where step: "merge_term (v, c) acc = Inr acc'"
        and rest: "foldR merge_term a acc' = Inr out"
      by (auto simp: t)
    show ?case
      using merge_term_eval [OF step Cons.prems(2) _ Cons.prems(3), of env h] Cons.IH [OF rest] Cons.prems(4)
      by (auto simp: t algebra_simps)
  qed
  from this [of "[]"] show ?thesis using assms(1) by (auto simp: merge_def)
qed

text \<open>The merged terms have distinct ids, in the order of first occurrence.\<close>

definition term_ids :: "affine \<Rightarrow> nat list" where
  "term_ids a = map (\<lambda>(v, c). opd_id v) a"

lemma merge_term_keys:
  assumes "merge_term (v, c) acc = Inr acc'" and "keyed acc"
  shows "map fst acc' = (if opd_id v \<in> fst ` set acc then map fst acc else map fst acc @ [opd_id v])
       \<and> keyed acc'"
proof -
  obtain w s where acc': "acc' = dict_set (opd_id v) (w, s) acc" and "opd_id w = opd_id v"
    using assms(1) by (auto simp: merge_term_def split: option.splits)
  then show ?thesis using assms(2) by (simp add: keyed_dict_set keys_dict_set)
qed

lemma merge_fold_keys:
  assumes "foldR merge_term a acc = Inr out" and "keyed acc"
    and "set seen = fst ` set acc"
  shows "map fst out = map fst acc @ dedup_aux seen (term_ids a) \<and> keyed out"
  using assms
proof (induction a arbitrary: acc seen)
  case Nil
  then show ?case by (simp add: term_ids_def)
next
  case (Cons t a)
  obtain v c where t: "t = (v, c)" by fastforce
  from Cons.prems(1) obtain acc' where step: "merge_term (v, c) acc = Inr acc'"
      and rest: "foldR merge_term a acc' = Inr out"
    by (auto simp: t)
  note keys = merge_term_keys [OF step Cons.prems(2)]
  have "fst ` set acc' = insert (opd_id v) (fst ` set acc)"
    using arg_cong [of _ _ set, OF conjunct1 [OF keys]] by (auto split: if_splits)
  then show ?case
    using Cons.IH [OF rest, of seen] Cons.IH [OF rest, of "opd_id v # seen"] keys Cons.prems(3)
    by (auto simp: t term_ids_def)
qed

lemma merge_ids:
  assumes "merge a = Inr b"
  shows "term_ids b = dedup (term_ids a)"
proof -
  obtain acc where acc: "foldR merge_term a [] = Inr acc" and b: "b = map snd acc"
    using assms by (auto simp: merge_def)
  have keys: "map fst acc = dedup (term_ids a)" and "keyed acc"
    using merge_fold_keys [OF acc, of "[]"] by (auto simp: dedup_def)
  then have "term_ids b = map fst acc"
    unfolding b term_ids_def map_map by (intro map_cong refl) (auto simp: keyed_def)
  with keys show ?thesis by simp
qed

section \<open>Local linear operators\<close>

text \<open>\<open>_Operator\<close>: \<open>c_I * I + \<Sum> c_k * L_k\<close>; the terms name operator values.\<close>

record linop =
  op_identity :: coeff
  op_terms :: affine

definition operator_add :: "linop \<Rightarrow> linop \<Rightarrow> linop result" where
  "operator_add a b =
     bindR (coeff_add (op_identity a) (op_identity b))
       (\<lambda>i. Inr \<lparr>op_identity = i, op_terms = op_terms a @ op_terms b\<rparr>)"

definition operator_neg :: "linop \<Rightarrow> linop" where
  "operator_neg a = \<lparr>op_identity = coeff_neg (op_identity a),
                     op_terms = map (\<lambda>(v, c). (v, coeff_neg c)) (op_terms a)\<rparr>"

definition operator_sub :: "linop \<Rightarrow> linop \<Rightarrow> linop result" where
  "operator_sub a b =
     bindR (coeff_sub (op_identity a) (op_identity b))
       (\<lambda>i. Inr \<lparr>op_identity = i, op_terms = op_terms a @ map (\<lambda>(v, c). (v, coeff_neg c)) (op_terms b)\<rparr>)"

definition operator_mul :: "linop \<Rightarrow> coeff \<Rightarrow> linop result" where
  "operator_mul a k =
     bindR (coeff_mul (op_identity a) k) (\<lambda>i.
     bindR (traverse (\<lambda>(v, c). bindR (coeff_mul c k) (\<lambda>d. Inr (v, d))) (op_terms a)) (\<lambda>ts.
     Inr \<lparr>op_identity = i, op_terms = ts\<rparr>))"

definition identity_operator :: linop where
  "identity_operator = \<lparr>op_identity = mk_coeff [(0, PyInt 1)], op_terms = []\<rparr>"

text \<open>An operator applied to a vector, in an environment of linear maps.\<close>

definition operator_eval ::
  "(nat \<Rightarrow> 'v::real_vector \<Rightarrow> 'v) \<Rightarrow> real \<Rightarrow> linop \<Rightarrow> 'v \<Rightarrow> 'v" where
  "operator_eval env h a u =
     coeff_eval h (op_identity a) *\<^sub>R u + affine_eval (\<lambda>i. env i u) h (op_terms a)"

definition operator_exact :: "linop \<Rightarrow> bool" where
  "operator_exact a \<longleftrightarrow> coeff_exact (op_identity a) \<and> affine_exact (op_terms a)"

lemma neg_terms_eval:
  "affine_eval env h (map (\<lambda>(v, c). (v, coeff_neg c)) a) = - affine_eval env h a"
  by (induction a) (auto simp: coeff_neg_eval)

lemma neg_terms_exact: "affine_exact a \<Longrightarrow> affine_exact (map (\<lambda>(v, c). (v, coeff_neg c)) a)"
  by (auto simp: affine_exact_def coeff_neg_exact)

section \<open>The algebra as an interface\<close>

text \<open>
  What authoring code relies on, whichever carrier it writes with: a partial algebra whose meaning
  in a real vector space is additive, negation- and scaling-compatible on its exact elements. The
  two carriers, affine combinations and local linear operators, are interpretations.
\<close>

locale term_algebra =
  fixes meaning :: "real \<Rightarrow> 'e \<Rightarrow> 'v::real_vector"
    and exact :: "'e \<Rightarrow> bool"
    and add :: "'e \<Rightarrow> 'e \<Rightarrow> 'e result"
    and neg :: "'e \<Rightarrow> 'e result"
    and mul :: "'e \<Rightarrow> coeff \<Rightarrow> 'e result"
  assumes add_meaning: "add a b = Inr c \<Longrightarrow> exact a \<Longrightarrow> exact b \<Longrightarrow> meaning h c = meaning h a + meaning h b \<and> exact c"
    and neg_meaning: "neg a = Inr c \<Longrightarrow> exact a \<Longrightarrow> meaning h c = - meaning h a \<and> exact c"
    and mul_meaning: "mul a k = Inr c \<Longrightarrow> exact a \<Longrightarrow> coeff_exact k
        \<Longrightarrow> meaning h c = coeff_eval h k *\<^sub>R meaning h a \<and> exact c"
begin

text \<open>\<open>a - b\<close>, and the accumulation \<open>expression = expression + k * value\<close> of the factories.\<close>

definition sub :: "'e \<Rightarrow> 'e \<Rightarrow> 'e result" where
  "sub a b = bindR (neg b) (add a)"

lemma sub_meaning:
  "sub a b = Inr c \<Longrightarrow> exact a \<Longrightarrow> exact b \<Longrightarrow> meaning h c = meaning h a - meaning h b \<and> exact c"
  unfolding sub_def using neg_meaning add_meaning by fastforce

definition add_scaled :: "'e \<times> coeff \<Rightarrow> 'e \<Rightarrow> 'e result" where
  "add_scaled = (\<lambda>(v, k) e. bindR (mul v k) (add e))"

lemma accumulate_meaning:
  assumes "foldR add_scaled ts e = Inr c" and "exact e" and "\<forall>(v, k) \<in> set ts. exact v \<and> coeff_exact k"
  shows "meaning h c = meaning h e + (\<Sum>(v, k) \<leftarrow> ts. coeff_eval h k *\<^sub>R meaning h v) \<and> exact c"
  using assms
proof (induction ts arbitrary: e)
  case Nil
  then show ?case by simp
next
  case (Cons t ts)
  obtain v k where t: "t = (v, k)" by fastforce
  from Cons.prems obtain kv e' where kv: "mul v k = Inr kv" and e': "add e kv = Inr e'"
      and rest: "foldR add_scaled ts e' = Inr c"
    by (auto simp: t add_scaled_def)
  have "meaning h kv = coeff_eval h k *\<^sub>R meaning h v \<and> exact kv"
    using mul_meaning [OF kv] Cons.prems(3) by (simp add: t)
  moreover from this have "meaning h e' = meaning h e + meaning h kv \<and> exact e'"
    using add_meaning [OF e'] Cons.prems(2) by simp
  ultimately show ?case using Cons.IH [OF rest] Cons.prems(3) by (simp add: t add.assoc)
qed

end

interpretation affine: term_algebra "\<lambda>h. affine_eval env h" affine_exact affine_add affine_neg affine_mul
  for env :: "nat \<Rightarrow> 'v::real_vector"
proof (unfold_locales, goal_cases)
  case (1 a b c h)
  then have "c = a @ b" by (simp add: affine_add_def mk_affine_def)
  with 1 show ?case by simp
next
  case (2 a c h)
  then show ?case by (simp add: affine_neg_eval affine_neg_exact)
next
  case (3 a k c h)
  then show ?case using affine_mul_eval by blast
qed

interpretation linear_operator: term_algebra "\<lambda>h a. operator_eval env h a u" operator_exact operator_add
  "\<lambda>a. Inr (operator_neg a)" operator_mul
  for env :: "nat \<Rightarrow> 'v \<Rightarrow> 'v::real_vector" and u
proof (unfold_locales, goal_cases)
  case (1 a b c h)
  then obtain i where "coeff_add (op_identity a) (op_identity b) = Inr i"
      and "c = \<lparr>op_identity = i, op_terms = op_terms a @ op_terms b\<rparr>"
    by (auto simp: operator_add_def)
  with 1 coeff_add_eval show ?case
    by (fastforce simp: operator_eval_def operator_exact_def algebra_simps)
next
  case (2 a c h)
  then show ?case
    by (auto simp: operator_neg_def operator_eval_def operator_exact_def coeff_neg_eval coeff_neg_exact
        neg_terms_eval neg_terms_exact)
next
  case (3 a k c h)
  then obtain i ts where i: "coeff_mul (op_identity a) k = Inr i"
      and ts: "traverse (\<lambda>(v, c). bindR (coeff_mul c k) (\<lambda>d. Inr (v, d))) (op_terms a) = Inr ts"
      and c: "c = \<lparr>op_identity = i, op_terms = ts\<rparr>"
    by (auto simp: operator_mul_def)
  have "affine_eval (\<lambda>i. env i u) h ts = coeff_eval h k *\<^sub>R affine_eval (\<lambda>i. env i u) h (op_terms a)
      \<and> affine_exact ts"
    using 3 by (intro affine_map_eval [OF ts]) (auto simp: operator_exact_def coeff_mul_eval)
  moreover have "coeff_eval h i = coeff_eval h (op_identity a) * coeff_eval h k \<and> coeff_exact i"
    using 3 by (intro coeff_mul_eval [OF i]) (auto simp: operator_exact_def)
  ultimately show ?case by (simp add: c operator_eval_def operator_exact_def algebra_simps)
qed

section \<open>Properties\<close>

text \<open>The coefficient algebra of the authoring layer is the ring of polynomials in the step
  size: on exact numbers, whenever an operation returns, its result evaluates to the sum, difference,
  negation or product of its operands for every step size, and stays exact.\<close>

theorem coefficient_algebra_is_polynomial:
  assumes "coeff_exact c" and "coeff_exact d"
  shows "(\<forall>e. coeff_add c d = Inr e \<longrightarrow> coeff_exact e \<and> (\<forall>h. coeff_eval h e = coeff_eval h c + coeff_eval h d))
    \<and> (\<forall>e. coeff_sub c d = Inr e \<longrightarrow> coeff_exact e \<and> (\<forall>h. coeff_eval h e = coeff_eval h c - coeff_eval h d))
    \<and> (\<forall>e. coeff_mul c d = Inr e \<longrightarrow> coeff_exact e \<and> (\<forall>h. coeff_eval h e = coeff_eval h c * coeff_eval h d))
    \<and> coeff_exact (coeff_neg c) \<and> (\<forall>h. coeff_eval h (coeff_neg c) = - coeff_eval h c)"
  using assms by (auto dest: coeff_add_eval coeff_sub_eval coeff_mul_eval simp: coeff_neg_eval coeff_neg_exact)

theorem coefficient_algebra_is_polynomial_witness:
  "\<exists>e. coeff_mul [(0, PyInt 1), (1, PyFrac (1/2))] [(1, PyInt 2)] = Inr e \<and> coeff_eval 3 e = coeff_eval 3 [(0, PyInt 1), (1, PyFrac (1/2))] * coeff_eval 3 [(1, PyInt 2)]"
proof -
  have "coeff_exact [(0, PyInt 1), (1, PyFrac (1/2))]" "coeff_exact [(1, PyInt 2)]" by (simp_all add: coeff_exact_def)
  moreover have "coeff_mul [(0, PyInt 1), (1, PyFrac (1/2))] [(1, PyInt 2)] = Inr [(1, PyInt 2), (2, PyFrac 1)]" by code_simp
  ultimately show ?thesis using coefficient_algebra_is_polynomial by blast
qed

text \<open>Merging an affine combination keeps its meaning and leaves one term for each value, in
  the order the values first occur.\<close>

theorem merge_keeps_meaning:
  assumes "merge a = Inr b" and "affine_exact a"
  shows "affine_eval env h b = affine_eval env h a \<and> affine_exact b
       \<and> term_ids b = dedup (term_ids a) \<and> distinct (term_ids b)"
  using merge_eval [OF assms, of env h] merge_ids [OF assms(1)] by simp

definition operand_at :: "nat \<Rightarrow> operand" where
  "operand_at i = \<lparr>opd_id = i, opd_vtype = ''state'', opd_clock = \<lparr>clk_name = ''t'', clk_owner = None\<rparr>\<rparr>"

theorem merge_keeps_meaning_witness:
  "term_ids [(operand_at 1, [(0, PyInt 3)]), (operand_at 0, [(1, PyInt 1)])]
     = dedup (term_ids [(operand_at 1, [(0, PyInt 1)]), (operand_at 0, [(1, PyInt 1)]), (operand_at 1, [(0, PyInt 2)])])"
proof -
  have "merge [(operand_at 1, [(0, PyInt 1)]), (operand_at 0, [(1, PyInt 1)]), (operand_at 1, [(0, PyInt 2)])]
      = Inr [(operand_at 1, [(0, PyInt 3)]), (operand_at 0, [(1, PyInt 1)])]"
    by code_simp
  moreover have "affine_exact [(operand_at 1, [(0, PyInt 1)]), (operand_at 0, [(1, PyInt 1)]), (operand_at 1, [(0, PyInt 2)])]"
    by (simp add: coeff_exact_def)
  ultimately show ?thesis using merge_keeps_meaning [where env = "\<lambda>_. 0::real"] by blast
qed

end
