(* ===== verification/Pops_Program.thy ===== *)
theory Pops_Program
  imports Pops_Affine "HOL-Library.Multiset"
begin

text \<open>
  The authoring builder of a time Program (\<open>python/pops/time/_program/operations.py\<close>, \<open>solve.py\<close>,
  \<open>time_handles.py\<close>): typed SSA nodes appended in creation order, records replaced in place under a
  stable id, affine combinations materialised as \<open>linear_combine\<close> nodes, solve tokens that are read
  only through a consumed outcome, and commits. Every operation takes the program state and returns
  its result with the new state. Typed spaces, field provenance, blocks of other kinds and debug
  provenance are metadata that no operation below computes with; their compatibility checks are not
  modelled.

  A program is given a meaning by evaluating its nodes in order in a real vector space. What the
  nodes call (the model's operators, the native solvers, retained histories) is a parameter.
\<close>

section \<open>Nodes and programs\<close>

datatype solve_action = FailRun | RejectAttempt

datatype node_op =
    OpState nat
  | OpRate nat
  | OpSource nat
  | OpLinear nat
  | OpApply
  | OpFieldSolve nat
  | OpSolveLocal coeff
  | OpOutcome solve_action
  | OpComponent nat
  | OpCombine "coeff list"
  | OpHistory string nat
  | OpStoreHistory string nat

record pvalue =
  pv_id :: nat
  pv_vtype :: string
  pv_op :: node_op
  pv_inputs :: "nat list"
  pv_name :: "string option"
  pv_block :: "nat option"
  pv_state :: "nat option"
  pv_point :: point

record program =
  pr_clock :: clock
  pr_values :: "pvalue list"
  pr_states :: "(nat \<times> nat) list"
  pr_commits :: "(nat \<times> nat) list"

type_synonym 'a build = "('a \<times> program) result"

definition empty_program :: "clock \<Rightarrow> program" where
  "empty_program c = \<lparr>pr_clock = c, pr_values = [], pr_states = [], pr_commits = []\<rparr>"

definition value_clock :: "pvalue \<Rightarrow> clock result" where
  "value_clock v = point_clock (pv_point v)"

text \<open>\<open>validate_input_clocks\<close>: an ordinary edge stays on one clock.\<close>

definition input_clocks_ok :: "pvalue list \<Rightarrow> clock \<Rightarrow> bool" where
  "input_clocks_ok inputs expected \<longleftrightarrow> (\<forall>v \<in> set inputs. value_clock v = Inr expected)"

text \<open>A value derived from exactly one state family keeps that family.\<close>

definition derived_state :: "pvalue list \<Rightarrow> nat option" where
  "derived_state inputs =
     (case dedup (concat (map (\<lambda>v. case pv_state v of None \<Rightarrow> [] | Some r \<Rightarrow> [r]) inputs)) of
        [r] \<Rightarrow> Some r
      | _ \<Rightarrow> None)"

text \<open>\<open>_new\<close>: the single place a node is appended.\<close>

definition new_value ::
  "string \<Rightarrow> node_op \<Rightarrow> pvalue list \<Rightarrow> string option \<Rightarrow> nat option \<Rightarrow> point option \<Rightarrow> program \<Rightarrow> pvalue build" where
  "new_value vtype operation inputs name block pt p =
     (let at' = (case pt of Some x \<Rightarrow> x
                 | None \<Rightarrow> (case inputs of v # _ \<Rightarrow> pv_point v
                            | [] \<Rightarrow> AtTime \<lparr>tp_clock = pr_clock p,
                                          tp_offset = \<lparr>lit_body = LInteger 0, lit_unit = None,
                                                       lit_target = None, lit_cpp = None\<rparr>,
                                          tp_step = 0\<rparr>))
      in bindR (point_clock at') (\<lambda>expected.
         raise_if (\<not> input_clocks_ok inputs expected) ValueError
        (raise_if (name = Some []) ValueError
           (let v = \<lparr>pv_id = length (pr_values p), pv_vtype = vtype, pv_op = operation,
                     pv_inputs = map pv_id inputs, pv_name = name, pv_block = block,
                     pv_state = (case operation of OpState r \<Rightarrow> Some r | _ \<Rightarrow> derived_state inputs),
                     pv_point = at'\<rparr>
            in Inr (v, p\<lparr>pr_values := pr_values p @ [v]\<rparr>)))))"

text \<open>\<open>_canonical_value\<close>: the current record of an SSA id.\<close>

definition canonical :: "program \<Rightarrow> pvalue \<Rightarrow> pvalue" where
  "canonical p v = (case filter (\<lambda>w. pv_id w = pv_id v) (rev (pr_values p)) of [] \<Rightarrow> v | w # _ \<Rightarrow> w)"

text \<open>\<open>_replace_value\<close> as \<open>Program.value\<close> uses it: a new name and a new point, same id.\<close>

definition replace_value :: "pvalue \<Rightarrow> string option \<Rightarrow> point \<Rightarrow> program \<Rightarrow> pvalue build" where
  "replace_value value name pt p =
     (let current = canonical p value;
          replacement = current\<lparr>pv_name := name, pv_point := pt\<rparr>
      in bindR (point_clock pt) (\<lambda>_.
         raise_if (pv_id current \<notin> set (map pv_id (pr_values p))) ValueError
           (Inr (replacement,
                 p\<lparr>pr_values := map (\<lambda>w. if pv_id w = pv_id current then replacement else w) (pr_values p)\<rparr>))))"

text \<open>\<open>_current_time_value\<close>: the state read of one state family, created once.\<close>

definition state_value :: "nat \<Rightarrow> nat \<Rightarrow> program \<Rightarrow> pvalue build" where
  "state_value ref block p =
     (case map_of (pr_states p) ref of
        Some i \<Rightarrow>
          (case filter (\<lambda>w. pv_id w = i) (pr_values p) of [] \<Rightarrow> Inl KeyError | w # _ \<Rightarrow> Inr (w, p))
      | None \<Rightarrow>
          bindR (new_value ''state'' (OpState ref) [] (Some ''state'') (Some block) None p)
            (\<lambda>(v, p'). Inr (v, p'\<lparr>pr_states := dict_set ref (pv_id v) (pr_states p')\<rparr>)))"

section \<open>Expressions\<close>

datatype expr = EValue pvalue | EAffine affine

definition operand_of :: "pvalue \<Rightarrow> operand result" where
  "operand_of v =
     bindR (value_clock v) (\<lambda>c. Inr \<lparr>opd_id = pv_id v, opd_vtype = pv_vtype v, opd_clock = c\<rparr>)"

definition expr_affine :: "expr \<Rightarrow> affine result" where
  "expr_affine e = (case e of EAffine a \<Rightarrow> Inr a | EValue v \<Rightarrow> bindR (operand_of v) to_affine)"

definition expr_add :: "expr \<Rightarrow> affine \<Rightarrow> expr result" where
  "expr_add e b = bindR (expr_affine e) (\<lambda>a. bindR (affine_add a b) (\<lambda>c. Inr (EAffine c)))"

text \<open>\<open>program.dt * coefficient * value\<close>.\<close>

definition dt_times :: "pynum \<Rightarrow> pvalue \<Rightarrow> affine result" where
  "dt_times coefficient v =
     bindR (coeff_scale coeff_dt coefficient) (\<lambda>k. bindR (operand_of v) (coeff_times_value k))"

section \<open>Materialising a value\<close>

definition record_of :: "program \<Rightarrow> nat \<Rightarrow> pvalue" where
  "record_of p i = hd (filter (\<lambda>w. pv_id w = i) (rev (pr_values p)))"

definition advances_time :: "affine \<Rightarrow> bool" where
  "advances_time a = (\<exists>(v, c) \<in> set a. \<exists>(p, x) \<in> set c. p \<noteq> 0)"

text \<open>The terms rewritten to the current records of their values.\<close>

definition canonical_terms :: "program \<Rightarrow> affine \<Rightarrow> affine result" where
  "canonical_terms p terms =
     raise_if (\<not> set (term_ids terms) \<subseteq> set (map pv_id (pr_values p))) ValueError
       (bindR (traverse (\<lambda>(v, c). bindR (operand_of (record_of p (opd_id v))) (\<lambda>u. Inr (u, c))) terms)
          mk_affine)"

definition linear_combine :: "string option \<Rightarrow> affine \<Rightarrow> point option \<Rightarrow> program \<Rightarrow> pvalue build" where
  "linear_combine name terms pt p =
     bindR (canonical_terms p terms) (\<lambda>raw.
     bindR (merge raw) (\<lambda>aff.
     raise_if (aff = []) ValueError
       (let inputs = map (record_of p) (term_ids aff);
            scalar = (\<lambda>v. pv_vtype v = ''scalar_field'');
            blocks = dedup (concat (map (\<lambda>v. case pv_block v of None \<Rightarrow> [] | Some b \<Rightarrow> [b]) inputs))
        in raise_if ((\<exists>v \<in> set inputs. scalar v) \<and> \<not> (\<forall>v \<in> set inputs. scalar v)) ValueError
          (raise_if (pt = None \<and> (advances_time aff \<or> \<not> (\<forall>v \<in> set inputs. pv_point v = pv_point (hd inputs))))
             ValueError
          (raise_if (length blocks > 1) ValueError
             (new_value (if \<forall>v \<in> set inputs. scalar v then ''scalar_field'' else ''state'')
                (OpCombine (map (to_polynomial \<circ> snd) aff)) inputs name
                (case blocks of [] \<Rightarrow> None | b # _ \<Rightarrow> Some b)
                (case pt of Some x \<Rightarrow> Some x | None \<Rightarrow> Some (pv_point (hd inputs))) p))))))"

text \<open>\<open>Program.value\<close> with a string name.\<close>

definition program_value :: "string \<Rightarrow> expr \<Rightarrow> point option \<Rightarrow> program \<Rightarrow> pvalue build" where
  "program_value name e pt p =
     raise_if (name = []) ValueError
       (case e of
          EAffine a \<Rightarrow> linear_combine (Some name) a pt p
        | EValue v \<Rightarrow> replace_value v (Some name) (case pt of Some x \<Rightarrow> x | None \<Rightarrow> pv_point v) p)"

text \<open>\<open>commit\<close> / \<open>commit_many\<close>: every check precedes the first change.\<close>

record endpoint =
  ep_state :: nat
  ep_block :: nat
  ep_point :: point

definition check_commit :: "program \<Rightarrow> endpoint \<times> pvalue \<Rightarrow> unit result" where
  "check_commit p = (\<lambda>(e, v).
     raise_if (pv_vtype v \<notin> {''state'', ''scalar_field''}) TypeError
    (bindR (value_clock v) (\<lambda>c. bindR (point_clock (ep_point e)) (\<lambda>d.
     raise_if (c \<noteq> d) ValueError
    (raise_if (pv_point v \<noteq> ep_point e) ValueError
    (raise_if (pv_block v \<noteq> Some (ep_block e)) ValueError
    (raise_if (ep_state e \<in> fst ` set (pr_commits p)) ValueError (Inr ()))))))))"

definition commit_many :: "(endpoint \<times> pvalue) list \<Rightarrow> program \<Rightarrow> unit build" where
  "commit_many mapping p =
     raise_if (mapping = []) ValueError
       (bindR (traverse (check_commit p) mapping)
          (\<lambda>_. Inr ((), p\<lparr>pr_commits := foldl (\<lambda>cs (e, v). dict_set (ep_state e) (pv_id v) cs)
                                          (pr_commits p) mapping\<rparr>)))"

text \<open>\<open>commit\<close>: the same endpoint rules for one value, which must also descend from that state.\<close>

definition commit :: "endpoint \<Rightarrow> pvalue \<Rightarrow> program \<Rightarrow> unit build" where
  "commit e v p =
     raise_if (pv_block v \<noteq> Some (ep_block e)) ValueError
    (bindR (value_clock v) (\<lambda>c. bindR (point_clock (ep_point e)) (\<lambda>d.
     raise_if (c \<noteq> d) ValueError
    (raise_if (pv_point v \<noteq> ep_point e) ValueError
    (raise_if (pv_vtype v \<notin> {''state'', ''scalar_field''}) TypeError
    (raise_if (pv_state v \<notin> {None, Some (ep_state e)}) ValueError
    (raise_if (ep_state e \<in> fst ` set (pr_commits p)) ValueError
       (Inr ((), p\<lparr>pr_commits := dict_set (ep_state e) (pv_id v) (pr_commits p)\<rparr>)))))))))"

section \<open>The meaning of a program\<close>

text \<open>
  What a program computes with: the states at the start of the step, the model's operators, the
  native local solver and the retained histories.
\<close>

record 'v interp =
  in_state :: "nat \<Rightarrow> 'v"
  in_rate :: "nat \<Rightarrow> 'v list \<Rightarrow> 'v"
  in_source :: "nat \<Rightarrow> 'v list \<Rightarrow> 'v"
  in_linear :: "nat \<Rightarrow> 'v list \<Rightarrow> 'v \<Rightarrow> 'v"
  in_field :: "nat \<Rightarrow> 'v list \<Rightarrow> 'v"
  in_solve :: "('v \<Rightarrow> 'v) \<Rightarrow> 'v \<Rightarrow> 'v"
  in_history :: "string \<Rightarrow> nat \<Rightarrow> 'v"

text \<open>A node's value: a vector, or a linear map for an operator value.\<close>

datatype 'v val = Vec (vec: 'v) | Lin "'v \<Rightarrow> 'v"

fun lin :: "'v val \<Rightarrow> 'v \<Rightarrow> 'v" where
  "lin (Lin f) = f"
| "lin (Vec x) = (\<lambda>_. x)"

type_synonym 'v env = "nat \<Rightarrow> 'v val"

fun node_val :: "('v::real_vector) interp \<Rightarrow> real \<Rightarrow> 'v env \<Rightarrow> node_op \<Rightarrow> nat list \<Rightarrow> 'v val" where
  "node_val I h env (OpState r) xs = Vec (in_state I r)"
| "node_val I h env (OpRate k) xs = Vec (in_rate I k (map (\<lambda>i. vec (env i)) xs))"
| "node_val I h env (OpSource k) xs = Vec (in_source I k (map (\<lambda>i. vec (env i)) xs))"
| "node_val I h env (OpLinear k) xs = Lin (in_linear I k (map (\<lambda>i. vec (env i)) xs))"
| "node_val I h env OpApply xs = Vec (lin (env (xs ! 0)) (vec (env (xs ! 1))))"
| "node_val I h env (OpFieldSolve k) xs = Vec (in_field I k (map (\<lambda>i. vec (env i)) xs))"
| "node_val I h env (OpSolveLocal a) xs =
     Vec (in_solve I (\<lambda>u. u - coeff_eval h a *\<^sub>R lin (env (xs ! 1)) u) (vec (env (xs ! 0))))"
| "node_val I h env (OpOutcome _) xs = env (xs ! 0)"
| "node_val I h env (OpComponent _) xs = env (xs ! 0)"
| "node_val I h env (OpCombine cs) xs =
     Vec (\<Sum>(i, c) \<leftarrow> zip xs cs. coeff_eval h c *\<^sub>R vec (env i))"
| "node_val I h env (OpHistory name lag) xs = Vec (in_history I name lag)"
| "node_val I h env (OpStoreHistory name depth) xs = env (xs ! 0)"

definition eval_from :: "('v::real_vector) interp \<Rightarrow> real \<Rightarrow> pvalue list \<Rightarrow> 'v env \<Rightarrow> 'v env" where
  "eval_from I h vs env = foldl (\<lambda>e v. e(pv_id v := node_val I h e (pv_op v) (pv_inputs v))) env vs"

definition program_env :: "('v::real_vector) interp \<Rightarrow> real \<Rightarrow> program \<Rightarrow> 'v env" where
  "program_env I h p = eval_from I h (pr_values p) (\<lambda>_. Vec 0)"

text \<open>
  Well-formed programs: ids are positions, inputs come first, and the bookkeeping names values of the
  program. Every builder operation keeps this and leaves the values built so far unchanged.
\<close>

definition program_ok :: "program \<Rightarrow> bool" where
  "program_ok p \<longleftrightarrow> (\<forall>i < length (pr_values p). pv_id (pr_values p ! i) = i
       \<and> (\<forall>j \<in> set (pv_inputs (pr_values p ! i)). j < i))
     \<and> (\<forall>(r, i) \<in> set (pr_states p). i < length (pr_values p) \<and> pv_op (pr_values p ! i) = OpState r)
     \<and> (\<forall>(r, i) \<in> set (pr_commits p). i < length (pr_values p))"

definition in_program :: "program \<Rightarrow> pvalue \<Rightarrow> bool" where
  "in_program p v \<longleftrightarrow> pv_id v < length (pr_values p)"

text \<open>\<open>extends p q\<close>: \<open>q\<close> has every node of \<open>p\<close>, up to names and points, and perhaps more.\<close>

definition same_node :: "pvalue \<Rightarrow> pvalue \<Rightarrow> bool" where
  "same_node v w \<longleftrightarrow> pv_id v = pv_id w \<and> pv_op v = pv_op w \<and> pv_inputs v = pv_inputs w
     \<and> pv_vtype v = pv_vtype w \<and> pv_block v = pv_block w \<and> pv_state v = pv_state w"

definition extends :: "program \<Rightarrow> program \<Rightarrow> bool" where
  "extends p q \<longleftrightarrow> length (pr_values p) \<le> length (pr_values q)
     \<and> (\<forall>i < length (pr_values p). same_node (pr_values p ! i) (pr_values q ! i))
     \<and> pr_clock p = pr_clock q"

lemma extends_refl [simp]: "extends p p"
  by (simp add: extends_def same_node_def)

lemma same_node_trans: "same_node u v \<Longrightarrow> same_node v w \<Longrightarrow> same_node u w"
  by (simp add: same_node_def)

lemma extends_trans: "extends p q \<Longrightarrow> extends q r \<Longrightarrow> extends p r"
  by (auto simp: extends_def intro: same_node_trans)

lemma eval_from_append: "eval_from I h (vs @ ws) env = eval_from I h ws (eval_from I h vs env)"
  by (simp add: eval_from_def)

lemma eval_from_other: "i \<notin> set (map pv_id vs) \<Longrightarrow> eval_from I h vs env i = env i"
  by (induction vs arbitrary: env) (auto simp: eval_from_def)

lemma eval_from_same:
  "list_all2 same_node vs ws \<Longrightarrow> eval_from I h vs env = eval_from I h ws env"
  by (induction vs ws arbitrary: env rule: list_all2_induct) (auto simp: eval_from_def same_node_def)

lemma program_env_extends:
  assumes "extends p q" and "program_ok q" and "i < length (pr_values p)"
  shows "program_env I h q i = program_env I h p i"
proof -
  let ?n = "length (pr_values p)"
  have "list_all2 same_node (pr_values p) (take ?n (pr_values q))"
    using assms(1) by (auto simp: extends_def list_all2_conv_all_nth)
  then have "program_env I h p = eval_from I h (take ?n (pr_values q)) (\<lambda>_. Vec 0)"
    by (simp add: program_env_def eval_from_same)
  moreover have "i \<notin> set (map pv_id (drop ?n (pr_values q)))"
    using assms(2,3) by (auto simp: program_ok_def in_set_conv_nth)
  then have "eval_from I h (drop ?n (pr_values q)) env i = env i" for env :: "'a env"
    by (rule eval_from_other)
  moreover have "program_env I h q
      = eval_from I h (drop ?n (pr_values q)) (eval_from I h (take ?n (pr_values q)) (\<lambda>_. Vec 0))"
    by (simp add: program_env_def flip: eval_from_append)
  ultimately show ?thesis by simp
qed

section \<open>What the operations do\<close>

lemma new_value_spec:
  assumes "new_value vtype operation inputs name block pt p = Inr (v, q)" and "program_ok p"
    and "\<forall>w \<in> set inputs. in_program p w"
  shows "program_ok q" and "extends p q" and "in_program q v" and "pv_id v = length (pr_values p)"
    and "program_env I h q (pv_id v) = node_val I h (program_env I h p) operation (map pv_id inputs)"
    and "pv_vtype v = vtype" and "pv_op v = operation" and "pr_values q = pr_values p @ [v]"
    and "pr_states q = pr_states p" and "pr_commits q = pr_commits p"
    and "pt = Some x \<Longrightarrow> pv_point v = x" and "pv_block v = block"
proof -
  from assms(1) have v: "pv_id v = length (pr_values p)" "pv_op v = operation" "pv_inputs v = map pv_id inputs"
      "pv_vtype v = vtype" "pv_block v = block" and q: "q = p\<lparr>pr_values := pr_values p @ [v]\<rparr>"
      and pt: "pt = Some x \<Longrightarrow> pv_point v = x"
    by (auto simp: new_value_def Let_def)
  show "program_ok q" using assms(2,3)
    by (auto simp: program_ok_def q v nth_append less_Suc_eq in_program_def)
  show "extends p q" by (simp add: extends_def q nth_append same_node_def)
  show "in_program q v" "pv_id v = length (pr_values p)" by (simp_all add: in_program_def q v)
  show "program_env I h q (pv_id v) = node_val I h (program_env I h p) operation (map pv_id inputs)"
    by (simp add: program_env_def q eval_from_append) (simp add: eval_from_def v)
  show "pv_vtype v = vtype" "pv_op v = operation" "pr_values q = pr_values p @ [v]"
    "pr_states q = pr_states p" "pr_commits q = pr_commits p" "pv_block v = block"
    by (simp_all add: v q)
  show "pt = Some x \<Longrightarrow> pv_point v = x" by (rule pt)
qed

text \<open>In a well-formed program the record of an id is the node at that position.\<close>

lemma values_by_id:
  assumes "program_ok p" and "i < length (pr_values p)"
  shows "filter (\<lambda>w. pv_id w = i) (pr_values p) = [pr_values p ! i]"
proof -
  have "filter (\<lambda>w. pv_id w = i) (pr_values p) = map ((!) (pr_values p)) (filter ((=) i) [0..<length (pr_values p)])"
  proof -
    have "filter (\<lambda>w. pv_id w = i) (map ((!) (pr_values p)) [0..<length (pr_values p)])
        = map ((!) (pr_values p)) (filter (\<lambda>j. pv_id (pr_values p ! j) = i) [0..<length (pr_values p)])"
      by (simp add: filter_map comp_def)
    also have "filter (\<lambda>j. pv_id (pr_values p ! j) = i) [0..<length (pr_values p)]
        = filter ((=) i) [0..<length (pr_values p)]"
      using assms(1) by (intro filter_cong) (auto simp: program_ok_def)
    finally show ?thesis by (simp add: map_nth)
  qed
  also have "filter ((=) i) [0..<length (pr_values p)] = [i]"
    using assms(2) by (rule filter_eq_upt)
  finally show ?thesis by simp
qed

lemma canonical_nth: "program_ok p \<Longrightarrow> in_program p v \<Longrightarrow> canonical p v = pr_values p ! pv_id v"
  by (simp add: canonical_def in_program_def values_by_id flip: rev_filter)

lemma replace_value_spec:
  assumes "replace_value v name pt p = Inr (w, q)" and "program_ok p" and "in_program p v"
  shows "program_ok q" and "extends p q" and "in_program q w" and "pv_id w = pv_id v"
    and "program_env I h q i = program_env I h p i" and "length (pr_values q) = length (pr_values p)"
    and "pr_states q = pr_states p" and "pr_commits q = pr_commits p" and "pv_point w = pt"
    and "same_node (pr_values p ! pv_id v) w"
proof -
  let ?c = "pr_values p ! pv_id v"
  have id: "pv_id ?c = pv_id v" using assms(2,3) by (simp add: program_ok_def in_program_def)
  from assms(1) have w: "w = ?c\<lparr>pv_name := name, pv_point := pt\<rparr>"
    and q: "q = p\<lparr>pr_values := map (\<lambda>u. if pv_id u = pv_id v then w else u) (pr_values p)\<rparr>"
    by (auto simp: replace_value_def Let_def canonical_nth [OF assms(2,3)] id)
  have nth: "pr_values q ! i = (if i = pv_id v then w else pr_values p ! i)" if "i < length (pr_values p)" for i
    using that assms(2) by (simp add: q program_ok_def)
  have same: "same_node (pr_values p ! i) (pr_values q ! i)" if "i < length (pr_values p)" for i
    using that by (simp add: nth) (simp add: w same_node_def)
  show len: "length (pr_values q) = length (pr_values p)" by (simp add: q)
  show ok: "program_ok q"
    unfolding program_ok_def len
  proof (intro conjI allI impI ballI)
    fix i assume i: "i < length (pr_values p)"
    show "pv_id (pr_values q ! i) = i" using same [OF i] assms(2) i by (simp add: same_node_def program_ok_def)
    fix j assume "j \<in> set (pv_inputs (pr_values q ! i))"
    then show "j < i" using same [OF i] assms(2) i by (simp add: same_node_def program_ok_def)
  next
    fix x assume "x \<in> set (pr_states q)"
    then show "case x of (r, i) \<Rightarrow> i < length (pr_values p) \<and> pv_op (pr_values q ! i) = OpState r"
      using assms(2) same by (auto simp: q program_ok_def same_node_def)
  next
    fix x assume "x \<in> set (pr_commits q)"
    then show "case x of (r, i) \<Rightarrow> i < length (pr_values p)" using assms(2) by (auto simp: q program_ok_def)
  qed
  show ext: "extends p q" using same by (simp add: extends_def len) (simp add: q)
  show "in_program q w" "pv_id w = pv_id v" using assms(3) by (simp_all add: in_program_def len w id)
  show "program_env I h q i = program_env I h p i"
  proof -
    have "list_all2 same_node (pr_values p) (pr_values q)"
      using same by (simp add: list_all2_conv_all_nth len)
    then show ?thesis by (simp add: program_env_def eval_from_same)
  qed
  show "pr_states q = pr_states p" "pr_commits q = pr_commits p" "pv_point w = pt"
    "same_node (pr_values p ! pv_id v) w"
    by (simp_all add: q w same_node_def)
qed

lemma record_of_nth: "program_ok p \<Longrightarrow> i < length (pr_values p) \<Longrightarrow> record_of p i = pr_values p ! i"
  by (simp add: record_of_def values_by_id flip: rev_filter)

lemma record_of_id: "program_ok p \<Longrightarrow> i < length (pr_values p) \<Longrightarrow> pv_id (record_of p i) = i"
  by (simp add: record_of_nth) (simp add: program_ok_def)

lemma program_ids: "program_ok p \<Longrightarrow> set (map pv_id (pr_values p)) = {..<length (pr_values p)}"
proof -
  assume "program_ok p"
  then have "map pv_id (pr_values p) = [0..<length (pr_values p)]"
    by (intro nth_equalityI) (auto simp: program_ok_def)
  then show ?thesis by (metis atLeast_upt set_upt)
qed

lemma coeff_eval_sort [simp]: "coeff_eval h (sort_key f c) = coeff_eval h c"
  unfolding coeff_eval_def by (metis mset_map mset_sort sum_mset_sum_list)

lemma to_polynomial_eval [simp]: "coeff_eval h (to_polynomial c) = coeff_eval h c"
  by (simp add: to_polynomial_def)

text \<open>The authoring environment of a program: the vectors its values stand for.\<close>

definition venv :: "('v::real_vector) interp \<Rightarrow> real \<Rightarrow> program \<Rightarrow> nat \<Rightarrow> 'v" where
  "venv I h p i = vec (program_env I h p i)"

lemma combine_eval:
  "(\<Sum>(i, c) \<leftarrow> zip (term_ids a) (map (to_polynomial \<circ> snd) a). coeff_eval h c *\<^sub>R env i) = affine_eval env h a"
  by (induction a) (auto simp: term_ids_def)

lemma canonical_terms_spec:
  assumes "canonical_terms p terms = Inr raw" and "program_ok p"
  shows "affine_eval env h raw = affine_eval env h terms" and "affine_exact raw = affine_exact terms"
    and "term_ids raw = term_ids terms" and "\<forall>i \<in> set (term_ids terms). i < length (pr_values p)"
proof -
  show ids: "\<forall>i \<in> set (term_ids terms). i < length (pr_values p)"
    using assms program_ids by (auto simp: canonical_terms_def)
  from assms(1) have "list_all2 (\<lambda>(v, c) (u, d). c = d \<and> opd_id u = pv_id (record_of p (opd_id v))) terms raw"
    by (auto simp: canonical_terms_def traverse_Inr_iff operand_of_def dest!: mk_affine_Inr
        elim!: list_all2_mono)
  then have "affine_eval env h raw = affine_eval env h terms \<and> affine_exact raw = affine_exact terms
      \<and> term_ids raw = term_ids terms"
    using ids
  proof (induction terms raw rule: list_all2_induct)
    case (Cons x xs y ys)
    then show ?case using record_of_id [OF assms(2)]
      by (cases x; cases y) (auto simp: term_ids_def)
  qed simp
  then show "affine_eval env h raw = affine_eval env h terms" "affine_exact raw = affine_exact terms"
    "term_ids raw = term_ids terms"
    by auto
qed

lemma linear_combine_spec:
  assumes "linear_combine name terms pt p = Inr (v, q)" and ok: "program_ok p" and "affine_exact terms"
  shows "program_ok q" and "extends p q" and "in_program q v" and "pv_id v = length (pr_values p)"
    and "venv I h q (pv_id v) = affine_eval (venv I h p) h terms" and "pr_states q = pr_states p"
    and "pr_commits q = pr_commits p" and "pt = Some x \<Longrightarrow> pv_point v = x"
proof -
  from assms(1) obtain raw aff blk vt pt' where raw: "canonical_terms p terms = Inr raw"
    and aff: "merge raw = Inr aff"
    and new: "new_value vt (OpCombine (map (to_polynomial \<circ> snd) aff)) (map (record_of p) (term_ids aff)) name blk pt' p
      = Inr (v, q)"
    and pt': "pt = Some x \<Longrightarrow> pt' = Some x"
    by (auto simp: linear_combine_def Let_def)
  note r = canonical_terms_spec [OF raw ok]
  have ids: "set (term_ids aff) = set (term_ids terms)" using merge_ids [OF aff] r(3) by simp
  have inp: "\<forall>w \<in> set (map (record_of p) (term_ids aff)). in_program p w"
    using r(4) record_of_id [OF ok] by (auto simp: in_program_def ids)
  note s = new_value_spec [OF new ok inp]
  show "program_ok q" "extends p q" "in_program q v" "pv_id v = length (pr_values p)" "pr_states q = pr_states p"
    "pr_commits q = pr_commits p"
    by (fact s)+
  show "pt = Some x \<Longrightarrow> pv_point v = x" using s(11) pt' by simp
  have "map pv_id (map (record_of p) (term_ids aff)) = term_ids aff"
    using r(4) record_of_id [OF ok] by (intro nth_equalityI) (auto simp flip: ids)
  then have "venv I h q (pv_id v) = affine_eval (venv I h p) h aff"
    using s(5) [of I h] by (simp add: venv_def [abs_def] combine_eval)
  also have "\<dots> = affine_eval (venv I h p) h terms"
    using merge_eval [OF aff, of "venv I h p" h] assms(3) r(1) [of "venv I h p" h] r(2) by simp
  finally show "venv I h q (pv_id v) = affine_eval (venv I h p) h terms" .
qed

lemma state_value_spec:
  assumes "state_value r b p = Inr (v, q)" and "program_ok p"
  shows "program_ok q" and "extends p q" and "in_program q v" and "venv I h q (pv_id v) = in_state I r"
    and "pr_commits q = pr_commits p"
proof -
  have "program_ok q \<and> extends p q \<and> in_program q v \<and> venv I h q (pv_id v) = in_state I r
      \<and> pr_commits q = pr_commits p"
  proof (cases "map_of (pr_states p) r")
    case (Some i)
    then have i: "i < length (pr_values p)" "pv_op (pr_values p ! i) = OpState r"
      using assms(2) by (auto simp: program_ok_def dest!: map_of_SomeD)
    then have q: "q = p" and v: "v = pr_values p ! i"
      using assms Some values_by_id [OF assms(2) i(1)] by (auto simp: state_value_def)
    have "eval_from I h vs env j = in_state_val" if "list_all (\<lambda>w. pv_id w = j \<longrightarrow> pv_op w = OpState r) vs"
      and "in_state_val = Vec (in_state I r)" and "j \<in> set (map pv_id vs) \<or> env j = in_state_val" for vs env j in_state_val
      using that by (induction vs arbitrary: env) (auto simp: eval_from_def)
    from this [of i "pr_values p" "Vec (in_state I r)" "\<lambda>_. Vec 0"]
    moreover have "i \<in> set (map pv_id (pr_values p))" using i(1) by (simp only: program_ids [OF assms(2)]) simp
    ultimately have "program_env I h p i = Vec (in_state I r)"
      using assms(2) i by (auto simp: program_env_def list_all_length program_ok_def)
    then show ?thesis using i assms(2) by (simp add: q v venv_def in_program_def program_ok_def)
  next
    case None
    then obtain q' where new: "new_value ''state'' (OpState r) [] (Some ''state'') (Some b) None p = Inr (v, q')"
        and q: "q = q'\<lparr>pr_states := dict_set r (pv_id v) (pr_states q')\<rparr>"
      using assms(1) by (auto simp: state_value_def)
    note s = new_value_spec [OF new assms(2)]
    have "pv_op (pr_values q' ! pv_id v) = OpState r" using s by simp
    then have "program_ok q" using s(1,3) unfolding program_ok_def q
      by (auto simp: in_program_def dest!: in_dict_set)
    moreover have "program_env I h q = program_env I h q'" by (simp add: program_env_def q)
    ultimately show ?thesis using s(1,2,3,4,8,9,10) s(5) [of I h]
      by (auto simp: q venv_def extends_def in_program_def)
  qed
  then show "program_ok q" "extends p q" "in_program q v" "venv I h q (pv_id v) = in_state I r"
    "pr_commits q = pr_commits p"
    by auto
qed

lemma venv_extends: "extends p q \<Longrightarrow> program_ok q \<Longrightarrow> in_program p v \<Longrightarrow> venv I h q (pv_id v) = venv I h p (pv_id v)"
  by (simp add: venv_def program_env_extends in_program_def)

lemma in_program_extends: "extends p q \<Longrightarrow> in_program p v \<Longrightarrow> in_program q v"
  by (auto simp: in_program_def extends_def)

text \<open>\<open>Program.value\<close>: the named value means what its expression means.\<close>

definition expr_eval :: "('v::real_vector) interp \<Rightarrow> real \<Rightarrow> program \<Rightarrow> expr \<Rightarrow> 'v" where
  "expr_eval I h p e = (case e of EValue v \<Rightarrow> venv I h p (pv_id v) | EAffine a \<Rightarrow> affine_eval (venv I h p) h a)"

definition expr_ok :: "program \<Rightarrow> expr \<Rightarrow> bool" where
  "expr_ok p e \<longleftrightarrow> (case e of EValue v \<Rightarrow> in_program p v | EAffine a \<Rightarrow> affine_exact a)"

lemma program_value_spec:
  assumes "program_value name e pt p = Inr (v, q)" and "program_ok p" and "expr_ok p e"
  shows "program_ok q" and "extends p q" and "in_program q v" and "venv I h q (pv_id v) = expr_eval I h p e"
    and "pr_states q = pr_states p" and "pr_commits q = pr_commits p" and "pt = Some x \<Longrightarrow> pv_point v = x"
proof -
  have "program_ok q \<and> extends p q \<and> in_program q v \<and> venv I h q (pv_id v) = expr_eval I h p e
      \<and> pr_states q = pr_states p \<and> pr_commits q = pr_commits p \<and> (pt = Some x \<longrightarrow> pv_point v = x)"
  proof (cases e)
    case (EValue w)
    then have "replace_value w (Some name) (case pt of Some x \<Rightarrow> x | None \<Rightarrow> pv_point w) p = Inr (v, q)"
      using assms(1) by (simp add: program_value_def)
    note s = replace_value_spec [OF this assms(2)]
    have w: "in_program p w" using assms(3) EValue by (simp add: expr_ok_def)
    show ?thesis using s(1,2,3,4,7,8,9) [OF w] s(5) [OF w, of I h "pv_id w"]
      by (auto simp: EValue expr_eval_def venv_def)
  next
    case (EAffine a)
    then have lc: "linear_combine (Some name) a pt p = Inr (v, q)"
      using assms(1) by (simp add: program_value_def)
    show ?thesis using linear_combine_spec [OF lc assms(2)] assms(3) EAffine
      by (auto simp: expr_ok_def expr_eval_def)
  qed
  then show "program_ok q" "extends p q" "in_program q v" "venv I h q (pv_id v) = expr_eval I h p e"
    "pr_states q = pr_states p" "pr_commits q = pr_commits p" "pt = Some x \<Longrightarrow> pv_point v = x"
    by auto
qed

text \<open>Expressions built by the factories: \<open>expression + dt * coefficient * value\<close>.\<close>

lemma operand_of_id: "operand_of v = Inr u \<Longrightarrow> opd_id u = pv_id v"
  by (auto simp: operand_of_def)

lemma coeff_dt_eval [simp]: "coeff_eval h coeff_dt = h" "coeff_exact coeff_dt"
  by (simp_all add: coeff_dt_def coeff_exact_def term_eval_def mk_coeff_def)

lemma dt_times_eval:
  assumes "dt_times k v = Inr a" and "is_exact k"
  shows "affine_eval env h a = (h * of_rat (num_value k)) *\<^sub>R env (pv_id v) \<and> affine_exact a"
proof -
  obtain c u where c: "coeff_scale coeff_dt k = Inr c" and u: "operand_of v = Inr u"
      and a: "coeff_times_value c u = Inr a"
    using assms(1) by (auto simp: dt_times_def)
  have "a = [(u, c)]" using a by (auto simp: coeff_times_value_def dest: mk_affine_Inr split: if_splits)
  then show ?thesis using coeff_scale_eval [OF c _ assms(2), of h] operand_of_id [OF u] by simp
qed

lemma to_affine_eval: "to_affine u = Inr a \<Longrightarrow> affine_eval env h a = env (opd_id u) \<and> affine_exact a"
  by (auto simp: to_affine_def mk_coeff_def coeff_exact_def term_eval_def split: if_splits dest!: mk_affine_Inr)

lemma expr_affine_eval:
  assumes "expr_affine e = Inr a" and "expr_ok p e"
  shows "affine_eval (venv I h p) h a = expr_eval I h p e \<and> affine_exact a"
proof (cases e)
  case (EValue v)
  then obtain u where "operand_of v = Inr u" "to_affine u = Inr a"
    using assms(1) by (auto simp: expr_affine_def)
  then show ?thesis using to_affine_eval [of u a "venv I h p" h] operand_of_id [of v u]
    by (simp add: EValue expr_eval_def)
qed (use assms in \<open>simp add: expr_affine_def expr_eval_def expr_ok_def\<close>)

lemma expr_add_eval:
  assumes "expr_add e b = Inr e'" and "expr_ok p e" and "affine_exact b"
  shows "expr_eval I h p e' = expr_eval I h p e + affine_eval (venv I h p) h b \<and> expr_ok p e'"
proof -
  obtain a c where a: "expr_affine e = Inr a" and c: "affine_add a b = Inr c" and e': "e' = EAffine c"
    using assms(1) by (auto simp: expr_add_def)
  show ?thesis using affine.add_meaning [OF c, of "venv I h p" h] expr_affine_eval [OF a assms(2), of I h] assms(3)
    by (simp add: e' expr_eval_def expr_ok_def)
qed

section \<open>Properties\<close>

text \<open>Any sequence of authoring calls on values of the program.\<close>

inductive builds :: "program \<Rightarrow> program \<Rightarrow> bool" where
  append: "new_value vtype operation inputs name block pt p = Inr (v, q) \<Longrightarrow> \<forall>w \<in> set inputs. in_program p w \<Longrightarrow> builds p q"
| read: "state_value r b p = Inr (v, q) \<Longrightarrow> builds p q"
| name: "program_value n e pt p = Inr (v, q) \<Longrightarrow> expr_ok p e \<Longrightarrow> builds p q"
| commit: "commit ep v p = Inr ((), q) \<Longrightarrow> in_program p v \<Longrightarrow> builds p q"
| commit_many: "commit_many mapping p = Inr ((), q) \<Longrightarrow> \<forall>(ep, v) \<in> set mapping. in_program p v \<Longrightarrow> builds p q"

definition commits_kept :: "program \<Rightarrow> program \<Rightarrow> bool" where
  "commits_kept p q \<longleftrightarrow> (\<forall>r i. map_of (pr_commits p) r = Some i \<longrightarrow> map_of (pr_commits q) r = Some i)"

lemma commits_only:
  assumes "program_ok p" and "\<forall>(r, i) \<in> set cs. i < length (pr_values p)"
  shows "program_ok (p\<lparr>pr_commits := cs\<rparr>)" and "extends p (p\<lparr>pr_commits := cs\<rparr>)"
  using assms by (auto simp: program_ok_def extends_def same_node_def)

lemma commit_many_fold:
  assumes "\<forall>(e, v) \<in> set m. in_program p v" and "\<forall>(r, i) \<in> set cs. i < length (pr_values p)"
    and "\<forall>(e, v) \<in> set m. map_of cs0 (ep_state e) = None"
    and "\<forall>r i. map_of cs0 r = Some i \<longrightarrow> map_of cs r = Some i"
  shows "(\<forall>(r, i) \<in> set (foldl (\<lambda>cs (e, v). dict_set (ep_state e) (pv_id v) cs) cs m). i < length (pr_values p))
     \<and> (\<forall>r i. map_of cs0 r = Some i \<longrightarrow> map_of (foldl (\<lambda>cs (e, v). dict_set (ep_state e) (pv_id v) cs) cs m) r = Some i)"
  using assms
proof (induction m arbitrary: cs)
  case (Cons x m)
  obtain e v where x: "x = (e, v)" by fastforce
  have "\<forall>(r, i) \<in> set (dict_set (ep_state e) (pv_id v) cs). i < length (pr_values p)"
    using Cons.prems(1,2) x by (auto simp: in_program_def dest!: in_dict_set)
  moreover have "\<forall>r i. map_of cs0 r = Some i \<longrightarrow> map_of (dict_set (ep_state e) (pv_id v) cs) r = Some i"
    using Cons.prems(3,4) x by auto
  ultimately show ?case using Cons.IH [of "dict_set (ep_state e) (pv_id v) cs"] Cons.prems(1,3) by (simp add: x)
qed simp

inductive_cases buildsE: "builds p q"

lemma builds_keeps:
  assumes "builds p q" and "program_ok p"
  shows "program_ok q \<and> extends p q \<and> commits_kept p q"
proof (rule buildsE [OF assms(1)])
  show ?thesis if "new_value vtype operation inputs name block pt p = Inr (v, q)" "\<forall>w \<in> set inputs. in_program p w"
    for vtype operation inputs name block pt v
    using new_value_spec [OF that(1) assms(2) that(2)] by (simp add: commits_kept_def)
  show ?thesis if "state_value r b p = Inr (v, q)" for r b v
    using state_value_spec [OF that assms(2)] by (simp add: commits_kept_def)
  show ?thesis if "program_value n e pt p = Inr (v, q)" "expr_ok p e" for n e pt v
    using program_value_spec [OF that(1) assms(2) that(2)] by (simp add: commits_kept_def)
  show ?thesis if c: "commit ep v p = Inr ((), q)" and v: "in_program p v" for ep v
  proof -
    have q: "q = p\<lparr>pr_commits := dict_set (ep_state ep) (pv_id v) (pr_commits p)\<rparr>"
      and new: "ep_state ep \<notin> fst ` set (pr_commits p)"
      using c by (auto simp: commit_def)
    have "\<forall>(r, i) \<in> set (dict_set (ep_state ep) (pv_id v) (pr_commits p)). i < length (pr_values p)"
      using assms(2) v by (auto simp: program_ok_def in_program_def dest!: in_dict_set)
    moreover have "map_of (pr_commits p) (ep_state ep) = None" using new by (simp add: map_of_eq_None_iff)
    ultimately show ?thesis using commits_only [OF assms(2)] by (auto simp: q commits_kept_def)
  qed
  show ?thesis if c: "commit_many mapping p = Inr ((), q)" and v: "\<forall>(ep, v) \<in> set mapping. in_program p v" for mapping
  proof -
    let ?cs = "foldl (\<lambda>cs (e, v). dict_set (ep_state e) (pv_id v) cs) (pr_commits p) mapping"
    obtain us where q: "q = p\<lparr>pr_commits := ?cs\<rparr>" and "traverse (check_commit p) mapping = Inr us"
      using c by (auto simp: commit_many_def)
    then have chk: "\<forall>x \<in> set mapping. check_commit p x = Inr ()"
      by (force simp: traverse_Inr_iff list_all2_conv_all_nth in_set_conv_nth)
    have new: "\<forall>(e, v) \<in> set mapping. map_of (pr_commits p) (ep_state e) = None"
      using chk by (fastforce simp: check_commit_def map_of_eq_None_iff)
    have "\<forall>(r, i) \<in> set (pr_commits p). i < length (pr_values p)" using assms(2) by (simp add: program_ok_def)
    from commit_many_fold [OF v this new] commits_only [OF assms(2)] show ?thesis by (auto simp: q commits_kept_def)
  qed
qed

text \<open>Claim C31. Authoring only ever extends a Program: along every sequence of authoring calls the ids
  stay positions, every input precedes its node, a value that was built keeps its meaning in every
  interpretation and for every step size, and a state that was committed keeps its commit.\<close>

theorem authoring_extends:
  assumes "builds\<^sup>*\<^sup>* (empty_program c) p" and "builds\<^sup>*\<^sup>* p q" and "in_program p v"
  shows "program_ok p \<and> program_ok q \<and> commits_kept p q \<and> in_program q v
       \<and> venv I h q (pv_id v) = venv I h p (pv_id v)"
proof -
  have run: "program_ok t \<and> extends s t \<and> commits_kept s t" if "builds\<^sup>*\<^sup>* s t" "program_ok s" for s t
    using that
  proof (induction rule: rtranclp_induct)
    case base
    then show ?case by (simp add: commits_kept_def)
  next
    case (step u t)
    then show ?case using builds_keeps [of u t] extends_trans [of s u t] by (auto simp: commits_kept_def)
  qed
  have "program_ok (empty_program c)" by (simp add: program_ok_def empty_program_def)
  then have p: "program_ok p" using run [OF assms(1)] by simp
  note q = run [OF assms(2) p]
  then show ?thesis using p assms(3) venv_extends [of p q v I h] in_program_extends [of p q v] by simp
qed

definition day_clock :: clock where
  "day_clock = \<lparr>clk_name = ''t'', clk_owner = None\<rparr>"

definition one_state :: "pvalue \<times> program" where
  "one_state = (case state_value 7 3 (empty_program day_clock) of Inr x \<Rightarrow> x | Inl _ \<Rightarrow> undefined)"

theorem authoring_extends_witness:
  "program_ok (snd one_state) \<and> in_program (snd one_state) (fst one_state)"
proof -
  have built: "state_value 7 3 (empty_program day_clock) = Inr (fst one_state, snd one_state)" by code_simp
  have "builds\<^sup>*\<^sup>* (empty_program day_clock) (snd one_state)" using builds.read [OF built] by blast
  moreover have "in_program (snd one_state) (fst one_state)" by code_simp
  ultimately show ?thesis using authoring_extends [where I = "undefined :: real interp"] by blast
qed

text \<open>Naming an expression means the expression: the value \<open>Program.value\<close> returns evaluates
  to its affine combination or aliased value in every interpretation, sits at the requested point, and
  no other part of the Program changes.\<close>

theorem named_value_is_its_expression:
  assumes "builds\<^sup>*\<^sup>* (empty_program c) p" and "program_value name e pt p = Inr (v, q)" and "expr_ok p e"
  shows "venv I h q (pv_id v) = expr_eval I h p e \<and> extends p q \<and> pr_commits q = pr_commits p
       \<and> (\<forall>x. pt = Some x \<longrightarrow> pv_point v = x)"
proof -
  have "program_ok p"
    using assms(1)
  proof (induction rule: rtranclp_induct)
    case base
    show ?case by (simp add: program_ok_def empty_program_def)
  next
    case (step u t)
    then show ?case using builds_keeps by blast
  qed
  with program_value_spec [OF assms(2) this assms(3)] show ?thesis by blast
qed

theorem named_value_is_its_expression_witness:
  "\<exists>v q. program_value ''x'' (EValue (fst one_state)) None (snd one_state) = Inr (v, q)
     \<and> (\<forall>I h. venv (I :: real interp) h q (pv_id v) = expr_eval I h (snd one_state) (EValue (fst one_state)))"
proof -
  have built: "state_value 7 3 (empty_program day_clock) = Inr (fst one_state, snd one_state)" by code_simp
  have run: "builds\<^sup>*\<^sup>* (empty_program day_clock) (snd one_state)" using builds.read [OF built] by blast
  have ok: "expr_ok (snd one_state) (EValue (fst one_state))" by code_simp
  have "\<not> isl (program_value ''x'' (EValue (fst one_state)) None (snd one_state))" by code_simp
  then obtain v q where named: "program_value ''x'' (EValue (fst one_state)) None (snd one_state) = Inr (v, q)"
    by (cases "program_value ''x'' (EValue (fst one_state)) None (snd one_state)") auto
  have "venv (I :: real interp) h q (pv_id v) = expr_eval I h (snd one_state) (EValue (fst one_state))" for I h
    using named_value_is_its_expression [OF run named ok] by blast
  with named show ?thesis by blast
qed

end
