(* ===== verification/Pops_Integrators.thy ===== *)
theory Pops_Integrators
  imports Pops_Program Pops_RK_Steps
begin

text \<open>
  The time-method factories (\<open>python/pops/lib/time/\<close>): explicit Runge--Kutta over one or several
  block-state routes with an optional shared field solve (\<open>rk.py\<close>), and the helpers they share
  (\<open>_factory.py\<close>, \<open>_helpers.py\<close>). Display names omit the stage and route counters. Each factory is the function on builder programs the Python
  code is; its theorem states what the committed value of the built program is, for every step
  size, every initial state and every meaning of the operators it calls.
\<close>

section \<open>Helpers of the factories\<close>

text \<open>
  An operator handle with the number of state/field inputs its declared signature has, and what a
  call of it lowers to: a rate, a local source or a local linear operator.
\<close>

datatype operator_kind = Rate | Source | Linear

record operator_handle =
  oh_id :: nat
  oh_kind :: operator_kind
  oh_arity :: nat

fun call_op :: "operator_kind \<Rightarrow> nat \<Rightarrow> node_op" where
  "call_op Rate k = OpRate k"
| "call_op Source k = OpSource k"
| "call_op Linear k = OpLinear k"

fun call_vtype :: "operator_kind \<Rightarrow> string" where
  "call_vtype Rate = ''rhs''"
| "call_vtype Source = ''rhs''"
| "call_vtype Linear = ''operator''"

text \<open>\<open>_stage_point\<close>: offsets are normalised coefficients of the tableau.\<close>

definition stage_point_of :: "program \<Rightarrow> string \<Rightarrow> (string \<times> pynum) list \<Rightarrow> point result" where
  "stage_point_of p name coordinates =
     raise_if (coordinates = []) TypeError
       (bindR (traverse (\<lambda>(pname, offset).
                  bindR (mk_time_point (pr_clock p) (author offset) 0) (\<lambda>t. Inr (pname, t))) coordinates)
          (\<lambda>ts. bindR (mk_stage_point name ts) (\<lambda>s. Inr (AtStage s))))"

text \<open>\<open>call_at\<close>: the call reads as many candidate arguments as the operator declares.\<close>

definition call_at ::
  "operator_handle \<Rightarrow> pvalue option list \<Rightarrow> string \<Rightarrow> point \<Rightarrow> program \<Rightarrow> pvalue build" where
  "call_at handle candidates name pt p =
     (let args = take (oh_arity handle) candidates
      in raise_if (None \<in> set args \<or> length args < oh_arity handle) TypeError
        (bindR (new_value (call_vtype (oh_kind handle)) (call_op (oh_kind handle) (oh_id handle))
                  (map the args) None (case args of Some v # _ \<Rightarrow> pv_block v | _ \<Rightarrow> None) None p)
          (\<lambda>(v, p'). program_value name (EValue v) (Some pt) p')))"

text \<open>\<open>outcome.consume(action=...)\<close>: the outcome node, then its readable component.\<close>

definition consume :: "pvalue \<Rightarrow> string \<Rightarrow> solve_action \<Rightarrow> program \<Rightarrow> pvalue build" where
  "consume token name action p =
     bindR (new_value ''solve_outcome'' (OpOutcome action) [token] (Some (name @ ''_outcome''))
              (pv_block token) (Some (pv_point token)) p)
       (\<lambda>(outcome, p'). new_value (pv_vtype token) (OpComponent 0) [outcome] (Some name)
                         (pv_block token) (Some (pv_point token)) p')"

text \<open>\<open>_call_field_at\<close>: states are moved to the physical coordinate of the solve, then solved.\<close>

definition field_point :: "point \<Rightarrow> pvalue list \<Rightarrow> time_point result" where
  "field_point pt states =
     (case pt of
        AtTime t \<Rightarrow> Inr t
      | AtStage s \<Rightarrow>
          (case stage_time s of
             Inr t \<Rightarrow> Inr t
           | Inl _ \<Rightarrow>
               (case dedup (map pv_point states) of
                  [AtTime t] \<Rightarrow> Inr t
                | _ \<Rightarrow> Inl ValueError)))"

definition align_state :: "string \<Rightarrow> point \<Rightarrow> pvalue \<Rightarrow> program \<Rightarrow> pvalue build" where
  "align_state name pt state p =
     (if pv_point state = pt then Inr (state, p) else program_value name (EValue state) (Some pt) p)"

fun build_list :: "('a \<Rightarrow> program \<Rightarrow> 'b build) \<Rightarrow> 'a list \<Rightarrow> program \<Rightarrow> 'b list build" where
  "build_list f [] p = Inr ([], p)"
| "build_list f (x # xs) p =
     bindR (f x p) (\<lambda>(y, p'). bindR (build_list f xs p') (\<lambda>(ys, p''). Inr (y # ys, p'')))"

definition call_field_at ::
  "nat \<Rightarrow> pvalue list \<Rightarrow> string \<Rightarrow> point \<Rightarrow> solve_action \<Rightarrow> program \<Rightarrow> (pvalue \<times> pvalue list) build" where
  "call_field_at field states name pt action p =
     bindR (field_point pt states) (\<lambda>t.
     bindR (build_list (align_state (name @ ''_state'') (AtTime t)) states p) (\<lambda>(aligned, p1).
     bindR (new_value ''fields'' (OpFieldSolve field) aligned (Some name)
              (case aligned of [v] \<Rightarrow> pv_block v | _ \<Rightarrow> None) None p1) (\<lambda>(token, p2).
     bindR (consume token name action p2) (\<lambda>(v, p3).
     bindR (program_value name (EValue v) (Some pt) p3) (\<lambda>(flds, p4).
     Inr ((flds, aligned), p4))))))"

section \<open>Explicit Runge--Kutta\<close>

record route =
  rt_state :: nat
  rt_block :: nat
  rt_rate :: operator_handle

text \<open>The accumulation \<open>expression + program.dt * coefficient * rate\<close>, zero coefficients skipped.\<close>

definition add_weighted :: "pynum \<times> pvalue \<Rightarrow> expr \<Rightarrow> expr result" where
  "add_weighted = (\<lambda>(coefficient, rate) e.
     if num_value coefficient = 0 then Inr e
     else bindR (dt_times coefficient rate) (expr_add e))"

definition rk_stage_state ::
  "nat \<Rightarrow> pynum list \<Rightarrow> point \<Rightarrow> string \<Rightarrow> pvalue \<times> pvalue list \<Rightarrow> program \<Rightarrow> pvalue build" where
  "rk_stage_state stage row pt name = (\<lambda>(initial, rates) p.
     if stage = 0 then Inr (initial, p)
     else raise_if (\<exists>(i, coefficient) \<in> set (enumerate 0 row). num_value coefficient \<noteq> 0 \<and> length rates \<le> i) IndexError
       (bindR (foldR add_weighted (zip row rates) (EValue initial))
          (\<lambda>e. program_value name e (Some pt) p)))"

text \<open>One stage: stage states, optional field solve, then one rate per route.\<close>

definition rk_stage ::
  "operator_handle list \<Rightarrow> nat option \<Rightarrow> solve_action \<Rightarrow> string \<Rightarrow> pvalue list \<Rightarrow> pynum list \<Rightarrow> pynum
     \<Rightarrow> nat \<Rightarrow> pvalue list list \<Rightarrow> program \<Rightarrow> pvalue list list build" where
  "rk_stage rates flds action tag initials row c stage stage_rates p =
     bindR (stage_point_of p (tag @ ''_stage'') [(''main'', c)]) (\<lambda>pt.
     bindR (build_list (rk_stage_state stage row pt (tag @ ''_U'')) (zip initials stage_rates) p)
       (\<lambda>(stage_states, p1).
     bindR (case flds of
              None \<Rightarrow> Inr ((None, stage_states), p1)
            | Some f \<Rightarrow> bindR (call_field_at f stage_states (tag @ ''_fields'') pt action p1)
                         (\<lambda>((v, aligned), p2). Inr ((Some v, aligned), p2)))
       (\<lambda>((stage_fields, rate_states), p3).
     bindR (build_list (\<lambda>(rate, rate_state). call_at rate [Some rate_state, stage_fields] (tag @ ''_k'') pt)
              (zip rates rate_states) p3)
       (\<lambda>(ks, p4). Inr (map2 (\<lambda>rs k. rs @ [k]) stage_rates ks, p4)))))"

fun rk_stages ::
  "operator_handle list \<Rightarrow> nat option \<Rightarrow> solve_action \<Rightarrow> string \<Rightarrow> pvalue list \<Rightarrow> (pynum list \<times> pynum) list
     \<Rightarrow> nat \<Rightarrow> pvalue list list \<Rightarrow> program \<Rightarrow> pvalue list list build" where
  "rk_stages rates flds action tag initials [] stage stage_rates p = Inr (stage_rates, p)"
| "rk_stages rates flds action tag initials ((row, c) # rows) stage stage_rates p =
     bindR (rk_stage rates flds action tag initials row c stage stage_rates p)
       (\<lambda>(stage_rates', p'). rk_stages rates flds action tag initials rows (Suc stage) stage_rates' p')"

definition next_point :: "program \<Rightarrow> point result" where
  "next_point p = bindR (mk_time_point (pr_clock p) (AInt 0) 1) (\<lambda>t. Inr (AtTime t))"

definition rk_endpoint ::
  "tableau \<Rightarrow> string \<Rightarrow> route \<times> pvalue \<times> pvalue list \<Rightarrow> program \<Rightarrow> (endpoint \<times> pvalue) build" where
  "rk_endpoint t tag = (\<lambda>(r, initial, rates) p.
     raise_if (length (tab_b t) \<noteq> length rates) ValueError
       (bindR (foldR add_weighted (zip (tab_b t) rates) (EValue initial)) (\<lambda>e.
        bindR (next_point p) (\<lambda>pt.
        bindR (program_value (tag @ ''_step'') e (Some pt) p) (\<lambda>(v, p').
        Inr ((\<lparr>ep_state = rt_state r, ep_block = rt_block r, ep_point = pt\<rparr>, v), p'))))))"

definition build_explicit_runge_kutta ::
  "route list \<Rightarrow> nat option \<Rightarrow> tableau \<Rightarrow> solve_action \<Rightarrow> program \<Rightarrow> unit build" where
  "build_explicit_runge_kutta routes flds t action p =
     raise_if (routes = [] \<or> \<not> distinct (map rt_state routes)) ValueError
    (raise_if (flds \<noteq> None \<and> \<not> distinct (map rt_block routes)) ValueError
    (bindR (build_list (\<lambda>r. state_value (rt_state r) (rt_block r)) routes p) (\<lambda>(initials, p1).
     raise_if (\<exists>r \<in> set routes. oh_kind (rt_rate r) \<noteq> Rate) ValueError
       (let tag = (case tab_name t of None \<Rightarrow> ''runge_kutta'' | Some n \<Rightarrow> n)
        in raise_if (length (tab_A t) < tab_stages t \<or> length (tab_c t) < tab_stages t) IndexError
          (bindR (rk_stages (map rt_rate routes) flds action tag initials
                    (take (tab_stages t) (zip (tab_A t) (tab_c t))) 0 (map (\<lambda>_. []) routes) p1)
             (\<lambda>(stage_rates, p2).
           bindR (build_list (rk_endpoint t tag) (zip routes (zip initials stage_rates)) p2)
             (\<lambda>(endpoints, p3). commit_many endpoints p3)))))))"

section \<open>Building extends the program\<close>

definition step :: "program \<Rightarrow> program \<Rightarrow> bool" where
  "step p q \<longleftrightarrow> program_ok q \<and> extends p q \<and> pr_commits q = pr_commits p"

definition means :: "('v::real_vector) interp \<Rightarrow> real \<Rightarrow> program \<Rightarrow> pvalue \<Rightarrow> 'v \<Rightarrow> bool" where
  "means I h p v x \<longleftrightarrow> in_program p v \<and> venv I h p (pv_id v) = x"

lemma step_refl: "program_ok p \<Longrightarrow> step p p"
  by (simp add: step_def)

lemma step_trans: "step p q \<Longrightarrow> step q r \<Longrightarrow> step p r"
  by (auto simp: step_def intro: extends_trans)

lemma step_ok: "step p q \<Longrightarrow> program_ok q"
  by (simp add: step_def)

lemma means_step: "means I h p v x \<Longrightarrow> step p q \<Longrightarrow> means I h q v x"
  by (auto simp: means_def step_def venv_extends in_program_extends)

lemma means_list_step: "list_all2 (means I h p) vs xs \<Longrightarrow> step p q \<Longrightarrow> list_all2 (means I h q) vs xs"
  by (auto elim!: list_all2_mono intro: means_step)

lemma build_list_spec:
  assumes "build_list f xs p = Inr (ys, q)" and "program_ok p" and "list_all2 (Pre p) xs zs"
    and f: "\<And>x z p y q. x \<in> set xs \<Longrightarrow> program_ok p \<Longrightarrow> Pre p x z \<Longrightarrow> f x p = Inr (y, q)
           \<Longrightarrow> step p q \<and> Post q z y"
    and pre: "\<And>p q x z. Pre p x z \<Longrightarrow> step p q \<Longrightarrow> Pre q x z"
    and post: "\<And>p q z y. Post p z y \<Longrightarrow> step p q \<Longrightarrow> Post q z y"
  shows "step p q \<and> list_all2 (Post q) zs ys"
  using assms(1-4)
proof (induction xs arbitrary: p ys zs)
  case Nil
  then show ?case by (simp add: step_refl)
next
  case (Cons x xs)
  from Cons.prems(1) obtain y p' ys' where y: "f x p = Inr (y, p')" and rest: "build_list f xs p' = Inr (ys', q)"
      and ys: "ys = y # ys'"
    by auto
  from Cons.prems(3) obtain z zs' where zs: "zs = z # zs'" "Pre p x z" "list_all2 (Pre p) xs zs'"
    by (auto simp: list_all2_Cons1)
  have s: "step p p'" "Post p' z y" using Cons.prems(4) [OF _ Cons.prems(2) zs(2) y] by auto
  have pre': "list_all2 (Pre p') xs zs'" using zs(3) s(1) pre by (auto elim!: list_all2_mono)
  have "step p' q \<and> list_all2 (Post q) zs' ys'"
    by (rule Cons.IH [OF rest step_ok [OF s(1)] pre']) (rule Cons.prems(4), auto)
  then show ?case using s post by (auto simp: ys zs intro: step_trans)
qed

text \<open>The single operations in this form.\<close>

lemma new_value_means:
  assumes "new_value vtype operation inputs name block pt p = Inr (v, q)" and "program_ok p"
    and "list_all2 (means I h p) inputs xs"
  shows "step p q" and "in_program q v"
    and "program_env I h q (pv_id v) = node_val I h (program_env I h p) operation (map pv_id inputs)"
    and "map (\<lambda>i. vec (program_env I h p i)) (map pv_id inputs) = xs" and "pv_vtype v = vtype"
    and "pv_point v = (case pt of Some x \<Rightarrow> x | None \<Rightarrow> pv_point v)"
proof -
  have inp: "\<forall>w \<in> set inputs. in_program p w"
    using assms(3) by (auto simp: means_def list_all2_conv_all_nth in_set_conv_nth)
  note s = new_value_spec [OF assms(1,2) inp]
  show "step p q" "in_program q v" "pv_vtype v = vtype" using s by (simp_all add: step_def)
  show "program_env I h q (pv_id v) = node_val I h (program_env I h p) operation (map pv_id inputs)"
    by (fact s)
  show "map (\<lambda>i. vec (program_env I h p i)) (map pv_id inputs) = xs"
    using assms(3) by (auto simp: list_all2_conv_all_nth means_def venv_def intro!: nth_equalityI)
  show "pv_point v = (case pt of Some x \<Rightarrow> x | None \<Rightarrow> pv_point v)"
    using s(11) by (auto split: option.splits)
qed

lemma program_value_means:
  assumes "program_value name e pt p = Inr (v, q)" and "program_ok p" and "expr_ok p e"
  shows "step p q \<and> means I h q v (expr_eval I h p e)"
  using program_value_spec(1,2,3,6) [OF assms] program_value_spec(4) [OF assms, of I h]
  by (simp add: step_def means_def)

lemma rename_means:
  assumes "program_value name (EValue w) pt p = Inr (v, q)" and "program_ok p" and "means I h p w x"
  shows "step p q \<and> means I h q v x"
  using program_value_means [OF assms(1,2), of I h] assms(3)
  by (simp add: means_def expr_ok_def expr_eval_def)

lemma consume_means:
  assumes "consume token name action p = Inr (v, q)" and "program_ok p" and "means I h p token x"
  shows "step p q \<and> means I h q v x"
proof -
  obtain out p' where a: "new_value ''solve_outcome'' (OpOutcome action) [token] (Some (name @ ''_outcome''))
      (pv_block token) (Some (pv_point token)) p = Inr (out, p')"
    and b: "new_value (pv_vtype token) (OpComponent 0) [out] (Some name) (pv_block token)
      (Some (pv_point token)) p' = Inr (v, q)"
    using assms(1) by (auto simp: consume_def)
  have t: "list_all2 (means I h p) [token] [x]" using assms(3) by simp
  note sa = new_value_means [OF a assms(2) t]
  have out: "means I h p' out x" using sa assms(3) by (simp add: means_def venv_def)
  then have o1: "list_all2 (means I h p') [out] [x]" by simp
  note sb = new_value_means [OF b step_ok [OF sa(1)] o1]
  show ?thesis using sa(1) sb out by (auto simp: means_def venv_def intro: step_trans)
qed

lemma call_at_means:
  assumes "call_at handle candidates name pt p = Inr (v, q)" and "program_ok p"
    and "list_all2 (\<lambda>c x. case c of None \<Rightarrow> True | Some w \<Rightarrow> means I h p w x) candidates xs"
    and "oh_kind handle = Rate"
  shows "step p q \<and> means I h q v (in_rate I (oh_id handle) (take (oh_arity handle) xs))"
proof -
  let ?args = "take (oh_arity handle) candidates"
  from assms(1) obtain u p' where args: "None \<notin> set ?args"
    and new: "new_value (call_vtype (oh_kind handle)) (call_op (oh_kind handle) (oh_id handle)) (map the ?args)
        None (case ?args of Some v # _ \<Rightarrow> pv_block v | _ \<Rightarrow> None) None p = Inr (u, p')"
    and val: "program_value name (EValue u) (Some pt) p' = Inr (v, q)"
    by (auto simp: call_at_def Let_def)
  have "list_all2 (means I h p) (map the ?args) (take (oh_arity handle) xs)"
  proof -
    have *: "list_all2 (\<lambda>c x. case c of None \<Rightarrow> True | Some w \<Rightarrow> means I h p w x) ?args (take (oh_arity handle) xs)"
      using assms(3) by (rule list_all2_takeI)
    show ?thesis
      unfolding list_all2_map1
      by (rule list.rel_mono_strong [OF *]) (use args in \<open>auto split: option.splits\<close>)
  qed
  note s = new_value_means [OF new assms(2) this]
  have "means I h p' u (in_rate I (oh_id handle) (take (oh_arity handle) xs))"
    using s assms(4) by (simp add: means_def venv_def)
  from rename_means [OF val step_ok [OF s(1)] this] s(1) show ?thesis by (auto intro: step_trans)
qed

section \<open>The system step a tableau describes\<close>

text \<open>
  The reference: at every stage each route's state is advanced with the rates found so far, and the
  rates of all routes are evaluated on all the stage states. \<open>Ks\<close> lists the rates of each route.
\<close>

definition stage_states :: "real \<Rightarrow> 'v::real_vector list \<Rightarrow> rat list \<Rightarrow> 'v list list \<Rightarrow> 'v list" where
  "stage_states h ys row Ks = map2 (\<lambda>y ks. y + h *\<^sub>R combine row ks) ys Ks"

fun rk_system ::
  "('v::real_vector list \<Rightarrow> 'v list) \<Rightarrow> real \<Rightarrow> 'v list \<Rightarrow> rat list list \<Rightarrow> 'v list list \<Rightarrow> 'v list list" where
  "rk_system F h ys [] Ks = Ks"
| "rk_system F h ys (row # A) Ks =
     rk_system F h ys A (map2 (\<lambda>ks k. ks @ [k]) Ks (F (stage_states h ys row Ks)))"

definition rk_system_step ::
  "('v::real_vector list \<Rightarrow> 'v list) \<Rightarrow> real \<Rightarrow> rat list list \<Rightarrow> rat list \<Rightarrow> 'v list \<Rightarrow> 'v list" where
  "rk_system_step F h A b ys = stage_states h ys b (rk_system F h ys A (map (\<lambda>_. []) ys))"

text \<open>For one equation it is the step of the previous theory.\<close>

lemma rk_system_single: "rk_system (\<lambda>us. [f (hd us)]) h [y] A [ks] = [rk_rates f h y A ks]"
  by (induction A arbitrary: ks) (auto simp: stage_states_def)

lemma rk_system_step_single: "rk_system_step (\<lambda>us. [f (hd us)]) h A b [y] = [rk_step f h A b y]"
  by (simp add: rk_system_step_def stage_states_def rk_system_single rk_step_def)

text \<open>The rates of the routes, with the field the states determine.\<close>

definition route_rates :: "('v::real_vector) interp \<Rightarrow> operator_handle list \<Rightarrow> nat option \<Rightarrow> 'v list \<Rightarrow> 'v list" where
  "route_rates I rates flds us =
     map2 (\<lambda>rate u. in_rate I (oh_id rate)
        (take (oh_arity rate) [u, case flds of None \<Rightarrow> 0 | Some f \<Rightarrow> in_field I f us])) rates us"

lemma length_route_rates [simp]: "length (route_rates I rates flds us) = min (length rates) (length us)"
  by (simp add: route_rates_def)

lemma add_weighted_fold:
  assumes "foldR add_weighted ts e = Inr e'" and "expr_ok p e" and "\<forall>(c, v) \<in> set ts. is_exact c"
  shows "expr_eval I h p e' = expr_eval I h p e
           + h *\<^sub>R (\<Sum>(c, v) \<leftarrow> ts. of_rat (num_value c) *\<^sub>R venv I h p (pv_id v)) \<and> expr_ok p e'"
  using assms
proof (induction ts arbitrary: e)
  case Nil
  then show ?case by simp
next
  case (Cons t ts)
  obtain c v where t: "t = (c, v)" by fastforce
  from Cons.prems(1) obtain e1 where e1: "add_weighted (c, v) e = Inr e1" and rest: "foldR add_weighted ts e1 = Inr e'"
    by (auto simp: t)
  have "expr_eval I h p e1 = expr_eval I h p e + h *\<^sub>R (of_rat (num_value c) *\<^sub>R venv I h p (pv_id v)) \<and> expr_ok p e1"
  proof (cases "num_value c = 0")
    case True
    then show ?thesis using e1 Cons.prems(2) by (simp add: add_weighted_def)
  next
    case False
    then obtain a where a: "dt_times c v = Inr a" and e1': "expr_add e a = Inr e1"
      using e1 by (auto simp: add_weighted_def)
    show ?thesis
      using dt_times_eval [OF a, of "venv I h p" h] expr_add_eval [OF e1' Cons.prems(2), of I h] Cons.prems(3)
      by (simp add: t)
  qed
  then show ?case using Cons.IH [OF rest] Cons.prems(3) by (auto simp: t algebra_simps)
qed

lemma weighted_value:
  assumes "foldR add_weighted (zip cs vs) (EValue w) = Inr e" and "means I h p w y"
    and "list_all2 (means I h p) vs ks" and "\<forall>c \<in> set cs. is_exact c"
  shows "expr_eval I h p e = y + h *\<^sub>R combine (vals cs) ks \<and> expr_ok p e"
proof -
  have "expr_ok p (EValue w)" "expr_eval I h p (EValue w) = y"
    using assms(2) by (auto simp: expr_ok_def expr_eval_def means_def)
  moreover have "(\<Sum>(c, v) \<leftarrow> zip cs vs. of_rat (num_value c) *\<^sub>R venv I h p (pv_id v)) = combine (vals cs) ks"
    using assms(3)
  proof (induction cs arbitrary: vs ks)
    case Nil
    then show ?case by (simp add: combine_def vals_def)
  next
    case (Cons c cs)
    then show ?case by (cases vs; cases ks) (auto simp: combine_def vals_def means_def)
  qed
  ultimately show ?thesis
    using add_weighted_fold [OF assms(1), of p I h] assms(4) by (auto dest: set_zip_leftD)
qed

lemma stage_state_spec:
  assumes "rk_stage_state stage row pt name (w, vs) p = Inr (v, q)" and "program_ok p"
    and "means I h p w y" and "list_all2 (means I h p) vs ks" and "\<forall>c \<in> set row. is_exact c"
    and "stage = 0 \<Longrightarrow> row = []"
  shows "step p q \<and> means I h q v (y + h *\<^sub>R combine (vals row) ks)"
proof (cases "stage = 0")
  case True
  then show ?thesis using assms(1-3,6) by (simp add: rk_stage_state_def step_refl combine_def vals_def)
next
  case False
  then obtain e where e: "foldR add_weighted (zip row vs) (EValue w) = Inr e"
      and v: "program_value name e (Some pt) p = Inr (v, q)"
    using assms(1) by (auto simp: rk_stage_state_def)
  show ?thesis using weighted_value [OF e assms(3,4,5)] program_value_means [OF v assms(2), of I h] by simp
qed

lemma call_field_means:
  assumes "call_field_at f states name pt action p = Inr ((v, aligned), q)" and "program_ok p"
    and "list_all2 (means I h p) states us"
  shows "step p q \<and> means I h q v (in_field I f us) \<and> list_all2 (means I h q) aligned us"
proof -
  from assms(1) obtain t p1 token p2 w p3
    where al: "build_list (align_state (name @ ''_state'') (AtTime t)) states p = Inr (aligned, p1)"
      and tok: "new_value ''fields'' (OpFieldSolve f) aligned (Some name)
          (case aligned of [v] \<Rightarrow> pv_block v | _ \<Rightarrow> None) None p1 = Inr (token, p2)"
      and con: "consume token name action p2 = Inr (w, p3)"
      and val: "program_value name (EValue w) (Some pt) p3 = Inr (v, q)"
    by (auto simp: call_field_at_def)
  have "step p p1 \<and> list_all2 (means' p1) us aligned" if "means' = (\<lambda>p u v. means I h p v u)" for means'
  proof (rule build_list_spec [OF al assms(2), where Pre = "means I h"])
    show "list_all2 (means I h p) states us" by fact
    show "step p q \<and> means' q z y" if "program_ok p" "means I h p x z"
      "align_state (name @ ''_state'') (AtTime t) x p = Inr (y, q)" for x z p y q
      using that rename_means [of "name @ ''_state''" x "Some (AtTime t)" p y q I h z] \<open>means' = _\<close>
      by (auto simp: align_state_def step_refl split: if_splits)
  qed (auto simp: that intro: means_step)
  then have s1: "step p p1" and a1: "list_all2 (means I h p1) aligned us"
    by (auto simp: list_all2_conv_all_nth)
  note s2 = new_value_means [OF tok step_ok [OF s1] a1]
  have "means I h p2 token (in_field I f us)" using s2 by (simp add: means_def venv_def)
  then have c: "step p2 p3 \<and> means I h p3 w (in_field I f us)"
    by (rule consume_means [OF con step_ok [OF s2(1)]])
  then have r: "step p3 q \<and> means I h q v (in_field I f us)"
    by (intro rename_means [OF val]) (auto intro: step_ok)
  have "step p1 q" using s2(1) c r by (blast intro: step_trans)
  then show ?thesis using s1 r means_list_step [OF a1] by (auto intro: step_trans)
qed

lemma means_rates_step:
  "list_all2 (list_all2 (means I h p)) vss xss \<Longrightarrow> step p q \<Longrightarrow> list_all2 (list_all2 (means I h q)) vss xss"
  by (erule list_all2_mono) (rule means_list_step)

lemma snoc_rel:
  "list_all2 (list_all2 P) vss xss \<Longrightarrow> list_all2 P vs xs \<Longrightarrow>
    list_all2 (list_all2 P) (map2 (\<lambda>ws v. ws @ [v]) vss vs) (map2 (\<lambda>ys x. ys @ [x]) xss xs)"
proof (induction vss xss arbitrary: vs xs rule: list_all2_induct)
  case (Cons ws wss ys yss)
  then show ?case by (cases vs; cases xs) (auto simp: list_all2_appendI)
qed simp

lemma rk_stage_spec:
  assumes stage: "rk_stage rates flds action tag initials row c stage srs p = Inr (srs', q)" and ok: "program_ok p"
    and ini: "list_all2 (means I h p) initials ys" and srs: "list_all2 (list_all2 (means I h p)) srs Ks"
    and len: "length rates = length ys" "length Ks = length ys" and kinds: "\<forall>r \<in> set rates. oh_kind r = Rate"
    and row: "\<forall>c \<in> set row. is_exact c" "stage = 0 \<Longrightarrow> row = []"
  shows "step p q \<and> list_all2 (list_all2 (means I h q)) srs'
           (map2 (\<lambda>ks k. ks @ [k]) Ks (route_rates I rates flds (stage_states h ys (vals row) Ks)))"
proof -
  let ?us = "stage_states h ys (vals row) Ks"
  let ?phi = "case flds of None \<Rightarrow> 0 | Some f \<Rightarrow> in_field I f ?us"
  from stage obtain pt ss p1 sf rs p2 ks
    where st: "build_list (rk_stage_state stage row pt (tag @ ''_U'')) (zip initials srs) p = Inr (ss, p1)"
      and fl: "(case flds of None \<Rightarrow> Inr ((None, ss), p1)
            | Some f \<Rightarrow> bindR (call_field_at f ss (tag @ ''_fields'') pt action p1)
                         (\<lambda>((v, aligned), p2). Inr ((Some v, aligned), p2))) = Inr ((sf, rs), p2)"
      and ra: "build_list (\<lambda>(rate, rate_state). call_at rate [Some rate_state, sf] (tag @ ''_k'') pt)
              (zip rates rs) p2 = Inr (ks, q)"
      and srs': "srs' = map2 (\<lambda>rs k. rs @ [k]) srs ks"
    by (auto simp: rk_stage_def)
  let ?pre = "\<lambda>p (x :: pvalue \<times> pvalue list) z. means I h p (fst x) (fst z) \<and> list_all2 (means I h p) (snd x) (snd z)"
  let ?post = "\<lambda>p z v. means I h p v (fst z + h *\<^sub>R combine (vals row) (snd z))"
  have "step p p1 \<and> list_all2 (?post p1) (zip ys Ks) ss"
  proof (rule build_list_spec [OF st ok, where Pre = ?pre and Post = ?post])
    show "list_all2 (?pre p) (zip initials srs) (zip ys Ks)"
      using ini srs by (auto simp: list_all2_conv_all_nth)
    show "step p q \<and> ?post q z v"
      if "program_ok p" "?pre p x z" "rk_stage_state stage row pt (tag @ ''_U'') x p = Inr (v, q)" for x z p v q
      using that stage_state_spec [of stage row pt "tag @ ''_U''" "fst x" "snd x" p v q I h "fst z" "snd z"] row
      by simp
  qed (auto intro: means_step means_list_step)
  moreover have us: "map (\<lambda>z. fst z + h *\<^sub>R combine (vals row) (snd z)) (zip ys Ks) = ?us"
    by (simp add: stage_states_def case_prod_unfold)
  ultimately have s1: "step p p1" and ss: "list_all2 (means I h p1) ss ?us"
    by (auto simp: list_all2_conv_all_nth len simp flip: us)
  have f: "step p1 p2 \<and> list_all2 (means I h p2) rs ?us
      \<and> (case sf of None \<Rightarrow> True | Some v \<Rightarrow> means I h p2 v ?phi)"
  proof (cases flds)
    case None
    then show ?thesis using fl ss s1 by (auto simp: step_refl step_ok)
  next
    case (Some f)
    then obtain v where v: "call_field_at f ss (tag @ ''_fields'') pt action p1 = Inr ((v, rs), p2)" "sf = Some v"
      using fl by auto
    show ?thesis using call_field_means [OF v(1) step_ok [OF s1] ss] v(2) Some by simp
  qed
  let ?pre = "\<lambda>p (x :: operator_handle \<times> pvalue) z. fst x = fst z \<and> means I h p (snd x) (snd z)
      \<and> (case sf of None \<Rightarrow> True | Some v \<Rightarrow> means I h p v ?phi)"
  let ?post = "\<lambda>p z v. means I h p v (in_rate I (oh_id (fst z)) (take (oh_arity (fst z)) [snd z, ?phi]))"
  have "step p2 q \<and> list_all2 (?post q) (zip rates ?us) ks"
  proof (rule build_list_spec [OF ra step_ok [OF conjunct1 [OF f]], where Pre = ?pre and Post = ?post])
    show "list_all2 (?pre p2) (zip rates rs) (zip rates ?us)"
      using f by (auto simp: list_all2_conv_all_nth)
    show "step p q \<and> ?post q z y"
      if "x \<in> set (zip rates rs)" "program_ok p" "?pre p x z"
        "(case x of (rate, rate_state) \<Rightarrow> call_at rate [Some rate_state, sf] (tag @ ''_k'') pt) p = Inr (y, q)"
      for x z p y q
    proof -
      have "fst x \<in> set rates" using that(1) by (metis prod.collapse set_zip_leftD)
      then have kind: "oh_kind (fst z) = Rate" using that(3) kinds by simp
      show ?thesis
        using that(3,4) call_at_means [of "fst z" "[Some (snd x), sf]" "tag @ ''_k''" pt p y q I h "[snd z, ?phi]"]
          that(2) kind
        by (cases x) (auto split: option.splits)
    qed
  qed (auto intro: means_step split: option.splits)
  moreover have "length ?us = length ys" using len by (simp add: stage_states_def)
  ultimately have s2: "step p2 q" and ks: "list_all2 (means I h q) ks (route_rates I rates flds ?us)"
    using len by (auto simp: list_all2_conv_all_nth route_rates_def)
  have all: "step p q" using s1 f s2 by (blast intro: step_trans)
  have "list_all2 (list_all2 (means I h q)) srs Ks" by (rule means_rates_step [OF srs all])
  with ks all show ?thesis by (simp add: srs' snoc_rel)
qed

lemma rk_stages_spec:
  assumes "rk_stages rates flds action tag initials rows stage srs p = Inr (srs', q)" and "program_ok p"
    and "list_all2 (means I h p) initials ys" and "list_all2 (list_all2 (means I h p)) srs Ks"
    and "length rates = length ys" "length Ks = length ys" and "\<forall>r \<in> set rates. oh_kind r = Rate"
    and "\<forall>(row, c) \<in> set rows. \<forall>c \<in> set row. is_exact c"
    and "stage = 0 \<Longrightarrow> rows \<noteq> [] \<Longrightarrow> fst (hd rows) = []"
  shows "step p q \<and> list_all2 (list_all2 (means I h q)) srs'
           (rk_system (route_rates I rates flds) h ys (map (vals \<circ> fst) rows) Ks)"
  using assms
proof (induction rows arbitrary: stage srs p Ks)
  case Nil
  then show ?case by (simp add: step_refl)
next
  case (Cons rc rows)
  obtain row c where rc: "rc = (row, c)" by fastforce
  from Cons.prems(1) obtain srs1 p1
    where st: "rk_stage rates flds action tag initials row c stage srs p = Inr (srs1, p1)"
      and rest: "rk_stages rates flds action tag initials rows (Suc stage) srs1 p1 = Inr (srs', q)"
    by (auto simp: rc)
  let ?Ks = "map2 (\<lambda>ks k. ks @ [k]) Ks (route_rates I rates flds (stage_states h ys (vals row) Ks))"
  have s: "step p p1 \<and> list_all2 (list_all2 (means I h p1)) srs1 ?Ks"
    using Cons.prems by (intro rk_stage_spec [OF st]) (auto simp: rc)
  have len: "length ?Ks = length ys"
    using Cons.prems(5,6) by (simp add: stage_states_def)
  have "step p1 q \<and> list_all2 (list_all2 (means I h q)) srs'
      (rk_system (route_rates I rates flds) h ys (map (vals \<circ> fst) rows) ?Ks)"
    by (rule Cons.IH [OF rest step_ok [OF conjunct1 [OF s]] means_list_step [OF Cons.prems(3) conjunct1 [OF s]]
          conjunct2 [OF s] Cons.prems(5) len Cons.prems(7)])
      (use Cons.prems(8) in \<open>auto simp: rc\<close>)
  then show ?case using s by (auto simp: rc comp_def intro: step_trans)
qed

lemma endpoint_spec:
  assumes "rk_endpoint t tag (r, w, vs) p = Inr ((e, v), q)" and "program_ok p" and "means I h p w y"
    and "list_all2 (means I h p) vs ks" and "\<forall>c \<in> set (tab_b t). is_exact c"
  shows "step p q \<and> means I h q v (y + h *\<^sub>R combine (vals (tab_b t)) ks) \<and> ep_state e = rt_state r"
proof -
  from assms(1) obtain ex pt where ex: "foldR add_weighted (zip (tab_b t) vs) (EValue w) = Inr ex"
    and v: "program_value (tag @ ''_step'') ex (Some pt) p = Inr (v, q)" and e: "ep_state e = rt_state r"
    by (auto simp: rk_endpoint_def)
  show ?thesis
    using weighted_value [OF ex assms(3,4,5)] program_value_means [OF v assms(2), of I h] e by simp
qed

text \<open>The commit table after an accepted group.\<close>

lemma commit_many_lookup:
  assumes "commit_many mapping p = Inr ((), q)" and "distinct (map (ep_state \<circ> fst) mapping)"
  shows "pr_values q = pr_values p \<and> (\<forall>(e, v) \<in> set mapping. map_of (pr_commits q) (ep_state e) = Some (pv_id v))"
proof -
  have q: "q = p\<lparr>pr_commits := foldl (\<lambda>cs (e, v). dict_set (ep_state e) (pv_id v) cs) (pr_commits p) mapping\<rparr>"
    using assms(1) by (auto simp: commit_many_def)
  have other: "map_of (foldl (\<lambda>cs (e, v). dict_set (ep_state e) (pv_id v) cs) cs m) r = map_of cs r"
    if "r \<notin> set (map (ep_state \<circ> fst) m)" for cs m r
    using that by (induction m arbitrary: cs) auto
  have "\<forall>(e, v) \<in> set m. map_of (foldl (\<lambda>cs (e, v). dict_set (ep_state e) (pv_id v) cs) cs m) (ep_state e)
      = Some (pv_id v)" if "distinct (map (ep_state \<circ> fst) m)" for cs m
    using that
  proof (induction m arbitrary: cs)
    case (Cons x m)
    obtain e v where x: "x = (e, v)" by fastforce
    have "ep_state e \<notin> set (map (ep_state \<circ> fst) m)" using Cons.prems by (auto simp: x)
    from other [OF this, of "dict_set (ep_state e) (pv_id v) cs"] Cons show ?case by (auto simp: x)
  qed simp
  then show ?thesis using assms(2) by (simp add: q)
qed

section \<open>Properties\<close>

lemma length_rk_system:
  assumes "\<And>us. length us = n \<Longrightarrow> length (F us) = n" and "length ys = n" and "length Ks = n"
  shows "length (rk_system F h ys A Ks) = n"
  using assms(3) by (induction A arbitrary: Ks) (auto simp: assms stage_states_def)

definition tableau_exact :: "tableau \<Rightarrow> bool" where
  "tableau_exact t \<longleftrightarrow> (\<forall>row \<in> set (tab_A t). \<forall>c \<in> set row. is_exact c) \<and> (\<forall>c \<in> set (tab_b t). is_exact c)"

lemma empty_program_ok [simp]: "program_ok (empty_program c)"
  by (simp add: program_ok_def empty_program_def)

text \<open>What every factory below starts from: the initial values of its routes.\<close>

lemma initials_spec:
  assumes "build_list (\<lambda>r. state_value (rt_state r) (rt_block r)) routes p = Inr (initials, q)"
    and "program_ok p"
  shows "step p q \<and> list_all2 (means I h q) initials (map (in_state I \<circ> rt_state) routes)"
proof -
  have "step p q \<and> list_all2 (\<lambda>x v. means I h q v x) (map (in_state I \<circ> rt_state) routes) initials"
  proof (rule build_list_spec [OF assms, where Pre = "\<lambda>p r x. x = in_state I (rt_state r)"])
    show "step p q \<and> means I h q v x"
      if "program_ok p" "x = in_state I (rt_state r)" "state_value (rt_state r) (rt_block r) p = Inr (v, q)"
      for r x p v q
      using state_value_spec(1,2,3,5) [OF that(3,1)] state_value_spec(4) [OF that(3,1), of I h] that(2)
      by (simp add: step_def means_def)
  qed (auto simp: list_all2_conv_all_nth intro: means_step)
  then show ?thesis by (auto simp: list_all2_conv_all_nth)
qed

lemma built_runge_kutta:
  assumes built: "build_explicit_runge_kutta routes flds t action (empty_program clk) = Inr ((), q)"
    and ok: "tableau_ok t" and exact: "tableau_exact t" and i: "i < length routes"
  shows "\<exists>n. map_of (pr_commits q) (rt_state (routes ! i)) = Some n
           \<and> venv I h q n = rk_system_step (route_rates I (map rt_rate routes) flds) h
                 (map vals (tab_A t)) (vals (tab_b t)) (map (in_state I \<circ> rt_state) routes) ! i"
proof -
  let ?F = "route_rates I (map rt_rate routes) flds" and ?ys = "map (in_state I \<circ> rt_state) routes"
  let ?rows = "take (tab_stages t) (zip (tab_A t) (tab_c t))"
  from built obtain initials p1 tag srs p2 eps p3
    where ini: "build_list (\<lambda>r. state_value (rt_state r) (rt_block r)) routes (empty_program clk) = Inr (initials, p1)"
      and kinds: "\<forall>r \<in> set routes. oh_kind (rt_rate r) = Rate"
      and stages: "rk_stages (map rt_rate routes) flds action tag initials ?rows 0 (map (\<lambda>_. []) routes) p1 = Inr (srs, p2)"
      and endp: "build_list (rk_endpoint t tag) (zip routes (zip initials srs)) p2 = Inr (eps, p3)"
      and com: "commit_many eps p3 = Inr ((), q)" and dis: "distinct (map rt_state routes)"
    by (auto simp: build_explicit_runge_kutta_def Let_def)
  have A: "length (tab_A t) = tab_stages t" "length (tab_c t) = tab_stages t" "tab_stages t > 0"
      "length (tab_A t ! 0) = 0"
    using ok by (auto simp: tableau_ok_def coefficients_ok_def tab_stages_def)
  have rows: "map (vals \<circ> fst) ?rows = map vals (tab_A t)"
    using A by (intro nth_equalityI) auto
  have s1: "step (empty_program clk) p1" and y1: "list_all2 (means I h p1) initials ?ys"
    using initials_spec [OF ini] by auto
  have s2: "step p1 p2 \<and> list_all2 (list_all2 (means I h p2)) srs (rk_system ?F h ?ys (map (vals \<circ> fst) ?rows) (map (\<lambda>_. []) routes))"
  proof (rule rk_stages_spec [OF stages step_ok [OF s1] y1])
    show "list_all2 (list_all2 (means I h p1)) (map (\<lambda>_. []) routes) (map (\<lambda>_. []) routes)"
      by (simp add: list_all2_conv_all_nth)
    show "\<forall>(row, c) \<in> set ?rows. \<forall>c \<in> set row. is_exact c"
      using exact by (auto simp: tableau_exact_def dest!: in_set_takeD set_zip_leftD)
    show "fst (hd ?rows) = []" using A by (cases "tab_A t"; cases "tab_c t") auto
  qed (use kinds in auto)
  let ?Ks = "rk_system ?F h ?ys (map vals (tab_A t)) (map (\<lambda>_. []) routes)"
  have K2: "list_all2 (list_all2 (means I h p2)) srs ?Ks" using s2 by (simp add: rows)
  let ?pre = "\<lambda>p (x :: route \<times> pvalue \<times> pvalue list) z. fst x = fst z \<and> means I h p (fst (snd x)) (fst (snd z))
      \<and> list_all2 (means I h p) (snd (snd x)) (snd (snd z))"
  let ?post = "\<lambda>p (z :: route \<times> 'a \<times> 'a list) (ev :: endpoint \<times> pvalue). ep_state (fst ev) = rt_state (fst z)
      \<and> means I h p (snd ev) (fst (snd z) + h *\<^sub>R combine (vals (tab_b t)) (snd (snd z)))"
  have "step p2 p3 \<and> list_all2 (?post p3) (zip routes (zip ?ys ?Ks)) eps"
  proof (rule build_list_spec [OF endp step_ok [OF conjunct1 [OF s2]], where Pre = ?pre and Post = ?post])
    show "list_all2 (?pre p2) (zip routes (zip initials srs)) (zip routes (zip ?ys ?Ks))"
      using K2 means_list_step [OF y1 conjunct1 [OF s2]] by (auto simp: list_all2_conv_all_nth)
    show "step p q \<and> ?post q z y"
      if "program_ok p" "?pre p x z" "rk_endpoint t tag x p = Inr (y, q)" for x z p y q
    proof -
      have "rk_endpoint t tag (fst z, fst (snd x), snd (snd x)) p = Inr ((fst y, snd y), q)"
        using that(2,3) by (metis prod.collapse)
      from endpoint_spec [OF this that(1)] that(2) exact show ?thesis
        by (auto simp: tableau_exact_def)
    qed
  qed (auto intro: means_step means_list_step)
  then have s3: "step p2 p3" and eps: "list_all2 (?post p3) (zip routes (zip ?ys ?Ks)) eps" by auto
  have lenK: "length ?Ks = length routes" by (rule length_rk_system) auto
  then have len: "length eps = length routes" using list_all2_lengthD [OF eps] by simp
  have states: "map (ep_state \<circ> fst) eps = map rt_state routes"
    using eps lenK by (intro nth_equalityI) (auto simp: list_all2_conv_all_nth)
  obtain e v where ev: "eps ! i = (e, v)" by fastforce
  have v: "ep_state e = rt_state (routes ! i)"
      "means I h p3 v (?ys ! i + h *\<^sub>R combine (vals (tab_b t)) (?Ks ! i))"
    using eps i lenK len ev by (auto simp: list_all2_conv_all_nth)
  have look: "pr_values q = pr_values p3" "map_of (pr_commits q) (ep_state e) = Some (pv_id v)"
    using commit_many_lookup [OF com] states dis i len nth_mem [of i eps] ev by auto
  have "venv I h q (pv_id v) = ?ys ! i + h *\<^sub>R combine (vals (tab_b t)) (?Ks ! i)"
    using v(2) by (simp add: venv_def means_def program_env_def look(1))
  also have "\<dots> = rk_system_step ?F h (map vals (tab_A t)) (vals (tab_b t)) ?ys ! i"
    using i lenK by (simp add: rk_system_step_def stage_states_def comp_def)
  finally show ?thesis using look(2) v(1) by auto
qed

text \<open>The tableaux the package ships (\<open>rk.py\<close>, \<open>ssprk.py\<close>, \<open>euler.py\<close>).\<close>

definition forward_euler_tableau :: "tableau result" where
  "forward_euler_tableau = mk_tableau [[]] [AInt 1] (Some [AInt 0]) (Some ''forward_euler'')"

definition ssprk2_tableau :: "tableau result" where
  "ssprk2_tableau = mk_tableau [[], [AInt 1]] [AFraction (1/2), AFraction (1/2)] (Some [AInt 0, AInt 1])
     (Some ''ssprk2'')"

definition ssprk3_tableau :: "tableau result" where
  "ssprk3_tableau = mk_tableau [[], [AInt 1], [AFraction (1/4), AFraction (1/4)]]
     [AFraction (1/6), AFraction (1/6), AFraction (2/3)] (Some [AInt 0, AInt 1, AFraction (1/2)]) (Some ''ssprk3'')"

definition rk4_tableau :: "tableau result" where
  "rk4_tableau = mk_tableau [[], [AFraction (1/2)], [AInt 0, AFraction (1/2)], [AInt 0, AInt 0, AInt 1]]
     [AFraction (1/6), AFraction (1/3), AFraction (1/3), AFraction (1/6)]
     (Some [AInt 0, AFraction (1/2), AFraction (1/2), AInt 1]) (Some ''rk4'')"

definition certified :: "tableau result \<Rightarrow> (order \<times> rat list \<times> ssp option) result" where
  "certified t = bindR t (\<lambda>t. bindR (certify_runge_kutta t) (\<lambda>c.
     Inr (mp_order (mc_properties c), mp_stability (mc_properties c), mp_ssp (mc_properties c))))"

text \<open>The shipped explicit tableaux are accepted, with the certificates their names promise:
  forward Euler order one, SSPRK2 two, SSPRK3 three and RK4 four, each with the truncated exponential
  as stability polynomial, and the strong-stability coefficient one for SSPRK2 and SSPRK3 only.\<close>

theorem shipped_tableaux_certified:
  "certified forward_euler_tableau = Inr (Order 1, [1, 1], None)
   \<and> certified ssprk2_tableau = Inr (Order 2, [1, 1, 1/2], Some (SSP 1))
   \<and> certified ssprk3_tableau = Inr (Order 3, [1, 1, 1/2, 1/6], Some (SSP 1))
   \<and> certified rk4_tableau = Inr (Order 4, [1, 1, 1/2, 1/6, 1/24], None)"
  by code_simp

text \<open>Claim C2. The Program the explicit Runge--Kutta factory builds computes the system step of its
  tableau: for every route the committed value is the state advanced with the weighted rates, every
  stage reading the stage states of all routes through the shared field solve, for every step size,
  initial state and meaning of the operators.\<close>

theorem built_runge_kutta_is_tableau_step:
  assumes "build_explicit_runge_kutta routes flds t action (empty_program clk) = Inr ((), q)"
    and "tableau_ok t" and "tableau_exact t" and "i < length routes"
  shows "\<exists>n. map_of (pr_commits q) (rt_state (routes ! i)) = Some n
           \<and> venv I h q n = rk_system_step (route_rates I (map rt_rate routes) flds) h
                 (map vals (tab_A t)) (vals (tab_b t)) (map (in_state I \<circ> rt_state) routes) ! i"
  using assms by (rule built_runge_kutta)

definition sample_route :: route where
  "sample_route = \<lparr>rt_state = 7, rt_block = 3, rt_rate = \<lparr>oh_id = 5, oh_kind = Rate, oh_arity = 2\<rparr>\<rparr>"

definition sample_clock :: clock where
  "sample_clock = \<lparr>clk_name = ''t'', clk_owner = None\<rparr>"

definition sample_tableau :: tableau where
  "sample_tableau = \<lparr>tab_A = [[], [PyInt 1]], tab_b = [PyFrac (1/2), PyFrac (1/2)],
     tab_c = [PyInt 0, PyInt 1], tab_name = Some ''ssprk2''\<rparr>"

definition sample_program :: program where
  "sample_program =
     (case build_explicit_runge_kutta [sample_route] (Some 4) sample_tableau FailRun (empty_program sample_clock)
      of Inr (_, q) \<Rightarrow> q | Inl _ \<Rightarrow> empty_program sample_clock)"

lemma sample_facts:
  "ssprk2_tableau = Inr sample_tableau"
  "build_explicit_runge_kutta [sample_route] (Some 4) sample_tableau FailRun (empty_program sample_clock)
     = Inr ((), sample_program)"
  "tableau_exact sample_tableau"
  by code_simp+

lemma sample_tableau_ok: "tableau_ok sample_tableau"
  using sample_facts(1) mk_tableau_ok by (simp add: ssprk2_tableau_def)

theorem built_runge_kutta_is_tableau_step_witness:
  "\<exists>n. map_of (pr_commits sample_program) 7 = Some n
     \<and> (\<forall>I h. venv I h sample_program n = (rk_system_step (route_rates I [rt_rate sample_route] (Some 4)) h
           (map vals (tab_A sample_tableau)) (vals (tab_b sample_tableau)) [in_state (I :: real interp) 7] ! 0 :: real))"
proof -
  have "\<exists>n. map_of (pr_commits sample_program) 7 = Some n
     \<and> venv I h sample_program n = rk_system_step (route_rates I [rt_rate sample_route] (Some 4)) h
           (map vals (tab_A sample_tableau)) (vals (tab_b sample_tableau)) [in_state (I :: real interp) 7] ! 0" for I h
    using built_runge_kutta_is_tableau_step [OF sample_facts(2) sample_tableau_ok sample_facts(3), of 0 I h]
    by (simp add: sample_route_def)
  then show ?thesis by (metis option.inject)
qed

end
