(* ===== verification/Pops_Passes.thy ===== *)
theory Pops_Passes
  imports Pops_Prelude "HOL-Library.List_Lexorder" "HOL-Library.Char_ord"
begin

text \<open>
  The optimisation passes of a Program (\<open>python/pops/time/_program/passes.py\<close> with the tables of
  \<open>constants.py\<close> and the rebuild of \<open>rebuild.py\<close>): liveness, dead-node elimination, common
  subexpression elimination and redundant field-solve elimination, and the theorems that they
  preserve what a step does under the kernel contract the tables state.

  A node is its id, its op name, its inputs, the flat values its attributes and sub-blocks refer to
  (what \<open>_subblock_value_refs\<close> yields of the flat list), its \<open>field\<close> attribute, and a key that
  stands for the rest of its serialisation. Sub-blocks are copied by the rebuild and never
  filtered; their inner nodes are not represented.
\<close>

section \<open>The flat program\<close>

record 'a node =
  nd_id :: nat
  nd_op :: string
  nd_key :: 'a
  nd_inputs :: "nat list"
  nd_refs :: "nat list"
  nd_field :: "nat option"

record 'a ir =
  ir_nodes :: "'a node list"
  ir_commits :: "(nat \<times> nat) list"

definition removable_ops :: "string list" where
  "removable_ops = [''rhs'', ''source'', ''implicit_source'', ''apply'', ''local_transform'', ''linear_combine'',
     ''linear_source'', ''solve_local_linear'', ''cell_compare'', ''where'', ''reduce'', ''scalar_op'', ''compare'']"

definition pure_ops :: "string list" where
  "pure_ops = [''linear_combine'', ''linear_source'', ''cell_compare'', ''where'', ''scalar_op'', ''compare'']"

definition state_barrier_ops :: "string list" where
  "state_barrier_ops = [''project'', ''fill_boundary'', ''store_history'', ''solve_fields'',
     ''solve_fields_from_blocks'', ''solve_coupled_implicit'', ''solve_implicit_source'']"

definition subblock_ops :: "string list" where
  "subblock_ops = [''while'', ''branch'', ''range'', ''subcycle'', ''matrix_free_operator'',
     ''solve_local_nonlinear'', ''post_synchronization'']"

definition node_ids :: "'a node list \<Rightarrow> nat list" where
  "node_ids ns = map nd_id ns"

definition find_node :: "'a node list \<Rightarrow> nat \<Rightarrow> 'a node option" where
  "find_node ns i = map_of (map (\<lambda>v. (nd_id v, v)) ns) i"

lemma find_node_SomeD: "find_node ns i = Some v \<Longrightarrow> v \<in> set ns \<and> nd_id v = i"
  by (auto simp: find_node_def dest!: map_of_SomeD)

definition reads :: "'a node \<Rightarrow> nat list" where
  "reads v = nd_inputs v @ nd_refs v"

section \<open>Liveness\<close>

text \<open>
  The worklist of \<open>_live_value_ids\<close>. A value is pushed at most once per edge; the ids not yet live
  bound the number of expansions.
\<close>

function live_loop :: "'a node list \<Rightarrow> nat list \<Rightarrow> nat list \<Rightarrow> nat list" where
  "live_loop ns live [] = live"
| "live_loop ns live (vid # stack) =
     (if vid \<in> set live then live_loop ns live stack
      else (case find_node ns vid of
              None \<Rightarrow> live_loop ns live stack
            | Some v \<Rightarrow> live_loop ns (vid # live) (rev (reads v) @ stack)))"
  by pat_completeness auto

termination
proof (relation "measures [\<lambda>(ns, live, stack). card (set (node_ids ns) - set live),
      \<lambda>(ns, live, stack). length stack]", goal_cases)
  case (4 ns live vid stack v)
  have "vid \<in> set (node_ids ns) - set live" using 4 find_node_SomeD [OF 4(2)] by (auto simp: node_ids_def)
  then have "card (set (node_ids ns) - set (vid # live)) < card (set (node_ids ns) - set live)"
    by (intro psubset_card_mono) auto
  then show ?case by simp
qed auto

definition live_value_ids :: "'a ir \<Rightarrow> nat list" where
  "live_value_ids p =
     live_loop (ir_nodes p) []
       (rev (map snd (ir_commits p)
             @ map nd_id (filter (\<lambda>v. nd_op v \<notin> set removable_ops) (ir_nodes p))))"

section \<open>Rebuild\<close>

text \<open>
  \<open>rep\<close>: follow the alias chain, never visiting an id twice.
\<close>

function rep :: "(nat \<times> nat) list \<Rightarrow> nat list \<Rightarrow> nat \<Rightarrow> nat" where
  "rep aliases seen i =
     (case map_of aliases i of
        None \<Rightarrow> i
      | Some j \<Rightarrow> if j = i \<or> i \<in> set seen then i else rep aliases (i # seen) j)"
  by pat_completeness auto
termination
proof (relation "measure (\<lambda>(aliases, seen, i). card (set (map fst aliases) - set seen))", goal_cases)
  case (2 aliases seen i j)
  then have "i \<in> set (map fst aliases) - set seen" by (auto dest!: map_of_SomeD intro: rev_image_eqI)
  then have "card (set (map fst aliases) - set (i # seen)) < card (set (map fst aliases) - set seen)"
    by (intro psubset_card_mono) auto
  then show ?case by simp
qed simp

declare rep.simps [simp del]

definition lookup :: "(nat \<times> 'b) list \<Rightarrow> nat \<Rightarrow> 'b result" where
  "lookup d k = (case map_of d k of None \<Rightarrow> Inl KeyError | Some v \<Rightarrow> Inr v)"

text \<open>
  \<open>clone\<close>: the memo \<open>idmap\<close> takes an old id to its new node, and the next id is its size, since
  every clone stores one entry. The predecessors \<open>deps\<close> are cloned first, by ascending id. The
  recursion goes to smaller ids only, so \<open>nd_id v + 1\<close> levels are enough; running out is Python's
  recursion error.
\<close>

type_synonym 'a memo = "(nat \<times> 'a node) list"

definition node_at :: "'a node list \<Rightarrow> nat \<Rightarrow> 'a node result" where
  "node_at ns i = (case find_node ns i of None \<Rightarrow> Inl KeyError | Some v \<Rightarrow> Inr v)"

definition deps :: "'a node list \<Rightarrow> (nat \<times> nat) list \<Rightarrow> 'a node \<Rightarrow> 'a node list result" where
  "deps ns aliases v =
     bindR (traverse (\<lambda>i. node_at ns (rep aliases [] i)) (nd_inputs v)) (\<lambda>seen.
       Inr (sort_key nd_id (filter (\<lambda>w. nd_id w < nd_id v) seen)))"

definition remap_id :: "(nat \<times> nat) list \<Rightarrow> 'a memo \<Rightarrow> nat \<Rightarrow> nat result" where
  "remap_id aliases idmap i = bindR (lookup idmap (rep aliases [] i)) (\<lambda>w. Inr (nd_id w))"

fun clone_node :: "nat \<Rightarrow> 'a node list \<Rightarrow> (nat \<times> nat) list \<Rightarrow> 'a node \<Rightarrow> 'a memo \<Rightarrow> 'a memo result" where
  "clone_node 0 ns aliases v idmap = Inl RuntimeError"
| "clone_node (Suc k) ns aliases v idmap =
     (if nd_id v \<in> fst ` set idmap then Inr idmap
      else bindR (deps ns aliases v) (\<lambda>before.
           bindR (foldR (clone_node k ns aliases) before idmap) (\<lambda>idmap.
           bindR (traverse (remap_id aliases idmap) (nd_inputs v)) (\<lambda>inputs.
           bindR (traverse (remap_id aliases idmap) (nd_refs v)) (\<lambda>refs.
           Inr (idmap @ [(nd_id v, v\<lparr>nd_id := length idmap, nd_inputs := inputs, nd_refs := refs\<rparr>)]))))))"

definition rebuild :: "('a node \<Rightarrow> bool) \<Rightarrow> (nat \<times> nat) list \<Rightarrow> 'a ir \<Rightarrow> 'a ir result" where
  "rebuild keep aliases p =
     (let kept = sort_key nd_id (filter keep (ir_nodes p))
      in bindR (foldR (\<lambda>v. clone_node (nd_id v + 1) (ir_nodes p) aliases v) kept []) (\<lambda>idmap.
         bindR (traverse (\<lambda>v. lookup idmap (nd_id v)) kept) (\<lambda>nodes.
         bindR (traverse (\<lambda>(r, i). bindR (remap_id aliases idmap i) (\<lambda>j. Inr (r, j))) (ir_commits p)) (\<lambda>commits.
         Inr \<lparr>ir_nodes = nodes, ir_commits = commits\<rparr>))))"

section \<open>The passes\<close>

definition eliminate_dead_nodes :: "'a ir \<Rightarrow> 'a ir result" where
  "eliminate_dead_nodes p = (let live = live_value_ids p in rebuild (\<lambda>v. nd_id v \<in> set live) [] p)"

type_synonym 'a cse_key = "string \<times> 'a \<times> nat list \<times> nat list \<times> nat option"

record 'a cse_state =
  cs_canon :: "(nat \<times> nat) list"
  cs_reps :: "('a cse_key \<times> nat) list"
  cs_drop :: "nat list"

definition cse_key :: "(nat \<times> nat) list \<Rightarrow> 'a node \<Rightarrow> 'a cse_key" where
  "cse_key canon v =
     (nd_op v, nd_key v, map (\<lambda>i. case map_of canon i of None \<Rightarrow> i | Some j \<Rightarrow> j) (nd_inputs v), nd_refs v, nd_field v)"

definition cse_step :: "'a cse_state \<Rightarrow> 'a node \<Rightarrow> 'a cse_state" where
  "cse_step s v =
     (if nd_op v \<notin> set pure_ops then s
      else let key = cse_key (cs_canon s) v
           in (case map_of (cs_reps s) key of
                 Some r \<Rightarrow> s\<lparr>cs_canon := dict_set (nd_id v) r (cs_canon s), cs_drop := nd_id v # cs_drop s\<rparr>
               | None \<Rightarrow> s\<lparr>cs_reps := dict_set key (nd_id v) (cs_reps s),
                          cs_canon := dict_set (nd_id v) (nd_id v) (cs_canon s)\<rparr>))"

definition cse_scan :: "'a node list \<Rightarrow> 'a cse_state" where
  "cse_scan ns = foldl cse_step \<lparr>cs_canon = [], cs_reps = [], cs_drop = []\<rparr> ns"

definition eliminate_common_subexpressions :: "'a ir \<Rightarrow> 'a ir result" where
  "eliminate_common_subexpressions p =
     (let s = cse_scan (ir_nodes p)
      in if cs_drop s = [] then rebuild (\<lambda>_. True) [] p
         else rebuild (\<lambda>v. nd_id v \<notin> set (cs_drop s)) (cs_canon s) p)"

record solve_state =
  ss_active :: "((nat \<times> nat option) \<times> nat) list"
  ss_canon :: "(nat \<times> nat) list"
  ss_drop :: "nat list"

definition solve_step :: "nat list \<Rightarrow> 'a node \<Rightarrow> solve_state \<Rightarrow> solve_state result" where
  "solve_step commit_ids v s =
     (if nd_op v = ''solve_fields'' then
        (case nd_inputs v of
           [state_in] \<Rightarrow>
             (let sig = (state_in, nd_field v)
              in (case map_of (ss_active s) sig of
                    Some prior \<Rightarrow> Inr (s\<lparr>ss_canon := dict_set (nd_id v) prior (ss_canon s),
                                        ss_drop := nd_id v # ss_drop s\<rparr>)
                  | None \<Rightarrow> Inr (s\<lparr>ss_active := [(sig, nd_id v)]\<rparr>)))
         | _ \<Rightarrow> Inl ValueError)
      else if nd_op v \<in> set state_barrier_ops \<or> nd_id v \<in> set commit_ids then Inr (s\<lparr>ss_active := []\<rparr>)
      else Inr s)"

definition solve_scan :: "'a ir \<Rightarrow> solve_state result" where
  "solve_scan p = foldR (solve_step (map snd (ir_commits p))) (ir_nodes p) \<lparr>ss_active = [], ss_canon = [], ss_drop = []\<rparr>"

definition eliminate_redundant_field_solves :: "'a ir \<Rightarrow> 'a ir result" where
  "eliminate_redundant_field_solves p =
     bindR (solve_scan p) (\<lambda>s.
       if ss_drop s = [] then rebuild (\<lambda>_. True) [] p
       else rebuild (\<lambda>v. nd_id v \<notin> set (ss_drop s)) (ss_canon s) p)"

definition optimize :: "'a ir \<Rightarrow> 'a ir result" where
  "optimize p =
     bindR (eliminate_dead_nodes p) (\<lambda>p1.
     bindR (eliminate_common_subexpressions p1) eliminate_redundant_field_solves)"

text \<open>\<open>validate\<close> on the flat list: something is committed, and inputs are defined before use.\<close>

fun defined_before_use :: "nat list \<Rightarrow> 'a node list \<Rightarrow> bool" where
  "defined_before_use seen [] = True"
| "defined_before_use seen (v # vs) =
     (set (nd_inputs v) \<subseteq> set seen \<and> defined_before_use (nd_id v # seen) vs)"

definition validate :: "'a ir \<Rightarrow> bool result" where
  "validate p =
     raise_if (ir_commits p = []) ValueError
    (raise_if (\<not> defined_before_use [] (ir_nodes p)) ValueError (Inr True))"

section \<open>Liveness is reachability\<close>

inductive live :: "'a ir \<Rightarrow> nat \<Rightarrow> bool" for p where
  commit: "(r, i) \<in> set (ir_commits p) \<Longrightarrow> i \<in> set (node_ids (ir_nodes p)) \<Longrightarrow> live p i"
| effect: "v \<in> set (ir_nodes p) \<Longrightarrow> nd_op v \<notin> set removable_ops \<Longrightarrow> live p (nd_id v)"
| read: "live p i \<Longrightarrow> find_node (ir_nodes p) i = Some v \<Longrightarrow> j \<in> set (reads v)
    \<Longrightarrow> j \<in> set (node_ids (ir_nodes p)) \<Longrightarrow> live p j"

lemma find_node_None: "find_node ns i = None \<longleftrightarrow> i \<notin> set (node_ids ns)"
  by (simp add: find_node_def node_ids_def map_of_eq_None_iff image_image)

definition closed_from :: "'a node list \<Rightarrow> nat list \<Rightarrow> nat list \<Rightarrow> nat set \<Rightarrow> bool" where
  "closed_from ns seen stack R \<longleftrightarrow> set seen \<subseteq> R \<and> set stack \<inter> set (node_ids ns) \<subseteq> R
     \<and> (\<forall>i \<in> R - set seen. \<forall>v. find_node ns i = Some v \<longrightarrow> set (reads v) \<inter> set (node_ids ns) \<subseteq> R)"

lemma live_loop_closed: "closed_from ns seen stack (set (live_loop ns seen stack))"
proof (induction ns seen stack rule: live_loop.induct)
  case (1 ns seen)
  then show ?case by (simp add: closed_from_def)
next
  case (2 ns seen vid stack)
  show ?case
  proof (cases "vid \<in> set seen")
    case True
    with 2 show ?thesis by (auto simp: closed_from_def)
  next
    case False
    show ?thesis
    proof (cases "find_node ns vid")
      case None
      have "vid \<notin> set (node_ids ns)" using None find_node_None by metis
      with 2(2) [OF False None] False show ?thesis by (auto simp: closed_from_def None)
    next
      case (Some v)
      let ?R = "set (live_loop ns (vid # seen) (rev (reads v) @ stack))"
      have c: "closed_from ns (vid # seen) (rev (reads v) @ stack) ?R" by (rule 2(3) [OF False Some])
      have "set (reads u) \<inter> set (node_ids ns) \<subseteq> ?R" if "i \<in> ?R - set seen" "find_node ns i = Some u" for i u
      proof (cases "i = vid")
        case True
        then show ?thesis using c that(2) Some by (auto simp: closed_from_def)
      next
        case ne: False
        have "\<forall>i \<in> ?R - set (vid # seen). \<forall>v. find_node ns i = Some v \<longrightarrow> set (reads v) \<inter> set (node_ids ns) \<subseteq> ?R"
          using c unfolding closed_from_def by (elim conjE)
        then show ?thesis using ne that by (metis DiffE DiffI set_ConsD)
      qed
      with c show ?thesis by (auto simp: closed_from_def False Some)
    qed
  qed
qed

lemma live_loop_sound:
  assumes "\<And>i. i \<in> set seen \<Longrightarrow> live p i"
    and "\<And>i. i \<in> set stack \<Longrightarrow> i \<in> set (node_ids (ir_nodes p)) \<Longrightarrow> live p i"
  shows "i \<in> set (live_loop (ir_nodes p) seen stack) \<Longrightarrow> live p i"
  using assms
proof (induction "ir_nodes p" seen stack rule: live_loop.induct)
  case (1 seen)
  then show ?case by simp
next
  case (2 seen vid stack)
  show ?case
  proof (cases "vid \<in> set seen")
    case True
    with 2 show ?thesis by simp
  next
    case False
    show ?thesis
    proof (cases "find_node (ir_nodes p) vid")
      case None
      with 2 False show ?thesis by simp
    next
      case (Some v)
      have vid: "live p vid"
        using 2(6) [of vid] find_node_None [of "ir_nodes p" vid] Some by simp
      show ?thesis
      proof (rule 2(3) [OF False Some])
        show "i \<in> set (live_loop (ir_nodes p) (vid # seen) (rev (reads v) @ stack))"
          using 2(4) False Some by simp
      qed (use vid 2(5,6) live.read [OF vid Some] in auto)
    qed
  qed
qed

lemma live_value_ids_iff: "i \<in> set (live_value_ids p) \<longleftrightarrow> live p i"
proof
  let ?roots = "rev (map snd (ir_commits p) @ map nd_id (filter (\<lambda>v. nd_op v \<notin> set removable_ops) (ir_nodes p)))"
  show "i \<in> set (live_value_ids p) \<Longrightarrow> live p i"
    unfolding live_value_ids_def by (rule live_loop_sound) (auto intro: live.intros)
  have closed: "closed_from (ir_nodes p) [] ?roots (set (live_value_ids p))"
    unfolding live_value_ids_def by (rule live_loop_closed)
  show "live p i \<Longrightarrow> i \<in> set (live_value_ids p)"
  proof (induction rule: live.induct)
    case (commit r i)
    then show ?case using closed by (force simp: closed_from_def)
  next
    case (effect v)
    then show ?case using closed by (force simp: closed_from_def node_ids_def)
  next
    case (read i v j)
    then show ?case using closed unfolding closed_from_def by auto blast
  qed
qed

text \<open>Claim C39. The live set of \<open>_live_value_ids\<close> is exactly what the commits and the nodes with an
  op outside the removable table reach through inputs and attribute references: nothing reachable is
  missed and nothing else is kept.\<close>

theorem live_set_is_reachability: "i \<in> set (live_value_ids p) \<longleftrightarrow> live p i"
  by (rule live_value_ids_iff)

section \<open>What a program does\<close>

text \<open>
  The meaning of a node is a kernel: from its op, its attributes, the values it reads and the shared
  memory (states, auxiliary fields, histories, diagnostics) it makes a value and a new memory. A
  program is run in order; its outcome is the committed values and the final memory.
\<close>

type_synonym ('a, 'v, 'm) kernel = "string \<Rightarrow> 'a \<Rightarrow> nat option \<Rightarrow> 'v list \<Rightarrow> 'v list \<Rightarrow> 'm \<Rightarrow> 'v \<times> 'm"

definition fire :: "('a, 'v, 'm) kernel \<Rightarrow> 'a node \<Rightarrow> (nat \<Rightarrow> 'v) \<Rightarrow> 'm \<Rightarrow> 'v \<times> 'm" where
  "fire K v env m = K (nd_op v) (nd_key v) (nd_field v) (map env (nd_inputs v)) (map env (nd_refs v)) m"

definition exec_node :: "('a, 'v, 'm) kernel \<Rightarrow> (nat \<Rightarrow> 'v) \<times> 'm \<Rightarrow> 'a node \<Rightarrow> (nat \<Rightarrow> 'v) \<times> 'm" where
  "exec_node K s v = (let (x, m) = fire K v (fst s) (snd s) in ((fst s)(nd_id v := x), m))"

definition run :: "('a, 'v, 'm) kernel \<Rightarrow> 'a node list \<Rightarrow> (nat \<Rightarrow> 'v) \<times> 'm \<Rightarrow> (nat \<Rightarrow> 'v) \<times> 'm" where
  "run K ns s = foldl (exec_node K) s ns"

definition outcome :: "('a, 'v, 'm) kernel \<Rightarrow> 'a ir \<Rightarrow> 'v \<Rightarrow> 'm \<Rightarrow> (nat \<times> 'v) list \<times> 'm" where
  "outcome K p z m =
     (let (env, m') = run K (ir_nodes p) (\<lambda>_. z, m) in (map (\<lambda>(r, i). (r, env i)) (ir_commits p), m'))"

text \<open>An authored program: ids increase, reads come earlier, commits name values.\<close>

definition ir_ok :: "'a ir \<Rightarrow> bool" where
  "ir_ok p \<longleftrightarrow> sorted_wrt (<) (node_ids (ir_nodes p))
     \<and> (\<forall>v \<in> set (ir_nodes p). \<forall>i \<in> set (reads v). i < nd_id v \<and> i \<in> set (node_ids (ir_nodes p)))
     \<and> (\<forall>(r, i) \<in> set (ir_commits p). i \<in> set (node_ids (ir_nodes p)))"

definition solves_unary :: "'a ir \<Rightarrow> bool" where
  "solves_unary p \<longleftrightarrow> (\<forall>v \<in> set (ir_nodes p). nd_op v = ''solve_fields'' \<longrightarrow> length (nd_inputs v) = 1)"

lemma run_snoc: "run K (ns @ [v]) s = exec_node K (run K ns s) v"
  by (simp add: run_def)

lemma run_append: "run K (ns @ ms) s = run K ms (run K ns s)"
  by (simp add: run_def)

lemma run_other: "i \<notin> set (node_ids ns) \<Longrightarrow> fst (run K ns s) i = fst s i"
  by (induction ns arbitrary: s) (auto simp: run_def node_ids_def exec_node_def Let_def split: prod.splits)

lemma ir_ok_prefix:
  assumes "ir_ok p" and "ir_nodes p = pre @ v # suf"
  shows "nd_id v \<notin> set (node_ids pre)" and "set (reads v) \<subseteq> set (node_ids pre)"
    and "nd_id v \<notin> set (node_ids suf)" and "distinct (node_ids pre)"
proof -
  have s: "sorted_wrt (<) (node_ids (pre @ v # suf))" and r: "\<forall>i \<in> set (reads v). i < nd_id v \<and> i \<in> set (node_ids (pre @ v # suf))"
    using assms by (auto simp: ir_ok_def)
  show "nd_id v \<notin> set (node_ids pre)" "nd_id v \<notin> set (node_ids suf)"
    using s by (auto simp: node_ids_def sorted_wrt_append)
  show "set (reads v) \<subseteq> set (node_ids pre)"
    using s r by (fastforce simp: node_ids_def sorted_wrt_append)
  show "distinct (node_ids pre)"
    using s by (auto simp: node_ids_def sorted_wrt_append strict_sorted_iff)
qed

section \<open>A rebuilt program simulates its original\<close>

text \<open>
  \<open>L\<close> is the set of ids whose values must survive. A kept node reads only such ids; a dropped node
  leaves the memory alone, and if its id must survive, its value is that of its kept representative.
\<close>

definition kept_ids :: "('a node \<Rightarrow> bool) \<Rightarrow> 'a node list \<Rightarrow> nat set" where
  "kept_ids keep ns = set (node_ids (filter keep ns))"

definition drop_ok ::
  "('a, 'v, 'm) kernel \<Rightarrow> ('a node \<Rightarrow> bool) \<Rightarrow> (nat \<times> nat) list \<Rightarrow> nat set \<Rightarrow> 'a ir \<Rightarrow> (nat \<Rightarrow> 'v) \<times> 'm \<Rightarrow> bool" where
  "drop_ok K keep aliases L p s0 \<longleftrightarrow>
     (\<forall>pre v suf. ir_nodes p = pre @ v # suf \<longrightarrow> \<not> keep v \<longrightarrow>
        (let (env, m) = run K pre s0; (x, m') = fire K v env m
         in m' = m \<and> (nd_id v \<in> L \<longrightarrow>
              rep aliases [] (nd_id v) \<in> kept_ids keep pre \<and> x = env (rep aliases [] (nd_id v)))))"

definition keep_ok :: "('a node \<Rightarrow> bool) \<Rightarrow> (nat \<times> nat) list \<Rightarrow> nat set \<Rightarrow> 'a ir \<Rightarrow> bool" where
  "keep_ok keep aliases L p \<longleftrightarrow>
     (\<forall>v \<in> set (ir_nodes p). keep v \<longrightarrow> set (reads v) \<subseteq> L \<and> nd_id v \<in> L \<and> rep aliases [] (nd_id v) = nd_id v)
     \<and> snd ` set (ir_commits p) \<subseteq> L"

lemma sort_key_ordered: "sorted_wrt (<) (node_ids ns) \<Longrightarrow> sort_key nd_id (filter keep ns) = filter keep ns"
  unfolding node_ids_def
  by (intro sort_key_id_if_sorted sorted_filter) (simp add: strict_sorted_iff)

text \<open>The new id of a kept node is its position among the kept nodes.\<close>

definition position :: "'a node list \<Rightarrow> nat \<Rightarrow> nat" where
  "position kept i = length (takeWhile (\<lambda>v. nd_id v \<noteq> i) kept)"

definition renamed :: "(nat \<times> nat) list \<Rightarrow> 'a node list \<Rightarrow> 'a node \<Rightarrow> 'a node" where
  "renamed aliases kept v = v\<lparr>nd_id := position kept (nd_id v),
     nd_inputs := map (position kept \<circ> rep aliases []) (nd_inputs v),
     nd_refs := map (position kept \<circ> rep aliases []) (nd_refs v)\<rparr>"

definition survivors_ok :: "('a node \<Rightarrow> bool) \<Rightarrow> (nat \<times> nat) list \<Rightarrow> 'a ir \<Rightarrow> bool" where
  "survivors_ok keep aliases p \<longleftrightarrow>
     (\<forall>pre v suf. ir_nodes p = pre @ v # suf \<longrightarrow> keep v \<longrightarrow> rep aliases [] ` set (reads v) \<subseteq> kept_ids keep pre)
     \<and> (\<forall>(r, i) \<in> set (ir_commits p). rep aliases [] i \<in> kept_ids keep (ir_nodes p))"

lemma position_append: "i \<in> set (node_ids ks) \<Longrightarrow> position (ks @ ls) i = position ks i"
  by (auto simp: position_def node_ids_def takeWhile_append1 intro: takeWhile_append1)

lemma position_new: "nd_id v \<notin> set (node_ids ks) \<Longrightarrow> position (ks @ v # ls) (nd_id v) = length ks"
proof -
  assume "nd_id v \<notin> set (node_ids ks)"
  then have "\<And>u. u \<in> set ks \<Longrightarrow> nd_id u \<noteq> nd_id v" by (metis image_eqI image_set node_ids_def)
  then show ?thesis by (simp add: position_def takeWhile_append2)
qed

lemma position_less: "i \<in> set (node_ids ks) \<Longrightarrow> position ks i < length ks"
proof (induction ks)
  case (Cons k ks)
  then show ?case by (auto simp: position_def node_ids_def)
qed (simp add: node_ids_def)

lemma position_nth: "i \<in> set (node_ids ks) \<Longrightarrow> nd_id (ks ! position ks i) = i"
proof (induction ks)
  case (Cons k ks)
  then show ?case by (auto simp: position_def node_ids_def)
qed (simp add: node_ids_def)

lemma position_inj: "i \<in> set (node_ids ks) \<Longrightarrow> j \<in> set (node_ids ks) \<Longrightarrow> position ks i = position ks j \<longleftrightarrow> i = j"
  by (metis position_nth)

subsection \<open>The rebuilt program in closed form\<close>

definition memo_of :: "(nat \<times> nat) list \<Rightarrow> 'a node list \<Rightarrow> 'a node list \<Rightarrow> 'a memo" where
  "memo_of aliases kept prior = map (\<lambda>v. (nd_id v, renamed aliases kept v)) prior"

lemma memo_lookup:
  assumes "i \<in> set (node_ids prior)"
  shows "\<exists>w. lookup (memo_of aliases kept prior) i = Inr w \<and> nd_id w = position kept i"
  using assms
  by (induction prior) (auto simp: memo_of_def lookup_def node_ids_def renamed_def split: option.splits)

lemma memo_remap:
  "rep aliases [] i \<in> set (node_ids prior)
   \<Longrightarrow> remap_id aliases (memo_of aliases kept prior) i = Inr (position kept (rep aliases [] i))"
  using memo_lookup [of "rep aliases [] i" prior aliases kept] by (auto simp: remap_id_def)

lemma memo_remap_all:
  "rep aliases [] ` set is' \<subseteq> set (node_ids prior)
   \<Longrightarrow> traverse (remap_id aliases (memo_of aliases kept prior)) is' = Inr (map (position kept \<circ> rep aliases []) is')"
  by (intro traverse_map_Inr) (auto simp: memo_remap)

lemma memo_keys: "fst ` set (memo_of aliases kept prior) = set (node_ids prior)"
  by (force simp: memo_of_def node_ids_def)

lemma foldR_known:
  "(\<And>w. w \<in> set ws \<Longrightarrow> f w m = Inr m) \<Longrightarrow> foldR f ws m = Inr m"
  by (induction ws) auto

lemma clone_known: "nd_id v \<in> fst ` set m \<Longrightarrow> k \<noteq> 0 \<Longrightarrow> clone_node k ns aliases v m = Inr m"
  by (cases k) auto

lemma find_node_known: "i \<in> set (node_ids ns) \<Longrightarrow> \<exists>v. find_node ns i = Some v \<and> nd_id v = i"
  using find_node_None [of ns i] find_node_SomeD [of ns i] by (cases "find_node ns i") auto

lemma clone_fresh:
  assumes new: "nd_id v \<notin> set (node_ids prior)"
    and before: "rep aliases [] ` set (reads v) \<subseteq> set (node_ids prior)"
    and sub: "set prior \<subseteq> set ns"
    and kept: "kept = prior @ v # rest"
  shows "clone_node (nd_id v + 1) ns aliases v (memo_of aliases kept prior) = Inr (memo_of aliases kept (prior @ [v]))"
proof -
  let ?m = "memo_of aliases kept prior"
  have node: "\<exists>w. node_at ns (rep aliases [] i) = Inr w \<and> nd_id w \<in> set (node_ids prior)" if "i \<in> set (nd_inputs v)" for i
  proof -
    have *: "rep aliases [] i \<in> set (node_ids prior)" using before that by (auto simp: reads_def)
    moreover have "set (node_ids prior) \<subseteq> set (node_ids ns)" using sub by (auto simp: node_ids_def)
    ultimately obtain w where "find_node ns (rep aliases [] i) = Some w" "nd_id w = rep aliases [] i"
      using find_node_known [of "rep aliases [] i" ns] by blast
    with * show ?thesis by (simp add: node_at_def)
  qed
  then obtain g where g: "\<And>i. i \<in> set (nd_inputs v) \<Longrightarrow> node_at ns (rep aliases [] i) = Inr (g i) \<and> nd_id (g i) \<in> set (node_ids prior)"
    by metis
  have deps: "deps ns aliases v = Inr (sort_key nd_id (filter (\<lambda>w. nd_id w < nd_id v) (map g (nd_inputs v))))"
    using g by (simp add: deps_def traverse_map_Inr [where g = g])
  have fold: "foldR (clone_node (nd_id v) ns aliases) (sort_key nd_id (filter (\<lambda>w. nd_id w < nd_id v) (map g (nd_inputs v)))) ?m = Inr ?m"
    by (rule foldR_known) (use g in \<open>auto simp: memo_keys intro!: clone_known\<close>)
  have ins: "traverse (remap_id aliases ?m) (nd_inputs v) = Inr (map (position kept \<circ> rep aliases []) (nd_inputs v))"
    and refs: "traverse (remap_id aliases ?m) (nd_refs v) = Inr (map (position kept \<circ> rep aliases []) (nd_refs v))"
    using before by (auto simp: reads_def intro!: memo_remap_all)
  have pos: "position kept (nd_id v) = length prior" using new by (simp add: kept position_new)
  show ?thesis
    using new by (simp add: memo_keys deps fold ins refs del: bindR_Inr_iff)
      (simp add: memo_of_def renamed_def pos)
qed

lemma clone_all:
  assumes "distinct (node_ids kept)" and "set kept \<subseteq> set ns"
    and "\<And>prior v rest. kept = prior @ v # rest \<Longrightarrow> rep aliases [] ` set (reads v) \<subseteq> set (node_ids prior)"
  shows "kept = prior @ rest \<Longrightarrow>
    foldR (\<lambda>v. clone_node (nd_id v + 1) ns aliases v) rest (memo_of aliases kept prior) = Inr (memo_of aliases kept kept)"
proof (induction rest arbitrary: prior)
  case Nil
  then show ?case by simp
next
  case (Cons v rest)
  have "clone_node (nd_id v + 1) ns aliases v (memo_of aliases kept prior) = Inr (memo_of aliases kept (prior @ [v]))"
  proof (rule clone_fresh [OF _ _ _ Cons.prems])
    show "nd_id v \<notin> set (node_ids prior)" using assms(1) Cons.prems by (auto simp: node_ids_def)
    show "rep aliases [] ` set (reads v) \<subseteq> set (node_ids prior)" by (rule assms(3) [OF Cons.prems])
    show "set prior \<subseteq> set ns" using assms(2) Cons.prems by auto
  qed
  with Cons.IH [of "prior @ [v]"] Cons.prems show ?case by (simp del: clone_node.simps)
qed

lemma filter_split:
  "filter P xs = ys @ v # zs \<Longrightarrow> \<exists>us ws. xs = us @ v # ws \<and> filter P us = ys \<and> P v"
proof (induction xs arbitrary: ys)
  case (Cons x xs)
  show ?case
  proof (cases "P x \<and> ys = []")
    case True
    with Cons.prems show ?thesis by (intro exI [of _ "[]"] exI [of _ xs]) auto
  next
    case False
    then obtain ys' where "filter P xs = ys' @ v # zs" "P x \<longrightarrow> ys = x # ys'" "\<not> P x \<longrightarrow> ys = ys'"
      using Cons.prems by (cases "P x"; cases ys) auto
    with Cons.IH show ?thesis by (metis append_Cons filter.simps(2))
  qed
qed simp

lemma rebuild_closed_form:
  assumes ok: "ir_ok p" and surv: "survivors_ok keep aliases p"
  shows "rebuild keep aliases p =
     (let kept = filter keep (ir_nodes p)
      in Inr \<lparr>ir_nodes = map (renamed aliases kept) kept,
              ir_commits = map (\<lambda>(r, i). (r, position kept (rep aliases [] i))) (ir_commits p)\<rparr>)"
proof -
  let ?kept = "filter keep (ir_nodes p)"
  have sorted: "sorted_wrt (<) (node_ids (ir_nodes p))" using ok by (simp add: ir_ok_def)
  then have dist: "distinct (node_ids ?kept)"
    by (auto simp: node_ids_def strict_sorted_iff intro: distinct_map_filter)
  have reads: "rep aliases [] ` set (reads v) \<subseteq> set (node_ids prior)" if split: "?kept = prior @ v # rest" for prior v rest
  proof -
    obtain us ws where "ir_nodes p = us @ v # ws" "filter keep us = prior" "keep v"
      using filter_split [OF split] by blast
    with surv show ?thesis unfolding survivors_ok_def kept_ids_def by blast
  qed
  have fold: "foldR (\<lambda>v. clone_node (nd_id v + 1) (ir_nodes p) aliases v) ?kept [] = Inr (memo_of aliases ?kept ?kept)"
    using clone_all [OF dist _ reads, where ns = "ir_nodes p" and prior = "[]" and rest = ?kept] by (simp add: memo_of_def)
  have "lookup (memo_of aliases ?kept ?kept) (nd_id v) = Inr (renamed aliases ?kept v)" if "v \<in> set ?kept" for v
  proof -
    have "map_of (memo_of aliases ?kept ?kept) (nd_id v) = Some (renamed aliases ?kept v)"
    proof (rule map_of_is_SomeI)
      show "distinct (map fst (memo_of aliases ?kept ?kept))"
        using dist by (simp add: memo_of_def node_ids_def comp_def)
    qed (use that in \<open>auto simp: memo_of_def\<close>)
    then show ?thesis by (simp add: lookup_def)
  qed
  then have nodes: "traverse (\<lambda>v. lookup (memo_of aliases ?kept ?kept) (nd_id v)) ?kept = Inr (map (renamed aliases ?kept) ?kept)"
    by (intro traverse_map_Inr)
  have commits: "traverse (\<lambda>(r, i). bindR (remap_id aliases (memo_of aliases ?kept ?kept) i) (\<lambda>j. Inr (r, j))) (ir_commits p)
      = Inr (map (\<lambda>(r, i). (r, position ?kept (rep aliases [] i))) (ir_commits p))"
    by (intro traverse_map_Inr) (use surv in \<open>auto simp: survivors_ok_def kept_ids_def memo_remap\<close>)
  show ?thesis
    unfolding rebuild_def Let_def sort_key_ordered [OF sorted] fold
    by (simp add: nodes commits del: bindR_Inr_iff)
qed

subsection \<open>The simulation\<close>

lemma kept_ids_mono: "kept_ids keep pre \<subseteq> kept_ids keep (pre @ suf)"
  by (auto simp: kept_ids_def node_ids_def)

lemma keep_drop_survivors:
  assumes "ir_ok p" and keep: "keep_ok keep aliases L p" and drop: "drop_ok K keep aliases L p s0"
  shows "ir_nodes p = pre @ suf \<Longrightarrow> i \<in> L \<Longrightarrow> i \<in> set (node_ids pre) \<Longrightarrow> rep aliases [] i \<in> kept_ids keep pre"
proof (induction pre arbitrary: suf rule: rev_induct)
  case Nil
  then show ?case by (simp add: node_ids_def)
next
  case (snoc v pre)
  show ?case
  proof (cases "i = nd_id v")
    case True
    show ?thesis
    proof (cases "keep v")
      case True
      then have "rep aliases [] i = i"
        using keep snoc.prems \<open>i = nd_id v\<close> by (auto simp: keep_ok_def)
      then show ?thesis using True \<open>i = nd_id v\<close> by (simp add: kept_ids_def node_ids_def)
    next
      case False
      then have "rep aliases [] (nd_id v) \<in> kept_ids keep pre"
        using drop snoc.prems \<open>i = nd_id v\<close> unfolding drop_ok_def by (fastforce simp: Let_def case_prod_unfold)
      then show ?thesis using kept_ids_mono \<open>i = nd_id v\<close> by blast
    qed
  next
    case False
    then have "i \<in> set (node_ids pre)" using snoc.prems by (auto simp: node_ids_def)
    then have "rep aliases [] i \<in> kept_ids keep pre"
      using snoc.IH [of "v # suf"] snoc.prems by simp
    then show ?thesis using kept_ids_mono by blast
  qed
qed

lemma simulation_survivors:
  assumes ok: "ir_ok p" and keep: "keep_ok keep aliases L p" and drop: "drop_ok K keep aliases L p s0"
  shows "survivors_ok keep aliases p"
  unfolding survivors_ok_def
proof (intro conjI allI impI)
  fix pre v suf assume split: "ir_nodes p = pre @ v # suf" and "keep v"
  then have "set (reads v) \<subseteq> L" using keep by (auto simp: keep_ok_def)
  moreover have "set (reads v) \<subseteq> set (node_ids pre)" by (rule ir_ok_prefix(2) [OF ok split])
  ultimately show "rep aliases [] ` set (reads v) \<subseteq> kept_ids keep pre"
    using keep_drop_survivors [OF ok keep drop split] by blast
next
  show "\<forall>(r, i) \<in> set (ir_commits p). rep aliases [] i \<in> kept_ids keep (ir_nodes p)"
    using ok keep keep_drop_survivors [OF ok keep drop, of "ir_nodes p" "[]"]
    by (fastforce simp: keep_ok_def ir_ok_def)
qed

lemma simulation_run:
  assumes ok: "ir_ok p" and keep: "keep_ok keep aliases L p" and drop: "drop_ok K keep aliases L p s0"
    and kept: "kept = filter keep (ir_nodes p)"
  shows "ir_nodes p = pre @ suf \<Longrightarrow>
    snd (run K (map (renamed aliases kept) (filter keep pre)) (env0, snd s0)) = snd (run K pre s0)
    \<and> (\<forall>i \<in> L \<inter> set (node_ids pre).
         fst (run K (map (renamed aliases kept) (filter keep pre)) (env0, snd s0)) (position kept (rep aliases [] i))
         = fst (run K pre s0) i)"
proof (induction pre arbitrary: suf rule: rev_induct)
  case Nil
  then show ?case by (simp add: run_def node_ids_def)
next
  case (snoc v pre)
  have split: "ir_nodes p = pre @ v # suf" using snoc.prems by simp
  let ?t = "run K (map (renamed aliases kept) (filter keep pre)) (env0, snd s0)"
  let ?s = "run K pre s0"
  have mem: "snd ?t = snd ?s"
    and env: "\<And>i. i \<in> L \<Longrightarrow> i \<in> set (node_ids pre) \<Longrightarrow> fst ?t (position kept (rep aliases [] i)) = fst ?s i"
    using snoc.IH [OF split] by auto
  have new: "nd_id v \<notin> set (node_ids pre)" by (rule ir_ok_prefix(1) [OF ok split])
  show ?case
  proof (cases "keep v")
    case True
    have v: "set (reads v) \<subseteq> L" "rep aliases [] (nd_id v) = nd_id v"
      using keep split True by (auto simp: keep_ok_def)
    have reads: "set (reads v) \<subseteq> set (node_ids pre)" by (rule ir_ok_prefix(2) [OF ok split])
    have map_env: "map (fst ?t \<circ> (position kept \<circ> rep aliases [])) is' = map (fst ?s) is'" if "set is' \<subseteq> set (reads v)" for is'
      using that v(1) reads env by (auto intro!: map_cong)
    have fire: "fire K (renamed aliases kept v) (fst ?t) (snd ?t) = fire K v (fst ?s) (snd ?s)"
    proof -
      have "set (nd_inputs v) \<subseteq> set (reads v)" "set (nd_refs v) \<subseteq> set (reads v)" by (auto simp: reads_def)
      note maps = this [THEN map_env]
      show ?thesis by (simp add: fire_def renamed_def mem maps del: map_eq_conv)
    qed
    have kv: "nd_id v \<in> set (node_ids kept)" using True split by (simp add: kept node_ids_def)
    have sep: "position kept (rep aliases [] i) \<noteq> position kept (nd_id v)" if "i \<in> L" "i \<in> set (node_ids pre)" for i
    proof -
      have "rep aliases [] i \<in> kept_ids keep pre"
        by (rule keep_drop_survivors [OF ok keep drop split that])
      then have "rep aliases [] i \<in> set (node_ids kept)" "rep aliases [] i \<noteq> nd_id v"
        using new split by (auto simp: kept kept_ids_def node_ids_def)
      then show ?thesis using position_inj kv by metis
    qed
    have rn: "nd_id (renamed aliases kept v) = position kept (nd_id v)" by (simp add: renamed_def)
    show ?thesis
      using True sep env new v(2)
      by (auto simp: run_snoc exec_node_def Let_def case_prod_unfold fire rn node_ids_def)
  next
    case False
    have d: "snd (fire K v (fst ?s) (snd ?s)) = snd ?s"
      "nd_id v \<in> L \<Longrightarrow> rep aliases [] (nd_id v) \<in> kept_ids keep pre \<and> fst (fire K v (fst ?s) (snd ?s)) = fst ?s (rep aliases [] (nd_id v))"
      using drop split False unfolding drop_ok_def by (auto simp: Let_def case_prod_unfold)
    have "fst ?t (position kept (rep aliases [] (nd_id v))) = fst (fire K v (fst ?s) (snd ?s))" if L: "nd_id v \<in> L"
    proof -
      let ?r = "rep aliases [] (nd_id v)"
      obtain u where u: "u \<in> set pre" "keep u" "nd_id u = ?r"
        using d(2) [OF L] by (auto simp: kept_ids_def node_ids_def)
      then have "?r \<in> L" "rep aliases [] ?r = ?r" using keep split by (auto simp: keep_ok_def)
      moreover have "?r \<in> set (node_ids pre)" using u by (auto simp: node_ids_def intro: rev_image_eqI)
      ultimately have "fst ?t (position kept ?r) = fst ?s ?r" using env [of ?r] by simp
      then show ?thesis using d(2) [OF L] by simp
    qed
    with False d(1) env new show ?thesis
      by (auto simp: run_snoc exec_node_def Let_def case_prod_unfold mem node_ids_def)
  qed
qed

lemma positions: "distinct (node_ids ks) \<Longrightarrow> map (position ks) (node_ids ks) = [0..<length ks]"
proof (induction ks rule: rev_induct)
  case (snoc k ks)
  then have new: "nd_id k \<notin> set (node_ids ks)" and "distinct (node_ids ks)" by (auto simp: node_ids_def)
  have "map (position (ks @ [k])) (node_ids ks) = map (position ks) (node_ids ks)"
    by (intro map_cong) (simp_all add: position_append)
  with snoc.IH [OF \<open>distinct (node_ids ks)\<close>] position_new [OF new, of "[]"] show ?case
    by (simp add: node_ids_def)
qed (simp add: node_ids_def)

definition pass_result :: "('a, 'v, 'm) kernel \<Rightarrow> 'v \<Rightarrow> 'm \<Rightarrow> 'a ir \<Rightarrow> 'a ir result \<Rightarrow> bool" where
  "pass_result K z m p r \<longleftrightarrow>
     (\<exists>q. r = Inr q \<and> outcome K q z m = outcome K p z m \<and> ir_ok q \<and> (solves_unary p \<longrightarrow> solves_unary q)
        \<and> length (ir_nodes q) \<le> length (ir_nodes p))"

lemma rebuilt_ok:
  assumes ok: "ir_ok p" and surv: "survivors_ok keep aliases p" and q: "rebuild keep aliases p = Inr q"
  shows "ir_ok q \<and> (solves_unary p \<longrightarrow> solves_unary q) \<and> length (ir_nodes q) \<le> length (ir_nodes p)"
proof -
  let ?kept = "filter keep (ir_nodes p)"
  have nodes: "ir_nodes q = map (renamed aliases ?kept) ?kept"
    and commits: "ir_commits q = map (\<lambda>(r, i). (r, position ?kept (rep aliases [] i))) (ir_commits p)"
    using q unfolding rebuild_closed_form [OF ok surv] Let_def by auto
  have "sorted_wrt (<) (node_ids (ir_nodes p))" using ok by (simp add: ir_ok_def)
  then have dist: "distinct (node_ids ?kept)"
    by (auto simp: node_ids_def strict_sorted_iff intro: distinct_map_filter)
  have ids: "node_ids (ir_nodes q) = [0..<length ?kept]"
    using positions [OF dist] by (simp add: nodes node_ids_def renamed_def comp_def)
  have reads: "i < nd_id w \<and> i \<in> set (node_ids (ir_nodes q))" if w: "w \<in> set (ir_nodes q)" and i: "i \<in> set (reads w)" for w i
  proof -
    obtain v where v: "v \<in> set ?kept" "w = renamed aliases ?kept v" using w by (auto simp: nodes)
    obtain j where j: "j \<in> set (reads v)" "i = position ?kept (rep aliases [] j)"
      using i by (auto simp: v(2) renamed_def reads_def)
    obtain prior rest where split: "?kept = prior @ v # rest" using v(1) by (meson split_list)
    obtain us ws where "ir_nodes p = us @ v # ws" "filter keep us = prior" "keep v"
      using filter_split [OF split] by blast
    with surv j(1) have "rep aliases [] j \<in> set (node_ids prior)" unfolding survivors_ok_def kept_ids_def by blast
    then have "i < length prior" using j(2) split position_append position_less by metis
    moreover have "nd_id v \<notin> set (node_ids prior)" using dist unfolding split by (auto simp: node_ids_def)
    then have "nd_id w = length prior" unfolding v(2) split by (simp add: renamed_def position_new)
    moreover have "length prior < length ?kept" unfolding split by simp
    ultimately show ?thesis unfolding ids by simp
  qed
  have "ir_ok q"
    unfolding ir_ok_def
  proof (intro conjI)
    show "sorted_wrt (<) (node_ids (ir_nodes q))" unfolding ids by simp
    show "\<forall>v\<in>set (ir_nodes q). \<forall>i\<in>set (reads v). i < nd_id v \<and> i \<in> set (node_ids (ir_nodes q))"
      using reads by blast
    have "position ?kept (rep aliases [] i) < length ?kept" if "(r, i) \<in> set (ir_commits p)" for r i
      using surv that by (intro position_less) (auto simp: survivors_ok_def kept_ids_def)
    then show "\<forall>(r, i)\<in>set (ir_commits q). i \<in> set (node_ids (ir_nodes q))" unfolding ids commits by auto
  qed
  moreover have "solves_unary p \<longrightarrow> solves_unary q" unfolding solves_unary_def nodes by (auto simp: renamed_def)
  ultimately show ?thesis by (simp add: nodes)
qed

lemma rebuild_simulates:
  assumes ok: "ir_ok p" and keep: "keep_ok keep aliases L p" and drop: "drop_ok K keep aliases L p (\<lambda>_. z, m)"
  shows "pass_result K z m p (rebuild keep aliases p)"
proof -
  let ?kept = "filter keep (ir_nodes p)"
  note surv = simulation_survivors [OF ok keep drop]
  note form = rebuild_closed_form [OF ok surv]
  note sim = simulation_run [OF ok keep drop refl, of "ir_nodes p" "[]" "\<lambda>_. z", simplified]
  have "\<forall>(r, i) \<in> set (ir_commits p). i \<in> L \<inter> set (node_ids (ir_nodes p))"
    using ok keep by (force simp: ir_ok_def keep_ok_def)
  with sim have "\<exists>q. rebuild keep aliases p = Inr q \<and> outcome K q z m = outcome K p z m"
    by (intro exI conjI, subst form, simp only: Let_def)
       (auto simp: outcome_def Let_def case_prod_unfold)
  with rebuilt_ok [OF ok surv] show ?thesis unfolding pass_result_def by blast
qed

lemma rep_unaliased: "map_of aliases i = None \<Longrightarrow> rep aliases seen i = i"
  by (simp add: rep.simps)

lemma rep_self: "map_of aliases i = Some i \<Longrightarrow> rep aliases seen i = i"
  by (simp add: rep.simps)

lemma rep_once:
  "map_of aliases i = Some r \<Longrightarrow> r \<noteq> i \<Longrightarrow> map_of aliases r = None \<or> map_of aliases r = Some r \<Longrightarrow> rep aliases [] i = r"
  by (subst rep.simps) (auto simp: rep_unaliased rep_self)

lemma rebuild_everything:
  assumes "ir_ok p"
  shows "pass_result K z m p (rebuild (\<lambda>_. True) [] p)"
proof (rule rebuild_simulates [OF assms, of _ _ UNIV])
  show "keep_ok (\<lambda>_. True) [] UNIV p" by (simp add: keep_ok_def rep_unaliased)
  show "drop_ok K (\<lambda>_. True) [] UNIV p (\<lambda>_. z, m)" by (simp add: drop_ok_def)
qed

section \<open>The passes preserve the outcome\<close>

text \<open>
  The kernel contract, as \<open>constants.py\<close> states it for its tables: a removable op allocates a fresh
  result and has no other effect; a pure op moreover reads no memory; repeating a field solve on the
  fields it has just left changes nothing, and an op outside the barrier table does not change what
  that solve sees.
\<close>

definition removable_quiet :: "('a, 'v, 'm) kernel \<Rightarrow> bool" where
  "removable_quiet K \<longleftrightarrow> (\<forall>op \<in> set removable_ops. \<forall>k f xs rs m. snd (K op k f xs rs m) = m)"

definition pure_kernel :: "('a, 'v, 'm) kernel \<Rightarrow> bool" where
  "pure_kernel K \<longleftrightarrow> (\<forall>op \<in> set pure_ops. \<forall>k f xs rs m m'.
     snd (K op k f xs rs m) = m \<and> fst (K op k f xs rs m) = fst (K op k f xs rs m'))"

definition solve_kernel :: "('a, 'v, 'm) kernel \<Rightarrow> bool" where
  "solve_kernel K \<longleftrightarrow>
     (\<forall>k k' f xs rs rs' m. K ''solve_fields'' k f xs rs m = K ''solve_fields'' k' f xs rs' m)
     \<and> (\<forall>k f xs rs m. K ''solve_fields'' k f xs rs (snd (K ''solve_fields'' k f xs rs m)) = K ''solve_fields'' k f xs rs m)
     \<and> (\<forall>op k f xs rs k' f' ys rs' m. op \<notin> set state_barrier_ops \<longrightarrow>
          snd (K ''solve_fields'' k f xs rs m) = m \<longrightarrow>
          (let m' = snd (K op k' f' ys rs' m)
           in K ''solve_fields'' k f xs rs m' = (fst (K ''solve_fields'' k f xs rs m), m')))"

lemma fire_removable: "removable_quiet K \<Longrightarrow> nd_op v \<in> set removable_ops \<Longrightarrow> snd (fire K v env m) = m"
  by (simp add: removable_quiet_def fire_def)

lemma live_keep_ok:
  assumes "ir_ok p"
  shows "keep_ok (\<lambda>v. nd_id v \<in> set (live_value_ids p)) [] {i. live p i} p"
  unfolding keep_ok_def
proof (intro conjI ballI impI subsetI)
  fix v j assume v: "v \<in> set (ir_nodes p)" "nd_id v \<in> set (live_value_ids p)" and j: "j \<in> set (reads v)"
  have "distinct (node_ids (ir_nodes p))" using assms by (simp add: ir_ok_def strict_sorted_iff)
  then have "find_node (ir_nodes p) (nd_id v) = Some v"
    using v(1) by (auto simp: find_node_def node_ids_def comp_def intro: map_of_is_SomeI)
  moreover have "j \<in> set (node_ids (ir_nodes p))" using assms v(1) j by (auto simp: ir_ok_def)
  ultimately show "j \<in> {i. live p i}"
    using v(2) j live.read by (auto simp: live_value_ids_iff [symmetric])
next
  fix i assume "i \<in> snd ` set (ir_commits p)"
  then show "i \<in> {i. live p i}" using assms by (force simp: ir_ok_def intro: live.commit)
qed (simp_all add: rep_unaliased live_value_ids_iff)

lemma dce_simulates:
  assumes "ir_ok p" and "removable_quiet K"
  shows "keep_ok (\<lambda>v. nd_id v \<in> set (live_value_ids p)) [] {i. live p i} p
    \<and> drop_ok K (\<lambda>v. nd_id v \<in> set (live_value_ids p)) [] {i. live p i} p s0"
proof (intro conjI live_keep_ok assms(1))
  show "drop_ok K (\<lambda>v. nd_id v \<in> set (live_value_ids p)) [] {i. live p i} p s0"
    unfolding drop_ok_def
  proof (intro allI impI)
    fix pre v suf assume split: "ir_nodes p = pre @ v # suf" and dead: "nd_id v \<notin> set (live_value_ids p)"
    then have "nd_op v \<in> set removable_ops" using live.effect [of v p] live_value_ids_iff [of "nd_id v" p] by auto
    then show "let (env, m) = run K pre s0; (x, m') = fire K v env m
       in m' = m \<and> (nd_id v \<in> {i. live p i} \<longrightarrow>
            rep [] [] (nd_id v) \<in> kept_ids (\<lambda>v. nd_id v \<in> set (live_value_ids p)) pre \<and> x = env (rep [] [] (nd_id v)))"
      using dead fire_removable [OF assms(2)] live_value_ids_iff [of "nd_id v" p]
      by (auto simp: Let_def case_prod_unfold)
  qed
qed

lemma dce_result:
  assumes "ir_ok p" and "removable_quiet K"
  shows "pass_result K z m p (eliminate_dead_nodes p)"
  using rebuild_simulates [OF assms(1) dce_simulates [OF assms, THEN conjunct1] dce_simulates [OF assms, THEN conjunct2]]
  by (simp add: eliminate_dead_nodes_def Let_def)

text \<open>Dead-node elimination never fails on an authored program and changes neither a
  committed value nor the final memory, provided the kernels of the removable ops leave the memory
  alone; its result is an authored program again, never longer than the first.\<close>

theorem dead_node_elimination_sound:
  assumes "ir_ok p" and "removable_quiet K"
  shows "\<exists>q. eliminate_dead_nodes p = Inr q \<and> outcome K q z m = outcome K p z m
    \<and> ir_ok q \<and> length (ir_nodes q) \<le> length (ir_nodes p)"
  using dce_result [OF assms] unfolding pass_result_def by blast

subsection \<open>Common subexpressions\<close>

definition canon_ok :: "'a node list \<Rightarrow> (nat \<Rightarrow> 'v) \<Rightarrow> (nat \<times> nat) list \<Rightarrow> nat list \<Rightarrow> bool" where
  "canon_ok pre env canon dropped \<longleftrightarrow>
     (\<forall>i r. map_of canon i = Some r \<longrightarrow>
        i \<in> set (node_ids pre) \<and> r \<in> set (node_ids pre) \<and> map_of canon r = Some r \<and> env r = env i)
   \<and> (\<forall>i. i \<in> set dropped \<longleftrightarrow> (\<exists>r. map_of canon i = Some r \<and> r \<noteq> i))"

definition reps_ok ::
  "('a, 'v, 'm) kernel \<Rightarrow> 'a node list \<Rightarrow> (nat \<Rightarrow> 'v) \<Rightarrow> (nat \<times> nat) list \<Rightarrow> ('a cse_key \<times> nat) list \<Rightarrow> bool" where
  "reps_ok K pre env canon reps \<longleftrightarrow>
     (\<forall>op k ins rs f r. map_of reps (op, k, ins, rs, f) = Some r \<longrightarrow>
        op \<in> set pure_ops \<and> set ins \<subseteq> set (node_ids pre) \<and> set rs \<subseteq> set (node_ids pre) \<and> map_of canon r = Some r
        \<and> (\<forall>m. fst (K op k f (map env ins) (map env rs) m) = env r))"

lemma fire_pure:
  assumes "pure_kernel K" and "nd_op v \<in> set pure_ops"
  shows "snd (fire K v env m) = m"
    and "fst (K (nd_op v) (nd_key v) (nd_field v) (map env (nd_inputs v)) (map env (nd_refs v)) m') = fst (fire K v env m)"
  using assms unfolding pure_kernel_def fire_def by metis+

lemma map_env_upd: "nd_id v \<notin> set (node_ids pre) \<Longrightarrow> set is' \<subseteq> set (node_ids pre) \<Longrightarrow> map (env(nd_id v := x)) is' = map env is'"
  by (auto intro!: map_cong)

lemma node_ids_snoc: "set (node_ids (pre @ [v])) = insert (nd_id v) (set (node_ids pre))"
  by (auto simp: node_ids_def)

lemma canon_okD:
  assumes "canon_ok pre env canon dropped" and "map_of canon i = Some r"
  shows "i \<in> set (node_ids pre)" and "r \<in> set (node_ids pre)" and "map_of canon r = Some r" and "env r = env i"
  using assms by (auto simp: canon_ok_def)

lemma canon_ok_drop: "canon_ok pre env canon dropped \<Longrightarrow> i \<in> set dropped \<longleftrightarrow> (\<exists>r. map_of canon i = Some r \<and> r \<noteq> i)"
  by (simp add: canon_ok_def)

lemma canon_ok_other:
  assumes c: "canon_ok pre env canon dropped" and new: "nd_id v \<notin> set (node_ids pre)"
  shows "canon_ok (pre @ [v]) (env(nd_id v := x)) canon dropped"
  unfolding canon_ok_def
proof (intro conjI allI impI)
  fix i r assume h: "map_of canon i = Some r"
  note d = canon_okD [OF c h]
  show "i \<in> set (node_ids (pre @ [v]))" "r \<in> set (node_ids (pre @ [v]))" "map_of canon r = Some r"
    using d by (auto simp: node_ids_snoc)
  have "i \<noteq> nd_id v" "r \<noteq> nd_id v" using d(1,2) new by auto
  then show "(env(nd_id v := x)) r = (env(nd_id v := x)) i" using d(4) by simp
qed (rule canon_ok_drop [OF c])

lemma canon_ok_set:
  assumes c: "canon_ok pre env canon dropped" and new: "nd_id v \<notin> set (node_ids pre)"
    and r: "r = nd_id v \<and> dropped' = dropped \<or> map_of canon r = Some r \<and> env r = x \<and> dropped' = nd_id v # dropped"
  shows "canon_ok (pre @ [v]) (env(nd_id v := x)) (dict_set (nd_id v) r canon) dropped'"
  unfolding canon_ok_def
proof (intro conjI allI impI)
  fix i j assume h: "map_of (dict_set (nd_id v) r canon) i = Some j"
  have fresh: "r \<noteq> nd_id v \<Longrightarrow> r \<in> set (node_ids pre)" using r canon_okD(1) [OF c] by blast
  have "i \<in> set (node_ids (pre @ [v])) \<and> j \<in> set (node_ids (pre @ [v]))
     \<and> map_of (dict_set (nd_id v) r canon) j = Some j \<and> (env(nd_id v := x)) j = (env(nd_id v := x)) i"
  proof (cases "i = nd_id v")
    case True
    then have "j = r" using h by simp
    with True r fresh new show ?thesis by (cases "r = nd_id v") (auto simp: node_ids_snoc)
  next
    case False
    then have h': "map_of canon i = Some j" using h by simp
    note d = canon_okD [OF c h']
    have "j \<noteq> nd_id v" using d(2) new by auto
    with d False show ?thesis by (simp add: node_ids_snoc)
  qed
  then show "i \<in> set (node_ids (pre @ [v]))" "j \<in> set (node_ids (pre @ [v]))"
    "map_of (dict_set (nd_id v) r canon) j = Some j" "(env(nd_id v := x)) j = (env(nd_id v := x)) i" by blast+
next
  fix i
  have "map_of canon (nd_id v) = None" using canon_okD(1) [OF c] new by (cases "map_of canon (nd_id v)") auto
  then show "i \<in> set dropped' \<longleftrightarrow> (\<exists>j. map_of (dict_set (nd_id v) r canon) i = Some j \<and> j \<noteq> i)"
    using r canon_ok_drop [OF c, of i] by (cases "i = nd_id v") auto
qed

lemma reps_okD:
  assumes "reps_ok K pre env canon reps" and "map_of reps (op, k, ins, rs, f) = Some r"
  shows "op \<in> set pure_ops" and "set ins \<subseteq> set (node_ids pre)" and "set rs \<subseteq> set (node_ids pre)"
    and "map_of canon r = Some r" and "fst (K op k f (map env ins) (map env rs) m) = env r"
  using assms by (auto simp: reps_ok_def)

lemma reps_ok_mono:
  assumes h: "reps_ok K pre env canon reps" and new: "nd_id v \<notin> set (node_ids pre)"
    and c: "canon_ok pre env canon dropped"
    and c': "\<And>i. i \<noteq> nd_id v \<Longrightarrow> map_of canon' i = map_of canon i"
  shows "reps_ok K (pre @ [v]) (env(nd_id v := x)) canon' reps"
  unfolding reps_ok_def
proof (intro allI impI)
  fix op k ins rs f r assume "map_of reps (op, k, ins, rs, f) = Some r"
  note d = reps_okD [OF h this]
  have ne: "r \<noteq> nd_id v" using canon_okD(1) [OF c d(4)] new by auto
  have e: "map (env(nd_id v := x)) ins = map env ins" "map (env(nd_id v := x)) rs = map env rs"
    by (rule map_env_upd [OF new d(2)], rule map_env_upd [OF new d(3)])
  show "op \<in> set pure_ops \<and> set ins \<subseteq> set (node_ids (pre @ [v])) \<and> set rs \<subseteq> set (node_ids (pre @ [v]))
    \<and> map_of canon' r = Some r
    \<and> (\<forall>m. fst (K op k f (map (env(nd_id v := x)) ins) (map (env(nd_id v := x)) rs) m) = (env(nd_id v := x)) r)"
    unfolding e using d ne c' [OF ne] by (auto simp: node_ids_snoc)
qed

lemma reps_ok_new:
  assumes h: "reps_ok K pre env canon reps" and "op \<in> set pure_ops"
    and "set ins \<subseteq> set (node_ids pre)" and "set rs \<subseteq> set (node_ids pre)" and "map_of canon r = Some r"
    and "\<And>m. fst (K op k f (map env ins) (map env rs) m) = env r"
  shows "reps_ok K pre env canon (dict_set (op, k, ins, rs, f) r reps)"
  using assms unfolding reps_ok_def by auto

lemma canonical_inputs:
  assumes c: "canon_ok pre env canon dropped" and "set (nd_inputs v) \<subseteq> set (node_ids pre)"
  shows "map env (map (\<lambda>i. case map_of canon i of None \<Rightarrow> i | Some j \<Rightarrow> j) (nd_inputs v)) = map env (nd_inputs v)"
    and "set (map (\<lambda>i. case map_of canon i of None \<Rightarrow> i | Some j \<Rightarrow> j) (nd_inputs v)) \<subseteq> set (node_ids pre)"
  using canon_okD [OF c] assms(2) by (auto split: option.split)

definition cse_inv :: "('a, 'v, 'm) kernel \<Rightarrow> 'a node list \<Rightarrow> (nat \<Rightarrow> 'v) \<Rightarrow> 'a cse_state \<Rightarrow> bool" where
  "cse_inv K pre env s \<longleftrightarrow> canon_ok pre env (cs_canon s) (cs_drop s) \<and> reps_ok K pre env (cs_canon s) (cs_reps s)"

lemma cse_inv_step:
  assumes pure: "pure_kernel K" and inv: "cse_inv K pre env s"
    and new: "nd_id v \<notin> set (node_ids pre)" and reads: "set (reads v) \<subseteq> set (node_ids pre)"
  shows "cse_inv K (pre @ [v]) (env(nd_id v := fst (fire K v env m))) (cse_step s v)"
proof -
  let ?x = "fst (fire K v env m)"
  have c: "canon_ok pre env (cs_canon s) (cs_drop s)" and h: "reps_ok K pre env (cs_canon s) (cs_reps s)"
    using inv by (auto simp: cse_inv_def)
  show ?thesis
  proof (cases "nd_op v \<in> set pure_ops")
    case False
    then show ?thesis
      using canon_ok_other [OF c new] reps_ok_mono [OF h new c] by (simp add: cse_step_def cse_inv_def)
  next
    case True
    let ?ins = "map (\<lambda>i. case map_of (cs_canon s) i of None \<Rightarrow> i | Some j \<Rightarrow> j) (nd_inputs v)"
    have key: "cse_key (cs_canon s) v = (nd_op v, nd_key v, ?ins, nd_refs v, nd_field v)" by (simp add: cse_key_def)
    have sub: "set (nd_inputs v) \<subseteq> set (node_ids pre)" "set (nd_refs v) \<subseteq> set (node_ids pre)"
      using reads by (auto simp: reads_def)
    note ins = canonical_inputs [OF c sub(1)]
    have val: "fst (K (nd_op v) (nd_key v) (nd_field v) (map env ?ins) (map env (nd_refs v)) m') = ?x" for m'
      unfolding ins(1) by (rule fire_pure(2) [OF pure True])
    show ?thesis
    proof (cases "map_of (cs_reps s) (cse_key (cs_canon s) v)")
      case (Some r)
      note d = reps_okD [OF h Some [unfolded key]]
      have "env r = ?x" using d(5) [of m] val [of m] by simp
      with canon_ok_set [OF c new, of r _ ?x] d(4) reps_ok_mono [OF h new c] True Some show ?thesis
        by (simp add: cse_step_def cse_inv_def)
    next
      case None
      let ?canon = "dict_set (nd_id v) (nd_id v) (cs_canon s)"
      have 1: "canon_ok (pre @ [v]) (env(nd_id v := ?x)) ?canon (cs_drop s)"
        by (rule canon_ok_set [OF c new]) simp
      have e: "map (env(nd_id v := ?x)) ?ins = map env ?ins" "map (env(nd_id v := ?x)) (nd_refs v) = map env (nd_refs v)"
        by (rule map_env_upd [OF new ins(2)], rule map_env_upd [OF new sub(2)])
      have 2: "reps_ok K (pre @ [v]) (env(nd_id v := ?x)) ?canon (dict_set (cse_key (cs_canon s) v) (nd_id v) (cs_reps s))"
        unfolding key
      proof (rule reps_ok_new)
        show "reps_ok K (pre @ [v]) (env(nd_id v := ?x)) ?canon (cs_reps s)"
          by (rule reps_ok_mono [OF h new c]) simp
        show "set ?ins \<subseteq> set (node_ids (pre @ [v]))" using ins(2) by (auto simp: node_ids_snoc)
        show "set (nd_refs v) \<subseteq> set (node_ids (pre @ [v]))" using sub(2) by (auto simp: node_ids_snoc)
        show "fst (K (nd_op v) (nd_key v) (nd_field v) (map (env(nd_id v := ?x)) ?ins) (map (env(nd_id v := ?x)) (nd_refs v)) m')
           = (env(nd_id v := ?x)) (nd_id v)" for m'
          unfolding e val by simp
      qed (use True in simp_all)
      from 1 2 True None show ?thesis by (simp add: cse_step_def cse_inv_def)
    qed
  qed
qed

lemma cse_scan_snoc: "cse_scan (pre @ [v]) = cse_step (cse_scan pre) v"
  by (simp add: cse_scan_def)

lemma cse_scan_inv:
  assumes ok: "ir_ok p" and pure: "pure_kernel K"
  shows "ir_nodes p = pre @ suf \<Longrightarrow> cse_inv K pre (fst (run K pre s0)) (cse_scan pre)"
proof (induction pre arbitrary: suf rule: rev_induct)
  case Nil
  then show ?case by (simp add: cse_inv_def canon_ok_def reps_ok_def cse_scan_def)
next
  case (snoc v pre)
  have split: "ir_nodes p = pre @ v # suf" using snoc.prems by simp
  have run: "fst (run K (pre @ [v]) s0) = (fst (run K pre s0))(nd_id v := fst (fire K v (fst (run K pre s0)) (snd (run K pre s0))))"
    by (simp add: run_snoc exec_node_def Let_def case_prod_unfold)
  show ?case
    unfolding run cse_scan_snoc
    by (rule cse_inv_step [OF pure snoc.IH [OF split] ir_ok_prefix(1,2) [OF ok split]])
qed

lemma cse_step_other:
  "i \<noteq> nd_id v \<Longrightarrow> map_of (cs_canon (cse_step s v)) i = map_of (cs_canon s) i"
  "i \<noteq> nd_id v \<Longrightarrow> i \<in> set (cs_drop (cse_step s v)) \<longleftrightarrow> i \<in> set (cs_drop s)"
  "i \<in> set (cs_drop (cse_step s v)) \<Longrightarrow> i \<in> set (cs_drop s) \<or> i = nd_id v \<and> nd_op v \<in> set pure_ops"
  by (auto simp: cse_step_def Let_def split: option.splits if_splits)

lemma cse_scan_stable:
  "i \<notin> set (node_ids suf) \<Longrightarrow> map_of (cs_canon (cse_scan (pre @ suf))) i = map_of (cs_canon (cse_scan pre)) i"
  "i \<notin> set (node_ids suf) \<Longrightarrow> i \<in> set (cs_drop (cse_scan (pre @ suf))) \<longleftrightarrow> i \<in> set (cs_drop (cse_scan pre))"
proof (induction suf rule: rev_induct)
  case (snoc v suf)
  have [simp]: "cse_scan (pre @ suf @ [v]) = cse_step (cse_scan (pre @ suf)) v"
    using cse_scan_snoc [of "pre @ suf" v] by simp
  { case 1 then show ?case using snoc(1) by (simp add: cse_step_other node_ids_def) }
  { case 2 then show ?case using snoc(2) by (simp add: cse_step_other node_ids_def) }
qed simp_all

lemma cse_drop_pure: "i \<in> set (cs_drop (cse_scan ns)) \<Longrightarrow> \<exists>v \<in> set ns. nd_id v = i \<and> nd_op v \<in> set pure_ops"
proof (induction ns rule: rev_induct)
  case Nil
  then show ?case by (simp add: cse_scan_def)
next
  case (snoc v ns)
  then show ?case using cse_step_other(3) [of i "cse_scan ns" v] by (auto simp: cse_scan_snoc)
qed

lemma cse_representative:
  fixes K :: "('a, 'v, 'm) kernel" and p :: "'a ir"
  assumes ok: "ir_ok p" and pure: "pure_kernel K" and "i \<in> set (node_ids (ir_nodes p))"
  shows "i \<notin> set (cs_drop (cse_scan (ir_nodes p))) \<Longrightarrow> rep (cs_canon (cse_scan (ir_nodes p))) [] i = i"
    and "map_of (cs_canon (cse_scan (ir_nodes p))) i = Some r \<Longrightarrow> rep (cs_canon (cse_scan (ir_nodes p))) [] i = r"
proof -
  have c: "canon_ok (ir_nodes p) (fst (run K (ir_nodes p) (undefined :: (nat \<Rightarrow> 'v) \<times> 'm))) (cs_canon (cse_scan (ir_nodes p))) (cs_drop (cse_scan (ir_nodes p)))"
    using cse_scan_inv [OF ok pure, of "ir_nodes p" "[]"] by (simp add: cse_inv_def)
  show "map_of (cs_canon (cse_scan (ir_nodes p))) i = Some r \<Longrightarrow> rep (cs_canon (cse_scan (ir_nodes p))) [] i = r"
    using canon_okD(3) [OF c, of i r] rep_self [of "cs_canon (cse_scan (ir_nodes p))" i] rep_once [of "cs_canon (cse_scan (ir_nodes p))" i r]
    by (cases "r = i") auto
  show "i \<notin> set (cs_drop (cse_scan (ir_nodes p))) \<Longrightarrow> rep (cs_canon (cse_scan (ir_nodes p))) [] i = i"
    using canon_ok_drop [OF c, of i] rep_self rep_unaliased by (cases "map_of (cs_canon (cse_scan (ir_nodes p))) i") auto
qed

lemma cse_simulates:
  assumes ok: "ir_ok p" and pure: "pure_kernel K"
  defines "s \<equiv> cse_scan (ir_nodes p)"
  shows "keep_ok (\<lambda>v. nd_id v \<notin> set (cs_drop s)) (cs_canon s) (set (node_ids (ir_nodes p))) p"
    and "drop_ok K (\<lambda>v. nd_id v \<notin> set (cs_drop s)) (cs_canon s) (set (node_ids (ir_nodes p))) p s0"
proof -
  show "keep_ok (\<lambda>v. nd_id v \<notin> set (cs_drop s)) (cs_canon s) (set (node_ids (ir_nodes p))) p"
    unfolding keep_ok_def
  proof (intro conjI ballI impI)
    fix v assume "v \<in> set (ir_nodes p)" "nd_id v \<notin> set (cs_drop s)"
    then show "set (reads v) \<subseteq> set (node_ids (ir_nodes p))" "nd_id v \<in> set (node_ids (ir_nodes p))"
      "rep (cs_canon s) [] (nd_id v) = nd_id v"
      using ok cse_representative(1) [OF ok pure, of "nd_id v"] by (auto simp: ir_ok_def node_ids_def s_def)
  next
    show "snd ` set (ir_commits p) \<subseteq> set (node_ids (ir_nodes p))" using ok by (force simp: ir_ok_def)
  qed
  show "drop_ok K (\<lambda>v. nd_id v \<notin> set (cs_drop s)) (cs_canon s) (set (node_ids (ir_nodes p))) p s0"
    unfolding drop_ok_def
  proof (intro allI impI)
    fix pre v suf assume split: "ir_nodes p = pre @ v # suf" and "\<not> nd_id v \<notin> set (cs_drop s)"
    then have d: "nd_id v \<in> set (cs_drop s)" by simp
    have split': "ir_nodes p = (pre @ [v]) @ suf" using split by simp
    have new: "nd_id v \<notin> set (node_ids pre)" and suf: "nd_id v \<notin> set (node_ids suf)"
      by (rule ir_ok_prefix [OF ok split])+
    have later: "r \<notin> set (node_ids (v # suf))" if "r \<in> set (node_ids pre)" for r
    proof -
      have "sorted_wrt (<) (node_ids pre @ node_ids (v # suf))" using ok unfolding ir_ok_def split node_ids_def by simp
      with that show ?thesis unfolding sorted_wrt_append by (metis less_irrefl)
    qed
    obtain w where w: "w \<in> set (ir_nodes p)" "nd_id w = nd_id v" "nd_op w \<in> set pure_ops"
      using cse_drop_pure [of "nd_id v" "ir_nodes p"] d by (auto simp: s_def)
    have "w \<notin> set pre \<and> w \<notin> set suf" using w(2) new suf by (metis image_eqI image_set node_ids_def)
    then have op: "nd_op v \<in> set pure_ops" using w split by auto
    let ?env = "fst (run K pre s0)" and ?m = "snd (run K pre s0)"
    let ?s = "cse_scan (pre @ [v])"
    have run: "fst (run K (pre @ [v]) s0) = ?env(nd_id v := fst (fire K v ?env ?m))"
      by (simp add: run_snoc exec_node_def Let_def case_prod_unfold)
    have c: "canon_ok (pre @ [v]) (fst (run K (pre @ [v]) s0)) (cs_canon ?s) (cs_drop ?s)"
      using cse_scan_inv [OF ok pure split'] by (simp add: cse_inv_def)
    have "nd_id v \<in> set (cs_drop ?s)" using d cse_scan_stable(2) [OF suf, of "pre @ [v]"] split' by (simp add: s_def)
    then obtain r where r: "map_of (cs_canon ?s) (nd_id v) = Some r" "r \<noteq> nd_id v"
      using canon_ok_drop [OF c] by auto
    note cd = canon_okD [OF c r(1)]
    have rpre: "r \<in> set (node_ids pre)" using cd(2) r(2) by (auto simp: node_ids_snoc)
    have "map_of (cs_canon s) (nd_id v) = Some r"
      using r(1) cse_scan_stable(1) [OF suf, of "pre @ [v]"] split' by (simp add: s_def)
    then have rep: "rep (cs_canon s) [] (nd_id v) = r"
      using cse_representative(2) [OF ok pure, of "nd_id v" r] split by (simp add: s_def node_ids_def)
    have "r \<notin> set (cs_drop ?s)" using cd(3) canon_ok_drop [OF c, of r] by auto
    then have "r \<notin> set (cs_drop s)"
      using cse_scan_stable(2) [of r suf "pre @ [v]"] later [OF rpre] split' by (simp add: s_def node_ids_def)
    then have kept: "r \<in> kept_ids (\<lambda>v. nd_id v \<notin> set (cs_drop s)) pre"
      using rpre by (auto simp: kept_ids_def node_ids_def)
    have "?env r = fst (fire K v ?env ?m)" using cd(4) r(2) by (simp add: run)
    then show "let (env, m) = run K pre s0; (x, m') = fire K v env m
       in m' = m \<and> (nd_id v \<in> set (node_ids (ir_nodes p)) \<longrightarrow>
            rep (cs_canon s) [] (nd_id v) \<in> kept_ids (\<lambda>v. nd_id v \<notin> set (cs_drop s)) pre \<and> x = env (rep (cs_canon s) [] (nd_id v)))"
      using fire_pure(1) [OF pure op] kept by (simp add: Let_def case_prod_unfold rep)
  qed
qed

lemma cse_result:
  assumes "ir_ok p" and "pure_kernel K"
  shows "pass_result K z m p (eliminate_common_subexpressions p)"
  using rebuild_simulates [OF assms(1) cse_simulates [OF assms]] rebuild_everything [OF assms(1)]
  by (cases "cs_drop (cse_scan (ir_nodes p)) = []") (simp_all only: eliminate_common_subexpressions_def Let_def if_True if_False simp_thms)

text \<open>Common-subexpression elimination never fails on an authored program and changes
  neither a committed value nor the final memory, provided the kernels of the pure ops read and write
  no memory: a dropped duplicate and all its uses are rewired to an earlier node of equal value.\<close>

theorem common_subexpression_elimination_sound:
  assumes "ir_ok p" and "pure_kernel K"
  shows "\<exists>q. eliminate_common_subexpressions p = Inr q \<and> outcome K q z m = outcome K p z m
    \<and> ir_ok q \<and> length (ir_nodes q) \<le> length (ir_nodes p)"
  using cse_result [OF assms] unfolding pass_result_def by blast

subsection \<open>Redundant field solves\<close>

definition solve_canon_ok :: "'a node list \<Rightarrow> (nat \<Rightarrow> 'v) \<Rightarrow> (nat \<times> nat) list \<Rightarrow> nat list \<Rightarrow> bool" where
  "solve_canon_ok pre env canon dropped \<longleftrightarrow>
     (\<forall>i r. map_of canon i = Some r \<longrightarrow>
        i \<in> set (node_ids pre) \<and> r \<in> set (node_ids pre) \<and> map_of canon r = None \<and> env r = env i)
   \<and> (\<forall>i. i \<in> set dropped \<longleftrightarrow> map_of canon i \<noteq> None)"

definition active_ok ::
  "('a, 'v, 'm) kernel \<Rightarrow> 'a node list \<Rightarrow> (nat \<Rightarrow> 'v) \<Rightarrow> 'm \<Rightarrow> (nat \<times> nat) list \<Rightarrow> ((nat \<times> nat option) \<times> nat) list \<Rightarrow> bool" where
  "active_ok K pre env m canon active \<longleftrightarrow>
     (\<forall>x f r. map_of active (x, f) = Some r \<longrightarrow>
        x \<in> set (node_ids pre) \<and> r \<in> set (node_ids pre) \<and> map_of canon r = None
        \<and> (\<forall>k rs. K ''solve_fields'' k f [env x] rs m = (env r, m)))"

definition solve_inv :: "('a, 'v, 'm) kernel \<Rightarrow> 'a node list \<Rightarrow> (nat \<Rightarrow> 'v) \<Rightarrow> 'm \<Rightarrow> solve_state \<Rightarrow> bool" where
  "solve_inv K pre env m s \<longleftrightarrow>
     solve_canon_ok pre env (ss_canon s) (ss_drop s) \<and> active_ok K pre env m (ss_canon s) (ss_active s)"

lemma solve_canon_okD:
  assumes "solve_canon_ok pre env canon dropped" and "map_of canon i = Some r"
  shows "i \<in> set (node_ids pre)" and "r \<in> set (node_ids pre)" and "map_of canon r = None" and "env r = env i"
  using assms by (auto simp: solve_canon_ok_def)

lemma solve_canon_ok_drop: "solve_canon_ok pre env canon dropped \<Longrightarrow> i \<in> set dropped \<longleftrightarrow> map_of canon i \<noteq> None"
  by (simp add: solve_canon_ok_def)

lemma solve_canon_ok_other:
  assumes c: "solve_canon_ok pre env canon dropped" and new: "nd_id v \<notin> set (node_ids pre)"
  shows "solve_canon_ok (pre @ [v]) (env(nd_id v := x)) canon dropped"
  unfolding solve_canon_ok_def
proof (intro conjI allI impI)
  fix i r assume h: "map_of canon i = Some r"
  note d = solve_canon_okD [OF c h]
  have "i \<noteq> nd_id v" "r \<noteq> nd_id v" using d(1,2) new by auto
  then show "i \<in> set (node_ids (pre @ [v]))" "r \<in> set (node_ids (pre @ [v]))" "map_of canon r = None"
    "(env(nd_id v := x)) r = (env(nd_id v := x)) i"
    using d by (auto simp: node_ids_snoc)
qed (rule solve_canon_ok_drop [OF c])

lemma solve_canon_ok_set:
  assumes c: "solve_canon_ok pre env canon dropped" and new: "nd_id v \<notin> set (node_ids pre)"
    and r: "r \<in> set (node_ids pre)" "map_of canon r = None" "env r = x"
  shows "solve_canon_ok (pre @ [v]) (env(nd_id v := x)) (dict_set (nd_id v) r canon) (nd_id v # dropped)"
  unfolding solve_canon_ok_def
proof (intro conjI allI impI)
  fix i j assume h: "map_of (dict_set (nd_id v) r canon) i = Some j"
  have ne: "r \<noteq> nd_id v" using r(1) new by auto
  have "i \<in> set (node_ids (pre @ [v])) \<and> j \<in> set (node_ids (pre @ [v]))
     \<and> map_of (dict_set (nd_id v) r canon) j = None \<and> (env(nd_id v := x)) j = (env(nd_id v := x)) i"
  proof (cases "i = nd_id v")
    case True
    with h r ne show ?thesis by (simp add: node_ids_snoc)
  next
    case False
    then have h': "map_of canon i = Some j" using h by simp
    note d = solve_canon_okD [OF c h']
    have "j \<noteq> nd_id v" using d(2) new by auto
    with d False show ?thesis by (simp add: node_ids_snoc)
  qed
  then show "i \<in> set (node_ids (pre @ [v]))" "j \<in> set (node_ids (pre @ [v]))"
    "map_of (dict_set (nd_id v) r canon) j = None" "(env(nd_id v := x)) j = (env(nd_id v := x)) i" by blast+
qed (simp add: solve_canon_ok_drop [OF c])

lemma active_okD:
  assumes "active_ok K pre env m canon active" and "map_of active (x, f) = Some r"
  shows "x \<in> set (node_ids pre)" and "r \<in> set (node_ids pre)" and "map_of canon r = None"
    and "K ''solve_fields'' k f [env x] rs m = (env r, m)"
  using assms by (auto simp: active_ok_def)

lemma active_ok_keep:
  assumes a: "active_ok K pre env m canon active" and new: "nd_id v \<notin> set (node_ids pre)"
    and m': "\<And>k f x rs y. K ''solve_fields'' k f [x] rs m = (y, m) \<Longrightarrow> K ''solve_fields'' k f [x] rs m' = (y, m')"
    and c': "\<And>i. i \<noteq> nd_id v \<Longrightarrow> map_of canon' i = map_of canon i"
  shows "active_ok K (pre @ [v]) (env(nd_id v := y)) m' canon' active"
  unfolding active_ok_def
proof (intro conjI allI impI)
  fix x f r k rs assume h: "map_of active (x, f) = Some r"
  note d = active_okD [OF a h]
  have ne: "x \<noteq> nd_id v" "r \<noteq> nd_id v" using d(1,2) new by auto
  with d show "x \<in> set (node_ids (pre @ [v]))" "r \<in> set (node_ids (pre @ [v]))" "map_of canon' r = None"
    by (auto simp: node_ids_snoc c')
  show "K ''solve_fields'' k f [(env(nd_id v := y)) x] rs m' = ((env(nd_id v := y)) r, m')"
    using m' [OF d(4)] ne by simp
qed

lemma solve_kernelD:
  assumes "solve_kernel K"
  shows "K ''solve_fields'' k f xs rs m = K ''solve_fields'' k' f xs rs' m"
    and "K ''solve_fields'' k f xs rs m = (y, m') \<Longrightarrow> K ''solve_fields'' k f xs rs m' = (y, m')"
    and "op \<notin> set state_barrier_ops \<Longrightarrow> K ''solve_fields'' k f xs rs m = (y, m)
      \<Longrightarrow> m' = snd (K op k' f' ys rs' m) \<Longrightarrow> K ''solve_fields'' k f xs rs m' = (y, m')"
proof -
  show "K ''solve_fields'' k f xs rs m = K ''solve_fields'' k' f xs rs' m"
    using assms unfolding solve_kernel_def by (elim conjE) (erule allE)+
  show "K ''solve_fields'' k f xs rs m = (y, m') \<Longrightarrow> K ''solve_fields'' k f xs rs m' = (y, m')"
    using assms unfolding solve_kernel_def by (metis snd_conv)
  show "op \<notin> set state_barrier_ops \<Longrightarrow> K ''solve_fields'' k f xs rs m = (y, m)
      \<Longrightarrow> m' = snd (K op k' f' ys rs' m) \<Longrightarrow> K ''solve_fields'' k f xs rs m' = (y, m')"
    using assms unfolding solve_kernel_def Let_def by (metis fst_conv snd_conv)
qed

lemma solve_step_solve:
  assumes "solve_step c v s = Inr s'" and "nd_op v = ''solve_fields''"
  shows "\<exists>x. nd_inputs v = [x] \<and>
     s' = (case map_of (ss_active s) (x, nd_field v) of
             Some r \<Rightarrow> s\<lparr>ss_canon := dict_set (nd_id v) r (ss_canon s), ss_drop := nd_id v # ss_drop s\<rparr>
           | None \<Rightarrow> s\<lparr>ss_active := [((x, nd_field v), nd_id v)]\<rparr>)"
proof (cases "nd_inputs v")
  case Nil
  with assms show ?thesis by (simp add: solve_step_def)
next
  case (Cons x xs)
  with assms show ?thesis by (cases xs; cases "map_of (ss_active s) (x, nd_field v)") (simp_all add: solve_step_def)
qed

lemma solve_step_other_op:
  assumes "solve_step c v s = Inr s'" and "nd_op v \<noteq> ''solve_fields''"
  shows "s' = (if nd_op v \<in> set state_barrier_ops \<or> nd_id v \<in> set c then s\<lparr>ss_active := []\<rparr> else s)"
  using assms by (auto simp: solve_step_def split: if_splits)

lemma solve_inv_hit:
  assumes inv: "solve_inv K pre env m s" and new: "nd_id v \<notin> set (node_ids pre)"
    and op: "nd_op v = ''solve_fields''" "nd_inputs v = [x]" and hit: "map_of (ss_active s) (x, nd_field v) = Some r"
  shows "fire K v env m = (env r, m)"
    and "solve_inv K (pre @ [v]) (env(nd_id v := env r)) m
           (s\<lparr>ss_canon := dict_set (nd_id v) r (ss_canon s), ss_drop := nd_id v # ss_drop s\<rparr>)"
proof -
  have c: "solve_canon_ok pre env (ss_canon s) (ss_drop s)" and a: "active_ok K pre env m (ss_canon s) (ss_active s)"
    using inv by (auto simp: solve_inv_def)
  note d = active_okD [OF a hit]
  show "fire K v env m = (env r, m)" unfolding fire_def op using d(4) by simp
  have 1: "solve_canon_ok (pre @ [v]) (env(nd_id v := env r)) (dict_set (nd_id v) r (ss_canon s)) (nd_id v # ss_drop s)"
    by (rule solve_canon_ok_set [OF c new d(2,3) refl])
  have 2: "active_ok K (pre @ [v]) (env(nd_id v := env r)) m (dict_set (nd_id v) r (ss_canon s)) (ss_active s)"
    by (rule active_ok_keep [OF a new]) simp_all
  from 1 2 show "solve_inv K (pre @ [v]) (env(nd_id v := env r)) m
      (s\<lparr>ss_canon := dict_set (nd_id v) r (ss_canon s), ss_drop := nd_id v # ss_drop s\<rparr>)"
    by (simp add: solve_inv_def)
qed

lemma solve_inv_drop: "solve_inv K pre env m s \<Longrightarrow> nd_id v \<notin> set (node_ids pre) \<Longrightarrow> nd_id v \<notin> set (ss_drop s) \<and> map_of (ss_canon s) (nd_id v) = None"
  unfolding solve_inv_def using solve_canon_ok_drop solve_canon_okD(1) by blast

lemma solve_inv_miss:
  assumes K: "solve_kernel K" and inv: "solve_inv K pre env m s" and new: "nd_id v \<notin> set (node_ids pre)"
    and op: "nd_op v = ''solve_fields''" "nd_inputs v = [x]" and x: "x \<in> set (node_ids pre)"
  shows "solve_inv K (pre @ [v]) (env(nd_id v := fst (fire K v env m))) (snd (fire K v env m))
           (s\<lparr>ss_active := [((x, nd_field v), nd_id v)]\<rparr>)"
proof -
  let ?x = "fst (fire K v env m)" and ?m = "snd (fire K v env m)"
  have fire: "K ''solve_fields'' (nd_key v) (nd_field v) [env x] (map env (nd_refs v)) m = (?x, ?m)"
    by (simp add: fire_def op)
  have solved: "K ''solve_fields'' k (nd_field v) [env x] rs ?m = (?x, ?m)" for k rs
    by (rule solve_kernelD(2) [OF K, where m = m],
        subst solve_kernelD(1) [OF K, where k' = "nd_key v" and rs' = "map env (nd_refs v)"], rule fire)
  have "x \<noteq> nd_id v" using x new by auto
  then have "active_ok K (pre @ [v]) (env(nd_id v := ?x)) ?m (ss_canon s) [((x, nd_field v), nd_id v)]"
    using x solved solve_inv_drop [OF inv new] by (simp add: active_ok_def node_ids_snoc)
  moreover have "solve_canon_ok (pre @ [v]) (env(nd_id v := ?x)) (ss_canon s) (ss_drop s)"
    using solve_canon_ok_other [OF _ new] inv by (auto simp: solve_inv_def)
  ultimately show ?thesis by (simp add: solve_inv_def)
qed

lemma solve_stays:
  assumes "solve_kernel K" and "nd_op v \<notin> set state_barrier_ops" and "K ''solve_fields'' k f xs rs m = (y, m)"
  shows "K ''solve_fields'' k f xs rs (snd (fire K v env m)) = (y, snd (fire K v env m))"
  unfolding fire_def by (rule solve_kernelD(3) [OF assms(1), OF assms(2), OF assms(3), OF refl])

lemma solve_inv_barrier:
  assumes inv: "solve_inv K pre env m s" and new: "nd_id v \<notin> set (node_ids pre)"
  shows "solve_inv K (pre @ [v]) (env(nd_id v := x)) m' (s\<lparr>ss_active := []\<rparr>)"
  using solve_canon_ok_other [OF _ new, of env "ss_canon s" "ss_drop s" x] inv by (simp add: solve_inv_def active_ok_def)

lemma solve_inv_other:
  assumes K: "solve_kernel K" and inv: "solve_inv K pre env m s" and new: "nd_id v \<notin> set (node_ids pre)"
    and op: "nd_op v \<notin> set state_barrier_ops"
  shows "solve_inv K (pre @ [v]) (env(nd_id v := x)) (snd (fire K v env' m)) s"
  unfolding solve_inv_def
proof
  have c: "solve_canon_ok pre env (ss_canon s) (ss_drop s)" and a: "active_ok K pre env m (ss_canon s) (ss_active s)"
    using inv by (simp_all add: solve_inv_def)
  show "solve_canon_ok (pre @ [v]) (env(nd_id v := x)) (ss_canon s) (ss_drop s)"
    by (rule solve_canon_ok_other [OF c new])
  show "active_ok K (pre @ [v]) (env(nd_id v := x)) (snd (fire K v env' m)) (ss_canon s) (ss_active s)"
    by (rule active_ok_keep [OF a new]) (rule solve_stays [OF K, OF op], assumption, rule refl)
qed

lemma solve_inv_step:
  assumes K: "solve_kernel K" and inv: "solve_inv K pre env m s"
    and new: "nd_id v \<notin> set (node_ids pre)" and reads: "set (reads v) \<subseteq> set (node_ids pre)"
    and step: "solve_step c v s = Inr s'"
  shows "solve_inv K (pre @ [v]) (env(nd_id v := fst (fire K v env m))) (snd (fire K v env m)) s'
    \<and> (nd_id v \<in> set (ss_drop s') \<longrightarrow> snd (fire K v env m) = m)"
proof (cases "nd_op v = ''solve_fields''")
  case True
  obtain x where x: "nd_inputs v = [x]" and s': "s' = (case map_of (ss_active s) (x, nd_field v) of
             Some r \<Rightarrow> s\<lparr>ss_canon := dict_set (nd_id v) r (ss_canon s), ss_drop := nd_id v # ss_drop s\<rparr>
           | None \<Rightarrow> s\<lparr>ss_active := [((x, nd_field v), nd_id v)]\<rparr>)"
    using solve_step_solve [OF step True] by blast
  show ?thesis
  proof (cases "map_of (ss_active s) (x, nd_field v)")
    case (Some r)
    show ?thesis using solve_inv_hit [OF inv new True x Some] by (simp add: s' Some)
  next
    case None
    have "x \<in> set (node_ids pre)" using reads x by (auto simp: reads_def)
    then show ?thesis using solve_inv_miss [OF K inv new True x] solve_inv_drop [OF inv new] by (simp add: s' None)
  qed
next
  case False
  then show ?thesis
    using solve_step_other_op [OF step False] solve_inv_other [OF K inv new] solve_inv_barrier [OF inv new] solve_inv_drop [OF inv new] by auto
qed

definition solve_from :: "nat list \<Rightarrow> 'a node list \<Rightarrow> solve_state result" where
  "solve_from c ns = foldR (solve_step c) ns \<lparr>ss_active = [], ss_canon = [], ss_drop = []\<rparr>"

lemma solve_from_snoc: "solve_from c (pre @ [v]) = bindR (solve_from c pre) (solve_step c v)"
  by (simp add: solve_from_def foldR_append cong: bindR_cong)

lemma solve_from_inv:
  assumes ok: "ir_ok p" and K: "solve_kernel K"
  shows "ir_nodes p = pre @ suf \<Longrightarrow> solve_from c pre = Inr s \<Longrightarrow> solve_inv K pre (fst (run K pre s0)) (snd (run K pre s0)) s"
proof (induction pre arbitrary: suf s rule: rev_induct)
  case Nil
  then have "s = \<lparr>ss_active = [], ss_canon = [], ss_drop = []\<rparr>" by (simp add: solve_from_def)
  then show ?case by (simp add: solve_inv_def solve_canon_ok_def active_ok_def)
next
  case (snoc v pre)
  have split: "ir_nodes p = pre @ v # suf" using snoc.prems by simp
  obtain s1 where s1: "solve_from c pre = Inr s1" "solve_step c v s1 = Inr s"
    using snoc.prems(2) by (auto simp: solve_from_snoc)
  have run: "fst (run K (pre @ [v]) s0) = (fst (run K pre s0))(nd_id v := fst (fire K v (fst (run K pre s0)) (snd (run K pre s0))))"
    "snd (run K (pre @ [v]) s0) = snd (fire K v (fst (run K pre s0)) (snd (run K pre s0)))"
    by (simp_all add: run_snoc exec_node_def Let_def case_prod_unfold)
  show ?case
    unfolding run
    by (rule solve_inv_step [THEN conjunct1, OF K snoc.IH [OF split s1(1)] ir_ok_prefix(1,2) [OF ok split] s1(2)])
qed

lemma solve_step_other:
  assumes "solve_step c v s = Inr s'"
  shows "i \<noteq> nd_id v \<Longrightarrow> map_of (ss_canon s') i = map_of (ss_canon s) i"
    and "i \<noteq> nd_id v \<Longrightarrow> i \<in> set (ss_drop s') \<longleftrightarrow> i \<in> set (ss_drop s)"
  using assms by (auto simp: solve_step_def Let_def split: option.splits if_splits list.splits)

lemma solve_from_stable:
  assumes "solve_from c pre = Inr s"
  shows "solve_from c (pre @ suf) = Inr s' \<Longrightarrow> i \<notin> set (node_ids suf)
    \<Longrightarrow> map_of (ss_canon s') i = map_of (ss_canon s) i \<and> (i \<in> set (ss_drop s') \<longleftrightarrow> i \<in> set (ss_drop s))"
proof (induction suf arbitrary: s' rule: rev_induct)
  case Nil
  with assms show ?case by simp
next
  case (snoc v suf)
  obtain s1 where s1: "solve_from c (pre @ suf) = Inr s1" "solve_step c v s1 = Inr s'"
    using snoc.prems(1) by (auto simp: solve_from_snoc simp flip: append_assoc)
  have i: "i \<notin> set (node_ids suf)" "i \<noteq> nd_id v" using snoc.prems(2) by (auto simp: node_ids_def)
  show ?case using snoc.IH [OF s1(1) i(1)] solve_step_other [OF s1(2) i(2)] by simp
qed

lemma solve_from_prefix: "solve_from c (pre @ suf) = Inr s' \<Longrightarrow> \<exists>s. solve_from c pre = Inr s"
  by (auto simp: solve_from_def foldR_append)

lemma solve_scan_from: "solve_scan p = solve_from (map snd (ir_commits p)) (ir_nodes p)"
  by (simp add: solve_scan_def solve_from_def)

lemma solve_scan_value:
  assumes "solves_unary p"
  shows "\<exists>s. solve_scan p = Inr s"
proof -
  have "\<exists>s'. solve_step c v s = Inr s'" if v: "v \<in> set (ir_nodes p)" for c v s
  proof (cases "nd_op v = ''solve_fields''")
    case True
    then have "length (nd_inputs v) = 1" using assms v by (simp add: solves_unary_def)
    then obtain x where "nd_inputs v = [x]" by (auto simp: length_Suc_conv)
    then show ?thesis by (cases "map_of (ss_active s) (x, nd_field v)") (simp_all add: solve_step_def True Let_def)
  qed (simp add: solve_step_def)
  then have "set ns \<subseteq> set (ir_nodes p) \<Longrightarrow> \<exists>s'. foldR (solve_step c) ns s = Inr s'" for c ns s
    by (induction ns arbitrary: s) (auto, metis)
  then show ?thesis by (simp add: solve_scan_def)
qed

lemma solve_simulates:
  assumes ok: "ir_ok p" and K: "solve_kernel K" and s: "solve_scan p = Inr s"
  shows "keep_ok (\<lambda>v. nd_id v \<notin> set (ss_drop s)) (ss_canon s) (set (node_ids (ir_nodes p))) p"
    and "drop_ok K (\<lambda>v. nd_id v \<notin> set (ss_drop s)) (ss_canon s) (set (node_ids (ir_nodes p))) p s0"
proof -
  let ?c = "map snd (ir_commits p)"
  have scan: "solve_from ?c (ir_nodes p) = Inr s" using s by (simp add: solve_scan_from)
  have canon: "solve_canon_ok (ir_nodes p) (fst (run K (ir_nodes p) s0)) (ss_canon s) (ss_drop s)"
    using solve_from_inv [OF ok K _ scan, of "[]"] by (simp add: solve_inv_def)
  have self: "rep (ss_canon s) [] i = i" if "i \<notin> set (ss_drop s)" for i
    using that solve_canon_ok_drop [OF canon] by (simp add: rep_unaliased)
  have ids: "set (reads v) \<subseteq> set (node_ids (ir_nodes p))" "nd_id v \<in> set (node_ids (ir_nodes p))"
    if "v \<in> set (ir_nodes p)" for v
    using that ok by (auto simp: ir_ok_def node_ids_def)
  show "keep_ok (\<lambda>v. nd_id v \<notin> set (ss_drop s)) (ss_canon s) (set (node_ids (ir_nodes p))) p"
    using ids self ok unfolding keep_ok_def by (force simp: ir_ok_def)
  show "drop_ok K (\<lambda>v. nd_id v \<notin> set (ss_drop s)) (ss_canon s) (set (node_ids (ir_nodes p))) p s0"
    unfolding drop_ok_def
  proof (intro allI impI)
    fix pre v suf assume split: "ir_nodes p = pre @ v # suf" and "\<not> nd_id v \<notin> set (ss_drop s)"
    then have d: "nd_id v \<in> set (ss_drop s)" by simp
    have split': "ir_nodes p = (pre @ [v]) @ suf" using split by simp
    have new: "nd_id v \<notin> set (node_ids pre)" and suf: "nd_id v \<notin> set (node_ids suf)"
      by (rule ir_ok_prefix [OF ok split])+
    let ?env = "fst (run K pre s0)" and ?m = "snd (run K pre s0)"
    obtain s2 where s2: "solve_from ?c (pre @ [v]) = Inr s2"
      using solve_from_prefix scan split' by metis
    then obtain s1 where s1: "solve_from ?c pre = Inr s1" "solve_step ?c v s1 = Inr s2"
      by (auto simp: solve_from_snoc)
    have stable: "map_of (ss_canon s) i = map_of (ss_canon s2) i \<and> (i \<in> set (ss_drop s) \<longleftrightarrow> i \<in> set (ss_drop s2))"
      if "i \<notin> set (node_ids suf)" for i
      using solve_from_stable [OF s2, of suf s] scan split' that by simp
    have d2: "nd_id v \<in> set (ss_drop s2)" using stable [OF suf] d by simp
    have mem: "snd (fire K v ?env ?m) = ?m"
      using solve_inv_step [OF K solve_from_inv [OF ok K split s1(1)] ir_ok_prefix(1,2) [OF ok split] s1(2)] d2 by blast
    have c: "solve_canon_ok (pre @ [v]) (?env(nd_id v := fst (fire K v ?env ?m))) (ss_canon s2) (ss_drop s2)"
      using solve_from_inv [OF ok K split' s2, of s0]
      by (simp add: solve_inv_def run_snoc exec_node_def Let_def case_prod_unfold)
    obtain r where r: "map_of (ss_canon s2) (nd_id v) = Some r" using d2 solve_canon_ok_drop [OF c] by auto
    note cd = solve_canon_okD [OF c r]
    have ne: "r \<noteq> nd_id v" using cd(3) r by auto
    then have rpre: "r \<in> set (node_ids pre)" using cd(2) by (auto simp: node_ids_snoc)
    have rsuf: "r \<notin> set (node_ids suf)"
    proof -
      have "sorted_wrt (<) (node_ids pre @ node_ids (v # suf))" using ok unfolding ir_ok_def split node_ids_def by simp
      with rpre show ?thesis unfolding sorted_wrt_append by (metis less_irrefl list.set_intros(2) list.simps(9) node_ids_def)
    qed
    have canon_v: "map_of (ss_canon s) (nd_id v) = Some r" and canon_r: "map_of (ss_canon s) r = None"
      using stable [OF suf] stable [OF rsuf] r cd(3) by simp_all
    have rep: "rep (ss_canon s) [] (nd_id v) = r" by (rule rep_once [OF canon_v ne]) (simp add: canon_r)
    have "r \<notin> set (ss_drop s)" using solve_canon_ok_drop [OF canon] canon_r by simp
    then have kept: "r \<in> kept_ids (\<lambda>v. nd_id v \<notin> set (ss_drop s)) pre"
      using rpre by (auto simp: kept_ids_def node_ids_def)
    have "?env r = fst (fire K v ?env ?m)" using cd(4) ne by simp
    then show "let (env, m) = run K pre s0; (x, m') = fire K v env m
       in m' = m \<and> (nd_id v \<in> set (node_ids (ir_nodes p)) \<longrightarrow>
            rep (ss_canon s) [] (nd_id v) \<in> kept_ids (\<lambda>v. nd_id v \<notin> set (ss_drop s)) pre \<and> x = env (rep (ss_canon s) [] (nd_id v)))"
      using mem kept by (simp add: Let_def case_prod_unfold rep)
  qed
qed

lemma solve_result:
  assumes "ir_ok p" and "solves_unary p" and "solve_kernel K"
  shows "pass_result K z m p (eliminate_redundant_field_solves p)"
proof -
  obtain s where s: "solve_scan p = Inr s" using solve_scan_value [OF assms(2)] by blast
  show ?thesis
    using rebuild_simulates [OF assms(1) solve_simulates [OF assms(1,3) s]] rebuild_everything [OF assms(1)]
    by (cases "ss_drop s = []") (simp_all only: eliminate_redundant_field_solves_def s bindR.simps if_True if_False simp_thms)
qed

text \<open>Redundant field-solve elimination changes neither a committed value nor the final
  memory, provided the solve kernel meets the contract the barrier table is written for (a solve is
  determined by its state and field, repeating it changes nothing, and only the ops of the table
  disturb it).\<close>

theorem redundant_solve_elimination_sound:
  assumes "ir_ok p" and "solves_unary p" and "solve_kernel K"
  shows "\<exists>q. eliminate_redundant_field_solves p = Inr q \<and> outcome K q z m = outcome K p z m
    \<and> ir_ok q \<and> length (ir_nodes q) \<le> length (ir_nodes p)"
  using solve_result [OF assms] unfolding pass_result_def by blast

subsection \<open>Validation of the optimised program\<close>

lemma defined_before_use_ok:
  assumes "ir_ok p"
  shows "ir_nodes p = pre @ suf \<Longrightarrow> set (node_ids pre) \<subseteq> set seen \<Longrightarrow> defined_before_use seen suf"
proof (induction suf arbitrary: pre seen)
  case (Cons v suf)
  have "set (reads v) \<subseteq> set (node_ids pre)" by (rule ir_ok_prefix(2) [OF assms Cons.prems(1)])
  then have "set (nd_inputs v) \<subseteq> set seen" using Cons.prems(2) by (auto simp: reads_def)
  moreover have "defined_before_use (nd_id v # seen) suf"
    by (rule Cons.IH [of "pre @ [v]"]) (use Cons.prems in \<open>auto simp: node_ids_snoc\<close>)
  ultimately show ?case by simp
qed simp

lemma validate_ok: "ir_ok p \<Longrightarrow> ir_commits p \<noteq> [] \<Longrightarrow> validate p = Inr True"
  using defined_before_use_ok [of p "[]" "ir_nodes p" "[]"] by (simp add: validate_def node_ids_def)

lemma outcome_commits: "outcome K q z m = outcome K p z m \<Longrightarrow> map fst (ir_commits q) = map fst (ir_commits p)"
  by (drule arg_cong [where f = "\<lambda>x. map fst (fst x)"]) (simp add: outcome_def Let_def case_prod_unfold comp_def)


section \<open>Concrete kernels and programs\<close>

text \<open>
  A step over one state and one solved field, both integers. \<open>still_kernel\<close> meets the contracts: only
  the ops of the barrier table touch the state. In \<open>busy_kernel\<close> a \<open>branch\<close> node also moves the
  state, as it does when its recorded sub-block projects or fills boundaries.
\<close>

definition still_kernel :: "(unit, int, int \<times> int) kernel" where
  "still_kernel op k f xs rs m =
     (if op = ''solve_fields'' then (sum_list xs + fst m, (fst m, sum_list xs + fst m))
      else if op \<in> set state_barrier_ops then (0, (fst m + 1, snd m))
      else if op \<in> set pure_ops then (sum_list xs, m)
      else (sum_list xs + fst m + snd m, m))"

definition busy_kernel :: "(unit, int, int \<times> int) kernel" where
  "busy_kernel op k f xs rs m =
     (if op = ''branch'' then (0, (fst m + 1, snd m)) else still_kernel op k f xs rs m)"

definition mk_node :: "nat \<Rightarrow> string \<Rightarrow> nat list \<Rightarrow> unit node" where
  "mk_node i op ins = \<lparr>nd_id = i, nd_op = op, nd_key = (), nd_inputs = ins, nd_refs = [],
     nd_field = (if op = ''solve_fields'' then Some 0 else None)\<rparr>"

definition sample_ir :: "string \<Rightarrow> unit ir" where
  "sample_ir between =
     \<lparr>ir_nodes = [mk_node 0 ''state'' [], mk_node 1 ''solve_fields'' [0], mk_node 2 between [0],
        mk_node 3 ''solve_fields'' [0], mk_node 4 ''rhs'' [0, 3], mk_node 5 ''rhs'' [0, 1],
        mk_node 6 ''linear_combine'' [0, 4], mk_node 7 ''linear_combine'' [0, 4], mk_node 8 ''linear_combine'' [7, 6]],
      ir_commits = [(0, 8)]\<rparr>"

lemma still_contracts: "removable_quiet still_kernel" "pure_kernel still_kernel" "solve_kernel still_kernel"
  by (auto simp: removable_quiet_def pure_kernel_def solve_kernel_def still_kernel_def removable_ops_def
      pure_ops_def state_barrier_ops_def)

lemma busy_contracts: "removable_quiet busy_kernel" "pure_kernel busy_kernel"
  by (auto simp: removable_quiet_def pure_kernel_def busy_kernel_def still_kernel_def removable_ops_def
      pure_ops_def state_barrier_ops_def)

lemma sample_ok: "ir_ok (sample_ir op)" "op \<noteq> ''solve_fields'' \<Longrightarrow> solves_unary (sample_ir op)"
  by (auto simp: ir_ok_def solves_unary_def sample_ir_def mk_node_def node_ids_def reads_def)

lemma sample_optimized: "map length [ir_nodes (sample_ir ''where'')] = [9]
   \<and> (case optimize (sample_ir ''where'') of Inr q \<Rightarrow> map nd_op (ir_nodes q)
        = [''state'', ''solve_fields'', ''rhs'', ''linear_combine'', ''linear_combine''] | Inl _ \<Rightarrow> False)"
  by code_simp

text \<open>The passes on a program with a dead right-hand side, a dead mask, a duplicated combination and a
  repeated solve: five nodes of nine remain, and the outcome is the one of the first program.\<close>

theorem dead_node_elimination_sound_witness:
  "\<exists>q. eliminate_dead_nodes (sample_ir ''where'') = Inr q
     \<and> outcome still_kernel q 0 (1, 2) = outcome still_kernel (sample_ir ''where'') 0 (1, 2)
     \<and> ir_ok q \<and> length (ir_nodes q) \<le> length (ir_nodes (sample_ir ''where''))"
  by (rule dead_node_elimination_sound [OF sample_ok(1) still_contracts(1)])

theorem common_subexpression_elimination_sound_witness:
  "\<exists>q. eliminate_common_subexpressions (sample_ir ''where'') = Inr q
     \<and> outcome still_kernel q 0 (1, 2) = outcome still_kernel (sample_ir ''where'') 0 (1, 2)
     \<and> ir_ok q \<and> length (ir_nodes q) \<le> length (ir_nodes (sample_ir ''where''))"
  by (rule common_subexpression_elimination_sound [OF sample_ok(1) still_contracts(2)])

theorem redundant_solve_elimination_sound_witness:
  "\<exists>q. eliminate_redundant_field_solves (sample_ir ''branch'') = Inr q
     \<and> outcome still_kernel q 0 (1, 2) = outcome still_kernel (sample_ir ''branch'') 0 (1, 2)
     \<and> ir_ok q \<and> length (ir_nodes q) \<le> length (ir_nodes (sample_ir ''branch''))"
  by (rule redundant_solve_elimination_sound [OF sample_ok(1) sample_ok(2) still_contracts(3)]) simp


text \<open>The contract on barriers is needed and the pass does not enforce it: with a
  \<open>branch\<close> between two solves whose sub-block moves the state, the second solve is dropped although
  its fields differ, and the committed value changes. The barrier table is compared with the flat ops
  only.\<close>

theorem nested_barrier_is_missed:
  "ir_ok (sample_ir ''branch'') \<and> removable_quiet busy_kernel \<and> pure_kernel busy_kernel
   \<and> (\<exists>q. eliminate_redundant_field_solves (sample_ir ''branch'') = Inr q
        \<and> outcome busy_kernel q 0 (1, 2) \<noteq> outcome busy_kernel (sample_ir ''branch'') 0 (1, 2))"
proof (intro conjI sample_ok busy_contracts)
  have "(case eliminate_redundant_field_solves (sample_ir ''branch'') of Inl _ \<Rightarrow> False
     | Inr q \<Rightarrow> outcome busy_kernel q 0 (1, 2) \<noteq> outcome busy_kernel (sample_ir ''branch'') 0 (1, 2))"
    by code_simp
  then show "\<exists>q. eliminate_redundant_field_solves (sample_ir ''branch'') = Inr q
        \<and> outcome busy_kernel q 0 (1, 2) \<noteq> outcome busy_kernel (sample_ir ''branch'') 0 (1, 2)"
    by (cases "eliminate_redundant_field_solves (sample_ir ''branch'')") auto
qed

end
