(* ===== verification/Pops_Consumers.thy ===== *)
theory Pops_Consumers
  imports Pops_Prelude "HOL-Library.List_Lexorder" "HOL-Library.Char_ord" "HOL-Library.Product_Lexorder"
begin

text \<open>
  The values consumers of accepted steps are planned with
  (\<open>python/pops/output/_consumer_contracts.py\<close>, \<open>python/pops/runtime/_consumer_effects.py\<close>, and the
  receipts and reports of \<open>_consumer_transaction.py\<close>): failure actions, schedule cursors, effects,
  plans, receipts and reports, with their validating constructors.

  An identity is its token, a text. \<open>make_identity\<close> digests the data a value is built from and is a
  parameter. A field whose Python type is checked by a constructor has that type here.
\<close>

section \<open>Canonical text\<close>

text \<open>\<open>str.strip()\<close> removes these characters (of the first 256).\<close>

definition is_space :: "char \<Rightarrow> bool" where
  "is_space c = (of_char c \<in> {9..13 :: nat} \<union> {28..32} \<union> {133, 160})"

definition canonical_text :: "string \<Rightarrow> bool" where
  "canonical_text s \<longleftrightarrow> s \<noteq> [] \<and> \<not> is_space (hd s) \<and> \<not> is_space (last s)"

definition check_text :: "string \<Rightarrow> string result" where
  "check_text s = raise_if (\<not> canonical_text s) TypeError (Inr s)"

section \<open>Cursors\<close>

record cursor =
  cu_consumer :: string
  cu_last :: "string option"
  cu_samples :: nat

definition mk_cursor :: "string \<Rightarrow> string option \<Rightarrow> nat \<Rightarrow> cursor result" where
  "mk_cursor consumer last_occurrence samples =
     bindR (check_text consumer) (\<lambda>consumer.
     bindR (case last_occurrence of None \<Rightarrow> Inr [] | Some t \<Rightarrow> check_text t) (\<lambda>_.
     Inr \<lparr>cu_consumer = consumer, cu_last = last_occurrence, cu_samples = samples\<rparr>))"

text \<open>A \<open>ConsumerCursorSet\<close> is its sorted rows.\<close>

type_synonym cursors = "cursor list"

definition mk_cursors :: "cursor list \<Rightarrow> cursors result" where
  "mk_cursors rows =
     (let rows = sort_key cu_consumer rows
      in raise_if (\<not> distinct (map cu_consumer rows)) ValueError (Inr rows))"

definition for_consumer :: "cursors \<Rightarrow> string \<Rightarrow> cursor result" where
  "for_consumer cs consumer =
     bindR (check_text consumer) (\<lambda>consumer.
       case find (\<lambda>c. cu_consumer c = consumer) cs of
         Some c \<Rightarrow> Inr c
       | None \<Rightarrow> mk_cursor consumer None 0)"

definition replace_cursor :: "cursors \<Rightarrow> cursor \<Rightarrow> cursors result" where
  "replace_cursor cs c = mk_cursors (map snd (dict_set (cu_consumer c) c (map (\<lambda>r. (cu_consumer r, r)) cs)))"

definition cursors_ok :: "cursors \<Rightarrow> bool" where
  "cursors_ok cs \<longleftrightarrow> distinct (map cu_consumer cs) \<and> sorted (map cu_consumer cs)"

lemma mk_cursors_ok: "mk_cursors rows = Inr cs \<Longrightarrow> cursors_ok cs \<and> set cs = set rows"
  by (auto simp: mk_cursors_def cursors_ok_def Let_def)

lemma mk_cursors_total:
  "distinct (map cu_consumer rows) \<Longrightarrow> mk_cursors rows = Inr (sort_key cu_consumer rows)"
  by (simp add: mk_cursors_def Let_def distinct_map)

text \<open>The cursor a set holds for a consumer.\<close>

definition cursor_of :: "cursors \<Rightarrow> string \<Rightarrow> cursor" where
  "cursor_of cs consumer =
     (case find (\<lambda>c. cu_consumer c = consumer) cs of
        Some c \<Rightarrow> c | None \<Rightarrow> \<lparr>cu_consumer = consumer, cu_last = None, cu_samples = 0\<rparr>)"

lemma for_consumer_value: "canonical_text k \<Longrightarrow> for_consumer cs k = Inr (cursor_of cs k)"
  by (simp add: for_consumer_def cursor_of_def check_text_def mk_cursor_def split: option.split)

lemma find_distinct_key:
  "distinct (map f xs) \<Longrightarrow> find (\<lambda>x. f x = k) xs = Some x \<longleftrightarrow> x \<in> set xs \<and> f x = k"
  by (induction xs) (auto simp: image_iff)

lemma keyed_rows: "\<forall>(k, v) \<in> set d. k = f v \<Longrightarrow> map f (map snd d) = map fst d"
  by (induction d) auto

lemma replace_cursor_value:
  assumes "cursors_ok cs"
  shows "\<exists>cs'. replace_cursor cs c = Inr cs' \<and> cursors_ok cs' \<and> cursor_of cs' = (cursor_of cs)(cu_consumer c := c)"
proof -
  define d where "d = dict_set (cu_consumer c) c (map (\<lambda>r. (cu_consumer r, r)) cs)"
  have old: "distinct (map cu_consumer cs)" using assms by (simp add: cursors_ok_def)
  have keys: "\<forall>(k, v) \<in> set d. k = cu_consumer v" unfolding d_def by (auto dest!: in_dict_set)
  have d: "distinct (map fst d)" unfolding d_def using old by (intro distinct_dict_set) (simp add: comp_def)
  have lookup: "map_of d = (map_of (map (\<lambda>r. (cu_consumer r, r)) cs))(cu_consumer c \<mapsto> c)" by (simp add: d_def)
  have "distinct (map cu_consumer (map snd d))" unfolding keyed_rows [OF keys] by (rule d)
  note built = mk_cursors_total [OF this]
  define cs' where "cs' = sort_key cu_consumer (map snd d)"
  have cs': "replace_cursor cs c = Inr cs'" "cursors_ok cs'" "set cs' = snd ` set d"
    using built mk_cursors_ok [OF built] by (simp_all add: replace_cursor_def d_def cs'_def)
  have member: "r \<in> set cs' \<longleftrightarrow> r = c \<or> r \<in> set cs \<and> cu_consumer r \<noteq> cu_consumer c" for r
  proof -
    have "r \<in> snd ` set d \<longleftrightarrow> map_of d (cu_consumer r) = Some r"
      unfolding map_of_eq_Some_iff [OF d] using keys by force
    also have "\<dots> \<longleftrightarrow> r = c \<or> r \<in> set cs \<and> cu_consumer r \<noteq> cu_consumer c"
      using old unfolding lookup by (auto simp: map_of_eq_Some_iff comp_def)
    finally show ?thesis using cs'(3) by simp
  qed
  have "cursor_of cs' k = ((cursor_of cs)(cu_consumer c := c)) k" for k
  proof -
    have new: "find (\<lambda>r. cu_consumer r = k) cs' = Some r \<longleftrightarrow> r \<in> set cs' \<and> cu_consumer r = k" for r
      using cs'(2) by (intro find_distinct_key) (simp add: cursors_ok_def)
    have prior: "find (\<lambda>r. cu_consumer r = k) cs = Some r \<longleftrightarrow> r \<in> set cs \<and> cu_consumer r = k" for r
      using old by (rule find_distinct_key)
    show ?thesis
    proof (cases "k = cu_consumer c")
      case True
      then show ?thesis using new [of c] member by (simp add: cursor_of_def)
    next
      case False
      then have "find (\<lambda>r. cu_consumer r = k) cs' = find (\<lambda>r. cu_consumer r = k) cs"
        using new prior member by (metis not_None_eq)
      then show ?thesis using False by (simp add: cursor_of_def)
    qed
  qed
  then show ?thesis using cs' by blast
qed

section \<open>Effects and plans\<close>

datatype failure_action = Fail_Run | Retry_Up_To nat | Skip_Sample_Reported

definition mk_retry :: "int \<Rightarrow> failure_action result" where
  "mk_retry max_attempts = raise_if (max_attempts < 2) ValueError (Inr (Retry_Up_To (nat max_attempts)))"

datatype parallel_mode = Serial | Rooted | Collective | Per_Rank

record payload_ref =
  py_identity :: string
  py_occurrence :: string

record effect =
  ef_ordinal :: nat
  ef_consumer :: string
  ef_manifest :: string
  ef_uri :: string
  ef_mode :: parallel_mode
  ef_payload :: payload_ref
  ef_action :: failure_action
  ef_before :: cursor
  ef_after :: cursor
  ef_identity :: string

text \<open>\<open>digest\<close> is \<open>make_identity\<close> on the data of the effect (the record without its identity).\<close>

definition mk_effect ::
  "(effect \<Rightarrow> string) \<Rightarrow> nat \<Rightarrow> string \<Rightarrow> string \<Rightarrow> string \<Rightarrow> parallel_mode \<Rightarrow> payload_ref
    \<Rightarrow> failure_action \<Rightarrow> cursor \<Rightarrow> cursor \<Rightarrow> effect result" where
  "mk_effect digest ordinal consumer manifest uri mode payload action before after =
     bindR (check_text consumer) (\<lambda>consumer.
     bindR (check_text uri) (\<lambda>uri.
     raise_if (cu_consumer before \<noteq> consumer \<or> cu_consumer after \<noteq> consumer) ValueError
    (raise_if (cu_last after \<noteq> Some (py_occurrence payload) \<or> cu_samples after \<noteq> cu_samples before + 1) ValueError
    (let e = \<lparr>ef_ordinal = ordinal, ef_consumer = consumer, ef_manifest = manifest, ef_uri = uri, ef_mode = mode,
              ef_payload = payload, ef_action = action, ef_before = before, ef_after = after, ef_identity = []\<rparr>
     in Inr (e\<lparr>ef_identity := digest e\<rparr>)))))"

record plan =
  pl_graph :: string
  pl_runtime :: string
  pl_effects :: "effect list"

definition mk_plan :: "string \<Rightarrow> string \<Rightarrow> effect list \<Rightarrow> plan result" where
  "mk_plan graph runtime effects =
     raise_if (map ef_ordinal effects \<noteq> [0..<length effects]) ValueError
    (raise_if (\<not> distinct (map (py_identity \<circ> ef_payload) effects)) ValueError
       (Inr \<lparr>pl_graph = graph, pl_runtime = runtime, pl_effects = effects\<rparr>))"

section \<open>Receipts and reports\<close>

record receipt =
  rc_effect :: string
  rc_payload :: string
  rc_publisher :: string
  rc_artifact :: string
  rc_mode :: parallel_mode
  rc_ranks :: "(int \<times> string) list"

definition mk_receipt ::
  "string \<Rightarrow> string \<Rightarrow> string \<Rightarrow> string \<Rightarrow> parallel_mode \<Rightarrow> (int \<times> string) list \<Rightarrow> receipt result" where
  "mk_receipt eff payload publisher artifact mode rank_artifacts =
     bindR (check_text publisher) (\<lambda>publisher.
     bindR (check_text artifact) (\<lambda>artifact.
     let rows = (if rank_artifacts = [] then [(0, artifact)] else rank_artifacts) in
     bindR (traverse (\<lambda>(rank, a). raise_if (rank < 0) TypeError (bindR (check_text a) (\<lambda>a. Inr (rank, a)))) rows) (\<lambda>rows.
     let normalized = sort rows; ranks = map fst normalized in
     raise_if (\<not> distinct ranks) ValueError
    (raise_if (if mode = Per_Rank then ranks \<noteq> map int [0..<length ranks] else normalized \<noteq> [(0, artifact)]) ValueError
       (Inr \<lparr>rc_effect = eff, rc_payload = payload, rc_publisher = publisher, rc_artifact = artifact,
             rc_mode = mode, rc_ranks = normalized\<rparr>)))))"

record skip_report =
  sk_effect :: string
  sk_consumer :: string
  sk_phase :: string
  sk_attempts :: nat
  sk_reason :: string

definition mk_skip :: "string \<Rightarrow> string \<Rightarrow> string \<Rightarrow> nat \<Rightarrow> string \<Rightarrow> skip_report result" where
  "mk_skip eff consumer phase attempts reason =
     bindR (check_text consumer) (\<lambda>consumer.
     raise_if (phase \<notin> {''prepare'', ''publish''}) ValueError
    (raise_if (attempts < 1) ValueError
    (bindR (check_text reason) (\<lambda>reason.
       Inr \<lparr>sk_effect = eff, sk_consumer = consumer, sk_phase = phase, sk_attempts = attempts, sk_reason = reason\<rparr>))))"

datatype tx_status = Accepted | Rejected | Failed

record report =
  rp_status :: tx_status
  rp_cursors :: cursors
  rp_staged :: "string list"
  rp_published :: "receipt list"
  rp_skipped :: "skip_report list"
  rp_rolled_back :: "string list"
  rp_diagnostics :: "string list"

definition mk_report ::
  "tx_status \<Rightarrow> cursors \<Rightarrow> string list \<Rightarrow> receipt list \<Rightarrow> skip_report list \<Rightarrow> string list \<Rightarrow> string list
    \<Rightarrow> report result" where
  "mk_report status cursors staged published skipped rolled_back diagnostics =
     raise_if (status = Rejected \<and> published \<noteq> []) ValueError
       (Inr \<lparr>rp_status = status, rp_cursors = cursors, rp_staged = staged, rp_published = published,
             rp_skipped = skipped, rp_rolled_back = rolled_back, rp_diagnostics = diagnostics\<rparr>)"

end
