(* ===== verification/Pops_Transaction.thy ===== *)
theory Pops_Transaction
  imports Pops_Consumers "HOL-Library.Multiset" "HOL-Library.Sublist"
begin

text \<open>
  The transaction of consumer side effects (\<open>python/pops/runtime/_consumer_transaction.py\<close>): every
  due effect is prepared, and the step controller then accepts the whole set or rejects it.

  What a publisher does is a parameter (the abstract classes \<open>ConsumerPublisher\<close> and
  \<open>PreparedPublication\<close>): a prepared publication is a value \<open>'p\<close> (its attributes), the rest of the
  process and of the machine is a world \<open>'w\<close>, and a method returns a value or raises and leaves both
  changed. A transaction never shares a publication between two of its rows. An exception carries
  the text the code reports; one outside Python's \<open>Exception\<close> (a keyboard interrupt, an exit) is
  \<open>Interrupted\<close>, which the code's handlers let through. An exception with an empty message is one whose
  \<open>str\<close> is empty.
\<close>

section \<open>Faults\<close>

datatype fault =
    Raised string string
  | PublicationError string report
  | Interrupted string string

text \<open>A value of the class the caller requires, or some other Python value.\<close>

datatype 'a reply = Exact 'a | Foreign

fun fault_text :: "fault \<Rightarrow> string" where
  "fault_text (Raised c m) = c @ '': '' @ m"
| "fault_text (PublicationError m _) = ''ConsumerPublicationError: '' @ m"
| "fault_text (Interrupted c m) = c @ '': '' @ m"

fun passes_handlers :: "fault \<Rightarrow> bool" where
  "passes_handlers (Interrupted _ _) = True"
| "passes_handlers _ = False"

definition reason :: "fault option \<Rightarrow> string" where
  "reason error =
     (case error of None \<Rightarrow> ''consumer publication failed without diagnostic'' | Some f \<Rightarrow> fault_text f)"

fun class_name :: "exn \<Rightarrow> string" where
  "class_name TypeError = ''TypeError''"
| "class_name ValueError = ''ValueError''"
| "class_name KeyError = ''KeyError''"
| "class_name RuntimeError = ''RuntimeError''"
| "class_name OverflowError = ''OverflowError''"
| "class_name ZeroDivisionError = ''ZeroDivisionError''"
| "class_name FileNotFoundError = ''FileNotFoundError''"
| "class_name FileExistsError = ''FileExistsError''"
| "class_name NotImplementedError = ''NotImplementedError''"
| "class_name IndexError = ''IndexError''"
| "class_name AttributeError = ''AttributeError''"
| "class_name OSError = ''OSError''"
| "class_name AssertionError = ''AssertionError''"
| "class_name CoefficientLiteralError = ''CoefficientLiteralError''"

text \<open>A constructor that raises, called with the message \<open>msg\<close>.\<close>

definition raised_by :: "string \<Rightarrow> 'a result \<Rightarrow> fault + 'a" where
  "raised_by msg r = (case r of Inl e \<Rightarrow> Inl (Raised (class_name e) msg) | Inr x \<Rightarrow> Inr x)"

section \<open>The publisher interface\<close>

record ('p, 'r, 'w) publisher =
  pub_prepare :: "effect \<Rightarrow> 'w \<Rightarrow> (fault + 'p reply) \<times> 'w"
  pub_effect :: "'p \<Rightarrow> string"
  pub_payload :: "'p \<Rightarrow> string"
  pub_publish :: "'p \<Rightarrow> 'w \<Rightarrow> (fault + receipt reply) \<times> 'p \<times> 'w"
  pub_discard :: "'p \<Rightarrow> 'w \<Rightarrow> (fault + unit) \<times> 'p \<times> 'w"
  pub_rollback :: "'p \<Rightarrow> 'w \<Rightarrow> (fault + unit) \<times> 'p \<times> 'w"
  pub_finalize :: "'p \<Rightarrow> 'w \<Rightarrow> (fault + unit reply) \<times> 'p \<times> 'w"
  pub_recoveries :: "'p \<Rightarrow> 'w \<Rightarrow> fault + 'r list reply"

section \<open>Transactions\<close>

datatype tx_state = Preparing | Staged | Resolved tx_status | Sealed

record ('p, 'r) tx =
  tx_plan :: plan
  tx_initial :: cursors
  tx_prepared :: "(effect \<times> 'p \<times> nat) list"
  tx_accepted :: "(effect \<times> 'p \<times> receipt) list"
  tx_updates :: "cursor list"
  tx_skipped :: "skip_report list"
  tx_finalize :: "(effect \<times> 'p \<times> receipt) list"
  tx_recoveries :: "'r list"
  tx_state :: tx_state

definition attempt_limit :: "effect \<Rightarrow> nat" where
  "attempt_limit e = (case ef_action e of Retry_Up_To n \<Rightarrow> n | _ \<Rightarrow> 1)"

fun is_retry :: "failure_action \<Rightarrow> bool" where
  "is_retry (Retry_Up_To _) = True"
| "is_retry _ = False"

definition validate_prepared :: "('p, 'r, 'w) publisher \<Rightarrow> effect \<Rightarrow> 'p reply \<Rightarrow> fault + 'p" where
  "validate_prepared P e prepared =
     (case prepared of
        Foreign \<Rightarrow> Inl (Raised ''TypeError'' ''ConsumerPublisher.prepare must return PreparedPublication'')
      | Exact p \<Rightarrow>
          if pub_effect P p \<noteq> ef_identity e \<or> pub_payload P p \<noteq> py_identity (ef_payload e)
          then Inl (Raised ''ValueError'' ''prepared publication does not authenticate its exact effect payload'')
          else Inr p)"

text \<open>\<open>prepare_one\<close> from \<open>attempts\<close> attempts on, \<open>left\<close> of which remain.\<close>

fun prepare_loop ::
  "('p, 'r, 'w) publisher \<Rightarrow> effect \<Rightarrow> nat \<Rightarrow> nat \<Rightarrow> fault option \<Rightarrow> 'w
    \<Rightarrow> (fault + 'p option \<times> nat \<times> fault option) \<times> 'w" where
  "prepare_loop P e 0 attempts last_error w = (Inr (None, attempts, last_error), w)"
| "prepare_loop P e (Suc left) attempts last_error w =
     (let (r, w') = pub_prepare P e w
      in case (case r of Inl f \<Rightarrow> Inl f | Inr prepared \<Rightarrow> validate_prepared P e prepared) of
           Inr p \<Rightarrow> (Inr (Some p, Suc attempts, None), w')
         | Inl f \<Rightarrow> if passes_handlers f then (Inl f, w')
                    else prepare_loop P e left (Suc attempts) (Some f) w')"

definition prepare_one ::
  "('p, 'r, 'w) publisher \<Rightarrow> effect \<Rightarrow> nat \<Rightarrow> 'w \<Rightarrow> (fault + 'p option \<times> nat \<times> fault option) \<times> 'w" where
  "prepare_one P e start w = prepare_loop P e (attempt_limit e - start) start None w"

text \<open>\<open>_retain_recoveries\<close>: the retained authorities and the failure text, if any.\<close>

definition retain_recoveries ::
  "('p, 'r, 'w) publisher \<Rightarrow> 'p \<Rightarrow> 'w \<Rightarrow> 'r list \<Rightarrow> fault + string option \<times> 'r list" where
  "retain_recoveries P p w kept =
     (case pub_recoveries P p w of
        Inl f \<Rightarrow> if passes_handlers f then Inl f
                 else Inr (Some (''recovery ownership transfer failed: '' @ reason (Some f)), kept)
      | Inr Foreign \<Rightarrow>
          Inr (Some (''recovery ownership transfer failed: ''
                @ reason (Some (Raised ''TypeError'' ''PreparedPublication.recoveries must return a tuple''))), kept)
      | Inr (Exact rs) \<Rightarrow> Inr (None, foldl (\<lambda>ks r. if r \<in> set ks then ks else ks @ [r]) kept rs))"

text \<open>The common body of \<open>_discard\<close> and \<open>_rollback\<close>: run the clean-up, then take over its recoveries.\<close>

definition release ::
  "string \<Rightarrow> ('p \<Rightarrow> 'w \<Rightarrow> (fault + unit) \<times> 'p \<times> 'w) \<Rightarrow> ('p, 'r, 'w) publisher
    \<Rightarrow> 'p \<Rightarrow> 'r list \<Rightarrow> 'w \<Rightarrow> (fault + string option) \<times> 'p \<times> 'r list \<times> 'w" where
  "release label op P p kept w =
     (let (r, p', w') = op p w in
      case r of
        Inl f \<Rightarrow>
          if passes_handlers f then (Inl f, p', kept, w')
          else (case retain_recoveries P p' w' kept of
                  Inl g \<Rightarrow> (Inl g, p', kept, w')
                | Inr (n, kept') \<Rightarrow>
                    (Inr (Some (case n of None \<Rightarrow> label @ reason (Some f)
                                | Some t \<Rightarrow> label @ reason (Some f) @ ''; '' @ t)), p', kept', w'))
      | Inr _ \<Rightarrow>
          (case retain_recoveries P p' w' kept of
             Inl g \<Rightarrow> (Inl g, p', kept, w')
           | Inr (n, kept') \<Rightarrow> (Inr n, p', kept', w')))"

definition discard_one ::
  "('p, 'r, 'w) publisher \<Rightarrow> 'p \<Rightarrow> 'r list \<Rightarrow> 'w \<Rightarrow> (fault + string option) \<times> 'p \<times> 'r list \<times> 'w" where
  "discard_one P = release ''discard failed: '' (pub_discard P) P"

definition rollback_one ::
  "('p, 'r, 'w) publisher \<Rightarrow> 'p \<Rightarrow> 'r list \<Rightarrow> 'w \<Rightarrow> (fault + string option) \<times> 'p \<times> 'r list \<times> 'w" where
  "rollback_one P = release ''publication rollback failed: '' (pub_rollback P) P"

text \<open>
  The loop of \<open>_discard_staged\<close> and \<open>_rollback_accepted\<close> over rows in the order it visits them. An
  exception that passes the handlers leaves the rows, with what was done to them.
\<close>

fun sweep ::
  "('p \<Rightarrow> 'r list \<Rightarrow> 'w \<Rightarrow> (fault + string option) \<times> 'p \<times> 'r list \<times> 'w)
    \<Rightarrow> (effect \<times> 'p \<times> 'x) list \<Rightarrow> 'r list \<Rightarrow> 'w
    \<Rightarrow> (fault + string list \<times> string list) \<times> (effect \<times> 'p \<times> 'x) list \<times> 'r list \<times> 'w" where
  "sweep op [] kept w = (Inr ([], []), [], kept, w)"
| "sweep op ((e, p, x) # rows) kept w =
     (let (r, p', kept', w') = op p kept w in
      case r of
        Inl f \<Rightarrow> (Inl f, (e, p', x) # rows, kept', w')
      | Inr n \<Rightarrow>
          (let (r', rows', kept'', w'') = sweep op rows kept' w' in
           (case r' of
              Inl f \<Rightarrow> Inl f
            | Inr (done_tokens, notes) \<Rightarrow>
                (case n of
                   None \<Rightarrow> Inr (ef_identity e # done_tokens, notes)
                 | Some t \<Rightarrow> Inr (done_tokens, (ef_consumer e @ '': '' @ t) # notes)),
            (e, p', x) # rows', kept'', w'')))"

definition discard_staged ::
  "('p, 'r, 'w) publisher \<Rightarrow> ('p, 'r) tx \<Rightarrow> 'w \<Rightarrow> (fault + string list \<times> string list) \<times> ('p, 'r) tx \<times> 'w" where
  "discard_staged P t w =
     (let (r, rows, kept, w') = sweep (discard_one P) (rev (tx_prepared t)) (tx_recoveries t) w
      in (r, t\<lparr>tx_prepared := (case r of Inl _ \<Rightarrow> rev rows | Inr _ \<Rightarrow> []), tx_recoveries := kept\<rparr>, w'))"

definition rollback_accepted_rows ::
  "('p, 'r, 'w) publisher \<Rightarrow> ('p, 'r) tx \<Rightarrow> 'w \<Rightarrow> (fault + string list \<times> string list) \<times> ('p, 'r) tx \<times> 'w" where
  "rollback_accepted_rows P t w =
     (let (r, rows, kept, w') = sweep (rollback_one P) (rev (tx_accepted t)) (tx_recoveries t) w
      in (r, (case r of Inl _ \<Rightarrow> t\<lparr>tx_accepted := rev rows, tx_recoveries := kept\<rparr>
              | Inr _ \<Rightarrow> t\<lparr>tx_accepted := [], tx_updates := [], tx_recoveries := kept\<rparr>), w'))"

definition staged_tokens :: "('p, 'r) tx \<Rightarrow> string list" where
  "staged_tokens t = map ef_identity (pl_effects (tx_plan t))"

fun action_name :: "failure_action \<Rightarrow> string" where
  "action_name Fail_Run = ''FailRun''"
| "action_name (Retry_Up_To _) = ''Retry''"
| "action_name Skip_Sample_Reported = ''SkipSampleReported''"

text \<open>\<open>_failed\<close> always ends in an exception: the publication error, or one that interrupts the clean-up.\<close>

definition failed ::
  "('p, 'r, 'w) publisher \<Rightarrow> effect \<Rightarrow> fault option \<Rightarrow> cursors \<Rightarrow> string list \<Rightarrow> string list
    \<Rightarrow> ('p, 'r) tx \<Rightarrow> 'w \<Rightarrow> fault \<times> ('p, 'r) tx \<times> 'w" where
  "failed P e error cursors notes rolled_back t w =
     (let (r, t', w') = discard_staged P t w in
      case r of
        Inl f \<Rightarrow> (f, t', w')
      | Inr (tokens, cleanup) \<Rightarrow>
          (PublicationError
             (''consumer '' @ ef_consumer e @ '' failed under '' @ action_name (ef_action e) @ '': '' @ reason error)
             \<lparr>rp_status = Failed, rp_cursors = cursors, rp_staged = staged_tokens t', rp_published = [],
              rp_skipped = tx_skipped t', rp_rolled_back = rolled_back @ tokens,
              rp_diagnostics = notes @ cleanup @ [reason error]\<rparr>,
           t'\<lparr>tx_state := Resolved Failed\<rparr>, w'))"

definition skip_sample :: "effect \<Rightarrow> string \<Rightarrow> nat \<Rightarrow> fault option \<Rightarrow> fault + skip_report" where
  "skip_sample e phase attempts error =
     raised_by ''SkippedSampleReport.reason must be non-empty canonical text''
       (mk_skip (ef_identity e) (ef_consumer e) phase attempts (reason error))"

fun prepare_all ::
  "('p, 'r, 'w) publisher \<Rightarrow> effect list \<Rightarrow> ('p, 'r) tx \<Rightarrow> 'w \<Rightarrow> (fault + unit) \<times> ('p, 'r) tx \<times> 'w" where
  "prepare_all P [] t w = (Inr (), t, w)"
| "prepare_all P (e # es) t w =
     (case prepare_one P e 0 w of
        (Inl f, w') \<Rightarrow> (Inl f, t, w')
      | (Inr (Some p, attempts, _), w') \<Rightarrow>
          prepare_all P es (t\<lparr>tx_prepared := tx_prepared t @ [(e, p, attempts)]\<rparr>) w'
      | (Inr (None, attempts, error), w') \<Rightarrow>
          if ef_action e = Skip_Sample_Reported then
            (case skip_sample e ''prepare'' attempts error of
               Inl f \<Rightarrow> (Inl f, t, w')
             | Inr s \<Rightarrow> prepare_all P es (t\<lparr>tx_skipped := tx_skipped t @ [s]\<rparr>) w')
          else (case failed P e error (tx_initial t) [] [] t w' of (f, t', w'') \<Rightarrow> (Inl f, t', w'')))"

fun check_fresh :: "cursors \<Rightarrow> effect list \<Rightarrow> fault + unit" where
  "check_fresh cs [] = Inr ()"
| "check_fresh cs (e # es) =
     (case raised_by ''consumer_id must be non-empty canonical text'' (for_consumer cs (ef_consumer e)) of
        Inl f \<Rightarrow> Inl f
      | Inr c \<Rightarrow>
          if c \<noteq> ef_before e
          then Inl (Raised ''ValueError'' (''EffectPlan cursor snapshot is stale for '' @ ef_consumer e))
          else check_fresh cs es)"

text \<open>The constructor; the transaction it returns is the object as it is when an exception leaves it.\<close>

definition new_transaction ::
  "('p, 'r, 'w) publisher \<Rightarrow> plan \<Rightarrow> cursors \<Rightarrow> 'w \<Rightarrow> (fault + unit) \<times> ('p, 'r) tx \<times> 'w" where
  "new_transaction P plan cursors w =
     (let t = \<lparr>tx_plan = plan, tx_initial = cursors, tx_prepared = [], tx_accepted = [], tx_updates = [],
               tx_skipped = [], tx_finalize = [], tx_recoveries = [], tx_state = Preparing\<rparr>
      in case check_fresh cursors (pl_effects plan) of
           Inl f \<Rightarrow> (Inl f, t, w)
         | Inr _ \<Rightarrow>
             (case prepare_all P (pl_effects plan) t w of
                (Inl f, t', w') \<Rightarrow> (Inl f, t', w')
              | (Inr _, t', w') \<Rightarrow> (Inr (), t'\<lparr>tx_state := Staged\<rparr>, w')))"

section \<open>Accepting\<close>

lemma prepare_loop_attempts:
  "prepare_loop P e left attempts last_error w = (Inr (Some p, n, err), w') \<Longrightarrow> attempts < n \<and> n \<le> attempts + left"
  by (induction P e left attempts last_error w rule: prepare_loop.induct)
     (fastforce simp: Let_def split: prod.splits sum.splits if_splits)+

text \<open>The checks on what \<open>publish\<close> returned.\<close>

definition validate_receipt :: "effect \<Rightarrow> receipt reply \<Rightarrow> fault + receipt" where
  "validate_receipt e r =
     (case r of
        Foreign \<Rightarrow> Inl (Raised ''TypeError'' ''PreparedPublication.publish must return PublicationReceipt'')
      | Exact rc \<Rightarrow>
          if rc_effect rc \<noteq> ef_identity e \<or> rc_payload rc \<noteq> py_identity (ef_payload e)
          then Inl (Raised ''ValueError'' ''PublicationReceipt does not authenticate its exact effect payload'')
          else if rc_mode rc \<noteq> ef_mode e
          then Inl (Raised ''ValueError'' ''PublicationReceipt parallel mode differs from its accepted target'')
          else Inr rc)"

definition publish_one ::
  "('p, 'r, 'w) publisher \<Rightarrow> effect \<Rightarrow> 'p \<Rightarrow> 'w \<Rightarrow> (fault + receipt) \<times> 'p \<times> 'w" where
  "publish_one P e p w =
     (case pub_publish P p w of
        (Inl f, p', w') \<Rightarrow> (Inl f, p', w')
      | (Inr r, p', w') \<Rightarrow> (validate_receipt e r, p', w'))"

text \<open>The rest of \<open>accept\<close> once an effect has failed for good: the rows not yet published are staged again.\<close>

definition abandon ::
  "('p, 'r, 'w) publisher \<Rightarrow> effect \<Rightarrow> fault option \<Rightarrow> string list \<Rightarrow> string list \<Rightarrow> (effect \<times> 'p \<times> nat) list
    \<Rightarrow> ('p, 'r) tx \<Rightarrow> 'w \<Rightarrow> fault \<times> ('p, 'r) tx \<times> 'w" where
  "abandon P e error notes rolled_back pending t w =
     (let (r, t', w') = rollback_accepted_rows P (t\<lparr>tx_prepared := tx_prepared t @ pending\<rparr>) w in
      case r of
        Inl f \<Rightarrow> (f, t', w')
      | Inr (tokens, cleanup) \<Rightarrow> failed P e error (tx_initial t') (notes @ cleanup) (rolled_back @ tokens) t' w')"

text \<open>What \<open>accept\<close> does next with the row it failed to publish.\<close>

datatype 'p verdict = Again 'p nat | Skipped skip_report | Abandoned "fault option" | Escaped fault

definition after_failure ::
  "('p, 'r, 'w) publisher \<Rightarrow> effect \<Rightarrow> nat \<Rightarrow> fault \<Rightarrow> string option \<Rightarrow> 'w \<Rightarrow> 'p verdict \<times> 'w" where
  "after_failure P e attempts f cleanup w =
     (let (retried, w') =
        (if cleanup = None \<and> is_retry (ef_action e) \<and> attempts < attempt_limit e
         then prepare_one P e attempts w else (Inr (None, attempts, Some f), w)) in
      case retried of
        Inl g \<Rightarrow> (Escaped g, w')
      | Inr (Some p, attempts', _) \<Rightarrow> (Again p attempts', w')
      | Inr (None, attempts', error) \<Rightarrow>
          if ef_action e = Skip_Sample_Reported then
            (case skip_sample e ''publish'' attempts' error of
               Inl g \<Rightarrow> (Escaped g, w')
             | Inr s \<Rightarrow> (Skipped s, w'))
          else (Abandoned error, w'))"

lemma after_failure_attempts:
  "after_failure P e attempts f cleanup w = (Again p n, w') \<Longrightarrow> attempts < n \<and> n \<le> attempt_limit e"
  by (auto simp: after_failure_def prepare_one_def Let_def dest!: prepare_loop_attempts
      split: prod.splits sum.splits option.splits if_splits)

text \<open>One round of the loop of \<open>accept\<close>: it leaves with an exception, or goes on with other rows.\<close>

datatype ('p, 'r, 'w) round =
    Stop fault "('p, 'r) tx" 'w
  | Next "(effect \<times> 'p \<times> nat) list" cursors "receipt list" "('p, 'r) tx" 'w

definition publish_succeeded ::
  "effect \<Rightarrow> 'p \<Rightarrow> receipt \<Rightarrow> (effect \<times> 'p \<times> nat) list \<Rightarrow> cursors \<Rightarrow> receipt list \<Rightarrow> ('p, 'r) tx \<Rightarrow> 'w
    \<Rightarrow> ('p, 'r, 'w) round" where
  "publish_succeeded e p rc pending cursors published t w =
     (let t' = t\<lparr>tx_accepted := tx_accepted t @ [(e, p, rc)]\<rparr> in
      case raised_by ''ConsumerCursorSet contains duplicate consumer ids'' (replace_cursor cursors (ef_after e)) of
        Inl f \<Rightarrow> Stop f t' w
      | Inr cursors' \<Rightarrow> Next pending cursors' (published @ [rc]) t' w)"

definition publish_failed ::
  "('p, 'r, 'w) publisher \<Rightarrow> effect \<Rightarrow> nat \<Rightarrow> fault \<Rightarrow> string option \<Rightarrow> (effect \<times> 'p \<times> nat) list \<Rightarrow> cursors
    \<Rightarrow> receipt list \<Rightarrow> ('p, 'r) tx \<Rightarrow> 'w \<Rightarrow> ('p, 'r, 'w) round" where
  "publish_failed P e attempts f cleanup pending cursors published t w =
     (let rolled_back = (if cleanup = None then [ef_identity e] else []);
          notes = (case cleanup of None \<Rightarrow> [] | Some n \<Rightarrow> [n]) in
      case after_failure P e attempts f cleanup w of
        (Escaped g, w') \<Rightarrow> Stop g t w'
      | (Again q n, w') \<Rightarrow> Next ((e, q, n) # pending) cursors published t w'
      | (Skipped s, w') \<Rightarrow>
          (let t' = t\<lparr>tx_skipped := tx_skipped t @ [s]\<rparr> in
           if cleanup \<noteq> None
           then (case abandon P e (Some f) notes [] pending t' w' of (g, t'', w'') \<Rightarrow> Stop g t'' w'')
           else Next pending cursors published t' w')
      | (Abandoned error, w') \<Rightarrow>
          (case abandon P e error notes rolled_back pending t w' of (g, t'', w'') \<Rightarrow> Stop g t'' w''))"

definition accept_row ::
  "('p, 'r, 'w) publisher \<Rightarrow> effect \<times> 'p \<times> nat \<Rightarrow> (effect \<times> 'p \<times> nat) list \<Rightarrow> cursors \<Rightarrow> receipt list
    \<Rightarrow> ('p, 'r) tx \<Rightarrow> 'w \<Rightarrow> ('p, 'r, 'w) round" where
  "accept_row P = (\<lambda>(e, p, attempts) pending cursors published t w.
     case publish_one P e p w of
       (Inr rc, p', w') \<Rightarrow> publish_succeeded e p' rc pending cursors published t w'
     | (Inl f, p', w') \<Rightarrow>
         if passes_handlers f then Stop f t w'
         else (case rollback_one P p' (tx_recoveries t) w' of
                 (Inl g, _, kept, w2) \<Rightarrow> Stop g (t\<lparr>tx_recoveries := kept\<rparr>) w2
               | (Inr cleanup, _, kept, w2) \<Rightarrow>
                   publish_failed P e attempts f cleanup pending cursors published (t\<lparr>tx_recoveries := kept\<rparr>) w2))"

text \<open>Every round uses up an attempt or a row.\<close>

definition attempts_left :: "(effect \<times> 'p \<times> nat) list \<Rightarrow> nat" where
  "attempts_left rows = sum_list (map (\<lambda>(e, _, n). Suc (attempt_limit e - n)) rows)"

lemma attempts_left_Cons: "attempts_left ((e, p, n) # rows) = Suc (attempt_limit e - n) + attempts_left rows"
  by (simp add: attempts_left_def)

lemma publish_failed_cases:
  assumes "publish_failed P e attempts f cleanup pending cursors published t w = Next pending' cursors' published' t' w'"
  shows "cursors' = cursors \<and> published' = published \<and>
     ((\<exists>q n. after_failure P e attempts f cleanup w = (Again q n, w') \<and> pending' = (e, q, n) # pending \<and> t' = t)
      \<or> (\<exists>s. after_failure P e attempts f cleanup w = (Skipped s, w') \<and> pending' = pending \<and> cleanup = None
              \<and> t' = t\<lparr>tx_skipped := tx_skipped t @ [s]\<rparr>))"
  using assms by (auto simp: publish_failed_def Let_def split: prod.splits verdict.splits if_splits)

lemma accept_row_cases:
  assumes "accept_row P (e, p, attempts) pending cursors published t w = Next pending' cursors' published' t' w'"
  obtains (published) rc p' where
      "publish_one P e p w = (Inr rc, p', w')" "pending' = pending" "published' = published @ [rc]"
      "t' = t\<lparr>tx_accepted := tx_accepted t @ [(e, p', rc)]\<rparr>" "replace_cursor cursors (ef_after e) = Inr cursors'"
  | (again) f p1 w1 p2 kept w2 q n where
      "publish_one P e p w = (Inl f, p1, w1)" "rollback_one P p1 (tx_recoveries t) w1 = (Inr None, p2, kept, w2)"
      "after_failure P e attempts f None w2 = (Again q n, w')" "pending' = (e, q, n) # pending"
      "t' = t\<lparr>tx_recoveries := kept\<rparr>" "cursors' = cursors" "published' = published"
  | (skipped) f p1 w1 p2 kept w2 s where
      "publish_one P e p w = (Inl f, p1, w1)" "rollback_one P p1 (tx_recoveries t) w1 = (Inr None, p2, kept, w2)"
      "after_failure P e attempts f None w2 = (Skipped s, w')" "pending' = pending"
      "t' = t\<lparr>tx_recoveries := kept, tx_skipped := tx_skipped t @ [s]\<rparr>" "cursors' = cursors" "published' = published"
proof -
  obtain a p1 w1 where publish: "publish_one P e p w = (a, p1, w1)" by (metis surj_pair)
  show ?thesis
  proof (cases a)
    case (Inr rc)
    then show ?thesis
      using assms publish published
      by (auto simp: accept_row_def publish_succeeded_def raised_by_def split: sum.splits)
  next
    case (Inl f)
    obtain c p2 kept w2 where undo: "rollback_one P p1 (tx_recoveries t) w1 = (c, p2, kept, w2)" by (metis surj_pair)
    then obtain cleanup where c: "c = Inr cleanup"
        and rest: "publish_failed P e attempts f cleanup pending cursors published (t\<lparr>tx_recoveries := kept\<rparr>) w2
           = Next pending' cursors' published' t' w'"
      using assms publish Inl by (auto simp: accept_row_def split: sum.splits if_splits)
    note next_row = publish_failed_cases [OF rest]
    have quiet: "cleanup = None" if "after_failure P e attempts f cleanup w2 = (Again q n, w')" for q n
      using that by (cases cleanup) (auto simp: after_failure_def Let_def split: sum.splits option.splits if_splits)
    from next_row quiet show ?thesis
      using again [OF publish [unfolded Inl]] skipped [OF publish [unfolded Inl]] undo c by auto
  qed
qed

lemma accept_row_progress:
  assumes "accept_row P row pending cursors published t w = Next pending' cursors' published' t' w'"
  shows "attempts_left pending' < attempts_left (row # pending)"
proof -
  obtain e p n where row: "row = (e, p, n)" by (metis surj_pair)
  show ?thesis
    using assms [unfolded row]
  proof (cases rule: accept_row_cases)
    case (again f p1 w1 p2 kept w2 q m)
    then have "attempt_limit e - m < attempt_limit e - n"
      using after_failure_attempts by (metis diff_less_mono2 order_less_le_trans)
    then show ?thesis by (simp add: again row attempts_left_Cons)
  qed (simp_all add: row attempts_left_Cons)
qed

function accept_loop ::
  "('p, 'r, 'w) publisher \<Rightarrow> (effect \<times> 'p \<times> nat) list \<Rightarrow> cursors \<Rightarrow> receipt list \<Rightarrow> ('p, 'r) tx \<Rightarrow> 'w
    \<Rightarrow> (fault + cursors \<times> receipt list) \<times> ('p, 'r) tx \<times> 'w" where
  "accept_loop P [] cursors published t w = (Inr (cursors, published), t, w)"
| "accept_loop P (row # pending) cursors published t w =
     (case accept_row P row pending cursors published t w of
        Stop f t' w' \<Rightarrow> (Inl f, t', w')
      | Next pending' cursors' published' t' w' \<Rightarrow> accept_loop P pending' cursors' published' t' w')"
  by pat_completeness auto

termination
  by (relation "measure (\<lambda>(P, pending, cursors, published, t, w). attempts_left pending)")
     (simp_all add: accept_row_progress)

text \<open>An invariant of the rounds holds at the end, or where the loop is left.\<close>

lemma accept_loop_invariant:
  assumes "accept_loop P pending cursors published t w = (r, t', w')" and "I pending cursors published t w"
    and "\<And>row pending cursors published t w pending' cursors' published' t' w'.
       I (row # pending) cursors published t w \<Longrightarrow>
       accept_row P row pending cursors published t w = Next pending' cursors' published' t' w' \<Longrightarrow>
       I pending' cursors' published' t' w'"
  shows "(\<exists>cs rcs. r = Inr (cs, rcs) \<and> I [] cs rcs t' w')
       \<or> (\<exists>f row rows cs rcs u v. r = Inl f \<and> I (row # rows) cs rcs u v \<and> accept_row P row rows cs rcs u v = Stop f t' w')"
  using assms(1,2)
proof (induction "attempts_left pending" arbitrary: pending cursors published t w rule: less_induct)
  case less
  show ?case
  proof (cases pending)
    case Nil
    then show ?thesis using less.prems by auto
  next
    case (Cons row rows)
    show ?thesis
    proof (cases "accept_row P row rows cursors published t w")
      case (Stop f u v)
      then show ?thesis using less.prems by (fastforce simp: Cons)
    next
      case (Next pending' cs rcs u v)
      have "I pending' cs rcs u v" using assms(3) less.prems(2) Next unfolding Cons .
      moreover have "attempts_left pending' < attempts_left pending"
        unfolding Cons using Next by (rule accept_row_progress)
      moreover have "accept_loop P pending' cs rcs u v = (r, t', w')" using less.prems(1) by (simp add: Cons Next)
      ultimately show ?thesis using less.hyps by blast
    qed
  qed
qed

definition resolved_already :: fault where
  "resolved_already = Raised ''RuntimeError'' ''ConsumerTransaction is already resolved''"

definition accept :: "('p, 'r, 'w) publisher \<Rightarrow> ('p, 'r) tx \<Rightarrow> 'w \<Rightarrow> (fault + report) \<times> ('p, 'r) tx \<times> 'w" where
  "accept P t w =
     (if tx_state t \<noteq> Staged then (Inl resolved_already, t, w)
      else case accept_loop P (tx_prepared t) (tx_initial t) [] (t\<lparr>tx_prepared := []\<rparr>) w of
             (Inl f, t', w') \<Rightarrow> (Inl f, t', w')
           | (Inr (cursors, published), t', w') \<Rightarrow>
               (Inr \<lparr>rp_status = Accepted, rp_cursors = cursors, rp_staged = staged_tokens t', rp_published = published,
                     rp_skipped = tx_skipped t', rp_rolled_back = [], rp_diagnostics = []\<rparr>,
                t'\<lparr>tx_state := Resolved Accepted, tx_updates := map (\<lambda>(e, _, _). ef_after e) (tx_accepted t')\<rparr>, w'))"

section \<open>Rejecting, compensating and sealing\<close>

text \<open>
  The common end of \<open>reject\<close> and \<open>rollback_accepted\<close>: a report of what was undone, raised when
  something was not. The report of a rejected transaction never lists publications, so its
  constructor does not raise.
\<close>

definition conclude ::
  "string \<Rightarrow> (fault + string list \<times> string list) \<times> ('p, 'r) tx \<times> 'w \<Rightarrow> (fault + report) \<times> ('p, 'r) tx \<times> 'w" where
  "conclude message undone =
     (case undone of
        (Inl f, t, w) \<Rightarrow> (Inl f, t, w)
      | (Inr (tokens, notes), t, w) \<Rightarrow>
          (let status = (if notes = [] then Rejected else Failed);
               rp = \<lparr>rp_status = status, rp_cursors = tx_initial t, rp_staged = staged_tokens t, rp_published = [],
                     rp_skipped = tx_skipped t, rp_rolled_back = tokens, rp_diagnostics = notes\<rparr>
           in (if notes = [] then Inr rp else Inl (PublicationError message rp), t\<lparr>tx_state := Resolved status\<rparr>, w)))"

definition reject :: "('p, 'r, 'w) publisher \<Rightarrow> ('p, 'r) tx \<Rightarrow> 'w \<Rightarrow> (fault + report) \<times> ('p, 'r) tx \<times> 'w" where
  "reject P t w =
     (if tx_state t \<noteq> Staged then (Inl resolved_already, t, w)
      else conclude ''consumer rollback left unremoved temporaries'' (discard_staged P t w))"

definition rollback_accepted :: "('p, 'r, 'w) publisher \<Rightarrow> ('p, 'r) tx \<Rightarrow> 'w \<Rightarrow> (fault + report) \<times> ('p, 'r) tx \<times> 'w" where
  "rollback_accepted P t w =
     (if tx_state t \<noteq> Resolved Accepted
      then (Inl (Raised ''RuntimeError'' ''ConsumerTransaction has no accepted publication to roll back''), t, w)
      else conclude ''accepted consumer publication could not be compensated'' (rollback_accepted_rows P t w))"

definition cursor_updates :: "('p, 'r) tx \<Rightarrow> fault + cursor list" where
  "cursor_updates t =
     (if tx_state t \<in> {Resolved Accepted, Sealed} then Inr (tx_updates t)
      else Inl (Raised ''RuntimeError'' ''consumer cursor updates exist only after acceptance''))"

definition finalize_pending :: "('p, 'r) tx \<Rightarrow> bool" where
  "finalize_pending t \<longleftrightarrow> tx_finalize t \<noteq> []"

text \<open>
  One row of \<open>seal\<close>: whether the row is kept for a retry, and the failure texts. Every exception of the
  finalizer is caught, one that passes the handlers included; the ownership transfer catches
  only the others.
\<close>

definition finalize_row ::
  "('p, 'r, 'w) publisher \<Rightarrow> effect \<Rightarrow> 'p \<Rightarrow> 'r list \<Rightarrow> 'w
    \<Rightarrow> (fault + bool \<times> string list) \<times> 'p \<times> 'r list \<times> 'w" where
  "finalize_row P e p kept w =
     (let (r, p', w') = pub_finalize P p w;
          failure = (case r of
              Inl f \<Rightarrow> Some (fault_text f)
            | Inr Foreign \<Rightarrow> Some (fault_text (Raised ''TypeError'' ''PreparedPublication.finalize() must return None''))
            | Inr (Exact _) \<Rightarrow> None) in
      case retain_recoveries P p' w' kept of
        Inl f \<Rightarrow> (Inl f, p', kept, w')
      | Inr (n, kept') \<Rightarrow>
          (Inr (failure \<noteq> None \<or> n \<noteq> None,
                map (\<lambda>x. ef_consumer e @ '': '' @ x) (case failure of None \<Rightarrow> [] | Some x \<Rightarrow> [x])
                @ map (\<lambda>x. ef_consumer e @ '': '' @ x) (case n of None \<Rightarrow> [] | Some x \<Rightarrow> [x])), p', kept', w'))"

text \<open>All rows: the rows kept, or all of them when an exception escapes, and the failure texts.\<close>

fun finalize_rows ::
  "('p, 'r, 'w) publisher \<Rightarrow> (effect \<times> 'p \<times> receipt) list \<Rightarrow> 'r list \<Rightarrow> 'w
    \<Rightarrow> (fault + string list) \<times> (effect \<times> 'p \<times> receipt) list \<times> (effect \<times> 'p \<times> receipt) list \<times> 'r list \<times> 'w" where
  "finalize_rows P [] kept w = (Inr [], [], [], kept, w)"
| "finalize_rows P ((e, p, rc) # rows) kept w =
     (let (r, p', kept', w') = finalize_row P e p kept w in
      case r of
        Inl f \<Rightarrow> (Inl f, [], (e, p', rc) # rows, kept', w')
      | Inr (retry, failures) \<Rightarrow>
          (let (r', pending, rows', kept'', w'') = finalize_rows P rows kept' w' in
           (case r' of Inl f \<Rightarrow> Inl f | Inr fs \<Rightarrow> Inr (failures @ fs),
            if retry then (e, p', rc) # pending else pending, (e, p', rc) # rows', kept'', w'')))"

definition seal :: "('p, 'r, 'w) publisher \<Rightarrow> ('p, 'r) tx \<Rightarrow> 'w \<Rightarrow> (fault + string list) \<times> ('p, 'r) tx \<times> 'w" where
  "seal P t w =
     (if tx_state t \<notin> {Resolved Accepted, Sealed}
      then (Inl (Raised ''RuntimeError'' ''only an accepted ConsumerTransaction can be sealed''), t, w)
      else
        (let t1 = (if tx_state t = Resolved Accepted
                   then t\<lparr>tx_finalize := tx_accepted t, tx_accepted := [], tx_state := Sealed\<rparr> else t);
             (r, pending, rows, kept, w') = finalize_rows P (tx_finalize t1) (tx_recoveries t1) w
         in (r, t1\<lparr>tx_finalize := (case r of Inl _ \<Rightarrow> rows | Inr _ \<Rightarrow> pending), tx_recoveries := kept\<rparr>, w')))"

definition abort :: "('p, 'r, 'w) publisher \<Rightarrow> ('p, 'r) tx \<Rightarrow> 'w \<Rightarrow> (fault + report option) \<times> ('p, 'r) tx \<times> 'w" where
  "abort P t w =
     (if tx_state t = Staged then
        (case reject P t w of (r, t', w') \<Rightarrow> (map_sum id Some r, t', w'))
      else if tx_state t = Resolved Accepted then
        (case rollback_accepted P t w of (r, t', w') \<Rightarrow> (map_sum id Some r, t', w'))
      else (Inr None, t, w))"

section \<open>What an accepted transaction has done\<close>

definition authentic :: "effect \<Rightarrow> receipt \<Rightarrow> bool" where
  "authentic e rc \<longleftrightarrow> rc_effect rc = ef_identity e \<and> rc_payload rc = py_identity (ef_payload e) \<and> rc_mode rc = ef_mode e"

definition row_effects :: "(effect \<times> 'p \<times> 'x) list \<Rightarrow> effect list" where
  "row_effects rows = map (\<lambda>(e, _, _). e) rows"

lemma row_effects_simps [simp]:
  "row_effects [] = []" "row_effects ((e, p, x) # rows) = e # row_effects rows"
  "row_effects (rows @ rows') = row_effects rows @ row_effects rows'"
  by (simp_all add: row_effects_def)

text \<open>The cursors after the samples of some effects.\<close>

definition advance :: "effect list \<Rightarrow> (string \<Rightarrow> cursor) \<Rightarrow> string \<Rightarrow> cursor" where
  "advance es f = foldl (\<lambda>f e. f(cu_consumer (ef_after e) := ef_after e)) f es"

text \<open>The skipped samples of a transaction are those of effects that ask for it.\<close>

definition skips :: "effect list \<Rightarrow> skip_report list \<Rightarrow> bool" where
  "skips es reports \<longleftrightarrow> map sk_effect reports = map ef_identity es \<and> (\<forall>e \<in> set es. ef_action e = Skip_Sample_Reported)"

lemma skip_sample_reports:
  "skip_sample e phase n err = Inr s \<Longrightarrow> sk_effect s = ef_identity e \<and> sk_phase s = phase \<and> sk_attempts s = n"
  by (auto simp: skip_sample_def raised_by_def mk_skip_def split: sum.splits)

lemma after_failure_skips:
  "after_failure P e attempts f cleanup w = (Skipped s, w') \<Longrightarrow> sk_effect s = ef_identity e \<and> ef_action e = Skip_Sample_Reported"
  using skip_sample_reports
  by (auto simp: after_failure_def Let_def split: prod.splits sum.splits option.splits if_splits)

lemma accept_loop_value:
  assumes "accept_loop P pending cursors published t w = (Inr (cs, rcs), t', w')" and "I pending cursors published t w"
    and "\<And>row pending cursors published t w pending' cursors' published' t' w'.
       I (row # pending) cursors published t w \<Longrightarrow>
       accept_row P row pending cursors published t w = Next pending' cursors' published' t' w' \<Longrightarrow>
       I pending' cursors' published' t' w'"
  shows "I [] cs rcs t' w'"
  using accept_loop_invariant [of P pending cursors published t w _ t' w' I, OF assms] by auto

definition progress ::
  "effect list \<Rightarrow> effect list \<Rightarrow> cursors \<Rightarrow> (effect \<times> 'p \<times> nat) list \<Rightarrow> cursors \<Rightarrow> receipt list \<Rightarrow> ('p, 'r) tx \<Rightarrow> bool" where
  "progress es already cs0 pending cs rcs t \<longleftrightarrow>
     rcs = map (\<lambda>(_, _, rc). rc) (tx_accepted t)
     \<and> (\<forall>(e, _, rc) \<in> set (tx_accepted t). authentic e rc)
     \<and> cursors_ok cs \<and> cursor_of cs = advance (row_effects (tx_accepted t)) (cursor_of cs0)
     \<and> (\<exists>served skipped. es = served @ row_effects pending \<and> subseq (row_effects (tx_accepted t)) served
          \<and> mset served = mset (row_effects (tx_accepted t)) + mset skipped
          \<and> skips (already @ skipped) (tx_skipped t))"

lemma accept_row_progresses:
  assumes "accept_row P row pending cs rcs t w = Next pending' cs' rcs' t' w'"
    and "progress es already cs0 (row # pending) cs rcs t"
  shows "progress es already cs0 pending' cs' rcs' t'"
proof -
  obtain e p n where row: "row = (e, p, n)" by (metis surj_pair)
  obtain served skipped where s: "es = served @ e # row_effects pending" "subseq (row_effects (tx_accepted t)) served"
      "mset served = mset (row_effects (tx_accepted t)) + mset skipped" "skips (already @ skipped) (tx_skipped t)"
    using assms(2) by (auto simp: progress_def row)
  show ?thesis
    using assms(1) [unfolded row]
  proof (cases rule: accept_row_cases)
    case (published rc p')
    have "authentic e rc"
      using published(1)
      by (auto simp: publish_one_def validate_receipt_def authentic_def split: prod.splits sum.splits reply.splits if_splits)
    moreover have "cursors_ok cs' \<and> cursor_of cs' = (cursor_of cs)(cu_consumer (ef_after e) := ef_after e)"
      using replace_cursor_value [of cs "ef_after e"] assms(2) published(5) by (auto simp: progress_def)
    moreover have "es = (served @ [e]) @ row_effects pending" "subseq (row_effects (tx_accepted t) @ [e]) (served @ [e])"
      using s(1,2) by (auto intro: list_emb_append_mono)
    moreover have "mset (served @ [e]) = mset (row_effects (tx_accepted t) @ [e]) + mset skipped" using s(3) by simp
    ultimately show ?thesis
      using assms(2) s(4) unfolding progress_def published(2-4)
      by (intro conjI exI [of _ "served @ [e]"] exI [of _ skipped]) (auto simp: advance_def)
  next
    case (again f p1 w1 p2 kept w2 q m)
    then show ?thesis using assms(2) by (simp add: progress_def row)
  next
    case (skipped f p1 w1 p2 kept w2 r)
    have "skips (already @ skipped @ [e]) (tx_skipped t')"
      using s(4) after_failure_skips [OF skipped(3)] by (auto simp: skips_def skipped(5))
    moreover have "es = (served @ [e]) @ row_effects pending" "subseq (row_effects (tx_accepted t)) (served @ [e])"
      using s(1,2) by (auto intro: subseq_order.order_trans)
    moreover have "mset (served @ [e]) = mset (row_effects (tx_accepted t)) + mset (skipped @ [e])" using s(3) by simp
    ultimately show ?thesis
      using assms(2) unfolding progress_def skipped(4-7)
      by (intro conjI exI [of _ "served @ [e]"] exI [of _ "skipped @ [e]"]) (auto simp: skips_def)
  qed
qed

lemma prepare_all_prepares:
  assumes "prepare_all P es t w = (Inr (), t', w')" and "skips already (tx_skipped t)"
  shows "tx_accepted t' = tx_accepted t \<and> tx_plan t' = tx_plan t \<and> tx_initial t' = tx_initial t
     \<and> (\<exists>prepared skipped. row_effects (tx_prepared t') = row_effects (tx_prepared t) @ prepared \<and> subseq prepared es
          \<and> mset es = mset prepared + mset skipped \<and> skips (already @ skipped) (tx_skipped t'))"
  using assms
proof (induction es arbitrary: t w already)
  case (Cons e es)
  obtain q w1 where q: "prepare_one P e 0 w = (q, w1)" by (metis surj_pair)
  show ?case
  proof (cases "\<exists>p n err. q = Inr (Some p, n, err)")
    case True
    then obtain p n err where p: "q = Inr (Some p, n, err)" by blast
    let ?t = "t\<lparr>tx_prepared := tx_prepared t @ [(e, p, n)]\<rparr>"
    have "prepare_all P es ?t w1 = (Inr (), t', w')" using Cons.prems(1) q p by simp
    from Cons.IH [OF this, of already] Cons.prems(2)
    obtain prepared skipped where "row_effects (tx_prepared t') = row_effects (tx_prepared t) @ e # prepared"
      "subseq prepared es" "mset es = mset prepared + mset skipped" "skips (already @ skipped) (tx_skipped t')"
      "tx_accepted t' = tx_accepted t" "tx_plan t' = tx_plan t" "tx_initial t' = tx_initial t" by auto
    then show ?thesis by (intro conjI exI [of _ "e # prepared"] exI [of _ skipped]) auto
  next
    case False
    moreover have "\<exists>a. q = Inr a" using Cons.prems(1) q by (cases q) auto
    ultimately obtain n err where a: "q = Inr (None, n, err)" by (metis not_None_eq prod_cases3)
    then obtain s where s: "skip_sample e ''prepare'' n err = Inr s" "ef_action e = Skip_Sample_Reported"
        and rest: "prepare_all P es (t\<lparr>tx_skipped := tx_skipped t @ [s]\<rparr>) w1 = (Inr (), t', w')"
      using Cons.prems(1) q by (auto split: prod.splits sum.splits if_splits)
    have "skips (already @ [e]) (tx_skipped (t\<lparr>tx_skipped := tx_skipped t @ [s]\<rparr>))"
      using Cons.prems(2) s skip_sample_reports [OF s(1)] by (auto simp: skips_def)
    from Cons.IH [OF rest this]
    obtain prepared skipped where "row_effects (tx_prepared t') = row_effects (tx_prepared t) @ prepared"
      "subseq prepared es" "mset es = mset prepared + mset skipped" "skips (already @ e # skipped) (tx_skipped t')"
      "tx_accepted t' = tx_accepted t" "tx_plan t' = tx_plan t" "tx_initial t' = tx_initial t" by auto
    then show ?thesis by (intro conjI exI [of _ prepared] exI [of _ "e # skipped"]) auto
  qed
qed (auto intro!: exI [of _ "[]"])

definition served_exactly :: "plan \<Rightarrow> cursors \<Rightarrow> ('p, 'r) tx \<Rightarrow> report \<Rightarrow> bool" where
  "served_exactly plan cs t rp \<longleftrightarrow>
     (\<exists>published skipped.
        mset (pl_effects plan) = mset published + mset skipped \<and> subseq published (pl_effects plan)
        \<and> list_all2 authentic published (rp_published rp)
        \<and> skips skipped (rp_skipped rp)
        \<and> cursor_of (rp_cursors rp) = advance published (cursor_of cs)
        \<and> cursor_updates t = Inr (map ef_after published))"

lemma accepted_serves_exactly:
  fixes P :: "('a, 'b, 'c) publisher"
  assumes "new_transaction P plan cs w = (Inr (), t, w1)" and "accept P t w1 = (Inr rp, t', w')" and "cursors_ok cs"
  shows "served_exactly plan cs t' rp"
proof -
  obtain u where u: "prepare_all P (pl_effects plan) \<lparr>tx_plan = plan, tx_initial = cs, tx_prepared = [], tx_accepted = [],
      tx_updates = [], tx_skipped = [], tx_finalize = [], tx_recoveries = [], tx_state = Preparing\<rparr> w = (Inr (), u, w1)"
      "t = u\<lparr>tx_state := Staged\<rparr>"
    using assms(1) by (auto simp: new_transaction_def Let_def split: prod.splits sum.splits)
  have "skips [] []" by (simp add: skips_def)
  with prepare_all_prepares [OF u(1), of "[]"]
  obtain already where t: "tx_accepted t = []" "tx_initial t = cs" "subseq (row_effects (tx_prepared t)) (pl_effects plan)"
      "mset (pl_effects plan) = mset (row_effects (tx_prepared t)) + mset already" "skips already (tx_skipped t)"
    by (auto simp: u(2))
  let ?I = "\<lambda>(pending :: (effect \<times> 'a \<times> nat) list) cs' rcs (t :: ('a, 'b) tx) (w :: 'c).
      progress (row_effects (tx_prepared u)) already cs pending cs' rcs t"
  obtain cs' rcs v where loop: "accept_loop P (tx_prepared t) cs [] (t\<lparr>tx_prepared := []\<rparr>) w1 = (Inr (cs', rcs), v, w')"
      and rp: "rp_cursors rp = cs'" "rp_published rp = rcs" "rp_skipped rp = tx_skipped v"
      and t': "tx_state t' = Resolved Accepted" "tx_updates t' = map (\<lambda>(e, _, _). ef_after e) (tx_accepted v)"
    using assms(2) t(2) by (auto simp: accept_def split: prod.splits sum.splits if_splits)
  have "?I (tx_prepared t) cs [] (t\<lparr>tx_prepared := []\<rparr>) w1"
    using t assms(3) unfolding progress_def
    by (intro conjI exI [of _ "[]"]) (auto simp: advance_def u(2))
  then have "?I [] cs' rcs v w'"
    by (intro accept_loop_value [where I = ?I, OF loop]) (assumption, rule accept_row_progresses)
  then obtain served skipped where v: "rcs = map (\<lambda>(_, _, rc). rc) (tx_accepted v)"
      "\<forall>(e, _, rc) \<in> set (tx_accepted v). authentic e rc" "cursor_of cs' = advance (row_effects (tx_accepted v)) (cursor_of cs)"
      "row_effects (tx_prepared t) = served" "subseq (row_effects (tx_accepted v)) served"
      "mset served = mset (row_effects (tx_accepted v)) + mset skipped" "skips (already @ skipped) (tx_skipped v)"
    by (auto simp: progress_def u(2))
  have "list_all2 authentic (row_effects (tx_accepted v)) rcs"
    using v(1,2) by (auto simp: row_effects_def list_all2_conv_all_nth split: prod.splits dest: nth_mem)
  moreover have "subseq (row_effects (tx_accepted v)) (pl_effects plan)"
    using v(4,5) t(3) by (auto intro: subseq_order.order_trans)
  moreover have "mset (pl_effects plan) = mset (row_effects (tx_accepted v)) + mset (already @ skipped)"
    using t(4) v(4,6) by simp
  moreover have "cursor_updates t' = Inr (map ef_after (row_effects (tx_accepted v)))"
    using t' by (auto simp: cursor_updates_def row_effects_def)
  ultimately show ?thesis
    unfolding served_exactly_def rp using v(3,7) by blast
qed

lemma accept_published:
  fixes P :: "('a, 'b, 'c) publisher"
  assumes "accept P t w = (Inr rp, t', w')" and "tx_accepted t = []"
  shows "map (\<lambda>(e, _, _). ef_identity e) (tx_accepted t') = map rc_effect (rp_published rp)"
proof -
  let ?I = "\<lambda>(pending :: (effect \<times> 'a \<times> nat) list) (cs :: cursors) rcs (t :: ('a, 'b) tx) (w :: 'c).
      map (\<lambda>(e, _, _). ef_identity e) (tx_accepted t) = map rc_effect rcs"
  obtain cs rcs v where loop: "accept_loop P (tx_prepared t) (tx_initial t) [] (t\<lparr>tx_prepared := []\<rparr>) w = (Inr (cs, rcs), v, w')"
      and "rp_published rp = rcs" "tx_accepted t' = tx_accepted v"
    using assms(1) by (auto simp: accept_def split: prod.splits sum.splits if_splits)
  moreover have "?I [] cs rcs v w'"
  proof (rule accept_loop_value [where I = ?I, OF loop])
    fix row pending cs rcs t w pending' cs' rcs' t' w'
    assume I: "?I (row # pending) cs rcs t w" and "accept_row P row pending cs rcs t w = Next pending' cs' rcs' t' w'"
    moreover obtain e p n where "row = (e, p, n)" by (metis surj_pair)
    ultimately show "?I pending' cs' rcs' t' w'"
      by (auto elim!: accept_row_cases simp: publish_one_def validate_receipt_def
          split: prod.splits sum.splits reply.splits if_splits)
  qed (simp add: assms(2))
  ultimately show ?thesis by simp
qed

end
