(* ===== verification/Pops_Compensation.thy ===== *)
theory Pops_Compensation
  imports Pops_Transaction
begin

text \<open>
  What a transaction of consumer effects guarantees over a publisher that keeps the contract of
  \<open>PreparedPublication\<close>: preparing changes no artifact, publishing changes only the artifacts of its
  effect, and a clean-up that returns has removed the temporary and restored what the artifacts
  were when the effect was prepared. The contract is a locale; the lemmas in it are the invariant of
  the accept loop and all-or-nothing for every way a transaction ends.
\<close>

section \<open>The contract\<close>

datatype phase = Temporary | Visible | Gone

text \<open>An operation on a publication stays within the artifacts and the temporary of its effect.\<close>

definition confined ::
  "('p \<Rightarrow> string) \<Rightarrow> ('p \<Rightarrow> 'k \<Rightarrow> 'v option) \<Rightarrow> ('p \<Rightarrow> 'k set) \<Rightarrow> ('p \<Rightarrow> 't) \<Rightarrow> ('w \<Rightarrow> 'k \<Rightarrow> 'v option)
    \<Rightarrow> ('w \<Rightarrow> string \<Rightarrow> 't option) \<Rightarrow> 'p \<Rightarrow> 'w \<Rightarrow> 'p \<Rightarrow> 'w \<Rightarrow> bool" where
  "confined ident base footprint temporary artifact staged p w p' w' \<longleftrightarrow>
     ident p' = ident p \<and> base p' = base p \<and> footprint p' = footprint p \<and> temporary p' = temporary p
     \<and> (\<forall>k. k \<notin> footprint p \<longrightarrow> artifact w' k = artifact w k)
     \<and> (\<forall>i. i \<noteq> ident p \<longrightarrow> staged w' i = staged w i)"

definition clean ::
  "('p \<Rightarrow> string) \<Rightarrow> ('p \<Rightarrow> 'k \<Rightarrow> 'v option) \<Rightarrow> ('p \<Rightarrow> 'k set) \<Rightarrow> ('w \<Rightarrow> 'k \<Rightarrow> 'v option)
    \<Rightarrow> ('w \<Rightarrow> string \<Rightarrow> 't option) \<Rightarrow> 'p \<Rightarrow> 'w \<Rightarrow> bool" where
  "clean ident base footprint artifact staged p w \<longleftrightarrow>
     staged w (ident p) = None \<and> (\<forall>k \<in> footprint p. artifact w k = base p k)"

text \<open>Effects that share no artifact.\<close>

definition keys_apart :: "(string \<Rightarrow> 'k set) \<Rightarrow> string list \<Rightarrow> bool" where
  "keys_apart keys ids \<longleftrightarrow> distinct ids \<and> (\<forall>i \<in> set ids. \<forall>j \<in> set ids. i \<noteq> j \<longrightarrow> keys i \<inter> keys j = {})"

locale compensating_publisher =
  fixes P :: "('p, 'r, 'w) publisher"
    and phase :: "'p \<Rightarrow> phase"
    and base :: "'p \<Rightarrow> 'k \<Rightarrow> 'v option"
    and footprint :: "'p \<Rightarrow> 'k set"
    and keys :: "string \<Rightarrow> 'k set"
    and artifact :: "'w \<Rightarrow> 'k \<Rightarrow> 'v option"
    and temporary :: "'p \<Rightarrow> 't"
    and staged :: "'w \<Rightarrow> string \<Rightarrow> 't option"
  assumes prepare_value:
      "pub_prepare P e w = (Inr (Exact p), w') \<Longrightarrow>
         pub_effect P p = ef_identity e \<and> phase p = Temporary \<and> artifact w' = artifact w
         \<and> (\<forall>k \<in> footprint p. base p k = artifact w k) \<and> footprint p \<subseteq> keys (ef_identity e)
         \<and> staged w' = (staged w)(ef_identity e \<mapsto> temporary p) \<and> pub_payload P p = py_identity (ef_payload e)"
    and prepare_raises:
      "pub_prepare P e w = (prepared, w') \<Longrightarrow> (\<And>p. prepared \<noteq> Inr (Exact p)) \<Longrightarrow> artifact w' = artifact w \<and> staged w' = staged w"
    and publish_law:
      "phase p = Temporary \<Longrightarrow> staged w (pub_effect P p) = Some (temporary p) \<Longrightarrow> pub_publish P p w = (published, p', w') \<Longrightarrow>
         confined (pub_effect P) base footprint temporary artifact staged p w p' w'
         \<and> (case published of Inr _ \<Rightarrow> phase p' = Visible \<and> staged w' (pub_effect P p) = None
            | Inl _ \<Rightarrow> (phase p' = Gone \<longrightarrow> clean (pub_effect P) base footprint artifact staged p' w')
                   \<and> (phase p' = Temporary \<longrightarrow> (\<forall>k \<in> footprint p'. artifact w' k = base p' k)))"
    and discard_law:
      "phase p = Temporary \<Longrightarrow> staged w (pub_effect P p) = Some (temporary p) \<Longrightarrow>
         \<forall>k \<in> footprint p. artifact w k = base p k \<Longrightarrow> pub_discard P p w = (r, p', w') \<Longrightarrow>
         confined (pub_effect P) base footprint temporary artifact staged p w p' w'
         \<and> (r = Inr () \<longrightarrow> clean (pub_effect P) base footprint artifact staged p' w')"
    and rollback_law:
      "(phase p = Gone \<Longrightarrow> clean (pub_effect P) base footprint artifact staged p w) \<Longrightarrow>
         (phase p = Temporary \<Longrightarrow> \<forall>k \<in> footprint p. artifact w k = base p k) \<Longrightarrow> pub_rollback P p w = (r, p', w') \<Longrightarrow>
         confined (pub_effect P) base footprint temporary artifact staged p w p' w'
         \<and> (r = Inr () \<longrightarrow> clean (pub_effect P) base footprint artifact staged p' w')"
begin

text \<open>The effects of rows, and that they share no artifact.\<close>

definition row_ids :: "(effect \<times> 'q \<times> 'x) list \<Rightarrow> string list" where
  "row_ids rows = map (\<lambda>(e, _, _). ef_identity e) rows"

abbreviation apart :: "string list \<Rightarrow> bool" where
  "apart \<equiv> keys_apart keys"

lemmas apart_def = keys_apart_def

lemma row_ids_simps [simp]:
  "row_ids [] = []" "row_ids ((e, p, x) # rows) = ef_identity e # row_ids rows"
  "row_ids (rows @ rows') = row_ids rows @ row_ids rows'" "row_ids (rev rows) = rev (row_ids rows)"
  by (simp_all add: row_ids_def rev_map)

lemma in_row_ids: "(e, p, x) \<in> set rows \<Longrightarrow> ef_identity e \<in> set (row_ids rows)"
  by (force simp: row_ids_def)

lemma apart_Cons: "apart (i # ids) \<Longrightarrow> apart ids \<and> i \<notin> set ids \<and> (\<forall>j \<in> set ids. keys i \<inter> keys j = {})"
  by (auto simp: apart_def)

lemma apart_rev [simp]: "apart (rev ids) = apart ids"
  by (auto simp: apart_def)

abbreviation within :: "'p \<Rightarrow> 'w \<Rightarrow> 'p \<Rightarrow> 'w \<Rightarrow> bool" where
  "within \<equiv> confined (pub_effect P) base footprint temporary artifact staged"

abbreviation undone :: "'p \<Rightarrow> 'w \<Rightarrow> bool" where
  "undone \<equiv> clean (pub_effect P) base footprint artifact staged"

lemma prepare_loop_value:
  "prepare_loop P e left attempts err w = (Inr (Some p, n, err'), w') \<Longrightarrow>
     pub_effect P p = ef_identity e \<and> phase p = Temporary \<and> artifact w' = artifact w
     \<and> (\<forall>k \<in> footprint p. base p k = artifact w k) \<and> footprint p \<subseteq> keys (ef_identity e)
     \<and> staged w' = (staged w)(ef_identity e \<mapsto> temporary p)"
proof (induction left arbitrary: attempts err w)
  case (Suc left)
  obtain r w1 where r: "pub_prepare P e w = (r, w1)" by fastforce
  show ?case
  proof (cases "\<exists>q. r = Inr (Exact q)")
    case True
    then obtain q where q: "r = Inr (Exact q)" by blast
    note law = prepare_value [OF r [unfolded q]]
    then show ?thesis using Suc.prems by (simp add: r q validate_prepared_def)
  next
    case False
    then have same: "artifact w1 = artifact w \<and> staged w1 = staged w" using prepare_raises [OF r] by blast
    then show ?thesis
      using Suc.prems Suc.IH [of "Suc attempts" _ w1] False
      by (auto simp: r validate_prepared_def split: sum.splits reply.splits if_splits)
  qed
qed simp

lemma prepare_loop_none:
  "prepare_loop P e left attempts err w = (r, w') \<Longrightarrow> (\<And>p n err'. r \<noteq> Inr (Some p, n, err')) \<Longrightarrow>
     artifact w' = artifact w \<and> staged w' = staged w"
proof (induction left arbitrary: attempts err w)
  case (Suc left)
  obtain q w1 where q: "pub_prepare P e w = (q, w1)" by fastforce
  show ?case
  proof (cases "\<exists>p. q = Inr (Exact p)")
    case True
    then obtain p where p: "q = Inr (Exact p)" by blast
    show ?thesis using Suc.prems prepare_value [OF q [unfolded p]] by (auto simp: q p validate_prepared_def)
  next
    case False
    then have same: "artifact w1 = artifact w \<and> staged w1 = staged w" using prepare_raises [OF q] by blast
    then show ?thesis
      using Suc.prems Suc.IH [of "Suc attempts" _ w1] False
      by (auto simp: q validate_prepared_def split: sum.splits reply.splits if_splits)
  qed
qed simp

text \<open>What one clean-up loop leaves behind when it has nothing to report.\<close>

definition swept :: "(effect \<times> 'p \<times> 'x) list \<Rightarrow> 'w \<Rightarrow> 'w \<Rightarrow> bool" where
  "swept rows w w' \<longleftrightarrow>
     (\<forall>i. staged w' i = (if i \<in> set (row_ids rows) then None else staged w i))
     \<and> (\<forall>(_, p, _) \<in> set rows. \<forall>k \<in> footprint p. artifact w' k = base p k)
     \<and> (\<forall>k. (\<forall>(_, p, _) \<in> set rows. k \<notin> footprint p) \<longrightarrow> artifact w' k = artifact w k)"

lemma swept_Cons:
  assumes "within p w p1 w1" and "undone p1 w1" and "swept rows w1 w'" and "pub_effect P p = ef_identity e"
    and "ef_identity e \<notin> set (row_ids rows)" and "\<forall>(_, q, _) \<in> set rows. footprint p \<inter> footprint q = {}"
  shows "swept ((e, p, x) # rows) w w'"
proof -
  have same: "pub_effect P p1 = ef_identity e" "base p1 = base p" "footprint p1 = footprint p"
    using assms(1,4) by (auto simp: confined_def)
  have "artifact w' k = base p k" if "k \<in> footprint p" for k
  proof -
    have "\<forall>(_, q, _) \<in> set rows. k \<notin> footprint q" using assms(6) that by blast
    then have "artifact w' k = artifact w1 k" using assms(3) by (simp add: swept_def)
    then show ?thesis using assms(2) that same by (simp add: clean_def)
  qed
  moreover have "staged w' i = (if i \<in> set (row_ids ((e, p, x) # rows)) then None else staged w i)" for i
    using assms(1-3) same assms(5) by (auto simp: swept_def clean_def confined_def assms(4))
  moreover have "artifact w' k = artifact w k" if "\<forall>(_, q, _) \<in> set ((e, p, x) # rows). k \<notin> footprint q" for k
    using assms(1,3) that by (auto simp: swept_def confined_def)
  ultimately show ?thesis using assms(3) by (auto simp: swept_def)
qed

text \<open>Rows whose publications are of their effects and keep to the artifacts of them.\<close>

definition owned :: "(effect \<times> 'p \<times> 'x) list \<Rightarrow> bool" where
  "owned rows \<longleftrightarrow> (\<forall>(e, p, _) \<in> set rows. pub_effect P p = ef_identity e \<and> footprint p \<subseteq> keys (ef_identity e))"

lemma owned_simps [simp]:
  "owned []" "owned ((e, p, x) # rows) \<longleftrightarrow> pub_effect P p = ef_identity e \<and> footprint p \<subseteq> keys (ef_identity e) \<and> owned rows"
  "owned (rows @ rows') \<longleftrightarrow> owned rows \<and> owned rows'" "owned (rev rows) = owned rows"
  by (simp_all add: owned_def ball_Un)

lemma owned_ident: "owned rows \<Longrightarrow> (e, p, x) \<in> set rows \<Longrightarrow> pub_effect P p \<in> set (row_ids rows)"
  using in_row_ids unfolding owned_def by fastforce

lemma owned_disjoint:
  "apart (ef_identity e # row_ids rows) \<Longrightarrow> footprint p \<subseteq> keys (ef_identity e) \<Longrightarrow> owned rows \<Longrightarrow>
     \<forall>(_, q, _) \<in> set rows. footprint p \<inter> footprint q = {}"
  using apart_Cons in_row_ids unfolding owned_def by fastforce

lemma sweep_undoes:
  assumes op: "\<And>p kept w p' kept' w'. pre p w \<Longrightarrow> op p kept w = (Inr None, p', kept', w') \<Longrightarrow> within p w p' w' \<and> undone p' w'"
    and stable: "\<And>p w w'. pre p w \<Longrightarrow> \<forall>k \<in> footprint p. artifact w' k = artifact w k
       \<Longrightarrow> staged w' (pub_effect P p) = staged w (pub_effect P p) \<Longrightarrow> pre p w'"
  shows "sweep op rows kept w = (Inr (tokens, []), rows', kept', w') \<Longrightarrow>
     \<forall>(_, p, _) \<in> set rows. pre p w \<Longrightarrow> owned rows \<Longrightarrow> apart (row_ids rows) \<Longrightarrow>
     swept rows w w' \<and> tokens = row_ids rows"
proof (induction rows arbitrary: kept w tokens rows' kept')
  case (Cons row rows)
  obtain e p x where row: "row = (e, p, x)" by (cases row)
  obtain r p1 kept1 w1 where o: "op p kept w = (r, p1, kept1, w1)" by (metis surj_pair)
  obtain r2 rows2 kept2 w2 where s: "sweep op rows kept1 w1 = (r2, rows2, kept2, w2)" by (metis surj_pair)
  obtain ts where r: "r = Inr None" "r2 = Inr (ts, [])" "w2 = w'" "tokens = ef_identity e # ts"
    using Cons.prems(1) by (auto simp: row o s split: sum.splits option.splits)
  have p: "pub_effect P p = ef_identity e" "footprint p \<subseteq> keys (ef_identity e)" "pre p w" "owned rows"
    using Cons.prems(2,3) by (auto simp: row)
  note step = op [OF p(3) o [unfolded r(1)]]
  have apart: "apart (ef_identity e # row_ids rows)" using Cons.prems(4) by (simp add: row)
  note disjoint = owned_disjoint [OF apart p(2,4)]
  have "pre q w1" if "(d, q, y) \<in> set rows" for d q y
  proof -
    have "pub_effect P q = ef_identity d" "ef_identity d \<noteq> ef_identity e"
      using p(4) that in_row_ids [OF that] apart by (auto simp: owned_def apart_def)
    then show ?thesis
      using step disjoint that Cons.prems(2) p(1) by (intro stable [of q w w1]) (fastforce simp: confined_def row)+
  qed
  then have "\<forall>(_, q, _) \<in> set rows. pre q w1" by blast
  then have "swept rows w1 w' \<and> ts = row_ids rows"
    using s apart_Cons [OF apart] p(4) by (intro Cons.IH [of kept1 w1 ts rows2 kept2]) (auto simp: r)
  then have rest: "swept rows w1 w'" and "tokens = row_ids (row # rows)" by (simp_all add: row r(4))
  moreover have fresh: "ef_identity e \<notin> set (row_ids rows)" using apart by (simp add: apart_def)
  ultimately show ?case
    using swept_Cons [OF conjunct1 [OF step] conjunct2 [OF step] rest p(1) fresh disjoint] by (simp only: row)
qed (simp add: swept_def)

lemma swept_unchanged:
  assumes "swept (rev rows) w w'" and "\<forall>(_, p, _) \<in> set rows. \<forall>k \<in> footprint p. artifact w k = base p k"
  shows "artifact w' = artifact w \<and> (\<forall>i. staged w' i = (if i \<in> set (row_ids rows) then None else staged w i))"
proof -
  have "artifact w' k = artifact w k" for k
  proof (cases "\<forall>(_, p, _) \<in> set rows. k \<notin> footprint p")
    case False
    then obtain e p x where "(e, p, x) \<in> set rows" "k \<in> footprint p" by auto
    then show ?thesis using assms by (fastforce simp: swept_def)
  qed (use assms(1) in \<open>simp add: swept_def\<close>)
  then show ?thesis using assms(1) by (auto simp: swept_def)
qed

lemma release_cleanly:
  assumes "release label op P p kept w = (Inr None, p', kept', w')"
  shows "op p w = (Inr (), p', w')"
  using assms by (auto simp: release_def Let_def split: prod.splits sum.splits option.splits if_splits)

text \<open>Discarding temporaries changes no artifact.\<close>

lemma discard_staged_clean:
  assumes "discard_staged P t w = (Inr (tokens, []), t', w')" and "apart (row_ids (tx_prepared t))"
    and "owned (tx_prepared t)"
    and "\<forall>(_, p, _) \<in> set (tx_prepared t). phase p = Temporary \<and> staged w (pub_effect P p) = Some (temporary p)
           \<and> (\<forall>k \<in> footprint p. artifact w k = base p k)"
  shows "artifact w' = artifact w \<and> (\<forall>i. staged w' i = (if i \<in> set (row_ids (tx_prepared t)) then None else staged w i))"
proof -
  define pre where "pre = (\<lambda>p w. phase p = Temporary \<and> staged w (pub_effect P p) = Some (temporary p)
      \<and> (\<forall>k \<in> footprint p. artifact w k = base p k))"
  obtain rows kept where s: "sweep (discard_one P) (rev (tx_prepared t)) (tx_recoveries t) w = (Inr (tokens, []), rows, kept, w')"
    using assms(1) by (auto simp: discard_staged_def Let_def split: prod.splits)
  have "swept (rev (tx_prepared t)) w w' \<and> tokens = row_ids (rev (tx_prepared t))"
  proof (rule sweep_undoes [where pre = pre, OF _ _ s])
    show "within p w p' w' \<and> undone p' w'" if "pre p w" "discard_one P p kept w = (Inr None, p', kept', w')" for p kept w p' kept' w'
      using discard_law [of p w "Inr ()"] that release_cleanly by (auto simp: pre_def discard_one_def)
  qed (use assms(2-4) in \<open>auto simp: pre_def\<close>)
  then have "swept (rev (tx_prepared t)) w w'" by blast
  then show ?thesis using assms(4) by (intro swept_unchanged) auto
qed

lemma rollback_rows_clean:
  assumes "rollback_accepted_rows P t w = (Inr (tokens, []), t', w')" and "apart (row_ids (tx_accepted t))"
    and "owned (tx_accepted t)" and "\<forall>(_, p, _) \<in> set (tx_accepted t). phase p = Visible"
  shows "swept (tx_accepted t) w w'"
proof -
  define pre where "pre = (\<lambda>p (w :: 'w). phase p = Visible)"
  obtain rows kept where s: "sweep (rollback_one P) (rev (tx_accepted t)) (tx_recoveries t) w = (Inr (tokens, []), rows, kept, w')"
    using assms(1) by (auto simp: rollback_accepted_rows_def Let_def split: prod.splits)
  have "swept (rev (tx_accepted t)) w w' \<and> tokens = row_ids (rev (tx_accepted t))"
  proof (rule sweep_undoes [where pre = pre, OF _ _ s])
    show "within p w p' w' \<and> undone p' w'" if "pre p w" "rollback_one P p kept w = (Inr None, p', kept', w')" for p kept w p' kept' w'
      using rollback_law [of p w "Inr ()"] that release_cleanly by (auto simp: pre_def rollback_one_def)
  qed (use assms(2-4) in \<open>auto simp: pre_def\<close>)
  then show ?thesis by (simp add: swept_def)
qed

text \<open>
  The state of a transaction in the world it started in: the pending rows are temporaries, the
  accepted ones visible, and nothing else of the effects is there.
\<close>

definition intact :: "'w \<Rightarrow> (effect \<times> 'p \<times> 'x) list \<Rightarrow> (effect \<times> 'p \<times> 'y) list \<Rightarrow> 'w \<Rightarrow> bool" where
  "intact w0 pending accepted w \<longleftrightarrow>
     apart (row_ids pending @ row_ids accepted) \<and> owned pending \<and> owned accepted
     \<and> (\<forall>(_, p, _) \<in> set pending. phase p = Temporary \<and> staged w (pub_effect P p) = Some (temporary p)
          \<and> (\<forall>k \<in> footprint p. base p k = artifact w0 k))
     \<and> (\<forall>(_, p, _) \<in> set accepted. phase p = Visible \<and> (\<forall>k \<in> footprint p. base p k = artifact w0 k))
     \<and> (\<forall>i \<in> set (row_ids pending) \<union> set (row_ids accepted). staged w0 i = None)
     \<and> (\<forall>i. i \<notin> set (row_ids pending) \<longrightarrow> staged w i = staged w0 i)
     \<and> (\<forall>k. (\<forall>(_, p, _) \<in> set accepted. k \<notin> footprint p) \<longrightarrow> artifact w k = artifact w0 k)"

lemma intact_elsewhere:
  assumes "intact w0 pending accepted w" and "apart (ef_identity e # row_ids pending @ row_ids accepted)"
    and "k \<in> keys (ef_identity e)"
  shows "artifact w k = artifact w0 k"
proof -
  have "\<forall>i \<in> set (row_ids accepted). keys (ef_identity e) \<inter> keys i = {}" using apart_Cons [OF assms(2)] by auto
  then have "\<forall>(_, p, _) \<in> set accepted. k \<notin> footprint p"
    using assms(1,3) in_row_ids unfolding intact_def owned_def by fastforce
  then show ?thesis using assms(1) by (auto simp: intact_def)
qed

lemma intact_head:
  assumes "intact w0 ((e, p, n) # pending) accepted w"
  shows "pub_effect P p = ef_identity e \<and> phase p = Temporary \<and> footprint p \<subseteq> keys (ef_identity e)
       \<and> staged w (ef_identity e) = Some (temporary p) \<and> (\<forall>k \<in> footprint p. base p k = artifact w0 k \<and> artifact w k = artifact w0 k)
       \<and> staged w0 (ef_identity e) = None \<and> ef_identity e \<notin> set (row_ids pending) \<and> ef_identity e \<notin> set (row_ids accepted)"
proof -
  have apart: "apart (ef_identity e # row_ids pending @ row_ids accepted)" using assms by (simp add: intact_def)
  have "\<forall>i \<in> set (row_ids accepted). keys (ef_identity e) \<inter> keys i = {}" using apart_Cons [OF apart] by auto
  moreover have "footprint p \<subseteq> keys (ef_identity e)" using assms by (simp add: intact_def)
  ultimately have "\<forall>(_, q, _) \<in> set accepted. k \<notin> footprint q" if "k \<in> footprint p" for k
    using assms in_row_ids that unfolding intact_def owned_def by fastforce
  then have "\<forall>k \<in> footprint p. artifact w k = artifact w0 k" using assms by (auto simp: intact_def)
  then show ?thesis using assms apart_Cons [OF apart] by (auto simp: intact_def)
qed

lemma apart_swap: "apart (xs @ i # ys) \<Longrightarrow> apart (i # xs @ ys)"
  by (auto simp: apart_def)

lemma intact_published:
  assumes "intact w0 ((e, p, n) # pending) accepted w" and "pub_publish P p w = (Inr r, p', w')"
  shows "intact w0 pending (accepted @ [(e, p', rc)]) w'"
proof -
  note head = intact_head [OF assms(1)]
  have law: "within p w p' w'" "phase p' = Visible" "staged w' (ef_identity e) = None"
    using publish_law [OF _ _ assms(2)] head by auto
  have other: "staged w' i = staged w i" if "i \<noteq> ef_identity e" for i
    using that law(1) head by (simp add: confined_def)
  then have "staged w' i = staged w0 i" if "i \<notin> set (row_ids pending)" for i
    using that law(3) head assms(1) by (cases "i = ef_identity e") (auto simp: intact_def)
  moreover have "staged w' (pub_effect P q) = Some (temporary q)" if "(d, q, x) \<in> set pending" for d q x
  proof -
    have "pub_effect P q \<noteq> ef_identity e"
      using owned_ident [OF _ that] assms(1) head by (auto simp: intact_def)
    then show ?thesis using other assms(1) that by (fastforce simp: intact_def)
  qed
  moreover have "artifact w' k = artifact w0 k" if "\<forall>(_, q, _) \<in> set (accepted @ [(e, p', rc)]). k \<notin> footprint q" for k
    using that law(1) head assms(1) by (auto simp: confined_def intact_def)
  moreover have "apart (row_ids pending @ row_ids (accepted @ [(e, p', rc)]))"
    using assms(1) by (auto simp: intact_def apart_def)
  moreover have "owned (accepted @ [(e, p', rc)])" "phase p' = Visible" "\<forall>k \<in> footprint p'. base p' k = artifact w0 k"
    using assms(1) law(1,2) head by (auto simp: intact_def confined_def)
  ultimately show ?thesis using assms(1) by (auto simp: intact_def)
qed

lemma intact_undone:
  assumes "intact w0 ((e, p, n) # pending) accepted w" and "publish_one P e p w = (Inl f, p', w1)"
    and "rollback_one P p' kept w1 = (Inr None, p2, kept', w2)"
  shows "intact w0 pending accepted w2"
proof -
  note head = intact_head [OF assms(1)]
  obtain r where publish: "pub_publish P p w = (r, p', w1)"
    using assms(2) by (auto simp: publish_one_def split: prod.splits sum.splits)
  have law: "within p w p' w1" "phase p' = Gone \<Longrightarrow> undone p' w1"
    "phase p' = Temporary \<Longrightarrow> \<forall>k \<in> footprint p'. artifact w1 k = base p' k"
    using publish_law [OF _ _ publish] head by (auto split: sum.splits)
  have "pub_rollback P p' w1 = (Inr (), p2, w2)"
    using assms(3) release_cleanly by (auto simp: rollback_one_def)
  from rollback_law [OF law(2,3) this] have revert: "within p' w1 p2 w2" "undone p2 w2" by auto
  have w2: "artifact w2 k = artifact w k" for k
    using law(1) revert head by (cases "k \<in> footprint p") (auto simp: confined_def clean_def)
  then have "artifact w2 = artifact w" by (rule ext)
  have other: "staged w2 i = staged w i" if "i \<noteq> ef_identity e" for i
    using that law(1) revert(1) head by (simp add: confined_def)
  have "staged w2 (ef_identity e) = None" using law(1) revert head by (auto simp: confined_def clean_def)
  then have "staged w2 i = staged w0 i" if "i \<notin> set (row_ids pending)" for i
    using that other head assms(1) by (cases "i = ef_identity e") (auto simp: intact_def)
  moreover have "staged w2 (pub_effect P q) = Some (temporary q)" if "(d, q, x) \<in> set pending" for d q x
  proof -
    have "pub_effect P q \<noteq> ef_identity e"
      using owned_ident [OF _ that] assms(1) head by (auto simp: intact_def)
    then show ?thesis using other assms(1) that by (fastforce simp: intact_def)
  qed
  moreover have "apart (row_ids pending @ row_ids accepted)" using assms(1) apart_Cons by (auto simp: intact_def)
  ultimately show ?thesis
    using assms(1) \<open>artifact w2 = artifact w\<close> by (auto simp: intact_def)
qed

lemma intact_again:
  assumes "intact w0 pending accepted w" and "prepare_one P e s w = (Inr (Some p, n, err), w')"
    and "apart (ef_identity e # row_ids pending @ row_ids accepted)" and "staged w0 (ef_identity e) = None"
  shows "intact w0 ((e, p, n) # pending) accepted w'"
proof -
  note new = prepare_loop_value [OF assms(2) [unfolded prepare_one_def]]
  have "\<forall>k \<in> footprint p. base p k = artifact w0 k"
    using new intact_elsewhere [OF assms(1,3)] by auto
  moreover have "staged w' (pub_effect P q) = Some (temporary q)" if "(d, q, x) \<in> set pending" for d q x
  proof -
    have "pub_effect P q \<noteq> ef_identity e"
      using owned_ident [OF _ that] apart_Cons [OF assms(3)] assms(1) by (auto simp: intact_def)
    then show ?thesis using assms(1) new that by (fastforce simp: intact_def)
  qed
  ultimately show ?thesis using assms new by (auto simp: intact_def)
qed

text \<open>A failure with no clean-up complaint leaves the world as it was.\<close>

definition settled :: "'w \<Rightarrow> fault \<Rightarrow> 'w \<Rightarrow> bool" where
  "settled w0 f w' \<longleftrightarrow>
     (\<forall>m rp. f = PublicationError m rp \<longrightarrow> length (rp_diagnostics rp) = 1 \<longrightarrow> artifact w' = artifact w0 \<and> staged w' = staged w0)"

lemma settled_iff:
  "settled w0 f w' \<longleftrightarrow>
     ((\<exists>m rp. f = PublicationError m rp \<and> length (rp_diagnostics rp) = 1) \<longrightarrow> artifact w' = artifact w0 \<and> staged w' = staged w0)"
  by (auto simp: settled_def)

lemma settled_other [simp]: "settled w0 (Raised c m) w'" "settled w0 (Interrupted c m) w'"
  by (simp_all add: settled_def)

lemma settled_passes: "passes_handlers f \<Longrightarrow> settled w0 f w'"
  by (cases f) auto

lemma release_passes: "release label op P p kept w = (Inl f, p', kept', w') \<Longrightarrow> passes_handlers f"
  by (auto simp: release_def retain_recoveries_def Let_def split: prod.splits sum.splits option.splits reply.splits if_splits)

lemma sweep_passes:
  "(\<And>p kept w f p' kept' w'. op p kept w = (Inl f, p', kept', w') \<Longrightarrow> passes_handlers f) \<Longrightarrow>
   sweep op rows kept w = (Inl f, rows', kept', w') \<Longrightarrow> passes_handlers f"
  by (induction rows arbitrary: kept w rows' kept' w' f)
     (fastforce simp: Let_def split: prod.splits sum.splits option.splits)+

lemma clean_up_passes:
  "discard_staged P t w = (Inl f, t', w') \<Longrightarrow> passes_handlers f"
  "rollback_accepted_rows P t w = (Inl f, t', w') \<Longrightarrow> passes_handlers f"
  "rollback_one P p kept w = (Inl f, p', kept', w') \<Longrightarrow> passes_handlers f"
  using sweep_passes [of "discard_one P"] sweep_passes [of "rollback_one P"] release_passes
  unfolding discard_staged_def rollback_accepted_rows_def discard_one_def rollback_one_def Let_def
  by (blast | fastforce split: prod.splits)+

lemma prepare_loop_passes:
  "prepare_loop P e left attempts err w = (Inl f, w') \<Longrightarrow> passes_handlers f"
  by (induction left arbitrary: attempts err w) (auto simp: Let_def split: prod.splits sum.splits if_splits)

lemma failed_settled:
  assumes "intact w0 (tx_prepared t) [] w" and "failed P e error cs notes tokens t w = (f, t', w')"
  shows "settled w0 f w'"
proof -
  obtain r t1 where d: "discard_staged P t w = (r, t1, w')"
    using assms(2) by (auto simp: failed_def Let_def split: prod.splits sum.splits)
  show ?thesis
  proof (cases r)
    case (Inl g)
    then show ?thesis using assms(2) d clean_up_passes(1) settled_passes by (auto simp: failed_def)
  next
    case (Inr x)
    obtain done_tokens cleanup where x: "x = (done_tokens, cleanup)" by fastforce
    have "artifact w' = artifact w0 \<and> staged w' = staged w0" if "cleanup = []"
    proof -
      have "artifact w = artifact w0" using assms(1) by (auto simp: intact_def)
      then have "artifact w' = artifact w \<and> (\<forall>i. staged w' i = (if i \<in> set (row_ids (tx_prepared t)) then None else staged w i))"
        using assms(1) by (intro discard_staged_clean [OF d [unfolded Inr x that]]) (auto simp: intact_def)
      then show ?thesis using assms(1) \<open>artifact w = artifact w0\<close> by (auto simp: intact_def)
    qed
    then show ?thesis using assms(2) by (auto simp: failed_def d Inr x settled_def)
  qed
qed

lemma intact_rolled_back:
  assumes "intact w0 pending accepted w" and "swept accepted w w'"
  shows "intact w0 pending ([] :: (effect \<times> 'p \<times> receipt) list) w'"
proof -
  have apart: "apart (row_ids pending @ row_ids accepted)" using assms(1) by (simp add: intact_def)
  have "artifact w' k = artifact w0 k" for k
  proof (cases "\<forall>(_, p, _) \<in> set accepted. k \<notin> footprint p")
    case True
    then show ?thesis using assms by (simp add: intact_def swept_def)
  next
    case False
    then obtain e p x where "(e, p, x) \<in> set accepted" "k \<in> footprint p" by auto
    then show ?thesis using assms by (fastforce simp: intact_def swept_def)
  qed
  moreover have "staged w' i = staged w i" if "i \<in> set (row_ids pending)" for i
    using that assms apart by (auto simp: intact_def swept_def apart_def)
  moreover have "staged w' i = staged w0 i" if "i \<notin> set (row_ids pending)" for i
    using that assms by (auto simp: intact_def swept_def)
  moreover have "staged w' (pub_effect P q) = Some (temporary q)" if "(d, q, x) \<in> set pending" for d q x
    using calculation(2) [of "pub_effect P q"] owned_ident [OF _ that] assms(1) that by (fastforce simp: intact_def)
  ultimately show ?thesis using assms(1) by (auto simp: intact_def apart_def)
qed

lemma abandon_settled:
  assumes "notes = [] \<Longrightarrow> intact w0 pending (tx_accepted t) w" and "tx_prepared t = []"
    and "abandon P e error notes tokens pending t w = (f, t', w')"
  shows "settled w0 f w'"
proof -
  let ?t = "t\<lparr>tx_prepared := tx_prepared t @ pending\<rparr>"
  obtain r t1 w1 where b: "rollback_accepted_rows P ?t w = (r, t1, w1)" by (metis surj_pair)
  show ?thesis
  proof (cases r)
    case (Inl g)
    then show ?thesis using assms(3) b clean_up_passes(2) settled_passes by (auto simp: abandon_def)
  next
    case (Inr x)
    obtain done_tokens cleanup where x: "x = (done_tokens, cleanup)" by fastforce
    have f: "failed P e error (tx_initial t1) (notes @ cleanup) (tokens @ done_tokens) t1 w1 = (f, t', w')"
      using assms(3) by (simp add: abandon_def b Inr x)
    have t1: "tx_prepared t1 = pending"
      using b assms(2) by (auto simp: rollback_accepted_rows_def Let_def split: prod.splits sum.splits)
    show ?thesis
    proof (cases "notes = [] \<and> cleanup = []")
      case True
      then have "swept (tx_accepted ?t) w w1"
        using assms(1) b Inr x by (intro rollback_rows_clean) (auto simp: intact_def apart_def)
      then have "intact w0 (tx_prepared t1) ([] :: (effect \<times> 'p \<times> receipt) list) w1"
        using assms(1) True t1 by (auto intro: intact_rolled_back)
      then show ?thesis using f by (rule failed_settled)
    next
      case False
      then have "length (rp_diagnostics rp) \<noteq> 1" if "f = PublicationError m rp" for m rp
        using f that clean_up_passes(1) by (fastforce simp: failed_def Let_def split: prod.splits sum.splits)
      then show ?thesis by (simp add: settled_def)
    qed
  qed
qed

definition ends_well :: "'w \<Rightarrow> fault + 'a \<Rightarrow> ('p, 'r) tx \<Rightarrow> 'w \<Rightarrow> bool" where
  "ends_well w0 r t w \<longleftrightarrow>
     (case r of Inl f \<Rightarrow> settled w0 f w
      | Inr _ \<Rightarrow> tx_prepared t = [] \<and> intact w0 ([] :: (effect \<times> 'p \<times> nat) list) (tx_accepted t) w)"

lemma ends_well_simps [simp]:
  "ends_well w0 (Inl f) t w = settled w0 f w"
  "ends_well w0 (Inr x) t w = (tx_prepared t = [] \<and> intact w0 ([] :: (effect \<times> 'p \<times> nat) list) (tx_accepted t) w)"
  by (simp_all add: ends_well_def)

lemma skip_sample_settled: "skip_sample e phase_name n err = Inl f \<Longrightarrow> settled w0 f w"
  by (auto simp: skip_sample_def raised_by_def split: sum.splits)

lemma after_failure_escapes:
  assumes "after_failure P e attempts f cleanup w = (Escaped g, w')"
  shows "settled w0 g v"
  using assms skip_sample_settled prepare_loop_passes settled_passes
  by (fastforce simp: after_failure_def prepare_one_def Let_def split: prod.splits sum.splits option.splits if_splits)

lemma after_failure_quiet:
  assumes "after_failure P e attempts f cleanup w = (v, w')" and "\<And>q n. v \<noteq> Again q n"
  shows "artifact w' = artifact w \<and> staged w' = staged w"
proof -
  define tries where "tries \<longleftrightarrow> cleanup = None \<and> is_retry (ef_action e) \<and> attempts < attempt_limit e"
  have v: "(let (retried, w1) = (if tries then prepare_one P e attempts w else (Inr (None, attempts, Some f), w)) in
      case retried of
        Inl g \<Rightarrow> (Escaped g, w1)
      | Inr (Some p, n, _) \<Rightarrow> (Again p n, w1)
      | Inr (None, n, err) \<Rightarrow>
          if ef_action e = Skip_Sample_Reported then
            (case skip_sample e ''publish'' n err of Inl g \<Rightarrow> (Escaped g, w1) | Inr s \<Rightarrow> (Skipped s, w1))
          else (Abandoned err, w1)) = (v, w')"
    using assms(1) unfolding after_failure_def tries_def .
  show ?thesis
  proof (cases tries)
    case True
    then obtain r where r: "prepare_loop P e (attempt_limit e - attempts) attempts None w = (r, w')"
        "\<And>q n err. r \<noteq> Inr (Some q, n, err)"
      using v assms(2) by (auto simp: prepare_one_def Let_def split: prod.splits sum.splits option.splits if_splits)
    then show ?thesis by (rule prepare_loop_none)
  next
    case False
    then show ?thesis using v by (auto simp: Let_def split: sum.splits if_splits)
  qed
qed

lemma after_failure_again:
  assumes "after_failure P e attempts f cleanup w = (Again q n, w')"
  obtains err where "prepare_one P e attempts w = (Inr (Some q, n, err), w')" and "cleanup = None"
  using assms that
  by (cases "prepare_one P e attempts w")
     (auto simp: after_failure_def Let_def split: sum.splits option.splits if_splits)

lemma after_failure_skipped:
  "after_failure P e attempts f cleanup w = (Skipped s, w') \<Longrightarrow> w' = w \<and> ef_action e = Skip_Sample_Reported"
  by (auto simp: after_failure_def Let_def split: prod.splits sum.splits option.splits if_splits)

lemma intact_apart:
  assumes "intact w0 ((e, p, n) # pending) accepted w"
  shows "apart (ef_identity e # row_ids pending @ row_ids accepted)" and "staged w0 (ef_identity e) = None"
  using assms by (auto simp: intact_def)

lemma intact_quiet:
  "intact w0 pending accepted w \<Longrightarrow> artifact w' = artifact w \<and> staged w' = staged w \<Longrightarrow> intact w0 pending accepted w'"
  by (simp add: intact_def)

lemma accept_row_intact:
  assumes "accept_row P row pending cs rcs t w = Next pending' cs' rcs' t' w'"
    and "tx_prepared t = [] \<and> intact w0 (row # pending) (tx_accepted t) w"
  shows "tx_prepared t' = [] \<and> intact w0 pending' (tx_accepted t') w'"
proof -
  obtain e p n where row: "row = (e, p, n)" by (metis surj_pair)
  have whole: "intact w0 ((e, p, n) # pending) (tx_accepted t) w" and unstaged: "tx_prepared t = []"
    using assms(2) by (simp_all add: row)
  show ?thesis
    using assms(1) [unfolded row]
  proof (cases rule: accept_row_cases)
    case (published rc p')
    then obtain x where "pub_publish P p w = (Inr x, p', w')"
      by (auto simp: publish_one_def split: prod.splits sum.splits)
    from intact_published [OF whole this] show ?thesis by (simp add: published unstaged)
  next
    case (again f p1 w1 p2 kept w2 q m)
    have undone: "intact w0 pending (tx_accepted t) w2" by (rule intact_undone [OF whole again(1,2)])
    obtain err where "prepare_one P e n w2 = (Inr (Some q, m, err), w')" using again(3) by (rule after_failure_again)
    from intact_again [OF undone this intact_apart [OF whole]] show ?thesis by (simp add: again unstaged)
  next
    case (skipped f p1 w1 p2 kept w2 s)
    have "intact w0 pending (tx_accepted t) w2" by (rule intact_undone [OF whole skipped(1,2)])
    then show ?thesis using after_failure_skipped [OF skipped(3)] by (simp add: skipped unstaged)
  qed
qed

lemma accept_row_settled:
  assumes "accept_row P row pending cs rcs t w = Stop f t' w'"
    and "tx_prepared t = [] \<and> intact w0 (row # pending) (tx_accepted t) w"
  shows "settled w0 f w'"
proof -
  obtain e p n where row: "row = (e, p, n)" by (metis surj_pair)
  have whole: "intact w0 ((e, p, n) # pending) (tx_accepted t) w" and unstaged: "tx_prepared t = []"
    using assms(2) by (simp_all add: row)
  obtain a p1 w1 where publish: "publish_one P e p w = (a, p1, w1)" by (metis surj_pair)
  show ?thesis
  proof (cases a)
    case (Inr rc)
    then show ?thesis
      using assms(1) publish
      by (auto simp: row accept_row_def publish_succeeded_def raised_by_def split: sum.splits)
  next
    case (Inl g)
    show ?thesis
    proof (cases "passes_handlers g")
      case True
      then show ?thesis using assms(1) publish Inl settled_passes by (auto simp: row accept_row_def)
    next
      case False
      obtain c p2 kept w2 where undo: "rollback_one P p1 (tx_recoveries t) w1 = (c, p2, kept, w2)" by (metis surj_pair)
      let ?t = "t\<lparr>tx_recoveries := kept\<rparr>"
      show ?thesis
      proof (cases c)
        case (Inl h)
        then show ?thesis
          using assms(1) publish \<open>a = Inl g\<close> False undo clean_up_passes(3) settled_passes
          by (auto simp: row accept_row_def)
      next
        case (Inr cleanup)
        have rest: "publish_failed P e n g cleanup pending cs rcs ?t w2 = Stop f t' w'"
          using assms(1) publish \<open>a = Inl g\<close> False undo Inr by (simp add: row accept_row_def)
        have undone: "intact w0 pending (tx_accepted t) w2" if "cleanup = None"
          by (rule intact_undone [OF whole publish [unfolded \<open>a = Inl g\<close>] undo [unfolded Inr that]])
        obtain v w3 where v: "after_failure P e n g cleanup w2 = (v, w3)" by (metis surj_pair)
        show ?thesis
        proof (cases v)
          case (Escaped h)
          then show ?thesis using rest v after_failure_escapes by (auto simp: publish_failed_def Let_def)
        next
          case (Skipped s)
          then obtain y t4 where "abandon P e (Some g) [y] [] pending (?t\<lparr>tx_skipped := tx_skipped ?t @ [s]\<rparr>) w3 = (f, t4, w')"
            using rest v by (auto simp: publish_failed_def Let_def split: prod.splits if_splits)
          then show ?thesis by (rule abandon_settled [rotated 2]) (simp_all add: unstaged)
        next
          case (Abandoned err)
          have same: "artifact w3 = artifact w2 \<and> staged w3 = staged w2"
            using after_failure_quiet [OF v] by (simp add: Abandoned)
          let ?notes = "case cleanup of None \<Rightarrow> [] | Some n \<Rightarrow> [n]"
          have stays: "intact w0 pending (tx_accepted ?t) w3" if "?notes = []"
            using undone intact_quiet [OF _ same] that by (simp split: option.splits)
          obtain t4 w4 where "abandon P e err ?notes (if cleanup = None then [ef_identity e] else []) pending ?t w3
              = (f, t4, w4)" "w4 = w'"
            using rest v by (auto simp: publish_failed_def Let_def Abandoned split: prod.splits)
          with abandon_settled [OF stays] unstaged show ?thesis by auto
        next
          case (Again q m)
          then show ?thesis using rest v by (simp add: publish_failed_def Let_def)
        qed
      qed
    qed
  qed
qed

lemma accept_loop_ends_well:
  assumes "tx_prepared t = [] \<and> intact w0 pending (tx_accepted t) w"
    and "accept_loop P pending cs published t w = (r, t', w')"
  shows "ends_well w0 r t' w'"
proof -
  let ?I = "\<lambda>(pending :: (effect \<times> 'p \<times> nat) list) (cs :: cursors) (rcs :: receipt list) (t :: ('p, 'r) tx) w. tx_prepared t = [] \<and> intact w0 pending (tx_accepted t) w"
  have "(\<exists>cs rcs. r = Inr (cs, rcs) \<and> ?I [] cs rcs t' w')
      \<or> (\<exists>f row rows cs rcs u v. r = Inl f \<and> ?I (row # rows) cs rcs u v \<and> accept_row P row rows cs rcs u v = Stop f t' w')"
    using assms(1) by (intro accept_loop_invariant [where I = ?I, OF assms(2)]) (simp, rule accept_row_intact)
  then show ?thesis
  proof
    assume "\<exists>cs rcs. r = Inr (cs, rcs) \<and> ?I [] cs rcs t' w'"
    then show ?thesis by auto
  next
    assume "\<exists>f row rows cs rcs u v. r = Inl f \<and> ?I (row # rows) cs rcs u v \<and> accept_row P row rows cs rcs u v = Stop f t' w'"
    then show ?thesis using accept_row_settled by (elim exE conjE) auto
  qed
qed

text \<open>The three ways a staged transaction ends, and the one it starts with.\<close>

lemma prepare_all_intact:
  assumes "prepare_all P es t w = (r, t', w')" and "intact w0 (tx_prepared t) ([] :: (effect \<times> 'p \<times> receipt) list) w"
    and "apart (row_ids (tx_prepared t) @ map ef_identity es)" and "\<forall>e \<in> set es. staged w0 (ef_identity e) = None"
  shows "case r of Inl f \<Rightarrow> settled w0 f w'
       | Inr _ \<Rightarrow> intact w0 (tx_prepared t') ([] :: (effect \<times> 'p \<times> receipt) list) w' \<and> tx_accepted t' = tx_accepted t"
  using assms
proof (induction es arbitrary: t w)
  case (Cons e es)
  have apart: "apart (ef_identity e # row_ids (tx_prepared t) @ map ef_identity es)"
    using Cons.prems(3) by (intro apart_swap) simp
  obtain q w1 where q: "prepare_one P e 0 w = (q, w1)" by (metis surj_pair)
  show ?case
  proof (cases "\<exists>p n err. q = Inr (Some p, n, err)")
    case True
    then obtain p n err where p: "q = Inr (Some p, n, err)" by blast
    have first: "apart (ef_identity e # row_ids (tx_prepared t) @ row_ids ([] :: (effect \<times> 'p \<times> receipt) list))"
      using apart by (auto simp: apart_def)
    have "intact w0 ((e, p, n) # tx_prepared t) ([] :: (effect \<times> 'p \<times> receipt) list) w1"
      using Cons.prems(2,4) q p first by (intro intact_again [where s = 0 and w = w and err = err]) auto
    then have "intact w0 (tx_prepared t @ [(e, p, n)]) ([] :: (effect \<times> 'p \<times> receipt) list) w1"
      by (auto simp: intact_def apart_def)
    then show ?thesis
      using Cons.prems Cons.IH [of "t\<lparr>tx_prepared := tx_prepared t @ [(e, p, n)]\<rparr>" w1] q p
      by (auto split: sum.splits)
  next
    case False
    then have same: "artifact w1 = artifact w \<and> staged w1 = staged w"
      using q prepare_loop_none by (fastforce simp: prepare_one_def)
    then have stays: "intact w0 (tx_prepared t) ([] :: (effect \<times> 'p \<times> receipt) list) w1"
      using Cons.prems(2) by (rule intact_quiet [rotated])
    have rest: "apart (row_ids (tx_prepared t) @ map ef_identity es)"
      using apart_Cons [OF apart] by simp
    show ?thesis
    proof (cases q)
      case (Inl f)
      then show ?thesis
        using Cons.prems(1) q prepare_loop_passes settled_passes by (auto simp: prepare_one_def)
    next
      case (Inr a)
      then obtain n err where a: "q = Inr (None, n, err)" using False by (cases a) (metis not_None_eq prod_cases3)
      show ?thesis
      proof (cases "ef_action e = Skip_Sample_Reported")
        case True
        then show ?thesis
          using Cons.prems(1,4) q a skip_sample_settled stays rest
            Cons.IH [of "t\<lparr>tx_skipped := tx_skipped t @ [s]\<rparr>" w1 for s]
          by (auto split: sum.splits)
      next
        case False
        obtain f t2 w2 where f: "failed P e err (tx_initial t) [] [] t w1 = (f, t2, w2)" by (metis surj_pair)
        then show ?thesis using Cons.prems(1) q a False failed_settled [OF stays f] by auto
      qed
    qed
  qed
qed auto

lemma new_transaction_intact:
  assumes "new_transaction P plan cs w = (r, t, w')" and "apart (map ef_identity (pl_effects plan))"
    and "\<forall>e \<in> set (pl_effects plan). staged w (ef_identity e) = None"
  shows "case r of Inl f \<Rightarrow> settled w f w'
       | Inr _ \<Rightarrow> intact w (tx_prepared t) ([] :: (effect \<times> 'p \<times> receipt) list) w' \<and> tx_accepted t = []"
proof (cases "check_fresh cs (pl_effects plan)")
  case (Inl f)
  then have "r = Inl f" "w' = w" using assms(1) by (auto simp: new_transaction_def Let_def)
  then show ?thesis using Inl
    by (induction "pl_effects plan" arbitrary: plan) (auto simp: settled_def)
next
  case (Inr x)
  let ?t = "\<lparr>tx_plan = plan, tx_initial = cs, tx_prepared = [], tx_accepted = [], tx_updates = [],
               tx_skipped = [], tx_finalize = [], tx_recoveries = [], tx_state = Preparing\<rparr>"
  obtain q t1 where q: "prepare_all P (pl_effects plan) ?t w = (q, t1, w')"
    using assms(1) Inr by (auto simp: new_transaction_def Let_def split: prod.splits sum.splits)
  have "intact w (tx_prepared ?t) ([] :: (effect \<times> 'p \<times> receipt) list) w" by (simp add: intact_def apart_def)
  from prepare_all_intact [OF q this] assms(2,3)
  show ?thesis using assms(1) Inr q by (auto simp: new_transaction_def Let_def split: sum.splits)
qed

lemma accept_intact:
  assumes "accept P t w = (r, t', w')" and "intact w0 (tx_prepared t) (tx_accepted t) w" and "tx_state t = Staged"
  shows "case r of Inl f \<Rightarrow> settled w0 f w'
       | Inr rp \<Rightarrow> tx_prepared t' = [] \<and> intact w0 ([] :: (effect \<times> 'p \<times> nat) list) (tx_accepted t') w'"
proof -
  obtain q t1 where q: "accept_loop P (tx_prepared t) (tx_initial t) [] (t\<lparr>tx_prepared := []\<rparr>) w = (q, t1, w')"
    using assms(1,3) by (auto simp: accept_def split: prod.splits sum.splits)
  have "ends_well w0 q t1 w'" using accept_loop_ends_well [OF _ q] assms(2) by simp
  then show ?thesis using assms(1,3) q by (auto simp: accept_def split: sum.splits)
qed

text \<open>Undoing everything leaves the world as it was.\<close>

lemma conclude_value:
  "conclude message (q, t, w) = (Inr rp, t', w') \<Longrightarrow> \<exists>tokens. q = Inr (tokens, []) \<and> w' = w"
  by (auto simp: conclude_def Let_def split: sum.splits if_splits)

lemma reject_restores:
  assumes "reject P t w = (Inr rp, t', w')" and "intact w0 (tx_prepared t) (tx_accepted t) w" and "tx_accepted t = []"
  shows "artifact w' = artifact w0 \<and> staged w' = staged w0"
proof -
  obtain q t1 w1 where d: "discard_staged P t w = (q, t1, w1)" by (metis surj_pair)
  have "conclude ''consumer rollback left unremoved temporaries'' (q, t1, w1) = (Inr rp, t', w')"
    using assms(1) d by (auto simp: reject_def split: if_splits)
  from conclude_value [OF this] obtain tokens where q: "q = Inr (tokens, [])" "w' = w1" by blast
  have same: "artifact w = artifact w0" using assms(2,3) by (auto simp: intact_def)
  have "artifact w' = artifact w \<and> (\<forall>i. staged w' i = (if i \<in> set (row_ids (tx_prepared t)) then None else staged w i))"
    unfolding q(2) using assms(2) same by (intro discard_staged_clean [OF d [unfolded q(1)]]) (auto simp: intact_def apart_def)
  then show ?thesis using assms(2) same by (auto simp: intact_def)
qed

lemma rollback_restores:
  assumes "rollback_accepted P t w = (Inr rp, t', w')" and "intact w0 ([] :: (effect \<times> 'p \<times> nat) list) (tx_accepted t) w"
  shows "artifact w' = artifact w0 \<and> staged w' = staged w0"
proof -
  obtain q t1 w1 where d: "rollback_accepted_rows P t w = (q, t1, w1)" by (metis surj_pair)
  have "conclude ''accepted consumer publication could not be compensated'' (q, t1, w1) = (Inr rp, t', w')"
    using assms(1) d by (auto simp: rollback_accepted_def split: if_splits)
  from conclude_value [OF this] obtain tokens where q: "q = Inr (tokens, [])" "w' = w1" by blast
  have "swept (tx_accepted t) w w1"
    using assms(2) by (intro rollback_rows_clean [OF d [unfolded q(1)]]) (auto simp: intact_def)
  from intact_rolled_back [OF assms(2) this] show ?thesis by (auto simp: q(2) intact_def)
qed

text \<open>
  All or nothing: a transaction that could not be staged, could not be accepted, was rejected or was
  compensated leaves no trace unless its report says which clean-up failed; one that was accepted has
  changed only the artifacts of its effects, and leaves no temporary.
\<close>

lemma transaction_all_or_nothing:
  assumes "new_transaction P plan cs w = (q, t, w1)" and "apart (map ef_identity (pl_effects plan))"
    and "\<forall>e \<in> set (pl_effects plan). staged w (ef_identity e) = None"
  shows "(\<forall>f. q = Inl f \<longrightarrow> settled w f w1)
    \<and> (q = Inr () \<longrightarrow>
        (\<forall>rp t2 w2. reject P t w1 = (Inr rp, t2, w2) \<longrightarrow> artifact w2 = artifact w \<and> staged w2 = staged w)
      \<and> (\<forall>f t2 w2. accept P t w1 = (Inl f, t2, w2) \<longrightarrow> settled w f w2)
      \<and> (\<forall>rp t2 w2. accept P t w1 = (Inr rp, t2, w2) \<longrightarrow>
            staged w2 = staged w
          \<and> (\<forall>k. (\<forall>rc \<in> set (rp_published rp). k \<notin> keys (rc_effect rc)) \<longrightarrow> artifact w2 k = artifact w k)
          \<and> (\<forall>rp' t3 w3. rollback_accepted P t2 w2 = (Inr rp', t3, w3) \<longrightarrow> artifact w3 = artifact w \<and> staged w3 = staged w)))"
proof (intro conjI impI allI)
  fix f assume "q = Inl f"
  then show "settled w f w1" using new_transaction_intact [OF assms] by simp
next
  assume q: "q = Inr ()"
  then have t: "intact w (tx_prepared t) (tx_accepted t) w1" "tx_accepted t = []"
    using new_transaction_intact [OF assms] by auto
  have staged: "tx_state t = Staged"
    using assms(1) q by (auto simp: new_transaction_def Let_def split: prod.splits sum.splits)
  show "artifact w2 = artifact w" "staged w2 = staged w" if "reject P t w1 = (Inr rp, t2, w2)" for rp t2 w2
    using reject_restores [OF that t] by auto
  show "settled w f w2" if "accept P t w1 = (Inl f, t2, w2)" for f t2 w2
    using accept_intact [OF that t(1) staged] by simp
  fix rp t2 w2 assume accept: "accept P t w1 = (Inr rp, t2, w2)"
  have ended: "intact w ([] :: (effect \<times> 'p \<times> nat) list) (tx_accepted t2) w2"
    using accept_intact [OF accept t(1) staged] by simp
  have ids: "row_ids (tx_accepted t2) = map rc_effect (rp_published rp)"
    using accept_published [OF accept t(2)] by (simp add: row_ids_def)
  show "staged w2 = staged w" using ended by (auto simp: intact_def)
  show "artifact w2 k = artifact w k" if "\<forall>rc \<in> set (rp_published rp). k \<notin> keys (rc_effect rc)" for k
  proof -
    have "\<forall>i \<in> set (row_ids (tx_accepted t2)). k \<notin> keys i" using that by (simp add: ids)
    then have "\<forall>(_, p, _) \<in> set (tx_accepted t2). k \<notin> footprint p"
      using ended in_row_ids unfolding intact_def owned_def by fastforce
    then show ?thesis using ended by (simp add: intact_def)
  qed
  show "artifact w3 = artifact w" "staged w3 = staged w" if "rollback_accepted P t2 w2 = (Inr rp', t3, w3)" for rp' t3 w3
    using rollback_restores [OF that ended] by auto
qed

end

end
