(* ===== verification/Pops_Publications.thy ===== *)
theory Pops_Publications
  imports Pops_Compensation
begin

text \<open>
  The diagnostics publisher of the runtime (\<open>python/pops/runtime/_runtime_consumers.py\<close>): the registry of
  accepted diagnostic values and conservation baselines, the staged values, and
  \<open>_PreparedDiagnostic\<close> with its publish, discard and rollback. It is shown to keep the
  contract of a compensating publisher, so what is proved of a transaction holds over it.

  The values of a diagnostic are computed by the compiled extension and are a parameter, as are the
  native recorder and the console. The closure of \<open>rollback\<close> is the part of a prepared diagnostic
  it captures.
\<close>

section \<open>The registry\<close>

record 'v diagnostic =
  dg_token :: string
  dg_value :: 'v

record ('v, 'b, 'n) registry =
  rg_pending :: "(string \<times> 'v diagnostic list) list"
  rg_pending_baselines :: "(string \<times> (string \<times> 'b) list) list"
  rg_diagnostics :: "(string \<times> 'v diagnostic) list"
  rg_baselines :: "(string \<times> 'b) list"
  rg_native :: 'n

definition dict_pop :: "'k \<Rightarrow> ('k \<times> 'v) list \<Rightarrow> ('k \<times> 'v) list" where
  "dict_pop k d = filter (\<lambda>(k', _). k' \<noteq> k) d"

definition dict_default :: "'k \<Rightarrow> 'v \<Rightarrow> ('k \<times> 'v) list \<Rightarrow> ('k \<times> 'v) list" where
  "dict_default k v d = (case map_of d k of None \<Rightarrow> d @ [(k, v)] | Some _ \<Rightarrow> d)"

lemma map_of_dict_pop [simp]: "map_of (dict_pop k d) = (map_of d)(k := None)"
  by (induction d) (auto simp: dict_pop_def fun_eq_iff)

lemma map_of_dict_default [simp]:
  "map_of (dict_default k v d) = (case map_of d k of None \<Rightarrow> (map_of d)(k \<mapsto> v) | Some _ \<Rightarrow> map_of d)"
  by (auto simp: dict_default_def map_add_def fun_eq_iff split: option.splits)

text \<open>
  What the publisher calls: the values and baseline updates of an effect (\<open>_diagnostic_values\<close>, with
  its fallback when a reduction is unavailable), the native recorder, the console, the artifact name.
\<close>

record ('v, 'b, 'n) diagnostics_env =
  de_values :: "effect \<Rightarrow> ('v, 'b, 'n) registry \<Rightarrow> fault + 'v diagnostic list \<times> (string \<times> 'b) list"
  de_record :: "'v diagnostic \<Rightarrow> 'n \<Rightarrow> (fault + unit) \<times> 'n"
  de_console :: "effect \<Rightarrow> bool"
  de_render :: "effect \<Rightarrow> 'v diagnostic list \<Rightarrow> 'n \<Rightarrow> (fault + unit) \<times> 'n"
  de_artifact :: "effect \<Rightarrow> 'v diagnostic list \<Rightarrow> string"

definition forget_staged :: "string \<Rightarrow> ('v, 'b, 'n) registry \<Rightarrow> ('v, 'b, 'n) registry" where
  "forget_staged i reg =
     reg\<lparr>rg_pending := dict_pop i (rg_pending reg), rg_pending_baselines := dict_pop i (rg_pending_baselines reg)\<rparr>"

fun publish_values ::
  "('v, 'b, 'n) diagnostics_env \<Rightarrow> 'v diagnostic list \<Rightarrow> ('v, 'b, 'n) registry \<Rightarrow> (fault + unit) \<times> ('v, 'b, 'n) registry" where
  "publish_values env [] reg = (Inr (), reg)"
| "publish_values env (v # vs) reg =
     (let reg' = reg\<lparr>rg_diagnostics := dict_set (dg_token v) v (rg_diagnostics reg)\<rparr>;
          (r, n) = de_record env v (rg_native reg');
          reg'' = reg'\<lparr>rg_native := n\<rparr>
      in case r of Inl f \<Rightarrow> (Inl f, reg'') | Inr _ \<Rightarrow> publish_values env vs reg'')"

definition publish_diagnostics ::
  "('v, 'b, 'n) diagnostics_env \<Rightarrow> effect \<Rightarrow> 'v diagnostic list \<Rightarrow> ('v, 'b, 'n) registry
    \<Rightarrow> (fault + unit) \<times> ('v, 'b, 'n) registry" where
  "publish_diagnostics env e vs reg =
     (let updates = (case map_of (rg_pending_baselines reg) (ef_identity e) of None \<Rightarrow> [] | Some u \<Rightarrow> u);
          reg' = reg\<lparr>rg_baselines := foldl (\<lambda>d (k, v). dict_default k v d) (rg_baselines reg) updates\<rparr>;
          (r, reg'') = publish_values env vs reg'
      in case r of Inl f \<Rightarrow> (Inl f, reg'') | Inr _ \<Rightarrow> (Inr (), forget_staged (ef_identity e) reg''))"

section \<open>Prepared diagnostics\<close>

record ('v, 'b) prepared_diagnostic =
  pd_effect :: effect
  pd_values :: "'v diagnostic list"
  pd_previous :: "(string \<times> 'v diagnostic option) list"
  pd_existed :: "(string \<times> bool) list"
  pd_updates :: "(string \<times> 'b) list"
  pd_previous_baselines :: "(string \<times> 'b option) list"
  pd_baseline_existed :: "(string \<times> bool) list"
  pd_published :: bool
  pd_discarded :: bool

definition prepare_diagnostic ::
  "('v, 'b, 'n) diagnostics_env \<Rightarrow> effect \<Rightarrow> ('v, 'b, 'n) registry
    \<Rightarrow> (fault + ('v, 'b) prepared_diagnostic reply) \<times> ('v, 'b, 'n) registry" where
  "prepare_diagnostic env e reg =
     (case de_values env e reg of
        Inl f \<Rightarrow> (Inl f, reg)
      | Inr (values, updates) \<Rightarrow>
          (Inr (Exact \<lparr>pd_effect = e, pd_values = values,
             pd_previous = map (\<lambda>v. (dg_token v, map_of (rg_diagnostics reg) (dg_token v))) values,
             pd_existed = map (\<lambda>v. (dg_token v, map_of (rg_diagnostics reg) (dg_token v) \<noteq> None)) values,
             pd_updates = updates,
             pd_previous_baselines = map (\<lambda>(k, _). (k, map_of (rg_baselines reg) k)) updates,
             pd_baseline_existed = map (\<lambda>(k, _). (k, map_of (rg_baselines reg) k \<noteq> None)) updates,
             pd_published = False, pd_discarded = False\<rparr>),
           reg\<lparr>rg_pending := dict_set (ef_identity e) values (rg_pending reg),
               rg_pending_baselines := dict_set (ef_identity e) updates (rg_pending_baselines reg)\<rparr>))"

text \<open>One entry of a dictionary put back: \<open>existed\<close> and \<open>previous\<close> are looked up by key.\<close>

definition put_back ::
  "string \<Rightarrow> (string \<times> bool) list \<Rightarrow> (string \<times> 'x option) list \<Rightarrow> string \<Rightarrow> (string \<times> 'x) list \<Rightarrow> fault + (string \<times> 'x) list" where
  "put_back lost existed previous k d =
     (case map_of existed k of
        None \<Rightarrow> Inl (Raised ''KeyError'' k)
      | Some False \<Rightarrow> Inr (dict_pop k d)
      | Some True \<Rightarrow>
          (case map_of previous k of
             None \<Rightarrow> Inl (Raised ''KeyError'' k)
           | Some None \<Rightarrow> Inl (Raised ''RuntimeError'' lost)
           | Some (Some x) \<Rightarrow> Inr (dict_set k x d)))"

fun put_all_back ::
  "string \<Rightarrow> (string \<times> bool) list \<Rightarrow> (string \<times> 'x option) list \<Rightarrow> string list \<Rightarrow> (string \<times> 'x) list
    \<Rightarrow> (fault + unit) \<times> (string \<times> 'x) list" where
  "put_all_back lost existed previous [] d = (Inr (), d)"
| "put_all_back lost existed previous (k # ks) d =
     (case put_back lost existed previous k d of
        Inl f \<Rightarrow> (Inl f, d)
      | Inr d' \<Rightarrow> put_all_back lost existed previous ks d')"

text \<open>The closure \<open>rollback\<close> of \<open>_prepare_diagnostic\<close>.\<close>

definition restore_diagnostics ::
  "('v, 'b) prepared_diagnostic \<Rightarrow> ('v, 'b, 'n) registry \<Rightarrow> (fault + unit) \<times> ('v, 'b, 'n) registry" where
  "restore_diagnostics p reg =
     (let (r, ds) = put_all_back ''diagnostic rollback lost its prior accepted payload'' (pd_existed p) (pd_previous p)
                      (map dg_token (pd_values p)) (rg_diagnostics reg);
          reg' = reg\<lparr>rg_diagnostics := ds\<rparr>
      in case r of
           Inl f \<Rightarrow> (Inl f, reg')
         | Inr _ \<Rightarrow>
             (let (r', bs) = put_all_back ''diagnostic rollback lost its prior baseline'' (pd_baseline_existed p)
                               (pd_previous_baselines p) (map fst (pd_updates p)) (rg_baselines reg');
                  reg'' = reg'\<lparr>rg_baselines := bs\<rparr>
              in case r' of
                   Inl f \<Rightarrow> (Inl f, reg'')
                 | Inr _ \<Rightarrow> (Inr (), forget_staged (ef_identity (pd_effect p)) reg'')))"

text \<open>The publish callback: the console is rendered after the values are registered.\<close>

definition publish_callback ::
  "('v, 'b, 'n) diagnostics_env \<Rightarrow> effect \<Rightarrow> 'v diagnostic list \<Rightarrow> ('v, 'b, 'n) registry
    \<Rightarrow> (fault + unit) \<times> ('v, 'b, 'n) registry" where
  "publish_callback env e vs reg =
     (let (r, reg') = publish_diagnostics env e vs reg
      in case r of
           Inl f \<Rightarrow> (Inl f, reg')
         | Inr _ \<Rightarrow>
             if de_console env e
             then (case de_render env e vs (rg_native reg') of (r', n) \<Rightarrow> (r', reg'\<lparr>rg_native := n\<rparr>))
             else (Inr (), reg'))"

definition diagnostic_receipt :: "('v, 'b, 'n) diagnostics_env \<Rightarrow> ('v, 'b) prepared_diagnostic \<Rightarrow> fault + receipt reply" where
  "diagnostic_receipt env p =
     map_sum id Exact (raised_by ''PublicationReceipt.artifact_id must be non-empty canonical text''
       (mk_receipt (ef_identity (pd_effect p)) (py_identity (ef_payload (pd_effect p))) ''pops.runtime-diagnostic.v1''
          (de_artifact env (pd_effect p) (pd_values p)) Serial []))"

text \<open>A failed publication rolls itself back; what goes wrong then is only a note on the first error.\<close>

definition publish_diagnostic ::
  "('v, 'b, 'n) diagnostics_env \<Rightarrow> ('v, 'b) prepared_diagnostic \<Rightarrow> ('v, 'b, 'n) registry
    \<Rightarrow> (fault + receipt reply) \<times> ('v, 'b) prepared_diagnostic \<times> ('v, 'b, 'n) registry" where
  "publish_diagnostic env p reg =
     (if pd_discarded p then (Inl (Raised ''RuntimeError'' ''discarded diagnostic cannot be published''), p, reg)
      else if pd_published p then (diagnostic_receipt env p, p, reg)
      else
        (let (r, reg') = publish_callback env (pd_effect p) (pd_values p) reg
         in case r of
              Inr _ \<Rightarrow> (diagnostic_receipt env p, p\<lparr>pd_published := True\<rparr>, reg')
            | Inl f \<Rightarrow>
                (let (_, reg'') = restore_diagnostics p reg'
                 in (Inl f, p\<lparr>pd_published := False, pd_discarded := True\<rparr>, reg''))))"

definition discard_diagnostic ::
  "('v, 'b) prepared_diagnostic \<Rightarrow> ('v, 'b, 'n) registry
    \<Rightarrow> (fault + unit) \<times> ('v, 'b) prepared_diagnostic \<times> ('v, 'b, 'n) registry" where
  "discard_diagnostic p reg =
     (if \<not> pd_published p \<and> \<not> pd_discarded p
      then (Inr (), p\<lparr>pd_discarded := True\<rparr>, forget_staged (ef_identity (pd_effect p)) reg)
      else (Inr (), p, reg))"

definition rollback_diagnostic ::
  "('v, 'b) prepared_diagnostic \<Rightarrow> ('v, 'b, 'n) registry
    \<Rightarrow> (fault + unit) \<times> ('v, 'b) prepared_diagnostic \<times> ('v, 'b, 'n) registry" where
  "rollback_diagnostic p reg =
     (if pd_discarded p then (Inr (), p, reg)
      else if pd_published p then
        (case restore_diagnostics p reg of
           (Inl f, reg') \<Rightarrow> (Inl f, p, reg')
         | (Inr _, reg') \<Rightarrow> (Inr (), p\<lparr>pd_published := False, pd_discarded := True\<rparr>, reg'))
      else (Inr (), p\<lparr>pd_published := False, pd_discarded := True\<rparr>, forget_staged (ef_identity (pd_effect p)) reg))"

definition diagnostics_publisher ::
  "('v, 'b, 'n) diagnostics_env \<Rightarrow> (('v, 'b) prepared_diagnostic, 'r, ('v, 'b, 'n) registry) publisher" where
  "diagnostics_publisher env =
     \<lparr>pub_prepare = prepare_diagnostic env,
      pub_effect = ef_identity \<circ> pd_effect,
      pub_payload = py_identity \<circ> ef_payload \<circ> pd_effect,
      pub_publish = publish_diagnostic env,
      pub_discard = discard_diagnostic,
      pub_rollback = rollback_diagnostic,
      pub_finalize = (\<lambda>p reg. (Inr (Exact ()), p, reg)),
      pub_recoveries = (\<lambda>_ _. Inr (Exact []))\<rparr>"

lemma diagnostics_publisher_sel [simp]:
  "pub_prepare (diagnostics_publisher env) = prepare_diagnostic env"
  "pub_effect (diagnostics_publisher env) = ef_identity \<circ> pd_effect"
  "pub_payload (diagnostics_publisher env) = py_identity \<circ> ef_payload \<circ> pd_effect"
  "pub_publish (diagnostics_publisher env) = publish_diagnostic env"
  "pub_discard (diagnostics_publisher env) = discard_diagnostic"
  "pub_rollback (diagnostics_publisher env) = rollback_diagnostic"
  "pub_recoveries (diagnostics_publisher env) p w = Inr (Exact [])"
  by (simp_all add: diagnostics_publisher_def)

section \<open>The contract\<close>

text \<open>What a prepared diagnostic remembers of a key: its value then, if it had one.\<close>

definition remembered :: "(string \<times> bool) list \<Rightarrow> (string \<times> 'x option) list \<Rightarrow> string \<Rightarrow> 'x option" where
  "remembered existed previous k =
     (if map_of existed k = Some True then Option.bind (map_of previous k) id else None)"

definition remembers :: "(string \<times> bool) list \<Rightarrow> (string \<times> 'x option) list \<Rightarrow> string set \<Rightarrow> bool" where
  "remembers existed previous ks \<longleftrightarrow>
     (\<forall>k \<in> ks. \<exists>x. map_of existed k = Some (x \<noteq> None) \<and> map_of previous k = Some x)"

lemma put_back_value:
  "put_back lost existed previous k d = Inr d' \<Longrightarrow> map_of d' = (map_of d)(k := remembered existed previous k)"
  by (auto simp: put_back_def remembered_def split: option.splits bool.splits)

lemma put_all_back_keeps:
  "put_all_back lost existed previous ks d = (r, d') \<Longrightarrow> k \<notin> set ks \<Longrightarrow> map_of d' k = map_of d k"
  by (induction ks arbitrary: d) (auto dest: put_back_value split: sum.splits)

lemma put_all_back_value:
  "put_all_back lost existed previous ks d = (Inr (), d') \<Longrightarrow> k \<in> set ks \<Longrightarrow> map_of d' k = remembered existed previous k"
proof (induction ks arbitrary: d)
  case (Cons i ks)
  then obtain d1 where d1: "put_back lost existed previous i d = Inr d1" "put_all_back lost existed previous ks d1 = (Inr (), d')"
    by (auto split: sum.splits)
  show ?case
  proof (cases "k \<in> set ks")
    case False
    then show ?thesis using Cons.prems(2) put_back_value [OF d1(1)] put_all_back_keeps [OF d1(2)] by simp
  qed (rule Cons.IH [OF d1(2)])
qed simp

lemma put_all_back_total:
  "remembers existed previous (set ks) \<Longrightarrow> \<exists>d'. put_all_back lost existed previous ks d = (Inr (), d')"
proof (induction ks arbitrary: d)
  case (Cons k ks)
  obtain x where "map_of existed k = Some (x \<noteq> None)" "map_of previous k = Some x"
    using Cons.prems by (auto simp: remembers_def)
  then have "\<exists>d1. put_back lost existed previous k d = Inr d1"
    by (cases x) (auto simp: put_back_def)
  then show ?case using Cons by (fastforce simp: remembers_def)
qed simp

definition diagnostic_consistent :: "('v, 'b) prepared_diagnostic \<Rightarrow> bool" where
  "diagnostic_consistent p \<longleftrightarrow>
     remembers (pd_existed p) (pd_previous p) (dg_token ` set (pd_values p))
     \<and> remembers (pd_baseline_existed p) (pd_previous_baselines p) (fst ` set (pd_updates p))"

definition diagnostic_phase :: "('v, 'b) prepared_diagnostic \<Rightarrow> phase" where
  "diagnostic_phase p =
     (if pd_discarded p \<or> \<not> diagnostic_consistent p then Gone else if pd_published p then Visible else Temporary)"

text \<open>Artifacts are the accepted diagnostics and the baselines; the temporaries are the staged values.\<close>

definition diagnostic_artifact :: "('v, 'b, 'n) registry \<Rightarrow> string + string \<Rightarrow> ('v diagnostic + 'b) option" where
  "diagnostic_artifact reg k =
     (case k of Inl t \<Rightarrow> map_option Inl (map_of (rg_diagnostics reg) t) | Inr b \<Rightarrow> map_option Inr (map_of (rg_baselines reg) b))"

definition diagnostic_base :: "('v, 'b) prepared_diagnostic \<Rightarrow> string + string \<Rightarrow> ('v diagnostic + 'b) option" where
  "diagnostic_base p k =
     (case k of Inl t \<Rightarrow> map_option Inl (remembered (pd_existed p) (pd_previous p) t)
      | Inr b \<Rightarrow> map_option Inr (remembered (pd_baseline_existed p) (pd_previous_baselines p) b))"

definition diagnostic_footprint :: "('v, 'b) prepared_diagnostic \<Rightarrow> (string + string) set" where
  "diagnostic_footprint p = Inl ` dg_token ` set (pd_values p) \<union> Inr ` fst ` set (pd_updates p)"

lemma footprint_simps [simp]:
  "Inl t \<in> diagnostic_footprint p \<longleftrightarrow> t \<in> dg_token ` set (pd_values p)"
  "Inr k \<in> diagnostic_footprint p \<longleftrightarrow> k \<in> fst ` set (pd_updates p)"
  by (auto simp: diagnostic_footprint_def)

definition diagnostic_staged ::
  "('v, 'b, 'n) registry \<Rightarrow> string \<Rightarrow> ('v diagnostic list option \<times> (string \<times> 'b) list option) option" where
  "diagnostic_staged reg i =
     (let a = map_of (rg_pending reg) i; b = map_of (rg_pending_baselines reg) i
      in if a = None \<and> b = None then None else Some (a, b))"

definition diagnostic_temporary :: "('v, 'b) prepared_diagnostic \<Rightarrow> 'v diagnostic list option \<times> (string \<times> 'b) list option" where
  "diagnostic_temporary p = (Some (pd_values p), Some (pd_updates p))"

text \<open>Everything an effect may register, whatever the state it is prepared in.\<close>

definition diagnostic_keys :: "('v, 'b, 'n) diagnostics_env \<Rightarrow> string \<Rightarrow> (string + string) set" where
  "diagnostic_keys env i =
     {k. \<exists>e reg values updates. ef_identity e = i \<and> de_values env e reg = Inr (values, updates)
           \<and> k \<in> Inl ` dg_token ` set values \<union> Inr ` fst ` set updates}"

lemma dict_defaults_keep:
  "k \<notin> fst ` set us \<Longrightarrow> map_of (foldl (\<lambda>d (k, v). dict_default k v d) d us) k = map_of d k"
proof (induction us arbitrary: d)
  case (Cons u us)
  then show ?case by (cases u) (auto split: option.splits)
qed simp

lemma publish_values_keep:
  "publish_values env vs reg = (r, reg') \<Longrightarrow>
     rg_pending reg' = rg_pending reg \<and> rg_pending_baselines reg' = rg_pending_baselines reg \<and> rg_baselines reg' = rg_baselines reg
     \<and> (\<forall>t. t \<notin> dg_token ` set vs \<longrightarrow> map_of (rg_diagnostics reg') t = map_of (rg_diagnostics reg) t)"
proof (induction vs arbitrary: reg)
  case (Cons v vs)
  let ?reg = "reg\<lparr>rg_diagnostics := dict_set (dg_token v) v (rg_diagnostics reg)\<rparr>"
  obtain q n where q: "de_record env v (rg_native ?reg) = (q, n)" by fastforce
  then show ?case
  proof (cases q)
    case (Inr u)
    then have "publish_values env vs (?reg\<lparr>rg_native := n\<rparr>) = (r, reg')" using Cons.prems q by (simp add: Let_def)
    from Cons.IH [OF this] show ?thesis by auto
  qed (use Cons.prems q in \<open>auto simp: Let_def\<close>)
qed simp

text \<open>What an operation on a prepared diagnostic may change.\<close>

definition keeps_to :: "('v, 'b) prepared_diagnostic \<Rightarrow> ('v, 'b, 'n) registry \<Rightarrow> ('v, 'b, 'n) registry \<Rightarrow> bool" where
  "keeps_to p reg reg' \<longleftrightarrow>
     (\<forall>k. k \<notin> diagnostic_footprint p \<longrightarrow> diagnostic_artifact reg' k = diagnostic_artifact reg k)
     \<and> (\<forall>i. i \<noteq> ef_identity (pd_effect p) \<longrightarrow> diagnostic_staged reg' i = diagnostic_staged reg i)"

lemma keeps_to_trans: "keeps_to p reg mid \<Longrightarrow> keeps_to p mid reg' \<Longrightarrow> keeps_to p reg reg'"
  by (simp add: keeps_to_def)

lemma keeps_to_native: "keeps_to p reg (reg'\<lparr>rg_native := n\<rparr>) = keeps_to p reg reg'"
  by (simp add: keeps_to_def diagnostic_artifact_def diagnostic_staged_def cong: sum.case_cong)

lemma forget_staged_keeps: "keeps_to p reg (forget_staged (ef_identity (pd_effect p)) reg)"
  by (simp add: keeps_to_def diagnostic_artifact_def diagnostic_staged_def forget_staged_def cong: sum.case_cong)

lemma forget_staged_staged [simp]: "diagnostic_staged (forget_staged i reg) i = None"
  by (simp add: diagnostic_staged_def forget_staged_def)

lemma publish_callback_keeps:
  assumes "publish_callback env (pd_effect p) (pd_values p) reg = (r, reg')"
    and "diagnostic_staged reg (ef_identity (pd_effect p)) = Some (diagnostic_temporary p)"
  shows "keeps_to p reg reg' \<and> (r = Inr () \<longrightarrow> diagnostic_staged reg' (ef_identity (pd_effect p)) = None)"
proof -
  let ?i = "ef_identity (pd_effect p)"
  have staged: "map_of (rg_pending_baselines reg) ?i = Some (pd_updates p)"
    using assms(2) by (auto simp: diagnostic_staged_def diagnostic_temporary_def Let_def split: if_splits)
  let ?reg = "reg\<lparr>rg_baselines := foldl (\<lambda>d (k, v). dict_default k v d) (rg_baselines reg) (pd_updates p)\<rparr>"
  obtain q mid where q: "publish_values env (pd_values p) ?reg = (q, mid)" by fastforce
  have mid: "keeps_to p reg mid"
    using publish_values_keep [OF q]
    by (auto simp: keeps_to_def diagnostic_artifact_def diagnostic_staged_def dict_defaults_keep
        split: sum.splits)
  show ?thesis
  proof (cases q)
    case (Inl f)
    then show ?thesis using assms(1) q mid by (auto simp: publish_callback_def publish_diagnostics_def staged)
  next
    case (Inr u)
    have "keeps_to p reg (forget_staged ?i mid)" using mid forget_staged_keeps keeps_to_trans by blast
    moreover have "diagnostic_staged (reg'\<lparr>rg_native := n\<rparr>) i = diagnostic_staged reg' i" for reg' :: "('a, 'b, 'c) registry" and n i
      by (simp add: diagnostic_staged_def)
    ultimately show ?thesis
      using assms(1) q Inr
      by (auto simp: publish_callback_def publish_diagnostics_def staged keeps_to_native split: prod.splits if_splits)
  qed
qed

lemma restore_diagnostics_keeps:
  assumes "restore_diagnostics p reg = (r, reg')"
  shows "keeps_to p reg reg'
     \<and> (r = Inr () \<longrightarrow> diagnostic_staged reg' (ef_identity (pd_effect p)) = None
          \<and> (\<forall>k \<in> diagnostic_footprint p. diagnostic_artifact reg' k = diagnostic_base p k))"
proof -
  let ?ts = "map dg_token (pd_values p)" and ?ks = "map fst (pd_updates p)"
  obtain q ds where q: "put_all_back ''diagnostic rollback lost its prior accepted payload'' (pd_existed p) (pd_previous p)
      ?ts (rg_diagnostics reg) = (q, ds)" by fastforce
  let ?reg = "reg\<lparr>rg_diagnostics := ds\<rparr>"
  have ds: "keeps_to p reg ?reg"
    using put_all_back_keeps [OF q]
    by (auto simp: keeps_to_def diagnostic_artifact_def diagnostic_staged_def split: sum.splits)
  show ?thesis
  proof (cases q)
    case (Inl f)
    then show ?thesis using assms q ds by (auto simp: restore_diagnostics_def)
  next
    case (Inr u)
    obtain q2 bs where q2: "put_all_back ''diagnostic rollback lost its prior baseline'' (pd_baseline_existed p)
        (pd_previous_baselines p) ?ks (rg_baselines ?reg) = (q2, bs)" by fastforce
    let ?reg2 = "?reg\<lparr>rg_baselines := bs\<rparr>"
    have "keeps_to p ?reg ?reg2"
      using put_all_back_keeps [OF q2]
      by (auto simp: keeps_to_def diagnostic_artifact_def diagnostic_staged_def split: sum.splits)
    then have bs: "keeps_to p reg ?reg2" using ds keeps_to_trans by blast
    show ?thesis
    proof (cases q2)
      case (Inl f)
      then show ?thesis using assms q Inr q2 bs by (auto simp: restore_diagnostics_def)
    next
      case (Inr u2)
      then have reg': "reg' = forget_staged (ef_identity (pd_effect p)) ?reg2"
        using assms q \<open>q = Inr u\<close> q2 by (simp add: restore_diagnostics_def)
      have "map_of ds t = remembered (pd_existed p) (pd_previous p) t" if "t \<in> dg_token ` set (pd_values p)" for t
        using put_all_back_value q \<open>q = Inr u\<close> that by fastforce
      moreover have "map_of bs k = remembered (pd_baseline_existed p) (pd_previous_baselines p) k"
        if "k \<in> fst ` set (pd_updates p)" for k
        using put_all_back_value q2 Inr that by fastforce
      ultimately have "diagnostic_artifact reg' k = diagnostic_base p k" if "k \<in> diagnostic_footprint p" for k
        using that by (cases k) (simp_all add: reg' diagnostic_artifact_def diagnostic_base_def forget_staged_def)
      then show ?thesis using keeps_to_trans [OF bs forget_staged_keeps] by (simp add: reg')
    qed
  qed
qed

lemma restore_diagnostics_total:
  assumes "diagnostic_consistent p"
  obtains reg' where "restore_diagnostics p reg = (Inr (), reg')"
proof -
  have known: "remembers (pd_existed p) (pd_previous p) (set (map dg_token (pd_values p)))"
    "remembers (pd_baseline_existed p) (pd_previous_baselines p) (set (map fst (pd_updates p)))"
    using assms by (simp_all add: diagnostic_consistent_def)
  obtain ds where ds: "put_all_back ''diagnostic rollback lost its prior accepted payload'' (pd_existed p) (pd_previous p)
      (map dg_token (pd_values p)) (rg_diagnostics reg) = (Inr (), ds)"
    using put_all_back_total [OF known(1)] by blast
  obtain bs where "put_all_back ''diagnostic rollback lost its prior baseline'' (pd_baseline_existed p)
      (pd_previous_baselines p) (map fst (pd_updates p)) (rg_baselines reg) = (Inr (), bs)"
    using put_all_back_total [OF known(2)] by blast
  with ds have "restore_diagnostics p reg
      = (Inr (), forget_staged (ef_identity (pd_effect p)) (reg\<lparr>rg_diagnostics := ds, rg_baselines := bs\<rparr>))"
    by (simp add: restore_diagnostics_def)
  then show ?thesis by (rule that)
qed

section \<open>The publisher keeps the contract\<close>

lemma map_of_keyed: "map_of (map (\<lambda>x. (f x, g (f x))) xs) k = (if k \<in> f ` set xs then Some (g k) else None)"
  by (induction xs) auto

lemma prepare_diagnostic_value:
  fixes env :: "('v, 'b, 'n) diagnostics_env"
  assumes "prepare_diagnostic env e reg = (Inr (Exact p), reg')"
  shows "pd_effect p = e \<and> diagnostic_phase p = Temporary \<and> diagnostic_artifact reg' = diagnostic_artifact reg
       \<and> (\<forall>k \<in> diagnostic_footprint p. diagnostic_base p k = diagnostic_artifact reg k)
       \<and> diagnostic_footprint p \<subseteq> diagnostic_keys env (ef_identity e)
       \<and> diagnostic_staged reg' = (diagnostic_staged reg)(ef_identity e \<mapsto> diagnostic_temporary p)"
proof -
  obtain vs us where v: "de_values env e reg = Inr (vs, us)"
    using assms by (auto simp: prepare_diagnostic_def split: sum.splits)
  have p: "pd_effect p = e" "pd_values p = vs" "pd_updates p = us" "\<not> pd_published p" "\<not> pd_discarded p"
      "pd_previous p = map (\<lambda>v. (dg_token v, map_of (rg_diagnostics reg) (dg_token v))) vs"
      "pd_existed p = map (\<lambda>v. (dg_token v, map_of (rg_diagnostics reg) (dg_token v) \<noteq> None)) vs"
      "pd_previous_baselines p = map (\<lambda>x. (fst x, map_of (rg_baselines reg) (fst x))) us"
      "pd_baseline_existed p = map (\<lambda>x. (fst x, map_of (rg_baselines reg) (fst x) \<noteq> None)) us"
    and reg': "reg' = reg\<lparr>rg_pending := dict_set (ef_identity e) vs (rg_pending reg),
               rg_pending_baselines := dict_set (ef_identity e) us (rg_pending_baselines reg)\<rparr>"
    using assms by (auto simp: prepare_diagnostic_def v case_prod_unfold)
  note previous = map_of_keyed [of dg_token "map_of (rg_diagnostics reg)" vs]
    map_of_keyed [of dg_token "\<lambda>t. map_of (rg_diagnostics reg) t \<noteq> None" vs]
    map_of_keyed [of fst "map_of (rg_baselines reg)" us] map_of_keyed [of fst "\<lambda>t. map_of (rg_baselines reg) t \<noteq> None" us]
  have consistent: "diagnostic_consistent p"
    by (auto simp: diagnostic_consistent_def remembers_def p previous simp del: not_None_eq)
  have base: "diagnostic_base p k = diagnostic_artifact reg k" if "k \<in> diagnostic_footprint p" for k
    using that
    by (cases k) (auto simp: diagnostic_base_def diagnostic_artifact_def remembered_def p previous simp del: not_None_eq)
  have "diagnostic_footprint p \<subseteq> diagnostic_keys env (ef_identity e)"
    using v p(2,3) unfolding diagnostic_keys_def diagnostic_footprint_def by blast
  moreover have "diagnostic_staged reg' = (diagnostic_staged reg)(ef_identity e \<mapsto> diagnostic_temporary p)"
    by (auto simp: reg' diagnostic_staged_def diagnostic_temporary_def p fun_eq_iff)
  moreover have "diagnostic_artifact reg' = diagnostic_artifact reg"
    by (auto simp: reg' diagnostic_artifact_def fun_eq_iff split: sum.splits)
  ultimately show ?thesis using consistent base p by (auto simp: diagnostic_phase_def)
qed

lemma keeps_to_confined:
  assumes "keeps_to p reg reg'" and "pd_effect p' = pd_effect p" and "pd_values p' = pd_values p" and "pd_updates p' = pd_updates p"
    and "pd_existed p' = pd_existed p" and "pd_previous p' = pd_previous p"
    and "pd_baseline_existed p' = pd_baseline_existed p" and "pd_previous_baselines p' = pd_previous_baselines p"
  shows "confined (ef_identity \<circ> pd_effect) diagnostic_base diagnostic_footprint diagnostic_temporary diagnostic_artifact
           diagnostic_staged p reg p' reg'"
  using assms
  by (auto simp: confined_def keeps_to_def diagnostic_base_def diagnostic_footprint_def diagnostic_temporary_def fun_eq_iff
      split: sum.splits)

abbreviation diagnostic_within ::
  "('v, 'b) prepared_diagnostic \<Rightarrow> ('v, 'b, 'n) registry \<Rightarrow> ('v, 'b) prepared_diagnostic \<Rightarrow> ('v, 'b, 'n) registry \<Rightarrow> bool" where
  "diagnostic_within \<equiv> confined (ef_identity \<circ> pd_effect) diagnostic_base diagnostic_footprint diagnostic_temporary
      diagnostic_artifact diagnostic_staged"

abbreviation diagnostic_clean :: "('v, 'b) prepared_diagnostic \<Rightarrow> ('v, 'b, 'n) registry \<Rightarrow> bool" where
  "diagnostic_clean \<equiv> clean (ef_identity \<circ> pd_effect) diagnostic_base diagnostic_footprint diagnostic_artifact diagnostic_staged"

lemma flags_irrelevant [simp]:
  "diagnostic_consistent (p\<lparr>pd_published := a\<rparr>) = diagnostic_consistent p"
  "diagnostic_consistent (p\<lparr>pd_discarded := a\<rparr>) = diagnostic_consistent p"
  "diagnostic_base (p\<lparr>pd_published := a\<rparr>) = diagnostic_base p"
  "diagnostic_base (p\<lparr>pd_discarded := a\<rparr>) = diagnostic_base p"
  "diagnostic_footprint (p\<lparr>pd_published := a\<rparr>) = diagnostic_footprint p"
  "diagnostic_footprint (p\<lparr>pd_discarded := a\<rparr>) = diagnostic_footprint p"
  by (auto simp: diagnostic_consistent_def diagnostic_base_def diagnostic_footprint_def fun_eq_iff split: sum.splits)

lemma keeps_to_refl [simp]: "keeps_to p reg reg"
  by (simp add: keeps_to_def)

lemma restored_clean:
  "restore_diagnostics p reg = (Inr (), reg') \<Longrightarrow> diagnostic_clean (p\<lparr>pd_published := a, pd_discarded := b\<rparr>) reg'"
  using restore_diagnostics_keeps [of p reg "Inr ()" reg'] by (simp add: clean_def)

lemma publish_diagnostic_law:
  assumes "diagnostic_phase p = Temporary"
    and "diagnostic_staged reg (ef_identity (pd_effect p)) = Some (diagnostic_temporary p)"
    and "publish_diagnostic env p reg = (r, p', reg')"
  shows "diagnostic_within p reg p' reg'
     \<and> (case r of Inr _ \<Rightarrow> diagnostic_phase p' = Visible \<and> diagnostic_staged reg' (ef_identity (pd_effect p)) = None
        | Inl _ \<Rightarrow> (diagnostic_phase p' = Gone \<longrightarrow> diagnostic_clean p' reg')
                \<and> (diagnostic_phase p' = Temporary \<longrightarrow> (\<forall>k \<in> diagnostic_footprint p'. diagnostic_artifact reg' k = diagnostic_base p' k)))"
proof -
  have fresh: "\<not> pd_published p" "\<not> pd_discarded p" "diagnostic_consistent p"
    using assms(1) by (auto simp: diagnostic_phase_def split: if_splits)
  obtain q mid where q: "publish_callback env (pd_effect p) (pd_values p) reg = (q, mid)" by fastforce
  note mid = publish_callback_keeps [OF q assms(2)]
  show ?thesis
  proof (cases q)
    case (Inl f)
    obtain reg2 where reg2: "restore_diagnostics p mid = (Inr (), reg2)"
      using restore_diagnostics_total [OF fresh(3)] .
    have p': "p' = p\<lparr>pd_published := False, pd_discarded := True\<rparr>" "reg' = reg2" "r = Inl f"
      using assms(3) fresh q Inl reg2 by (auto simp: publish_diagnostic_def)
    have "keeps_to p reg reg2" using mid restore_diagnostics_keeps [OF reg2] keeps_to_trans by blast
    then show ?thesis using restored_clean [OF reg2, where a = False and b = True]
      by (auto simp: p' diagnostic_phase_def intro!: keeps_to_confined)
  next
    case (Inr u)
    then have p': "p' = p\<lparr>pd_published := True\<rparr>" "reg' = mid"
      using assms(3) fresh q by (auto simp: publish_diagnostic_def)
    have "diagnostic_phase p' = Visible" using fresh by (simp add: p' diagnostic_phase_def)
    then show ?thesis using mid Inr by (auto simp: p' split: sum.splits intro!: keeps_to_confined)
  qed
qed

lemma discard_diagnostic_law:
  assumes "diagnostic_phase p = Temporary" and "\<forall>k \<in> diagnostic_footprint p. diagnostic_artifact reg k = diagnostic_base p k"
    and "discard_diagnostic p reg = (r, p', reg')"
  shows "diagnostic_within p reg p' reg' \<and> (r = Inr () \<longrightarrow> diagnostic_clean p' reg')"
proof -
  have p': "p' = p\<lparr>pd_discarded := True\<rparr>" "reg' = forget_staged (ef_identity (pd_effect p)) reg"
    using assms(1,3) by (auto simp: diagnostic_phase_def discard_diagnostic_def split: if_splits)
  have same: "diagnostic_artifact (forget_staged i reg) = diagnostic_artifact reg" for i
    by (auto simp: diagnostic_artifact_def forget_staged_def fun_eq_iff split: sum.splits)
  show ?thesis
    using assms(2) forget_staged_keeps [of p reg] by (auto simp: p' clean_def same intro!: keeps_to_confined)
qed

lemma rollback_diagnostic_law:
  assumes "diagnostic_phase p = Gone \<Longrightarrow> diagnostic_clean p reg"
    and "diagnostic_phase p = Temporary \<Longrightarrow> \<forall>k \<in> diagnostic_footprint p. diagnostic_artifact reg k = diagnostic_base p k"
    and "rollback_diagnostic p reg = (r, p', reg')"
  shows "diagnostic_within p reg p' reg' \<and> (r = Inr () \<longrightarrow> diagnostic_clean p' reg')"
proof -
  have same: "diagnostic_artifact (forget_staged i reg) = diagnostic_artifact reg" for i
    by (auto simp: diagnostic_artifact_def forget_staged_def fun_eq_iff split: sum.splits)
  consider (discarded) "pd_discarded p" | (published) "\<not> pd_discarded p" "pd_published p"
    | (fresh) "\<not> pd_discarded p" "\<not> pd_published p" by blast
  then show ?thesis
  proof cases
    case discarded
    then show ?thesis
      using assms(1,3) by (auto simp: rollback_diagnostic_def diagnostic_phase_def intro!: keeps_to_confined)
  next
    case published
    obtain q reg2 where q: "restore_diagnostics p reg = (q, reg2)" by fastforce
    then show ?thesis
      using assms(3) published restore_diagnostics_keeps [OF q] restored_clean [where p = p and reg = reg and reg' = reg2 and a = False and b = True]
      by (cases q) (auto simp: rollback_diagnostic_def intro!: keeps_to_confined)
  next
    case fresh
    then have p': "p' = p\<lparr>pd_published := False, pd_discarded := True\<rparr>" "reg' = forget_staged (ef_identity (pd_effect p)) reg"
      using assms(3) by (auto simp: rollback_diagnostic_def)
    have "\<forall>k \<in> diagnostic_footprint p. diagnostic_artifact reg k = diagnostic_base p k"
      using assms(1,2) fresh by (cases "diagnostic_consistent p") (auto simp: diagnostic_phase_def clean_def)
    then show ?thesis
      using forget_staged_keeps [of p reg] by (auto simp: p' clean_def same intro!: keeps_to_confined)
  qed
qed

interpretation diagnostics: compensating_publisher
  "diagnostics_publisher env :: (('v, 'b) prepared_diagnostic, 'r, ('v, 'b, 'n) registry) publisher"
  diagnostic_phase diagnostic_base diagnostic_footprint "diagnostic_keys env" diagnostic_artifact diagnostic_temporary
  diagnostic_staged
  for env :: "('v, 'b, 'n) diagnostics_env"
proof (unfold_locales, goal_cases)
  case (1 e reg p reg')
  then show ?case using prepare_diagnostic_value [of env e reg p reg'] by simp
next
  case (2 e reg r reg')
  then show ?case by (auto simp: prepare_diagnostic_def split: sum.splits)
next
  case (3 p reg r p' reg')
  then show ?case using publish_diagnostic_law [of p reg env r p' reg'] by (cases r) simp_all
next
  case (4 p reg r p' reg')
  then show ?case using discard_diagnostic_law [of p reg r p' reg'] by simp
next
  case (5 p reg r p' reg')
  then show ?case using rollback_diagnostic_law [of p reg r p' reg'] by simp
qed

section \<open>Transactions over the diagnostics publisher\<close>

text \<open>
  Claim C4. A transaction of diagnostics is all or nothing. When it cannot be staged, cannot be
  accepted, is rejected or is compensated after acceptance, the accepted diagnostics, the baselines
  and the staged values are what they were, unless the report of the failure names a clean-up that
  went wrong besides the failure itself. When it is accepted, nothing stays staged and only keys of
  published effects have changed. The effects may not share a diagnostic or a baseline, and none of
  them is staged already.\<close>

theorem diagnostics_all_or_nothing:
  fixes env :: "('v, 'b, 'n) diagnostics_env" and w :: "('v, 'b, 'n) registry"
  defines "P \<equiv> diagnostics_publisher env :: (('v, 'b) prepared_diagnostic, 'r, ('v, 'b, 'n) registry) publisher"
  assumes "new_transaction P plan cs w = (q, t, w1)"
    and "distinct (map ef_identity (pl_effects plan))"
    and "\<forall>d \<in> set (pl_effects plan). \<forall>e \<in> set (pl_effects plan). ef_identity d \<noteq> ef_identity e \<longrightarrow>
           diagnostic_keys env (ef_identity d) \<inter> diagnostic_keys env (ef_identity e) = {}"
    and "\<forall>e \<in> set (pl_effects plan). diagnostic_staged w (ef_identity e) = None"
  shows "let same = (\<lambda>w'. diagnostic_artifact w' = diagnostic_artifact w \<and> diagnostic_staged w' = diagnostic_staged w);
             clean_failure = (\<lambda>f. \<exists>m rp. f = PublicationError m rp \<and> length (rp_diagnostics rp) = 1)
         in (\<forall>f. q = Inl f \<longrightarrow> clean_failure f \<longrightarrow> same w1)
          \<and> (q = Inr () \<longrightarrow>
               (\<forall>rp t2 w2. reject P t w1 = (Inr rp, t2, w2) \<longrightarrow> same w2)
             \<and> (\<forall>f t2 w2. accept P t w1 = (Inl f, t2, w2) \<longrightarrow> clean_failure f \<longrightarrow> same w2)
             \<and> (\<forall>rp t2 w2. accept P t w1 = (Inr rp, t2, w2) \<longrightarrow>
                   diagnostic_staged w2 = diagnostic_staged w
                 \<and> (\<forall>k. (\<forall>rc \<in> set (rp_published rp). k \<notin> diagnostic_keys env (rc_effect rc))
                          \<longrightarrow> diagnostic_artifact w2 k = diagnostic_artifact w k)
                 \<and> (\<forall>rp' t3 w3. rollback_accepted P t2 w2 = (Inr rp', t3, w3) \<longrightarrow> same w3)))"
proof -
  have "keys_apart (diagnostic_keys env) (map ef_identity (pl_effects plan))"
    using assms(3,4) by (auto simp: keys_apart_def)
  from diagnostics.transaction_all_or_nothing [OF assms(2) [unfolded P_def] this assms(5)] show ?thesis
    unfolding diagnostics.settled_iff P_def Let_def .
qed

text \<open>
  Claim C10. Whatever the publisher does, a transaction that was staged and accepted has served every
  effect of its plan exactly once: it published it, in plan order and with a receipt that names
  the effect, its payload and its parallel mode, or it skipped and reported it, which only an effect
  that asks for that can be. The cursors of the report are the given ones advanced by the published
  effects, and so are the cursor updates.\<close>

theorem accepted_transaction_serves_exactly:
  assumes "new_transaction P plan cs w = (Inr (), t, w1)" and "accept P t w1 = (Inr rp, t', w')" and "cursors_ok cs"
  shows "\<exists>published skipped.
      mset (pl_effects plan) = mset published + mset skipped \<and> subseq published (pl_effects plan)
    \<and> list_all2 authentic published (rp_published rp)
    \<and> map sk_effect (rp_skipped rp) = map ef_identity skipped
    \<and> (\<forall>e \<in> set skipped. ef_action e = Skip_Sample_Reported)
    \<and> cursor_of (rp_cursors rp) = advance published (cursor_of cs)
    \<and> cursor_updates t' = Inr (map ef_after published)"
  using accepted_serves_exactly [OF assms] by (auto simp: served_exactly_def skips_def)

section \<open>Concrete transactions\<close>

text \<open>Two consumers; the diagnostic of an effect is registered under the effect's token.\<close>

definition sample_effect :: "nat \<Rightarrow> string \<Rightarrow> failure_action \<Rightarrow> effect" where
  "sample_effect n name action =
     \<lparr>ef_ordinal = n, ef_consumer = name, ef_manifest = ''manifest'', ef_uri = ''target'', ef_mode = Serial,
      ef_payload = \<lparr>py_identity = name @ ''-payload'', py_occurrence = name @ ''-now''\<rparr>, ef_action = action,
      ef_before = \<lparr>cu_consumer = name, cu_last = None, cu_samples = 0\<rparr>,
      ef_after = \<lparr>cu_consumer = name, cu_last = Some (name @ ''-now''), cu_samples = 1\<rparr>,
      ef_identity = name @ ''-effect''\<rparr>"

definition sample_plan :: "failure_action \<Rightarrow> plan" where
  "sample_plan action =
     \<lparr>pl_graph = ''graph'', pl_runtime = ''runtime'',
      pl_effects = [sample_effect 0 ''mass'' Fail_Run, sample_effect 1 ''energy'' action]\<rparr>"

text \<open>Preparing fails on the second consumer, or recording it does, with a given fault.\<close>

definition sample_env :: "fault option \<Rightarrow> fault option \<Rightarrow> (nat, unit, unit) diagnostics_env" where
  "sample_env preparing recording =
     \<lparr>de_values = (\<lambda>e reg. case preparing of
          Some f \<Rightarrow> if ef_consumer e = ''energy'' then Inl f else Inr ([\<lparr>dg_token = ef_identity e, dg_value = 1\<rparr>], [])
        | None \<Rightarrow> Inr ([\<lparr>dg_token = ef_identity e, dg_value = 1\<rparr>], [])),
      de_record = (\<lambda>v n. case recording of
          Some f \<Rightarrow> if dg_token v = ''energy-effect'' then (Inl f, n) else (Inr (), n)
        | None \<Rightarrow> (Inr (), n)),
      de_console = (\<lambda>_. False), de_render = (\<lambda>_ _ n. (Inr (), n)), de_artifact = (\<lambda>e _. ef_identity e)\<rparr>"

definition sample_registry :: "(nat, unit, unit) registry" where
  "sample_registry = \<lparr>rg_pending = [], rg_pending_baselines = [], rg_diagnostics = [], rg_baselines = [], rg_native = ()\<rparr>"

definition sample_publisher ::
  "fault option \<Rightarrow> fault option \<Rightarrow> ((nat, unit) prepared_diagnostic, unit, (nat, unit, unit) registry) publisher" where
  "sample_publisher preparing recording = diagnostics_publisher (sample_env preparing recording)"

definition sample_staged :: "fault option \<Rightarrow> failure_action \<Rightarrow> ((nat, unit) prepared_diagnostic, unit) tx \<times> (nat, unit, unit) registry" where
  "sample_staged recording action =
     snd (new_transaction (sample_publisher None recording) (sample_plan action) [] sample_registry)"

text \<open>The transaction of the sample plan once it is staged, and the world it is staged in.\<close>

definition sample_tx :: "fault option \<Rightarrow> failure_action \<Rightarrow> ((nat, unit) prepared_diagnostic, unit) tx" where
  "sample_tx recording action =
     fst (snd (new_transaction (sample_publisher None recording) (sample_plan action) [] sample_registry))"

definition sample_world :: "fault option \<Rightarrow> failure_action \<Rightarrow> (nat, unit, unit) registry" where
  "sample_world recording action =
     snd (snd (new_transaction (sample_publisher None recording) (sample_plan action) [] sample_registry))"

definition disk_full :: fault where
  "disk_full = Raised ''OSError'' ''full''"

lemma sample_new:
  "fst (new_transaction (sample_publisher None (Some disk_full)) (sample_plan Fail_Run) [] sample_registry) = Inr ()"
  "fst (new_transaction (sample_publisher None None) (sample_plan Fail_Run) [] sample_registry) = Inr ()"
  by code_simp+

lemma sample_refused:
  "case accept (sample_publisher None (Some disk_full)) (sample_tx (Some disk_full) Fail_Run) (sample_world (Some disk_full) Fail_Run) of
     (Inl (PublicationError m rp), _, w) \<Rightarrow> length (rp_diagnostics rp) = 1 | _ \<Rightarrow> False"
  by code_simp

lemma sample_accepted:
  "case accept (sample_publisher None None) (sample_tx None Fail_Run) (sample_world None Fail_Run) of
     (Inr rp, _, w) \<Rightarrow> map rc_effect (rp_published rp) = [''mass-effect'', ''energy-effect''] | _ \<Rightarrow> False"
  by code_simp

lemma sample_keys: "diagnostic_keys (sample_env None recording) i \<subseteq> {Inl i}"
  by (auto simp: diagnostic_keys_def sample_env_def)

text \<open>A recorder that fails on the second diagnostic takes the first one back.\<close>

theorem diagnostics_all_or_nothing_witness:
  "\<exists>m rp t w. accept (sample_publisher None (Some disk_full)) (sample_tx (Some disk_full) Fail_Run)
        (sample_world (Some disk_full) Fail_Run) = (Inl (PublicationError m rp), t, w)
     \<and> diagnostic_artifact w = diagnostic_artifact sample_registry \<and> diagnostic_staged w = diagnostic_staged sample_registry"
proof -
  let ?P = "diagnostics_publisher (sample_env None (Some disk_full)) ::
      ((nat, unit) prepared_diagnostic, unit, (nat, unit, unit) registry) publisher"
  let ?t = "sample_tx (Some disk_full) Fail_Run" and ?w = "sample_world (Some disk_full) Fail_Run"
  have new: "new_transaction ?P (sample_plan Fail_Run) [] sample_registry = (Inr (), ?t, ?w)"
    using sample_new(1) by (simp add: sample_tx_def sample_world_def sample_publisher_def prod_eq_iff)
  obtain f t w where f: "accept ?P ?t ?w = (f, t, w)" by (metis surj_pair)
  have "case f of Inl (PublicationError m rp) \<Rightarrow> length (rp_diagnostics rp) = 1 | _ \<Rightarrow> False"
    using sample_refused f unfolding sample_publisher_def by (simp split: sum.splits fault.splits)
  then obtain m rp where rp: "f = Inl (PublicationError m rp)" "length (rp_diagnostics rp) = 1"
    by (auto split: sum.splits fault.splits)
  have "distinct (map ef_identity (pl_effects (sample_plan Fail_Run)))" by code_simp
  moreover have "\<forall>d \<in> set (pl_effects (sample_plan Fail_Run)). \<forall>e \<in> set (pl_effects (sample_plan Fail_Run)).
      ef_identity d \<noteq> ef_identity e \<longrightarrow>
      diagnostic_keys (sample_env None (Some disk_full)) (ef_identity d)
        \<inter> diagnostic_keys (sample_env None (Some disk_full)) (ef_identity e) = {}"
    using sample_keys by blast
  moreover have "\<forall>e \<in> set (pl_effects (sample_plan Fail_Run)). diagnostic_staged sample_registry (ef_identity e) = None"
    by (simp add: diagnostic_staged_def sample_registry_def)
  ultimately have "diagnostic_artifact w = diagnostic_artifact sample_registry \<and> diagnostic_staged w = diagnostic_staged sample_registry"
    using diagnostics_all_or_nothing [OF new] f rp by (simp add: Let_def)
  then show ?thesis using f rp(1) unfolding sample_publisher_def by blast
qed

theorem accepted_transaction_serves_exactly_witness:
  "\<exists>rp t w. accept (sample_publisher None None) (sample_tx None Fail_Run) (sample_world None Fail_Run) = (Inr rp, t, w)
     \<and> length (rp_published rp) = 2 \<and> rp_skipped rp = []"
proof -
  let ?P = "sample_publisher None None" and ?t = "sample_tx None Fail_Run" and ?w = "sample_world None Fail_Run"
  have new: "new_transaction ?P (sample_plan Fail_Run) [] sample_registry = (Inr (), ?t, ?w)"
    using sample_new(2) by (simp add: sample_tx_def sample_world_def prod_eq_iff)
  obtain f t w where f: "accept ?P ?t ?w = (f, t, w)" by (metis surj_pair)
  then obtain rp where rp: "f = Inr rp" "map rc_effect (rp_published rp) = [''mass-effect'', ''energy-effect'']"
    using sample_accepted by (auto split: sum.splits)
  have "cursors_ok []" by (simp add: cursors_ok_def)
  from accepted_transaction_serves_exactly [OF new f [unfolded rp(1)] this]
  obtain published skipped where "mset (pl_effects (sample_plan Fail_Run)) = mset published + mset skipped"
      "map sk_effect (rp_skipped rp) = map ef_identity skipped" "\<forall>e \<in> set skipped. ef_action e = Skip_Sample_Reported"
    by blast
  moreover from this(1) have "set skipped \<subseteq> set (pl_effects (sample_plan Fail_Run))"
    by (metis le_add2 mset_subset_eq_add_right set_mset_mono set_mset_mset mset_subset_eqD subsetI)
  ultimately have "skipped = []"
    by (cases skipped) (auto simp: sample_plan_def sample_effect_def)
  then have "rp_skipped rp = []" using \<open>map sk_effect (rp_skipped rp) = map ef_identity skipped\<close> by simp
  then show ?thesis using f rp by (metis length_map length_Cons list.size(3) numeral_2_eq_2)
qed

text \<open>
  An exception outside Python's \<open>Exception\<close>, such as a keyboard interrupt during the second
  publication, leaves \<open>accept\<close> with the first publication made and the transaction still staged, but
  with no row to discard: the \<open>abort\<close> that the runtime then calls rejects the transaction with a clean
  report, and the first publication stays.\<close>

theorem interrupted_accept_is_not_compensated:
  "let stop = Some (Interrupted ''KeyboardInterrupt'' []); P = sample_publisher None stop in
   case accept P (sample_tx stop Fail_Run) (sample_world stop Fail_Run) of
     (Inl (Interrupted _ _), t, w) \<Rightarrow>
       (case abort P t w of
          (Inr (Some rp), _, w') \<Rightarrow>
            rp_status rp = Rejected \<and> rp_diagnostics rp = [] \<and> map fst (rg_diagnostics w') = [''mass-effect'']
        | _ \<Rightarrow> False)
   | _ \<Rightarrow> False"
  by code_simp

text \<open>
  A consumer that asks for its sample to be skipped, and whose preparation raises an
  exception with an empty message, is not skipped: the report refuses the reason text, whose last character is
  then a space. The \<open>TypeError\<close> leaves the constructor, and what was prepared before it stays
  staged.\<close>

theorem empty_message_is_not_skipped:
  "case new_transaction (sample_publisher (Some (Raised ''TimeoutError'' [])) None) (sample_plan Skip_Sample_Reported) []
          sample_registry of
     (Inl (Raised kind _), _, w) \<Rightarrow> kind = ''TypeError'' \<and> map fst (rg_pending w) = [''mass-effect'']
   | _ \<Rightarrow> False"
  by code_simp

end
