(* ===== verification/Pops_Encoding.thy ===== *)
theory Pops_Encoding
  imports Pops_Prelude "HOL-Library.Word" "HOL-Library.FSet" "HOL-Library.Finite_Map"
    "HOL-Library.List_Lexorder" "HOL-Library.Product_Lexorder"
begin

text \<open>
  The canonical bytes every identity digests (\<open>python/pops/identity/encoding.py\<close>): strict deterministic
  CBOR of a closed value language.

  Containers are Python objects with an identity, which the code uses to refuse reference cycles; so
  a value is a leaf or a reference into a store of containers. What a value means is the relation
  \<open>denotes\<close> into the free values \<open>cval\<close>, where a mapping is a finite map and a set a finite set.
\<close>

unbundle bit_operations_syntax

section \<open>Bytes\<close>

type_synonym byte = "8 word"

text \<open>\<open>bytes((n,))\<close>, for a number below 256.\<close>

definition byte :: "nat \<Rightarrow> byte" where
  "byte n = of_nat n"

text \<open>\<open>int.to_bytes(k, "big")\<close>.\<close>

fun to_bytes :: "nat \<Rightarrow> nat \<Rightarrow> byte list" where
  "to_bytes 0 n = []"
| "to_bytes (Suc k) n = to_bytes k (n div 256) @ [byte (n mod 256)]"

text \<open>The UTF-8 bytes of a code point (\<open>str.encode\<close>); a surrogate has none. No code point exceeds 0x10FFFF.\<close>

definition encodable_char :: "nat \<Rightarrow> bool" where
  "encodable_char c \<longleftrightarrow> c \<le> 0x10FFFF \<and> \<not> (0xD800 \<le> c \<and> c \<le> 0xDFFF)"

definition utf8_char :: "nat \<Rightarrow> byte list" where
  "utf8_char c =
     (if c < 0x80 then [byte c]
      else if c < 0x800 then [byte (0xC0 + c div 64), byte (0x80 + c mod 64)]
      else if c < 0x10000 then
        [byte (0xE0 + c div 4096), byte (0x80 + c div 64 mod 64), byte (0x80 + c mod 64)]
      else
        [byte (0xF0 + c div 262144), byte (0x80 + c div 4096 mod 64), byte (0x80 + c div 64 mod 64),
         byte (0x80 + c mod 64)])"

definition utf8 :: "nat list \<Rightarrow> byte list result" where
  "utf8 s = raise_if (\<not> list_all encodable_char s) ValueError (Inr (concat (map utf8_char s)))"

section \<open>Values in a store\<close>

datatype pyval =
    ONone
  | OBool bool
  | OInt int
  | OText "nat list"
  | OBytes "byte list"
  | OFloat
  | OOpaque
  | ORef nat

datatype container =
    CList "pyval list"
  | CDict "(pyval \<times> pyval) list"
  | CSet "pyval list"

type_synonym store = "(nat \<times> container) list"

text \<open>A dictionary never holds a key twice.\<close>

definition store_ok :: "store \<Rightarrow> bool" where
  "store_ok h \<longleftrightarrow> (\<forall>(a, c) \<in> set h. case c of CDict es \<Rightarrow> distinct (map fst es) | _ \<Rightarrow> True)"

section \<open>The encoder\<close>

definition head :: "nat \<Rightarrow> nat \<Rightarrow> byte list result" where
  "head major argument =
     (let prefix = push_bit 5 major in
      if argument < 24 then Inr [byte (prefix OR argument)]
      else if argument \<le> 0xFF then Inr [byte (prefix OR 24), byte argument]
      else if argument \<le> 0xFFFF then Inr (byte (prefix OR 25) # to_bytes 2 argument)
      else if argument \<le> 0xFFFFFFFF then Inr (byte (prefix OR 26) # to_bytes 4 argument)
      else if argument \<le> 0xFFFFFFFFFFFFFFFF then Inr (byte (prefix OR 27) # to_bytes 8 argument)
      else Inl OverflowError)"

definition set_tag :: "byte list" where
  "set_tag = [0xd9, 0x01, 0x02]"

text \<open>Keys and members are sorted by their length, then by their bytes.\<close>

definition shortlex :: "byte list \<Rightarrow> nat \<times> byte list" where
  "shortlex b = (length b, b)"

definition framed :: "nat \<Rightarrow> nat \<Rightarrow> byte list \<Rightarrow> byte list result" where
  "framed major argument body = bindR (head major argument) (\<lambda>h. Inr (h @ body))"

definition encode_int :: "int \<Rightarrow> byte list result" where
  "encode_int i =
     raise_if (i < - (2 ^ 63) \<or> i > 2 ^ 63 - 1) OverflowError
       (if i \<ge> 0 then head 0 (nat i) else head 1 (nat (- 1 - i)))"

definition encode_str :: "nat list \<Rightarrow> byte list result" where
  "encode_str s = bindR (utf8 s) (\<lambda>encoded. framed 3 (length encoded) encoded)"

text \<open>The bodies of the three containers, over the encoder \<open>enc\<close> of what they hold.\<close>

definition encode_list :: "(pyval \<Rightarrow> byte list result) \<Rightarrow> pyval list \<Rightarrow> byte list result" where
  "encode_list enc items =
     bindR (head 4 (length items)) (\<lambda>h. bindR (traverse enc items) (\<lambda>bs. Inr (h @ concat bs)))"

definition encode_entry :: "(pyval \<Rightarrow> byte list result) \<Rightarrow> pyval \<times> pyval \<Rightarrow> (byte list \<times> byte list) result" where
  "encode_entry enc = (\<lambda>(key, item).
     case key of
       OText s \<Rightarrow> bindR (encode_str s) (\<lambda>key_bytes. bindR (enc item) (\<lambda>item_bytes. Inr (key_bytes, item_bytes)))
     | _ \<Rightarrow> Inl TypeError)"

definition encode_dict :: "(pyval \<Rightarrow> byte list result) \<Rightarrow> (pyval \<times> pyval) list \<Rightarrow> byte list result" where
  "encode_dict enc items =
     bindR (traverse (encode_entry enc) items) (\<lambda>entries.
       framed 5 (length entries) (concat (map (\<lambda>(k, v). k @ v) (sort_key (\<lambda>e. shortlex (fst e)) entries))))"

definition encode_set :: "(pyval \<Rightarrow> byte list result) \<Rightarrow> pyval list \<Rightarrow> byte list result" where
  "encode_set enc items =
     bindR (traverse enc items) (\<lambda>bs.
       let bs = sort_key shortlex bs in
       raise_if (list_ex (\<lambda>(l, r). l = r) (zip bs (tl bs))) ValueError
         (bindR (framed 4 (length bs) (concat bs)) (\<lambda>b. Inr (set_tag @ b))))"

lemma encode_entry_cong [fundef_cong]:
  "x = y \<Longrightarrow> enc (snd y) = enc' (snd y) \<Longrightarrow> encode_entry enc x = encode_entry enc' y"
  by (auto simp: encode_entry_def split: prod.split pyval.split)

lemma encode_list_cong [fundef_cong]:
  "xs = ys \<Longrightarrow> (\<And>x. x \<in> set ys \<Longrightarrow> enc x = enc' x) \<Longrightarrow> encode_list enc xs = encode_list enc' ys"
  by (auto simp: encode_list_def cong: traverse_cong)

lemma encode_dict_cong [fundef_cong]:
  "xs = ys \<Longrightarrow> (\<And>x. x \<in> snd ` set ys \<Longrightarrow> enc x = enc' x) \<Longrightarrow> encode_dict enc xs = encode_dict enc' ys"
  by (auto simp: encode_dict_def intro!: bindR_cong traverse_cong encode_entry_cong)

lemma encode_set_cong [fundef_cong]:
  "xs = ys \<Longrightarrow> (\<And>x. x \<in> set ys \<Longrightarrow> enc x = enc' x) \<Longrightarrow> encode_set enc xs = encode_set enc' ys"
  by (auto simp: encode_set_def cong: traverse_cong)

text \<open>Every container entered is one fewer that may still be entered.\<close>

lemma entering_a_container:
  assumes "map_of h a = Some c" "a \<notin> set active"
  shows "length (filter (\<lambda>(i, _). i \<notin> set (a # active)) h) < length (filter (\<lambda>(i, _). i \<notin> set active) h)"
proof -
  let ?open = "filter (\<lambda>(i, _). i \<notin> set active) h"
  have "filter (\<lambda>(i, _). i \<notin> set (a # active)) h = filter (\<lambda>(i, _). i \<noteq> a) ?open"
    by (auto intro: filter_cong)
  moreover have "(a, c) \<in> set ?open" using assms by (auto dest: map_of_SomeD)
  then have "length (filter (\<lambda>(i, _). i \<noteq> a) ?open) < length ?open" by (rule length_filter_less) simp
  ultimately show ?thesis by (simp only:)
qed

text \<open>
  The encoder. \<open>active\<close> holds the containers being encoded. A reference outside the store is no Python
  object; it is treated as an opaque one.
\<close>

function encode :: "store \<Rightarrow> nat list \<Rightarrow> pyval \<Rightarrow> byte list result" where
  "encode h active ONone = Inr [0xf6]"
| "encode h active (OBool b) = Inr [if b then 0xf5 else 0xf4]"
| "encode h active (OInt i) = encode_int i"
| "encode h active (OText s) = encode_str s"
| "encode h active (OBytes bs) = framed 2 (length bs) bs"
| "encode h active OFloat = Inl TypeError"
| "encode h active OOpaque = Inl TypeError"
| "encode h active (ORef a) =
     (case map_of h a of
        None \<Rightarrow> Inl TypeError
      | Some c \<Rightarrow>
          if a \<in> set active then Inl ValueError
          else (case c of
                  CList items \<Rightarrow> encode_list (encode h (a # active)) items
                | CDict items \<Rightarrow> encode_dict (encode h (a # active)) items
                | CSet items \<Rightarrow> encode_set (encode h (a # active)) items))"
  by pat_completeness auto

termination
  by (relation "measure (\<lambda>(h, active, _). length (filter (\<lambda>(i, _). i \<notin> set active) h))")
     (auto simp only: in_measure prod.case wf_measure intro: entering_a_container)

definition canonical_bytes :: "store \<Rightarrow> pyval \<Rightarrow> byte list result" where
  "canonical_bytes h v = encode h [] v"

end
