(* ===== verification/Pops_Canonical.thy ===== *)
theory Pops_Canonical
  imports Pops_Encoding
begin

text \<open>
  The canonical bytes identify values: the encoder of \<open>Pops_Encoding\<close> returns exactly the CBOR of what its
  argument denotes, and that CBOR is prefix-free and injective. The free values and the relation
  \<open>denotes\<close> are the specification; \<open>cbor\<close> gives the bytes of a free value with the sorting of
  mappings and sets left to the library's sorted lists.
\<close>

unbundle bit_operations_syntax

section \<open>What a value means\<close>

datatype cval =
    VNull
  | VBool bool
  | VInt int
  | VText "nat list"
  | VBytes "byte list"
  | VList "cval list"
  | VMap "(nat list, cval) fmap"
  | VSet "cval fset"

inductive denotes :: "store \<Rightarrow> pyval \<Rightarrow> cval \<Rightarrow> bool" for h where
  denotes_none: "denotes h ONone VNull"
| denotes_bool: "denotes h (OBool b) (VBool b)"
| denotes_int: "denotes h (OInt i) (VInt i)"
| denotes_str: "denotes h (OText s) (VText s)"
| denotes_bytes: "denotes h (OBytes bs) (VBytes bs)"
| denotes_list: "map_of h a = Some (CList vs) \<Longrightarrow> length cs = length vs
    \<Longrightarrow> (\<And>i. i < length vs \<Longrightarrow> denotes h (vs ! i) (cs ! i)) \<Longrightarrow> denotes h (ORef a) (VList cs)"
| denotes_dict: "map_of h a = Some (CDict es) \<Longrightarrow> map fst es = map OText ks \<Longrightarrow> length cs = length es
    \<Longrightarrow> (\<And>i. i < length es \<Longrightarrow> denotes h (snd (es ! i)) (cs ! i))
    \<Longrightarrow> distinct ks \<Longrightarrow> denotes h (ORef a) (VMap (fmap_of_list (zip ks cs)))"
| denotes_set: "map_of h a = Some (CSet vs) \<Longrightarrow> length cs = length vs
    \<Longrightarrow> (\<And>i. i < length vs \<Longrightarrow> denotes h (vs ! i) (cs ! i)) \<Longrightarrow> distinct cs
    \<Longrightarrow> denotes h (ORef a) (VSet (fset_of_list cs))"

inductive_cases denotes_ref: "denotes h (ORef a) c"
inductive_simps denotes_leaf [simp]:
  "denotes h ONone c" "denotes h (OBool b) c" "denotes h (OInt i) c" "denotes h (OText s) c" "denotes h (OBytes bs) c"
  "denotes h OFloat c" "denotes h OOpaque c"

lemma denotes_unique: "denotes h v c \<Longrightarrow> denotes h v c' \<Longrightarrow> c' = c"
proof (induction arbitrary: c' rule: denotes.induct)
  case (denotes_list a vs cs)
  from denotes_list.prems denotes_list.hyps(1) obtain ds where ds: "c' = VList ds" "length ds = length vs"
      "\<And>i. i < length vs \<Longrightarrow> denotes h (vs ! i) (ds ! i)"
    by (auto elim: denotes_ref)
  have "ds = cs" using ds(2,3) denotes_list.hyps(2) denotes_list.IH by (auto intro!: nth_equalityI)
  then show ?case using ds(1) by simp
next
  case (denotes_dict a es ks cs)
  from denotes_dict.prems denotes_dict.hyps(1) obtain ks' ds where ds: "c' = VMap (fmap_of_list (zip ks' ds))"
      "map fst es = map OText ks'" "length ds = length es" "\<And>i. i < length es \<Longrightarrow> denotes h (snd (es ! i)) (ds ! i)"
    by (auto elim: denotes_ref)
  have "ds = cs" using ds(3,4) denotes_dict.hyps(3) denotes_dict.IH by (auto intro!: nth_equalityI)
  moreover have "ks' = ks" using ds(2) denotes_dict.hyps(2) by (metis injI list.inj_map_strong pyval.inject(3))
  ultimately show ?case using ds(1) by simp
next
  case (denotes_set a vs cs)
  from denotes_set.prems denotes_set.hyps(1) obtain ds where ds: "c' = VSet (fset_of_list ds)" "length ds = length vs"
      "\<And>i. i < length vs \<Longrightarrow> denotes h (vs ! i) (ds ! i)"
    by (auto elim: denotes_ref)
  have "ds = cs" using ds(2,3) denotes_set.hyps(2) denotes_set.IH by (auto intro!: nth_equalityI)
  then show ?case using ds(1) by simp
qed auto

text \<open>The nesting depth.\<close>

primrec depth :: "cval \<Rightarrow> nat" where
  "depth VNull = 0"
| "depth (VBool b) = 0"
| "depth (VInt i) = 0"
| "depth (VText s) = 0"
| "depth (VBytes bs) = 0"
| "depth (VList cs) = Suc (Max (insert 0 (set (map depth cs))))"
| "depth (VMap m) = Suc (Max (insert 0 (fset (fmran (fmmap depth m)))))"
| "depth (VSet s) = Suc (Max (insert 0 (fset (depth |`| s))))"

lemma depth_member:
  "c \<in> set cs \<Longrightarrow> depth c < depth (VList cs)"
  "c |\<in>| fmran m \<Longrightarrow> depth c < depth (VMap m)"
  "c |\<in>| s \<Longrightarrow> depth c < depth (VSet s)"
  by (auto simp: less_Suc_eq_le intro!: Max_ge)

section \<open>The bytes of a meaning\<close>

definition value_or_nil :: "'a list result \<Rightarrow> 'a list" where
  "value_or_nil r = (case r of Inl _ \<Rightarrow> [] | Inr x \<Rightarrow> x)"

definition utf8_bytes :: "nat list \<Rightarrow> byte list" where
  "utf8_bytes s = concat (map utf8_char s)"

abbreviation head_bytes :: "nat \<Rightarrow> nat \<Rightarrow> byte list" where
  "head_bytes major argument \<equiv> value_or_nil (head major argument)"

definition text_bytes :: "nat list \<Rightarrow> byte list" where
  "text_bytes s = head_bytes 3 (length (utf8_bytes s)) @ utf8_bytes s"

definition member_bytes :: "byte list fset \<Rightarrow> byte list" where
  "member_bytes s = concat (map snd (sorted_list_of_fset (shortlex |`| s)))"

definition entry_bytes :: "(byte list \<times> byte list) fset \<Rightarrow> byte list" where
  "entry_bytes s = concat (map (\<lambda>((_, k), v). k @ v) (sorted_list_of_fset ((\<lambda>(k, v). (shortlex k, v)) |`| s)))"

primrec cbor :: "cval \<Rightarrow> byte list" where
  "cbor VNull = [0xf6]"
| "cbor (VBool b) = [if b then 0xf5 else 0xf4]"
| "cbor (VInt i) = (if i \<ge> 0 then head_bytes 0 (nat i) else head_bytes 1 (nat (- 1 - i)))"
| "cbor (VText s) = text_bytes s"
| "cbor (VBytes bs) = head_bytes 2 (length bs) @ bs"
| "cbor (VList cs) = head_bytes 4 (length cs) @ concat (map cbor cs)"
| "cbor (VMap m) = head_bytes 5 (fcard (fset_of_fmap m)) @ entry_bytes ((\<lambda>(k, v). (text_bytes k, v)) |`| fset_of_fmap (fmmap cbor m))"
| "cbor (VSet s) = set_tag @ head_bytes 4 (fcard s) @ member_bytes (cbor |`| s)"

definition text_ok :: "nat list \<Rightarrow> bool" where
  "text_ok s \<longleftrightarrow> list_all encodable_char s \<and> length (utf8_bytes s) < 2 ^ 64"

primrec encodable :: "cval \<Rightarrow> bool" where
  "encodable VNull = True"
| "encodable (VBool b) = True"
| "encodable (VInt i) = (- (2 ^ 63) \<le> i \<and> i \<le> 2 ^ 63 - 1)"
| "encodable (VText s) = text_ok s"
| "encodable (VBytes bs) = (length bs < 2 ^ 64)"
| "encodable (VList cs) = (length cs < 2 ^ 64 \<and> False \<notin> set (map encodable cs))"
| "encodable (VMap m) = (fcard (fset_of_fmap m) < 2 ^ 64 \<and> fBall (fmdom m) text_ok \<and> False |\<notin>| fmran (fmmap encodable m))"
| "encodable (VSet s) = (fcard s < 2 ^ 64 \<and> False |\<notin>| encodable |`| s)"

section \<open>Heads and text are prefix-free\<close>

lemma length_to_bytes [simp]: "length (to_bytes k n) = k"
  by (induction k arbitrary: n) auto

lemma unat_byte: "n < 256 \<Longrightarrow> unat (byte n) = n"
  by (simp add: byte_def unat_of_nat)

lemma byte_inject [simp]: "m < 256 \<Longrightarrow> n < 256 \<Longrightarrow> byte m = byte n \<longleftrightarrow> m = n"
  by (metis unat_byte)

lemma to_bytes_inject: "m < 256 ^ k \<Longrightarrow> n < 256 ^ k \<Longrightarrow> to_bytes k m = to_bytes k n \<Longrightarrow> m = n"
proof (induction k arbitrary: m n)
  case (Suc k)
  have "m div 256 = n div 256" using Suc.prems by (intro Suc.IH) (auto simp: less_mult_imp_div_less mult.commute)
  moreover have "m mod 256 = n mod 256" using Suc.prems(3) by simp
  ultimately show ?case by (metis div_mult_mod_eq)
qed simp

text \<open>The first byte: the major type, and how the argument is written.\<close>

lemma first_byte: "major < 8 \<Longrightarrow> n < 32 \<Longrightarrow> byte (push_bit 5 major OR n) = byte (32 * major + n)"
proof -
  assume "major < 8" "n < 32"
  then have n: "take_bit 5 n = n" by (simp add: take_bit_nat_eq_self)
  have "push_bit 5 major AND take_bit 5 n = 0" by (simp add: bit_eq_iff bit_simps)
  from disjunctive_add_eq_or [OF this] have "push_bit 5 major OR n = push_bit 5 major + n" by (simp add: n)
  then show ?thesis by (simp add: push_bit_eq_mult ac_simps)
qed

definition argument_form :: "nat \<Rightarrow> nat \<times> nat" where
  "argument_form n =
     (if n < 24 then (n, 0) else if n \<le> 0xFF then (24, 1) else if n \<le> 0xFFFF then (25, 2)
      else if n \<le> 0xFFFFFFFF then (26, 4) else (27, 8))"

lemma head_form:
  "major < 8 \<Longrightarrow> n < 2 ^ 64 \<Longrightarrow>
     head major n = Inr (byte (32 * major + fst (argument_form n)) # to_bytes (snd (argument_form n)) n)"
  by (auto simp: head_def argument_form_def first_byte Let_def)

lemma argument_form_bounds: "fst (argument_form n) < 32" "n < 2 ^ 64 \<Longrightarrow> snd (argument_form n) > 0 \<Longrightarrow> n < 256 ^ snd (argument_form n)"
  by (auto simp: argument_form_def)

lemma argument_form_determined:
  "fst (argument_form n) = fst (argument_form m) \<Longrightarrow> argument_form n = argument_form m \<and> (snd (argument_form n) = 0 \<longrightarrow> n = m)"
  by (auto simp: argument_form_def split: if_splits)

lemma head_bytes_form:
  "major < 8 \<Longrightarrow> n < 2 ^ 64 \<Longrightarrow>
     head_bytes major n = byte (32 * major + fst (argument_form n)) # to_bytes (snd (argument_form n)) n"
  by (simp only: head_form value_or_nil_def sum.case)

lemma first_inject:
  assumes "i < 8" "j < 8" "a < 32" "b < 32" "byte (32 * i + a) = byte (32 * j + b)"
  shows "i = j \<and> a = b"
proof -
  have "32 * i + a = 32 * j + b" using assms by simp
  then have "(32 * i + a) div 32 = (32 * j + b) div 32" "(32 * i + a) mod 32 = (32 * j + b) mod 32" by simp_all
  then show ?thesis using assms(3,4) by simp
qed

lemma head_inject:
  assumes "i < 8" "j < 8" "m < 2 ^ 64" "n < 2 ^ 64" and eq: "head_bytes i m @ r = head_bytes j n @ s"
  shows "i = j \<and> m = n \<and> r = s"
proof -
  have "byte (32 * i + fst (argument_form m)) = byte (32 * j + fst (argument_form n))"
      and rest: "to_bytes (snd (argument_form m)) m @ r = to_bytes (snd (argument_form n)) n @ s"
    using eq unfolding head_bytes_form [OF assms(1,3)] head_bytes_form [OF assms(2,4)] append_Cons list.inject by blast+
  from first_inject [OF assms(1,2) argument_form_bounds(1) argument_form_bounds(1) this(1)]
  have "i = j" "fst (argument_form m) = fst (argument_form n)" by blast+
  from argument_form_determined [OF this(2)] have form_eq: "argument_form m = argument_form n"
      and short: "snd (argument_form m) = 0 \<longrightarrow> m = n" by blast+
  have parts: "to_bytes (snd (argument_form n)) m = to_bytes (snd (argument_form n)) n" "r = s"
    using rest unfolding form_eq by (simp_all del: to_bytes.simps)
  have "m = n"
  proof (cases "snd (argument_form n) = 0")
    case False
    then have pos: "snd (argument_form n) > 0" by blast
    show ?thesis
      using argument_form_bounds(2) [OF assms(3), unfolded form_eq, OF pos] argument_form_bounds(2) [OF assms(4) pos] parts(1)
      by (rule to_bytes_inject)
  qed (use short in \<open>simp only: form_eq\<close>)
  then show ?thesis using \<open>i = j\<close> parts(2) by blast
qed

lemma head_inject_arg:
  "head_bytes i m @ r = head_bytes i n @ s \<Longrightarrow> i < 8 \<Longrightarrow> m < 2 ^ 64 \<Longrightarrow> n < 2 ^ 64 \<Longrightarrow> m = n \<and> r = s"
  by (rule conjunct2 [OF head_inject])

lemma head_first: "i < 8 \<Longrightarrow> n < 2 ^ 64 \<Longrightarrow> \<exists>b bs. head_bytes i n @ r = b # bs \<and> unat b div 32 = i"
  using argument_form_bounds(1) [of n]
  by (simp add: head_form value_or_nil_def unat_byte)

text \<open>Code points.\<close>

lemma base64_digits:
  "m div 64 = n div 64 \<Longrightarrow> m mod 64 = n mod 64 \<Longrightarrow> m = n"
  "m div 4096 = n div 4096 \<Longrightarrow> m div 64 mod 64 = n div 64 mod 64 \<Longrightarrow> m div 64 = n div 64"
  "m div 262144 = n div 262144 \<Longrightarrow> m div 4096 mod 64 = n div 4096 mod 64 \<Longrightarrow> m div 4096 = n div 4096" for m n :: nat
proof -
  show a: "m div 64 = n div 64 \<Longrightarrow> m mod 64 = n mod 64 \<Longrightarrow> m = n" for m n :: nat by (metis div_mult_mod_eq)
  show "m div 4096 = n div 4096 \<Longrightarrow> m div 64 mod 64 = n div 64 mod 64 \<Longrightarrow> m div 64 = n div 64"
    by (rule a) (simp_all add: div_mult2_eq [symmetric])
  show "m div 262144 = n div 262144 \<Longrightarrow> m div 4096 mod 64 = n div 4096 mod 64 \<Longrightarrow> m div 4096 = n div 4096"
    by (rule a) (simp_all add: div_mult2_eq [symmetric])
qed

definition utf8_lead :: "nat \<Rightarrow> nat" where
  "utf8_lead c =
     (if c < 0x80 then c else if c < 0x800 then 0xC0 + c div 64
      else if c < 0x10000 then 0xE0 + c div 4096 else 0xF0 + c div 262144)"

lemma utf8_lead_bounds:
  assumes "c \<le> 0x10FFFF"
  shows "utf8_lead c < 0x80 \<longleftrightarrow> c < 0x80" "utf8_lead c < 0xE0 \<longleftrightarrow> c < 0x800" "utf8_lead c < 0xF0 \<longleftrightarrow> c < 0x10000"
    "utf8_lead c < 256"
proof -
  have "c div 64 < 32" if "c < 0x800" using that by (simp add: less_mult_imp_div_less)
  moreover have "c div 4096 < 16" if "c < 0x10000" using that by (simp add: less_mult_imp_div_less)
  moreover have "c div 262144 < 8" using assms by (simp add: less_mult_imp_div_less)
  ultimately show "utf8_lead c < 0x80 \<longleftrightarrow> c < 0x80" "utf8_lead c < 0xE0 \<longleftrightarrow> c < 0x800" "utf8_lead c < 0xF0 \<longleftrightarrow> c < 0x10000"
    "utf8_lead c < 256"
    by (auto simp: utf8_lead_def)
qed

lemma hd_utf8_char: "utf8_char c = byte (utf8_lead c) # tl (utf8_char c)"
  by (simp add: utf8_char_def utf8_lead_def)

lemma utf8_char_inject:
  assumes "c \<le> 0x10FFFF" "d \<le> 0x10FFFF" and eq: "utf8_char c @ r = utf8_char d @ s"
  shows "c = d \<and> r = s"
proof -
  have "byte (utf8_lead c) = byte (utf8_lead d)"
    using eq hd_utf8_char [of c] hd_utf8_char [of d] by (metis append_Cons list.inject)
  then have lead: "utf8_lead c = utf8_lead d"
    using utf8_lead_bounds(4) [OF assms(1)] utf8_lead_bounds(4) [OF assms(2)] by simp
  have cls: "c < 0x80 \<longleftrightarrow> d < 0x80" "c < 0x800 \<longleftrightarrow> d < 0x800" "c < 0x10000 \<longleftrightarrow> d < 0x10000"
    using utf8_lead_bounds [OF assms(1)] utf8_lead_bounds [OF assms(2)] unfolding lead by simp_all
  have "0x80 + x mod 64 < (256 :: nat)" for x by (rule less_le_trans [OF add_strict_left_mono [OF mod_less_divisor]]) simp_all
  then have cont: "byte (0x80 + x mod 64) = byte (0x80 + y mod 64) \<longleftrightarrow> x mod 64 = y mod 64" for x y by simp
  consider "c < 0x80" | "\<not> c < 0x80" "c < 0x800" | "\<not> c < 0x80" "\<not> c < 0x800" "c < 0x10000" | "\<not> c < 0x80" "\<not> c < 0x800" "\<not> c < 0x10000"
    by blast
  then show ?thesis
  proof cases
    case 1
    then show ?thesis using eq lead cls by (simp add: utf8_char_def utf8_lead_def)
  next
    case 2
    then have "c div 64 = d div 64" "c mod 64 = d mod 64" "r = s"
      using eq lead cls by (simp_all add: utf8_char_def utf8_lead_def cont del: byte_inject)
    then show ?thesis using base64_digits(1) by blast
  next
    case 3
    then have "c div 4096 = d div 4096" "c div 64 mod 64 = d div 64 mod 64" "c mod 64 = d mod 64" "r = s"
      using eq lead cls by (simp_all add: utf8_char_def utf8_lead_def cont del: byte_inject)
    then show ?thesis using base64_digits(1,2) by blast
  next
    case 4
    then have "c div 262144 = d div 262144" "c div 4096 mod 64 = d div 4096 mod 64"
        "c div 64 mod 64 = d div 64 mod 64" "c mod 64 = d mod 64" "r = s"
      using eq lead cls by (simp_all add: utf8_char_def utf8_lead_def cont del: byte_inject)
    then show ?thesis using base64_digits by blast
  qed
qed

lemma utf8_bytes_inject:
  "list_all encodable_char s \<Longrightarrow> list_all encodable_char t \<Longrightarrow> utf8_bytes s = utf8_bytes t \<Longrightarrow> s = t"
proof (induction s arbitrary: t)
  case Nil
  then show ?case using hd_utf8_char by (cases t) (auto simp: utf8_bytes_def, metis list.discI)
next
  case (Cons c s)
  then obtain d t' where t: "t = d # t'"
    using hd_utf8_char by (cases t) (auto simp: utf8_bytes_def, metis list.discI)
  then have "c = d \<and> utf8_bytes s = utf8_bytes t'"
    using Cons.prems by (intro utf8_char_inject) (auto simp: utf8_bytes_def encodable_char_def)
  then show ?case using Cons t by auto
qed

lemma text_inject:
  "text_ok s \<Longrightarrow> text_ok t \<Longrightarrow> text_bytes s @ p = text_bytes t @ q \<Longrightarrow> s = t \<and> p = q"
  unfolding text_ok_def text_bytes_def append_assoc
  by (auto dest!: head_inject [rotated 4] dest: utf8_bytes_inject simp: append_eq_append_conv)


section \<open>The bytes determine the meaning\<close>

lemma concat_prefix:
  assumes "\<And>x y r s. x \<in> set xs \<Longrightarrow> y \<in> set ys \<Longrightarrow> f x @ r = f y @ s \<Longrightarrow> x = y \<and> r = s"
    and "length ys \<le> length xs" "concat (map f xs) @ r = concat (map f ys) @ s"
  shows "ys = take (length ys) xs"
  using assms
proof (induction ys arbitrary: xs)
  case (Cons y ys)
  then obtain x xs' where xs: "xs = x # xs'" by (cases xs) auto
  have "x = y \<and> concat (map f xs') @ r = concat (map f ys) @ s"
    using Cons.prems(3) by (intro Cons.prems(1)) (auto simp: xs)
  moreover have "ys = take (length ys) xs'"
    using calculation Cons.prems(1,2) by (intro Cons.IH) (auto simp: xs)
  ultimately show ?case by (simp add: xs)
qed simp

lemma sorted_concat_subset:
  assumes "fcard B \<le> fcard A"
    and "\<And>x y r s. x |\<in>| A \<Longrightarrow> y |\<in>| B \<Longrightarrow> f x @ r = f y @ s \<Longrightarrow> x = y \<and> r = s"
    and "concat (map f (sorted_list_of_fset A)) @ r = concat (map f (sorted_list_of_fset B)) @ s"
  shows "B |\<subseteq>| A"
proof -
  have "sorted_list_of_fset B = take (length (sorted_list_of_fset B)) (sorted_list_of_fset A)"
    using assms by (intro concat_prefix [where f = f]) (auto simp: sorted_list_of_fset.rep_eq fcard.rep_eq)
  then have "set (sorted_list_of_fset B) \<subseteq> set (sorted_list_of_fset A)" by (metis set_take_subset)
  then show ?thesis by (simp add: less_eq_fset.rep_eq)
qed

fun major_type :: "cval \<Rightarrow> nat" where
  "major_type (VInt i) = (if i \<ge> 0 then 0 else 1)"
| "major_type (VBytes _) = 2"
| "major_type (VText _) = 3"
| "major_type (VList _) = 4"
| "major_type (VMap _) = 5"
| "major_type (VSet _) = 6"
| "major_type _ = 7"

lemma cbor_first: "encodable c \<Longrightarrow> \<exists>b bs. cbor c = b # bs \<and> unat b div 32 = major_type c"
proof (cases c)
  case (VInt i)
  then show "encodable c \<Longrightarrow> ?thesis"
    using head_first [of 0 "nat i" "[]"] head_first [of 1 "nat (- 1 - i)" "[]"] by auto
next
  case (VText t)
  then show "encodable c \<Longrightarrow> ?thesis"
    using head_first [of 3 "length (utf8_bytes t)" "utf8_bytes t"] by (auto simp: text_bytes_def text_ok_def)
next
  case (VSet s)
  have "unat (0xd9 :: byte) div 32 = 6" by simp
  then show ?thesis by (simp add: VSet set_tag_def)
qed (use head_first [of 2] head_first [of 4] head_first [of 5] in auto)

lemma same_major: "encodable c \<Longrightarrow> encodable d \<Longrightarrow> cbor c @ r = cbor d @ s \<Longrightarrow> major_type c = major_type d"
  by (metis append_Cons cbor_first list.inject)

lemma int_bytes_inject:
  assumes "encodable (VInt i)" "encodable (VInt j)" "cbor (VInt i) @ r = cbor (VInt j) @ s"
  shows "i = j \<and> r = s"
proof -
  have m: "(0 \<le> i) = (0 \<le> j)" using same_major [OF assms] by (simp split: if_splits)
  show ?thesis
  proof (cases "i \<ge> 0")
    case True
    then have "nat i = nat j \<and> r = s" using assms m by (intro head_inject_arg [of 0]) simp_all
    then show ?thesis using True m by (simp add: eq_nat_nat_iff)
  next
    case False
    then have "nat (- 1 - i) = nat (- 1 - j) \<and> r = s" using assms m by (intro head_inject_arg [of 1]) simp_all
    then show ?thesis using False m by (simp add: eq_nat_nat_iff)
  qed
qed

lemma list_bytes_inject:
  assumes IH: "\<And>x d p q. x \<in> set cs \<Longrightarrow> encodable x \<Longrightarrow> encodable d \<Longrightarrow> cbor x @ p = cbor d @ q \<Longrightarrow> x = d \<and> p = q"
    and "encodable (VList cs)" "encodable (VList ds)" "cbor (VList cs) @ r = cbor (VList ds) @ s"
  shows "cs = ds \<and> r = s"
proof -
  have len: "length cs = length ds \<and> concat (map cbor cs) @ r = concat (map cbor ds) @ s"
    using assms(2-) by (intro head_inject_arg [of 4]) simp_all
  have "x = y \<and> p = q" if "x \<in> set cs" "y \<in> set ds" "cbor x @ p = cbor y @ q" for x y p q
    using that(3) assms(2,3) that(1,2) by (intro IH) (auto simp del: cbor.simps)
  then have "ds = take (length ds) cs" using len by (intro concat_prefix [where f = cbor and r = r and s = s]) auto
  then have "cs = ds" using len by simp
  then show ?thesis using assms(4) by simp
qed

lemma inj_shortlex [simp]: "shortlex a = shortlex b \<longleftrightarrow> a = b"
  by (auto simp: shortlex_def)

lemma set_bytes_inject:
  assumes IH: "\<And>x d p q. x |\<in>| m \<Longrightarrow> encodable x \<Longrightarrow> encodable d \<Longrightarrow> cbor x @ p = cbor d @ q \<Longrightarrow> x = d \<and> p = q"
    and "encodable (VSet m)" "encodable (VSet n)" "cbor (VSet m) @ r = cbor (VSet n) @ s"
  shows "m = n \<and> r = s"
proof -
  have len: "fcard m = fcard n \<and> member_bytes (cbor |`| m) @ r = member_bytes (cbor |`| n) @ s"
    using assms(2-) by (intro head_inject_arg [of 4]) simp_all
  have ok: "encodable x" if "x |\<in>| m \<or> x |\<in>| n" for x using that assms(2,3) by auto
  have one: "x = y \<and> p = q" if "x |\<in>| m" "y |\<in>| m \<or> y |\<in>| n" "cbor x @ p = cbor y @ q" for x y p q
    using IH [OF that(1) _ _ that(3)] ok that(1,2) by blast
  have inj: "x = y" if "x |\<in>| m" "y |\<in>| m \<or> y |\<in>| n" "cbor x = cbor y" for x y
    using one [of x y "[]" "[]"] that by simp
  define A where "A = (\<lambda>x. shortlex (cbor x)) |`| m"
  define B where "B = (\<lambda>x. shortlex (cbor x)) |`| n"
  have "fcard A = fcard m" unfolding A_def fcard.rep_eq fimage.rep_eq by (rule card_image) (auto intro!: inj_onI inj)
  moreover have "fcard B \<le> fcard n" unfolding B_def fcard.rep_eq fimage.rep_eq by (rule card_image_le) simp
  ultimately have "fcard B \<le> fcard A" using len by simp
  moreover have "concat (map snd (sorted_list_of_fset A)) @ r = concat (map snd (sorted_list_of_fset B)) @ s"
    using len by (simp add: member_bytes_def A_def B_def fimage_fimage comp_def)
  moreover have "a = b \<and> p = q" if ab: "a |\<in>| A" "b |\<in>| B" and eq: "snd a @ p = snd b @ q" for a b p q
  proof -
    obtain x y where "x |\<in>| m" "a = shortlex (cbor x)" "y |\<in>| n" "b = shortlex (cbor y)"
      using ab unfolding A_def B_def by auto
    then show ?thesis using one [of x y p q] eq by (simp add: shortlex_def)
  qed
  ultimately have "B |\<subseteq>| A" by (intro sorted_concat_subset [where f = snd])
  have "n |\<subseteq>| m"
  proof
    fix y assume y: "y |\<in>| n"
    then have "shortlex (cbor y) |\<in>| A" using \<open>B |\<subseteq>| A\<close> unfolding B_def by blast
    then obtain x where "x |\<in>| m" "cbor x = cbor y" unfolding A_def by auto
    then show "y |\<in>| m" using inj y by blast
  qed
  then have "m = n" using len by (metis fcard_seteq order_refl)
  then show ?thesis using assms(4) by simp
qed

text \<open>An entry as it is sorted: its key, then its value.\<close>

definition entries :: "(nat list, cval) fmap \<Rightarrow> ((nat \<times> byte list) \<times> byte list) fset" where
  "entries m = (\<lambda>(k, c). (shortlex (text_bytes k), cbor c)) |`| fset_of_fmap m"

lemma entry_bytes_entries:
  "entry_bytes ((\<lambda>(k, v). (text_bytes k, v)) |`| fset_of_fmap (fmmap cbor m))
     = concat (map (\<lambda>((_, k), v). k @ v) (sorted_list_of_fset (entries m)))"
proof -
  have "(\<lambda>(k, v). (shortlex k, v)) |`| (\<lambda>(k, v). (text_bytes k, v)) |`| fset_of_fmap (fmmap cbor m) = entries m"
    unfolding entries_def fmmap_fset_of_fmap fimage_fimage by (rule fimage_cong) auto
  then show ?thesis by (simp only: entry_bytes_def)
qed

lemma fcard_entries:
  assumes "fBall (fmdom m) text_ok"
  shows "fcard (entries m) = fcard (fset_of_fmap m)"
  unfolding entries_def fcard.rep_eq fimage.rep_eq
proof (rule card_image, rule inj_onI)
  have keys: "k = k'" if "k |\<in>| fmdom m" "k' |\<in>| fmdom m" "text_bytes k = text_bytes k'" for k k'
    using text_inject [of k k' "[]" "[]"] that assms by auto
  fix x y assume *: "x \<in> fset (fset_of_fmap m)" "y \<in> fset (fset_of_fmap m)"
    "(case x of (k, c) \<Rightarrow> (shortlex (text_bytes k), cbor c)) = (case y of (k, c) \<Rightarrow> (shortlex (text_bytes k), cbor c))"
  obtain k c k' c' where xy: "x = (k, c)" "y = (k', c')" by (metis surj_pair)
  with * have "fmlookup m k = Some c" "fmlookup m k' = Some c'" "text_bytes k = text_bytes k'" by simp_all
  moreover from this have "k = k'" by (intro keys) (auto intro: fmdomI)
  ultimately show "x = y" using xy by simp
qed

lemma entry_in_entries:
  "e |\<in>| entries m \<longleftrightarrow> (\<exists>k c. fmlookup m k = Some c \<and> e = (shortlex (text_bytes k), cbor c))"
  unfolding entries_def by force

lemma map_bytes_inject:
  assumes IH: "\<And>x d p q. x \<in> fmran' m \<Longrightarrow> encodable x \<Longrightarrow> encodable d \<Longrightarrow> cbor x @ p = cbor d @ q \<Longrightarrow> x = d \<and> p = q"
    and "encodable (VMap m)" "encodable (VMap n)" "cbor (VMap m) @ r = cbor (VMap n) @ s"
  shows "m = n \<and> r = s"
proof -
  let ?join = "\<lambda>((_, k), v). k @ v :: byte list"
  have len: "fcard (fset_of_fmap m) = fcard (fset_of_fmap n) \<and>
      concat (map ?join (sorted_list_of_fset (entries m))) @ r = concat (map ?join (sorted_list_of_fset (entries n))) @ s"
    using assms(2-) by (intro head_inject_arg [of 5]) (simp_all add: entry_bytes_entries)
  have keys: "fBall (fmdom m) text_ok" "fBall (fmdom n) text_ok" using assms(2,3) by simp_all
  have ok: "text_ok k \<and> encodable c" if "fmlookup m k = Some c \<or> fmlookup n k = Some c" for k c
    using that assms(2,3) by (auto dest: fmdomI fmranI)
  have one: "k = k' \<and> c = c' \<and> p = q"
    if mn: "fmlookup m k = Some c" "fmlookup n k' = Some c'" and eq: "text_bytes k @ cbor c @ p = text_bytes k' @ cbor c' @ q" for k k' c c' p q
  proof -
    have "k = k' \<and> cbor c @ p = cbor c' @ q" using ok mn by (intro text_inject eq) blast+
    moreover from this have "c = c' \<and> p = q" using ok mn by (intro IH) (auto intro: fmran'I)
    ultimately show ?thesis by blast
  qed
  have "entries n |\<subseteq>| entries m"
  proof (rule sorted_concat_subset [where f = ?join])
    show "fcard (entries n) \<le> fcard (entries m)" using len fcard_entries keys by simp
    show "concat (map ?join (sorted_list_of_fset (entries m))) @ r = concat (map ?join (sorted_list_of_fset (entries n))) @ s"
      using len by blast
    fix x y r s assume "x |\<in>| entries m" "y |\<in>| entries n" "?join x @ r = ?join y @ s"
    moreover then obtain k c k' c' where "fmlookup m k = Some c" "x = (shortlex (text_bytes k), cbor c)"
        "fmlookup n k' = Some c'" "y = (shortlex (text_bytes k'), cbor c')"
      unfolding entry_in_entries by blast
    ultimately show "x = y \<and> r = s" using one [of k c k' c' r s] by (simp add: shortlex_def)
  qed
  then have "entries m = entries n" using len fcard_entries keys by (metis fcard_seteq order_refl)
  then have both: "(\<exists>k c. fmlookup m k = Some c \<and> e = (shortlex (text_bytes k), cbor c))
      \<longleftrightarrow> (\<exists>k c. fmlookup n k = Some c \<and> e = (shortlex (text_bytes k), cbor c))" for e
    using entry_in_entries by metis
  have same: "k = k' \<and> c = c'" if "fmlookup m k = Some c" "fmlookup n k' = Some c'"
    "(shortlex (text_bytes k), cbor c) = (shortlex (text_bytes k'), cbor c')" for k k' c c'
    using one [OF that(1,2), of "[]" "[]"] that(3) by simp
  have "fmlookup m k = Some c \<longleftrightarrow> fmlookup n k = Some c" for k c
    using both [of "(shortlex (text_bytes k), cbor c)"] same by metis
  then have "m = n" by (metis fmap_ext not_None_eq)
  then show ?thesis using assms(4) by simp
qed

lemma cbor_inject: "encodable c \<Longrightarrow> encodable d \<Longrightarrow> cbor c @ r = cbor d @ s \<Longrightarrow> c = d \<and> r = s"
proof (induction c arbitrary: d r s)
  case (VInt i)
  then have "major_type (VInt i) = major_type d" by (rule same_major)
  then obtain j where "d = VInt j" by (cases d) (simp_all split: if_splits)
  then show ?case using int_bytes_inject VInt by blast
next
  case (VText t)
  then have "major_type (VText t) = major_type d" by (rule same_major)
  then obtain u where d: "d = VText u" by (cases d) (simp_all split: if_splits)
  have "t = u \<and> r = s" using VText.prems by (intro text_inject) (simp_all add: d)
  then show ?case by (simp add: d)
next
  case (VBytes bs)
  then have "major_type (VBytes bs) = major_type d" by (rule same_major)
  then obtain u where d: "d = VBytes u" by (cases d) (simp_all split: if_splits)
  have "length bs = length u \<and> bs @ r = u @ s"
    using VBytes.prems by (intro head_inject_arg [of 2]) (simp_all add: d)
  then show ?case by (auto simp: d)
next
  case (VList cs)
  from VList.prems have "major_type (VList cs) = major_type d" by (rule same_major)
  then obtain ds where "d = VList ds" by (cases d) (simp_all split: if_splits)
  then show ?case using list_bytes_inject [OF VList.IH] VList.prems by blast
next
  case (VSet m)
  from VSet.prems have "major_type (VSet m) = major_type d" by (rule same_major)
  then obtain n where "d = VSet n" by (cases d) (simp_all split: if_splits)
  then show ?case using set_bytes_inject [OF VSet.IH] VSet.prems by blast
next
  case (VMap m)
  from VMap.prems have "major_type (VMap m) = major_type d" by (rule same_major)
  then obtain n where "d = VMap n" by (cases d) (simp_all split: if_splits)
  then show ?case using map_bytes_inject [OF VMap.IH] VMap.prems by blast
next
  case VNull
  then have "major_type VNull = major_type d" by (rule same_major)
  then show ?case using VNull.prems by (cases d) (simp_all split: if_splits)
next
  case (VBool b)
  then have "major_type (VBool b) = major_type d" by (rule same_major)
  then show ?case using VBool.prems by (cases d) (simp_all split: if_splits)
qed


section \<open>The encoder computes the bytes of the meaning\<close>

lemma head_Inr: "major < 8 \<Longrightarrow> head major n = Inr b \<longleftrightarrow> n < 2 ^ 64 \<and> b = head_bytes major n"
  by (cases "n < 2 ^ 64") (auto simp: head_form value_or_nil_def, simp add: head_def Let_def)

lemma framed_Inr: "major < 8 \<Longrightarrow> framed major n body = Inr b \<longleftrightarrow> n < 2 ^ 64 \<and> b = head_bytes major n @ body"
  by (auto simp: framed_def head_Inr)

lemma encode_int_Inr: "encode_int i = Inr b \<longleftrightarrow> encodable (VInt i) \<and> b = cbor (VInt i)"
  by (auto simp: encode_int_def head_Inr)

lemma encode_str_Inr: "encode_str s = Inr b \<longleftrightarrow> text_ok s \<and> b = text_bytes s"
  by (auto simp: encode_str_def utf8_def framed_Inr text_ok_def text_bytes_def utf8_bytes_def)

lemma sorted_by_first:
  "sorted (map fst zs) \<Longrightarrow> distinct (map fst zs) \<Longrightarrow> sorted (zs :: ('a::linorder \<times> 'b::linorder) list)"
proof (induction zs)
  case (Cons z zs)
  have "z \<le> y" if "y \<in> set zs" for y
  proof -
    have "fst z \<le> fst y" "fst z \<noteq> fst y" using Cons.prems that by auto
    then show ?thesis by (auto simp: less_eq_prod_def)
  qed
  then show ?case using Cons by simp
qed simp

lemma sort_members:
  assumes "distinct bs"
  shows "concat (sort_key shortlex bs) = member_bytes (fset_of_list bs)"
proof -
  have "map shortlex (sort_key shortlex bs) = sorted_list_of_set (shortlex ` set bs)"
    using assms by (intro sorted_distinct_set_unique) (auto simp: distinct_map inj_on_def)
  then have "map snd (map shortlex (sort_key shortlex bs)) = map snd (sorted_list_of_set (shortlex ` set bs))" by (rule arg_cong)
  moreover have "map snd (map shortlex xs) = xs" for xs by (induction xs) (auto simp: shortlex_def)
  ultimately show ?thesis by (simp add: member_bytes_def sorted_list_of_fset.rep_eq fset_of_list.rep_eq)
qed

lemma sort_entries:
  fixes es :: "(byte list \<times> byte list) list"
  assumes "distinct (map fst es)"
  shows "concat (map (\<lambda>(k, v). k @ v) (sort_key (\<lambda>e. shortlex (fst e)) es)) = entry_bytes (fset_of_list es)"
proof -
  let ?g = "\<lambda>(k, v). (shortlex k, v) :: (nat \<times> byte list) \<times> byte list" and ?s = "sort_key (\<lambda>e. shortlex (fst e)) es"
  have "map fst (map ?g ?s) = map (\<lambda>e. shortlex (fst e)) ?s" by (auto simp: comp_def split_def)
  moreover have "distinct (map (\<lambda>e. shortlex (fst e)) ?s)"
    using assms by (auto simp: distinct_map inj_on_def)
  ultimately have firsts: "sorted (map fst (map ?g ?s))" "distinct (map fst (map ?g ?s))"
    by (simp_all only: sorted_sort_key)
  have "distinct (map ?g ?s)" using firsts(2) unfolding distinct_map [of fst] by blast
  with sorted_by_first [OF firsts] have "map ?g ?s = sorted_list_of_set (?g ` set es)"
    by (intro sorted_distinct_set_unique) simp_all
  then have "map (\<lambda>((_, k), v). k @ v) (map ?g ?s) = map (\<lambda>((_, k), v). k @ v) (sorted_list_of_set (?g ` set es))"
    by (rule arg_cong)
  moreover have joined: "map (\<lambda>((_, k), v). k @ v) (map ?g xs) = map (\<lambda>(k, v). k @ v) xs" for xs
    by (induction xs) (auto simp: shortlex_def)
  ultimately show ?thesis
    by (simp only: joined entry_bytes_def sorted_list_of_fset.rep_eq fset_of_list.rep_eq fimage.rep_eq)
qed

lemma sorted_no_neighbours:
  "sorted (map shortlex bs) \<Longrightarrow> list_ex (\<lambda>(l, r). l = r) (zip bs (tl bs)) \<longleftrightarrow> \<not> distinct bs"
proof (induction bs)
  case (Cons b bs)
  show ?case
  proof (cases bs)
    case (Cons b' bs')
    have "b \<in> set bs \<longleftrightarrow> b = b'"
    proof
      assume b: "b \<in> set bs"
      then have "shortlex b' \<le> shortlex b" "shortlex b \<le> shortlex b'"
        using Cons.prems by (auto simp: Cons)
      then show "b = b'" by (simp add: antisym)
    qed (simp add: Cons)
    then show ?thesis using Cons.IH Cons.prems by (auto simp: Cons)
  qed simp
qed simp

lemma encode_set_Inr:
  "encode_set enc items = Inr b \<longleftrightarrow>
     (\<exists>bs. traverse enc items = Inr bs \<and> distinct bs \<and> length bs < 2 ^ 64
        \<and> b = set_tag @ head_bytes 4 (length bs) @ member_bytes (fset_of_list bs))"
  by (auto simp: encode_set_def Let_def sorted_no_neighbours framed_Inr sort_members)

lemma encode_list_Inr:
  "encode_list enc items = Inr b \<longleftrightarrow>
     length items < 2 ^ 64 \<and> (\<exists>bs. traverse enc items = Inr bs \<and> b = head_bytes 4 (length items) @ concat bs)"
  by (auto simp: encode_list_def head_Inr)

lemma encode_entry_Inr:
  "encode_entry enc e = Inr p \<longleftrightarrow>
     (\<exists>s b. fst e = OText s \<and> text_ok s \<and> enc (snd e) = Inr b \<and> p = (text_bytes s, b))"
  by (cases e; cases "fst e") (auto simp: encode_entry_def encode_str_Inr)


lemma traverse_choose:
  assumes "traverse f xs = Inr ys" "\<And>x y. x \<in> set xs \<Longrightarrow> f x = Inr y \<Longrightarrow> \<exists>c. P x c \<and> y = g c"
  shows "\<exists>cs. list_all2 P xs cs \<and> ys = map g cs"
  using assms
proof (induction xs arbitrary: ys)
  case (Cons x xs)
  then obtain y ys' where ys: "ys = y # ys'" "f x = Inr y" "traverse f xs = Inr ys'" by auto
  obtain c where "P x c" "y = g c" using Cons.prems(2) ys(2) by force
  moreover obtain cs where "list_all2 P xs cs" "ys' = map g cs" using Cons.IH [OF ys(3)] Cons.prems(2) by force
  ultimately show ?case using ys(1) by (intro exI [of _ "c # cs"]) simp
qed simp

lemma traverse_map_of:
  "list_all2 (\<lambda>x c. f x = Inr (g c)) xs cs \<Longrightarrow> traverse f xs = Inr (map g cs)"
  by (induction rule: list_all2_induct) auto

lemma distinct_bytes: "\<forall>c \<in> set cs. encodable c \<Longrightarrow> distinct (map cbor cs) \<longleftrightarrow> distinct cs"
  using cbor_inject [of _ _ "[]" "[]"] by (auto simp: distinct_map inj_on_def)

lemma distinct_keys: "\<forall>k \<in> set ks. text_ok k \<Longrightarrow> distinct (map text_bytes ks) \<longleftrightarrow> distinct ks"
  using text_inject [of _ _ "[]" "[]"] by (auto simp: distinct_map inj_on_def)

lemma fcard_of_list: "distinct xs \<Longrightarrow> fcard (fset_of_list xs) = length xs"
  by (simp add: fcard.rep_eq fset_of_list.rep_eq distinct_card)

lemma fset_of_fmap_of_list: "distinct (map fst es) \<Longrightarrow> fset_of_fmap (fmap_of_list es) = fset_of_list es"
  by (rule fset_eqI) (auto simp: fmlookup_of_list fset_of_list.rep_eq)

lemma map_bytes_of_list:
  assumes "distinct (map fst es)"
  shows "cbor (VMap (fmap_of_list es)) =
     head_bytes 5 (length es) @ entry_bytes (fset_of_list (map (\<lambda>(k, c). (text_bytes k, cbor c)) es))"
proof -
  have "distinct es" using assms by (simp add: distinct_map)
  have "(\<lambda>(k, v). (text_bytes k, v)) |`| fset_of_fmap (fmmap cbor (fmap_of_list es))
      = fset_of_list (map (\<lambda>(k, c). (text_bytes k, cbor c)) es)"
    unfolding fmmap_fset_of_fmap fset_of_fmap_of_list [OF assms] fimage_fimage
    by (rule fset_eqI) (force simp: fset_of_list.rep_eq)
  then show ?thesis by (simp add: fset_of_fmap_of_list [OF assms] fcard_of_list \<open>distinct es\<close>)
qed

lemma map_encodable_of_list:
  "distinct (map fst es) \<Longrightarrow> encodable (VMap (fmap_of_list es)) \<longleftrightarrow>
     length es < 2 ^ 64 \<and> (\<forall>(k, c) \<in> set es. text_ok k \<and> encodable c)"
  by (auto simp: fset_of_fmap_of_list fcard_of_list distinct_map fmlookup_ran_iff fmlookup_of_list fset_of_list.rep_eq)


lemma encode_dict_Inr:
  "encode_dict enc items = Inr b \<longleftrightarrow>
     (\<exists>es. traverse (encode_entry enc) items = Inr es \<and> length es < 2 ^ 64
        \<and> b = head_bytes 5 (length es) @ concat (map (\<lambda>(k, v). k @ v) (sort_key (\<lambda>e. shortlex (fst e)) es)))"
  by (auto simp: encode_dict_def framed_Inr)

lemma denotes_listI:
  "map_of h a = Some (CList vs) \<Longrightarrow> list_all2 (denotes h) vs cs \<Longrightarrow> denotes h (ORef a) (VList cs)"
  by (rule denotes_list) (auto simp: list_all2_conv_all_nth)

lemma denotes_setI:
  "map_of h a = Some (CSet vs) \<Longrightarrow> list_all2 (denotes h) vs cs \<Longrightarrow> distinct cs \<Longrightarrow> denotes h (ORef a) (VSet (fset_of_list cs))"
  by (rule denotes_set) (auto simp: list_all2_conv_all_nth)

lemma denotes_dictI:
  assumes "map_of h a = Some (CDict es)" "list_all2 (\<lambda>e (k, c). fst e = OText k \<and> denotes h (snd e) c) es kcs" "distinct (map fst kcs)"
  shows "denotes h (ORef a) (VMap (fmap_of_list kcs))"
proof -
  have "denotes h (ORef a) (VMap (fmap_of_list (zip (map fst kcs) (map snd kcs))))"
    using assms by (intro denotes_dict [where es = es]) (auto simp: list_all2_conv_all_nth split_def intro!: nth_equalityI)
  then show ?thesis by (simp add: zip_map_fst_snd)
qed

lemma store_okD: "store_ok h \<Longrightarrow> map_of h a = Some (CDict es) \<Longrightarrow> distinct (map fst es)"
  by (auto simp: store_ok_def dest!: map_of_SomeD)

lemma encoded_means:
  "encode h active v = Inr b \<Longrightarrow> store_ok h \<Longrightarrow> \<exists>c. (denotes h v c \<and> encodable c) \<and> b = cbor c"
proof (induction h active v arbitrary: b rule: encode.induct)
  case (8 h active a)
  then obtain c where c: "map_of h a = Some c" "a \<notin> set active" by (auto split: option.splits if_splits)
  note IH = "8.IH" [OF c]
  show ?case
  proof (cases c)
    case (CList items)
    then obtain bs where bs: "traverse (encode h (a # active)) items = Inr bs" "length items < 2 ^ 64"
        "b = head_bytes 4 (length items) @ concat bs"
      using "8.prems"(1) c by (auto simp: encode_list_Inr)
    have "\<exists>c. (denotes h x c \<and> encodable c) \<and> y = cbor c" if "x \<in> set items" "encode h (a # active) x = Inr y" for x y
      using IH(1) [OF CList that "8.prems"(2)] .
    then obtain cs where cs: "list_all2 (\<lambda>x c. denotes h x c \<and> encodable c) items cs" "bs = map cbor cs"
      using traverse_choose [OF bs(1), of "\<lambda>x c. denotes h x c \<and> encodable c" cbor] by blast
    have "encodable (VList cs)" "b = cbor (VList cs)"
      using cs bs by (auto simp: list_all2_conv_all_nth in_set_conv_nth)
    moreover have "denotes h (ORef a) (VList cs)"
      using c cs(1) by (intro denotes_listI) (auto simp: CList elim: list_all2_mono)
    ultimately show ?thesis by blast
  next
    case (CSet items)
    then obtain bs where bs: "traverse (encode h (a # active)) items = Inr bs" "distinct bs" "length bs < 2 ^ 64"
        "b = set_tag @ head_bytes 4 (length bs) @ member_bytes (fset_of_list bs)"
      using "8.prems"(1) c by (auto simp: encode_set_Inr)
    have "\<exists>c. (denotes h x c \<and> encodable c) \<and> y = cbor c" if "x \<in> set items" "encode h (a # active) x = Inr y" for x y
      using IH(3) [OF CSet that "8.prems"(2)] .
    then obtain cs where cs: "list_all2 (\<lambda>x c. denotes h x c \<and> encodable c) items cs" "bs = map cbor cs"
      using traverse_choose [OF bs(1), of "\<lambda>x c. denotes h x c \<and> encodable c" cbor] by blast
    have ok: "\<forall>c \<in> set cs. encodable c" using cs by (auto simp: list_all2_conv_all_nth in_set_conv_nth)
    then have "distinct cs" using bs(2) by (simp add: cs distinct_bytes)
    then have "encodable (VSet (fset_of_list cs))" "b = cbor (VSet (fset_of_list cs))"
      using bs ok by (auto simp: cs fcard_of_list fset_of_list.rep_eq)
    moreover have "denotes h (ORef a) (VSet (fset_of_list cs))"
      using c cs(1) \<open>distinct cs\<close> by (intro denotes_setI) (auto simp: CSet elim: list_all2_mono)
    ultimately show ?thesis by blast
  next
    case (CDict items)
    let ?P = "\<lambda>e (k, c). (fst e = OText k \<and> denotes h (snd e) c) \<and> text_ok k \<and> encodable c"
    obtain es where es: "traverse (encode_entry (encode h (a # active))) items = Inr es" "length es < 2 ^ 64"
        "b = head_bytes 5 (length es) @ concat (map (\<lambda>(k, v). k @ v) (sort_key (\<lambda>e. shortlex (fst e)) es))"
      using "8.prems"(1) c CDict by (auto simp: encode_dict_Inr)
    have "\<exists>kc. ?P e kc \<and> p = (\<lambda>(k, c). (text_bytes k, cbor c)) kc"
      if "e \<in> set items" "encode_entry (encode h (a # active)) e = Inr p" for e p
      using that(2) IH(2) [OF CDict imageI [OF that(1)] _ "8.prems"(2)] unfolding encode_entry_Inr by fastforce
    then obtain kcs where kcs: "list_all2 ?P items kcs" "es = map (\<lambda>(k, c). (text_bytes k, cbor c)) kcs"
      using traverse_choose [OF es(1), of ?P "\<lambda>(k, c). (text_bytes k, cbor c)"] by blast
    have "map OText (map fst kcs) = map fst items"
      using kcs(1) by (auto simp: list_all2_conv_all_nth split_def intro!: nth_equalityI)
    then have d: "distinct (map fst kcs)" using store_okD [OF "8.prems"(2) c(1) [unfolded CDict]] by (metis distinct_map)
    have ok: "\<forall>(k, c) \<in> set kcs. text_ok k \<and> encodable c"
      using kcs(1) by (induction rule: list_all2_induct) auto
    have "distinct (map fst es)"
      using distinct_keys [of "map fst kcs"] d ok by (auto simp: kcs(2) comp_def split_def)
    then have "b = cbor (VMap (fmap_of_list kcs))"
      using es(3) by (simp only: sort_entries map_bytes_of_list [OF d] kcs(2) length_map)
    moreover have "encodable (VMap (fmap_of_list kcs))"
      using es(2) ok by (simp only: map_encodable_of_list [OF d] kcs(2) length_map)
    moreover have "denotes h (ORef a) (VMap (fmap_of_list kcs))"
      using c kcs(1) d by (intro denotes_dictI [where es = items]) (auto simp: CDict elim!: list_all2_mono)
    ultimately show ?thesis by blast
  qed
qed (auto simp: encode_int_Inr encode_str_Inr framed_Inr)


text \<open>
  A container being encoded denotes something deeper than what is inside it, so an acyclic value is never
  refused.
\<close>

lemma deeper:
  assumes "\<forall>a \<in> set active. \<forall>d. denotes h (ORef a) d \<longrightarrow> depth c < depth d" "denotes h (ORef a) c" "depth x < depth c"
  shows "\<forall>b \<in> set (a # active). \<forall>d. denotes h (ORef b) d \<longrightarrow> depth x < depth d"
proof (intro ballI allI impI)
  fix b d assume "b \<in> set (a # active)" "denotes h (ORef b) d"
  then have "depth c < depth d \<or> d = c" using assms(1) denotes_unique [OF assms(2)] by auto
  then show "depth x < depth d" using assms(3) by auto
qed

lemma meaning_encodes:
  "denotes h v c \<Longrightarrow> encodable c \<Longrightarrow> \<forall>a \<in> set active. \<forall>d. denotes h (ORef a) d \<longrightarrow> depth c < depth d
    \<Longrightarrow> encode h active v = Inr (cbor c)"
proof (induction arbitrary: active rule: denotes.induct)
  case (denotes_int i)
  then show ?case by (simp only: encode.simps encode_int_Inr)
next
  case (denotes_str s)
  then show ?case by (simp add: encode_str_Inr)
next
  case (denotes_bytes bs)
  then show ?case by (simp add: framed_Inr)
next
  case (denotes_list a vs cs)
  have self: "denotes h (ORef a) (VList cs)" by (rule denotes.denotes_list) (fact denotes_list.hyps)+
  have fresh: "a \<notin> set active" using denotes_list.prems(2) self by blast
  have "encode h (a # active) (vs ! i) = Inr (cbor (cs ! i))" if i: "i < length vs" for i
  proof (rule denotes_list.IH [OF i])
    have m: "cs ! i \<in> set cs" using i denotes_list.hyps(2) by simp
    then show "encodable (cs ! i)" using denotes_list.prems(1) by auto
    show "\<forall>b \<in> set (a # active). \<forall>d. denotes h (ORef b) d \<longrightarrow> depth (cs ! i) < depth d"
      by (rule deeper [OF denotes_list.prems(2) self depth_member(1) [OF m]])
  qed
  then have "traverse (encode h (a # active)) vs = Inr (map cbor cs)"
    using denotes_list.hyps(2) by (intro traverse_map_of) (simp add: list_all2_conv_all_nth)
  then show ?case using denotes_list.hyps(1,2) fresh denotes_list.prems(1) by (simp add: encode_list_Inr)
next
  case (denotes_set a vs cs)
  have self: "denotes h (ORef a) (VSet (fset_of_list cs))" by (rule denotes.denotes_set) (fact denotes_set.hyps)+
  have fresh: "a \<notin> set active" using denotes_set.prems(2) self by blast
  have ok: "\<forall>c \<in> set cs. encodable c" using denotes_set.prems(1) by (auto simp: fset_of_list.rep_eq)
  have "encode h (a # active) (vs ! i) = Inr (cbor (cs ! i))" if i: "i < length vs" for i
  proof (rule denotes_set.IH [OF i])
    have m: "cs ! i |\<in>| fset_of_list cs" using i denotes_set.hyps(2) by (simp add: fset_of_list.rep_eq)
    show "encodable (cs ! i)" using ok i denotes_set.hyps(2) by simp
    show "\<forall>b \<in> set (a # active). \<forall>d. denotes h (ORef b) d \<longrightarrow> depth (cs ! i) < depth d"
      by (rule deeper [OF denotes_set.prems(2) self depth_member(3) [OF m]])
  qed
  then have "traverse (encode h (a # active)) vs = Inr (map cbor cs)"
    using denotes_set.hyps(2) by (intro traverse_map_of) (simp add: list_all2_conv_all_nth)
  moreover have "distinct (map cbor cs)" using denotes_set.hyps(4) ok by (simp add: distinct_bytes)
  moreover have "length cs < 2 ^ 64" using denotes_set.prems(1) denotes_set.hyps(4) by (simp add: fcard_of_list)
  moreover have "cbor |`| fset_of_list cs = fset_of_list (map cbor cs)" by (rule fset_eqI) (simp add: fset_of_list.rep_eq)
  ultimately show ?case
    using denotes_set.hyps(1,4) fresh by (simp add: encode_set_Inr fcard_of_list)
next
  case (denotes_dict a es ks cs)
  have self: "denotes h (ORef a) (VMap (fmap_of_list (zip ks cs)))" by (rule denotes.denotes_dict) (fact denotes_dict.hyps)+
  have fresh: "a \<notin> set active" using denotes_dict.prems(2) self by blast
  have len: "length ks = length es" "length cs = length es" using denotes_dict.hyps(2,3) by (auto dest: map_eq_imp_length_eq)
  have d: "distinct (map fst (zip ks cs))" using denotes_dict.hyps(5) len by simp
  have ok: "\<forall>(k, c) \<in> set (zip ks cs). text_ok k \<and> encodable c" and few: "length es < 2 ^ 64"
    using denotes_dict.prems(1) len unfolding map_encodable_of_list [OF d] by simp_all
  have "encode_entry (encode h (a # active)) (es ! i) = Inr (text_bytes (ks ! i), cbor (cs ! i))" if i: "i < length es" for i
  proof -
    have m: "(ks ! i, cs ! i) \<in> set (zip ks cs)" using i len by (auto simp: in_set_zip)
    then have ranged: "cs ! i |\<in>| fmran (fmap_of_list (zip ks cs))"
      using d by (auto simp: fmlookup_ran_iff fmlookup_of_list intro: exI [of _ "ks ! i"])
    have "encode h (a # active) (snd (es ! i)) = Inr (cbor (cs ! i))"
    proof (rule denotes_dict.IH [OF i])
      show "encodable (cs ! i)" using ok m by blast
      show "\<forall>b \<in> set (a # active). \<forall>d. denotes h (ORef b) d \<longrightarrow> depth (cs ! i) < depth d"
        by (rule deeper [OF denotes_dict.prems(2) self depth_member(2) [OF ranged]])
    qed
    moreover have "fst (es ! i) = OText (ks ! i)" using denotes_dict.hyps(2) i len by (metis nth_map)
    ultimately show ?thesis using ok m by (auto simp: encode_entry_Inr)
  qed
  then have "traverse (encode_entry (encode h (a # active))) es = Inr (map (\<lambda>(k, c). (text_bytes k, cbor c)) (zip ks cs))"
    using len by (intro traverse_map_of) (simp add: list_all2_conv_all_nth)
  moreover have "distinct (map fst (map (\<lambda>(k, c). (text_bytes k, cbor c)) (zip ks cs)))"
    using distinct_keys [of "map fst (zip ks cs)"] d ok by (auto simp: comp_def split_def)
  ultimately show ?case
    using denotes_dict.hyps(1) fresh few len
    by (simp add: encode_dict_Inr sort_entries map_bytes_of_list [OF d] del: cbor.simps)
qed simp_all


section \<open>The contract of \<open>canonical_bytes\<close>\<close>

lemma canonical_bytes_Inr:
  "store_ok h \<Longrightarrow> canonical_bytes h v = Inr b \<longleftrightarrow> (\<exists>c. denotes h v c \<and> encodable c \<and> b = cbor c)"
  using encoded_means [of h "[]" v b] meaning_encodes [of h v _ "[]"] by (auto simp: canonical_bytes_def)

text \<open>
  Claim C11. \<open>canonical_bytes\<close> returns exactly on the values that denote a finite tree within the value language
  (no float, no opaque object, no reference cycle, no set with two equal members, integers of 64 bits,
  valid text); and two values, of any two stores, have the same bytes exactly when they denote the same
  tree, whatever the order their dictionaries and sets are iterated in and whatever they share.\<close>

theorem canonical_bytes_identify_values:
  assumes "store_ok h" "store_ok h'"
  shows "((\<exists>b. canonical_bytes h v = Inr b) \<longleftrightarrow> (\<exists>c. denotes h v c \<and> encodable c))
    \<and> (\<forall>b b' c c'. canonical_bytes h v = Inr b \<longrightarrow> canonical_bytes h' v' = Inr b' \<longrightarrow>
         denotes h v c \<longrightarrow> denotes h' v' c' \<longrightarrow> (b = b' \<longleftrightarrow> c = c'))"
proof (intro conjI allI impI)
  show "(\<exists>b. canonical_bytes h v = Inr b) \<longleftrightarrow> (\<exists>c. denotes h v c \<and> encodable c)"
    using canonical_bytes_Inr [OF assms(1)] by blast
  fix b b' c c'
  assume "canonical_bytes h v = Inr b" "canonical_bytes h' v' = Inr b'" "denotes h v c" "denotes h' v' c'"
  then have "encodable c" "b = cbor c" "encodable c'" "b' = cbor c'"
    using canonical_bytes_Inr [OF assms(1)] canonical_bytes_Inr [OF assms(2)] denotes_unique by blast+
  then show "b = b' \<longleftrightarrow> c = c'" using cbor_inject [of c c' "[]" "[]"] by auto
qed

text \<open>Two dictionaries written in different orders, one holding a set and one sharing a list.\<close>

definition sample_store :: "bool \<Rightarrow> store" where
  "sample_store swapped =
     [(0, CDict (if swapped then [(OText [98], ORef 1), (OText [97, 0x20AC], OInt (- 7))]
                 else [(OText [97, 0x20AC], OInt (- 7)), (OText [98], ORef 1)])),
      (1, CSet (if swapped then [ORef 2, OBool True] else [OBool True, ORef 2])),
      (2, CList [ORef 3, ORef 3]), (3, CList [])]"

lemma sample_store_ok: "store_ok (sample_store b)"
  by (simp add: store_ok_def sample_store_def)

definition sample_encoding :: "byte list" where
  "sample_encoding =
     [0xA2, 0x61, 0x62, 0xD9, 0x01, 0x02, 0x82, 0xF5, 0x82, 0x80, 0x80, 0x64, 0x61, 0xE2, 0x82, 0xAC, 0x26]"

lemmas run_encoder = canonical_bytes_def encode_list_def encode_dict_def encode_set_def encode_entry_def encode_str_def
  encode_int_def utf8_def utf8_char_def encodable_char_def framed_def head_form argument_form_def byte_def shortlex_def
  set_tag_def less_eq_prod_def Let_def

lemma sample_bytes:
  "canonical_bytes (sample_store True) (ORef 0) = Inr sample_encoding"
  "canonical_bytes (sample_store False) (ORef 0) = Inr sample_encoding"
  by (simp_all add: run_encoder sample_store_def sample_encoding_def)

theorem canonical_bytes_identify_values_witness:
  "\<exists>c. denotes (sample_store False) (ORef 0) c \<and> denotes (sample_store True) (ORef 0) c"
proof -
  note both = canonical_bytes_identify_values [OF sample_store_ok sample_store_ok]
  from both [of False "ORef 0" True "ORef 0"] both [of True "ORef 0" True "ORef 0"] sample_bytes obtain c c' where
    "denotes (sample_store False) (ORef 0) c" "denotes (sample_store True) (ORef 0) c'" by blast
  moreover from this have "c = c'"
    using both [of False "ORef 0" True "ORef 0"] sample_bytes by blast
  ultimately show ?thesis by blast
qed

end
