(* ===== verification/Pops_Identity.thy ===== *)
theory Pops_Identity
  imports Pops_Canonical Pops_Literal
begin

text \<open>
  Typed identities (\<open>python/pops/identity/digest.py\<close>): the record, its validation, its printable token, its
  data projection, and \<open>make_identity\<close>, the digest of a payload in a domain-separated envelope. SHA-256 is a
  parameter. A Python text is the list of its code points.
\<close>

type_synonym pytext = "nat list"

definition ascii :: "string \<Rightarrow> pytext" where
  "ascii s = map of_char s"

lemma ascii_inject [simp]: "ascii s = ascii t \<longleftrightarrow> s = t"
  by (simp add: ascii_def inj_map_eq_map inj_def)

section \<open>Validation\<close>

record identity =
  id_domain :: pytext
  id_version :: nat
  id_digest :: "byte list"

text \<open>The pattern \<open>[a-z][a-z0-9_.-]*\<close>.\<close>

definition domain_start :: "nat \<Rightarrow> bool" where
  "domain_start c \<longleftrightarrow> 97 \<le> c \<and> c \<le> 122"

definition domain_part :: "nat \<Rightarrow> bool" where
  "domain_part c \<longleftrightarrow> domain_start c \<or> 48 \<le> c \<and> c \<le> 57 \<or> c \<in> {95, 46, 45}"

definition domain_match :: "pytext \<Rightarrow> bool" where
  "domain_match s = (case s of [] \<Rightarrow> False | c # cs \<Rightarrow> domain_start c \<and> list_all domain_part cs)"

definition check_domain :: "pyval \<Rightarrow> pytext result" where
  "check_domain v = (case v of OText s \<Rightarrow> raise_if (\<not> domain_match s) ValueError (Inr s) | _ \<Rightarrow> Inl ValueError)"

definition check_version :: "pyval \<Rightarrow> nat result" where
  "check_version v =
     (case v of
        OInt i \<Rightarrow> raise_if (i < 1) ValueError (raise_if (i > 2 ^ 63 - 1) OverflowError (Inr (nat i)))
      | _ \<Rightarrow> Inl ValueError)"

text \<open>The constructor; the algorithm is always \<open>sha256\<close>, so the record does not hold it.\<close>

definition mk_identity :: "pyval \<Rightarrow> pyval \<Rightarrow> pyval \<Rightarrow> pyval \<Rightarrow> identity result" where
  "mk_identity domain version algorithm digest =
     bindR (check_domain domain) (\<lambda>d.
     bindR (check_version version) (\<lambda>n.
     raise_if (algorithm \<noteq> OText (ascii ''sha256'')) ValueError
       (case digest of
          OBytes b \<Rightarrow> raise_if (length b \<noteq> 32) ValueError (Inr \<lparr>id_domain = d, id_version = n, id_digest = b\<rparr>)
        | _ \<Rightarrow> Inl ValueError)))"

definition identity_ok :: "identity \<Rightarrow> bool" where
  "identity_ok i \<longleftrightarrow>
     domain_match (id_domain i) \<and> 1 \<le> id_version i \<and> id_version i \<le> 2 ^ 63 - 1 \<and> length (id_digest i) = 32"

lemma mk_identity_Inr:
  "mk_identity domain version algorithm digest = Inr i \<longleftrightarrow>
     domain = OText (id_domain i) \<and> version = OInt (int (id_version i)) \<and> algorithm = OText (ascii ''sha256'')
     \<and> digest = OBytes (id_digest i) \<and> identity_ok i"
  by (cases i)
     (auto simp: mk_identity_def check_domain_def check_version_def identity_ok_def split: pyval.splits)

section \<open>The printable token\<close>

definition digit_char :: "nat \<Rightarrow> nat" where
  "digit_char d = 48 + d"

text \<open>The two lower-case characters of a byte in \<open>bytes.hex()\<close>.\<close>

definition hex_char :: "nat \<Rightarrow> nat" where
  "hex_char n = (if n < 10 then 48 + n else 87 + n)"

definition hex_byte :: "byte \<Rightarrow> pytext" where
  "hex_byte b = [hex_char (unat b div 16), hex_char (unat b mod 16)]"

definition hexdigest :: "identity \<Rightarrow> pytext" where
  "hexdigest i = concat (map hex_byte (id_digest i))"

definition version_text :: "nat \<Rightarrow> pytext" where
  "version_text n = map digit_char (digits n)"

definition token :: "identity \<Rightarrow> pytext" where
  "token i = ascii ''pops.'' @ id_domain i @ ascii ''.v'' @ version_text (id_version i) @ ascii '':sha256:'' @ hexdigest i"

text \<open>
  The token pattern: \<open>pops\<close>, a domain, a version without leading zeros, the algorithm and 64 hexadecimal characters,
  as the groups the pattern captures. A domain and a version have no colon, so the first colon ends them; the
  version is the longest run of digits before it.
\<close>

definition is_digit :: "nat \<Rightarrow> bool" where
  "is_digit c \<longleftrightarrow> 48 \<le> c \<and> c \<le> 57"

definition is_hex :: "nat \<Rightarrow> bool" where
  "is_hex c \<longleftrightarrow> is_digit c \<or> 97 \<le> c \<and> c \<le> 102"

definition version_match :: "pytext \<Rightarrow> bool" where
  "version_match s = (case s of [] \<Rightarrow> False | c # cs \<Rightarrow> 49 \<le> c \<and> c \<le> 57 \<and> list_all is_digit cs)"

definition match_token :: "pytext \<Rightarrow> (pytext \<times> pytext \<times> pytext) option" where
  "match_token s =
     (let left = takeWhile (\<lambda>c. c \<noteq> 58) s;
          right = dropWhile (\<lambda>c. c \<noteq> 58) s;
          version = rev (takeWhile is_digit (rev left));
          named = take (length left - length version) left;
          domain = drop 5 (take (length named - 2) named);
          hex = drop 8 right
      in if named = ascii ''pops.'' @ domain @ ascii ''.v'' \<and> domain_match domain \<and> version_match version
            \<and> right = ascii '':sha256:'' @ hex \<and> length hex = 64 \<and> list_all is_hex hex
         then Some (domain, version, hex) else None)"

definition hex_value :: "nat \<Rightarrow> nat" where
  "hex_value c = (if c \<le> 57 then c - 48 else c - 87)"

fun fromhex :: "pytext \<Rightarrow> byte list" where
  "fromhex (a # b # s) = byte (16 * hex_value a + hex_value b) # fromhex s"
| "fromhex _ = []"

text \<open>\<open>int\<close> refuses a text of more than 4300 digits.\<close>

definition from_token :: "pyval \<Rightarrow> identity result" where
  "from_token v =
     (case v of
        OText s \<Rightarrow>
          (case match_token s of
             None \<Rightarrow> Inl ValueError
           | Some (domain, version, hex) \<Rightarrow>
               raise_if (length version > 4300) ValueError
                 (mk_identity (OText domain) (OInt (int (horner (map (\<lambda>c. c - 48) version)))) (OText (ascii ''sha256''))
                    (OBytes (fromhex hex))))
      | _ \<Rightarrow> Inl TypeError)"

section \<open>Data and digests\<close>

definition identity_data :: "identity \<Rightarrow> (pyval \<times> pyval) list" where
  "identity_data i =
     [(OText (ascii ''domain''), OText (id_domain i)), (OText (ascii ''schema_version''), OInt (int (id_version i))),
      (OText (ascii ''algorithm''), OText (ascii ''sha256'')), (OText (ascii ''digest''), OBytes (id_digest i))]"

definition required_keys :: "pyval set" where
  "required_keys = OText ` ascii ` {''domain'', ''schema_version'', ''algorithm'', ''digest''}"

definition from_data :: "(pyval \<times> pyval) list \<Rightarrow> identity result" where
  "from_data data =
     raise_if (fst ` set data \<noteq> required_keys) TypeError
       (let field = (\<lambda>k. the (map_of data (OText (ascii k))))
        in mk_identity (field ''domain'') (field ''schema_version'') (field ''algorithm'') (field ''digest''))"

text \<open>A container allocated in a store.\<close>

definition fresh :: "store \<Rightarrow> nat" where
  "fresh h = Suc (Max (insert 0 (fst ` set h)))"

definition envelope :: "pytext \<Rightarrow> nat \<Rightarrow> pyval \<Rightarrow> container" where
  "envelope domain version payload =
     CDict [(OText (ascii ''protocol''), OText (ascii ''pops.identity'')), (OText (ascii ''domain''), OText domain),
            (OText (ascii ''schema_version''), OInt (int version)), (OText (ascii ''payload''), payload)]"

definition make_identity :: "(byte list \<Rightarrow> byte list) \<Rightarrow> store \<Rightarrow> pyval \<Rightarrow> pyval \<Rightarrow> pyval \<Rightarrow> identity result" where
  "make_identity sha256 h domain payload version =
     bindR (check_domain domain) (\<lambda>d.
     bindR (check_version version) (\<lambda>n.
     bindR (canonical_bytes ((fresh h, envelope d n payload) # h) (ORef (fresh h))) (\<lambda>b.
       mk_identity (OText d) (OInt (int n)) (OText (ascii ''sha256'')) (OBytes (sha256 b)))))"

section \<open>Tokens and data name identities\<close>

lemma hex_value_char [simp]: "n < 16 \<Longrightarrow> hex_value (hex_char n) = n"
  by (simp add: hex_value_def hex_char_def)

lemma hex_char_value: "is_hex c \<Longrightarrow> hex_char (hex_value c) = c \<and> hex_value c < 16"
  by (auto simp: hex_value_def hex_char_def is_hex_def is_digit_def)

lemma is_hex_char: "n < 16 \<Longrightarrow> is_hex (hex_char n)"
  by (auto simp: hex_char_def is_hex_def is_digit_def)

lemma byte_unat [simp]: "byte (unat b) = b"
  by (simp add: byte_def)

lemma unat_below: "unat (b :: byte) < 256"
  using unsigned_less [of b] by simp

lemma byte_parts: "unat (b :: byte) div 16 < 16" 
  using unat_below [of b] by (simp add: less_mult_imp_div_less)

lemma fromhex_hex: "fromhex (concat (map hex_byte bs)) = bs"
  by (induction bs) (simp_all add: hex_byte_def byte_parts)

lemma hex_fromhex:
  "list_all is_hex s \<Longrightarrow> even (length s) \<Longrightarrow> concat (map hex_byte (fromhex s)) = s \<and> length (fromhex s) = length s div 2"
proof (induction s rule: fromhex.induct)
  case (1 a b s)
  then have "hex_value a < 16" "hex_value b < 16" "hex_char (hex_value a) = a" "hex_char (hex_value b) = b"
    using hex_char_value by auto
  moreover from this have "16 * hex_value a + hex_value b < 256" by simp
  ultimately show ?case using 1 by (simp add: hex_byte_def unat_byte)
qed auto

lemma takeWhile_stop: "list_all P xs \<Longrightarrow> \<not> P y \<Longrightarrow> takeWhile P (xs @ y # ys) = xs \<and> dropWhile P (xs @ y # ys) = y # ys"
  by (induction xs) auto

lemma ascii_append: "ascii (s @ t) = ascii s @ ascii t"
  by (simp add: ascii_def)

lemma no_colon:
  "domain_match s \<Longrightarrow> list_all (\<lambda>c. c \<noteq> 58) s" "version_match s \<Longrightarrow> list_all (\<lambda>c. c \<noteq> 58) s \<and> list_all is_digit s \<and> s \<noteq> []"
  by (cases s; auto simp: domain_match_def version_match_def domain_start_def domain_part_def is_digit_def list_all_iff)+

lemma if_Some_iff: "(if b then Some x else None) = Some y \<longleftrightarrow> b \<and> x = y"
  by simp

lemma match_token_iff:
  "match_token s = Some (domain, version, hex) \<longleftrightarrow>
     s = ascii ''pops.'' @ domain @ ascii ''.v'' @ version @ ascii '':sha256:'' @ hex
     \<and> domain_match domain \<and> version_match version \<and> length hex = 64 \<and> list_all is_hex hex"
proof
  assume *: "match_token s = Some (domain, version, hex)"
  let ?left = "takeWhile (\<lambda>c. c \<noteq> 58) s" and ?right = "dropWhile (\<lambda>c. c \<noteq> 58) s"
  note matched = * [unfolded match_token_def Let_def if_Some_iff prod.inject]
  then have v: "rev (takeWhile is_digit (rev ?left)) = version" and h: "drop 8 ?right = hex" by blast+
  have d: "drop 5 (take (length (take (length ?left - length version) ?left) - 2) (take (length ?left - length version) ?left)) = domain"
    using matched unfolding v by blast
  have n: "take (length ?left - length version) ?left = ascii ''pops.'' @ domain @ ascii ''.v''"
    and r: "?right = ascii '':sha256:'' @ hex"
    and rest: "domain_match domain" "version_match version" "length hex = 64" "list_all is_hex hex"
    using matched unfolding v d h by blast+
  have "rev ?left = rev version @ dropWhile is_digit (rev ?left)" unfolding v [symmetric] by simp
  then have "?left = rev (dropWhile is_digit (rev ?left)) @ version" by (metis rev_append rev_rev_ident)
  then have "?left = take (length ?left - length version) ?left @ version"
    by (metis append_eq_conv_conj length_append diff_add_inverse2)
  then have "?left = ascii ''pops.'' @ domain @ ascii ''.v'' @ version" unfolding n by simp
  then have "s = (ascii ''pops.'' @ domain @ ascii ''.v'' @ version) @ ascii '':sha256:'' @ hex"
    using r by (metis takeWhile_dropWhile_id)
  then show "s = ascii ''pops.'' @ domain @ ascii ''.v'' @ version @ ascii '':sha256:'' @ hex
     \<and> domain_match domain \<and> version_match version \<and> length hex = 64 \<and> list_all is_hex hex"
    using rest by simp
next
  assume *: "s = ascii ''pops.'' @ domain @ ascii ''.v'' @ version @ ascii '':sha256:'' @ hex
     \<and> domain_match domain \<and> version_match version \<and> length hex = 64 \<and> list_all is_hex hex"
  let ?named = "ascii ''pops.'' @ domain @ ascii ''.v''"
  have colon: "ascii '':sha256:'' = 58 # ascii ''sha256:''" by (simp add: ascii_def)
  have "list_all (\<lambda>c. c \<noteq> 58) (?named @ version)" using * no_colon by (simp add: ascii_def)
  from takeWhile_stop [OF this, of 58 "ascii ''sha256:'' @ hex"]
  have parts: "takeWhile (\<lambda>c. c \<noteq> 58) s = ?named @ version" "dropWhile (\<lambda>c. c \<noteq> 58) s = ascii '':sha256:'' @ hex"
    using * colon by simp_all
  have "rev (?named @ version) = rev version @ 118 # rev (ascii ''pops.'' @ domain @ ascii ''.'')"
    by (simp add: ascii_def)
  moreover have "list_all is_digit (rev version)" "\<not> is_digit 118" using * no_colon(2) by (simp_all add: is_digit_def)
  ultimately have digits: "takeWhile is_digit (rev (?named @ version)) = rev version"
    using takeWhile_stop by metis
  have named: "take (length (?named @ version) - length version) (?named @ version) = ?named" by simp
  have dom: "drop 5 (take (length ?named - 2) ?named) = domain" by (simp add: ascii_def)
  have hex: "drop 8 (ascii '':sha256:'' @ hex) = hex" by (simp add: ascii_def)
  show "match_token s = Some (domain, version, hex)"
    unfolding match_token_def Let_def parts digits rev_rev_ident named dom hex using * by simp
qed

section \<open>Decimal versions\<close>

lemma digits_nonzero: "1 \<le> n \<Longrightarrow> hd (digits n) \<noteq> 0"
proof (induction n rule: digits.induct)
  case (1 n)
  show ?case
  proof (cases "n < 10")
    case False
    then have "1 \<le> n div 10" by simp
    then show ?thesis using False "1.IH" by (simp add: digits_high)
  qed (use "1.prems" in \<open>simp add: digits_low\<close>)
qed

lemma version_text_match:
  assumes "1 \<le> n"
  shows "version_match (version_text n)"
proof -
  obtain d ds where d: "digits n = d # ds" using digits_nonempty by (metis neq_Nil_conv)
  have "d \<noteq> 0" using digits_nonzero [OF assms] by (simp add: d)
  moreover have "\<forall>x \<in> set (digits n). x < 10" using digits_small by blast
  ultimately show ?thesis
    by (auto simp: version_text_def version_match_def d digit_char_def is_digit_def list_all_iff)
qed

lemma version_text_value: "horner (map (\<lambda>c. c - 48) (version_text n)) = n"
  by (simp add: version_text_def comp_def digit_char_def horner_digits)

lemma digits_snoc: "0 < n \<Longrightarrow> d < 10 \<Longrightarrow> digits (10 * n + d) = digits n @ [d]"
  by (subst digits_high) auto

lemma digits_horner:
  "ds \<noteq> [] \<Longrightarrow> hd ds \<noteq> 0 \<Longrightarrow> \<forall>d \<in> set ds. d < 10 \<Longrightarrow> digits (horner ds) = ds \<and> 0 < horner ds"
proof (induction ds rule: rev_induct)
  case (snoc d ds)
  show ?case
  proof (cases "ds = []")
    case True
    then show ?thesis using snoc.prems by (simp add: horner_def digits_low)
  next
    case False
    then have "digits (horner ds) = ds \<and> 0 < horner ds" using snoc by simp
    moreover have "horner (ds @ [d]) = 10 * horner ds + d" by (simp add: horner_def)
    ultimately show ?thesis using snoc.prems by (simp add: digits_snoc)
  qed
qed simp

lemma value_version_text:
  assumes "version_match s"
  shows "version_text (horner (map (\<lambda>c. c - 48) s)) = s"
proof -
  let ?ds = "map (\<lambda>c. c - 48) s"
  obtain c cs where s: "s = c # cs" "49 \<le> c" "c \<le> 57" "list_all is_digit cs"
    using assms by (auto simp: version_match_def split: list.splits)
  then have "digits (horner ?ds) = ?ds" by (intro conjunct1 [OF digits_horner]) (auto simp: is_digit_def list_all_iff)
  moreover have "map digit_char ?ds = s"
    using s by (auto simp: digit_char_def is_digit_def list_all_iff intro!: map_idI)
  ultimately show ?thesis by (simp add: version_text_def)
qed

lemma version_text_short: "n \<le> 2 ^ 63 - 1 \<Longrightarrow> length (version_text n) \<le> 4300"
proof -
  assume n: "n \<le> 2 ^ 63 - 1"
  have "10 ^ (length (digits m) - 1) \<le> m" if "1 \<le> m" for m
    using that
  proof (induction m rule: digits.induct)
    case (1 m)
    show ?case
    proof (cases "m < 10")
      case False
      then have "10 ^ (length (digits (m div 10)) - 1) \<le> m div 10" using "1.IH" by simp
      moreover have "digits (m div 10) \<noteq> []" by simp
      then have "(10::nat) ^ length (digits (m div 10)) = 10 * 10 ^ (length (digits (m div 10)) - 1)"
        by (metis length_0_conv power_eq_if)
      ultimately show ?thesis using False by (simp add: digits_high)
    qed (use "1.prems" in \<open>simp add: digits_low\<close>)
  qed
  then have "n = 0 \<or> 10 ^ (length (digits n) - 1) \<le> n" by (cases n) auto
  moreover have "(2::nat) ^ 63 - 1 < 10 ^ 100" by simp
  ultimately have "n = 0 \<or> (10::nat) ^ (length (digits n) - 1) < 10 ^ 100" using n by linarith
  then have "length (digits n) \<le> 4300"
  proof
    assume "(10::nat) ^ (length (digits n) - 1) < 10 ^ 100"
    then have "length (digits n) - 1 < 100" by (rule power_less_imp_less_exp [rotated]) simp
    then show ?thesis by simp
  qed (simp add: digits_low)
  then show ?thesis by (simp add: version_text_def)
qed


section \<open>Round trips\<close>

lemma length_hexdigest: "length (hexdigest i) = 2 * length (id_digest i)" "list_all is_hex (hexdigest i)"
proof -
  show "length (hexdigest i) = 2 * length (id_digest i)"
    unfolding hexdigest_def by (induction "id_digest i" arbitrary: i) (auto simp: hex_byte_def length_concat comp_def sum_list_triv)
  show "list_all is_hex (hexdigest i)"
    by (auto simp: hexdigest_def list_all_iff hex_byte_def byte_parts intro!: is_hex_char)
qed

lemma from_token_iff: "from_token v = Inr i \<longleftrightarrow> identity_ok i \<and> v = OText (token i)"
proof
  assume "from_token v = Inr i"
  then obtain s domain version hex where v: "v = OText s" "match_token s = Some (domain, version, hex)"
      and i: "mk_identity (OText domain) (OInt (int (horner (map (\<lambda>c. c - 48) version)))) (OText (ascii ''sha256''))
        (OBytes (fromhex hex)) = Inr i"
    by (auto simp: from_token_def split: pyval.splits option.splits)
  note s = v(2) [unfolded match_token_iff]
  have "id_domain i = domain" "id_version i = horner (map (\<lambda>c. c - 48) version)" "id_digest i = fromhex hex" "identity_ok i"
    using i by (auto simp: mk_identity_Inr)
  moreover have "version_text (horner (map (\<lambda>c. c - 48) version)) = version" using s value_version_text by blast
  moreover have "concat (map hex_byte (fromhex hex)) = hex" using s hex_fromhex [of hex] by simp
  ultimately show "identity_ok i \<and> v = OText (token i)" using s v(1) by (simp add: token_def hexdigest_def)
next
  assume i: "identity_ok i \<and> v = OText (token i)"
  then have "match_token (token i) = Some (id_domain i, version_text (id_version i), hexdigest i)"
    unfolding match_token_iff token_def by (simp add: identity_ok_def length_hexdigest version_text_match)
  moreover have "fromhex (hexdigest i) = id_digest i" by (simp add: hexdigest_def fromhex_hex)
  moreover have "length (version_text (id_version i)) \<le> 4300" using i by (intro version_text_short) (simp add: identity_ok_def)
  ultimately show "from_token v = Inr i"
    using i by (simp add: from_token_def version_text_value mk_identity_Inr)
qed

text \<open>
  Claim C32. The token of an identity names it exactly: parsing a text returns an identity if and only if
  that identity is valid and the text is its token. So distinct identities have distinct tokens, and no other spelling
  of a token is accepted. The same holds of the data projection.\<close>

theorem tokens_name_identities:
  "(from_token v = Inr i \<longleftrightarrow> identity_ok i \<and> v = OText (token i))
   \<and> (from_data (identity_data j) = Inr j \<longleftrightarrow> identity_ok j)"
proof
  show "from_token v = Inr i \<longleftrightarrow> identity_ok i \<and> v = OText (token i)" by (rule from_token_iff)
  have "fst ` set (identity_data j) = required_keys" by (simp add: identity_data_def required_keys_def)
  then show "from_data (identity_data j) = Inr j \<longleftrightarrow> identity_ok j"
    by (simp add: from_data_def identity_data_def mk_identity_Inr)
qed

section \<open>Equal identities\<close>

lemma map_of_extend: "map_of h b = Some x \<Longrightarrow> a \<notin> fst ` set h \<Longrightarrow> map_of ((a, k) # h) b = Some x"
  by (metis fst_conv image_eqI map_of_Cons_code(2) map_of_SomeD)

lemma denotes_extend: "denotes h v c \<Longrightarrow> a \<notin> fst ` set h \<Longrightarrow> denotes ((a, k) # h) v c"
proof (induction rule: denotes.induct)
  case (denotes_list b vs cs)
  show ?case by (rule denotes.denotes_list [OF map_of_extend]) (use denotes_list in blast)+
next
  case (denotes_dict b es ks cs)
  show ?case by (rule denotes.denotes_dict [OF map_of_extend]) (use denotes_dict in blast)+
next
  case (denotes_set b vs cs)
  show ?case by (rule denotes.denotes_set [OF map_of_extend]) (use denotes_set in blast)+
qed simp_all

lemma fresh_is_new: "fresh h \<notin> fst ` set h"
proof
  assume "fresh h \<in> fst ` set h"
  then have "fresh h \<le> Max (insert 0 (fst ` set h))" by (intro Max_ge) auto
  then show False by (simp add: fresh_def)
qed

definition envelope_value :: "pytext \<Rightarrow> nat \<Rightarrow> cval \<Rightarrow> cval" where
  "envelope_value domain version payload =
     VMap (fmap_of_list [(ascii ''protocol'', VText (ascii ''pops.identity'')), (ascii ''domain'', VText domain),
       (ascii ''schema_version'', VInt (int version)), (ascii ''payload'', payload)])"

lemma envelope_means:
  assumes "denotes h payload c"
  shows "denotes ((fresh h, envelope d n payload) # h) (ORef (fresh h)) (envelope_value d n c)"
  unfolding envelope_value_def envelope_def
  by (rule denotes_dictI) (auto intro: denotes_extend [OF assms fresh_is_new])

lemma store_ok_envelope: "store_ok h \<Longrightarrow> store_ok ((a, envelope d n payload) # h)"
  by (simp add: store_ok_def envelope_def)

lemma envelope_value_inject:
  "envelope_value d n c = envelope_value d n c' \<Longrightarrow> c = c'"
proof -
  assume "envelope_value d n c = envelope_value d n c'"
  then have "fmlookup (fmap_of_list [(ascii ''protocol'', VText (ascii ''pops.identity'')), (ascii ''domain'', VText d),
       (ascii ''schema_version'', VInt (int n)), (ascii ''payload'', c)]) (ascii ''payload'')
     = fmlookup (fmap_of_list [(ascii ''protocol'', VText (ascii ''pops.identity'')), (ascii ''domain'', VText d),
       (ascii ''schema_version'', VInt (int n)), (ascii ''payload'', c')]) (ascii ''payload'')"
    unfolding envelope_value_def by simp
  then show "c = c'" by (simp add: fmlookup_of_list)
qed

definition envelope_bytes :: "identity \<Rightarrow> cval \<Rightarrow> byte list" where
  "envelope_bytes i c = cbor (envelope_value (id_domain i) (id_version i) c)"

lemma make_identity_Inr:
  assumes "store_ok h" "denotes h payload c" "make_identity sha256 h domain payload version = Inr i"
  shows "domain = OText (id_domain i) \<and> version = OInt (int (id_version i)) \<and> identity_ok i
    \<and> id_digest i = sha256 (envelope_bytes i c) \<and> encodable (envelope_value (id_domain i) (id_version i) c)"
proof -
  obtain d n b where d: "check_domain domain = Inr d" "check_version version = Inr n"
      and b: "canonical_bytes ((fresh h, envelope d n payload) # h) (ORef (fresh h)) = Inr b"
      and i: "mk_identity (OText d) (OInt (int n)) (OText (ascii ''sha256'')) (OBytes (sha256 b)) = Inr i"
    using assms(3) by (auto simp: make_identity_def)
  have fields: "id_domain i = d" "id_version i = n" "id_digest i = sha256 b" "identity_ok i"
    using i [unfolded mk_identity_Inr] by simp_all
  from b [unfolded canonical_bytes_Inr [OF store_ok_envelope [OF assms(1)]]] obtain e where
    e: "denotes ((fresh h, envelope d n payload) # h) (ORef (fresh h)) e" "encodable e" "b = cbor e" by blast
  have "e = envelope_value d n c" by (rule denotes_unique [OF envelope_means [OF assms(2)] e(1)])
  moreover have "domain = OText d" "version = OInt (int n)"
    using d by (auto simp: check_domain_def check_version_def split: pyval.splits)
  ultimately show ?thesis unfolding envelope_bytes_def fields(1-3) using e fields(4) by blast
qed

text \<open>
  Claim C25. Two identities are equal exactly when their domains, their schema versions and the values their
  payloads denote are equal, unless the digest collides on the two canonical envelopes. The representation of the
  payloads, their sharing and the order of their dictionaries and sets play no part.\<close>

theorem equal_identities_have_equal_payloads:
  assumes "store_ok h" "denotes h payload c" "make_identity sha256 h domain payload version = Inr i"
    and "store_ok h'" "denotes h' payload' c'" "make_identity sha256 h' domain' payload' version' = Inr i'"
  shows "i = i' \<longleftrightarrow> domain = domain' \<and> version = version'
    \<and> (c = c' \<or> envelope_bytes i c \<noteq> envelope_bytes i c' \<and> sha256 (envelope_bytes i c) = sha256 (envelope_bytes i c'))"
proof -
  note one = make_identity_Inr [OF assms(1-3)] and two = make_identity_Inr [OF assms(4-6)]
  have one': "domain = OText (id_domain i)" "version = OInt (int (id_version i))" "id_digest i = sha256 (envelope_bytes i c)"
    and two': "domain' = OText (id_domain i')" "version' = OInt (int (id_version i'))" "id_digest i' = sha256 (envelope_bytes i' c')"
    using one two by blast+
  let ?same = "c = c' \<or> envelope_bytes i c \<noteq> envelope_bytes i c' \<and> sha256 (envelope_bytes i c) = sha256 (envelope_bytes i c')"
  show ?thesis
  proof
    assume eq: "i = i'"
    have "c = c'" if "envelope_bytes i c = envelope_bytes i c'"
    proof (rule envelope_value_inject)
      show "envelope_value (id_domain i) (id_version i) c = envelope_value (id_domain i) (id_version i) c'"
        using cbor_inject [of _ _ "[]" "[]"] one two that unfolding eq envelope_bytes_def append_Nil2 by blast
    qed
    moreover have "sha256 (envelope_bytes i c) = sha256 (envelope_bytes i c')"
      using one'(3) two'(3) unfolding eq by (rule trans [OF sym])
    ultimately show "domain = domain' \<and> version = version' \<and> ?same" using one' two' eq by blast
  next
    assume *: "domain = domain' \<and> version = version' \<and> ?same"
    then have head: "id_domain i = id_domain i'" "id_version i = id_version i'" using one' two' by simp_all
    then have "envelope_bytes i' c' = envelope_bytes i c'" by (simp add: envelope_bytes_def)
    then have "id_digest i = id_digest i'" unfolding one'(3) two'(3) using * by (elim conjE disjE) simp_all
    then show "i = i'" using head by simp
  qed
qed

text \<open>A stand-in digest (the length of the bytes), on the two sample stores.\<close>

definition sample_digest :: "byte list \<Rightarrow> byte list" where
  "sample_digest b = replicate 32 (of_nat (length b))"

definition sample_identity :: "bool \<Rightarrow> identity result" where
  "sample_identity swapped =
     make_identity sample_digest (sample_store swapped) (OText (ascii ''semantic'')) (ORef 0) (OInt 1)"


lemma sample_identity_value: "is_value (sample_identity True)" "is_value (sample_identity False)"
  by (simp_all add: sample_identity_def make_identity_def check_domain_def check_version_def mk_identity_def fresh_def
      domain_match_def domain_start_def domain_part_def envelope_def ascii_def sample_digest_def run_encoder sample_store_def)

lemma sample_meaning: "\<exists>c. denotes (sample_store False) (ORef 0) c \<and> denotes (sample_store True) (ORef 0) c"
proof -
  obtain c c' where c: "denotes (sample_store False) (ORef 0) c" "encodable c" "cbor c = sample_encoding"
    and c': "denotes (sample_store True) (ORef 0) c'" "encodable c'" "cbor c' = sample_encoding"
    using sample_bytes unfolding canonical_bytes_Inr [OF sample_store_ok] by metis
  then have "c = c'" using cbor_inject [OF c(2) c'(2), of "[]" "[]"] by simp
  then show ?thesis using c(1) c'(1) by blast
qed

theorem equal_identities_have_equal_payloads_witness: "sample_identity False = sample_identity True"
proof -
  obtain i i' where i: "sample_identity False = Inr i" "sample_identity True = Inr i'"
    using sample_identity_value by (auto simp: is_value_iff)
  obtain c where c: "denotes (sample_store False) (ORef 0) c" "denotes (sample_store True) (ORef 0) c"
    using sample_meaning by blast
  have "i = i'"
    using equal_identities_have_equal_payloads [OF sample_store_ok c(1) i(1) [unfolded sample_identity_def]
        sample_store_ok c(2) i(2) [unfolded sample_identity_def]] by blast
  then show ?thesis using i by simp
qed

end
