(* ===== verification/Pops_Scratch.thy ===== *)
theory Pops_Scratch
  imports Pops_Passes
begin

text \<open>
  The scratch plan of a Program (\<open>python/pops/time/_program/inspection.py\<close>: \<open>scratch_liveness\<close>,
  \<open>buffer_reuse_report\<close>, \<open>estimate\<close>, \<open>gpu_detectors\<close>; \<open>python/pops/codegen/scratch_plan.py\<close>: the
  families, the reused and the rejected scratches of \<open>build_scratch_plan\<close>).

  A value of the flat list is its node (the record of the passes, whose references are those
  \<open>_subblock_value_refs\<close> yields), its name, type and block, the values found under the eight
  attributes \<open>scratch_liveness\<close> reads, the ids of its inputs of field type and the length of its
  \<open>coeffs\<close> attribute. The persistent solver buffers of the plan, its notes and its printed forms are
  not represented.
\<close>

section \<open>Live ranges\<close>

record 'a svalue =
  sv_node :: "'a node"
  sv_name :: string
  sv_vtype :: string
  sv_block :: "string option"
  sv_attr_reads :: "nat list"
  sv_field_inputs :: "nat list"
  sv_coeffs :: "nat option"

record 'a sprogram =
  sp_values :: "'a svalue list"
  sp_commits :: "(nat \<times> nat) list"

record live_range =
  lr_name :: string
  lr_op :: string
  lr_block :: "string option"
  lr_def :: nat
  lr_last :: nat
  lr_span :: nat

definition scratch_ops :: "string list" where
  "scratch_ops = [''rhs'', ''source'', ''implicit_source'', ''apply'', ''local_transform'', ''linear_combine'',
     ''linear_source'', ''solve_local_linear'', ''solve_local_nonlinear'', ''solve_coupled_implicit'',
     ''solve_implicit_source'', ''cell_compare'', ''where'', ''coupled_rate'']"

definition sv_id :: "'a svalue \<Rightarrow> nat" where
  "sv_id v = nd_id (sv_node v)"

definition sv_op :: "'a svalue \<Rightarrow> string" where
  "sv_op v = nd_op (sv_node v)"

text \<open>\<open>{v.id: i for i, v in enumerate(values)}\<close>: a later entry replaces an earlier one.\<close>

definition order_of :: "'a svalue list \<Rightarrow> nat \<Rightarrow> nat option" where
  "order_of vs = map_of (rev (zip (map sv_id vs) [0..<length vs]))"

definition value_reads :: "'a svalue \<Rightarrow> nat list" where
  "value_reads v = nd_inputs (sv_node v) @ sv_attr_reads v"

type_synonym last_uses = "nat \<Rightarrow> nat option"

definition touch :: "(nat \<Rightarrow> nat option) \<Rightarrow> nat \<Rightarrow> nat \<Rightarrow> last_uses \<Rightarrow> last_uses" where
  "touch ord i rid lu =
     (case ord rid of None \<Rightarrow> lu
      | Some d \<Rightarrow> lu(rid \<mapsto> max (case lu rid of None \<Rightarrow> d | Some l \<Rightarrow> l) i))"

definition keep_to_end :: "(nat \<Rightarrow> nat option) \<Rightarrow> nat \<Rightarrow> nat \<Rightarrow> last_uses \<Rightarrow> last_uses" where
  "keep_to_end ord e wid lu = (if ord wid = None then lu else lu(wid \<mapsto> e))"

definition scan_value :: "(nat \<Rightarrow> nat option) \<Rightarrow> nat \<Rightarrow> nat \<times> 'a svalue \<Rightarrow> last_uses \<Rightarrow> last_uses" where
  "scan_value ord e iv lu =
     (let (i, v) = iv; lu' = fold (touch ord i) (value_reads v) lu in
      if sv_op v \<in> set subblock_ops then fold (keep_to_end ord e) (nd_refs (sv_node v)) lu' else lu')"

definition last_uses :: "'a sprogram \<Rightarrow> last_uses" where
  "last_uses p =
     (let vs = sp_values p; ord = order_of vs; e = length vs - 1;
          lu = fold (scan_value ord e) (enumerate 0 vs) Map.empty in
      fold (\<lambda>(_, i). touch ord (Suc e) i) (sp_commits p) lu)"

definition held_until :: "'a sprogram \<Rightarrow> nat \<Rightarrow> nat" where
  "held_until p i =
     (case last_uses p i of Some l \<Rightarrow> l | None \<Rightarrow> (case order_of (sp_values p) i of Some d \<Rightarrow> d | None \<Rightarrow> 0))"

definition live_range_of :: "'a sprogram \<Rightarrow> 'a svalue \<Rightarrow> live_range" where
  "live_range_of p v =
     (let d = the (order_of (sp_values p) (sv_id v));
          lu = (case last_uses p (sv_id v) of Some l \<Rightarrow> l | None \<Rightarrow> d) in
      \<lparr>lr_name = sv_name v, lr_op = sv_op v, lr_block = sv_block v, lr_def = d, lr_last = lu, lr_span = lu - d\<rparr>)"

definition scratch_values :: "'a sprogram \<Rightarrow> 'a svalue list" where
  "scratch_values p = filter (\<lambda>v. sv_op v \<in> set scratch_ops) (sp_values p)"

definition scratch_liveness :: "'a sprogram \<Rightarrow> live_range list" where
  "scratch_liveness p = map (live_range_of p) (scratch_values p)"

section \<open>Greedy buffer reuse\<close>

record allocation =
  al_free :: "nat list"
  al_assign :: "string \<Rightarrow> nat option"
  al_reused :: nat

definition first_free :: "nat list \<Rightarrow> nat \<Rightarrow> nat option" where
  "first_free free d = List.find (\<lambda>b. free ! b < d) [0..<length free]"

definition alloc_step :: "live_range \<Rightarrow> allocation \<Rightarrow> allocation" where
  "alloc_step r a =
     (case first_free (al_free a) (lr_def r) of
        None \<Rightarrow> a\<lparr>al_free := al_free a @ [lr_last r],
                  al_assign := (al_assign a)(lr_name r \<mapsto> length (al_free a))\<rparr>
      | Some b \<Rightarrow> a\<lparr>al_free := (al_free a)[b := lr_last r],
                    al_assign := (al_assign a)(lr_name r \<mapsto> b), al_reused := Suc (al_reused a)\<rparr>)"

definition allocate :: "live_range list \<Rightarrow> allocation" where
  "allocate rs = fold alloc_step rs \<lparr>al_free = [], al_assign = Map.empty, al_reused = 0\<rparr>"

definition ranges_in_order :: "'a sprogram \<Rightarrow> live_range list" where
  "ranges_in_order p = sort_key lr_def (scratch_liveness p)"

record reuse_report =
  rr_scratch_count :: nat
  rr_buffer_count :: nat
  rr_reused :: nat
  rr_assignment :: "string \<Rightarrow> nat option"

definition buffer_reuse_report :: "'a sprogram \<Rightarrow> reuse_report" where
  "buffer_reuse_report p =
     (let rs = ranges_in_order p; a = allocate rs in
      \<lparr>rr_scratch_count = length rs, rr_buffer_count = length (al_free a),
       rr_reused = al_reused a, rr_assignment = al_assign a\<rparr>)"

section \<open>The plan\<close>

datatype family = StateFamily | RhsFamily | ScalarFieldFamily | OperatorFamily

definition scratch_family :: "string \<Rightarrow> string \<Rightarrow> family" where
  "scratch_family op vtype =
     (if op \<in> set [''linear_source''] then OperatorFamily
      else if op \<in> set [''rhs'', ''source'', ''apply'', ''coupled_rate''] then RhsFamily
      else if op \<in> set [''local_transform'', ''linear_combine'', ''solve_local_linear'',
                        ''solve_local_nonlinear'', ''solve_coupled_implicit'', ''where''] then StateFamily
      else if op \<in> set [''solve_linear'', ''scalar_field'', ''cell_compare''] then ScalarFieldFamily
      else if vtype = ''scalar_field'' then ScalarFieldFamily
      else StateFamily)"

definition vtype_of :: "'a sprogram \<Rightarrow> string \<Rightarrow> string" where
  "vtype_of p name =
     (case List.find (\<lambda>v. sv_name v = name) (sp_values p) of Some v \<Rightarrow> sv_vtype v | None \<Rightarrow> ''state'')"

definition category_count :: "'a sprogram \<Rightarrow> family \<Rightarrow> nat" where
  "category_count p f =
     length (filter (\<lambda>r. scratch_family (lr_op r) (vtype_of p (lr_name r)) = f) (scratch_liveness p))"

record reused_entry =
  re_scratch :: string
  re_op :: string
  re_buffer :: nat
  re_shares_with :: "string list"

type_synonym occupants = "nat \<Rightarrow> string list"

definition reused_step ::
  "(string \<Rightarrow> nat option) \<Rightarrow> (string \<Rightarrow> string) \<Rightarrow> live_range \<Rightarrow> occupants \<times> reused_entry list \<Rightarrow> occupants \<times> reused_entry list" where
  "reused_step asg op_of r s =
     (let (occ, out) = s; slot = the (asg (lr_name r)); prior = occ slot;
          out' = (if prior = [] then out
                  else out @ [\<lparr>re_scratch = lr_name r, re_op = op_of (lr_name r), re_buffer = slot, re_shares_with = prior\<rparr>]) in
      (occ(slot := prior @ [lr_name r]), out'))"

text \<open>\<open>op_of\<close> is filled from the liveness list: the op of the last scratch of that name.\<close>

definition op_table :: "live_range list \<Rightarrow> string \<Rightarrow> string" where
  "op_table rs name = the (map_of (rev (map (\<lambda>r. (lr_name r, lr_op r)) rs)) name)"

definition reused_list :: "'a sprogram \<Rightarrow> reused_entry list" where
  "reused_list p =
     snd (fold (reused_step (rr_assignment (buffer_reuse_report p)) (op_table (scratch_liveness p)))
       (ranges_in_order p) (\<lambda>_. [], []))"

text \<open>A reason names how many buffers were still live, the defining position and whether the
  auxiliary-field note is added; the other text says only that a fresh buffer was required.\<close>

datatype rejection = AllLive nat nat bool | FreshRequired nat bool

definition field_solve_indices :: "'a sprogram \<Rightarrow> nat list" where
  "field_solve_indices p =
     map fst (filter (\<lambda>(i, v). sv_op v \<in> set [''solve_fields'', ''solve_fields_from_blocks'']) (enumerate 0 (sp_values p)))"

definition reject_reason :: "live_range \<Rightarrow> string \<Rightarrow> nat list \<Rightarrow> nat list \<Rightarrow> rejection" where
  "reject_reason r op barriers blockers =
     (let aux = (op \<in> set [''rhs'', ''source'', ''apply'', ''coupled_rate'']
                 \<and> list_ex (\<lambda>f. lr_def r \<le> f \<and> f \<le> lr_last r) barriers) in
      if blockers \<noteq> [] then AllLive (length blockers) (lr_def r) aux else FreshRequired (lr_def r) aux)"

record reject_state =
  rj_ends :: "(nat \<times> nat) list"
  rj_count :: nat
  rj_out :: "(string \<times> string \<times> rejection) list"

definition rejected_step ::
  "(string \<Rightarrow> nat option) \<Rightarrow> (string \<Rightarrow> string) \<Rightarrow> nat list \<Rightarrow> live_range \<Rightarrow> reject_state \<Rightarrow> reject_state" where
  "rejected_step asg op_of barriers r s =
     (let slot = the (asg (lr_name r)); op = op_of (lr_name r);
          blockers = map fst (filter (\<lambda>(_, e). lr_def r \<le> e) (rj_ends s));
          s' = (if rj_count s \<le> slot
                then s\<lparr>rj_out := (if 0 < rj_count s then rj_out s @ [(lr_name r, op, reject_reason r op barriers blockers)]
                                  else rj_out s),
                       rj_count := Suc slot\<rparr>
                else s) in
      s'\<lparr>rj_ends := dict_set slot (lr_last r) (rj_ends s')\<rparr>)"

definition rejected_list :: "'a sprogram \<Rightarrow> (string \<times> string \<times> rejection) list" where
  "rejected_list p =
     rj_out (fold (rejected_step (rr_assignment (buffer_reuse_report p)) (op_table (scratch_liveness p)) (field_solve_indices p))
       (ranges_in_order p) \<lparr>rj_ends = [], rj_count = 0, rj_out = []\<rparr>)"

definition buffers_saved :: "'a sprogram \<Rightarrow> int" where
  "buffers_saved p = int (rr_scratch_count (buffer_reuse_report p)) - int (rr_buffer_count (buffer_reuse_report p))"

section \<open>The static cost estimate\<close>

definition percell_kernel_ops :: "string list" where
  "percell_kernel_ops = [''rhs'', ''source'', ''implicit_source'', ''apply'', ''linear_combine'', ''linear_source'',
     ''solve_local_linear'', ''solve_local_nonlinear'', ''solve_coupled_implicit'', ''cell_compare'', ''where'',
     ''coupled_rate'', ''local_transform'', ''project'', ''fill_boundary'']"

definition heavy_kernel_ops :: "string list" where
  "heavy_kernel_ops = [''solve_fields'', ''solve_fields_from_blocks'', ''solve_linear'', ''solve_coupled_implicit'',
     ''solve_implicit_source'']"

record cost =
  co_kernels :: nat
  co_small :: nat
  co_heavy :: nat
  co_reads :: nat
  co_writes :: nat

definition cost_step :: "'a svalue \<Rightarrow> cost \<Rightarrow> cost" where
  "cost_step v c =
     (if sv_op v \<in> set heavy_kernel_ops
      then c\<lparr>co_heavy := Suc (co_heavy c), co_kernels := Suc (co_kernels c),
             co_reads := Suc (co_reads c), co_writes := Suc (co_writes c)\<rparr>
      else if sv_op v \<in> set percell_kernel_ops
      then (let direct = length (remdups (sv_field_inputs v));
                fields = (case sv_coeffs v of None \<Rightarrow> direct | Some k \<Rightarrow> max direct k) in
            c\<lparr>co_kernels := Suc (co_kernels c),
              co_writes := co_writes c + (if sv_op v \<in> set scratch_ops then 1 else 0),
              co_reads := co_reads c + fields,
              co_small := co_small c + (if fields \<le> 2 then 1 else 0)\<rparr>)
      else c)"

definition estimate_cost :: "'a sprogram \<Rightarrow> cost" where
  "estimate_cost p = fold cost_step (sp_values p) \<lparr>co_kernels = 0, co_small = 0, co_heavy = 0, co_reads = 0, co_writes = 0\<rparr>"

definition traffic_fields :: "cost \<Rightarrow> nat" where
  "traffic_fields c = co_reads c + co_writes c"

definition gpu_detectors :: "'a sprogram \<Rightarrow> (string \<times> nat \<times> nat) list" where
  "gpu_detectors p =
     (let est = estimate_cost p in
      filter (\<lambda>(_, value, thresh). thresh < value)
        [(''too_many_small_kernels'', co_small est, 12),
         (''too_many_scratches'', rr_buffer_count (buffer_reuse_report p), 16),
         (''excessive_memory_traffic'', traffic_fields est, 40)])"

section \<open>What the live ranges cover\<close>

lemma order_of_SomeD: "order_of vs x = Some d \<Longrightarrow> d < length vs \<and> sv_id (vs ! d) = x"
  unfolding order_of_def by (drule map_of_SomeD) (auto simp: in_set_zip)

lemma order_of_nth:
  assumes "distinct (map sv_id vs)" and "d < length vs"
  shows "order_of vs (sv_id (vs ! d)) = Some d"
  unfolding order_of_def
proof (rule map_of_is_SomeI)
  show "distinct (map fst (rev (zip (map sv_id vs) [0..<length vs])))"
    using assms(1) by (simp flip: rev_map)
  show "(sv_id (vs ! d), d) \<in> set (rev (zip (map sv_id vs) [0..<length vs]))"
    using assms(2) by (auto simp: in_set_zip intro!: exI [of _ d])
qed

text \<open>\<open>used_at k x lu\<close>: the scan knows that value \<open>x\<close> is read at position \<open>k\<close> or later.\<close>

definition used_at :: "nat \<Rightarrow> nat \<Rightarrow> last_uses \<Rightarrow> bool" where
  "used_at k x lu \<longleftrightarrow> (\<exists>l. lu x = Some l \<and> k \<le> l)"

lemma used_at_mono: "used_at k x lu \<Longrightarrow> j \<le> k \<Longrightarrow> used_at j x lu"
  by (auto simp: used_at_def)

lemma touch_keeps: "used_at k x lu \<Longrightarrow> used_at k x (touch ord i r lu)"
  by (auto simp: used_at_def touch_def split: option.splits)

lemma touch_uses: "ord x = Some d \<Longrightarrow> used_at i x (touch ord i x lu)"
  by (auto simp: used_at_def touch_def split: option.splits)

lemma fold_touch_keeps: "used_at k x lu \<Longrightarrow> used_at k x (fold (touch ord i) rs lu)"
  by (induction rs arbitrary: lu) (auto intro: touch_keeps)

lemma fold_touch_uses: "x \<in> set rs \<Longrightarrow> ord x = Some d \<Longrightarrow> used_at i x (fold (touch ord i) rs lu)"
  by (induction rs arbitrary: lu) (auto intro: fold_touch_keeps touch_uses)

lemma keep_to_end_keeps: "used_at k x lu \<Longrightarrow> k \<le> e \<Longrightarrow> used_at k x (keep_to_end ord e w lu)"
  by (auto simp: used_at_def keep_to_end_def)

lemma fold_keep_keeps: "used_at k x lu \<Longrightarrow> k \<le> e \<Longrightarrow> used_at k x (fold (keep_to_end ord e) ws lu)"
  by (induction ws arbitrary: lu) (auto intro: keep_to_end_keeps)

lemma fold_keep_uses: "x \<in> set ws \<Longrightarrow> ord x = Some d \<Longrightarrow> used_at e x (fold (keep_to_end ord e) ws lu)"
proof (induction ws arbitrary: lu)
  case (Cons w ws)
  show ?case
  proof (cases "x \<in> set ws")
    case False
    with Cons.prems have "used_at e x (keep_to_end ord e w lu)" by (auto simp: keep_to_end_def used_at_def)
    then show ?thesis by (auto intro: fold_keep_keeps)
  qed (use Cons in auto)
qed simp

lemma scan_value_keeps: "used_at k x lu \<Longrightarrow> k \<le> e \<Longrightarrow> used_at k x (scan_value ord e iv lu)"
  by (auto simp: scan_value_def Let_def split: prod.splits intro: fold_touch_keeps fold_keep_keeps)

lemma fold_scan_keeps: "used_at k x lu \<Longrightarrow> k \<le> e \<Longrightarrow> used_at k x (fold (scan_value ord e) ivs lu)"
  by (induction ivs arbitrary: lu) (auto intro: scan_value_keeps)

lemma scan_value_reads:
  assumes "x \<in> set (value_reads v) \<or> sv_op v \<in> set subblock_ops \<and> x \<in> set (nd_refs (sv_node v))"
    and "ord x = Some d" and "i \<le> e"
  shows "used_at i x (scan_value ord e (i, v) lu)"
  using assms
  by (auto simp: scan_value_def Let_def intro: fold_touch_uses fold_keep_keeps used_at_mono [OF fold_keep_uses])

lemma fold_scan_reads:
  assumes "(i, v) \<in> set ivs" and "i \<le> e"
    and "x \<in> set (value_reads v) \<or> sv_op v \<in> set subblock_ops \<and> x \<in> set (nd_refs (sv_node v))"
    and "ord x = Some d"
  shows "used_at i x (fold (scan_value ord e) ivs lu)"
  using assms(1)
proof (induction ivs arbitrary: lu)
  case (Cons iv ivs)
  then show ?case
    using scan_value_reads [of x v ord d i e] assms(2-4) by (auto intro: fold_scan_keeps)
qed simp

lemma fold_commit_keeps: "used_at k x lu \<Longrightarrow> used_at k x (fold (\<lambda>(_, i). touch ord n i) cs lu)"
  by (induction cs arbitrary: lu) (auto intro: touch_keeps)

lemma fold_commit_uses: "(r, x) \<in> set cs \<Longrightarrow> ord x = Some d \<Longrightarrow> used_at n x (fold (\<lambda>(_, i). touch ord n i) cs lu)"
  by (induction cs arbitrary: lu) (auto intro: fold_commit_keeps touch_uses)

lemma last_uses_reads:
  assumes "i < length (sp_values p)" and "v = sp_values p ! i"
    and "x \<in> set (value_reads v) \<or> sv_op v \<in> set subblock_ops \<and> x \<in> set (nd_refs (sv_node v))"
    and "order_of (sp_values p) x = Some d"
  shows "used_at i x (last_uses p)"
proof -
  have "(i, v) \<in> set (enumerate 0 (sp_values p))"
    using assms(1,2) by (force simp: enumerate_eq_zip in_set_zip)
  then show ?thesis
    unfolding last_uses_def Let_def using assms
    by (intro fold_commit_keeps fold_scan_reads) auto
qed

lemma last_uses_commits:
  assumes "(r, x) \<in> set (sp_commits p)" and "order_of (sp_values p) x = Some d"
  shows "used_at (length (sp_values p)) x (last_uses p)"
proof -
  have "d < length (sp_values p)" using assms(2) by (auto dest: order_of_SomeD)
  then have "Suc (length (sp_values p) - 1) = length (sp_values p)" by simp
  then show ?thesis
    unfolding last_uses_def Let_def using fold_commit_uses [OF assms(1), where ord = "order_of (sp_values p)"] assms(2)
    by metis
qed

lemma used_at_held: "used_at k x (last_uses p) \<Longrightarrow> k \<le> held_until p x"
  by (auto simp: used_at_def held_until_def)

text \<open>Nothing is held to a position before its definition.\<close>

definition uses_after_def :: "(nat \<Rightarrow> nat option) \<Rightarrow> last_uses \<Rightarrow> bool" where
  "uses_after_def ord lu \<longleftrightarrow> (\<forall>x l d. lu x = Some l \<longrightarrow> ord x = Some d \<longrightarrow> d \<le> l)"

lemma touch_after: "uses_after_def ord lu \<Longrightarrow> uses_after_def ord (touch ord i r lu)"
  by (fastforce simp: uses_after_def_def touch_def split: option.splits)

lemma keep_after: "uses_after_def ord lu \<Longrightarrow> (\<And>x d. ord x = Some d \<Longrightarrow> d \<le> e) \<Longrightarrow> uses_after_def ord (keep_to_end ord e w lu)"
  by (auto simp: uses_after_def_def keep_to_end_def)

lemma fold_keeps: "I s \<Longrightarrow> (\<And>x s. I s \<Longrightarrow> I (f x s)) \<Longrightarrow> I (fold f xs s)"
  by (induction xs arbitrary: s) auto

lemma last_uses_after: "uses_after_def (order_of (sp_values p)) (last_uses p)"
proof -
  let ?ord = "order_of (sp_values p)" and ?e = "length (sp_values p) - 1"
  let ?I = "uses_after_def ?ord"
  have e: "d \<le> ?e" if "?ord x = Some d" for x d
    using order_of_SomeD [OF that] by linarith
  have step: "?I (scan_value ?ord ?e iv lu)" if "?I lu" for iv lu
    using that e unfolding scan_value_def Let_def
    by (auto split: prod.splits intro!: fold_keeps [where I = ?I] touch_after keep_after)
  have "?I Map.empty" by (simp add: uses_after_def_def)
  then have "?I (fold (scan_value ?ord ?e) (enumerate 0 (sp_values p)) Map.empty)"
    by (rule fold_keeps [where I = ?I]) (rule step)
  then have "?I (fold (\<lambda>(_, i). touch ?ord (Suc ?e) i) (sp_commits p)
      (fold (scan_value ?ord ?e) (enumerate 0 (sp_values p)) Map.empty))"
    by (rule fold_keeps [where I = ?I]) (simp add: touch_after split: prod.split)
  then show ?thesis by (simp add: last_uses_def Let_def)
qed

lemma held_after_def:
  assumes "order_of (sp_values p) x = Some d" shows "d \<le> held_until p x"
  using last_uses_after assms by (auto simp: held_until_def uses_after_def_def split: option.split)

lemma live_range_fields:
  assumes "order_of (sp_values p) (sv_id v) = Some d"
  shows "lr_def (live_range_of p v) = d" "lr_last (live_range_of p v) = held_until p (sv_id v)"
    "lr_name (live_range_of p v) = sv_name v" "lr_op (live_range_of p v) = sv_op v"
  using assms by (simp_all add: live_range_of_def held_until_def Let_def split: option.split)

section \<open>Reuse is sound and minimal\<close>

text \<open>The greedy pass over ranges in increasing order of definition.\<close>

definition ordered_ranges :: "live_range list \<Rightarrow> bool" where
  "ordered_ranges rs \<longleftrightarrow> sorted_wrt (\<lambda>r r'. lr_def r < lr_def r') rs \<and> (\<forall>r \<in> set rs. lr_def r \<le> lr_last r)
     \<and> distinct (map lr_name rs)"

definition overlap :: "live_range \<Rightarrow> live_range \<Rightarrow> bool" where
  "overlap r r' \<longleftrightarrow> lr_def r \<le> lr_last r' \<and> lr_def r' \<le> lr_last r"

lemma overlap_sym: "overlap r r' \<longleftrightarrow> overlap r' r"
  by (auto simp: overlap_def)

text \<open>A set of ranges that all contain one position.\<close>

definition clash_set :: "live_range set \<Rightarrow> bool" where
  "clash_set W \<longleftrightarrow> (\<exists>t. \<forall>r \<in> W. lr_def r \<le> t \<and> t \<le> lr_last r)"

lemma clash_set_overlap: "clash_set W \<Longrightarrow> r \<in> W \<Longrightarrow> r' \<in> W \<Longrightarrow> overlap r r'"
  unfolding clash_set_def overlap_def by (meson le_trans)

definition slot_of :: "allocation \<Rightarrow> live_range \<Rightarrow> nat" where
  "slot_of a r = the (al_assign a (lr_name r))"

definition alloc_inv :: "live_range list \<Rightarrow> allocation \<Rightarrow> bool" where
  "alloc_inv rs a \<longleftrightarrow>
     (\<forall>r \<in> set rs. \<exists>b < length (al_free a). al_assign a (lr_name r) = Some b \<and> lr_last r \<le> al_free a ! b)
     \<and> (\<forall>b < length (al_free a). \<exists>r \<in> set rs. al_assign a (lr_name r) = Some b \<and> lr_last r = al_free a ! b)
     \<and> (\<forall>r \<in> set rs. \<forall>r' \<in> set rs. r \<noteq> r' \<longrightarrow> slot_of a r = slot_of a r' \<longrightarrow> \<not> overlap r r')
     \<and> (\<exists>W \<subseteq> set rs. card W = length (al_free a) \<and> clash_set W)
     \<and> al_reused a + length (al_free a) = length rs"

lemma first_free_Some: "first_free free d = Some b \<Longrightarrow> b < length free \<and> free ! b < d"
  by (auto simp: first_free_def find_Some_iff)

lemma first_free_None: "first_free free d = None \<longleftrightarrow> (\<forall>b < length free. d \<le> free ! b)"
  by (auto simp: first_free_def find_None_iff not_less dest: leD)

text \<open>One step of the pass keeps the invariant, on a fresh buffer and on a recycled one.\<close>

lemma alloc_fresh:
  assumes I: "alloc_inv rs a" and later: "\<forall>r' \<in> set rs. lr_def r' < lr_def r" and after: "lr_def r \<le> lr_last r"
    and new: "lr_name r \<notin> lr_name ` set rs" and none: "first_free (al_free a) (lr_def r) = None"
  shows "alloc_inv (rs @ [r]) (alloc_step r a)"
proof -
  let ?n = "length (al_free a)" and ?a = "alloc_step r a"
  have a': "al_free ?a = al_free a @ [lr_last r]" "al_assign ?a = (al_assign a)(lr_name r \<mapsto> ?n)" "al_reused ?a = al_reused a"
    by (simp_all add: alloc_step_def none)
  have same: "al_assign ?a (lr_name r') = al_assign a (lr_name r')" if "r' \<in> set rs" for r'
    using new that by (metis a'(2) fun_upd_apply imageI)
  have full: "lr_def r \<le> al_free a ! b" if "b < ?n" for b using none that by (simp add: first_free_None)
  have holds: "\<forall>r' \<in> set rs. \<exists>b < ?n. al_assign a (lr_name r') = Some b \<and> lr_last r' \<le> al_free a ! b"
    and occ: "\<forall>b < ?n. \<exists>r' \<in> set rs. al_assign a (lr_name r') = Some b \<and> lr_last r' = al_free a ! b"
    and apart: "\<forall>r \<in> set rs. \<forall>r' \<in> set rs. r \<noteq> r' \<longrightarrow> slot_of a r = slot_of a r' \<longrightarrow> \<not> overlap r r'"
    and count: "al_reused a + ?n = length rs"
    using I by (auto simp: alloc_inv_def)
  have 1: "\<forall>r' \<in> set (rs @ [r]). \<exists>b < length (al_free ?a). al_assign ?a (lr_name r') = Some b \<and> lr_last r' \<le> al_free ?a ! b"
    using holds same by (fastforce simp: a' nth_append)
  have 2: "\<forall>b < length (al_free ?a). \<exists>r' \<in> set (rs @ [r]). al_assign ?a (lr_name r') = Some b \<and> lr_last r' = al_free ?a ! b"
    using occ same by (fastforce simp: a' nth_append less_Suc_eq)
  have old: "slot_of ?a r' = slot_of a r'" if "r' \<in> set rs" for r'
    using same [OF that] by (simp add: slot_of_def)
  have below: "slot_of a r' \<noteq> ?n" if "r' \<in> set rs" for r'
    using holds that by (fastforce simp: slot_of_def)
  have mine: "slot_of ?a r = ?n" by (simp add: slot_of_def a')
  have 3: "\<forall>r1 \<in> set (rs @ [r]). \<forall>r2 \<in> set (rs @ [r]). r1 \<noteq> r2 \<longrightarrow> slot_of ?a r1 = slot_of ?a r2 \<longrightarrow> \<not> overlap r1 r2"
    using apart old mine below below [symmetric] by (auto simp: overlap_sym)
  obtain f where f: "\<And>b. b < ?n \<Longrightarrow> f b \<in> set rs \<and> al_assign a (lr_name (f b)) = Some b \<and> lr_last (f b) = al_free a ! b"
    using occ by metis
  let ?W = "insert r (f ` {..<?n})"
  have inj: "inj_on f {..<?n}" by (rule inj_onI) (metis f lessThan_iff option.inject)
  have notin: "r \<notin> f ` {..<?n}" using f later by fastforce
  have "card ?W = length (al_free ?a)" using inj notin by (simp add: a' card_image)
  moreover have "clash_set ?W"
    unfolding clash_set_def using f later full after by (intro exI [of _ "lr_def r"]) (auto intro: less_imp_le)
  moreover have "?W \<subseteq> set (rs @ [r])" using f by auto
  ultimately have 4: "\<exists>W \<subseteq> set (rs @ [r]). card W = length (al_free ?a) \<and> clash_set W" by blast
  have 5: "al_reused ?a + length (al_free ?a) = length (rs @ [r])" using count by (simp add: a')
  show ?thesis unfolding alloc_inv_def using 1 2 3 4 5 by blast
qed

lemma alloc_recycled:
  assumes I: "alloc_inv rs a" and later: "\<forall>r' \<in> set rs. lr_def r' < lr_def r" and after: "lr_def r \<le> lr_last r"
    and new: "lr_name r \<notin> lr_name ` set rs" and some: "first_free (al_free a) (lr_def r) = Some b"
  shows "alloc_inv (rs @ [r]) (alloc_step r a)"
proof -
  let ?n = "length (al_free a)" and ?a = "alloc_step r a"
  have a': "al_free ?a = (al_free a)[b := lr_last r]" "al_assign ?a = (al_assign a)(lr_name r \<mapsto> b)" "al_reused ?a = Suc (al_reused a)"
    by (simp_all add: alloc_step_def some)
  have b: "b < ?n" "al_free a ! b < lr_def r" using first_free_Some [OF some] by auto
  have same: "al_assign ?a (lr_name r') = al_assign a (lr_name r')" if "r' \<in> set rs" for r'
    using new that by (metis a'(2) fun_upd_apply imageI)
  have holds: "\<forall>r' \<in> set rs. \<exists>b < ?n. al_assign a (lr_name r') = Some b \<and> lr_last r' \<le> al_free a ! b"
    and occ: "\<forall>b < ?n. \<exists>r' \<in> set rs. al_assign a (lr_name r') = Some b \<and> lr_last r' = al_free a ! b"
    and apart: "\<forall>r \<in> set rs. \<forall>r' \<in> set rs. r \<noteq> r' \<longrightarrow> slot_of a r = slot_of a r' \<longrightarrow> \<not> overlap r r'"
    and wit: "\<exists>W \<subseteq> set rs. card W = ?n \<and> clash_set W"
    and count: "al_reused a + ?n = length rs"
    using I by (auto simp: alloc_inv_def)
  have grow: "al_free a ! c \<le> al_free ?a ! c" if "c < ?n" for c
    using b after that by (auto simp: a' nth_list_update)
  have 1: "\<forall>r' \<in> set (rs @ [r]). \<exists>b < length (al_free ?a). al_assign ?a (lr_name r') = Some b \<and> lr_last r' \<le> al_free ?a ! b"
  proof
    fix r' assume "r' \<in> set (rs @ [r])"
    then consider "r' \<in> set rs" | "r' = r" by auto
    then show "\<exists>b < length (al_free ?a). al_assign ?a (lr_name r') = Some b \<and> lr_last r' \<le> al_free ?a ! b"
    proof cases
      case 1
      then obtain c where c: "c < ?n" "al_assign a (lr_name r') = Some c" "lr_last r' \<le> al_free a ! c" using holds by blast
      then show ?thesis using same [OF 1] grow [OF c(1)] by (intro exI [of _ c]) (auto simp: a')
    next
      case 2
      then show ?thesis using b by (simp add: a')
    qed
  qed
  have 2: "\<forall>c < length (al_free ?a). \<exists>r' \<in> set (rs @ [r]). al_assign ?a (lr_name r') = Some c \<and> lr_last r' = al_free ?a ! c"
  proof (intro allI impI)
    fix c assume c: "c < length (al_free ?a)"
    show "\<exists>r' \<in> set (rs @ [r]). al_assign ?a (lr_name r') = Some c \<and> lr_last r' = al_free ?a ! c"
    proof (cases "c = b")
      case True
      then show ?thesis using b by (simp add: a')
    next
      case False
      then obtain r' where "r' \<in> set rs" "al_assign a (lr_name r') = Some c" "lr_last r' = al_free a ! c"
        using occ c by (auto simp: a')
      then show ?thesis using False same by (intro bexI [of _ r']) (auto simp: a')
    qed
  qed
  have old: "slot_of ?a r' = slot_of a r'" if "r' \<in> set rs" for r'
    using same [OF that] by (simp add: slot_of_def)
  have dead: "\<not> overlap r r'" if "r' \<in> set rs" "slot_of a r' = b" for r'
  proof -
    have "lr_last r' \<le> al_free a ! b" using holds that by (fastforce simp: slot_of_def)
    then show ?thesis using b by (simp add: overlap_def)
  qed
  have mine: "slot_of ?a r = b" by (simp add: slot_of_def a')
  have 3: "\<forall>r1 \<in> set (rs @ [r]). \<forall>r2 \<in> set (rs @ [r]). r1 \<noteq> r2 \<longrightarrow> slot_of ?a r1 = slot_of ?a r2 \<longrightarrow> \<not> overlap r1 r2"
    using apart old mine dead by (auto simp: overlap_sym)
  have 4: "\<exists>W \<subseteq> set (rs @ [r]). card W = length (al_free ?a) \<and> clash_set W"
    using wit by (auto simp: a')
  have 5: "al_reused ?a + length (al_free ?a) = length (rs @ [r])" using count by (simp add: a')
  show ?thesis unfolding alloc_inv_def using 1 2 3 4 5 by blast
qed

lemma allocate_inv: "ordered_ranges rs \<Longrightarrow> alloc_inv rs (allocate rs)"
proof (induction rs rule: rev_induct)
  case Nil
  have "clash_set {}" by (simp add: clash_set_def)
  then show ?case by (auto simp: alloc_inv_def allocate_def)
next
  case (snoc r rs)
  then have "alloc_inv rs (allocate rs)" by (simp add: ordered_ranges_def sorted_wrt_append)
  moreover have "\<forall>r' \<in> set rs. lr_def r' < lr_def r" "lr_def r \<le> lr_last r" "lr_name r \<notin> lr_name ` set rs"
    using snoc.prems by (auto simp: ordered_ranges_def sorted_wrt_append)
  ultimately have "alloc_inv (rs @ [r]) (alloc_step r (allocate rs))"
    by (cases "first_free (al_free (allocate rs)) (lr_def r)") (blast intro: alloc_fresh alloc_recycled)+
  then show ?case by (simp add: allocate_def)
qed

text \<open>A Program whose flat values have distinct ids and whose scratches have distinct names.\<close>

definition scratch_ok :: "'a sprogram \<Rightarrow> bool" where
  "scratch_ok p \<longleftrightarrow> distinct (map sv_id (sp_values p)) \<and> distinct (map sv_name (scratch_values p))"

lemma order_of_mem: "distinct (map sv_id vs) \<Longrightarrow> v \<in> set vs \<Longrightarrow> \<exists>d < length vs. vs ! d = v \<and> order_of vs (sv_id v) = Some d"
  by (metis in_set_conv_nth order_of_nth)

lemma liveness_sorted:
  assumes "distinct (map sv_id (sp_values p))"
  shows "sorted_wrt (\<lambda>r r'. lr_def r < lr_def r') (scratch_liveness p)"
proof -
  let ?vs = "sp_values p"
  have "sorted_wrt (\<lambda>v v'. lr_def (live_range_of p v) < lr_def (live_range_of p v')) ?vs"
    using assms by (auto simp: sorted_wrt_iff_nth_less live_range_fields(1) [OF order_of_nth])
  then have "sorted_wrt (\<lambda>v v'. lr_def (live_range_of p v) < lr_def (live_range_of p v')) (scratch_values p)"
    unfolding scratch_values_def by (rule sorted_wrt_filter)
  then show ?thesis by (simp add: scratch_liveness_def sorted_wrt_map)
qed

lemma ranges_in_order_eq:
  assumes "distinct (map sv_id (sp_values p))" shows "ranges_in_order p = scratch_liveness p"
proof -
  have "sorted (map lr_def (scratch_liveness p))"
    using liveness_sorted [OF assms] by (auto simp: sorted_wrt_map intro: sorted_wrt_mono_rel [rotated])
  then show ?thesis by (simp add: ranges_in_order_def sort_key_id_if_sorted)
qed

lemma ranges_ordered: "scratch_ok p \<Longrightarrow> ordered_ranges (ranges_in_order p)"
proof -
  assume ok: "scratch_ok p"
  then have d: "distinct (map sv_id (sp_values p))" by (simp add: scratch_ok_def)
  have after: "lr_def r \<le> lr_last r" if r: "r \<in> set (scratch_liveness p)" for r
  proof -
    from r obtain v where v: "v \<in> set (sp_values p)" "r = live_range_of p v"
      by (auto simp: scratch_liveness_def scratch_values_def)
    then obtain k where "order_of (sp_values p) (sv_id v) = Some k" using order_of_mem [OF d] by blast
    then show ?thesis using held_after_def [of p "sv_id v" k] by (simp add: v(2) live_range_fields)
  qed
  have "map lr_name (scratch_liveness p) = map sv_name (scratch_values p)"
    by (simp add: scratch_liveness_def live_range_of_def Let_def)
  then show ?thesis
    using ok liveness_sorted [OF d] after by (simp add: ordered_ranges_def ranges_in_order_eq [OF d] scratch_ok_def)
qed

lemma report_inv: "scratch_ok p \<Longrightarrow> alloc_inv (ranges_in_order p) (allocate (ranges_in_order p))"
  by (rule allocate_inv) (rule ranges_ordered)

text \<open>Any assignment that separates overlapping ranges uses at least as many buffers.\<close>

lemma clash_needs_buffers:
  assumes "finite R" and "W \<subseteq> R" and "clash_set W"
    and sep: "\<And>r r'. r \<in> R \<Longrightarrow> r' \<in> R \<Longrightarrow> r \<noteq> r' \<Longrightarrow> overlap r r' \<Longrightarrow> f r \<noteq> f r'"
  shows "card W \<le> card (f ` R)"
proof -
  have "inj_on f W"
    by (rule inj_onI) (metis assms(2,3) clash_set_overlap sep subsetD)
  then have "card W = card (f ` W)" by (simp add: card_image)
  also have "\<dots> \<le> card (f ` R)" using assms(1,2) by (intro card_mono) auto
  finally show ?thesis .
qed

definition report_slot :: "'a sprogram \<Rightarrow> live_range \<Rightarrow> nat" where
  "report_slot p r = the (rr_assignment (buffer_reuse_report p) (lr_name r))"

lemma report_slot_alloc: "report_slot p r = slot_of (allocate (ranges_in_order p)) r"
  by (simp add: report_slot_def slot_of_def buffer_reuse_report_def Let_def)

lemma slots_exactly: "alloc_inv rs a \<Longrightarrow> slot_of a ` set rs = {..<length (al_free a)}"
  unfolding alloc_inv_def slot_of_def by (auto simp: image_iff) (metis option.sel)+

text \<open>
  Claim C7. The reuse report is sound and its buffer count is the minimum, for every Program with distinct
  ids whose scratches have distinct names: every scratch gets a buffer below the count, two
  scratches on one buffer have disjoint live ranges, and no assignment of buffers that keeps
  overlapping ranges apart uses fewer buffers.
\<close>

theorem buffer_reuse_is_minimal:
  assumes "scratch_ok p"
  defines "rs \<equiv> set (scratch_liveness p)" and "n \<equiv> rr_buffer_count (buffer_reuse_report p)"
  shows "report_slot p ` rs = {..<n}
    \<and> (\<forall>r \<in> rs. \<forall>r' \<in> rs. r \<noteq> r' \<longrightarrow> report_slot p r = report_slot p r' \<longrightarrow> \<not> overlap r r')
    \<and> (\<forall>f :: live_range \<Rightarrow> nat. (\<forall>r \<in> rs. \<forall>r' \<in> rs. r \<noteq> r' \<longrightarrow> overlap r r' \<longrightarrow> f r \<noteq> f r') \<longrightarrow> n \<le> card (f ` rs))
    \<and> rr_reused (buffer_reuse_report p) + n = card rs"
proof -
  let ?a = "allocate (ranges_in_order p)"
  have rs: "rs = set (ranges_in_order p)" by (simp add: rs_def ranges_in_order_def)
  have n: "n = length (al_free ?a)" and ru: "rr_reused (buffer_reuse_report p) = al_reused ?a"
    by (simp_all add: n_def buffer_reuse_report_def Let_def)
  note inv = report_inv [OF assms(1)]
  have apart: "\<forall>r \<in> rs. \<forall>r' \<in> rs. r \<noteq> r' \<longrightarrow> report_slot p r = report_slot p r' \<longrightarrow> \<not> overlap r r'"
    and wit: "\<exists>W \<subseteq> rs. card W = n \<and> clash_set W" and count: "al_reused ?a + n = length (ranges_in_order p)"
    using inv by (auto simp: alloc_inv_def rs n report_slot_alloc)
  have all: "report_slot p ` rs = {..<n}"
    using slots_exactly [OF inv] by (simp add: rs n report_slot_alloc image_def)
  have min: "n \<le> card (f ` rs)" if "\<forall>r \<in> rs. \<forall>r' \<in> rs. r \<noteq> r' \<longrightarrow> overlap r r' \<longrightarrow> f r \<noteq> f r'" for f :: "live_range \<Rightarrow> nat"
  proof -
    obtain W where W: "W \<subseteq> rs" "card W = n" "clash_set W" using wit by blast
    have "card W \<le> card (f ` rs)" by (rule clash_needs_buffers [OF _ W(1,3)]) (use that in \<open>auto simp: rs_def\<close>)
    then show ?thesis by (simp add: W(2))
  qed
  have "distinct (ranges_in_order p)"
    using ranges_ordered [OF assms(1)] by (auto simp: ordered_ranges_def distinct_map)
  then have "card rs = length (ranges_in_order p)" by (simp add: rs distinct_card)
  then show ?thesis using apart all count min ru by auto
qed

section \<open>The plan accounts for every scratch\<close>

lemma allocate_snoc: "allocate (rs @ [r]) = alloc_step r (allocate rs)"
  by (simp add: allocate_def)

lemma alloc_step_other: "x \<noteq> lr_name r \<Longrightarrow> al_assign (alloc_step r a) x = al_assign a x"
  by (auto simp: alloc_step_def split: option.split)

lemma allocate_stable: "x \<notin> lr_name ` set qs \<Longrightarrow> al_assign (allocate (ps @ qs)) x = al_assign (allocate ps) x"
  by (induction qs rule: rev_induct) (simp_all add: allocate_snoc alloc_step_other flip: append_assoc)

lemma final_slot:
  assumes "ordered_ranges (ps @ r # qs)"
  shows "al_assign (allocate (ps @ r # qs)) (lr_name r) = al_assign (alloc_step r (allocate ps)) (lr_name r)"
  using allocate_stable [of "lr_name r" qs "ps @ [r]"] assms by (simp add: allocate_snoc ordered_ranges_def)

lemma ordered_prefix: "ordered_ranges (ps @ qs) \<Longrightarrow> ordered_ranges ps"
  by (auto simp: ordered_ranges_def sorted_wrt_append)

lemma op_table_eq:
  assumes "distinct (map lr_name rs)" and "r \<in> set rs"
  shows "op_table rs (lr_name r) = lr_op r"
proof -
  have "distinct (map fst (rev (map (\<lambda>r. (lr_name r, lr_op r)) rs)))"
    using assms(1) by (simp add: comp_def rev_map [symmetric] del: rev_map)
  moreover have "(lr_name r, lr_op r) \<in> set (rev (map (\<lambda>r. (lr_name r, lr_op r)) rs))"
    using assms(2) by (force simp: rev_map [symmetric])
  ultimately show ?thesis unfolding op_table_def by (simp add: map_of_is_SomeI)
qed

definition explained :: "live_range list \<Rightarrow> (live_range \<Rightarrow> nat) \<Rightarrow> nat list \<Rightarrow> string \<times> string \<times> rejection \<Rightarrow> bool" where
  "explained rs slot barriers x \<longleftrightarrow>
     (\<exists>r \<in> set rs. 0 < slot r \<and> x = (lr_name r, lr_op r,
        AllLive (slot r) (lr_def r)
          (lr_op r \<in> set [''rhs'', ''source'', ''apply'', ''coupled_rate''] \<and> (\<exists>f \<in> set barriers. lr_def r \<le> f \<and> f \<le> lr_last r))))"

definition reject_inv ::
  "live_range list \<Rightarrow> (live_range \<Rightarrow> nat) \<Rightarrow> nat list \<Rightarrow> allocation \<Rightarrow> reject_state \<Rightarrow> bool" where
  "reject_inv rs slot barriers a s \<longleftrightarrow>
     rj_count s = length (al_free a) \<and> distinct (map fst (rj_ends s))
     \<and> fst ` set (rj_ends s) = {..<length (al_free a)} \<and> (\<forall>(b, e) \<in> set (rj_ends s). e = al_free a ! b)
     \<and> length (rj_out s) = length (al_free a) - 1
     \<and> (\<forall>x \<in> set (rj_out s). explained rs slot barriers x)"

lemma dict_set_entries:
  "(k', v') \<in> set (dict_set k v d) \<Longrightarrow> distinct (map fst d) \<Longrightarrow> (k', v') = (k, v) \<or> (k' \<noteq> k \<and> (k', v') \<in> set d)"
  by (induction d) (force split: if_splits)+

lemma reject_inv_step:
  assumes ord: "ordered_ranges (ps @ [r])" and I: "reject_inv rs slot barriers (allocate ps) s"
    and asg: "asg (lr_name r) = al_assign (alloc_step r (allocate ps)) (lr_name r)"
    and slot: "slot r = the (asg (lr_name r))" and op: "op_of (lr_name r) = lr_op r" and mem: "r \<in> set rs"
  shows "reject_inv rs slot barriers (allocate (ps @ [r])) (rejected_step asg op_of barriers r s)"
proof -
  let ?a = "allocate ps"
  have I': "rj_count s = length (al_free ?a)" "distinct (map fst (rj_ends s))" "fst ` set (rj_ends s) = {..<length (al_free ?a)}"
    "\<forall>(b, e) \<in> set (rj_ends s). e = al_free ?a ! b" "length (rj_out s) = length (al_free ?a) - 1"
    "\<forall>x \<in> set (rj_out s). explained rs slot barriers x"
    using I by (simp_all add: reject_inv_def)
  show ?thesis
  proof (cases "first_free (al_free ?a) (lr_def r)")
    case None
    have step: "alloc_step r ?a = ?a\<lparr>al_free := al_free ?a @ [lr_last r], al_assign := (al_assign ?a)(lr_name r \<mapsto> length (al_free ?a))\<rparr>"
      by (simp add: alloc_step_def None)
    have n: "slot r = length (al_free ?a)" by (simp add: slot asg step)
    have full: "\<forall>b < length (al_free ?a). lr_def r \<le> al_free ?a ! b" using None by (simp add: first_free_None)
    have keys: "b < length (al_free ?a)" if "(b, e) \<in> set (rj_ends s)" for b e
    proof -
      have "b \<in> fst ` set (rj_ends s)" using that by (rule image_eqI [of b fst "(b, e)", simplified])
      then show ?thesis by (simp add: I'(3))
    qed
    have "filter (\<lambda>(_, e). lr_def r \<le> e) (rj_ends s) = rj_ends s"
    proof (rule filter_True, clarify)
      fix b e assume be: "(b, e) \<in> set (rj_ends s)"
      then have "e = al_free ?a ! b" using I'(4) by blast
      then show "lr_def r \<le> e" using full keys [OF be] by simp
    qed
    then have blockers: "length (map fst (filter (\<lambda>(_, e). lr_def r \<le> e) (rj_ends s))) = length (al_free ?a)"
      using distinct_card [OF I'(2)] I'(3) by simp
    define why where "why = reject_reason r (lr_op r) barriers (map fst (filter (\<lambda>(_, e). lr_def r \<le> e) (rj_ends s)))"
    have why: "explained rs slot barriers (lr_name r, lr_op r, why)" if "0 < length (al_free ?a)"
    proof -
      have "map fst (filter (\<lambda>(_, e). lr_def r \<le> e) (rj_ends s)) \<noteq> []" using blockers that by fastforce
      then have "why = AllLive (slot r) (lr_def r)
          (lr_op r \<in> set [''rhs'', ''source'', ''apply'', ''coupled_rate''] \<and> (\<exists>f \<in> set barriers. lr_def r \<le> f \<and> f \<le> lr_last r))"
        unfolding why_def reject_reason_def Let_def list_ex_iff blockers n by simp
      then show ?thesis unfolding explained_def using mem that n by (intro bexI [of _ r]) simp_all
    qed
    have s': "rejected_step asg op_of barriers r s =
        s\<lparr>rj_out := (if 0 < length (al_free ?a) then rj_out s @ [(lr_name r, lr_op r, why)] else rj_out s),
          rj_count := Suc (length (al_free ?a)),
          rj_ends := dict_set (length (al_free ?a)) (lr_last r) (rj_ends s)\<rparr>"
      using n slot by (simp add: rejected_step_def Let_def I'(1) op why_def)
    have ends: "\<forall>(b, e) \<in> set (dict_set (length (al_free ?a)) (lr_last r) (rj_ends s)). e = (al_free ?a @ [lr_last r]) ! b"
    proof clarify
      fix b e assume be: "(b, e) \<in> set (dict_set (length (al_free ?a)) (lr_last r) (rj_ends s))"
      consider "(b, e) = (length (al_free ?a), lr_last r)" | "(b, e) \<in> set (rj_ends s)" using dict_set_entries [OF be I'(2)] by blast
      then show "e = (al_free ?a @ [lr_last r]) ! b"
      proof cases
        case 2
        then have "b < length (al_free ?a)" by (rule keys)
        moreover have "e = al_free ?a ! b" using I'(4) 2 by blast
        ultimately show ?thesis by (simp add: nth_append)
      qed simp
    qed
    have keys: "distinct (map fst (dict_set (length (al_free ?a)) (lr_last r) (rj_ends s)))"
      "fst ` set (dict_set (length (al_free ?a)) (lr_last r) (rj_ends s)) = {..<Suc (length (al_free ?a))}"
      using I'(2,3) by (simp_all add: lessThan_Suc)
    have out: "length (if 0 < length (al_free ?a) then rj_out s @ [(lr_name r, lr_op r, why)] else rj_out s) = length (al_free ?a)"
      "\<forall>x \<in> set (if 0 < length (al_free ?a) then rj_out s @ [(lr_name r, lr_op r, why)] else rj_out s). explained rs slot barriers x"
      using I'(5,6) why by simp_all
    show ?thesis
      unfolding reject_inv_def allocate_snoc step s' using keys out ends by simp
  next
    case (Some b)
    have step: "alloc_step r ?a = ?a\<lparr>al_free := (al_free ?a)[b := lr_last r], al_assign := (al_assign ?a)(lr_name r \<mapsto> b), al_reused := Suc (al_reused ?a)\<rparr>"
      by (simp add: alloc_step_def Some)
    have b: "b < length (al_free ?a)" using first_free_Some [OF Some] by simp
    have n: "the (asg (lr_name r)) = b" by (simp add: asg step)
    have s': "rejected_step asg op_of barriers r s = s\<lparr>rj_ends := dict_set b (lr_last r) (rj_ends s)\<rparr>"
      using b by (simp add: rejected_step_def Let_def I'(1) n)
    have ends: "\<forall>(c, e) \<in> set (dict_set b (lr_last r) (rj_ends s)). e = (al_free ?a)[b := lr_last r] ! c"
    proof clarify
      fix c e assume ce: "(c, e) \<in> set (dict_set b (lr_last r) (rj_ends s))"
      consider "(c, e) = (b, lr_last r)" | "c \<noteq> b" "(c, e) \<in> set (rj_ends s)" using dict_set_entries [OF ce I'(2)] by blast
      then show "e = (al_free ?a)[b := lr_last r] ! c" using b I'(4) by cases auto
    qed
    have keys: "distinct (map fst (dict_set b (lr_last r) (rj_ends s)))"
      "fst ` set (dict_set b (lr_last r) (rj_ends s)) = {..<length (al_free ?a)}"
      using I'(2,3) b by (simp_all add: insert_absorb)
    show ?thesis
      unfolding reject_inv_def allocate_snoc step s' using I'(1,5,6) keys ends by simp
  qed
qed

definition shares :: "live_range list \<Rightarrow> (live_range \<Rightarrow> nat) \<Rightarrow> reused_entry \<Rightarrow> bool" where
  "shares rs slot e \<longleftrightarrow>
     (\<exists>r \<in> set rs. re_scratch e = lr_name r \<and> re_op e = lr_op r \<and> re_buffer e = slot r \<and> re_shares_with e \<noteq> []
        \<and> set (re_shares_with e) = lr_name ` {r' \<in> set rs. slot r' = slot r \<and> lr_def r' < lr_def r}
        \<and> (\<forall>r' \<in> set rs. slot r' = slot r \<and> lr_def r' < lr_def r \<longrightarrow> lr_last r' < lr_def r))"

definition reuse_inv ::
  "live_range list \<Rightarrow> live_range list \<Rightarrow> (live_range \<Rightarrow> nat) \<Rightarrow> allocation \<Rightarrow> occupants \<times> reused_entry list \<Rightarrow> bool" where
  "reuse_inv rs ps slot a s \<longleftrightarrow>
     (\<forall>b. fst s b = map lr_name (filter (\<lambda>r. slot r = b) ps)) \<and> length (snd s) = al_reused a
     \<and> (\<forall>e \<in> set (snd s). shares rs slot e)"

text \<open>The slots of the processed ranges are those of the final report.\<close>

definition slots_of :: "live_range list \<Rightarrow> live_range \<Rightarrow> nat" where
  "slots_of rs r = slot_of (allocate rs) r"

lemma slots_of_prefix:
  assumes "ordered_ranges (ps @ qs)" and "r \<in> set ps"
  shows "slots_of (ps @ qs) r = slot_of (allocate ps) r"
proof -
  have "lr_name r \<notin> lr_name ` set qs" using assms by (fastforce simp: ordered_ranges_def)
  then show ?thesis by (simp add: slots_of_def slot_of_def allocate_stable)
qed

lemma earlier_ranges:
  assumes ord: "ordered_ranges (ps @ r # qs)"
  shows "{r' \<in> set (ps @ r # qs). P r' \<and> lr_def r' < lr_def r} = {r' \<in> set ps. P r'}"
  using ord by (force simp: ordered_ranges_def sorted_wrt_append)

lemma shared_slots_disjoint:
  assumes ord: "ordered_ranges rs" and "r \<in> set rs" and "r' \<in> set rs"
    and "slots_of rs r' = slots_of rs r" and "lr_def r' < lr_def r"
  shows "lr_last r' < lr_def r"
proof -
  have "\<not> overlap r' r"
    using allocate_inv [OF ord] assms(2-) unfolding alloc_inv_def slots_of_def by (metis less_irrefl)
  moreover have "lr_def r' \<le> lr_last r" using ord assms(2,5) by (fastforce simp: ordered_ranges_def)
  ultimately show ?thesis by (simp add: overlap_def)
qed

lemma reuse_inv_step:
  assumes ord: "ordered_ranges (ps @ r # qs)" and I: "reuse_inv (ps @ r # qs) ps (slots_of (ps @ r # qs)) (allocate ps) s"
    and asg: "the (asg (lr_name r)) = slots_of (ps @ r # qs) r" and op: "op_of (lr_name r) = lr_op r"
  shows "reuse_inv (ps @ r # qs) (ps @ [r]) (slots_of (ps @ r # qs)) (allocate (ps @ [r])) (reused_step asg op_of r s)"
proof -
  let ?sl = "slots_of (ps @ r # qs)" and ?a = "allocate ps"
  obtain occ out where s: "s = (occ, out)" by (cases s)
  have occ: "occ b = map lr_name (filter (\<lambda>r. ?sl r = b) ps)" for b
    using I by (simp add: reuse_inv_def s)
  have len: "length out = al_reused ?a" and all: "\<forall>e \<in> set out. shares (ps @ r # qs) ?sl e"
    using I by (simp_all add: reuse_inv_def s)
  have sl: "?sl r = slot_of (alloc_step r ?a) r"
    using final_slot [OF ord] by (simp add: slots_of_def slot_of_def)
  have old: "?sl r' = slot_of ?a r'" if "r' \<in> set ps" for r'
    using slots_of_prefix [of ps "r # qs"] ord that by simp
  have inv: "alloc_inv ps ?a" by (rule allocate_inv) (rule ordered_prefix [OF ord])
  then have im: "slot_of ?a ` set ps = {..<length (al_free ?a)}" by (rule slots_exactly)
  have recycled: "occ (?sl r) = [] \<longleftrightarrow> first_free (al_free ?a) (lr_def r) = None"
  proof (cases "first_free (al_free ?a) (lr_def r)")
    case None
    then have "?sl r = length (al_free ?a)" by (simp add: sl slot_of_def alloc_step_def)
    moreover have "?sl r' < length (al_free ?a)" if "r' \<in> set ps" for r'
      using im that by (auto simp: old [OF that])
    ultimately have "filter (\<lambda>r'. ?sl r' = ?sl r) ps = []" by (fastforce simp: filter_empty_conv)
    then show ?thesis by (simp add: occ None)
  next
    case (Some b)
    then have b: "?sl r = b" "b < length (al_free ?a)"
      using first_free_Some [OF Some] by (simp_all add: sl slot_of_def alloc_step_def)
    then have "b \<in> slot_of ?a ` set ps" by (simp add: im)
    then obtain r' where "r' \<in> set ps" "slot_of ?a r' = b" by auto
    then have "filter (\<lambda>r'. ?sl r' = ?sl r) ps \<noteq> []" using old b by (auto simp: filter_empty_conv)
    then show ?thesis by (simp add: occ Some)
  qed
  have reused: "al_reused (allocate (ps @ [r])) = al_reused ?a + (if first_free (al_free ?a) (lr_def r) = None then 0 else 1)"
    by (simp add: allocate_snoc alloc_step_def split: option.split)
  have entry: "shares (ps @ r # qs) ?sl \<lparr>re_scratch = lr_name r, re_op = op_of (lr_name r), re_buffer = ?sl r, re_shares_with = occ (?sl r)\<rparr>"
    if "occ (?sl r) \<noteq> []"
    unfolding shares_def
  proof (intro bexI [of _ r] conjI ballI impI)
    show "set (re_shares_with \<lparr>re_scratch = lr_name r, re_op = op_of (lr_name r), re_buffer = ?sl r, re_shares_with = occ (?sl r)\<rparr>)
        = lr_name ` {r' \<in> set (ps @ r # qs). ?sl r' = ?sl r \<and> lr_def r' < lr_def r}"
      unfolding earlier_ranges [OF ord] by (auto simp: occ)
    show "lr_last r' < lr_def r" if "r' \<in> set (ps @ r # qs)" "?sl r' = ?sl r \<and> lr_def r' < lr_def r" for r'
      using shared_slots_disjoint [OF ord, of r r'] that by simp
  qed (use that op in simp_all)
  show ?thesis
    unfolding reuse_inv_def reused using recycled len all entry by (auto simp: reused_step_def Let_def s asg occ)
qed

lemma reuse_fold:
  assumes ord: "ordered_ranges rs" and "rs = ps @ qs"
    and asg: "\<And>r. r \<in> set rs \<Longrightarrow> the (asg (lr_name r)) = slots_of rs r" and op: "\<And>r. r \<in> set rs \<Longrightarrow> op_of (lr_name r) = lr_op r"
  shows "reuse_inv rs ps (slots_of rs) (allocate ps) (fold (reused_step asg op_of) ps (\<lambda>_. [], []))"
  using assms(2)
proof (induction ps arbitrary: qs rule: rev_induct)
  case Nil
  then show ?case by (simp add: reuse_inv_def allocate_def)
next
  case (snoc r ps)
  then have rs: "rs = ps @ r # qs" by simp
  then have "r \<in> set rs" by simp
  then show ?case
    using reuse_inv_step [of ps r qs _ asg op_of] snoc.IH [OF rs] ord asg op unfolding rs by simp
qed

lemma reject_fold:
  assumes ord: "ordered_ranges rs" and "rs = ps @ qs"
    and asg: "asg = al_assign (allocate rs)" and op: "\<And>r. r \<in> set rs \<Longrightarrow> op_of (lr_name r) = lr_op r"
  shows "reject_inv rs (slots_of rs) barriers (allocate ps)
    (fold (rejected_step asg op_of barriers) ps \<lparr>rj_ends = [], rj_count = 0, rj_out = []\<rparr>)"
  using assms(2)
proof (induction ps arbitrary: qs rule: rev_induct)
  case Nil
  then show ?case by (simp add: reject_inv_def allocate_def)
next
  case (snoc r ps)
  then have rs: "rs = ps @ r # qs" by simp
  have "ordered_ranges (ps @ [r])" using ord snoc.prems by (blast intro: ordered_prefix)
  moreover have "asg (lr_name r) = al_assign (alloc_step r (allocate ps)) (lr_name r)"
    using final_slot [of ps r qs] ord unfolding asg rs by simp
  moreover have "slots_of rs r = the (asg (lr_name r))" by (simp add: slots_of_def slot_of_def asg)
  moreover have "r \<in> set rs" "op_of (lr_name r) = lr_op r" using rs op by simp_all
  ultimately show ?case
    using reject_inv_step [of ps r rs "slots_of rs" barriers _ asg op_of] snoc.IH [OF rs] by simp
qed

text \<open>
  The plan accounts for every scratch of a Program with distinct ids and scratch names: each
  scratch is the first one, or is listed once as reusing a buffer or as rejected. A reused entry
  names exactly the earlier scratches on its buffer, all dead before it is defined; a rejected entry
  was refused because every buffer that existed was still live, and the text that gives no reason
  never appears.
\<close>

theorem plan_accounts_for_every_scratch:
  assumes ok: "scratch_ok p"
  defines "rs \<equiv> scratch_liveness p"
  shows "length (reused_list p) = rr_reused (buffer_reuse_report p)
    \<and> length (reused_list p) + length (rejected_list p) = length rs - 1
    \<and> (\<forall>e \<in> set (reused_list p). shares rs (report_slot p) e)
    \<and> (\<forall>x \<in> set (rejected_list p). explained rs (report_slot p) (field_solve_indices p) x)"
proof -
  have d: "distinct (map sv_id (sp_values p))" using ok by (simp add: scratch_ok_def)
  have rs: "ranges_in_order p = rs" by (simp add: rs_def ranges_in_order_eq [OF d])
  have ord: "ordered_ranges rs" using ranges_ordered [OF ok] by (simp add: rs)
  have asg: "rr_assignment (buffer_reuse_report p) = al_assign (allocate rs)"
    by (simp add: buffer_reuse_report_def Let_def rs)
  have slot: "slots_of rs = report_slot p" by (rule ext) (simp add: slots_of_def report_slot_alloc rs)
  have op: "op_table rs (lr_name r) = lr_op r" if "r \<in> set rs" for r
    using ord that by (simp add: op_table_eq ordered_ranges_def)
  have reuse: "reuse_inv rs rs (report_slot p) (allocate rs)
      (fold (reused_step (al_assign (allocate rs)) (op_table rs)) rs (\<lambda>_. [], []))"
    using reuse_fold [OF ord, of rs "[]" "al_assign (allocate rs)" "op_table rs"] op
    by (simp add: slots_of_def slot_of_def flip: slot)
  have reject: "reject_inv rs (report_slot p) (field_solve_indices p) (allocate rs)
      (fold (rejected_step (al_assign (allocate rs)) (op_table rs) (field_solve_indices p)) rs \<lparr>rj_ends = [], rj_count = 0, rj_out = []\<rparr>)"
    using reject_fold [OF ord, of rs "[]" "al_assign (allocate rs)" "op_table rs"] op by (simp flip: slot)
  have lists: "reused_list p = snd (fold (reused_step (al_assign (allocate rs)) (op_table rs)) rs (\<lambda>_. [], []))"
    "rejected_list p = rj_out (fold (rejected_step (al_assign (allocate rs)) (op_table rs) (field_solve_indices p)) rs \<lparr>rj_ends = [], rj_count = 0, rj_out = []\<rparr>)"
    by (simp_all add: reused_list_def rejected_list_def asg rs flip: rs_def)
  have count: "al_reused (allocate rs) + length (al_free (allocate rs)) = length rs"
    using allocate_inv [OF ord] by (simp add: alloc_inv_def)
  have "al_free (allocate rs) = [] \<longleftrightarrow> rs = []"
    using allocate_inv [OF ord] by (auto simp: alloc_inv_def allocate_def)
  then have "al_reused (allocate rs) + (length (al_free (allocate rs)) - 1) = length rs - 1"
    using count by (cases "al_free (allocate rs)") auto
  moreover have "rr_reused (buffer_reuse_report p) = al_reused (allocate rs)"
    by (simp add: buffer_reuse_report_def Let_def rs)
  ultimately show ?thesis
    using reuse reject unfolding lists reuse_inv_def reject_inv_def by simp
qed

section \<open>A step over shared buffers\<close>

text \<open>
  What sharing means for a step: a scratch lives in the buffer the report assigns to its name, every
  other value in a cell of its own. The code generator lowers a consumed solve
  (\<open>solve_outcome\<close>, \<open>solve_outcome_component\<close> without \<open>out_block\<close>,
  \<open>python/pops/codegen/program_emit_ops.py\<close>) to an alias of the storage of its input: it writes nothing.
\<close>

definition alias_of :: "'a svalue \<Rightarrow> nat option" where
  "alias_of v =
     (if sv_op v \<in> set [''solve_outcome'', ''solve_outcome_component'']
      then (case nd_inputs (sv_node v) of [u] \<Rightarrow> Some u | _ \<Rightarrow> None) else None)"

definition owners :: "'a svalue list \<Rightarrow> nat \<Rightarrow> nat" where
  "owners vs = fold (\<lambda>v own. own(sv_id v := (case alias_of v of Some u \<Rightarrow> own u | None \<Rightarrow> sv_id v))) vs id"

datatype cell = Shared nat | Own nat

definition scratch_name :: "'a sprogram \<Rightarrow> nat \<Rightarrow> string option" where
  "scratch_name p x = map_option sv_name (List.find (\<lambda>v. sv_id v = x) (scratch_values p))"

definition cell_of :: "'a sprogram \<Rightarrow> nat \<Rightarrow> cell" where
  "cell_of p x =
     (let r = owners (sp_values p) x in
      case scratch_name p r of
        Some name \<Rightarrow> Shared (the (rr_assignment (buffer_reuse_report p) name))
      | None \<Rightarrow> Own r)"

definition exec_shared :: "('a, 'v, 'm) kernel \<Rightarrow> 'a sprogram \<Rightarrow> (cell \<Rightarrow> 'v) \<times> 'm \<Rightarrow> 'a svalue \<Rightarrow> (cell \<Rightarrow> 'v) \<times> 'm" where
  "exec_shared K p s v =
     (let (y, m) = fire K (sv_node v) (\<lambda>x. fst s (cell_of p x)) (snd s) in
      (if alias_of v = None then (fst s)(cell_of p (sv_id v) := y) else fst s, m))"

definition outcome_shared :: "('a, 'v, 'm) kernel \<Rightarrow> 'a sprogram \<Rightarrow> 'v \<Rightarrow> 'm \<Rightarrow> (nat \<times> 'v) list \<times> 'm" where
  "outcome_shared K p z m =
     (let (st, m') = foldl (exec_shared K p) (\<lambda>_. z, m) (sp_values p) in
      (map (\<lambda>(r, i). (r, st (cell_of p i))) (sp_commits p), m'))"

definition ir_of :: "'a sprogram \<Rightarrow> 'a ir" where
  "ir_of p = \<lparr>ir_nodes = map sv_node (sp_values p), ir_commits = sp_commits p\<rparr>"

text \<open>
  The conditions: an alias passes its input on; a scratch that a node refers to through its
  attributes is one the live ranges see; and no alias is read after the range of its storage.
\<close>

definition alias_kernel :: "('a, 'v, 'm) kernel \<Rightarrow> bool" where
  "alias_kernel K \<longleftrightarrow> (\<forall>op k f u us m. op \<in> set [''solve_outcome'', ''solve_outcome_component''] \<longrightarrow> K op k f [u] us m = (u, m))"

definition refs_covered :: "'a sprogram \<Rightarrow> bool" where
  "refs_covered p \<longleftrightarrow> list_all (\<lambda>v. sv_op v \<in> set subblock_ops \<or>
     list_all (\<lambda>x. x \<in> set (value_reads v) \<or> scratch_name p (owners (sp_values p) x) = None) (nd_refs (sv_node v))) (sp_values p)"

definition aliases_held :: "'a sprogram \<Rightarrow> bool" where
  "aliases_held p \<longleftrightarrow> list_all (\<lambda>v. held_until p (sv_id v) \<le> held_until p (owners (sp_values p) (sv_id v))) (sp_values p)"

lemma owners_snoc: "owners (vs @ [v]) = (owners vs)(sv_id v := (case alias_of v of Some u \<Rightarrow> owners vs u | None \<Rightarrow> sv_id v))"
  by (simp add: owners_def split: option.split)

lemma owners_stable: "x \<notin> sv_id ` set suf \<Longrightarrow> owners (pre @ suf) x = owners pre x"
  by (induction suf rule: rev_induct) (simp_all add: owners_snoc flip: append_assoc)

lemma ir_ok_ids: "ir_ok (ir_of p) \<Longrightarrow> distinct (map sv_id (sp_values p))"
proof -
  assume "ir_ok (ir_of p)"
  moreover have "map sv_id (sp_values p) = node_ids (ir_nodes (ir_of p))" by (simp add: ir_of_def node_ids_def sv_id_def)
  ultimately show ?thesis by (simp add: ir_ok_def strict_sorted_iff)
qed

text \<open>The reads of a value at its place in the flat list.\<close>

lemma earlier_reads:
  assumes "ir_ok (ir_of p)" and "sp_values p = pre @ v # suf"
  shows "set (reads (sv_node v)) \<subseteq> sv_id ` set pre" and "sv_id v \<notin> sv_id ` set pre" and "sv_id v \<notin> sv_id ` set suf"
    and "sv_id ` set pre \<inter> sv_id ` set suf = {}"
proof -
  have n: "ir_nodes (ir_of p) = map sv_node pre @ sv_node v # map sv_node suf" by (simp add: ir_of_def assms(2))
  have ids: "set (node_ids (map sv_node vs)) = sv_id ` set vs" for vs :: "'a svalue list"
    by (auto simp: node_ids_def sv_id_def)
  show "set (reads (sv_node v)) \<subseteq> sv_id ` set pre" using ir_ok_prefix(2) [OF assms(1) n] by (simp add: ids)
  show "sv_id v \<notin> sv_id ` set pre" "sv_id v \<notin> sv_id ` set suf" "sv_id ` set pre \<inter> sv_id ` set suf = {}"
    using ir_ok_ids [OF assms(1)] by (auto simp: assms(2))
qed

lemma owner_of_value:
  assumes "ir_ok (ir_of p)" and "sp_values p = pre @ v # suf"
  shows "owners (sp_values p) (sv_id v) = (case alias_of v of Some u \<Rightarrow> owners (sp_values p) u | None \<Rightarrow> sv_id v)"
proof -
  note er = earlier_reads [OF assms]
  have own: "owners (sp_values p) (sv_id v) = (case alias_of v of Some u \<Rightarrow> owners pre u | None \<Rightarrow> sv_id v)"
    using owners_stable [of "sv_id v" suf "pre @ [v]"] er(3) by (simp add: assms(2) owners_snoc)
  show ?thesis
  proof (cases "alias_of v")
    case (Some u)
    then have "u \<in> set (reads (sv_node v))" by (auto simp: alias_of_def reads_def split: if_splits list.splits)
    then have u: "u \<in> sv_id ` set pre" using er(1) by blast
    then have "u \<noteq> sv_id v" "u \<notin> sv_id ` set suf" using er(2,4) by (metis, blast)
    then have "u \<notin> sv_id ` set (v # suf)" by simp
    then have "owners (sp_values p) u = owners pre u" using owners_stable [of u "v # suf" pre] by (simp add: assms(2))
    then show ?thesis by (simp add: own Some)
  qed (simp add: own)
qed

lemma owner_earlier:
  assumes ok: "ir_ok (ir_of p)" and "sp_values p = pre @ suf" and "x \<in> sv_id ` set pre"
  shows "owners (sp_values p) x \<in> sv_id ` set pre"
  using assms(2,3)
proof (induction pre arbitrary: suf x rule: rev_induct)
  case (snoc v pre)
  have vs: "sp_values p = pre @ v # suf" using snoc.prems(1) by simp
  note er = earlier_reads [OF ok vs] and own = owner_of_value [OF ok vs]
  have old: "owners (sp_values p) y \<in> sv_id ` set pre" if "y \<in> sv_id ` set pre" for y
    using snoc.IH [OF vs that] .
  show ?case
  proof (cases "x \<in> sv_id ` set pre")
    case True
    then show ?thesis using old by auto
  next
    case False
    then have x: "x = sv_id v" using snoc.prems(2) by auto
    show ?thesis
    proof (cases "alias_of v")
      case (Some u)
      then have "u \<in> set (reads (sv_node v))" by (auto simp: alias_of_def reads_def split: if_splits list.splits)
      then show ?thesis using old er(1) own Some x by auto
    qed (use own x in auto)
  qed
qed simp

lemma scratch_name_of:
  assumes "distinct (map sv_id (sp_values p))"
  shows "scratch_name p x = Some n \<longleftrightarrow> (\<exists>w \<in> set (scratch_values p). sv_id w = x \<and> sv_name w = n)"
proof -
  have inj: "w = w'" if "w \<in> set (scratch_values p)" "w' \<in> set (scratch_values p)" "sv_id w = sv_id w'" for w w'
    using assms that by (auto simp: scratch_values_def distinct_map dest: inj_onD)
  show ?thesis
  proof (cases "List.find (\<lambda>v. sv_id v = x) (scratch_values p)")
    case None
    then have "\<forall>w \<in> set (scratch_values p). sv_id w \<noteq> x" by (simp add: find_None_iff)
    then show ?thesis by (auto simp: scratch_name_def None)
  next
    case (Some w)
    then have "w \<in> set (scratch_values p)" "sv_id w = x" by (auto simp: find_Some_iff)
    then show ?thesis using Some inj by (auto simp: scratch_name_def)
  qed
qed

text \<open>\<open>kept p k x\<close>: at position \<open>k\<close> the cell of \<open>x\<close> still has to hold \<open>x\<close>.\<close>

definition kept :: "'a sprogram \<Rightarrow> nat \<Rightarrow> nat \<Rightarrow> bool" where
  "kept p k x \<longleftrightarrow> scratch_name p (owners (sp_values p) x) = None \<or> k \<le> held_until p x"

definition sharing_ok :: "'a sprogram \<Rightarrow> bool" where
  "sharing_ok p \<longleftrightarrow> ir_ok (ir_of p) \<and> scratch_ok p \<and> refs_covered p \<and> aliases_held p"

lemma order_of_split:
  assumes "distinct (map sv_id (sp_values p))" and "sp_values p = pre @ v # suf"
  shows "order_of (sp_values p) (sv_id v) = Some (length pre)"
  using order_of_nth [OF assms(1), of "length pre"] by (simp add: assms(2))

lemma reads_kept:
  assumes ok: "sharing_ok p" and vs: "sp_values p = pre @ v # suf" and x: "x \<in> set (reads (sv_node v))"
  shows "x \<in> sv_id ` set pre" and "kept p (length pre) x"
proof -
  have irok: "ir_ok (ir_of p)" using ok by (simp add: sharing_ok_def)
  show mem: "x \<in> sv_id ` set pre" using earlier_reads(1) [OF irok vs] x by blast
  have cover: "sv_op v \<in> set subblock_ops \<or> (\<forall>x \<in> set (nd_refs (sv_node v)).
      x \<in> set (value_reads v) \<or> scratch_name p (owners (sp_values p) x) = None)"
    using ok by (simp add: sharing_ok_def refs_covered_def list_all_iff vs)
  then have "scratch_name p (owners (sp_values p) x) = None \<or> x \<in> set (value_reads v)
      \<or> sv_op v \<in> set subblock_ops \<and> x \<in> set (nd_refs (sv_node v))"
    using x by (auto simp: reads_def value_reads_def)
  moreover have "length pre \<le> held_until p x"
    if "x \<in> set (value_reads v) \<or> sv_op v \<in> set subblock_ops \<and> x \<in> set (nd_refs (sv_node v))"
  proof -
    obtain d where "order_of (sp_values p) x = Some d"
      using order_of_mem [OF ir_ok_ids [OF irok]] mem by (auto simp: vs)
    then have "used_at (length pre) x (last_uses p)"
      by (intro last_uses_reads [where v = v] that) (simp_all add: vs)
    then show ?thesis by (rule used_at_held)
  qed
  ultimately show "kept p (length pre) x" by (auto simp: kept_def)
qed

lemma cell_clash:
  assumes ok: "sharing_ok p" and vs: "sp_values p = pre @ v # suf" and fresh: "alias_of v = None"
    and x: "x \<in> sv_id ` set pre" and same: "cell_of p x = cell_of p (sv_id v)"
  shows "\<not> kept p (Suc (length pre)) x"
proof
  assume kept: "kept p (Suc (length pre)) x"
  have irok: "ir_ok (ir_of p)" and scr: "scratch_ok p" and held: "aliases_held p" using ok by (simp_all add: sharing_ok_def)
  have d: "distinct (map sv_id (sp_values p))" by (rule ir_ok_ids [OF irok])
  note er = earlier_reads [OF irok vs]
  let ?own = "owners (sp_values p)"
  have own_v: "?own (sv_id v) = sv_id v" using owner_of_value [OF irok vs] fresh by simp
  have own_x: "?own x \<in> sv_id ` set pre" by (rule owner_earlier [OF irok vs x])
  then have ne: "?own x \<noteq> sv_id v" using er(2) by auto
  show False
  proof (cases "scratch_name p (sv_id v)")
    case None
    then show False using same ne by (auto simp: cell_of_def Let_def own_v split: option.splits)
  next
    case (Some n)
    then obtain m where m: "scratch_name p (?own x) = Some m"
      "the (rr_assignment (buffer_reuse_report p) m) = the (rr_assignment (buffer_reuse_report p) n)"
      using same by (auto simp: cell_of_def Let_def own_v split: option.splits)
    obtain w where w: "w \<in> set (scratch_values p)" "sv_id w = ?own x" "sv_name w = m" using m(1) by (auto simp: scratch_name_of [OF d])
    obtain w' where w': "w' \<in> set (scratch_values p)" "sv_id w' = sv_id v" "sv_name w' = n" using Some by (auto simp: scratch_name_of [OF d])
    have ov: "order_of (sp_values p) (sv_id v) = Some (length pre)" by (rule order_of_split [OF d vs])
    obtain k where k: "order_of (sp_values p) (?own x) = Some k" "k < length pre"
    proof -
      obtain u where u: "u \<in> set pre" "sv_id u = ?own x" using own_x by auto
      obtain ps qs where "pre = ps @ u # qs" using split_list [OF u(1)] by blast
      then show ?thesis using order_of_split [OF d, of ps u "qs @ v # suf"] that u(2) by (simp add: vs)
    qed
    let ?r = "live_range_of p w" and ?r' = "live_range_of p w'"
    have fields: "lr_def ?r = k" "lr_last ?r = held_until p (?own x)" "lr_name ?r = m" "lr_def ?r' = length pre" "lr_name ?r' = n"
      using live_range_fields [of p w k] live_range_fields [of p w' "length pre"] k(1) ov w w' by simp_all
    have ord: "ordered_ranges (scratch_liveness p)" using ranges_ordered [OF scr] by (simp add: ranges_in_order_eq [OF d])
    have mem: "?r \<in> set (scratch_liveness p)" "?r' \<in> set (scratch_liveness p)" using w(1) w'(1) by (auto simp: scratch_liveness_def)
    have slots: "slots_of (scratch_liveness p) ?r = slots_of (scratch_liveness p) ?r'"
      using m(2) by (simp add: slots_of_def slot_of_def fields buffer_reuse_report_def Let_def ranges_in_order_eq [OF d])
    have "lr_last ?r < lr_def ?r'"
      using shared_slots_disjoint [OF ord mem(2,1) slots] k(2) by (simp add: fields)
    moreover have "held_until p x \<le> held_until p (?own x)"
      using held x by (auto simp: aliases_held_def list_all_iff vs)
    moreover have "Suc (length pre) \<le> held_until p x" using kept m(1) by (simp add: kept_def)
    ultimately show False by (simp add: fields)
  qed
qed

lemma fire_cong: "(\<And>x. x \<in> set (reads v) \<Longrightarrow> env x = env' x) \<Longrightarrow> fire K v env m = fire K v env' m"
  unfolding fire_def reads_def by (metis (no_types, lifting) Un_iff map_eq_conv set_append)

lemma shared_run:
  assumes ok: "sharing_ok p" and K: "alias_kernel K" and "sp_values p = pre @ suf"
  shows "\<exists>env st m'. run K (map sv_node pre) (\<lambda>_. z, m) = (env, m') \<and> foldl (exec_shared K p) (\<lambda>_. z, m) pre = (st, m')
    \<and> (\<forall>x \<in> sv_id ` set pre. kept p (length pre) x \<longrightarrow> st (cell_of p x) = env x)"
  using assms(3)
proof (induction pre arbitrary: suf rule: rev_induct)
  case Nil
  then show ?case by (simp add: run_def)
next
  case (snoc v pre)
  have vs: "sp_values p = pre @ v # suf" using snoc.prems by simp
  have irok: "ir_ok (ir_of p)" using ok by (simp add: sharing_ok_def)
  from snoc.IH [OF vs] obtain env st m1 where
    r: "run K (map sv_node pre) (\<lambda>_. z, m) = (env, m1)" and s: "foldl (exec_shared K p) (\<lambda>_. z, m) pre = (st, m1)"
    and agree: "\<And>x. x \<in> sv_id ` set pre \<Longrightarrow> kept p (length pre) x \<Longrightarrow> st (cell_of p x) = env x" by blast
  have fires: "fire K (sv_node v) (\<lambda>x. st (cell_of p x)) m1 = fire K (sv_node v) env m1"
    by (rule fire_cong) (use agree reads_kept [OF ok vs] in blast)
  obtain y m2 where y: "fire K (sv_node v) env m1 = (y, m2)" by fastforce
  have r': "run K (map sv_node (pre @ [v])) (\<lambda>_. z, m) = (env(sv_id v := y), m2)"
    using r y by (simp add: run_snoc exec_node_def sv_id_def)
  have s': "foldl (exec_shared K p) (\<lambda>_. z, m) (pre @ [v]) = (if alias_of v = None then st(cell_of p (sv_id v) := y) else st, m2)"
    using s y fires by (simp add: exec_shared_def)
  have weaken: "kept p (length pre) x" if "kept p (length (pre @ [v])) x" for x using that by (auto simp: kept_def)
  have new: "sv_id v \<notin> sv_id ` set pre" by (rule earlier_reads(2) [OF irok vs])
  have "(if alias_of v = None then st(cell_of p (sv_id v) := y) else st) (cell_of p x) = (env(sv_id v := y)) x"
    if x: "x \<in> sv_id ` set (pre @ [v])" and k: "kept p (length (pre @ [v])) x" for x
  proof (cases "alias_of v")
    case None
    show ?thesis
    proof (cases "x = sv_id v")
      case False
      then have xp: "x \<in> sv_id ` set pre" using x by auto
      then have "cell_of p x \<noteq> cell_of p (sv_id v)" using cell_clash [OF ok vs None xp] k by auto
      then show ?thesis using agree [OF xp weaken [OF k]] None False by simp
    qed (use None in simp)
  next
    case (Some u)
    then have a: "sv_op v \<in> set [''solve_outcome'', ''solve_outcome_component'']" "nd_inputs (sv_node v) = [u]"
      by (auto simp: alias_of_def split: if_splits list.splits)
    have u: "u \<in> set (reads (sv_node v))" by (simp add: reads_def a(2))
    have "fire K (sv_node v) env m1 = (env u, m1)"
      using K [unfolded alias_kernel_def, rule_format, OF a(1)] by (simp add: fire_def a(2) sv_op_def)
    then have yu: "y = env u" using y by simp
    show ?thesis
    proof (cases "x = sv_id v")
      case True
      then have "cell_of p x = cell_of p u" using owner_of_value [OF irok vs] Some by (simp add: cell_of_def Let_def)
      then show ?thesis using agree [OF reads_kept [OF ok vs u]] Some True yu by simp
    next
      case False
      then have "x \<in> sv_id ` set pre" using x by auto
      then show ?thesis using agree weaken [OF k] Some False by simp
    qed
  qed
  then show ?case using r' s' by blast
qed


section \<open>Concrete programs\<close>

definition mk_value :: "nat \<Rightarrow> string \<Rightarrow> string \<Rightarrow> string \<Rightarrow> nat list \<Rightarrow> unit svalue" where
  "mk_value i op name vtype inputs =
     \<lparr>sv_node = \<lparr>nd_id = i, nd_op = op, nd_key = (), nd_inputs = inputs, nd_refs = [], nd_field = None\<rparr>,
      sv_name = name, sv_vtype = vtype, sv_block = Some ''b'', sv_attr_reads = [], sv_field_inputs = inputs, sv_coeffs = None\<rparr>"

text \<open>Two explicit stages: four scratches, two buffers.\<close>

definition two_stage_program :: "unit sprogram" where
  "two_stage_program = \<lparr>sp_values =
     [mk_value 0 ''state'' ''u0'' ''state'' [], mk_value 1 ''rhs'' ''k1'' ''rhs'' [0],
      mk_value 2 ''linear_combine'' ''u1'' ''state'' [0, 1], mk_value 3 ''rhs'' ''k2'' ''rhs'' [2],
      mk_value 4 ''linear_combine'' ''u2'' ''state'' [0, 3]], sp_commits = [(0, 4)]\<rparr>"

text \<open>A local solve consumed through its outcome, and a rate evaluated before the outcome is read.\<close>

definition consumed_solve_program :: "unit sprogram" where
  "consumed_solve_program = \<lparr>sp_values =
     [mk_value 0 ''state'' ''u0'' ''state'' [], mk_value 1 ''solve_local_linear'' ''s'' ''solve_token'' [0],
      mk_value 2 ''solve_outcome'' ''o'' ''state'' [1], mk_value 3 ''rhs'' ''k'' ''rhs'' [0],
      mk_value 4 ''linear_combine'' ''u1'' ''state'' [2, 3]], sp_commits = [(0, 4)]\<rparr>"

text \<open>The kernel sums what it reads; a solve adds ten, a rate five; a consumed solve passes its input on.\<close>

definition sum_kernel :: "(unit, int, int) kernel" where
  "sum_kernel op k f us rs m =
     (if op \<in> set [''solve_outcome'', ''solve_outcome_component''] then (hd us, m)
      else (sum_list us + (if op = ''solve_local_linear'' then 10 else if op = ''rhs'' then 5 else 1), m))"

lemma sum_kernel_alias: "alias_kernel sum_kernel"
  by (simp add: alias_kernel_def sum_kernel_def)

lemma two_stage_ok: "sharing_ok two_stage_program"
  by code_simp

lemma two_stage_buffers: "rr_buffer_count (buffer_reuse_report two_stage_program) = 2"
  by code_simp

lemma two_stage_scratch_ok: "scratch_ok two_stage_program"
  using two_stage_ok by (simp add: sharing_ok_def)

lemma two_stage_counts:
  "length (scratch_liveness two_stage_program) = 4" "rr_reused (buffer_reuse_report two_stage_program) = 2"
  by code_simp+

theorem buffer_reuse_is_minimal_witness:
  "report_slot two_stage_program ` set (scratch_liveness two_stage_program) = {..<2}"
  using buffer_reuse_is_minimal [OF two_stage_scratch_ok] two_stage_buffers by simp

theorem plan_accounts_for_every_scratch_witness:
  "length (reused_list two_stage_program) = 2 \<and> length (rejected_list two_stage_program) = 1"
  using plan_accounts_for_every_scratch [OF two_stage_scratch_ok] two_stage_counts by simp


text \<open>
  The live ranges do not follow the aliases of a consumed solve: in a Program that evaluates a
  rate between consuming a local solve and reading the outcome, the report gives the rate the buffer
  of the solve while the outcome is still to be read, and a step over the shared buffers commits
  another value.
\<close>

theorem consumed_solve_is_overwritten:
  "ir_ok (ir_of consumed_solve_program) \<and> scratch_ok consumed_solve_program \<and> refs_covered consumed_solve_program
   \<and> \<not> aliases_held consumed_solve_program
   \<and> rr_assignment (buffer_reuse_report consumed_solve_program) ''s'' = rr_assignment (buffer_reuse_report consumed_solve_program) ''k''
   \<and> outcome sum_kernel (ir_of consumed_solve_program) 0 0 = ([(0, 18)], 0)
   \<and> outcome_shared sum_kernel consumed_solve_program 0 0 = ([(0, 13)], 0)"
  by code_simp

text \<open>
  Names are the keys of the report and nothing makes them distinct: two scratches of one name with
  overlapping ranges are reported to share a buffer.
\<close>

definition duplicate_name_program :: "unit sprogram" where
  "duplicate_name_program = \<lparr>sp_values =
     [mk_value 0 ''state'' ''u0'' ''state'' [], mk_value 1 ''rhs'' ''k'' ''rhs'' [0],
      mk_value 2 ''rhs'' ''k'' ''rhs'' [0], mk_value 3 ''linear_combine'' ''u1'' ''state'' [0, 1, 2]],
     sp_commits = [(0, 3)]\<rparr>"

lemma duplicate_name_shares_live_buffer:
  "map (\<lambda>r. (lr_def r, lr_last r)) (scratch_liveness duplicate_name_program) = [(1, 3), (2, 3), (3, 4)]
   \<and> map re_shares_with (reused_list duplicate_name_program) = [[''k'']]"
  by code_simp

text \<open>A masked source residual is a rate, yet it is counted with the states.\<close>

lemma implicit_source_counted_as_state: "scratch_family ''implicit_source'' ''rhs'' = StateFamily"
  by code_simp

text \<open>Kernels are counted once, heavy or small or neither.\<close>

lemma estimate_bounds: "co_heavy (estimate_cost p) + co_small (estimate_cost p) \<le> co_kernels (estimate_cost p)
   \<and> co_writes (estimate_cost p) \<le> co_kernels (estimate_cost p)"
proof -
  let ?I = "\<lambda>c. co_heavy c + co_small c \<le> co_kernels c \<and> co_writes c \<le> co_kernels c"
  have "?I (cost_step v c)" if "?I c" for v :: "'a svalue" and c
    using that by (cases c) (simp add: cost_step_def Let_def)
  then show ?thesis unfolding estimate_cost_def by (intro fold_keeps [where I = ?I]) auto
qed

end
