(* ===== verification/Pops_Float.thy ===== *)
theory Pops_Float
  imports Pops_Prelude Complex_Main
begin

text \<open>
  The binary64 and decimal arithmetic of the Python runtime, as far as physical-time cadences use it:
  correctly rounded results, \<open>math.ulp\<close>, \<open>round\<close>, the shortest spelling \<open>str(float)\<close> and the product
  of a decimal in a context of 50 digits. A finite binary64 is its value, a rational; the two zeros
  are one value and an overflow (an infinity) is \<open>None\<close>. The lemmas bound the error of each step.
\<close>

section \<open>Rounding to an integer\<close>

text \<open>\<open>round(q)\<close>: the nearest integer, the even one of two.\<close>

definition round_even :: "rat \<Rightarrow> int" where
  "round_even q =
     (let f = \<lfloor>q\<rfloor>; r = q - of_int f in
      if r < 1/2 then f else if 1/2 < r then f + 1 else if even f then f else f + 1)"

lemma round_even_near: "\<bar>of_int (round_even q) - q\<bar> \<le> 1/2"
proof -
  have "of_int \<lfloor>q\<rfloor> \<le> q" "q < of_int \<lfloor>q\<rfloor> + 1" using floor_correct [of q] by simp_all
  then show ?thesis unfolding round_even_def Let_def by (simp add: abs_if) linarith
qed

lemma round_even_unique:
  assumes "\<bar>q - of_int n\<bar> < 1/2" shows "round_even q = n"
proof -
  have "\<bar>of_int (round_even q) - of_int n :: rat\<bar> < 1"
    using round_even_near [of q] assms by linarith
  then have "\<bar>of_int (round_even q - n) :: rat\<bar> < of_int 1" by simp
  then have "\<bar>round_even q - n\<bar> < 1" by (simp only: of_int_abs [symmetric] of_int_less_iff)
  then show ?thesis by simp
qed

lemma round_even_int [simp]: "round_even (of_int n) = n"
  by (simp add: round_even_def)

section \<open>Magnitudes\<close>

function bits :: "int \<Rightarrow> int" where
  "bits n = (if n \<le> 0 then 0 else 1 + bits (n div 2))"
  by auto
termination by (relation "measure nat") auto

declare bits.simps [simp del]

lemma bits_nonneg: "0 \<le> bits n"
proof (induction n rule: bits.induct)
  case (1 n)
  then show ?case by (subst bits.simps) auto
qed

lemma bits_bounds: "0 < n \<Longrightarrow> 1 \<le> bits n \<and> 2 ^ nat (bits n - 1) \<le> n \<and> n < 2 ^ nat (bits n)"
proof (induction n rule: bits.induct)
  case (1 n)
  show ?case
  proof (cases "n = 1")
    case True
    have "bits 1 = 1" by (subst bits.simps) (simp add: bits.simps [of 0])
    then show ?thesis by (simp add: True)
  next
    case False
    then have pos: "0 < n div 2" and n: "\<not> n \<le> 0" using "1.prems" by auto
    define b where "b = bits (n div 2)"
    have IH: "1 \<le> b" "2 ^ nat (b - 1) \<le> n div 2" "n div 2 < 2 ^ nat b"
      using "1.IH" [OF n pos] by (auto simp: b_def)
    have eq: "bits n = 1 + b" using n by (subst bits.simps) (simp add: b_def)
    have "nat (bits n - 1) = Suc (nat (b - 1))" "nat (bits n) = Suc (nat b)" using IH(1) eq by auto
    then show ?thesis using IH eq by auto
  qed
qed

lemma bits_rat:
  assumes "0 < n" shows "(2::rat) powi (bits n - 1) \<le> of_int n" "of_int n < (2::rat) powi bits n"
proof -
  note b = bits_bounds [OF assms]
  have "(2::rat) powi (bits n - 1) = of_int (2 ^ nat (bits n - 1))" "(2::rat) powi bits n = of_int (2 ^ nat (bits n))"
    using b by (simp_all add: power_int_nonneg_exp)
  then show "(2::rat) powi (bits n - 1) \<le> of_int n" "of_int n < (2::rat) powi bits n"
    using b by (simp_all only: of_int_le_iff of_int_less_iff)
qed

text \<open>The exponent of the binade of a positive rational.\<close>

definition magnitude :: "rat \<Rightarrow> int" where
  "magnitude q = (let (n, d) = quotient_of q; k = bits n - bits d in if q < 2 powi k then k - 1 else k)"

lemma magnitude_bounds:
  assumes "0 < q" shows "2 powi magnitude q \<le> q" "q < 2 powi (magnitude q + 1)"
proof -
  obtain n d where nd: "quotient_of q = (n, d)" by (cases "quotient_of q")
  have d: "0 < d" and q: "q = of_int n / of_int d"
    using quotient_of_denom_pos [OF nd] quotient_of_div [OF nd] by simp_all
  then have n: "0 < n" using assms by (simp add: zero_less_divide_iff)
  let ?k = "bits n - bits d"
  have dpos: "(0::rat) < of_int d" using d by simp
  have "(2::rat) powi (?k - 1) = 2 powi (bits n - 1) / 2 powi bits d"
    by (simp add: power_int_diff)
  also have "\<dots> \<le> of_int n / of_int d"
    using bits_rat [OF n] bits_rat [OF d] dpos n by (intro frac_le) auto
  finally have low: "2 powi (?k - 1) \<le> q" using q by simp
  have "of_int n / of_int d < (2::rat) powi bits n / 2 powi (bits d - 1)"
    using bits_rat [OF n] bits_rat [OF d] dpos n by (intro frac_less) auto
  also have "\<dots> = 2 powi (?k + 1)"
    by (simp flip: power_int_diff add: algebra_simps)
  finally have high: "q < 2 powi (?k + 1)" using q by simp
  have m: "magnitude q = (if q < 2 powi ?k then ?k - 1 else ?k)"
    by (simp add: magnitude_def nd)
  show "2 powi magnitude q \<le> q" "q < 2 powi (magnitude q + 1)"
    using low high by (auto simp: m)
qed

lemma powi_le_iff: "(2::rat) powi a \<le> 2 powi b \<longleftrightarrow> a \<le> b"
  by (meson less_le_not_le linorder_not_le one_less_numeral_iff power_int_increasing power_int_strict_increasing semiring_norm(76))

lemma powi_less_iff: "(2::rat) powi a < 2 powi b \<longleftrightarrow> a < b"
  by (simp add: powi_le_iff flip: not_le)

lemma magnitude_unique:
  assumes "2 powi e \<le> q" and "q < 2 powi (e + 1)" shows "magnitude q = e"
proof -
  have "0 < q" using assms(1) by (meson less_le_trans zero_less_numeral zero_less_power_int)
  then have "2 powi e < (2::rat) powi (magnitude q + 1)" "2 powi magnitude q < (2::rat) powi (e + 1)"
    using magnitude_bounds [of q] assms by linarith+
  then show ?thesis by (simp flip: not_le add: powi_le_iff)
qed

section \<open>Correctly rounded values\<close>

definition ulp_exp :: "rat \<Rightarrow> int" where
  "ulp_exp q = (if q = 0 then - 1074 else max (magnitude \<bar>q\<bar> - 52) (- 1074))"

text \<open>\<open>math.ulp(x)\<close>.\<close>

definition ulp :: "rat \<Rightarrow> rat" where
  "ulp q = 2 powi ulp_exp q"

text \<open>The binary64 nearest to a rational, ties to even; \<open>None\<close> when it overflows.\<close>

definition fl :: "rat \<Rightarrow> rat option" where
  "fl q = (let v = of_int (round_even (q / ulp q)) * ulp q in if 2 powi 1024 \<le> \<bar>v\<bar> then None else Some v)"

definition is_b64 :: "rat \<Rightarrow> bool" where
  "is_b64 q \<longleftrightarrow> fl q = Some q"

lemma ulp_pos [simp]: "0 < ulp q"
  by (simp add: ulp_def)

lemma abs_ulp [simp]: "\<bar>ulp q\<bar> = ulp q"
  by (simp add: ulp_def)

lemma ulp_nonzero [simp]: "ulp q \<noteq> 0"
  by (metis less_irrefl ulp_pos)

lemma fl_value: "fl q = Some v \<Longrightarrow> v = of_int (round_even (q / ulp q)) * ulp q"
  by (simp add: fl_def Let_def split: if_splits)

lemma rounded_near: "\<bar>of_int (round_even (q / ulp q)) * ulp q - q\<bar> \<le> ulp q / 2"
proof -
  have "of_int (round_even (q / ulp q)) * ulp q - q = (of_int (round_even (q / ulp q)) - q / ulp q) * ulp q"
    using ulp_pos [of q] by (simp add: left_diff_distrib)
  then have "\<bar>of_int (round_even (q / ulp q)) * ulp q - q\<bar> = \<bar>of_int (round_even (q / ulp q)) - q / ulp q\<bar> * ulp q"
    by (simp add: abs_mult)
  also have "\<dots> \<le> 1/2 * ulp q"
    using round_even_near by (intro mult_right_mono) (auto intro: less_imp_le)
  finally show ?thesis by simp
qed

text \<open>One part in \<open>2 ^ 53\<close>, for the normal range.\<close>

definition eps :: rat where
  "eps = 1 / 2 ^ 53"

lemma ulp_normal:
  assumes "2 powi (- 1022) \<le> \<bar>q\<bar>" shows "ulp q \<le> 2 * eps * \<bar>q\<bar>"
proof -
  have pos: "0 < \<bar>q\<bar>" using assms by (meson less_le_trans zero_less_numeral zero_less_power_int)
  note m = magnitude_bounds [OF pos]
  have "(2::rat) powi (- 1022) < 2 powi (magnitude \<bar>q\<bar> + 1)" using assms m(2) by linarith
  then have "- 1022 < magnitude \<bar>q\<bar> + 1" by (simp only: powi_less_iff)
  then have "ulp q = 2 powi (magnitude \<bar>q\<bar> - 52)" using pos by (simp add: ulp_def ulp_exp_def)
  also have "\<dots> = 2 powi magnitude \<bar>q\<bar> * (2 * eps)" by (simp add: power_int_diff eps_def)
  also have "\<dots> \<le> \<bar>q\<bar> * (2 * eps)" using m(1) by (intro mult_right_mono) (auto simp: eps_def)
  finally show ?thesis by (simp add: mult_ac)
qed

lemma fl_near:
  assumes "fl q = Some v" and "2 powi (- 1022) \<le> \<bar>q\<bar>" shows "\<bar>v - q\<bar> \<le> eps * \<bar>q\<bar>"
  using rounded_near [of q] ulp_normal [OF assms(2)] by (simp add: fl_value [OF assms(1)])

lemma fl_defined:
  assumes "2 powi (- 1022) \<le> \<bar>q\<bar>" and "\<bar>q\<bar> \<le> 2 powi 1023" shows "\<exists>v. fl q = Some v"
proof -
  let ?v = "of_int (round_even (q / ulp q)) * ulp q"
  have "\<bar>?v - q\<bar> \<le> eps * \<bar>q\<bar>" using rounded_near [of q] ulp_normal [OF assms(1)] by linarith
  also have "\<dots> \<le> 1/2 * \<bar>q\<bar>" by (intro mult_right_mono) (simp_all add: eps_def)
  finally have "\<bar>?v\<bar> \<le> 3/2 * \<bar>q\<bar>" by linarith
  also have "\<dots> < 2 * 2 powi 1023" using assms(2) zero_less_power_int [of "2::rat" 1023] by linarith
  also have "\<dots> = (2::rat) powi 1024" using power_int_add [of "2::rat" 1 1023] by simp
  finally show ?thesis by (simp add: fl_def Let_def)
qed

lemma fl_0 [simp]: "fl 0 = Some 0"
  by (simp add: fl_def Let_def round_even_def)

text \<open>A result is itself a binary64.\<close>

lemma of_int_multiple: "e \<le> f \<Longrightarrow> \<exists>n. (2::rat) powi f / 2 powi e = of_int n"
  by (rule exI [of _ "2 ^ nat (f - e)"]) (simp flip: power_int_diff add: power_int_nonneg_exp)

lemma fl_exact:
  assumes "q = of_int n * ulp q" and "\<bar>q\<bar> < 2 powi 1024" shows "fl q = Some q"
proof -
  have "q / ulp q = of_int n" using assms(1) ulp_pos [of q] by (metis less_irrefl nonzero_mult_div_cancel_right)
  then have "of_int (round_even (q / ulp q)) * ulp q = q" using assms(1) by simp
  then show ?thesis using assms(2) by (simp add: fl_def Let_def)
qed

lemma power2_multiple: "0 \<le> k \<Longrightarrow> 2 powi (e + k) = of_int (2 ^ nat k) * (2::rat) powi e"
  by (simp add: power_int_add power_int_nonneg_exp)

lemma fl_is_b64:
  assumes "fl q = Some v" shows "is_b64 v"
proof (cases "v = 0")
  case False
  define E where "E = ulp_exp q"
  define m where "m = round_even (q / ulp q)"
  have v: "v = of_int m * 2 powi E" using fl_value [OF assms] by (simp add: E_def m_def ulp_def)
  have small: "\<bar>v\<bar> < 2 powi 1024" using assms by (auto simp: fl_def Let_def split: if_splits)
  have q: "q \<noteq> 0" using False v by (auto simp: m_def round_even_def Let_def)
  then have apos: "0 < \<bar>q\<bar>" and avpos: "0 < \<bar>v\<bar>" using False by auto
  have Ege: "magnitude \<bar>q\<bar> - 52 \<le> E" "- 1074 \<le> E" using q by (simp_all add: E_def ulp_exp_def)
  have "\<bar>q\<bar> < 2 powi (E + 53)"
  proof -
    have "(2::rat) powi (magnitude \<bar>q\<bar> + 1) \<le> 2 powi (E + 53)" using Ege by (simp add: powi_le_iff)
    then show ?thesis using magnitude_bounds(2) [OF apos] by linarith
  qed
  then have "\<bar>q / ulp q\<bar> < 2 ^ 53"
    by (simp add: ulp_def E_def [symmetric] abs_divide power_int_add divide_less_eq)
  then have "\<bar>of_int m\<bar> < (2::rat) ^ 53 + 1" using round_even_near [of "q / ulp q"] unfolding m_def by linarith
  then have "of_int \<bar>m\<bar> < (of_int (2 ^ 53 + 1) :: rat)" by simp
  then have m53: "\<bar>m\<bar> \<le> 2 ^ 53" by (simp only: of_int_less_iff)
  have av: "\<bar>v\<bar> = of_int \<bar>m\<bar> * 2 powi E" by (simp add: v abs_mult)
  have "\<exists>n. v = of_int n * ulp v"
  proof (cases "ulp_exp v \<le> E")
    case True
    then have "(2::rat) powi E = of_int (2 ^ nat (E - ulp_exp v)) * ulp v"
      using power2_multiple [of "E - ulp_exp v" "ulp_exp v"] by (simp add: ulp_def)
    then have "v = of_int (m * 2 ^ nat (E - ulp_exp v)) * ulp v" by (simp add: v)
    then show ?thesis by blast
  next
    case False
    then have big: "E < magnitude \<bar>v\<bar> - 52" using Ege(2) avpos by (auto simp: ulp_exp_def split: if_splits)
    have "(2::rat) powi (E + 53) \<le> 2 powi magnitude \<bar>v\<bar>" using big by (simp add: powi_le_iff)
    then have "2 powi (E + 53) \<le> \<bar>v\<bar>" using magnitude_bounds(1) [OF avpos] by linarith
    then have "of_int (2 ^ 53) * (2::rat) powi E \<le> of_int \<bar>m\<bar> * 2 powi E" by (simp add: av power_int_add mult.commute)
    then have "(of_int (2 ^ 53) :: rat) \<le> of_int \<bar>m\<bar>"
      by (rule mult_right_le_imp_le) simp
    then have m: "\<bar>m\<bar> = 2 ^ 53" using m53 by (simp only: of_int_le_iff)
    then have av2: "\<bar>v\<bar> = 2 powi (E + 53)" by (simp add: av power_int_add mult.commute)
    then have "magnitude \<bar>v\<bar> = E + 53" by (intro magnitude_unique) (simp_all add: powi_less_iff)
    then have u: "ulp v = 2 powi (E + 1)" using avpos Ege(2) by (simp add: ulp_def ulp_exp_def add.commute)
    have "\<bar>v\<bar> = of_int (2 ^ 52) * ulp v" using power2_multiple [of 52 "E + 1"] by (simp add: av2 u add.commute)
    then have "v = of_int (2 ^ 52) * ulp v \<or> v = of_int (- (2 ^ 52)) * ulp v" by (auto simp: abs_if split: if_splits)
    then show ?thesis by blast
  qed
  then show ?thesis using fl_exact small unfolding is_b64_def by blast
qed (simp add: is_b64_def)

section \<open>Decimals\<close>

text \<open>
  \<open>str(x)\<close> of a positive binary64: the shortest decimal that rounds to it, the nearest one of that
  length. \<open>spell_from\<close> looks for a multiple of \<open>10 ^ p\<close> that rounds to \<open>x\<close>, from large \<open>p\<close> down, so
  with the fewest digits first; at \<open>p = - 1074\<close> every binary64 is such a multiple. The result is
  the integer coefficient and the exponent.
\<close>

definition rounds_to :: "rat \<Rightarrow> int \<Rightarrow> int \<Rightarrow> bool" where
  "rounds_to x c p \<longleftrightarrow> fl (of_int c * 10 powi p) = Some x"

definition best_multiple :: "rat \<Rightarrow> int \<Rightarrow> int option" where
  "best_multiple x p =
     (let lo = \<lfloor>x / 10 powi p\<rfloor>; hi = lo + 1 in
      if rounds_to x lo p \<and> \<not> (rounds_to x hi p \<and> of_int hi * 10 powi p - x < x - of_int lo * 10 powi p) then Some lo
      else if rounds_to x hi p then Some hi else None)"

function spell_from :: "int \<Rightarrow> rat \<Rightarrow> int \<times> int" where
  "spell_from p x =
     (case best_multiple x p of
        Some c \<Rightarrow> (c, p)
      | None \<Rightarrow> if p \<le> - 1074 then (\<lfloor>x / 10 powi p\<rfloor>, p) else spell_from (p - 1) x)"
  by pat_completeness auto
termination by (relation "measure (\<lambda>(p, _). nat (p + 1074))") auto

declare spell_from.simps [simp del]

definition spell :: "rat \<Rightarrow> int \<times> int" where
  "spell x = (let m = magnitude x in spell_from (if 0 \<le> m then m div 3 + 1 else 3 * m div 10 + 1) x)"

definition spelled :: "rat \<Rightarrow> rat" where
  "spelled x = (let (c, p) = spell x in of_int c * 10 powi p)"

text \<open>The product of a decimal and an integer under a precision of 50 digits, ties to even.\<close>

function digits :: "int \<Rightarrow> int" where
  "digits n = (if n \<le> 0 then 0 else 1 + digits (n div 10))"
  by auto
termination by (relation "measure nat") auto

declare digits.simps [simp del]

definition times50 :: "int \<times> int \<Rightarrow> int \<Rightarrow> rat" where
  "times50 d k =
     (let (c, p) = d; C = c * k; n = digits \<bar>C\<bar> in
      if n \<le> 50 then of_int C * 10 powi p
      else of_int (round_even (of_int C / 10 powi (n - 50))) * 10 powi (n - 50) * 10 powi p)"

lemma digits_least: "0 < n \<Longrightarrow> 1 \<le> digits n \<and> 10 ^ nat (digits n - 1) \<le> n"
proof (induction n rule: digits.induct)
  case (1 n)
  show ?case
  proof (cases "n < 10")
    case True
    then have "n div 10 = 0" using "1.prems" by simp
    then have "digits n = 1" using "1.prems" by (subst digits.simps) (simp add: digits.simps [of 0])
    then show ?thesis using "1.prems" by simp
  next
    case False
    then have pos: "0 < n div 10" and n: "\<not> n \<le> 0" by auto
    define b where "b = digits (n div 10)"
    have IH: "1 \<le> b" "10 ^ nat (b - 1) \<le> n div 10" using "1.IH" [OF n pos] by (auto simp: b_def)
    have eq: "digits n = 1 + b" using n by (subst digits.simps) (simp add: b_def)
    have "nat (digits n - 1) = Suc (nat (b - 1))" using IH(1) eq by auto
    then show ?thesis using IH eq by auto
  qed
qed

text \<open>The product is exact to one part in \<open>10 ^ 49\<close>.\<close>

lemma times50_near:
  assumes "0 \<le> c * k"
  shows "\<bar>times50 (c, p) k - of_int (c * k) * 10 powi p\<bar> \<le> (of_int (c * k) * 10 powi p) / 10 ^ 49"
proof -
  define C n where "C = c * k" and "n = digits C"
  have C: "0 \<le> C" using assms by (simp add: C_def)
  have val: "times50 (c, p) k = (if n \<le> 50 then of_int C * 10 powi p
      else of_int (round_even (of_int C / 10 powi (n - 50))) * 10 powi (n - 50) * 10 powi p)"
    using C by (simp add: times50_def C_def n_def Let_def)
  show ?thesis
  proof (cases "n \<le> 50")
    case True
    have "0 \<le> (of_int C * 10 powi p) / (10 ^ 49 :: rat)" using C by simp
    then show ?thesis using True by (simp add: val C_def)
  next
    case False
    then have pos: "0 < C" using C by (cases "C = 0") (simp_all add: n_def digits.simps [of 0])
    let ?u = "(10::rat) powi (n - 50)"
    have low: "10 ^ nat (n - 1) \<le> C" using digits_least [OF pos] by (simp add: n_def)
    have "nat (n - 1) = nat (n - 50) + 49" using False by simp
    then have "?u * 10 ^ 49 = of_int (10 ^ nat (n - 1))"
      using False by (simp add: power_int_nonneg_exp power_add)
    also have "\<dots> \<le> of_int C" using low by (simp only: of_int_le_iff)
    finally have u: "?u \<le> of_int C / 10 ^ 49" by (simp add: field_simps)
    have up: "0 < ?u" by simp
    have "of_int (round_even (of_int C / ?u)) * ?u - of_int C = (of_int (round_even (of_int C / ?u)) - of_int C / ?u) * ?u"
      using up by (simp add: left_diff_distrib)
    then have "\<bar>of_int (round_even (of_int C / ?u)) * ?u - of_int C\<bar> = \<bar>of_int (round_even (of_int C / ?u)) - of_int C / ?u\<bar> * \<bar>?u\<bar>"
      by (simp only: abs_mult)
    also have "\<dots> = \<bar>of_int (round_even (of_int C / ?u)) - of_int C / ?u\<bar> * ?u" using up by (simp only: abs_of_pos)
    also have "\<dots> \<le> 1/2 * ?u" using round_even_near by (intro mult_right_mono) auto
    also have "\<dots> \<le> of_int C / 10 ^ 49" using u up by linarith
    finally have near: "\<bar>of_int (round_even (of_int C / ?u)) * ?u - of_int C\<bar> \<le> of_int C / 10 ^ 49" .
    have "\<bar>times50 (c, p) k - of_int C * 10 powi p\<bar> = \<bar>of_int (round_even (of_int C / ?u)) * ?u - of_int C\<bar> * 10 powi p"
      using False by (simp add: val abs_mult flip: left_diff_distrib)
    also have "\<dots> \<le> of_int C / 10 ^ 49 * 10 powi p" using near by (intro mult_right_mono) auto
    finally show ?thesis by (simp add: C_def)
  qed
qed

text \<open>The spelling rounds back to the number it spells.\<close>

lemma best_multiple_Some: "best_multiple x p = Some c \<Longrightarrow> rounds_to x c p"
  by (auto simp: best_multiple_def Let_def split: if_splits)

lemma b64_multiple:
  assumes "is_b64 x" shows "\<exists>n e. - 1074 \<le> e \<and> x = of_int n * 2 powi e"
proof -
  have "x = of_int (round_even (x / ulp x)) * 2 powi ulp_exp x"
    using fl_value [of x x] assms by (simp add: is_b64_def ulp_def)
  moreover have "- 1074 \<le> ulp_exp x" by (simp add: ulp_exp_def)
  ultimately show ?thesis by blast
qed

lemma b64_decimal:
  assumes "is_b64 x" and "p \<le> - 1074" shows "of_int \<lfloor>x / 10 powi p\<rfloor> * 10 powi p = x"
proof -
  obtain n e where e: "- 1074 \<le> e" "x = of_int n * 2 powi e" using b64_multiple [OF assms(1)] by blast
  have ten: "(10::rat) powi p = 2 powi p * 5 powi p"
    using power_int_mult_distrib [of "2::rat" 5 p] by simp
  have "x / 10 powi p = of_int n * (2 powi e / 2 powi p) * inverse (5 powi p)"
    unfolding e(2) ten by (simp add: divide_inverse mult_ac)
  also have "\<dots> = of_int n * 2 powi (e - p) * 5 powi (- p)" by (simp add: power_int_diff power_int_minus)
  also have "\<dots> = of_int (n * 2 ^ nat (e - p) * 5 ^ nat (- p))" using assms(2) e(1) by (simp add: power_int_nonneg_exp)
  finally obtain m where m: "x / 10 powi p = of_int m" by blast
  then have "of_int m * 10 powi p = x" by (simp add: divide_eq_eq)
  then show ?thesis by (simp add: m)
qed

lemma spell_from_rounds:
  assumes "is_b64 x" and "spell_from p x = (c, q)" shows "fl (of_int c * 10 powi q) = Some x"
  using assms
proof (induction p x rule: spell_from.induct)
  case (1 p x)
  show ?case
  proof (cases "best_multiple x p")
    case None
    show ?thesis
    proof (cases "p \<le> - 1074")
      case True
      then have "c = \<lfloor>x / 10 powi p\<rfloor>" "q = p" using "1.prems"(2) None by (auto simp: spell_from.simps [of p])
      then have "of_int c * 10 powi q = x" using b64_decimal [OF "1.prems"(1) True] by simp
      then show ?thesis using "1.prems"(1) by (simp add: is_b64_def)
    next
      case False
      then show ?thesis using "1.IH" [OF None False "1.prems"(1)] "1.prems"(2) None by (simp add: spell_from.simps [of p])
    qed
  next
    case (Some d)
    then have "rounds_to x c q" using best_multiple_Some [OF Some] "1.prems"(2) by (simp add: spell_from.simps [of p])
    then show ?thesis by (simp add: rounds_to_def)
  qed
qed

lemma spelled_rounds: "is_b64 x \<Longrightarrow> fl (spelled x) = Some x"
  unfolding spelled_def spell_def Let_def by (auto split: prod.split intro: spell_from_rounds)

lemma fl_pos:
  assumes "fl q = Some v" and "0 < v" shows "0 < q"
proof (rule ccontr)
  assume "\<not> 0 < q"
  then have "q / ulp q \<le> 0" by (simp add: divide_nonpos_pos)
  then have "of_int (round_even (q / ulp q)) \<le> (1/2 :: rat)" using round_even_near [of "q / ulp q"] by linarith
  then have "round_even (q / ulp q) \<le> 0" by linarith
  then have "v \<le> 0" by (simp add: fl_value [OF assms(1)] mult_nonpos_nonneg less_imp_le)
  then show False using assms(2) by simp
qed

text \<open>A normal binary64 and its spelling differ by at most one part in \<open>2 ^ 53\<close>.\<close>

lemma spelled_near:
  assumes "is_b64 x" and "2 powi (- 1000) \<le> x"
  shows "\<bar>x - spelled x\<bar> \<le> eps * spelled x" and "0 < spelled x"
proof -
  note r = spelled_rounds [OF assms(1)]
  have pos: "0 < x" using assms(2) by (meson less_le_trans zero_less_numeral zero_less_power_int)
  show s: "0 < spelled x" by (rule fl_pos [OF r pos])
  define A B D where "A = (2::rat) powi (- 1022)" and "B = (2::rat) powi (- 1000)" and "D = (2::rat) powi (- 1074)"
  have DA: "D \<le> A" unfolding D_def A_def by (rule power_int_increasing) simp_all
  have "(2::rat) powi (1 + (- 1022)) \<le> B" unfolding B_def by (rule power_int_increasing) simp_all
  then have AB: "2 * A \<le> B" unfolding A_def by (subst (asm) power_int_add) simp_all
  have "A \<le> spelled x"
  proof (rule ccontr)
    let ?s = "spelled x"
    assume small: "\<not> A \<le> ?s"
    then have "2 powi magnitude ?s < (2::rat) powi (- 1022)" using magnitude_bounds(1) [OF s] unfolding A_def by linarith
    then have "magnitude ?s < - 1022" by (simp only: powi_less_iff)
    then have u: "ulp ?s = D" using s unfolding D_def ulp_def ulp_exp_def by simp
    have "\<bar>x - ?s\<bar> \<le> ulp ?s / 2" using rounded_near [of ?s] fl_value [OF r] by simp
    then show False using small assms(2) [folded B_def] DA AB u by linarith
  qed
  then show "\<bar>x - spelled x\<bar> \<le> eps * spelled x" using fl_near [OF r] s unfolding A_def by (simp only: abs_of_pos)
qed

end
