(* ===== verification/Pops_Cadence.thy ===== *)
theory Pops_Cadence
  imports Pops_Float
begin

text \<open>
  The physical-time cadence of \<open>python/pops/time/_schedule/api.py\<close> (\<open>EveryDt\<close> and its helpers): the
  lattice \<open>k * interval\<close> of binary64 times, when a consumer is due on it, which lattice index an
  occurrence has and what the next deadline of a run is. A time and an interval are the values of
  their finite binary64; the hexadecimal text the protocol passes is the number it spells.
\<close>

section \<open>The trigger\<close>

definition same_physical_time :: "rat \<Rightarrow> rat \<Rightarrow> bool" where
  "same_physical_time l r =
     (case fl \<bar>l - r\<bar> of None \<Rightarrow> False | Some d \<Rightarrow> d \<le> 4 * max (ulp l) (ulp r))"

definition every_dt_quotient :: "rat \<Rightarrow> rat \<Rightarrow> rat result" where
  "every_dt_quotient now interval =
     (case fl (now / interval) of None \<Rightarrow> Inl RuntimeError | Some q \<Rightarrow> Inr q)"

definition lattice_time :: "int \<Rightarrow> rat \<Rightarrow> rat option" where
  "lattice_time index interval = fl (times50 (spell interval) index)"

text \<open>The test \<open>isfinite(target) and now >= target and same_physical_time(now, target)\<close>.\<close>

definition on_lattice :: "rat \<Rightarrow> rat option \<Rightarrow> bool" where
  "on_lattice now target =
     (case target of None \<Rightarrow> False | Some t \<Rightarrow> t \<le> now \<and> same_physical_time now t)"

definition every_dt_due :: "rat \<Rightarrow> bool \<Rightarrow> rat \<Rightarrow> bool result" where
  "every_dt_due interval at_start now =
     (if at_start then Inr False
      else bindR (every_dt_quotient now interval) (\<lambda>q.
        let nearest = round_even q in
        if nearest < 1 then Inr False else Inr (on_lattice now (lattice_time nearest interval))))"

definition every_dt_occurrence :: "rat \<Rightarrow> rat \<Rightarrow> int option result" where
  "every_dt_occurrence interval now =
     bindR (every_dt_quotient now interval) (\<lambda>q.
       let index = round_even q in
       if index < 1 then Inr None
       else if on_lattice now (lattice_time index interval) then Inr (Some index) else Inr None)"

definition every_dt_deadline :: "rat \<Rightarrow> rat \<Rightarrow> rat result" where
  "every_dt_deadline interval now =
     bindR (every_dt_quotient now interval) (\<lambda>q.
       let nearest = round_even q;
           index = (if 1 \<le> nearest \<and> on_lattice now (lattice_time nearest interval) then nearest + 1
                    else max 1 (\<lfloor>q\<rfloor> + 1)) in
       case lattice_time index interval of
         None \<Rightarrow> Inl OverflowError
       | Some deadline \<Rightarrow> raise_if (\<not> now < deadline) RuntimeError (Inr deadline))"

section \<open>The lattice in exact terms\<close>

definition cadence_ok :: "rat \<Rightarrow> bool" where
  "cadence_ok interval \<longleftrightarrow> is_b64 interval \<and> 2 powi (- 1000) \<le> interval"

lemma cadence_pos: "cadence_ok I \<Longrightarrow> 0 < I"
  unfolding cadence_ok_def by (meson less_le_trans zero_less_numeral zero_less_power_int)

text \<open>The indices the theorems speak of: below \<open>2 ^ 49\<close> and within the range of binary64.\<close>

definition in_range :: "rat \<Rightarrow> int \<Rightarrow> bool" where
  "in_range I k \<longleftrightarrow> 1 \<le> k \<and> k \<le> 2 ^ 49 \<and> of_int k * I \<le> 2 powi 1000"

lemma error_sum:
  fixes W S T L :: rat
  assumes "\<bar>W - S\<bar> \<le> eps * S" and "0 < S" and "\<bar>T - S\<bar> \<le> S / 10 ^ 49" and "\<bar>L - T\<bar> \<le> eps * \<bar>T\<bar>"
  shows "\<bar>L - W\<bar> \<le> 3 * eps * W"
  using assms unfolding eps_def by (simp add: abs_if split: if_splits)

lemma lattice_near:
  assumes I: "cadence_ok I" and k: "in_range I k"
  shows "\<exists>L. lattice_time k I = Some L \<and> \<bar>L - of_int k * I\<bar> \<le> 3 * eps * (of_int k * I) \<and> is_b64 L"
proof -
  define A B C where "A = (2::rat) powi (- 1022)" and "B = (2::rat) powi (- 1000)" and "C = (2::rat) powi 1000"
  define D where "D = (2::rat) powi 1023"
  have AB: "2 * A \<le> B"
  proof -
    have "(2::rat) powi (1 + (- 1022)) \<le> B" unfolding B_def by (rule power_int_increasing) simp_all
    then show ?thesis unfolding A_def by (subst (asm) power_int_add) simp_all
  qed
  have CD: "2 * C \<le> D"
  proof -
    have "(2::rat) powi (1 + 1000) \<le> D" unfolding D_def by (rule power_int_increasing) simp_all
    then show ?thesis unfolding C_def by (subst (asm) power_int_add) simp_all
  qed
  obtain c p where cp: "spell I = (c, p)" by (cases "spell I")
  define S T W where "S = of_int k * spelled I" and "T = times50 (spell I) k" and "W = of_int k * I"
  have near: "\<bar>I - spelled I\<bar> \<le> eps * spelled I" and spos: "0 < spelled I"
    using spelled_near [of I] I unfolding cadence_ok_def by blast+
  have kpos: "(1::rat) \<le> of_int k" using k by (simp add: in_range_def)
  have S: "S = of_int (c * k) * 10 powi p" by (simp add: S_def spelled_def cp mult_ac)
  have Spos: "0 < S" using spos kpos by (simp add: S_def)
  have WS: "\<bar>W - S\<bar> \<le> eps * S"
  proof -
    have "\<bar>W - S\<bar> = of_int k * \<bar>I - spelled I\<bar>"
      using kpos by (simp add: W_def S_def abs_mult flip: right_diff_distrib)
    also have "\<dots> \<le> of_int k * (eps * spelled I)" using near kpos by (intro mult_left_mono) auto
    finally show ?thesis by (simp add: S_def mult_ac)
  qed
  have "0 \<le> c * k"
  proof (rule ccontr)
    assume "\<not> 0 \<le> c * k"
    then have "of_int (c * k) < (0::rat)" by (simp only: of_int_less_0_iff not_le)
    then have "S < 0" unfolding S by (rule mult_neg_pos) simp
    then show False using Spos by simp
  qed
  then have TS: "\<bar>T - S\<bar> \<le> S / 10 ^ 49"
    using times50_near [of c k p] by (simp add: T_def cp S)
  have W: "B \<le> W" "W \<le> C"
  proof -
    have "B \<le> I" using I by (simp add: cadence_ok_def B_def)
    also have "I \<le> W" using mult_right_mono [OF kpos, of I] cadence_pos [OF I] by (simp add: W_def)
    finally show "B \<le> W" .
    show "W \<le> C" using k by (simp add: in_range_def W_def C_def)
  qed
  have Tlow: "W / 2 \<le> T" and Thigh: "T \<le> 2 * W"
    using WS TS Spos unfolding eps_def by (simp_all add: abs_if split: if_splits)
  have Tpos: "0 < T" using Tlow W(1) unfolding B_def by (meson half_gt_zero less_le_trans zero_less_numeral zero_less_power_int)
  have T1: "2 powi (- 1022) \<le> \<bar>T\<bar>" "\<bar>T\<bar> \<le> 2 powi 1023"
    using Tlow Thigh W AB CD Tpos unfolding A_def [symmetric] D_def [symmetric] by linarith+
  obtain L where L: "fl T = Some L" using fl_defined [OF T1] by blast
  have "\<bar>L - W\<bar> \<le> 3 * eps * W"
    by (rule error_sum [OF WS Spos TS fl_near [OF L T1(1)]])
  then show ?thesis
    using L fl_is_b64 [OF L] by (auto simp: lattice_time_def T_def W_def)
qed

definition lattice_point :: "rat \<Rightarrow> int \<Rightarrow> rat" where
  "lattice_point I k = the (lattice_time k I)"

lemma lattice_point:
  assumes "cadence_ok I" and "in_range I k"
  shows "lattice_time k I = Some (lattice_point I k)" and "\<bar>lattice_point I k - of_int k * I\<bar> \<le> 3 * eps * (of_int k * I)"
    and "is_b64 (lattice_point I k)" and "0 < lattice_point I k"
proof -
  obtain L where L: "lattice_time k I = Some L" "\<bar>L - of_int k * I\<bar> \<le> 3 * eps * (of_int k * I)" "is_b64 L"
    using lattice_near [OF assms] by blast
  define W where "W = of_int k * I"
  have "0 < W" using assms(2) cadence_pos [OF assms(1)] by (simp add: in_range_def W_def)
  then have "0 < L" using L(2) unfolding eps_def W_def [symmetric] by (simp add: abs_if split: if_splits)
  then show "lattice_time k I = Some (lattice_point I k)" "\<bar>lattice_point I k - of_int k * I\<bar> \<le> 3 * eps * (of_int k * I)"
    "is_b64 (lattice_point I k)" "0 < lattice_point I k" using L by (simp_all add: lattice_point_def)
qed

text \<open>The quotient of a time at the lattice rounds to its index.\<close>

lemma lattice_quotient:
  assumes I: "cadence_ok I" and k: "in_range I k"
  shows "\<exists>q. every_dt_quotient (lattice_point I k) I = Inr q \<and> round_even q = k"
proof -
  define K where "K = (of_int k :: rat)"
  let ?L = "lattice_point I k"
  note L = lattice_point [OF I k, folded K_def] and pos = cadence_pos [OF I]
  have kb: "1 \<le> K" "K \<le> 2 ^ 49"
  proof -
    show "1 \<le> K" using k by (simp add: in_range_def K_def)
    have "K \<le> of_int (2 ^ 49)" using k unfolding in_range_def K_def by (simp only: of_int_le_iff)
    then show "K \<le> 2 ^ 49" by simp
  qed
  define Q where "Q = ?L / I"
  have "?L / I - K = (?L - K * I) / I" using pos by (simp add: field_simps)
  then have "\<bar>?L / I - K\<bar> = \<bar>?L - K * I\<bar> / I" using pos by (simp only: abs_divide abs_of_pos)
  also have "\<dots> \<le> 3 * eps * K" using L(2) pos by (simp add: pos_divide_le_eq mult_ac)
  finally have Q: "\<bar>Q - K\<bar> \<le> 3 * eps * K" by (simp add: Q_def)
  have Qb: "1/2 \<le> Q" "Q \<le> 2 ^ 50" using Q kb unfolding eps_def by (simp_all add: abs_if split: if_splits)
  have r: "2 powi (- 1022) \<le> \<bar>Q\<bar>" "\<bar>Q\<bar> \<le> 2 powi 1023"
  proof -
    have "(2::rat) powi (- 1022) \<le> 2 powi (- 1)" "(2::rat) powi 50 \<le> 2 powi 1023" by (rule power_int_increasing; simp)+
    moreover have "(2::rat) powi (- 1) = 1/2" "(2::rat) powi 50 = 2 ^ 50" by (simp_all only: power_int_minus power_int_1_right power_int_numeral inverse_eq_divide)
    ultimately have "(2::rat) powi (- 1022) \<le> 1/2" "2 ^ 50 \<le> (2::rat) powi 1023" by simp_all
    then show "2 powi (- 1022) \<le> \<bar>Q\<bar>" "\<bar>Q\<bar> \<le> 2 powi 1023"
      using Qb by (blast intro: order_trans abs_ge_self, metis abs_of_nonneg dual_order.trans half_gt_zero less_imp_le order_trans zero_le_divide_1_iff zero_le_numeral)
  qed
  obtain q where q: "fl Q = Some q" using fl_defined [OF r] by blast
  have "\<bar>q - Q\<bar> \<le> eps * \<bar>Q\<bar>" by (rule fl_near [OF q r(1)])
  then have "\<bar>q - K\<bar> < 1/2" using Q kb Qb unfolding eps_def by (simp add: abs_if split: if_splits)
  then have "round_even q = k" unfolding K_def by (rule round_even_unique)
  then show ?thesis using q by (simp add: every_dt_quotient_def Q_def)
qed

lemma lattice_increasing:
  assumes I: "cadence_ok I" and j: "in_range I j" and k: "in_range I k" and "j < k"
  shows "lattice_point I j < lattice_point I k"
proof -
  define J K where "J = (of_int j :: rat)" and "K = (of_int k :: rat)"
  note pos = cadence_pos [OF I]
  note Lj = lattice_point(2) [OF I j, folded J_def] and Lk = lattice_point(2) [OF I k, folded K_def]
  have "j + 1 \<le> k" using assms(4) by simp
  then have "of_int (j + 1) \<le> (of_int k :: rat)" by (simp only: of_int_le_iff)
  then have gap: "J + 1 \<le> K" by (simp only: J_def K_def of_int_add of_int_1)
  have "K \<le> of_int (2 ^ 49)" using k unfolding in_range_def K_def by (simp only: of_int_le_iff)
  then have kb: "K \<le> 2 ^ 49" by simp
  define A B where "A = J * I" and "B = K * I"
  have "3 * (J + K) \<le> 3 * 2 ^ 50 - 3" using gap kb by simp
  then have "3 * eps * (J + K) < 1" unfolding eps_def by simp
  then have "3 * eps * (J + K) * I < 1 * I" using pos by (rule mult_strict_right_mono)
  moreover have "1 * I \<le> (K - J) * I" using gap pos by (intro mult_right_mono) auto
  moreover have "3 * eps * (J + K) * I = 3 * eps * A + 3 * eps * B" "(K - J) * I = B - A"
    by (simp_all only: A_def B_def distrib_left distrib_right left_diff_distrib mult.assoc)
  ultimately have less: "3 * eps * A + 3 * eps * B < B - A" by simp
  have "lattice_point I j \<le> A + 3 * eps * A" using Lj [folded A_def] by (simp only: abs_le_iff) linarith
  moreover have "B - 3 * eps * B \<le> lattice_point I k" using Lk [folded B_def] by (simp only: abs_le_iff) linarith
  ultimately show ?thesis using less by linarith
qed

lemma same_time_refl [simp]: "same_physical_time t t"
  by (simp add: same_physical_time_def ulp_def)

lemma on_lattice_refl [simp]: "on_lattice t (Some t)"
  by (simp add: on_lattice_def)

lemma lattice_point_due:
  assumes "cadence_ok I" and "in_range I k"
  shows "every_dt_due I False (lattice_point I k) = Inr True"
    and "every_dt_occurrence I (lattice_point I k) = Inr (Some k)"
proof -
  obtain q where q: "every_dt_quotient (lattice_point I k) I = Inr q" "round_even q = k"
    using lattice_quotient [OF assms] by blast
  have "\<not> k < 1" using assms(2) by (simp add: in_range_def)
  then show "every_dt_due I False (lattice_point I k) = Inr True" "every_dt_occurrence I (lattice_point I k) = Inr (Some k)"
    using lattice_point(1) [OF assms] by (simp_all add: every_dt_due_def every_dt_occurrence_def Let_def q)
qed

lemma lattice_deadline:
  assumes "cadence_ok I" and "in_range I k" and "in_range I (k + 1)"
  shows "every_dt_deadline I (lattice_point I k) = Inr (lattice_point I (k + 1))"
proof -
  obtain q where q: "every_dt_quotient (lattice_point I k) I = Inr q" "round_even q = k"
    using lattice_quotient [OF assms(1,2)] by blast
  have "lattice_point I k < lattice_point I (k + 1)" by (rule lattice_increasing [OF assms]) simp
  then show ?thesis
    using q lattice_point(1) [OF assms(1,2)] lattice_point(1) [OF assms(1,3)] assms(2)
    by (simp add: every_dt_deadline_def Let_def in_range_def)
qed

lemma first_deadline:
  assumes "cadence_ok I" and "in_range I 1"
  shows "every_dt_deadline I 0 = Inr (lattice_point I 1)" and "every_dt_due I False 0 = Inr False"
    and "every_dt_occurrence I 0 = Inr None"
proof -
  have q: "every_dt_quotient 0 I = Inr 0" by (simp add: every_dt_quotient_def)
  have r: "round_even 0 = 0" by (simp add: round_even_def)
  show "every_dt_deadline I 0 = Inr (lattice_point I 1)"
    using lattice_point(1,4) [OF assms] by (simp add: every_dt_deadline_def Let_def q r)
  show "every_dt_due I False 0 = Inr False" "every_dt_occurrence I 0 = Inr None"
    by (simp_all add: every_dt_due_def every_dt_occurrence_def Let_def q r)
qed

text \<open>A run that starts at time zero and lands on each deadline it is given.\<close>

primrec landing :: "rat \<Rightarrow> nat \<Rightarrow> rat result" where
  "landing I 0 = Inr 0"
| "landing I (Suc n) = bindR (landing I n) (every_dt_deadline I)"

lemma in_range_down: "cadence_ok I \<Longrightarrow> in_range I k \<Longrightarrow> 1 \<le> j \<Longrightarrow> j \<le> k \<Longrightarrow> in_range I j"
proof -
  assume a: "cadence_ok I" "in_range I k" "1 \<le> j" "j \<le> k"
  have "of_int j * I \<le> of_int k * I" using a(4) cadence_pos [OF a(1)] by (simp add: mult_right_mono)
  then show ?thesis using a by (auto simp: in_range_def)
qed

lemma landing_point:
  assumes "cadence_ok I" and "in_range I (int n)" shows "landing I n = Inr (lattice_point I (int n))"
  using assms(2)
proof (induction n)
  case (Suc n)
  show ?case
  proof (cases n)
    case 0
    then show ?thesis using first_deadline [OF assms(1)] Suc.prems by simp
  next
    case (Suc m)
    then have "in_range I (int n)" by (intro in_range_down [OF assms(1) Suc.prems]) auto
    then show ?thesis using Suc.IH lattice_deadline [OF assms(1), of "int n"] Suc.prems by (simp add: add.commute)
  qed
qed (simp add: in_range_def)

text \<open>
  Claim C15. A run from time zero that lands on every deadline visits the lattice points in order, and
  each is published exactly once: the n-th landing is a binary64 within three parts in \<open>2 ^ 53\<close> of
  \<open>n * interval\<close>, later than the one before, due, and its occurrence is the index \<open>n\<close>. This holds for
  every interval from \<open>2 ^ -1000\<close> on and \<open>2 ^ 49\<close> samples while the times stay below \<open>2 ^ 1000\<close>.
\<close>

theorem every_dt_run_samples_the_lattice:
  assumes "cadence_ok I" and "1 \<le> n" and "n \<le> 2 ^ 49" and "of_nat n * I \<le> 2 powi 1000"
  shows "\<exists>t s. landing I n = Inr t \<and> landing I (n - 1) = Inr s \<and> s < t \<and> is_b64 t
    \<and> \<bar>t - of_nat n * I\<bar> \<le> 3 * eps * (of_nat n * I)
    \<and> every_dt_due I False t = Inr True \<and> every_dt_occurrence I t = Inr (Some (int n))"
proof -
  have r: "in_range I (int n)"
  proof -
    have "int n \<le> int (2 ^ 49)" using assms(3) by (simp only: of_nat_le_iff)
    then show ?thesis using assms(2,4) by (simp add: in_range_def)
  qed
  note p = lattice_point [OF assms(1) r] and due = lattice_point_due [OF assms(1) r]
  have "\<exists>s. landing I (n - 1) = Inr s \<and> s < lattice_point I (int n)"
  proof (cases "n = 1")
    case True
    then show ?thesis using p(4) by simp
  next
    case False
    then have rp: "in_range I (int (n - 1))" using assms(2) by (intro in_range_down [OF assms(1) r]) auto
    moreover have "lattice_point I (int (n - 1)) < lattice_point I (int n)"
      using assms(2) by (intro lattice_increasing [OF assms(1) rp r]) auto
    ultimately show ?thesis using landing_point [OF assms(1)] by blast
  qed
  then show ?thesis using landing_point [OF assms(1) r] p due by auto
qed

section \<open>What a deadline may pass over\<close>

text \<open>The quotient is at most a part in \<open>2 ^ 53\<close> above the exact one.\<close>

lemma quotient_high:
  assumes "every_dt_quotient now I = Inr q" and "0 < I" and "1 \<le> q"
  shows "q * I \<le> now + 2 * eps * now" and "0 < now"
proof -
  define Q where "Q = now / I"
  have fq: "fl Q = Some q" using assms(1) by (auto simp: every_dt_quotient_def Q_def split: option.splits)
  have Qpos: "0 < Q" using fl_pos [OF fq] assms(3) by simp
  then show now: "0 < now" using assms(2) by (simp add: Q_def zero_less_divide_iff)
  have "2 powi (- 1022) \<le> \<bar>Q\<bar>"
  proof (rule ccontr)
    assume "\<not> 2 powi (- 1022) \<le> \<bar>Q\<bar>"
    then have small: "Q < 2 powi (- 1022)" using Qpos by simp
    have "2 powi magnitude Q < (2::rat) powi (- 1022)" using magnitude_bounds(1) [OF Qpos] small by linarith
    then have "magnitude Q < - 1022" by (simp only: powi_less_iff)
    then have u: "ulp Q = 2 powi (- 1074)" using Qpos by (simp only: ulp_def ulp_exp_def) simp
    have "\<bar>q - Q\<bar> \<le> ulp Q / 2" using rounded_near [of Q] fl_value [OF fq] by simp
    moreover have "(2::rat) powi (- 1074) \<le> 2 powi (- 2)" "(2::rat) powi (- 1022) \<le> 2 powi (- 2)" by (rule power_int_increasing; simp)+
    moreover have "(2::rat) powi (- 2) = 1/4" by simp
    ultimately show False using assms(3) small u by linarith
  qed
  then have "\<bar>q - Q\<bar> \<le> eps * Q" using fl_near [OF fq] Qpos by simp
  then have "q \<le> Q + 2 * eps * Q" using Qpos by (simp add: eps_def abs_if split: if_splits)
  then have "q * I \<le> (Q + 2 * eps * Q) * I" using assms(2) by (simp add: mult_right_mono)
  also have "\<dots> = now + 2 * eps * now" using assms(2) by (simp add: Q_def distrib_right)
  finally show "q * I \<le> now + 2 * eps * now" .
qed

text \<open>
  A deadline is later than the clock, it is a lattice point, and a lattice point it passes over
  that is still ahead of the clock is within eight parts in \<open>2 ^ 53\<close> of it: no sample is lost by more
  than rounding.
\<close>

theorem deadline_skips_only_roundoff:
  assumes I: "cadence_ok I" and d: "every_dt_deadline I now = Inr d"
  shows "now < d \<and> (\<exists>m \<ge> 1. lattice_time m I = Some d
    \<and> (in_range I m \<longrightarrow> (\<forall>j. 1 \<le> j \<and> j < m \<and> now < lattice_point I j \<longrightarrow> lattice_point I j - now \<le> 8 * eps * now)))"
proof -
  obtain q where q: "every_dt_quotient now I = Inr q" using d by (auto simp: every_dt_deadline_def)
  define near where "near = (1 \<le> round_even q \<and> on_lattice now (lattice_time (round_even q) I))"
  define m where "m = (if near then round_even q + 1 else max 1 (\<lfloor>q\<rfloor> + 1))"
  have "(case lattice_time m I of None \<Rightarrow> Inl OverflowError | Some deadline \<Rightarrow> raise_if (\<not> now < deadline) RuntimeError (Inr deadline)) = Inr d"
    using d unfolding every_dt_deadline_def Let_def q m_def near_def by simp
  then have L: "lattice_time m I = Some d" "now < d" by (auto split: option.splits)
  have m1: "1 \<le> m" by (simp add: m_def near_def)
  have "lattice_point I j - now \<le> 8 * eps * now"
    if r: "in_range I m" and j: "1 \<le> j" "j < m" "now < lattice_point I j" for j
  proof (cases near)
    case True
    then have n: "lattice_point I (round_even q) \<le> now" "1 \<le> round_even q" "j \<le> round_even q" "m = round_even q + 1"
      using j by (auto simp: near_def m_def on_lattice_def lattice_point_def split: option.splits)
    have rn: "in_range I (round_even q)" by (rule in_range_down [OF I r]) (use n in auto)
    have rj: "in_range I j" by (rule in_range_down [OF I rn j(1) n(3)])
    have "lattice_point I j \<le> lattice_point I (round_even q)"
      using lattice_increasing [OF I rj rn] n(3) by (cases "j = round_even q") auto
    then show ?thesis using n(1) j(3) by simp
  next
    case False
    then have jq: "j \<le> \<lfloor>q\<rfloor>" using j by (auto simp: m_def max_def split: if_splits)
    then have jq': "of_int j \<le> q" by (simp add: le_floor_iff)
    moreover have "(1::rat) \<le> of_int j" using j(1) by simp
    ultimately have q1: "1 \<le> q" by linarith
    note high = quotient_high [OF q cadence_pos [OF I] q1]
    have rj: "in_range I j" by (rule in_range_down [OF I r j(1)]) (use j in simp)
    define W where "W = of_int j * I"
    have "W \<le> q * I" using jq' cadence_pos [OF I] by (simp add: W_def mult_right_mono)
    then have "W \<le> now + 2 * eps * now" using high(1) by linarith
    moreover have "\<bar>lattice_point I j - W\<bar> \<le> 3 * eps * W" using lattice_point(2) [OF I rj] by (simp add: W_def)
    ultimately show ?thesis using high(2) unfolding eps_def by (simp add: abs_if split: if_splits)
  qed
  then show ?thesis using L m1 by blast
qed

section \<open>A lattice point just ahead of the clock\<close>

text \<open>Evaluating a rounding at a concrete rational: its binade and its rounded significand.\<close>

lemma fl_eval:
  assumes "2 powi e \<le> q" and "q < 2 powi (e + 1)" and "- 1022 \<le> e" and "\<bar>q / 2 powi (e - 52) - of_int n\<bar> < 1/2"
    and "\<bar>of_int n * 2 powi (e - 52)\<bar> < (2::rat) powi 1024"
  shows "fl q = Some (of_int n * 2 powi (e - 52))"
proof -
  have pos: "0 < q" using assms(1) by (meson less_le_trans zero_less_numeral zero_less_power_int)
  then have u: "ulp q = 2 powi (e - 52)"
    using magnitude_unique [OF assms(1,2)] assms(3) by (simp add: ulp_def ulp_exp_def)
  have "round_even (q / ulp q) = n" unfolding u using assms(4) by (rule round_even_unique)
  then have "of_int (round_even (q / ulp q)) * ulp q = of_int n * 2 powi (e - 52)" by (simp only: u)
  then show ?thesis using assms(5) by (simp only: fl_def Let_def not_le [symmetric] if_False)
qed

text \<open>The binary64 nearest to \<open>0.3\<close>, and the last binary64 before \<open>0.9\<close>.\<close>

definition three_tenths :: rat where
  "three_tenths = 5404319552844595 / 18014398509481984"

definition before_nine_tenths :: rat where
  "before_nine_tenths = 2026619832316723 / 2251799813685248"

lemma fl_three_tenths: "fl (3/10) = Some three_tenths" "fl three_tenths = Some three_tenths" "fl (1/5) \<noteq> Some three_tenths"
  using fl_eval [of "- 2" "3/10" 5404319552844595] fl_eval [of "- 2" three_tenths 5404319552844595] fl_eval [of "- 3" "1/5" 7205759403792794]
  by (simp_all add: three_tenths_def)

lemma fl_one: "fl 1 = Some 1"
  using fl_eval [of 0 1 4503599627370496] by simp

lemma spell_three_tenths: "spell three_tenths = (3, - 1)"
proof -
  have m: "magnitude three_tenths = - 2" by (rule magnitude_unique) (simp_all add: three_tenths_def)
  have f: "\<lfloor>three_tenths\<rfloor> = 0" "\<lfloor>three_tenths * 10\<rfloor> = 2" by (simp_all add: three_tenths_def floor_eq_iff)
  have ne: "three_tenths \<noteq> 0" "three_tenths \<noteq> 1" by (simp_all add: three_tenths_def)
  have "best_multiple three_tenths 0 = None"
    using ne by (simp add: best_multiple_def Let_def rounds_to_def f fl_one)
  moreover have "best_multiple three_tenths (- 1) = Some 3"
    using fl_three_tenths f by (simp add: best_multiple_def Let_def rounds_to_def power_int_minus field_simps)
  ultimately show ?thesis
    by (simp add: spell_def m Let_def spell_from.simps [of 0] spell_from.simps [of "- 1"])
qed

lemma short_digits: "0 < n \<Longrightarrow> n < 100 \<Longrightarrow> digits n \<le> 50"
  by (subst digits.simps, subst digits.simps, subst digits.simps) (simp add: digits.simps [of 0])

lemma lattice_three_tenths:
  "lattice_time 3 three_tenths = Some (8106479329266893 / 9007199254740992)"
  "lattice_time 4 three_tenths = Some (5404319552844595 / 4503599627370496)"
  using fl_eval [of "- 1" "9/10" 8106479329266893] fl_eval [of 0 "6/5" 5404319552844595] short_digits [of 9] short_digits [of 12]
  by (simp_all add: lattice_time_def spell_three_tenths times50_def Let_def power_int_minus)


lemma three_tenths_ok: "cadence_ok three_tenths"
proof -
  have "(2::rat) powi (- 1000) \<le> 2 powi (- 2)" by (rule power_int_increasing) simp_all
  also have "\<dots> \<le> three_tenths" by (simp add: three_tenths_def)
  finally show ?thesis using fl_three_tenths(2) by (simp only: cadence_ok_def is_b64_def)
qed

theorem every_dt_run_samples_the_lattice_witness:
  "\<exists>t. landing three_tenths 3 = Inr t \<and> every_dt_due three_tenths False t = Inr True
     \<and> every_dt_occurrence three_tenths t = Inr (Some 3)"
  using every_dt_run_samples_the_lattice [OF three_tenths_ok, of 3] by (auto simp: three_tenths_def)

theorem deadline_skips_only_roundoff_witness:
  "every_dt_deadline three_tenths 0 = Inr three_tenths \<and> (0::rat) < three_tenths"
proof -
  have t: "lattice_time 1 three_tenths = Some three_tenths"
    using fl_three_tenths(1) short_digits [of 3] by (simp add: lattice_time_def spell_three_tenths times50_def Let_def power_int_minus)
  have "every_dt_quotient 0 three_tenths = Inr 0" by (simp add: every_dt_quotient_def)
  moreover have "round_even 0 = 0" by (simp add: round_even_def)
  moreover have pos: "0 < three_tenths" by (simp add: three_tenths_def)
  ultimately have d: "every_dt_deadline three_tenths 0 = Inr three_tenths"
    by (simp add: every_dt_deadline_def Let_def t)
  then show ?thesis using deadline_skips_only_roundoff [OF three_tenths_ok d] by simp
qed

end
