(* ===== verification/Pops_Schedule.thy ===== *)
theory Pops_Schedule
  imports Pops_Cadence Pops_Points Pops_Consumers
begin

text \<open>
  Schedules (\<open>python/pops/time/_schedule\<close>: \<open>ir.py\<close>, \<open>domains.py\<close>, \<open>api.py\<close>): the domains a cadence counts
  on, the triggers that say when it is due, the policies for the instants between, their lowering to
  the native schedule IR with all its checks, and the evidence a consumer reads at a moment of a run.

  The triggers, domains and policies of the package are constructors; third-party subclasses are not
  represented. A \<open>When\<close> condition is a resolved Boolean or an unresolved Program value of type \<open>'c\<close>.
  The identity of a stage is the stage point itself (its canonical JSON text spells it); the digest of
  a clock is a parameter.
\<close>

section \<open>The native IR\<close>

datatype timeline = AcceptedStepLine | StageLine | ClockTickLine | AmrLevelLine

record domain_ir =
  di_timeline :: timeline
  di_clock :: string
  di_stage :: "stage_point option"
  di_level :: "int option"

definition mk_domain_ir :: "timeline \<Rightarrow> string \<Rightarrow> stage_point option \<Rightarrow> int option \<Rightarrow> domain_ir result" where
  "mk_domain_ir line clock stage level =
     raise_if (clock = []) ValueError
    (raise_if (if line = StageLine then stage = None else stage \<noteq> None) ValueError
    (raise_if (if line = AmrLevelLine then (case level of None \<Rightarrow> True | Some l \<Rightarrow> l < 0) else level \<noteq> None) ValueError
       (Inr \<lparr>di_timeline = line, di_clock = clock, di_stage = stage, di_level = level\<rparr>)))"

datatype due_kind = DueAlways | CachePeriod | MacroStepZero | DueAtEnd | ProgramPredicate

record 'c due_ir =
  du_kind :: due_kind
  du_period :: "int option"
  du_predicate :: "'c option"

definition mk_due_ir :: "due_kind \<Rightarrow> int option \<Rightarrow> 'c option \<Rightarrow> 'c due_ir result" where
  "mk_due_ir kind period predicate =
     (let value = \<lparr>du_kind = kind, du_period = period, du_predicate = predicate\<rparr> in
      if kind = CachePeriod then
        raise_if (case period of None \<Rightarrow> True | Some n \<Rightarrow> n \<le> 0) ValueError
       (raise_if (predicate \<noteq> None) ValueError (Inr value))
      else
        raise_if (period \<noteq> None) ValueError
       (raise_if (if kind = ProgramPredicate then predicate = None else predicate \<noteq> None) ValueError (Inr value)))"

datatype action = EffectiveDt | Store | ZeroOut | AccumulateDtAction | Restore | ErrorOut

record off_ir =
  of_before :: "action list"
  of_after :: "action list"
  of_off :: "action list"
  of_skip :: bool

definition mk_off_ir :: "action list \<Rightarrow> action list \<Rightarrow> action list \<Rightarrow> bool \<Rightarrow> off_ir result" where
  "mk_off_ir before after off skip_comment =
     raise_if (\<not> distinct before \<or> \<not> set before \<subseteq> {EffectiveDt}) ValueError
    (raise_if (\<not> distinct after \<or> \<not> set after \<subseteq> {Store}) ValueError
    (raise_if (\<not> distinct off \<or> \<not> set off \<subseteq> {ZeroOut, AccumulateDtAction, Restore, ErrorOut}) ValueError
    (raise_if (skip_comment \<and> (before \<noteq> [] \<or> after \<noteq> [] \<or> off \<noteq> [])) ValueError
    (raise_if (ErrorOut \<in> set off \<and> length off \<noteq> 1) ValueError
    (raise_if (ZeroOut \<in> set off \<and> length off \<noteq> 1) ValueError
    (raise_if (AccumulateDtAction \<in> set off \<longleftrightarrow> EffectiveDt \<notin> set before) ValueError
       (Inr \<lparr>of_before = before, of_after = after, of_off = off, of_skip = skip_comment\<rparr>)))))))"

record 'c lowering_ir =
  lw_domain :: domain_ir
  lw_due :: "'c due_ir"
  lw_off :: off_ir

definition mk_lowering_ir :: "domain_ir \<Rightarrow> 'c due_ir \<Rightarrow> off_ir \<Rightarrow> 'c lowering_ir result" where
  "mk_lowering_ir line due off =
     raise_if (du_kind due = DueAlways \<and> (of_before off \<noteq> [] \<or> of_after off \<noteq> [] \<or> of_off off \<noteq> [] \<or> of_skip off)) ValueError
       (Inr \<lparr>lw_domain = line, lw_due = due, lw_off = off\<rparr>)"

section \<open>Domains, triggers, policies\<close>

record event_handle =
  ev_owner :: string
  ev_local :: string

datatype domain_kind = AcceptedStep | Attempt | StageAt | ClockTick | AmrLevel int | OnEvent event_handle | WallOutput

record sched_domain =
  dm_kind :: domain_kind
  dm_clock :: clock
  dm_at :: "point option"

definition mk_domain :: "domain_kind \<Rightarrow> clock \<Rightarrow> point option \<Rightarrow> sched_domain result" where
  "mk_domain kind clk site =
     bindR (case site of None \<Rightarrow> Inr () | Some p \<Rightarrow>
              bindR (point_clock p) (\<lambda>c. raise_if (c \<noteq> clk) ValueError (Inr ()))) (\<lambda>_.
    (case kind of
       StageAt \<Rightarrow> raise_if (case site of Some (AtStage _) \<Rightarrow> False | _ \<Rightarrow> True) TypeError
     | AmrLevel l \<Rightarrow> raise_if (l < 0) ValueError
     | _ \<Rightarrow> id)
       (Inr \<lparr>dm_kind = kind, dm_clock = clk, dm_at = site\<rparr>))"

datatype 'c trigger_kind = Always | Every int | EveryDt rat | AtStart | AtEnd | When "bool + 'c"

record 'c trigger =
  tg_domain :: sched_domain
  tg_kind :: "'c trigger_kind"

text \<open>The interval of \<open>EveryDt\<close> is authored as an integer or a finite float, and rounded by \<open>float\<close>.\<close>

definition mk_trigger :: "sched_domain \<Rightarrow> 'c trigger_kind \<Rightarrow> 'c trigger result" where
  "mk_trigger d kind =
     (case kind of
        Every n \<Rightarrow> raise_if (n \<le> 0) ValueError (Inr \<lparr>tg_domain = d, tg_kind = Every n\<rparr>)
      | EveryDt v \<Rightarrow>
          (case fl v of
             None \<Rightarrow> Inl OverflowError
           | Some interval \<Rightarrow> raise_if (\<not> 0 < interval) ValueError (Inr \<lparr>tg_domain = d, tg_kind = EveryDt interval\<rparr>))
      | _ \<Rightarrow> Inr \<lparr>tg_domain = d, tg_kind = kind\<rparr>)"

datatype off_policy = Hold | Skip | Zero | AccumulateDt | ErrorPolicy

record 'c schedule =
  sc_trigger :: "'c trigger"
  sc_off :: "off_policy option"

section \<open>Lowering\<close>

definition qualified_clock :: "(clock \<Rightarrow> string) \<Rightarrow> clock \<Rightarrow> string" where
  "qualified_clock digest c = ''pops.clock.v1::sha256:'' @ digest c"

definition native_domain :: "(clock \<Rightarrow> string) \<Rightarrow> sched_domain \<Rightarrow> domain_ir result" where
  "native_domain digest d =
     (let name = qualified_clock digest (dm_clock d) in
      case dm_kind d of
        AcceptedStep \<Rightarrow> mk_domain_ir AcceptedStepLine name None None
      | StageAt \<Rightarrow> (case dm_at d of
            Some (AtStage s) \<Rightarrow> mk_domain_ir StageLine name (Some s) None
          | _ \<Rightarrow> Inl AttributeError)
      | ClockTick \<Rightarrow> mk_domain_ir ClockTickLine name None None
      | AmrLevel l \<Rightarrow> mk_domain_ir AmrLevelLine name None (Some l)
      | _ \<Rightarrow> Inl NotImplementedError)"

definition native_due :: "'c trigger \<Rightarrow> (bool + 'c) due_ir result" where
  "native_due t =
     (case tg_kind t of
        Always \<Rightarrow> mk_due_ir DueAlways None None
      | Every n \<Rightarrow> mk_due_ir CachePeriod (Some n) None
      | EveryDt _ \<Rightarrow> Inl NotImplementedError
      | AtStart \<Rightarrow> mk_due_ir MacroStepZero None None
      | AtEnd \<Rightarrow> mk_due_ir DueAtEnd None None
      | When c \<Rightarrow> mk_due_ir ProgramPredicate None (Some c))"

definition is_always :: "'c trigger \<Rightarrow> bool result" where
  "is_always t =
     (case tg_kind t of EveryDt _ \<Rightarrow> Inr False | _ \<Rightarrow> bindR (native_due t) (\<lambda>due. Inr (du_kind due = DueAlways)))"

definition mk_schedule :: "'c trigger \<Rightarrow> off_policy option \<Rightarrow> 'c schedule result" where
  "mk_schedule t off =
     bindR (is_always t) (\<lambda>always. raise_if (always \<and> off \<noteq> None) ValueError (Inr \<lparr>sc_trigger = t, sc_off = off\<rparr>))"

definition native_off :: "off_policy \<Rightarrow> off_ir result" where
  "native_off off =
     (case off of
        Hold \<Rightarrow> mk_off_ir [] [Store] [Restore] False
      | Skip \<Rightarrow> mk_off_ir [] [] [] True
      | Zero \<Rightarrow> mk_off_ir [] [] [ZeroOut] False
      | AccumulateDt \<Rightarrow> mk_off_ir [EffectiveDt] [Store] [AccumulateDtAction, Restore] False
      | ErrorPolicy \<Rightarrow> mk_off_ir [] [] [ErrorOut] False)"

definition native_schedule_ir :: "(clock \<Rightarrow> string) \<Rightarrow> 'c schedule \<Rightarrow> (bool + 'c) lowering_ir result" where
  "native_schedule_ir digest s =
     bindR (native_domain digest (tg_domain (sc_trigger s))) (\<lambda>line.
     bindR (native_due (sc_trigger s)) (\<lambda>due.
     bindR (case sc_off s of None \<Rightarrow> mk_off_ir [] [] [] False | Some off \<Rightarrow> native_off off) (\<lambda>off.
       mk_lowering_ir line due off)))"

definition cache_actions :: "action set" where
  "cache_actions = {EffectiveDt, Store, AccumulateDtAction, Restore}"

definition lowering_cache_required :: "'c lowering_ir \<Rightarrow> bool" where
  "lowering_cache_required l =
     list_ex (\<lambda>a. a \<in> cache_actions) (of_before (lw_off l) @ of_after (lw_off l) @ of_off (lw_off l))"

definition needs_cache :: "(clock \<Rightarrow> string) \<Rightarrow> 'c schedule \<Rightarrow> bool result" where
  "needs_cache digest s = bindR (native_schedule_ir digest s) (\<lambda>l. Inr (lowering_cache_required l))"

definition policy_needs_cache :: "off_policy \<Rightarrow> bool result" where
  "policy_needs_cache off =
     bindR (native_off off) (\<lambda>o'. Inr (list_ex (\<lambda>a. a \<in> cache_actions) (of_before o' @ of_after o' @ of_off o')))"

definition validate_site :: "'c schedule \<Rightarrow> clock \<Rightarrow> point option \<Rightarrow> unit result" where
  "validate_site s clk p =
     (let d = tg_domain (sc_trigger s) in
      raise_if (dm_clock d \<noteq> clk) ValueError
     (raise_if (dm_at d \<noteq> None \<and> dm_at d \<noteq> p) ValueError (Inr ())))"

section \<open>What a consumer reads at a moment\<close>

text \<open>\<open>ConsumerMoment\<close>: the physical time is the non-negative binary64 its text spells; the layout
  bindings are pairs of the qualified identifier and the regrid generation.\<close>

record moment =
  mo_point :: time_point
  mo_accepted :: nat
  mo_attempt :: nat
  mo_time :: rat
  mo_clock_tick :: nat
  mo_wall_tick :: nat
  mo_stage :: "stage_point option"
  mo_level :: "nat option"
  mo_events :: "event_handle list"
  mo_layouts :: "(string \<times> nat) list"
  mo_at_start :: bool
  mo_at_end :: bool

definition mk_moment :: "moment \<Rightarrow> moment result" where
  "mk_moment m =
     raise_if (mo_time m < 0) ValueError
    (let evs = sort_key (\<lambda>e. (ev_owner e, ev_local e)) (mo_events m);
         ls = sort_key fst (mo_layouts m)
     in raise_if (\<not> distinct evs) ValueError
       (raise_if (\<not> distinct (map fst ls)) ValueError
          (Inr (m\<lparr>mo_events := evs, mo_layouts := ls\<rparr>))))"

definition layout_for :: "moment \<Rightarrow> string \<Rightarrow> (string \<times> nat) result" where
  "layout_for m layout_id =
     (case filter (\<lambda>l. fst l = layout_id) (mo_layouts m) of [] \<Rightarrow> Inl KeyError | l # _ \<Rightarrow> Inr l)"

definition domain_coordinate :: "sched_domain \<Rightarrow> moment \<Rightarrow> nat option" where
  "domain_coordinate d m =
     (case dm_kind d of
        AcceptedStep \<Rightarrow> Some (mo_accepted m)
      | Attempt \<Rightarrow> Some (mo_attempt m)
      | StageAt \<Rightarrow> (if map_option AtStage (mo_stage m) = dm_at d then Some (mo_accepted m) else None)
      | ClockTick \<Rightarrow> Some (mo_clock_tick m)
      | AmrLevel l \<Rightarrow> (if map_option int (mo_level m) = Some l then Some (mo_accepted m) else None)
      | OnEvent e \<Rightarrow> (if e \<in> set (mo_events m) then Some (mo_accepted m) else None)
      | WallOutput \<Rightarrow> Some (mo_wall_tick m))"

datatype domain_evidence = NoEvidence | StageEvidence "stage_point option" | LevelEvidence "nat option" | EventEvidence event_handle

definition domain_evidence :: "sched_domain \<Rightarrow> moment \<Rightarrow> domain_evidence" where
  "domain_evidence d m =
     (case dm_kind d of
        StageAt \<Rightarrow> StageEvidence (mo_stage m)
      | AmrLevel _ \<Rightarrow> LevelEvidence (mo_level m)
      | OnEvent e \<Rightarrow> EventEvidence e
      | _ \<Rightarrow> NoEvidence)"

definition trigger_due :: "'c trigger \<Rightarrow> nat \<Rightarrow> moment \<Rightarrow> bool result" where
  "trigger_due t coordinate m =
     (case tg_kind t of
        Always \<Rightarrow> Inr (\<not> mo_at_start m)
      | Every n \<Rightarrow> Inr (\<not> mo_at_start m \<and> int coordinate mod n = 0)
      | EveryDt interval \<Rightarrow> every_dt_due interval (mo_at_start m) (mo_time m)
      | AtStart \<Rightarrow> Inr (mo_at_start m)
      | AtEnd \<Rightarrow> Inr (\<not> mo_at_start m \<and> mo_at_end m)
      | When c \<Rightarrow> if mo_at_start m then Inr False else (case c of Inl b \<Rightarrow> Inr b | Inr _ \<Rightarrow> Inl TypeError))"

definition may_fire_at_start :: "'c trigger \<Rightarrow> bool" where
  "may_fire_at_start t = (case tg_kind t of AtStart \<Rightarrow> True | _ \<Rightarrow> False)"

definition trigger_deadline :: "'c trigger \<Rightarrow> rat \<Rightarrow> rat option result" where
  "trigger_deadline t now =
     (case tg_kind t of EveryDt interval \<Rightarrow> bindR (every_dt_deadline interval now) (\<lambda>d. Inr (Some d)) | _ \<Rightarrow> Inr None)"

text \<open>The index of the physical lattice, for a trigger that has one.\<close>

definition trigger_evidence :: "'c trigger \<Rightarrow> moment \<Rightarrow> int option result" where
  "trigger_evidence t m =
     (case tg_kind t of EveryDt interval \<Rightarrow> every_dt_occurrence interval (mo_time m) | _ \<Rightarrow> Inr None)"

section \<open>Lowering of constructed schedules\<close>

text \<open>What the native backend runs: a domain it has a timeline for and a trigger other than the
  physical-time lattice, which belongs to consumers.\<close>

definition lowerable :: "domain_kind \<Rightarrow> 'c trigger_kind \<Rightarrow> bool" where
  "lowerable k tk =
     ((case k of Attempt \<Rightarrow> False | OnEvent _ \<Rightarrow> False | WallOutput \<Rightarrow> False | _ \<Rightarrow> True)
      \<and> (case tk of EveryDt _ \<Rightarrow> False | _ \<Rightarrow> True))"

lemma domain_lowers:
  assumes "mk_domain k clk site = Inr d"
  shows "dm_kind d = k" and "native_domain digest d =
    (case k of Attempt \<Rightarrow> Inl NotImplementedError | OnEvent _ \<Rightarrow> Inl NotImplementedError | WallOutput \<Rightarrow> Inl NotImplementedError
     | _ \<Rightarrow> Inr \<lparr>di_timeline = (case k of StageAt \<Rightarrow> StageLine | ClockTick \<Rightarrow> ClockTickLine | AmrLevel _ \<Rightarrow> AmrLevelLine | _ \<Rightarrow> AcceptedStepLine),
                di_clock = qualified_clock digest clk,
                di_stage = (case k of StageAt \<Rightarrow> (case site of Some (AtStage s) \<Rightarrow> Some s | _ \<Rightarrow> None) | _ \<Rightarrow> None),
                di_level = (case k of AmrLevel l \<Rightarrow> Some l | _ \<Rightarrow> None)\<rparr>)"
  using assms by (auto simp: mk_domain_def native_domain_def mk_domain_ir_def qualified_clock_def Let_def raise_if_def
      split: domain_kind.splits option.splits point.splits if_splits)

lemma trigger_lowers:
  assumes "mk_trigger d tk = Inr t"
  shows "tg_domain t = d" and "(case tk of EveryDt _ \<Rightarrow> native_due t = Inl NotImplementedError | _ \<Rightarrow> is_value (native_due t))"
    and "is_always t = Inr (tk = Always)" and "native_due t = Inr due \<Longrightarrow> du_kind due = DueAlways \<longleftrightarrow> tk = Always"
  using assms by (auto simp: mk_trigger_def native_due_def mk_due_ir_def is_always_def raise_if_def Let_def
      split: trigger_kind.splits option.splits if_splits)

lemma off_lowers:
  "native_off off = Inr (case off of
      Hold \<Rightarrow> \<lparr>of_before = [], of_after = [Store], of_off = [Restore], of_skip = False\<rparr>
    | Skip \<Rightarrow> \<lparr>of_before = [], of_after = [], of_off = [], of_skip = True\<rparr>
    | Zero \<Rightarrow> \<lparr>of_before = [], of_after = [], of_off = [ZeroOut], of_skip = False\<rparr>
    | AccumulateDt \<Rightarrow> \<lparr>of_before = [EffectiveDt], of_after = [Store], of_off = [AccumulateDtAction, Restore], of_skip = False\<rparr>
    | ErrorPolicy \<Rightarrow> \<lparr>of_before = [], of_after = [], of_off = [ErrorOut], of_skip = False\<rparr>)"
  by (cases off) (simp_all add: native_off_def mk_off_ir_def)

lemma no_off_lowers: "mk_off_ir [] [] [] False = Inr \<lparr>of_before = [], of_after = [], of_off = [], of_skip = False\<rparr>"
  by (simp add: mk_off_ir_def)

text \<open>
  Claim C38. Every schedule its constructors accept either lowers to the native IR, with no check of
  the IR left to fail, or is refused as not implemented; it lowers exactly when its domain is a native
  timeline and its trigger is not the physical-time lattice. A lowered schedule counts on the clock of
  its domain, and asks for a cache exactly when its policy is hold or accumulate-dt.
\<close>

theorem constructed_schedules_lower:
  assumes "mk_domain k clk site = Inr d" and "mk_trigger d tk = Inr t" and "mk_schedule t off = Inr s"
  shows "(\<not> lowerable k tk \<and> native_schedule_ir digest s = Inl NotImplementedError)
       \<or> (lowerable k tk
          \<and> (\<exists>l. native_schedule_ir digest s = Inr l \<and> di_clock (lw_domain l) = qualified_clock digest clk
               \<and> (du_kind (lw_due l) = DueAlways \<longleftrightarrow> tk = Always))
          \<and> needs_cache digest s = Inr (off = Some Hold \<or> off = Some AccumulateDt))"
proof -
  have s: "s = \<lparr>sc_trigger = t, sc_off = off\<rparr>" "tk = Always \<Longrightarrow> off = None"
    using assms(3) by (auto simp: mk_schedule_def trigger_lowers(3) [OF assms(2)])
  note facts = domain_lowers(2) [OF assms(1)] trigger_lowers(1) [OF assms(2)] s(1)
  show ?thesis
  proof (cases "lowerable k tk")
    case False
    then have "native_schedule_ir digest s = Inl NotImplementedError"
      using trigger_lowers(2) [OF assms(2)]
      by (auto simp: native_schedule_ir_def facts lowerable_def split: domain_kind.splits trigger_kind.splits)
    then show ?thesis using False by simp
  next
    case True
    then obtain line where line: "native_domain digest d = Inr line" "di_clock line = qualified_clock digest clk"
      by (auto simp: facts lowerable_def split: domain_kind.splits)
    from True obtain due where due: "native_due t = Inr due"
      using trigger_lowers(2) [OF assms(2)] by (auto simp: lowerable_def is_value_iff split: trigger_kind.splits)
    note kind = trigger_lowers(4) [OF assms(2) due]
    define plan where "plan = (case off of None \<Rightarrow> mk_off_ir [] [] [] False | Some p \<Rightarrow> native_off p)"
    obtain ir where ir: "plan = Inr ir" and cache: "list_ex (\<lambda>a. a \<in> cache_actions) (of_before ir @ of_after ir @ of_off ir)
        \<longleftrightarrow> off = Some Hold \<or> off = Some AccumulateDt"
      and idle: "off = None \<Longrightarrow> ir = \<lparr>of_before = [], of_after = [], of_off = [], of_skip = False\<rparr>"
      by (cases off; cases "the off") (auto simp: plan_def off_lowers no_off_lowers cache_actions_def)
    have "native_schedule_ir digest s = Inr \<lparr>lw_domain = line, lw_due = due, lw_off = ir\<rparr>"
      using idle s(2) kind
      by (auto simp: native_schedule_ir_def s(1) facts(2) line due plan_def [symmetric] ir mk_lowering_ir_def raise_if_def)
    then show ?thesis using True line(2) kind cache by (simp add: needs_cache_def lowering_cache_required_def)
  qed
qed

definition main_clock :: clock where
  "main_clock = \<lparr>clk_name = ''macro'', clk_owner = Some ''case''\<rparr>"

definition step_domain :: sched_domain where
  "step_domain = \<lparr>dm_kind = AcceptedStep, dm_clock = main_clock, dm_at = None\<rparr>"

theorem constructed_schedules_lower_witness:
  "needs_cache (\<lambda>_. ''digest'') (\<lparr>sc_trigger = \<lparr>tg_domain = step_domain, tg_kind = Every 3\<rparr>, sc_off = Some Hold\<rparr> :: unit schedule)
     = Inr True"
proof -
  have "mk_domain AcceptedStep main_clock None = Inr step_domain" by code_simp
  moreover have "mk_trigger step_domain (Every 3 :: unit trigger_kind) = Inr \<lparr>tg_domain = step_domain, tg_kind = Every 3\<rparr>"
    by code_simp
  moreover have "mk_schedule (\<lparr>tg_domain = step_domain, tg_kind = Every 3\<rparr> :: unit trigger) (Some Hold)
      = Inr \<lparr>sc_trigger = \<lparr>tg_domain = step_domain, tg_kind = Every 3\<rparr>, sc_off = Some Hold\<rparr>"
    by code_simp
  ultimately show ?thesis
    using constructed_schedules_lower [of AcceptedStep main_clock None step_domain "Every 3" _ "Some Hold" _ "\<lambda>_. ''digest''"]
    by (fastforce simp: lowerable_def)
qed

end
