(* ===== verification/Pops_Fields.thy ===== *)
theory Pops_Fields
  imports Pops_Points
begin

text \<open>
  Materialised fields and the policies their readers may use (\<open>python/pops/fields/context.py\<close>,
  \<open>python/pops/fields/policies.py\<close>): validity, the context constructor and its transitions, and the
  resolution of one read. A resolved handle is its qualified identifier, a layout binding the pair
  of the layout's identifier and its regrid generation, an identity its token; \<open>digest\<close> is the
  identity of a context. \<open>FieldReadError\<close> and its subclass are \<open>RuntimeError\<close>.
\<close>

section \<open>Policies\<close>

datatype field_consumer = ForProgram | ForDiagnostic | ForOutput | ForTagging

datatype field_failure = FailFieldRead | RejectFieldAttempt

datatype read_policy =
    HoldLastValue field_failure
  | RecomputeAtDiagnostic field_failure
  | RecomputeAtOutput field_failure
  | RecomputeAtTagging field_failure

fun policy_consumer :: "read_policy \<Rightarrow> field_consumer option" where
  "policy_consumer (HoldLastValue _) = None"
| "policy_consumer (RecomputeAtDiagnostic _) = Some ForDiagnostic"
| "policy_consumer (RecomputeAtOutput _) = Some ForOutput"
| "policy_consumer (RecomputeAtTagging _) = Some ForTagging"

fun on_failure :: "read_policy \<Rightarrow> field_failure" where
  "on_failure (HoldLastValue a) = a"
| "on_failure (RecomputeAtDiagnostic a) = a"
| "on_failure (RecomputeAtOutput a) = a"
| "on_failure (RecomputeAtTagging a) = a"

fun fail_read :: "field_failure \<Rightarrow> 'a result" where
  "fail_read FailFieldRead = Inl RuntimeError"
| "fail_read RejectFieldAttempt = Inl RuntimeError"

section \<open>Contexts\<close>

type_synonym layout_binding = "string \<times> nat"

datatype materialization = AcceptedField | ProvisionalField string

definition mk_provisional :: "string \<Rightarrow> materialization result" where
  "mk_provisional attempt = raise_if (attempt = []) ValueError (Inr (ProvisionalField attempt))"

record validity =
  va_points :: "time_point list"
  va_layout :: layout_binding
  va_invalid :: "string option"

definition mk_validity :: "time_point list \<Rightarrow> layout_binding \<Rightarrow> string option \<Rightarrow> validity result" where
  "mk_validity points layout invalid_reason =
     raise_if (invalid_reason = Some []) ValueError
    (raise_if (invalid_reason = None \<and> points = []) ValueError
    (raise_if (\<not> distinct points) ValueError
    (raise_if (1 < length (dedup (map tp_clock points))) ValueError
       (Inr \<lparr>va_points = points, va_layout = layout, va_invalid = invalid_reason\<rparr>))))"

definition valid_at :: "time_point \<Rightarrow> layout_binding \<Rightarrow> validity result" where
  "valid_at p layout = mk_validity [p] layout None"

definition invalid_validity :: "layout_binding \<Rightarrow> string \<Rightarrow> validity result" where
  "invalid_validity layout why = mk_validity [] layout (Some why)"

definition validity_contains :: "validity \<Rightarrow> time_point \<Rightarrow> layout_binding \<Rightarrow> bool" where
  "validity_contains v p layout \<longleftrightarrow> va_invalid v = None \<and> layout = va_layout v \<and> p \<in> set (va_points v)"

record field_context =
  fc_operator :: string
  fc_inputs :: "(string \<times> string) list"
  fc_clock :: clock
  fc_point :: time_point
  fc_layout :: layout_binding
  fc_state :: materialization
  fc_validity :: validity

definition mk_context :: "field_context \<Rightarrow> field_context result" where
  "mk_context c =
     raise_if (\<not> distinct (map fst (fc_inputs c))) ValueError
    (raise_if (clk_owner (fc_clock c) = None) TypeError
    (raise_if (tp_clock (fc_point c) \<noteq> fc_clock c) ValueError
    (raise_if (va_layout (fc_validity c) \<noteq> fc_layout c) ValueError
    (raise_if (\<exists>p \<in> set (va_points (fc_validity c)). tp_clock p \<noteq> fc_clock c) ValueError
       (Inr c)))))"

definition invalidate_context :: "field_context \<Rightarrow> string \<Rightarrow> field_context result" where
  "invalidate_context c why =
     bindR (invalid_validity (fc_layout c) why) (\<lambda>v. mk_context (c\<lparr>fc_validity := v\<rparr>))"

definition accept_context :: "field_context \<Rightarrow> validity option \<Rightarrow> field_context result" where
  "accept_context c v =
     bindR (case v of Some v \<Rightarrow> Inr v | None \<Rightarrow> valid_at (fc_point c) (fc_layout c)) (\<lambda>v.
       mk_context (c\<lparr>fc_state := AcceptedField, fc_validity := v\<rparr>))"

section \<open>Reads\<close>

datatype field_read =
    UseMaterialized string
  | UseHeld string time_point time_point
  | Recompute string field_consumer time_point field_failure

definition resolve_read ::
  "(field_context \<Rightarrow> string) \<Rightarrow> field_context \<Rightarrow> field_consumer \<Rightarrow> time_point \<Rightarrow> layout_binding
    \<Rightarrow> read_policy option \<Rightarrow> field_read result" where
  "resolve_read digest c consumer p layout policy =
     raise_if (tp_clock p \<noteq> fc_clock c) ValueError
    (if validity_contains (fc_validity c) p layout \<and> fc_state c = AcceptedField
     then Inr (UseMaterialized (digest c))
     else case policy of
       None \<Rightarrow> Inl RuntimeError
     | Some pol \<Rightarrow>
         (case policy_consumer pol of
            None \<Rightarrow>
              if fc_state c \<noteq> AcceptedField then fail_read (on_failure pol)
              else if layout \<noteq> fc_layout c then fail_read (on_failure pol)
              else Inr (UseHeld (digest c) (fc_point c) p)
          | Some owner \<Rightarrow>
              if owner \<noteq> consumer then fail_read (on_failure pol)
              else Inr (Recompute (digest c) consumer p (on_failure pol))))"

section \<open>Properties\<close>

definition context_ok :: "field_context \<Rightarrow> bool" where
  "context_ok c \<longleftrightarrow> distinct (map fst (fc_inputs c)) \<and> clk_owner (fc_clock c) \<noteq> None \<and> tp_clock (fc_point c) = fc_clock c
     \<and> va_layout (fc_validity c) = fc_layout c \<and> (\<forall>p \<in> set (va_points (fc_validity c)). tp_clock p = fc_clock c)"

lemma mk_context_ok: "mk_context c = Inr c' \<longleftrightarrow> c' = c \<and> context_ok c"
  by (auto simp: mk_context_def context_ok_def)

lemma fail_read_raises [simp]: "fail_read a = Inl RuntimeError"
  by (cases a) simp_all

text \<open>The transitions a context takes during a run, and the layouts of the readers that come after them.\<close>

inductive field_step :: "field_context \<Rightarrow> field_context \<Rightarrow> bool" where
  invalidated: "invalidate_context c why = Inr c' \<Longrightarrow> field_step c c'"
| accepted: "accept_context c v = Inr c' \<Longrightarrow> field_step c c'"

inductive_cases field_stepE: "field_step c c'"

lemma field_step_ok:
  "field_step c c' \<Longrightarrow> context_ok c' \<and> fc_layout c' = fc_layout c \<and> fc_clock c' = fc_clock c \<and> fc_point c' = fc_point c
     \<and> fc_operator c' = fc_operator c"
  by (erule field_stepE) (auto simp: invalidate_context_def accept_context_def mk_context_ok)

lemma field_steps_ok:
  assumes "field_step\<^sup>*\<^sup>* c c'" and "context_ok c"
  shows "context_ok c' \<and> fc_layout c' = fc_layout c \<and> fc_clock c' = fc_clock c \<and> fc_point c' = fc_point c"
  using assms(1)
proof (induction rule: rtranclp_induct)
  case base
  show ?case using assms(2) by simp
next
  case (step d e)
  then show ?case using field_step_ok [of d e] by auto
qed

lemma resolve_read_cases:
  assumes "resolve_read digest c consumer p layout policy = Inr r"
  shows "tp_clock p = fc_clock c"
    and "(r = UseMaterialized (digest c) \<and> fc_state c = AcceptedField \<and> validity_contains (fc_validity c) p layout)
       \<or> (\<exists>a. r = UseHeld (digest c) (fc_point c) p \<and> policy = Some (HoldLastValue a) \<and> fc_state c = AcceptedField
              \<and> layout = fc_layout c \<and> \<not> validity_contains (fc_validity c) p layout)
       \<or> (\<exists>pol. r = Recompute (digest c) consumer p (on_failure pol) \<and> policy = Some pol \<and> policy_consumer pol = Some consumer)"
  using assms by (auto simp: resolve_read_def raise_if_def split: if_splits option.splits elim!: policy_consumer.elims)

text \<open>
  Claim C37. Whatever accepts and invalidations a field went through, a read of it yields a stored
  value only if that value is accepted and belongs to the layout generation of the reader: it is the
  materialised value exactly when it is valid at the reader's own instant, and otherwise the value of
  the context's instant, only under an explicit hold policy. After an invalidation, and for a reader
  with neither policy, every read that is not of a valid instant raises. A provisional value or a
  value from before a regrid is never read.
\<close>

theorem field_reads_are_current:
  assumes "context_ok c0" and "field_step\<^sup>*\<^sup>* c0 c"
  shows "(resolve_read digest c consumer p layout policy = Inr (UseMaterialized i) \<longleftrightarrow>
           i = digest c \<and> fc_state c = AcceptedField \<and> layout = fc_layout c0 \<and> va_invalid (fc_validity c) = None
             \<and> p \<in> set (va_points (fc_validity c)))
       \<and> (resolve_read digest c consumer p layout policy = Inr (UseHeld i q p') \<longrightarrow>
           fc_state c = AcceptedField \<and> layout = fc_layout c0 \<and> q = fc_point c0 \<and> p' = p
             \<and> (\<exists>a. policy = Some (HoldLastValue a)))
       \<and> (layout \<noteq> fc_layout c0 \<or> fc_state c \<noteq> AcceptedField \<longrightarrow>
           (\<exists>e. resolve_read digest c consumer p layout policy = Inl e)
           \<or> (\<exists>pol. policy = Some pol \<and> policy_consumer pol = Some consumer
                \<and> resolve_read digest c consumer p layout policy = Inr (Recompute (digest c) consumer p (on_failure pol))))
       \<and> (policy = None \<and> va_invalid (fc_validity c) \<noteq> None \<longrightarrow> \<not> is_value (resolve_read digest c consumer p layout policy))"
proof -
  note ok = field_steps_ok [OF assms(2,1)]
  have here: "va_layout (fc_validity c) = fc_layout c0" "fc_layout c = fc_layout c0" "fc_point c = fc_point c0"
    and clocks: "q \<in> set (va_points (fc_validity c)) \<Longrightarrow> tp_clock q = fc_clock c" for q
    using ok by (auto simp: context_ok_def)
  note cs = resolve_read_cases [of digest c consumer p layout policy]
  have "resolve_read digest c consumer p layout policy = Inr (UseMaterialized i) \<longleftrightarrow>
           i = digest c \<and> fc_state c = AcceptedField \<and> layout = fc_layout c0 \<and> va_invalid (fc_validity c) = None
             \<and> p \<in> set (va_points (fc_validity c))"
    using cs(2) clocks [of p] here by (fastforce simp: validity_contains_def resolve_read_def)
  moreover have "resolve_read digest c consumer p layout policy = Inr (UseHeld i q p') \<longrightarrow>
           fc_state c = AcceptedField \<and> layout = fc_layout c0 \<and> q = fc_point c0 \<and> p' = p
             \<and> (\<exists>a. policy = Some (HoldLastValue a))"
    using cs(2) here by fastforce
  moreover have "layout \<noteq> fc_layout c0 \<or> fc_state c \<noteq> AcceptedField \<longrightarrow>
           (\<exists>e. resolve_read digest c consumer p layout policy = Inl e)
           \<or> (\<exists>pol. policy = Some pol \<and> policy_consumer pol = Some consumer
                \<and> resolve_read digest c consumer p layout policy = Inr (Recompute (digest c) consumer p (on_failure pol)))"
    using cs(2) here by (cases "resolve_read digest c consumer p layout policy") (auto simp: validity_contains_def)
  moreover have "policy = None \<and> va_invalid (fc_validity c) \<noteq> None \<longrightarrow> \<not> is_value (resolve_read digest c consumer p layout policy)"
    by (auto simp: resolve_read_def raise_if_def validity_contains_def)
  ultimately show ?thesis by blast
qed

definition run_clock :: clock where
  "run_clock = \<lparr>clk_name = ''macro'', clk_owner = Some ''case''\<rparr>"

definition step_point :: "int \<Rightarrow> time_point" where
  "step_point k = \<lparr>tp_clock = run_clock, tp_offset = \<lparr>lit_body = LInteger 0, lit_unit = None, lit_target = None, lit_cpp = None\<rparr>,
                   tp_step = k\<rparr>"

definition solved_field :: "materialization \<Rightarrow> field_context" where
  "solved_field st = \<lparr>fc_operator = ''phi'', fc_inputs = [(''rho'', ''v1'')], fc_clock = run_clock, fc_point = step_point 1,
     fc_layout = (''grid'', 0), fc_state = st, fc_validity = \<lparr>va_points = [step_point 1], va_layout = (''grid'', 0), va_invalid = None\<rparr>\<rparr>"

theorem field_reads_are_current_witness:
  "resolve_read (\<lambda>_. ''id'') (solved_field AcceptedField) ForOutput (step_point 1) (''grid'', 0) None = Inr (UseMaterialized ''id'')
     \<and> \<not> (\<exists>i. resolve_read (\<lambda>_. ''id'') (solved_field AcceptedField) ForOutput (step_point 1) (''grid'', 1) None
           = Inr (UseMaterialized i))"
proof -
  have ok: "context_ok (solved_field (ProvisionalField ''a''))"
    by (simp add: context_ok_def solved_field_def step_point_def run_clock_def)
  have "accept_context (solved_field (ProvisionalField ''a'')) None = Inr (solved_field AcceptedField)"
    by (simp add: accept_context_def valid_at_def mk_validity_def mk_context_def solved_field_def step_point_def run_clock_def
        dedup_def)
  then have run: "field_step\<^sup>*\<^sup>* (solved_field (ProvisionalField ''a'')) (solved_field AcceptedField)"
    by (intro r_into_rtranclp field_step.accepted)
  show ?thesis
    using field_reads_are_current [OF ok run, of "\<lambda>_. ''id''" ForOutput "step_point 1" "(''grid'', 0)" None "''id''"]
      field_reads_are_current [OF ok run, of "\<lambda>_. ''id''" ForOutput "step_point 1" "(''grid'', 1)" None]
    by (simp add: solved_field_def)
qed

end
