(* ===== verification/Pops_ConsumerGraph.thy ===== *)
theory Pops_ConsumerGraph
  imports Pops_Schedule Pops_Fields "HOL-Library.Multiset"
begin

text \<open>
  The consumers of accepted steps and their dependency graph
  (\<open>python/pops/output/_consumer_contracts.py\<close>): quantities, manifests with all the checks of their
  constructor, the graph with its deterministic topological order, and the ordering of checkpoints
  that resolution adds.

  A resolved handle is its qualified identifier with the rest of its canonical data; a provider is the
  canonical data it declares, as far as the checks read it. \<open>heapq\<close> is a sorted list: it pops the least
  identifier. \<open>digest\<close> is \<open>make_identity\<close> on the data of a value (the value without its identity).
\<close>

section \<open>Quantities\<close>

record handle =
  hn_id :: string
  hn_data :: string

record quantity =
  cq_reference :: string
  cq_block :: "string option"
  cq_resource :: string
  cq_layout :: string
  cq_levels :: "nat list"
  cq_context :: "field_context option"
  cq_policy :: "read_policy option"
  cq_identity :: string

definition mk_quantity :: "(quantity \<Rightarrow> string) \<Rightarrow> quantity \<Rightarrow> quantity result" where
  "mk_quantity digest q =
     bindR (check_text (cq_resource q)) (\<lambda>_.
     bindR (check_text (cq_layout q)) (\<lambda>_.
     raise_if (cq_levels q \<noteq> sort (remdups (cq_levels q))) ValueError
    (raise_if (case cq_context q of None \<Rightarrow> False | Some c \<Rightarrow> cq_reference q \<noteq> fc_operator c) ValueError
    (raise_if (case cq_context q of None \<Rightarrow> False | Some c \<Rightarrow> fst (fc_layout c) \<noteq> cq_layout q) ValueError
    (raise_if (cq_policy q \<noteq> None \<and> cq_context q = None) ValueError
       (Inr (q\<lparr>cq_identity := digest (q\<lparr>cq_identity := []\<rparr>)\<rparr>)))))))"

text \<open>A diagnostic quantity, with the reductions its validated execution plan names.\<close>

record diagnostic_quantity =
  dq_reference :: string
  dq_block :: "string option"
  dq_resource :: string
  dq_layout :: string
  dq_levels :: "nat list"
  dq_reductions :: "string list"
  dq_identity :: string

definition collective_of :: "string \<Rightarrow> string option" where
  "collective_of reduction =
     (if reduction \<in> {''sum'', ''abs_sum'', ''sum_sq'', ''step_change_l2''} then Some ''global_sum''
      else if reduction = ''min'' then Some ''global_min''
      else if reduction \<in> {''max'', ''abs_max''} then Some ''global_max''
      else None)"

definition diagnostic_collective_operations :: "string list \<Rightarrow> string list" where
  "diagnostic_collective_operations reductions = sort (remdups (List.map_filter collective_of reductions))"

section \<open>Manifests\<close>

datatype consumer_kind = Diagnostic | ScientificOutput | Checkpoint | Monitor

record operation =
  op_mode :: "parallel_mode option"
  op_singleton :: bool
  op_async :: bool

record 'c manifest =
  mf_handle :: handle
  mf_kind :: consumer_kind
  mf_quantities :: "quantity list"
  mf_schedule :: "'c schedule"
  mf_uri :: string
  mf_format :: "parallel_mode option"
  mf_operation :: "operation option"
  mf_mode :: parallel_mode
  mf_descriptors :: "string list"
  mf_diagnostics :: "diagnostic_quantity list"
  mf_deps :: "handle list"
  mf_action :: failure_action
  mf_identity :: string

abbreviation mf_id :: "'c manifest \<Rightarrow> string" where
  "mf_id m \<equiv> hn_id (mf_handle m)"

abbreviation mf_clock :: "'c manifest \<Rightarrow> clock" where
  "mf_clock m \<equiv> dm_clock (tg_domain (sc_trigger (mf_schedule m)))"

text \<open>The checks each kind makes of its format and operation providers.\<close>

definition check_providers :: "'c manifest \<Rightarrow> unit result" where
  "check_providers m =
     (case mf_kind m of
        ScientificOutput \<Rightarrow>
          (case mf_format m of
             None \<Rightarrow> Inl TypeError
           | Some mode \<Rightarrow> raise_if (mode \<noteq> mf_mode m) ValueError (raise_if (mf_operation m \<noteq> None) ValueError (Inr ())))
      | Checkpoint \<Rightarrow>
          raise_if (mf_format m \<noteq> None) ValueError (raise_if (mf_operation m = None) TypeError (Inr ()))
      | Monitor \<Rightarrow>
          raise_if (mf_format m \<noteq> None) ValueError
            (case mf_operation m of
               None \<Rightarrow> Inl TypeError
             | Some op \<Rightarrow> raise_if (op_mode op \<noteq> Some (mf_mode m)) ValueError (Inr ()))
      | Diagnostic \<Rightarrow>
          raise_if (mf_format m \<noteq> None) ValueError
         (raise_if (mf_operation m = None) TypeError
         (raise_if (mf_mode m \<noteq> Rooted) ValueError (Inr ()))))"

definition carries_diagnostics :: "'c manifest \<Rightarrow> bool" where
  "carries_diagnostics m \<longleftrightarrow>
     mf_kind m \<in> {Diagnostic, ScientificOutput}
     \<or> (mf_kind m = Monitor \<and> (case mf_operation m of None \<Rightarrow> False | Some op \<Rightarrow> op_async op))"

definition has_accepted_balance :: "'c manifest \<Rightarrow> bool" where
  "has_accepted_balance m = list_ex (\<lambda>q. ''accepted_balance'' \<in> set (dq_reductions q)) (mf_diagnostics m)"

definition mk_manifest :: "('c manifest \<Rightarrow> string) \<Rightarrow> 'c manifest \<Rightarrow> 'c manifest result" where
  "mk_manifest digest m =
     (let qs = sort_key cq_identity (mf_quantities m);
          ds = sort_key dq_identity (mf_diagnostics m);
          deps = sort_key hn_id (mf_deps m);
          m' = m\<lparr>mf_quantities := qs, mf_diagnostics := ds, mf_deps := deps, mf_identity := []\<rparr> in
      raise_if (\<not> distinct (map cq_identity qs)) ValueError
     (bindR (check_text (mf_uri m)) (\<lambda>_.
      bindR (check_providers m) (\<lambda>_.
      raise_if (mf_descriptors m \<noteq> [] \<and> \<not> carries_diagnostics m) ValueError
     (raise_if (\<not> distinct (map dq_identity ds)) ValueError
     (raise_if (length ds \<noteq> length (mf_descriptors m)) ValueError
     (raise_if (ds \<noteq> [] \<and> \<not> carries_diagnostics m) ValueError
     (raise_if (has_accepted_balance m' \<and> may_fire_at_start (sc_trigger (mf_schedule m))) ValueError
     (raise_if (\<not> distinct deps) ValueError
     (raise_if (mf_handle m \<in> set deps) ValueError
        (Inr (m'\<lparr>mf_identity := digest m'\<rparr>))))))))))))"

definition collective_requirements :: "'c manifest \<Rightarrow> (string \<times> string option \<times> string \<times> string \<times> string \<times> string) list" where
  "collective_requirements m =
     (if mf_mode m \<in> {Rooted, Collective}
      then map (\<lambda>q. (cq_identity q, cq_block q, cq_resource q, cq_layout q, ''gather'', ''explicit_communicator'')) (mf_quantities m)
      else [])
     @ concat (map (\<lambda>q. map (\<lambda>op. (dq_identity q, dq_block q, dq_resource q, dq_layout q, op, ''native_reduction_provider''))
         (diagnostic_collective_operations (dq_reductions q))) (mf_diagnostics m))"

section \<open>The graph\<close>

record 'c consumer_graph =
  gr_nodes :: "'c manifest list"
  gr_topology :: "'c manifest list"
  gr_identity :: string

text \<open>The consumers that depend on one, once for each dependency.\<close>

definition followers :: "'c manifest list \<Rightarrow> string \<Rightarrow> string list" where
  "followers nodes k = concat (map (\<lambda>m. map (\<lambda>_. mf_id m) (filter (\<lambda>h. hn_id h = k) (mf_deps m))) nodes)"

text \<open>One follower loses a dependency, and joins the ready consumers when it has none left. (The key
  of every follower is in the dictionary.)\<close>

definition satisfy :: "string \<Rightarrow> (string \<times> int) list \<times> string list \<Rightarrow> (string \<times> int) list \<times> string list" where
  "satisfy f s =
     (let (deg, ready) = s in
      case map_of deg f of
        None \<Rightarrow> s
      | Some d \<Rightarrow> (dict_set f (d - 1) deg, if d - 1 = 0 then insort f ready else ready))"

definition waiting :: "(string \<times> int) list \<Rightarrow> nat" where
  "waiting deg = length (filter (\<lambda>(_, d). 0 < d) deg)"

lemma waiting_dict_set:
  "map_of deg f = Some d \<Longrightarrow> waiting (dict_set f e deg) + (if 0 < d then 1 else 0) = waiting deg + (if 0 < e then 1 else 0)"
  unfolding waiting_def by (induction deg) (auto split: if_splits)

lemma satisfy_measure:
  "satisfy f (deg, ready) = (deg', ready') \<Longrightarrow> length ready' + waiting deg' = length ready + waiting deg"
  using waiting_dict_set [of deg f 1 0] waiting_dict_set [of deg f d "d - 1" for d]
  by (fastforce simp: satisfy_def split: option.splits if_splits)

lemma satisfy_all_measure:
  "fold satisfy fs (deg, ready) = (deg', ready') \<Longrightarrow> length ready' + waiting deg' = length ready + waiting deg"
proof (induction fs arbitrary: deg ready)
  case (Cons f fs)
  obtain deg1 ready1 where s: "satisfy f (deg, ready) = (deg1, ready1)" by (cases "satisfy f (deg, ready)")
  show ?case using Cons.IH [of deg1 ready1] Cons.prems satisfy_measure [OF s] by (simp add: s)
qed simp

text \<open>The loop over the heap: the identifiers in the order they are popped, and the degrees left.\<close>

function pop_ready :: "(string \<Rightarrow> string list) \<Rightarrow> (string \<times> int) list \<Rightarrow> string list \<Rightarrow> string list \<times> (string \<times> int) list" where
  "pop_ready fol deg [] = ([], deg)"
| "pop_ready fol deg (k # ready) =
     (let (deg', ready') = fold satisfy (sort (fol k)) (deg, ready); (rest, left) = pop_ready fol deg' ready'
      in (k # rest, left))"
  by pat_completeness auto
termination
proof (relation "measure (\<lambda>(_, deg, ready). length ready + waiting deg)")
  fix fol :: "string \<Rightarrow> string list" and deg k ready x deg' ready'
  assume "x = fold satisfy (sort (fol k)) (deg, ready)" and "(deg', ready') = x"
  then have "fold satisfy (sort (fol k)) (deg, ready) = (deg', ready')" by simp
  from satisfy_all_measure [OF this]
  show "((fol, deg', ready'), fol, deg, k # ready) \<in> measure (\<lambda>(_, deg, ready). length ready + waiting deg)"
    by simp
qed simp

definition manifest_by_id :: "'c manifest list \<Rightarrow> string \<Rightarrow> 'c manifest option" where
  "manifest_by_id nodes k = map_of (map (\<lambda>m. (mf_id m, m)) nodes) k"

definition known_dependency :: "'c manifest list \<Rightarrow> handle \<Rightarrow> bool" where
  "known_dependency nodes h = (case manifest_by_id nodes (hn_id h) of None \<Rightarrow> False | Some m \<Rightarrow> mf_handle m = h)"

definition mk_graph :: "('c manifest list \<Rightarrow> string list \<Rightarrow> string) \<Rightarrow> 'c manifest list \<Rightarrow> 'c consumer_graph result" where
  "mk_graph digest ms =
     (let nodes = sort_key mf_id ms; ids = map mf_id nodes;
          deg = map (\<lambda>m. (mf_id m, int (length (mf_deps m)))) nodes in
      raise_if (\<not> distinct ids) ValueError
     (raise_if (\<not> list_all (\<lambda>m. list_all (known_dependency nodes) (mf_deps m)) nodes) ValueError
     (let topology = fst (pop_ready (followers nodes) deg (sort (map fst (filter (\<lambda>(_, d). d = 0) deg)))) in
      raise_if (length topology \<noteq> length nodes) ValueError
        (Inr \<lparr>gr_nodes = nodes, gr_topology = List.map_filter (manifest_by_id nodes) topology,
              gr_identity = digest nodes topology\<rparr>))))"

text \<open>Resolution: a checkpoint depends on every other consumer of its clock.\<close>

definition checkpoint_predecessors :: "'c manifest list \<Rightarrow> 'c manifest \<Rightarrow> handle list" where
  "checkpoint_predecessors resolved m =
     map mf_handle (filter (\<lambda>r. mf_kind r \<noteq> Checkpoint \<and> mf_clock r = mf_clock m) resolved)"

definition order_checkpoint :: "('c manifest \<Rightarrow> string) \<Rightarrow> 'c manifest list \<Rightarrow> 'c manifest \<Rightarrow> 'c manifest result" where
  "order_checkpoint digest resolved m =
     (if mf_kind m \<noteq> Checkpoint then Inr m
      else mk_manifest digest (m\<lparr>mf_deps := remdups (mf_deps m @ checkpoint_predecessors resolved m)\<rparr>))"

definition resolve_graph ::
  "('c manifest \<Rightarrow> string) \<Rightarrow> ('c manifest list \<Rightarrow> string list \<Rightarrow> string) \<Rightarrow> 'c manifest list \<Rightarrow> 'c consumer_graph result" where
  "resolve_graph md gd resolved = bindR (traverse (order_checkpoint md resolved) resolved) (mk_graph gd)"

section \<open>The loop orders the dependencies\<close>

lemma satisfy_all:
  assumes "fold satisfy fs (deg, ready) = (deg', ready')" and "distinct fs" and "set fs \<subseteq> dom (map_of deg)"
    and "distinct ready" and "\<forall>f \<in> set fs. map_of deg f = Some 1 \<longrightarrow> f \<notin> set ready"
  shows "map_of deg' = (\<lambda>v. if v \<in> set fs then map_option (\<lambda>d. d - 1) (map_of deg v) else map_of deg v)
       \<and> distinct ready' \<and> set ready' = set ready \<union> {f \<in> set fs. map_of deg f = Some 1}"
  using assms
proof (induction fs arbitrary: deg ready)
  case (Cons f fs)
  obtain d where d: "map_of deg f = Some d" using Cons.prems(3) by auto
  define deg1 ready1 where "deg1 = dict_set f (d - 1) deg" and "ready1 = (if d - 1 = 0 then insort f ready else ready)"
  have m: "map_of deg1 = (map_of deg)(f \<mapsto> d - 1)" by (simp add: deg1_def)
  have "satisfy f (deg, ready) = (deg1, ready1)" by (simp add: satisfy_def d deg1_def ready1_def)
  then have run: "fold satisfy fs (deg1, ready1) = (deg', ready')" using Cons.prems(1) by simp
  have r1: "distinct ready1" "set ready1 = set ready \<union> {g. g = f \<and> d = 1}"
    using Cons.prems(4,5) d by (auto simp: ready1_def distinct_insort set_insort_key)
  have "map_of deg' = (\<lambda>v. if v \<in> set fs then map_option (\<lambda>d. d - 1) (map_of deg1 v) else map_of deg1 v)
      \<and> distinct ready' \<and> set ready' = set ready1 \<union> {g \<in> set fs. map_of deg1 g = Some 1}"
  proof (rule Cons.IH [OF run])
    show "distinct fs" "set fs \<subseteq> dom (map_of deg1)" "distinct ready1" using Cons.prems(2,3) r1 by (auto simp: m)
    show "\<forall>g \<in> set fs. map_of deg1 g = Some 1 \<longrightarrow> g \<notin> set ready1" using Cons.prems(2,5) r1 by (auto simp: m)
  qed
  then show ?case using Cons.prems(2) d r1(2) by (auto simp: m fun_eq_iff)
qed auto

text \<open>What holds between two pops: \<open>P\<close> is popped, \<open>V\<close> the identifiers and \<open>D\<close> their dependencies.\<close>

definition pops :: "string set \<Rightarrow> (string \<Rightarrow> string set) \<Rightarrow> string list \<Rightarrow> (string \<times> int) list \<Rightarrow> string list \<Rightarrow> bool" where
  "pops V D P deg ready \<longleftrightarrow>
     map_of deg = (\<lambda>v. if v \<in> V then Some (int (card (D v - set P))) else None)
     \<and> distinct ready \<and> set ready = {v \<in> V - set P. D v \<subseteq> set P}
     \<and> distinct P \<and> set P \<subseteq> V \<and> (\<forall>i < length P. D (P ! i) \<subseteq> set (take i P))"

lemma popped_closed: "pops V D P deg ready \<Longrightarrow> v \<in> set P \<Longrightarrow> D v \<subseteq> set P"
  unfolding pops_def by (metis in_set_conv_nth set_take_subset subset_trans)

lemma card_one_member:
  assumes "k \<in> A"
  shows "card A = Suc 0 \<longleftrightarrow> A = {k}"
proof
  assume "card A = Suc 0"
  then obtain x where "A = {x}" by (auto simp: card_Suc_eq)
  then show "A = {k}" using assms by simp
qed simp

lemma pop_step:
  assumes inv: "pops V D P deg (k # ready)" and D: "\<forall>v \<in> V. finite (D v)"
    and fs: "distinct fs" "set fs = {v \<in> V. k \<in> D v}"
    and run: "fold satisfy fs (deg, ready) = (deg', ready')"
  shows "pops V D (P @ [k]) deg' ready'"
proof -
  have deg: "map_of deg = (\<lambda>v. if v \<in> V then Some (int (card (D v - set P))) else None)"
    and ready: "distinct (k # ready)" "insert k (set ready) = {v \<in> V - set P. D v \<subseteq> set P}"
    using inv by (auto simp: pops_def)
  have k: "k \<in> V" "k \<notin> set P" "D k \<subseteq> set P" using ready(2) by blast+
  have one: "int (card (D v - set P)) = 1 \<longleftrightarrow> D v - set P = {k}" if "v \<in> V" "k \<in> D v" for v
    using card_one_member [of k "D v - set P"] that k(2) by simp
  have "map_of deg' = (\<lambda>v. if v \<in> set fs then map_option (\<lambda>d. d - 1) (map_of deg v) else map_of deg v)
      \<and> distinct ready' \<and> set ready' = set ready \<union> {f \<in> set fs. map_of deg f = Some 1}"
  proof (rule satisfy_all [OF run fs(1)])
    show "set fs \<subseteq> dom (map_of deg)" "distinct ready" using fs(2) ready(1) by (auto simp: deg)
    have "card (D f - set P) = 0" if "f \<in> set ready" for f
    proof -
      have "D f - set P = {}" using that ready(2) by blast
      then show ?thesis by (simp only: card.empty)
    qed
    then show "\<forall>f \<in> set fs. map_of deg f = Some 1 \<longrightarrow> f \<notin> set ready"
      by (metis deg of_nat_0 option.inject option.distinct(1) zero_neq_one)
  qed
  then have deg': "map_of deg' = (\<lambda>v. if v \<in> set fs then map_option (\<lambda>d. d - 1) (map_of deg v) else map_of deg v)"
    and ready': "distinct ready'" "set ready' = set ready \<union> {f \<in> set fs. map_of deg f = Some 1}"
    by blast+
  have less: "int (card (D v - set P)) - 1 = int (card (D v - set (P @ [k])))" if "v \<in> V" "k \<in> D v" for v
  proof -
    have "D v - set P = insert k (D v - set (P @ [k]))" using that k(2) by auto
    moreover have "finite (D v - set (P @ [k]))" using D that by blast
    moreover have "k \<notin> D v - set (P @ [k])" by simp
    ultimately have "card (D v - set P) = Suc (card (D v - set (P @ [k])))" by (metis card_insert_disjoint)
    then show ?thesis by simp
  qed
  have same: "D v - set (P @ [k]) = D v - set P" if "k \<notin> D v" for v using that by auto
  have "map_of deg' v = (if v \<in> V then Some (int (card (D v - set (P @ [k])))) else None)" for v
    using less [of v] same [of v] by (simp add: deg' deg fs(2) del: set_append)
  moreover have "v \<in> set ready' \<longleftrightarrow> v \<in> V - set (P @ [k]) \<and> D v \<subseteq> set (P @ [k])" for v
  proof (cases "v \<in> V \<and> k \<in> D v")
    case True
    then have "v \<notin> set P" "v \<noteq> k" using popped_closed [OF inv, of v] k by auto
    moreover have "v \<notin> set ready" using True k ready(2) by blast
    moreover have "D v - set P = {k} \<longleftrightarrow> D v \<subseteq> set (P @ [k])" using True k(2) by auto
    ultimately show ?thesis using True one [of v] by (simp add: ready'(2) fs(2) deg)
  next
    case False
    then have "v \<in> set ready' \<longleftrightarrow> v \<in> set ready" by (auto simp: ready'(2) fs(2))
    also have "\<dots> \<longleftrightarrow> v \<in> V - set P \<and> v \<noteq> k \<and> D v \<subseteq> set P" using ready by auto
    finally show ?thesis using False by auto
  qed
  moreover have "distinct (P @ [k])" "set (P @ [k]) \<subseteq> V" using inv k by (auto simp: pops_def)
  moreover have "\<forall>i < length (P @ [k]). D ((P @ [k]) ! i) \<subseteq> set (take i (P @ [k]))"
    using inv k(3) by (auto simp: pops_def nth_append less_Suc_eq)
  ultimately show ?thesis using ready'(1) unfolding pops_def by (simp add: fun_eq_iff set_eq_iff del: set_append)
qed

lemma pop_ready_pops:
  assumes "pop_ready fol deg ready = (ts, left)" and "pops V D P deg ready" and "\<forall>v \<in> V. finite (D v)"
    and "\<forall>k. distinct (fol k) \<and> set (fol k) = {v \<in> V. k \<in> D v}"
  shows "pops V D (P @ ts) left []"
  using assms
proof (induction fol deg ready arbitrary: P ts left rule: pop_ready.induct)
  case (2 fol deg k ready)
  obtain deg' ready' where s: "fold satisfy (sort (fol k)) (deg, ready) = (deg', ready')"
    by (cases "fold satisfy (sort (fol k)) (deg, ready)")
  obtain rest where ts: "ts = k # rest" "pop_ready fol deg' ready' = (rest, left)"
    using "2.prems"(1) by (auto simp: s split: prod.splits)
  have "pops V D (P @ [k]) deg' ready'"
    using "2.prems"(4) by (intro pop_step [OF "2.prems"(2,3) _ _ s]) auto
  from "2.IH" [OF s [symmetric] refl ts(2) this "2.prems"(3,4)] show ?case by (simp add: ts(1))
qed simp

lemma pops_complete:
  assumes "pops V D P deg []" and V: "finite V" and D: "\<forall>v \<in> V. D v \<subseteq> V"
  shows "set P = V \<longleftrightarrow> acyclic {(d, v). v \<in> V \<and> d \<in> D v}"
proof
  let ?E = "{(d, v). v \<in> V \<and> d \<in> D v}"
  assume P: "set P = V"
  have dist: "distinct P" and before: "\<And>i. i < length P \<Longrightarrow> D (P ! i) \<subseteq> set (take i P)"
    using assms(1) by (auto simp: pops_def)
  have one: "\<exists>i j. i < j \<and> j < length P \<and> P ! i = d \<and> P ! j = v" if "(d, v) \<in> ?E" for d v
  proof -
    have "v \<in> set P" using that P by simp
    then obtain j where j: "j < length P" "P ! j = v" unfolding in_set_conv_nth by blast
    then have "d \<in> set (take j P)" using before [OF j(1)] that by auto
    then obtain i where "i < j" "i < length P" "P ! i = d" by (auto simp: in_set_conv_nth)
    then show ?thesis using j by blast
  qed
  have "\<exists>i j. i < j \<and> j < length P \<and> P ! i = d \<and> P ! j = v" if "(d, v) \<in> ?E\<^sup>+" for d v
    using that
  proof (induction rule: trancl_induct)
    case (step w u)
    from step.IH obtain i j where ij: "i < j" "j < length P" "P ! i = d" "P ! j = w" by blast
    from one [OF step.hyps(2)] obtain j' l where l: "j' < l" "l < length P" "P ! j' = w" "P ! l = u"
      by blast
    have "j' = j" using nth_eq_iff_index_eq [OF dist, of j' j] ij(2,4) l by simp
    then have "i < l" using ij(1) l(1) by simp
    then show ?case using ij(3) l by blast
  qed (rule one)
  then have "(v, v) \<notin> ?E\<^sup>+" for v
    using nth_eq_iff_index_eq [OF dist] by (metis (no_types, lifting) less_irrefl less_trans)
  then show "acyclic ?E" unfolding acyclic_def by blast
next
  define E where "E = {(d, v). v \<in> V \<and> d \<in> D v}"
  assume "acyclic {(d, v). v \<in> V \<and> d \<in> D v}"
  then have "acyclic E" by (simp only: E_def)
  moreover have "finite E"
    by (rule finite_subset [of _ "V \<times> V"]) (use V D in \<open>auto simp: E_def\<close>)
  ultimately have wf: "wf E" by (metis finite_acyclic_wf)
  have "V - set P = {}"
  proof (rule ccontr)
    assume "V - set P \<noteq> {}"
    then obtain v where "v \<in> V - set P" and least: "\<And>d. (d, v) \<in> E \<Longrightarrow> d \<notin> V - set P"
      using wfE_min' [OF wf, of "V - set P"] by blast
    then have "v \<in> {v \<in> V - set P. D v \<subseteq> set P}" using D by (auto simp: E_def)
    then show False using assms(1) by (auto simp: pops_def)
  qed
  then show "set P = V" using assms(1) by (auto simp: pops_def)
qed

section \<open>The graph orders the consumers\<close>

lemma mk_manifest_value:
  assumes "mk_manifest digest m0 = Inr m"
  shows "distinct (mf_deps m) \<and> mf_handle m \<notin> set (mf_deps m) \<and> mf_handle m = mf_handle m0 \<and> mf_kind m = mf_kind m0
       \<and> mf_schedule m = mf_schedule m0 \<and> set (mf_deps m) = set (mf_deps m0)
       \<and> (has_accepted_balance m \<longrightarrow> \<not> may_fire_at_start (sc_trigger (mf_schedule m)))"
  using assms by (auto simp: mk_manifest_def Let_def has_accepted_balance_def)

definition node_deps :: "'c manifest list \<Rightarrow> string \<Rightarrow> string set" where
  "node_deps nodes v = (case manifest_by_id nodes v of None \<Rightarrow> {} | Some m \<Rightarrow> hn_id ` set (mf_deps m))"

lemma manifest_by_id:
  assumes "distinct (map mf_id nodes)"
  shows "manifest_by_id nodes k = Some m \<longleftrightarrow> m \<in> set nodes \<and> mf_id m = k"
proof -
  have "distinct (map fst (map (\<lambda>m. (mf_id m, m)) nodes))" using assms by (simp add: comp_def)
  from map_of_eq_Some_iff [OF this] show ?thesis by (auto simp: manifest_by_id_def)
qed

lemma node_deps_node: "distinct (map mf_id nodes) \<Longrightarrow> m \<in> set nodes \<Longrightarrow> node_deps nodes (mf_id m) = hn_id ` set (mf_deps m)"
  using manifest_by_id [of nodes "mf_id m" m] by (simp add: node_deps_def)

lemma known_dependency:
  assumes "distinct (map mf_id nodes)"
  shows "known_dependency nodes h \<longleftrightarrow> h \<in> mf_handle ` set nodes"
proof (cases "manifest_by_id nodes (hn_id h)")
  case None
  then show ?thesis using manifest_by_id [OF assms] by (auto simp: known_dependency_def) (metis option.distinct(1))
next
  case (Some m)
  then have m: "m \<in> set nodes" "mf_id m = hn_id h" using manifest_by_id [OF assms] by auto
  have same: "m' = m" if "m' \<in> set nodes" "mf_handle m' = h" for m'
    using that Some manifest_by_id [OF assms, of "hn_id h" m'] by simp
  have "known_dependency nodes h \<longleftrightarrow> mf_handle m = h" by (simp add: known_dependency_def Some)
  also have "\<dots> \<longleftrightarrow> h \<in> mf_handle ` set nodes" using m(1) same by blast
  finally show ?thesis .
qed

lemma dependency_ids:
  assumes "distinct (map mf_id nodes)" and "set hs \<subseteq> mf_handle ` set nodes" and "distinct hs"
  shows "distinct (map hn_id hs)"
proof -
  have "inj_on hn_id (mf_handle ` set nodes)" using assms(1) by (auto simp: inj_on_def distinct_map)
  then show ?thesis using assms(2,3) by (simp add: distinct_map inj_on_subset)
qed

lemma single_follower:
  "distinct (map f hs) \<Longrightarrow> map (\<lambda>_. c) (filter (\<lambda>h. f h = k) hs) = (if k \<in> f ` set hs then [c] else [])"
  by (induction hs) (auto simp: filter_empty_conv)

lemma followers_set:
  assumes "distinct (map mf_id nodes)" and "\<forall>m \<in> set nodes. distinct (map hn_id (mf_deps m))"
  shows "distinct (followers nodes k) \<and> set (followers nodes k) = {v \<in> mf_id ` set nodes. k \<in> node_deps nodes v}"
proof -
  define row where "row m = map (\<lambda>_. mf_id m) (filter (\<lambda>h. hn_id h = k) (mf_deps m))" for m :: "'a manifest"
  have row: "row m = (if k \<in> hn_id ` set (mf_deps m) then [mf_id m] else [])" if "distinct (map hn_id (mf_deps m))" for m
    using single_follower [OF that, of "mf_id m" k] by (simp add: row_def)
  have "distinct (concat (map row ms)) \<and> set (concat (map row ms)) = {mf_id m |m. m \<in> set ms \<and> k \<in> hn_id ` set (mf_deps m)}"
    if "distinct (map mf_id ms)" "\<forall>m \<in> set ms. distinct (map hn_id (mf_deps m))" for ms
    using that by (induction ms) (auto simp: row)
  from this [OF assms] have "distinct (followers nodes k)"
    and "set (followers nodes k) = {mf_id m |m. m \<in> set nodes \<and> k \<in> hn_id ` set (mf_deps m)}"
    unfolding followers_def row_def by blast+
  then show ?thesis using node_deps_node [OF assms(1)] by auto
qed

lemma topology_pops:
  fixes nodes :: "'c manifest list"
  assumes ids: "distinct (map mf_id nodes)" and known: "\<forall>m \<in> set nodes. set (mf_deps m) \<subseteq> mf_handle ` set nodes"
    and deps: "\<forall>m \<in> set nodes. distinct (mf_deps m)"
    and deg: "deg = map (\<lambda>m. (mf_id m, int (length (mf_deps m)))) nodes"
  shows "\<exists>left. pops (mf_id ` set nodes) (node_deps nodes)
           (fst (pop_ready (followers nodes) deg (sort (map fst (filter (\<lambda>(_, d). d = 0) deg))))) left []"
proof -
  define start where "start = sort (map fst (filter (\<lambda>(_, d). d = 0) deg))"
  have dist: "\<forall>m \<in> set nodes. distinct (map hn_id (mf_deps m))" using dependency_ids [OF ids] known deps by blast
  have len: "int (length (mf_deps m)) = int (card (node_deps nodes (mf_id m)))" if "m \<in> set nodes" for m
    using that dist node_deps_node [OF ids that] distinct_card [of "map hn_id (mf_deps m)"] by simp
  have keys: "map fst deg = map mf_id nodes" by (simp add: deg comp_def)
  have lookup: "map_of deg v = (if v \<in> mf_id ` set nodes then Some (int (card (node_deps nodes v))) else None)" for v
  proof (cases "v \<in> mf_id ` set nodes")
    case True
    then obtain m where m: "m \<in> set nodes" "v = mf_id m" by blast
    then have "(v, int (card (node_deps nodes v))) \<in> set deg" using len [OF m(1)] by (auto simp: deg)
    then show ?thesis using True ids keys by (metis map_of_is_SomeI)
  next
    case False
    then show ?thesis using keys by (metis image_set list.set_map map_of_eq_None_iff)
  qed
  have zero: "x \<in> set deg \<and> snd x = 0 \<longleftrightarrow> fst x \<in> mf_id ` set nodes \<and> node_deps nodes (fst x) = {} \<and> snd x = 0" for x
  proof -
    have fin: "finite (node_deps nodes (fst x))" by (simp add: node_deps_def split: option.split)
    have "x \<in> set deg \<longleftrightarrow> map_of deg (fst x) = Some (snd x)"
      using map_of_eq_Some_iff [of deg "fst x" "snd x"] ids keys by simp
    then show ?thesis using fin by (auto simp: lookup)
  qed
  have "set start = {v \<in> mf_id ` set nodes. node_deps nodes v = {}}"
  proof -
    have "v \<in> set start \<longleftrightarrow> (v, 0) \<in> set deg" for v by (force simp: start_def)
    then show ?thesis using zero [of "(v, 0)" for v] by auto
  qed
  moreover have "distinct start" using ids keys by (auto simp: start_def intro: distinct_map_filter)
  ultimately have "pops (mf_id ` set nodes) (node_deps nodes) [] deg start"
    by (auto simp: pops_def fun_eq_iff lookup)
  then have "pops (mf_id ` set nodes) (node_deps nodes) ([] @ ts) left []"
    if "pop_ready (followers nodes) deg start = (ts, left)" for ts left
    using followers_set [OF ids dist] by (intro pop_ready_pops [OF that]) (auto simp: node_deps_def split: option.split)
  then show ?thesis unfolding start_def by (metis append_Nil prod.collapse)
qed

lemma distinct_keys_sort: "distinct (map f (sort_key f xs)) \<longleftrightarrow> distinct (map f xs)"
  by (simp add: distinct_map)

lemma distinct_keys_permuted: "mset ys = mset xs \<Longrightarrow> distinct (map f ys) \<longleftrightarrow> distinct (map f xs)"
  by (rule mset_eq_imp_distinct_iff) simp

lemma filter_own_key: "k \<in> set zs \<Longrightarrow> distinct (map f zs) \<Longrightarrow> filter (\<lambda>x. f k = f x) zs = [k]"
proof (induction zs)
  case (Cons a zs)
  then have "k \<noteq> a \<Longrightarrow> f a \<noteq> f k" by auto
  then show ?case using Cons by (auto simp: filter_empty_conv)
qed simp

lemma sort_key_permutation:
  assumes "mset ys = mset xs" and "distinct (map f xs)"
  shows "sort_key f ys = sort_key f xs"
proof (rule properties_for_sort_key)
  show "mset (sort_key f xs) = mset ys" by (simp add: assms(1))
  show "sorted (map f (sort_key f xs))" by simp
  have dist: "distinct (map f ys)" using assms distinct_keys_permuted by blast
  have "distinct (map f (sort_key f xs))" using assms(2) by (simp add: distinct_keys_sort)
  then show "filter (\<lambda>x. f k = f x) (sort_key f xs) = filter (\<lambda>x. f k = f x) ys" if "k \<in> set (sort_key f xs)" for k
    using that filter_own_key [of k _ f] dist assms(1) by (metis mset_eq_setD set_sort)
qed

definition depends :: "'c manifest list \<Rightarrow> (string \<times> string) set" where
  "depends ms = {(hn_id h, mf_id m) |h m. m \<in> set ms \<and> h \<in> set (mf_deps m)}"

lemma depends_nodes:
  assumes "distinct (map mf_id nodes)"
  shows "{(d, v). v \<in> mf_id ` set nodes \<and> d \<in> node_deps nodes v} = depends nodes"
proof -
  have "(d, v) \<in> depends nodes \<longleftrightarrow> v \<in> mf_id ` set nodes \<and> d \<in> node_deps nodes v" for d v
  proof
    assume "(d, v) \<in> depends nodes"
    then obtain h m where "m \<in> set nodes" "h \<in> set (mf_deps m)" "d = hn_id h" "v = mf_id m" by (auto simp: depends_def)
    then show "v \<in> mf_id ` set nodes \<and> d \<in> node_deps nodes v" using node_deps_node [OF assms] by auto
  next
    assume "v \<in> mf_id ` set nodes \<and> d \<in> node_deps nodes v"
    then obtain m where "m \<in> set nodes" "v = mf_id m" "d \<in> hn_id ` set (mf_deps m)" using node_deps_node [OF assms] by auto
    then show "(d, v) \<in> depends nodes" by (auto simp: depends_def)
  qed
  then show ?thesis by auto
qed

lemma resolve_ids:
  assumes "distinct (map mf_id nodes)" and "set ks \<subseteq> mf_id ` set nodes"
  shows "map mf_id (List.map_filter (manifest_by_id nodes) ks) = ks \<and> set (List.map_filter (manifest_by_id nodes) ks) \<subseteq> set nodes"
  using assms(2)
proof (induction ks)
  case (Cons k ks)
  then obtain m where m: "manifest_by_id nodes k = Some m" using manifest_by_id [OF assms(1), of k] by auto
  then show ?case using Cons manifest_by_id [OF assms(1), of k m] by (simp add: List.map_filter_simps)
qed (simp add: List.map_filter_simps)

lemma mk_graph_checks:
  fixes ms :: "'c manifest list"
  assumes deps: "\<forall>m \<in> set ms. distinct (mf_deps m)"
  defines "good \<equiv> distinct (map mf_id ms) \<and> (\<forall>m \<in> set ms. set (mf_deps m) \<subseteq> mf_handle ` set ms) \<and> acyclic (depends ms)"
  shows "if good then \<exists>g. mk_graph gd ms = Inr g \<and> mset (gr_topology g) = mset ms \<and> gr_nodes g = sort_key mf_id ms
           \<and> (\<forall>i < length (gr_topology g). set (mf_deps (gr_topology g ! i)) \<subseteq> mf_handle ` set (take i (gr_topology g)))
         else mk_graph gd ms = Inl ValueError"
proof -
  define nodes where "nodes = sort_key mf_id ms"
  define deg where "deg = map (\<lambda>m. (mf_id m, int (length (mf_deps m)))) nodes"
  define ts where "ts = fst (pop_ready (followers nodes) deg (sort (map fst (filter (\<lambda>(_, d). d = 0) deg))))"
  have set_nodes: "set nodes = set ms" by (simp add: nodes_def)
  have ids: "distinct (map mf_id nodes) \<longleftrightarrow> distinct (map mf_id ms)"
    unfolding nodes_def by (rule distinct_keys_sort)
  have same: "depends nodes = depends ms" by (simp add: depends_def set_nodes)
  define top where "top = List.map_filter (manifest_by_id nodes) ts"
  have unfold: "mk_graph gd ms = (if \<not> distinct (map mf_id nodes) then Inl ValueError
      else if \<not> list_all (\<lambda>m. list_all (known_dependency nodes) (mf_deps m)) nodes then Inl ValueError
      else if length ts \<noteq> length nodes then Inl ValueError
      else Inr \<lparr>gr_nodes = nodes, gr_topology = top, gr_identity = gd nodes ts\<rparr>)"
    by (simp add: mk_graph_def Let_def nodes_def [symmetric] deg_def [symmetric] ts_def [symmetric] top_def raise_if_def)
  show ?thesis
  proof (cases "distinct (map mf_id ms) \<and> (\<forall>m \<in> set ms. set (mf_deps m) \<subseteq> mf_handle ` set ms)")
    case False
    have "list_all (\<lambda>m. list_all (known_dependency nodes) (mf_deps m)) nodes \<longleftrightarrow>
        (\<forall>m \<in> set ms. set (mf_deps m) \<subseteq> mf_handle ` set ms)" if "distinct (map mf_id nodes)"
      using known_dependency [OF that] by (auto simp: list_all_iff set_nodes)
    then show ?thesis using False ids unfolding unfold good_def by auto
  next
    case True
    then have dist: "distinct (map mf_id nodes)" and known: "\<forall>m \<in> set nodes. set (mf_deps m) \<subseteq> mf_handle ` set nodes"
      using ids set_nodes by auto
    obtain left where pops: "pops (mf_id ` set nodes) (node_deps nodes) ts left []"
      using topology_pops [OF dist known _ deg_def] deps unfolding set_nodes ts_def by blast
    have ts: "distinct ts" "set ts \<subseteq> mf_id ` set nodes" using pops by (auto simp: pops_def)
    have sub: "\<forall>v \<in> mf_id ` set nodes. node_deps nodes v \<subseteq> mf_id ` set nodes"
      using known node_deps_node [OF dist] by fastforce
    have complete: "set ts = mf_id ` set nodes \<longleftrightarrow> acyclic (depends ms)"
      using pops_complete [OF pops _ sub] depends_nodes [OF dist] same by simp
    have len: "length ts = length nodes \<longleftrightarrow> set ts = mf_id ` set nodes"
    proof -
      have n: "length nodes = card (mf_id ` set nodes)" using distinct_card [OF dist] by simp
      show ?thesis using distinct_card [OF ts(1)] card_subset_eq [OF _ ts(2)] unfolding n by auto
    qed
    have checks: "list_all (\<lambda>m. list_all (known_dependency nodes) (mf_deps m)) nodes"
      using known by (auto simp: list_all_iff known_dependency [OF dist])
    have top: "map mf_id top = ts" "set top \<subseteq> set nodes" unfolding top_def by (use resolve_ids [OF dist ts(2)] in blast)+
    have before: "set (mf_deps (top ! i)) \<subseteq> mf_handle ` set (take i top)" if i: "i < length top" for i
    proof
      fix h assume h: "h \<in> set (mf_deps (top ! i))"
      have m: "top ! i \<in> set nodes" using top(2) i by auto
      have len: "length ts = length top" using arg_cong [OF top(1), of length] by simp
      then have idi: "ts ! i = mf_id (top ! i)" using top(1) i by (metis nth_map)
      have "hn_id h \<in> node_deps nodes (ts ! i)" using h node_deps_node [OF dist m] by (simp add: idi)
      then have "hn_id h \<in> set (take i ts)" using pops i len unfolding pops_def by auto
      then have "hn_id h \<in> mf_id ` set (take i top)" by (metis top(1) image_set take_map)
      then obtain n where n: "n \<in> set (take i top)" "mf_id n = hn_id h" by auto
      then have "n \<in> set nodes" using top(2) by (meson in_mono in_set_takeD)
      moreover obtain n' where n': "n' \<in> set nodes" "mf_handle n' = h" using known h m by blast
      ultimately have "n = n'" using dist n(2) by (simp add: distinct_map inj_on_def)
      then show "h \<in> mf_handle ` set (take i top)" using n n' by blast
    qed
    show ?thesis
    proof (cases "acyclic (depends ms)")
      case cyclic: False
      then show ?thesis unfolding unfold good_def using len complete by auto
    next
      case acyclic: True
      have "distinct top" using top(1) ts(1) by (metis distinct_map)
      moreover have "set top = set nodes"
      proof -
        have "mf_id ` set top = mf_id ` set nodes" using top(1) complete acyclic by (metis image_set)
        then show ?thesis using top(2) dist by (metis distinct_map inj_on_image_eq_iff order_refl)
      qed
      ultimately have "mset top = mset nodes" using dist by (metis distinct_map set_eq_iff_mset_eq_distinct)
      then have "mset top = mset ms" by (simp add: nodes_def)
      then show ?thesis unfolding unfold good_def using True acyclic dist checks len complete before nodes_def by auto
    qed
  qed
qed

lemma built_deps: "traverse (mk_manifest md) authored = Inr ms \<Longrightarrow> \<forall>m \<in> set ms. distinct (mf_deps m)"
  by (auto simp: traverse_Inr_iff list_all2_conv_all_nth in_set_conv_nth dest!: mk_manifest_value)

text \<open>
  Claim C14. The graph of a list of constructed consumers exists exactly when their identifiers are
  distinct, every dependency is the exact handle of one of them and the dependencies have no cycle; any
  other list is refused as a ValueError. Its topology is then a permutation of the consumers in which
  every consumer comes after all it depends on. The order in which the consumers were authored does
  not change the graph.
\<close>

theorem consumer_graph_orders_dependencies:
  assumes "traverse (mk_manifest md) authored = Inr ms"
  shows "(\<forall>g. mk_graph gd ms = Inr g \<longrightarrow> mset (gr_topology g) = mset ms \<and> (\<forall>i < length (gr_topology g).
            set (mf_deps (gr_topology g ! i)) \<subseteq> mf_handle ` set (take i (gr_topology g))))
       \<and> (mk_graph gd ms = Inl ValueError \<or> is_value (mk_graph gd ms))
       \<and> (is_value (mk_graph gd ms) \<longleftrightarrow> distinct (map mf_id ms)
            \<and> (\<forall>m \<in> set ms. set (mf_deps m) \<subseteq> mf_handle ` set ms) \<and> acyclic (depends ms))
       \<and> (\<forall>ms'. mset ms' = mset ms \<longrightarrow> mk_graph gd ms' = mk_graph gd ms)"
proof -
  note checks = mk_graph_checks [OF built_deps [OF assms], of gd]
  have "mk_graph gd ms' = mk_graph gd ms" if "mset ms' = mset ms" for ms'
  proof (cases "distinct (map mf_id ms)")
    case True
    then show ?thesis using sort_key_permutation [OF that True] by (simp add: mk_graph_def)
  next
    case False
    then have "\<not> distinct (map mf_id (sort_key mf_id ms))" "\<not> distinct (map mf_id (sort_key mf_id ms'))"
      using distinct_keys_permuted [OF that, of mf_id] by (simp_all add: distinct_keys_sort)
    then show ?thesis by (simp add: mk_graph_def Let_def)
  qed
  moreover have "(\<forall>g. mk_graph gd ms = Inr g \<longrightarrow> mset (gr_topology g) = mset ms \<and> (\<forall>i < length (gr_topology g).
            set (mf_deps (gr_topology g ! i)) \<subseteq> mf_handle ` set (take i (gr_topology g))))
       \<and> (mk_graph gd ms = Inl ValueError \<or> is_value (mk_graph gd ms))
       \<and> (is_value (mk_graph gd ms) \<longleftrightarrow> distinct (map mf_id ms)
            \<and> (\<forall>m \<in> set ms. set (mf_deps m) \<subseteq> mf_handle ` set ms) \<and> acyclic (depends ms))"
    (is "?built \<and> ?total \<and> (_ \<longleftrightarrow> ?good)")
  proof (cases ?good)
    case True
    then obtain g where "mk_graph gd ms = Inr g" "mset (gr_topology g) = mset ms" "\<forall>i < length (gr_topology g).
        set (mf_deps (gr_topology g ! i)) \<subseteq> mf_handle ` set (take i (gr_topology g))"
      using checks by (auto split: if_splits)
    then show ?thesis using True by simp
  next
    case False
    then have "mk_graph gd ms = Inl ValueError" using checks by presburger
    then show ?thesis using False by simp
  qed
  ultimately show ?thesis by blast
qed

lemma order_checkpoint_value:
  assumes "order_checkpoint md resolved m = Inr m'" and "distinct (mf_deps m)"
  shows "mf_handle m' = mf_handle m \<and> mf_kind m' = mf_kind m \<and> mf_schedule m' = mf_schedule m \<and> distinct (mf_deps m')
       \<and> (mf_kind m = Checkpoint \<longrightarrow> set (checkpoint_predecessors resolved m) \<subseteq> set (mf_deps m'))"
proof (cases "mf_kind m = Checkpoint")
  case True
  then have "mk_manifest md (m\<lparr>mf_deps := remdups (mf_deps m @ checkpoint_predecessors resolved m)\<rparr>) = Inr m'"
    using assms(1) by (simp add: order_checkpoint_def)
  from mk_manifest_value [OF this] show ?thesis by simp
qed (use assms in \<open>simp add: order_checkpoint_def\<close>)

text \<open>
  Claim C35. In the graph that resolution builds, a checkpoint comes after every consumer of its clock
  that is not a checkpoint, whatever dependencies the consumers declare; when those declarations make
  that impossible, resolution raises.
\<close>

theorem checkpoint_follows_its_clock:
  assumes "traverse (mk_manifest md) authored = Inr ms" and "resolve_graph md gd ms = Inr g"
    and "i < length (gr_topology g)" and "mf_kind (gr_topology g ! i) = Checkpoint"
    and "r \<in> set (gr_topology g)" and "mf_kind r \<noteq> Checkpoint" and "mf_clock r = mf_clock (gr_topology g ! i)"
  shows "r \<in> set (take i (gr_topology g))"
proof -
  obtain ordered where ordered: "traverse (order_checkpoint md ms) ms = Inr ordered" and g: "mk_graph gd ordered = Inr g"
    using assms(2) by (auto simp: resolve_graph_def)
  have rows: "\<exists>m \<in> set ms. order_checkpoint md ms m = Inr n" if n: "n \<in> set ordered" for n
  proof -
    have each: "list_all2 (\<lambda>m n. order_checkpoint md ms m = Inr n) ms ordered"
      using ordered by (simp only: traverse_Inr_iff)
    obtain k where k: "k < length ordered" "n = ordered ! k" using n by (metis in_set_conv_nth)
    then have "k < length ms" using list_all2_lengthD [OF each] by simp
    then have "order_checkpoint md ms (ms ! k) = Inr n" "ms ! k \<in> set ms" using list_all2_nthD [OF each] k by auto
    then show ?thesis by blast
  qed
  note dist = built_deps [OF assms(1)]
  have deps: "\<forall>n \<in> set ordered. distinct (mf_deps n)" using rows order_checkpoint_value dist by blast
  note checks = mk_graph_checks [OF deps, of gd]
  have good: "distinct (map mf_id ordered)" and perm: "mset (gr_topology g) = mset ordered"
    and before: "set (mf_deps (gr_topology g ! i)) \<subseteq> mf_handle ` set (take i (gr_topology g))"
    using checks g assms(3) by (auto split: if_splits)
  have members: "set (gr_topology g) = set ordered" using perm by (rule mset_eq_setD)
  obtain c where c: "c \<in> set ms" "order_checkpoint md ms c = Inr (gr_topology g ! i)"
    using rows [of "gr_topology g ! i"] nth_mem [OF assms(3)] unfolding members by blast
  note cv = order_checkpoint_value [OF c(2) bspec [OF dist c(1)]]
  obtain q where q: "q \<in> set ms" "order_checkpoint md ms q = Inr r" using rows [of r] assms(5) unfolding members by blast
  have "mf_kind q \<noteq> Checkpoint" using order_checkpoint_value [OF q(2) bspec [OF dist q(1)]] assms(6) by simp
  then have "r = q" using q(2) by (simp add: order_checkpoint_def)
  have "mf_clock q = mf_clock c" using cv assms(7) by (simp add: \<open>r = q\<close>)
  then have "mf_handle r \<in> set (checkpoint_predecessors ms c)"
    using q(1) \<open>mf_kind q \<noteq> Checkpoint\<close> by (simp add: checkpoint_predecessors_def \<open>r = q\<close>)
  moreover have "mf_kind c = Checkpoint" using cv assms(4) by simp
  ultimately have "mf_handle r \<in> mf_handle ` set (take i (gr_topology g))" using cv before by blast
  then obtain n where n: "n \<in> set (take i (gr_topology g))" "mf_handle n = mf_handle r" by auto
  then have "n \<in> set ordered" "r \<in> set ordered" using assms(5) members by (auto dest: in_set_takeD)
  then have "n = r" using good n(2) by (simp add: distinct_map inj_on_def)
  then show ?thesis using n(1) by simp
qed

section \<open>A run with a writer, a dependent monitor and a checkpoint\<close>

definition sample_schedule :: "unit schedule" where
  "sample_schedule = \<lparr>sc_trigger = \<lparr>tg_domain = step_domain, tg_kind = Always\<rparr>, sc_off = None\<rparr>"

definition sample_node :: "string \<Rightarrow> consumer_kind \<Rightarrow> handle list \<Rightarrow> unit manifest" where
  "sample_node name kind deps =
     \<lparr>mf_handle = \<lparr>hn_id = name, hn_data = []\<rparr>, mf_kind = kind, mf_quantities = [], mf_schedule = sample_schedule,
      mf_uri = name, mf_format = (if kind = ScientificOutput then Some Serial else None),
      mf_operation = (if kind = ScientificOutput then None else Some \<lparr>op_mode = Some Serial, op_singleton = False, op_async = False\<rparr>),
      mf_mode = Serial, mf_descriptors = [], mf_diagnostics = [], mf_deps = deps, mf_action = Fail_Run, mf_identity = name\<rparr>"

definition sample_manifests :: "unit manifest list" where
  "sample_manifests = [sample_node ''a'' Checkpoint [], sample_node ''b'' Monitor [\<lparr>hn_id = ''c'', hn_data = []\<rparr>],
     sample_node ''c'' ScientificOutput []]"

definition sample_graph :: "unit consumer_graph" where
  "sample_graph = (let a = sample_node ''a'' Checkpoint [\<lparr>hn_id = ''b'', hn_data = []\<rparr>, \<lparr>hn_id = ''c'', hn_data = []\<rparr>];
      b = sample_node ''b'' Monitor [\<lparr>hn_id = ''c'', hn_data = []\<rparr>]; c = sample_node ''c'' ScientificOutput []
     in \<lparr>gr_nodes = [a, b, c], gr_topology = [c, b, a], gr_identity = ''graph''\<rparr>)"

lemma sample_manifests_built: "traverse (mk_manifest mf_id) sample_manifests = Inr sample_manifests"
  by code_simp

lemma sample_graph_resolved: "resolve_graph mf_id (\<lambda>_ _. ''graph'') sample_manifests = Inr sample_graph"
  by code_simp

theorem consumer_graph_orders_dependencies_witness:
  "is_value (mk_graph (\<lambda>_ _. ''graph'') sample_manifests)"
proof -
  have "depends sample_manifests \<subseteq> {(''c'', ''b'')}"
    by (auto simp: depends_def sample_manifests_def sample_node_def)
  moreover have "acyclic ({} :: (string \<times> string) set)" by (rule wf_acyclic) simp
  then have "acyclic {(''c'', ''b'')}" by (simp add: acyclic_insert)
  ultimately have "acyclic (depends sample_manifests)" by (rule acyclic_subset [rotated])
  moreover have "distinct (map mf_id sample_manifests)" "\<forall>m \<in> set sample_manifests. set (mf_deps m) \<subseteq> mf_handle ` set sample_manifests"
    by (simp_all add: sample_manifests_def sample_node_def)
  moreover have "is_value (mk_graph (\<lambda>_ _. ''graph'') sample_manifests) \<longleftrightarrow> distinct (map mf_id sample_manifests)
      \<and> (\<forall>m \<in> set sample_manifests. set (mf_deps m) \<subseteq> mf_handle ` set sample_manifests) \<and> acyclic (depends sample_manifests)"
    using consumer_graph_orders_dependencies [OF sample_manifests_built, of "\<lambda>_ _. ''graph''"] by blast
  ultimately show ?thesis by blast
qed

theorem checkpoint_follows_its_clock_witness:
  "sample_node ''c'' ScientificOutput [] \<in> set (take 2 (gr_topology sample_graph))"
proof (rule checkpoint_follows_its_clock [OF sample_manifests_built sample_graph_resolved])
  show "2 < length (gr_topology sample_graph)" "mf_kind (gr_topology sample_graph ! 2) = Checkpoint"
    "sample_node ''c'' ScientificOutput [] \<in> set (gr_topology sample_graph)"
    "mf_kind (sample_node ''c'' ScientificOutput []) \<noteq> Checkpoint"
    "mf_clock (sample_node ''c'' ScientificOutput []) = mf_clock (gr_topology sample_graph ! 2)"
    by (simp_all add: sample_graph_def Let_def sample_node_def)
qed

end
