(* ===== verification/Pops_Planning.thy ===== *)
theory Pops_Planning
  imports Pops_ConsumerGraph Pops_Publications
begin

text \<open>
  The planning of the samples of an accepted step (\<open>python/pops/runtime/_consumer_planning.py\<close>, with the
  values of \<open>_consumer_effects.py\<close> and \<open>_runtime_plan_contracts.py\<close> it reads): which consumers are due,
  the occurrence each would publish, the resources and fields it reads, the effect plan, the next
  deadline of a run, and the ownership of collectives.

  \<open>digests\<close> holds the identities: \<open>make_identity\<close> on an occurrence, a payload and an effect, and the
  identity of a field context. A refusal of planning is a \<open>ValueError\<close>. The runtime plan is the part
  the planner reads: its calls, communicator and collectives.
\<close>

section \<open>The runtime plan\<close>

record field_access =
  ac_resource :: string
  ac_space :: string

record runtime_call =
  ca_identity :: string
  ca_block :: string
  ca_layout :: string
  ca_reads :: "field_access list"
  ca_writes :: "field_access list"
  ca_requirements :: "(string \<times> string) list list"

record collective =
  co_identity :: string
  co_call :: string
  co_resource :: string
  co_operation :: string
  co_strategy :: string
  co_communicator :: string

record runtime_plan =
  rt_identity :: string
  rt_calls :: "runtime_call list"
  rt_communicator :: string
  rt_collectives :: "collective list"

section \<open>Due samples\<close>

definition schedule_coordinate :: "'c manifest \<Rightarrow> moment \<Rightarrow> nat option" where
  "schedule_coordinate mf m =
     (if mf_clock mf \<noteq> tp_clock (mo_point m) then None
      else domain_coordinate (tg_domain (sc_trigger (mf_schedule mf))) m)"

definition consumer_is_due :: "'c manifest \<Rightarrow> moment \<Rightarrow> bool result" where
  "consumer_is_due mf m =
     (case schedule_coordinate mf m of
        None \<Rightarrow> Inr False
      | Some coordinate \<Rightarrow>
          (case trigger_due (sc_trigger (mf_schedule mf)) coordinate m of
             Inl TypeError \<Rightarrow> Inl ValueError
           | due \<Rightarrow> due))"

datatype occurrence_evidence =
    LatticeSample int
  | DomainSample "nat option" time_point domain_evidence

record binding =
  rb_quantity :: string
  rb_reference :: string
  rb_resource :: string
  rb_layout :: string
  rb_levels :: "nat list"
  rb_spaces :: "string list"
  rb_collectives :: "string list"

record field_use =
  fu_quantity :: string
  fu_context :: string
  fu_action :: string
  fu_source :: "time_point option"
  fu_consumer :: "field_consumer option"
  fu_requested :: time_point
  fu_layout :: layout_binding

record 'c digests =
  dg_occurrence :: "string \<Rightarrow> 'c schedule \<Rightarrow> occurrence_evidence \<Rightarrow> string"
  dg_context :: "field_context \<Rightarrow> string"
  dg_payload :: "string \<Rightarrow> string \<Rightarrow> binding list \<Rightarrow> field_use list \<Rightarrow> string"
  dg_effect :: "effect \<Rightarrow> string"

definition consumer_evidence :: "'c manifest \<Rightarrow> moment \<Rightarrow> occurrence_evidence result" where
  "consumer_evidence mf m =
     bindR (trigger_evidence (sc_trigger (mf_schedule mf)) m) (\<lambda>lattice.
       Inr (case lattice of
              Some index \<Rightarrow> LatticeSample index
            | None \<Rightarrow> DomainSample (schedule_coordinate mf m) (mo_point m)
                        (domain_evidence (tg_domain (sc_trigger (mf_schedule mf))) m)))"

definition consumer_occurrence :: "'c digests \<Rightarrow> 'c manifest \<Rightarrow> moment \<Rightarrow> string result" where
  "consumer_occurrence dg mf m =
     bindR (consumer_evidence mf m) (\<lambda>evidence. Inr (dg_occurrence dg (mf_id mf) (mf_schedule mf) evidence))"

section \<open>The next deadline\<close>

definition deadline_step :: "moment list \<Rightarrow> 'c manifest \<Rightarrow> rat list \<Rightarrow> rat list result" where
  "deadline_step moments mf deadlines =
     (case find (\<lambda>m. tp_clock (mo_point m) = mf_clock mf) moments of
        None \<Rightarrow> Inr deadlines
      | Some m \<Rightarrow>
          bindR (trigger_deadline (sc_trigger (mf_schedule mf)) (mo_time m)) (\<lambda>deadline.
            case deadline of
              None \<Rightarrow> Inr deadlines
            | Some d \<Rightarrow> raise_if (\<not> mo_time m < d) ValueError (Inr (deadlines @ [d]))))"

definition next_consumer_deadline :: "'c consumer_graph \<Rightarrow> moment list \<Rightarrow> rat option result" where
  "next_consumer_deadline g moments =
     raise_if (\<not> distinct (map (tp_clock \<circ> mo_point) moments)) ValueError
    (bindR (foldR (deadline_step moments) (gr_nodes g) []) (\<lambda>deadlines.
       Inr (if deadlines = [] then None else Some (Min (set deadlines)))))"

section \<open>Resources\<close>

definition mk_binding :: "binding \<Rightarrow> binding result" where
  "mk_binding b =
     bindR (check_text (rb_reference b)) (\<lambda>_.
     bindR (check_text (rb_resource b)) (\<lambda>_.
     bindR (check_text (rb_layout b)) (\<lambda>_.
     raise_if (rb_levels b \<noteq> sort (remdups (rb_levels b))) ValueError
    (raise_if (rb_spaces b \<noteq> sort (remdups (rb_spaces b)) \<or> [] \<in> set (rb_spaces b)) ValueError
    (raise_if (rb_collectives b \<noteq> sort (remdups (rb_collectives b)) \<or> [] \<in> set (rb_collectives b)) ValueError
    (raise_if (rb_spaces b = []) ValueError (Inr b)))))))"

text \<open>One row for each quantity, with the collective operations its provider executes.\<close>

definition resource_rows :: "'c manifest \<Rightarrow> (binding \<times> string list) list" where
  "resource_rows mf =
     map (\<lambda>q. (\<lparr>rb_quantity = cq_identity q, rb_reference = cq_reference q, rb_resource = cq_resource q,
                rb_layout = cq_layout q, rb_levels = cq_levels q, rb_spaces = [], rb_collectives = []\<rparr>,
               if mf_mode mf \<in> {Rooted, Collective} then [''gather''] else [])) (mf_quantities mf)
     @ map (\<lambda>q. (\<lparr>rb_quantity = dq_identity q, rb_reference = dq_reference q, rb_resource = dq_resource q,
                rb_layout = dq_layout q, rb_levels = dq_levels q, rb_spaces = [], rb_collectives = []\<rparr>,
               diagnostic_collective_operations (dq_reductions q))) (mf_diagnostics mf)"

definition resource_binding :: "runtime_plan \<Rightarrow> binding \<times> string list \<Rightarrow> binding result" where
  "resource_binding rt row =
     (let (b, expected) = row;
          accesses = filter (\<lambda>a. ac_resource a = rb_resource b)
            (concat (map (\<lambda>c. ca_reads c @ ca_writes c) (filter (\<lambda>c. ca_layout c = rb_layout b) (rt_calls rt))));
          rows = filter (\<lambda>c. co_resource c = rb_resource b \<and> co_operation c \<in> set expected) (rt_collectives rt) in
      raise_if (accesses = []) ValueError
     (raise_if (\<not> set expected \<subseteq> set (map co_operation rows)) ValueError
        (mk_binding (b\<lparr>rb_spaces := sort (remdups (map ac_space accesses)),
                       rb_collectives := sort (map co_identity rows)\<rparr>))))"

definition resource_bindings :: "runtime_plan \<Rightarrow> 'c manifest \<Rightarrow> binding list result" where
  "resource_bindings rt mf =
     (let singleton = (case mf_operation mf of None \<Rightarrow> False | Some op \<Rightarrow> op_singleton op);
          communicator = rt_communicator rt in
      raise_if (mf_kind mf \<in> {ScientificOutput, Monitor} \<and> mf_mode mf = Serial \<and> communicator \<noteq> ''serial'') ValueError
     (raise_if (mf_mode mf \<noteq> Serial \<and> communicator = ''serial'' \<and> \<not> singleton) ValueError
        (traverse (resource_binding rt) (resource_rows mf))))"

text \<open>The audit of what the bindings lower to: one row for each quantity.\<close>

definition coverage_rows :: "('c manifest \<times> binding list) list \<Rightarrow> (string \<times> string list) list" where
  "coverage_rows active =
     concat (map (\<lambda>(mf, bs). map (\<lambda>b.
         (''consumer-quantity:'' @ mf_id mf @ '':'' @ rb_quantity b,
          (''runtime-resource:'' @ rb_resource b @ ''@'' @ rb_layout b)
            # map (\<lambda>c. ''runtime-collective:'' @ c) (rb_collectives b))) bs) active)"

definition mk_coverage :: "(string \<times> string list) list \<Rightarrow> (string \<times> string list) list result" where
  "mk_coverage rows =
     raise_if (\<not> list_all (\<lambda>(_, targets). distinct targets) rows) ValueError
    (raise_if (\<not> distinct (map fst rows)) ValueError (Inr (sort_key fst rows)))"

section \<open>Fields\<close>

definition field_consumer_of :: "consumer_kind \<Rightarrow> field_consumer" where
  "field_consumer_of kind = (if kind = Diagnostic then ForDiagnostic else ForOutput)"

definition field_use_of :: "quantity \<Rightarrow> moment \<Rightarrow> layout_binding \<Rightarrow> field_read \<Rightarrow> field_use" where
  "field_use_of q m layout read =
     (case read of
        UseMaterialized i \<Rightarrow> \<lparr>fu_quantity = cq_identity q, fu_context = i, fu_action = ''materialized'', fu_source = None,
                              fu_consumer = None, fu_requested = mo_point m, fu_layout = layout\<rparr>
      | UseHeld i source requested \<Rightarrow> \<lparr>fu_quantity = cq_identity q, fu_context = i, fu_action = ''held'',
                              fu_source = Some source, fu_consumer = None, fu_requested = requested, fu_layout = layout\<rparr>
      | Recompute i consumer requested _ \<Rightarrow> \<lparr>fu_quantity = cq_identity q, fu_context = i, fu_action = ''recompute'',
                              fu_source = None, fu_consumer = Some consumer, fu_requested = requested, fu_layout = layout\<rparr>)"

definition field_resolution ::
  "'c digests \<Rightarrow> 'c manifest \<Rightarrow> moment \<Rightarrow> quantity \<Rightarrow> field_use option result" where
  "field_resolution dg mf m q =
     (case cq_context q of
        None \<Rightarrow> Inr None
      | Some context \<Rightarrow>
          (case layout_for m (cq_layout q) of
             Inl _ \<Rightarrow> Inl ValueError
           | Inr layout \<Rightarrow>
               (case resolve_read (dg_context dg) context (field_consumer_of (mf_kind mf)) (mo_point m) layout (cq_policy q) of
                  Inl RuntimeError \<Rightarrow> Inl ValueError
                | Inl e \<Rightarrow> Inl e
                | Inr read \<Rightarrow> Inr (Some (field_use_of q m layout read)))))"

section \<open>The plan\<close>

definition somes :: "'a option list \<Rightarrow> 'a list" where
  "somes xs = List.map_filter (\<lambda>x. x) xs"

definition plan_consumer ::
  "'c digests \<Rightarrow> runtime_plan \<Rightarrow> (string \<times> binding list) list \<Rightarrow> moment \<Rightarrow> cursors \<Rightarrow> 'c manifest \<Rightarrow> effect list
    \<Rightarrow> effect list result" where
  "plan_consumer dg rt bindings m cs mf effects =
     bindR (consumer_is_due mf m) (\<lambda>due.
       if \<not> due then Inr effects
       else bindR (consumer_occurrence dg mf m) (\<lambda>occurrence.
            bindR (for_consumer cs (mf_id mf)) (\<lambda>before.
              if cu_last before = Some occurrence then Inr effects
              else
                bindR (traverse (field_resolution dg mf m) (mf_quantities mf)) (\<lambda>fields.
                case map_of bindings (mf_id mf) of
                  None \<Rightarrow> Inl KeyError
                | Some bs \<Rightarrow>
                    let payload = \<lparr>py_identity = dg_payload dg (rt_identity rt) occurrence bs (somes fields),
                                   py_occurrence = occurrence\<rparr> in
                    bindR (mk_cursor (mf_id mf) (Some occurrence) (cu_samples before + 1)) (\<lambda>after.
                    bindR (mk_effect (dg_effect dg) (length effects) (mf_id mf) (mf_identity mf) (mf_uri mf) (mf_mode mf)
                             payload (mf_action mf) before after) (\<lambda>e.
                      Inr (effects @ [e])))))))"

definition plan_accepted_side_effects ::
  "'c digests \<Rightarrow> runtime_plan \<Rightarrow> 'c consumer_graph \<Rightarrow> moment \<Rightarrow> cursors \<Rightarrow> plan result" where
  "plan_accepted_side_effects dg rt g m cs =
     (let active = filter (\<lambda>mf. mf_clock mf = tp_clock (mo_point m)) (gr_nodes g) in
      bindR (traverse (\<lambda>mf. bindR (resource_bindings rt mf) (\<lambda>bs. Inr (mf, bs))) active) (\<lambda>bound.
      bindR (mk_coverage (coverage_rows bound)) (\<lambda>_.
      bindR (foldR (plan_consumer dg rt (map (\<lambda>(mf, bs). (mf_id mf, bs)) bound) m cs) (gr_topology g) []) (\<lambda>effects.
        mk_plan (gr_identity g) (rt_identity rt) effects))))"

section \<open>Ownership of collectives\<close>

definition owns_collective :: "runtime_plan \<Rightarrow> 'c consumer_graph \<Rightarrow> string \<Rightarrow> collective \<Rightarrow> bool" where
  "owns_collective rt g communicator c =
     (case map_of (rev (map (\<lambda>call. (ca_identity call, call)) (rt_calls rt))) (co_call c) of
        None \<Rightarrow> False
      | Some call \<Rightarrow>
          rt_communicator rt = communicator \<and> co_communicator c = communicator
          \<and> list_ex (\<lambda>a. ac_resource a = co_resource c) (ca_reads call @ ca_writes call)
          \<and> list_ex (\<lambda>req. set (map fst req) = {''capability'', ''resource'', ''operation'', ''strategy''}
                \<and> map_of req ''capability'' = Some ''collective'' \<and> map_of req ''resource'' = Some (co_resource c)
                \<and> map_of req ''operation'' = Some (co_operation c) \<and> map_of req ''strategy'' = Some (co_strategy c))
              (ca_requirements call)
          \<and> list_ex (\<lambda>mf. list_ex (\<lambda>(_, block, resource, layout, operation, strategy).
                block = Some (ca_block call) \<and> layout = ca_layout call \<and> resource = co_resource c
                \<and> operation = co_operation c \<and> strategy = co_strategy c) (collective_requirements mf)) (gr_nodes g))"

definition require_collective_ownership :: "runtime_plan \<Rightarrow> 'c consumer_graph \<Rightarrow> string \<Rightarrow> unit result" where
  "require_collective_ownership rt g communicator =
     raise_if (communicator = []) TypeError
    (raise_if (\<not> list_all (owns_collective rt g communicator) (rt_collectives rt)) ValueError (Inr ()))"

section \<open>What a plan contains\<close>

lemma cursor_of_consumer [simp]: "cu_consumer (cursor_of cs k) = k"
  by (auto simp: cursor_of_def find_Some_iff split: option.split)

lemma for_consumer_iff: "for_consumer cs k = Inr c \<longleftrightarrow> canonical_text k \<and> c = cursor_of cs k"
proof (cases "canonical_text k")
  case False
  then show ?thesis by (simp add: for_consumer_def check_text_def)
qed (auto simp: for_consumer_value)

text \<open>A consumer has a sample to publish: it is due, at an occurrence other than its last.\<close>

definition has_sample :: "'c digests \<Rightarrow> moment \<Rightarrow> cursors \<Rightarrow> 'c manifest \<Rightarrow> bool" where
  "has_sample dg m cs mf \<longleftrightarrow>
     consumer_is_due mf m = Inr True
     \<and> (case consumer_occurrence dg mf m of Inl _ \<Rightarrow> False | Inr occ \<Rightarrow> cu_last (cursor_of cs (mf_id mf)) \<noteq> Some occ)"

definition payload_for ::
  "'c digests \<Rightarrow> runtime_plan \<Rightarrow> (string \<times> binding list) list \<Rightarrow> moment \<Rightarrow> 'c manifest \<Rightarrow> payload_ref result" where
  "payload_for dg rt bindings m mf =
     bindR (consumer_occurrence dg mf m) (\<lambda>occ.
     bindR (traverse (field_resolution dg mf m) (mf_quantities mf)) (\<lambda>fields.
       case map_of bindings (mf_id mf) of
         None \<Rightarrow> Inl KeyError
       | Some bs \<Rightarrow> Inr \<lparr>py_identity = dg_payload dg (rt_identity rt) occ bs (somes fields), py_occurrence = occ\<rparr>))"

definition next_effect :: "'c digests \<Rightarrow> 'c manifest \<Rightarrow> payload_ref \<Rightarrow> cursors \<Rightarrow> nat \<Rightarrow> effect" where
  "next_effect dg mf p cs n =
     (let before = cursor_of cs (mf_id mf);
          e = \<lparr>ef_ordinal = n, ef_consumer = mf_id mf, ef_manifest = mf_identity mf, ef_uri = mf_uri mf, ef_mode = mf_mode mf,
               ef_payload = p, ef_action = mf_action mf, ef_before = before,
               ef_after = \<lparr>cu_consumer = mf_id mf, cu_last = Some (py_occurrence p), cu_samples = cu_samples before + 1\<rparr>,
               ef_identity = []\<rparr>
      in e\<lparr>ef_identity := dg_effect dg e\<rparr>)"

lemma next_effect_simps [simp]:
  "ef_ordinal (next_effect dg mf p cs n) = n" "ef_consumer (next_effect dg mf p cs n) = mf_id mf"
  "ef_payload (next_effect dg mf p cs n) = p" "ef_action (next_effect dg mf p cs n) = mf_action mf"
  "ef_before (next_effect dg mf p cs n) = cursor_of cs (mf_id mf)" "ef_uri (next_effect dg mf p cs n) = mf_uri mf"
  "ef_manifest (next_effect dg mf p cs n) = mf_identity mf" "ef_mode (next_effect dg mf p cs n) = mf_mode mf"
  "ef_after (next_effect dg mf p cs n) =
     \<lparr>cu_consumer = mf_id mf, cu_last = Some (py_occurrence p), cu_samples = Suc (cu_samples (cursor_of cs (mf_id mf)))\<rparr>"
  by (simp_all add: next_effect_def Let_def)

text \<open>What planning one consumer needs of it, whatever the cursors.\<close>

definition plannable ::
  "'c digests \<Rightarrow> runtime_plan \<Rightarrow> (string \<times> binding list) list \<Rightarrow> moment \<Rightarrow> cursors \<Rightarrow> 'c manifest \<Rightarrow> bool" where
  "plannable dg rt B m cs mf \<longleftrightarrow>
     is_value (consumer_is_due mf m)
     \<and> (consumer_is_due mf m = Inr True \<longrightarrow> is_value (consumer_occurrence dg mf m) \<and> canonical_text (mf_id mf))
     \<and> (has_sample dg m cs mf \<longrightarrow> canonical_text (mf_uri mf)
          \<and> (\<exists>p. payload_for dg rt B m mf = Inr p \<and> canonical_text (py_occurrence p)))"

lemma payload_occurrence: "payload_for dg rt B m mf = Inr p \<Longrightarrow> consumer_occurrence dg mf m = Inr (py_occurrence p)"
  by (auto simp: payload_for_def split: option.splits)

lemma plan_consumer_iff:
  "plan_consumer dg rt B m cs mf es = Inr es' \<longleftrightarrow>
     plannable dg rt B m cs mf
     \<and> es' = (if has_sample dg m cs mf then es @ [next_effect dg mf (projr (payload_for dg rt B m mf)) cs (length es)] else es)"
proof (cases "consumer_is_due mf m")
  case (Inr due)
  show ?thesis
  proof (cases due)
    case False
    then show ?thesis by (auto simp: plan_consumer_def plannable_def has_sample_def Inr)
  next
    case True
    show ?thesis
    proof (cases "consumer_occurrence dg mf m")
      case (Inr occ)
      have "mk_cursor (mf_id mf) (Some occ) n = Inr c \<longleftrightarrow>
          canonical_text (mf_id mf) \<and> canonical_text occ \<and> c = \<lparr>cu_consumer = mf_id mf, cu_last = Some occ, cu_samples = n\<rparr>" for n c
        by (auto simp: mk_cursor_def check_text_def)
      then show ?thesis
        using True \<open>consumer_is_due mf m = Inr due\<close>
        by (auto simp: plan_consumer_def plannable_def has_sample_def Inr for_consumer_iff payload_for_def mk_effect_def
            check_text_def next_effect_def Let_def split: option.splits)
    qed (use True Inr in \<open>simp add: plan_consumer_def plannable_def has_sample_def\<close>)
  qed
qed (simp add: plan_consumer_def plannable_def)

lemma plan_loop:
  "foldR (plan_consumer dg rt B m cs) ms es = Inr es' \<longleftrightarrow>
     (\<forall>mf \<in> set ms. plannable dg rt B m cs mf)
     \<and> es' = es @ map (\<lambda>(n, mf). next_effect dg mf (projr (payload_for dg rt B m mf)) cs n)
                 (enumerate (length es) (filter (has_sample dg m cs) ms))"
proof (induction ms arbitrary: es)
  case (Cons mf ms)
  show ?case by (cases "has_sample dg m cs mf") (auto simp: plan_consumer_iff Cons)
qed auto

lemma map_enumerate: "map (\<lambda>x. f (snd x)) (enumerate n xs) = map f xs"
  by (induction xs arbitrary: n) auto

lemma planned:
  assumes "plan_accepted_side_effects dg rt g m cs = Inr pl"
  obtains B where "\<forall>mf \<in> set (gr_topology g). plannable dg rt B m cs mf"
    and "pl_effects pl = map (\<lambda>(n, mf). next_effect dg mf (projr (payload_for dg rt B m mf)) cs n)
           (enumerate 0 (filter (has_sample dg m cs) (gr_topology g)))"
    and "\<And>cs'. (\<forall>mf \<in> set (gr_topology g). has_sample dg m cs' mf \<longrightarrow> has_sample dg m cs mf) \<Longrightarrow>
           \<exists>pl'. plan_accepted_side_effects dg rt g m cs' = Inr pl'
             \<and> map ef_consumer (pl_effects pl') = map mf_id (filter (has_sample dg m cs') (gr_topology g))"
proof -
  obtain bound where bound: "traverse (\<lambda>mf. bindR (resource_bindings rt mf) (\<lambda>bs. Inr (mf, bs)))
      (filter (\<lambda>mf. mf_clock mf = tp_clock (mo_point m)) (gr_nodes g)) = Inr bound" "is_value (mk_coverage (coverage_rows bound))"
    using assms by (auto simp: plan_accepted_side_effects_def Let_def is_value_iff)
  define B where "B = map (\<lambda>(mf, bs). (mf_id mf, bs)) bound"
  define pay where "pay mf = projr (payload_for dg rt B m mf)" for mf
  have split: "plan_accepted_side_effects dg rt g m cs' =
      bindR (foldR (plan_consumer dg rt B m cs') (gr_topology g) []) (mk_plan (gr_identity g) (rt_identity rt))" for cs'
    using bound by (auto simp: plan_accepted_side_effects_def Let_def is_value_iff B_def)
  define es where "es cs' = map (\<lambda>(n, mf). next_effect dg mf (pay mf) cs' n) (enumerate 0 (filter (has_sample dg m cs') (gr_topology g)))" for cs'
  have loop: "\<forall>mf \<in> set (gr_topology g). plannable dg rt B m cs mf" and made: "mk_plan (gr_identity g) (rt_identity rt) (es cs) = Inr pl"
    using assms unfolding split by (auto simp: plan_loop es_def pay_def)
  have ids: "map (py_identity \<circ> ef_payload) (es cs') = map (py_identity \<circ> pay) (filter (has_sample dg m cs') (gr_topology g))"
    and names: "map ef_consumer (es cs') = map mf_id (filter (has_sample dg m cs') (gr_topology g))"
    and ordinals: "map ef_ordinal (es cs') = [0..<length (es cs')]" for cs'
  proof -
    have "map h (es cs') = map (\<lambda>mf. h' mf) (filter (has_sample dg m cs') (gr_topology g))"
      if "\<And>mf n. h (next_effect dg mf (pay mf) cs' n) = h' mf" for h :: "effect \<Rightarrow> string" and h'
      using that map_enumerate [of h' 0] by (simp add: es_def comp_def case_prod_unfold)
    from this [of "py_identity \<circ> ef_payload" "py_identity \<circ> pay"] this [of ef_consumer mf_id]
    show "map (py_identity \<circ> ef_payload) (es cs') = map (py_identity \<circ> pay) (filter (has_sample dg m cs') (gr_topology g))"
      "map ef_consumer (es cs') = map mf_id (filter (has_sample dg m cs') (gr_topology g))"
      by simp_all
    have "map ef_ordinal (es cs') = map fst (enumerate 0 (filter (has_sample dg m cs') (gr_topology g)))"
      by (simp add: es_def comp_def case_prod_unfold)
    then show "map ef_ordinal (es cs') = [0..<length (es cs')]" by (simp add: es_def)
  qed
  show ?thesis
  proof (rule that [of B])
    show "\<forall>mf \<in> set (gr_topology g). plannable dg rt B m cs mf" by (rule loop)
    show "pl_effects pl = map (\<lambda>(n, mf). next_effect dg mf (projr (payload_for dg rt B m mf)) cs n)
        (enumerate 0 (filter (has_sample dg m cs) (gr_topology g)))"
      using made by (auto simp: mk_plan_def es_def pay_def)
    fix cs' assume fewer: "\<forall>mf \<in> set (gr_topology g). has_sample dg m cs' mf \<longrightarrow> has_sample dg m cs mf"
    have "\<forall>mf \<in> set (gr_topology g). plannable dg rt B m cs' mf"
      using loop fewer unfolding plannable_def by blast
    then have "plan_accepted_side_effects dg rt g m cs' = mk_plan (gr_identity g) (rt_identity rt) (es cs')"
      using plan_loop [of dg rt B m cs' "gr_topology g" "[]" "es cs'"] unfolding split by (simp add: es_def pay_def)
    moreover have "distinct (map (py_identity \<circ> ef_payload) (es cs'))"
    proof -
      have sub: "filter (has_sample dg m cs') (gr_topology g) = filter (has_sample dg m cs') (filter (has_sample dg m cs) (gr_topology g))"
        unfolding filter_filter using fewer by (intro filter_cong) auto
      have "distinct (map (py_identity \<circ> pay) (filter (has_sample dg m cs) (gr_topology g)))"
        using made by (simp add: mk_plan_def ids)
      then show ?thesis unfolding ids by (subst sub) (rule distinct_map_filter)
    qed
    ultimately show "\<exists>pl'. plan_accepted_side_effects dg rt g m cs' = Inr pl'
        \<and> map ef_consumer (pl_effects pl') = map mf_id (filter (has_sample dg m cs') (gr_topology g))"
      using ordinals [of cs'] names [of cs'] by (simp add: mk_plan_def)
  qed
qed

lemma planned_shape:
  assumes "plan_accepted_side_effects dg rt g m cs = Inr pl"
  shows "\<exists>B. (\<forall>mf \<in> set (gr_topology g). plannable dg rt B m cs mf)
           \<and> pl_effects pl = map (\<lambda>(n, mf). next_effect dg mf (projr (payload_for dg rt B m mf)) cs n)
               (enumerate 0 (filter (has_sample dg m cs) (gr_topology g)))"
  by (rule planned [OF assms]) blast

lemma planned_consumers:
  "map ef_consumer (map (\<lambda>(n, mf). next_effect dg mf (pay mf) cs n) (enumerate k ms)) = map mf_id ms"
  by (induction ms arbitrary: k) auto

lemma plan_serves:
  assumes "plan_accepted_side_effects dg rt g m cs = Inr pl"
  shows "map ef_consumer (pl_effects pl) = map mf_id (filter (has_sample dg m cs) (gr_topology g))"
  using planned_shape [OF assms] planned_consumers by force

lemma planned_again:
  assumes "plan_accepted_side_effects dg rt g m cs = Inr pl"
    and "\<forall>mf \<in> set (gr_topology g). has_sample dg m cs' mf \<longrightarrow> has_sample dg m cs mf"
  shows "\<exists>pl'. plan_accepted_side_effects dg rt g m cs' = Inr pl'
           \<and> map ef_consumer (pl_effects pl') = map mf_id (filter (has_sample dg m cs') (gr_topology g))"
  by (rule planned [OF assms(1)]) (use assms(2) in blast)

lemma planned_effects:
  assumes "pl_effects pl = map (\<lambda>(n, mf). next_effect dg mf (pay mf) cs n) (enumerate 0 ms)" and "e \<in> set (pl_effects pl)"
  shows "\<exists>mf \<in> set ms. \<exists>n. e = next_effect dg mf (pay mf) cs n"
proof -
  obtain n mf where "(n, mf) \<in> set (enumerate 0 ms)" "e = next_effect dg mf (pay mf) cs n" using assms by auto
  then show ?thesis by (auto simp: enumerate_eq_zip dest: set_zip_rightD)
qed

lemma fresh_effects:
  "(\<forall>e \<in> set es. canonical_text (ef_consumer e) \<and> ef_before e = cursor_of cs (ef_consumer e)) \<Longrightarrow> check_fresh cs es = Inr ()"
  by (induction es) (auto simp: raised_by_def for_consumer_value)

text \<open>
  Claim C12. A plan holds exactly the samples of the consumers that are due at the moment and whose
  occurrence is not the one their cursor last committed, in the order of the topology. Each sample
  takes its target, mode and failure action from the manifest of its consumer, moves that consumer's
  cursor by one and names the occurrence of the moment; and the transaction the plan is made for
  accepts its cursors as fresh.
\<close>

theorem plan_serves_due_samples:
  assumes "plan_accepted_side_effects dg rt g m cs = Inr pl"
  shows "map ef_consumer (pl_effects pl) = map mf_id (filter (has_sample dg m cs) (gr_topology g))
       \<and> (\<forall>e \<in> set (pl_effects pl). \<exists>mf \<in> set (gr_topology g).
            ef_consumer e = mf_id mf \<and> ef_uri e = mf_uri mf \<and> ef_mode e = mf_mode mf \<and> ef_action e = mf_action mf
            \<and> consumer_is_due mf m = Inr True \<and> consumer_occurrence dg mf m = Inr (py_occurrence (ef_payload e))
            \<and> ef_before e = cursor_of cs (mf_id mf) \<and> cu_last (ef_before e) \<noteq> cu_last (ef_after e)
            \<and> cu_last (ef_after e) = Some (py_occurrence (ef_payload e))
            \<and> cu_samples (ef_after e) = Suc (cu_samples (ef_before e)))
       \<and> check_fresh cs (pl_effects pl) = Inr ()"
proof -
  obtain B where can: "\<forall>mf \<in> set (gr_topology g). plannable dg rt B m cs mf"
    and es: "pl_effects pl = map (\<lambda>(n, mf). next_effect dg mf (projr (payload_for dg rt B m mf)) cs n)
           (enumerate 0 (filter (has_sample dg m cs) (gr_topology g)))"
    using planned_shape [OF assms] by blast
  have each: "\<exists>mf \<in> set (gr_topology g). canonical_text (mf_id mf) \<and> has_sample dg m cs mf
      \<and> (\<exists>n. e = next_effect dg mf (projr (payload_for dg rt B m mf)) cs n)
      \<and> consumer_occurrence dg mf m = Inr (py_occurrence (ef_payload e))" if e: "e \<in> set (pl_effects pl)" for e
  proof -
    obtain n mf where mf: "mf \<in> set (gr_topology g)" "has_sample dg m cs mf"
        "e = next_effect dg mf (projr (payload_for dg rt B m mf)) cs n"
      using planned_effects [OF es e] by auto
    then have "plannable dg rt B m cs mf" using can by blast
    then obtain p where "payload_for dg rt B m mf = Inr p" "canonical_text (mf_id mf)"
      using mf(2) by (auto simp: plannable_def has_sample_def)
    then show ?thesis
      using mf payload_occurrence [of dg rt B m mf p] by (intro bexI [of _ mf] conjI exI [of _ n]) simp_all
  qed
  then have "check_fresh cs (pl_effects pl) = Inr ()" by (intro fresh_effects) force
  moreover have "map ef_consumer (pl_effects pl) = map mf_id (filter (has_sample dg m cs) (gr_topology g))"
    unfolding es by (rule planned_consumers)
  moreover have "\<exists>mf \<in> set (gr_topology g).
            ef_consumer e = mf_id mf \<and> ef_uri e = mf_uri mf \<and> ef_mode e = mf_mode mf \<and> ef_action e = mf_action mf
            \<and> consumer_is_due mf m = Inr True \<and> consumer_occurrence dg mf m = Inr (py_occurrence (ef_payload e))
            \<and> ef_before e = cursor_of cs (mf_id mf) \<and> cu_last (ef_before e) \<noteq> cu_last (ef_after e)
            \<and> cu_last (ef_after e) = Some (py_occurrence (ef_payload e))
            \<and> cu_samples (ef_after e) = Suc (cu_samples (ef_before e))" if e: "e \<in> set (pl_effects pl)" for e
  proof -
    obtain mf n where mf: "mf \<in> set (gr_topology g)" "has_sample dg m cs mf"
        "e = next_effect dg mf (projr (payload_for dg rt B m mf)) cs n"
        "consumer_occurrence dg mf m = Inr (py_occurrence (ef_payload e))"
      using each [OF e] by blast
    then show ?thesis by (intro bexI [of _ mf]) (auto simp: has_sample_def)
  qed
  ultimately show ?thesis by blast
qed

lemma advance_other: "k \<notin> (cu_consumer \<circ> ef_after) ` set es \<Longrightarrow> advance es f k = f k"
  unfolding advance_def by (induction es arbitrary: f) auto

lemma advance_own:
  "e \<in> set es \<Longrightarrow> distinct (map (cu_consumer \<circ> ef_after) es) \<Longrightarrow> advance es f (cu_consumer (ef_after e)) = ef_after e"
proof (induction es arbitrary: f)
  case (Cons d es)
  have step: "advance (d # es) f = advance es (f(cu_consumer (ef_after d) := ef_after d))" by (simp add: advance_def)
  show ?case
  proof (cases "e \<in> set es")
    case False
    then show ?thesis using Cons.prems advance_other [of "cu_consumer (ef_after e)" es] by (auto simp: step)
  qed (use Cons in \<open>simp add: step\<close>)
qed simp

text \<open>After an accepted transaction, the cursor of every due consumer names the occurrence, unless its
  sample was skipped; and nothing else has moved.\<close>

lemma cursors_after_acceptance:
  assumes plan: "plan_accepted_side_effects dg rt g m cs = Inr pl" and ids: "distinct (map mf_id (gr_topology g))"
    and tx: "new_transaction P pl cs w = (Inr (), t, w1)" "accept P t w1 = (Inr rp, t', w')" "cursors_ok cs"
    and mf: "mf \<in> set (gr_topology g)"
  shows "(has_sample dg m (rp_cursors rp) mf \<longrightarrow> has_sample dg m cs mf
            \<and> (\<exists>e \<in> set (pl_effects pl). ef_consumer e = mf_id mf \<and> ef_action e = Skip_Sample_Reported
                 \<and> ef_identity e \<in> sk_effect ` set (rp_skipped rp)))"
proof
  assume again: "has_sample dg m (rp_cursors rp) mf"
  obtain published skipped where served: "mset (pl_effects pl) = mset published + mset skipped"
      "subseq published (pl_effects pl)" "skips skipped (rp_skipped rp)"
      "cursor_of (rp_cursors rp) = advance published (cursor_of cs)"
    using accepted_serves_exactly [OF tx] unfolding served_exactly_def by blast
  obtain B where es: "pl_effects pl = map (\<lambda>(n, mf). next_effect dg mf (projr (payload_for dg rt B m mf)) cs n)
           (enumerate 0 (filter (has_sample dg m cs) (gr_topology g)))"
    and can: "\<forall>mf \<in> set (gr_topology g). plannable dg rt B m cs mf"
    using planned_shape [OF plan] by blast
  have after: "cu_consumer (ef_after e) = ef_consumer e" if "e \<in> set (pl_effects pl)" for e
    using planned_effects [OF es that] by auto
  have all: "set (pl_effects pl) = set published \<union> set skipped" using arg_cong [OF served(1), of set_mset] by simp
  have "map ef_consumer (pl_effects pl) = map mf_id (filter (has_sample dg m cs) (gr_topology g))"
    unfolding es by (rule planned_consumers)
  then have "distinct (map ef_consumer (pl_effects pl))" using ids by (simp add: distinct_map_filter)
  then have "distinct (map ef_consumer published)" 
    using mset_eq_imp_distinct_iff [of "map ef_consumer (pl_effects pl)" "map ef_consumer (published @ skipped)"] served(1) by simp
  moreover have same: "map (cu_consumer \<circ> ef_after) published = map ef_consumer published"
    using after all by simp
  ultimately have apart: "distinct (map (cu_consumer \<circ> ef_after) published)" by (simp only:)
  have names: "(cu_consumer \<circ> ef_after) ` set published = ef_consumer ` set published"
    using arg_cong [OF same, of set] by simp
  obtain occ where occ: "consumer_is_due mf m = Inr True" "consumer_occurrence dg mf m = Inr occ"
      "cu_last (cursor_of (rp_cursors rp) (mf_id mf)) \<noteq> Some occ"
    using again by (auto simp: has_sample_def split: sum.splits)
  have unpublished: "ef_consumer e \<noteq> mf_id mf" if "e \<in> set published" for e
  proof
    assume c: "ef_consumer e = mf_id mf"
    have e: "e \<in> set (pl_effects pl)" using that all by blast
    obtain n mf' where e': "mf' \<in> set (gr_topology g)" "has_sample dg m cs mf'"
        "e = next_effect dg mf' (projr (payload_for dg rt B m mf')) cs n"
      using planned_effects [OF es e] by auto
    then have "mf' = mf" using c mf ids by (simp add: distinct_map inj_on_def)
    moreover obtain p where "payload_for dg rt B m mf' = Inr p" using can e'(1,2) by (auto simp: plannable_def)
    ultimately have "cu_last (ef_after e) = Some occ" using e'(3) occ(2) payload_occurrence [of dg rt B m mf p] by simp
    then show False using occ(3) advance_own [OF that apart, of "cursor_of cs"] after [OF e] c served(4) by simp
  qed
  then have "mf_id mf \<notin> (cu_consumer \<circ> ef_after) ` set published" unfolding names using unpublished by (metis imageE)
  then have unchanged: "cursor_of (rp_cursors rp) (mf_id mf) = cursor_of cs (mf_id mf)"
    unfolding served(4) by (rule advance_other)
  then have had: "has_sample dg m cs mf" using again occ(2) by (simp add: has_sample_def)
  then have "mf_id mf \<in> set (map ef_consumer (pl_effects pl))"
    unfolding es planned_consumers using mf by simp
  then obtain e where e: "e \<in> set (pl_effects pl)" "ef_consumer e = mf_id mf" by auto
  then have "e \<in> set skipped" using unpublished all by blast
  then have "ef_action e = Skip_Sample_Reported" "ef_identity e \<in> sk_effect ` set (rp_skipped rp)"
    using served(3) by (auto simp: skips_def) (metis image_eqI image_set)
  then show "has_sample dg m cs mf \<and> (\<exists>e \<in> set (pl_effects pl). ef_consumer e = mf_id mf \<and> ef_action e = Skip_Sample_Reported
                 \<and> ef_identity e \<in> sk_effect ` set (rp_skipped rp))"
    using had e by blast
qed

lemma graph_ids:
  assumes "traverse (mk_manifest md) authored = Inr ms" and "mk_graph gd ms = Inr g"
  shows "distinct (map mf_id (gr_topology g)) \<and> set (gr_topology g) = set ms \<and> set (gr_nodes g) = set ms"
proof -
  note checks = mk_graph_checks [OF built_deps [OF assms(1)], of gd]
  have ids: "distinct (map mf_id ms)" and perm: "mset (gr_topology g) = mset ms" and nodes: "gr_nodes g = sort_key mf_id ms"
    using checks assms(2) by (auto split: if_splits)
  then show ?thesis using distinct_keys_permuted [OF perm, of mf_id] mset_eq_setD [OF perm] by simp
qed

lemma built_manifest:
  "traverse (mk_manifest md) authored = Inr ms \<Longrightarrow> mf \<in> set ms \<Longrightarrow> \<exists>m0. mk_manifest md m0 = Inr mf"
  by (auto simp: traverse_Inr_iff list_all2_conv_all_nth in_set_conv_nth)

text \<open>
  Claim C13. Planning the same moment again, from the cursors an accepted transaction reports, succeeds
  and offers no sample twice: only consumers whose sample that transaction skipped and reported, which
  only a consumer that asks for it can be, are planned again, and nothing is when none was skipped.
\<close>

theorem replanning_offers_only_skipped:
  assumes "traverse (mk_manifest md) authored = Inr ms" and "mk_graph gd ms = Inr g"
    and "plan_accepted_side_effects dg rt g m cs = Inr pl"
    and "new_transaction P pl cs w = (Inr (), t, w1)" and "accept P t w1 = (Inr rp, t', w')" and "cursors_ok cs"
  shows "\<exists>pl'. plan_accepted_side_effects dg rt g m (rp_cursors rp) = Inr pl'
      \<and> (\<forall>e' \<in> set (pl_effects pl'). \<exists>e \<in> set (pl_effects pl). ef_consumer e = ef_consumer e'
           \<and> ef_action e = Skip_Sample_Reported \<and> ef_identity e \<in> sk_effect ` set (rp_skipped rp))
      \<and> (rp_skipped rp = [] \<longrightarrow> pl_effects pl' = [])"
proof -
  have ids: "distinct (map mf_id (gr_topology g))" using graph_ids [OF assms(1,2)] by blast
  note after = cursors_after_acceptance [OF assms(3) ids assms(4-6)]
  obtain pl' where pl': "plan_accepted_side_effects dg rt g m (rp_cursors rp) = Inr pl'"
      "map ef_consumer (pl_effects pl') = map mf_id (filter (has_sample dg m (rp_cursors rp)) (gr_topology g))"
    using planned_again [OF assms(3), of "rp_cursors rp"] after by blast
  have each: "\<exists>e \<in> set (pl_effects pl). ef_consumer e = ef_consumer e'
           \<and> ef_action e = Skip_Sample_Reported \<and> ef_identity e \<in> sk_effect ` set (rp_skipped rp)"
    if "e' \<in> set (pl_effects pl')" for e'
  proof -
    have "ef_consumer e' \<in> set (map ef_consumer (pl_effects pl'))" using that by simp
    then show ?thesis unfolding pl'(2) using after by force
  qed
  moreover have "pl_effects pl' = []" if "rp_skipped rp = []"
    using each [of "hd (pl_effects pl')"] that by (cases "pl_effects pl'") auto
  ultimately show ?thesis using pl'(1) by blast
qed

text \<open>
  Claim C36. Two accepted steps that land on the same point of a consumer's physical lattice, such as two
  binary64 times that differ by roundoff, give it one sample: once the first has been published, the
  plan of the second does not offer it. A step at another lattice index does.
\<close>

theorem lattice_sample_offered_once:
  assumes "traverse (mk_manifest md) authored = Inr ms" and "mk_graph gd ms = Inr g"
    and "plan_accepted_side_effects dg rt g m cs = Inr pl"
    and "new_transaction P pl cs w = (Inr (), t, w1)" and "accept P t w1 = (Inr rp, t', w')" and "cursors_ok cs"
    and "rp_skipped rp = []"
    and "mf \<in> set ms" and "tg_kind (sc_trigger (mf_schedule mf)) = EveryDt I" and "mf_clock mf = tp_clock (mo_point m)"
    and "dm_kind (tg_domain (sc_trigger (mf_schedule mf))) = AcceptedStep" and "\<not> mo_at_start m"
    and "every_dt_occurrence I (mo_time m) = Inr (Some k)"
    and "plan_accepted_side_effects dg rt g m2 (rp_cursors rp) = Inr pl2"
    and "every_dt_occurrence I (mo_time m2) = Inr (Some k2)"
  shows "(k2 = k \<longrightarrow> mf_id mf \<notin> ef_consumer ` set (pl_effects pl2))
       \<and> (dg_occurrence dg (mf_id mf) (mf_schedule mf) (LatticeSample k2) \<noteq> dg_occurrence dg (mf_id mf) (mf_schedule mf) (LatticeSample k)
           \<and> mf_clock mf = tp_clock (mo_point m2) \<and> \<not> mo_at_start m2 \<longrightarrow> mf_id mf \<in> ef_consumer ` set (pl_effects pl2))"
proof -
  have ids: "distinct (map mf_id (gr_topology g))" and members: "set (gr_topology g) = set ms"
    using graph_ids [OF assms(1,2)] by blast+
  have due: "consumer_is_due mf x = Inr True" if "mf_clock mf = tp_clock (mo_point x)" "\<not> mo_at_start x"
      "every_dt_occurrence I (mo_time x) = Inr (Some j)" for x j
    using that assms(9,11)
    by (auto simp: consumer_is_due_def schedule_coordinate_def domain_coordinate_def trigger_due_def every_dt_due_def
        every_dt_occurrence_def Let_def split: if_splits)
  have occ: "consumer_occurrence dg mf x = Inr (dg_occurrence dg (mf_id mf) (mf_schedule mf) (LatticeSample j))"
    if "every_dt_occurrence I (mo_time x) = Inr (Some j)" for x j
    using that assms(9) by (simp add: consumer_occurrence_def consumer_evidence_def trigger_evidence_def)
  have "\<not> has_sample dg m (rp_cursors rp) mf"
    using cursors_after_acceptance [OF assms(3) ids assms(4-6), of mf] assms(7,8) members by auto
  then have last: "cu_last (cursor_of (rp_cursors rp) (mf_id mf)) = Some (dg_occurrence dg (mf_id mf) (mf_schedule mf) (LatticeSample k))"
    using due [OF assms(10,12,13)] occ [OF assms(13)] by (simp add: has_sample_def)
  have "map ef_consumer (pl_effects pl2) = map mf_id (filter (has_sample dg m2 (rp_cursors rp)) (gr_topology g))"
    using plan_serves [OF assms(14)] .
  then have offered: "ef_consumer ` set (pl_effects pl2) = mf_id ` {n \<in> set ms. has_sample dg m2 (rp_cursors rp) n}"
    unfolding members [symmetric] by (metis list.set_map set_filter)
  have inj: "inj_on mf_id (set ms)" using ids members by (simp add: distinct_map)
  have "mf_id mf \<in> ef_consumer ` set (pl_effects pl2) \<longleftrightarrow> has_sample dg m2 (rp_cursors rp) mf"
    unfolding offered using inj assms(8) by (auto simp: inj_on_def)
  then show ?thesis using last occ [OF assms(15)] due [OF _ _ assms(15)] by (auto simp: has_sample_def)
qed

text \<open>
  Before the first step only consumers scheduled at the start are planned, and none that
  carries an accepted balance, whose evidence does not exist yet.
\<close>

theorem start_plans_no_balance:
  assumes "traverse (mk_manifest md) authored = Inr ms" and "mk_graph gd ms = Inr g"
    and "plan_accepted_side_effects dg rt g m cs = Inr pl" and "mo_at_start m" and "e \<in> set (pl_effects pl)"
  shows "\<exists>mf \<in> set ms. mf_id mf = ef_consumer e \<and> tg_kind (sc_trigger (mf_schedule mf)) = AtStart \<and> \<not> has_accepted_balance mf"
proof -
  have "ef_consumer e \<in> set (map ef_consumer (pl_effects pl))" using assms(5) by simp
  then obtain mf where mf: "mf \<in> set ms" "mf_id mf = ef_consumer e" "has_sample dg m cs mf"
    unfolding plan_serves [OF assms(3)] using graph_ids [OF assms(1,2)] by auto
  have start: "tg_kind (sc_trigger (mf_schedule mf)) = AtStart"
    using mf(3) assms(4)
    by (auto simp: has_sample_def consumer_is_due_def trigger_due_def every_dt_due_def split: option.splits trigger_kind.splits)
  then have "\<not> has_accepted_balance mf"
    using built_manifest [OF assms(1) mf(1)] by (auto dest!: mk_manifest_value simp: may_fire_at_start_def)
  then show ?thesis using mf start by blast
qed

lemma deadline_loop:
  assumes "foldR (deadline_step moments) ms ds = Inr ds'" and "distinct (map (tp_clock \<circ> mo_point) moments)"
  shows "set ds' = set ds \<union> {d. \<exists>mf \<in> set ms. \<exists>m \<in> set moments. tp_clock (mo_point m) = mf_clock mf
            \<and> trigger_deadline (sc_trigger (mf_schedule mf)) (mo_time m) = Inr (Some d)}
       \<and> (\<forall>mf \<in> set ms. \<forall>m \<in> set moments. tp_clock (mo_point m) = mf_clock mf \<longrightarrow>
            (\<exists>o'. trigger_deadline (sc_trigger (mf_schedule mf)) (mo_time m) = Inr o' \<and> (\<forall>d. o' = Some d \<longrightarrow> mo_time m < d)))"
  using assms(1)
proof (induction ms arbitrary: ds)
  case (Cons mf ms)
  obtain ds1 where ds1: "deadline_step moments mf ds = Inr ds1" "foldR (deadline_step moments) ms ds1 = Inr ds'"
    using Cons.prems by auto
  have one: "find (\<lambda>m. tp_clock (mo_point m) = mf_clock mf) moments = Some m \<longleftrightarrow> m \<in> set moments \<and> tp_clock (mo_point m) = mf_clock mf" for m
    using find_distinct_key [OF assms(2), of "mf_clock mf" m] by simp
  have "set ds1 = set ds \<union> {d. \<exists>m \<in> set moments. tp_clock (mo_point m) = mf_clock mf
            \<and> trigger_deadline (sc_trigger (mf_schedule mf)) (mo_time m) = Inr (Some d)}
       \<and> (\<forall>m \<in> set moments. tp_clock (mo_point m) = mf_clock mf \<longrightarrow>
            (\<exists>o'. trigger_deadline (sc_trigger (mf_schedule mf)) (mo_time m) = Inr o' \<and> (\<forall>d. o' = Some d \<longrightarrow> mo_time m < d)))"
  proof (cases "find (\<lambda>m. tp_clock (mo_point m) = mf_clock mf) moments")
    case None
    then have "ds1 = ds" using ds1(1) by (simp add: deadline_step_def)
    then show ?thesis using None by (auto simp: find_None_iff)
  next
    case (Some m)
    then have m: "m \<in> set moments" "tp_clock (mo_point m) = mf_clock mf" using one by auto
    have only: "m' = m" if "m' \<in> set moments" "tp_clock (mo_point m') = mf_clock mf" for m'
      using that one [of m'] Some by simp
    obtain o' where o': "trigger_deadline (sc_trigger (mf_schedule mf)) (mo_time m) = Inr o'"
        "ds1 = (case o' of None \<Rightarrow> ds | Some d \<Rightarrow> ds @ [d])" "\<forall>d. o' = Some d \<longrightarrow> mo_time m < d"
      using ds1(1) by (auto simp: deadline_step_def Some split: option.splits)
    have "{d. \<exists>m' \<in> set moments. tp_clock (mo_point m') = mf_clock mf
            \<and> trigger_deadline (sc_trigger (mf_schedule mf)) (mo_time m') = Inr (Some d)} = {d. o' = Some d}"
    proof -
      have "{d. \<exists>m' \<in> set moments. tp_clock (mo_point m') = mf_clock mf
            \<and> trigger_deadline (sc_trigger (mf_schedule mf)) (mo_time m') = Inr (Some d)}
          = {d. trigger_deadline (sc_trigger (mf_schedule mf)) (mo_time m) = Inr (Some d)}"
        using m only by blast
      then show ?thesis by (simp add: o'(1))
    qed
    moreover have "set ds1 = set ds \<union> {d. o' = Some d}" unfolding o'(2) by (cases o') auto
    ultimately show ?thesis using o'(1,3) only by (simp only: simp_thms) blast
  qed
  then show ?case using Cons.IH [OF ds1(2)] by auto
qed simp

text \<open>
  The deadline of a run is the earliest next lattice point among the consumers whose clock has
  a moment, and lies after the accepted time of each of them; there is none exactly when no such
  consumer counts on a physical lattice.
\<close>

theorem next_deadline_is_earliest:
  assumes "next_consumer_deadline g moments = Inr r"
  shows "(\<forall>mf \<in> set (gr_nodes g). \<forall>m \<in> set moments. \<forall>I. tp_clock (mo_point m) = mf_clock mf
            \<and> tg_kind (sc_trigger (mf_schedule mf)) = EveryDt I \<longrightarrow>
            (\<exists>d e. r = Some d \<and> every_dt_deadline I (mo_time m) = Inr e \<and> d \<le> e \<and> mo_time m < e))
       \<and> (\<forall>d. r = Some d \<longrightarrow> (\<exists>mf \<in> set (gr_nodes g). \<exists>m \<in> set moments. \<exists>I. tp_clock (mo_point m) = mf_clock mf
            \<and> tg_kind (sc_trigger (mf_schedule mf)) = EveryDt I \<and> every_dt_deadline I (mo_time m) = Inr d))"
proof -
  obtain ds where dist: "distinct (map (tp_clock \<circ> mo_point) moments)" and ds: "foldR (deadline_step moments) (gr_nodes g) [] = Inr ds"
    and r: "r = (if ds = [] then None else Some (Min (set ds)))"
    using assms by (auto simp: next_consumer_deadline_def)
  note loop = deadline_loop [OF ds dist]
  have lattice: "trigger_deadline t now = Inr (Some d) \<longleftrightarrow> (\<exists>I. tg_kind t = EveryDt I \<and> every_dt_deadline I now = Inr d)"
    for t :: "'a trigger" and now d
    by (auto simp: trigger_deadline_def split: trigger_kind.split)
  have "\<exists>d e. r = Some d \<and> every_dt_deadline I (mo_time m) = Inr e \<and> d \<le> e \<and> mo_time m < e"
    if mf: "mf \<in> set (gr_nodes g)" and m: "m \<in> set moments" "tp_clock (mo_point m) = mf_clock mf"
      and I: "tg_kind (sc_trigger (mf_schedule mf)) = EveryDt I" for mf m I
  proof -
    obtain o' where o': "trigger_deadline (sc_trigger (mf_schedule mf)) (mo_time m) = Inr o'" "\<forall>d. o' = Some d \<longrightarrow> mo_time m < d"
      using loop mf m by blast
    then obtain e where e: "every_dt_deadline I (mo_time m) = Inr e" "o' = Some e" by (auto simp: trigger_deadline_def I)
    then have "e \<in> set ds" using loop mf m o'(1) by auto
    then show ?thesis using e o'(2) r by auto
  qed
  moreover have "\<exists>mf \<in> set (gr_nodes g). \<exists>m \<in> set moments. \<exists>I. tp_clock (mo_point m) = mf_clock mf
            \<and> tg_kind (sc_trigger (mf_schedule mf)) = EveryDt I \<and> every_dt_deadline I (mo_time m) = Inr d" if "r = Some d" for d
  proof -
    have "ds \<noteq> []" "d = Min (set ds)" using that r by (auto split: if_splits)
    then have "d \<in> set ds" using Min_in [of "set ds"] by simp
    then show ?thesis using loop lattice by auto
  qed
  ultimately show ?thesis by blast
qed

section \<open>Concrete plans\<close>

definition sample_digests :: "unit digests" where
  "sample_digests =
     \<lparr>dg_occurrence = (\<lambda>name _ ev. case ev of LatticeSample k \<Rightarrow> name @ ''-lattice'' @ replicate (nat k) CHR ''i''
                        | DomainSample c _ _ \<Rightarrow> name @ ''-step'' @ (case c of None \<Rightarrow> [] | Some n \<Rightarrow> replicate n CHR ''i'')),
      dg_context = (\<lambda>_. ''context''), dg_payload = (\<lambda>_ occ _ _. occ @ ''-payload''), dg_effect = (\<lambda>e. ef_consumer e @ ''-effect'')\<rparr>"

definition sample_runtime :: runtime_plan where
  "sample_runtime = \<lparr>rt_identity = ''runtime'', rt_calls = [], rt_communicator = ''serial'', rt_collectives = []\<rparr>"

definition sample_moment :: "bool \<Rightarrow> rat \<Rightarrow> moment" where
  "sample_moment at_start now =
     \<lparr>mo_point = \<lparr>tp_clock = main_clock, tp_offset = \<lparr>lit_body = LInteger 0, lit_unit = None, lit_target = None, lit_cpp = None\<rparr>,
                 tp_step = 1\<rparr>,
      mo_accepted = 1, mo_attempt = 1, mo_time = now, mo_clock_tick = 1, mo_wall_tick = 0, mo_stage = None, mo_level = None,
      mo_events = [], mo_layouts = [], mo_at_start = at_start, mo_at_end = False\<rparr>"

definition step_plan :: plan where
  "step_plan = projr (plan_accepted_side_effects sample_digests sample_runtime sample_graph (sample_moment False 0) [])"

lemma step_planned: "plan_accepted_side_effects sample_digests sample_runtime sample_graph (sample_moment False 0) [] = Inr step_plan"
proof -
  have "is_value (plan_accepted_side_effects sample_digests sample_runtime sample_graph (sample_moment False 0) [])"
    by code_simp
  then show ?thesis by (auto simp: step_plan_def is_value_iff)
qed

lemma sample_nodes_built:
  "traverse (mk_manifest mf_id) (gr_nodes sample_graph) = Inr (gr_nodes sample_graph)"
  "mk_graph (\<lambda>_ _. ''graph'') (gr_nodes sample_graph) = Inr sample_graph"
  by code_simp+

theorem plan_serves_due_samples_witness:
  "map ef_consumer (pl_effects step_plan) = [''c'', ''b'', ''a''] \<and> check_fresh [] (pl_effects step_plan) = Inr ()"
proof -
  have "map mf_id (filter (has_sample sample_digests (sample_moment False 0) []) (gr_topology sample_graph)) = [''c'', ''b'', ''a'']"
    by code_simp
  then show ?thesis using plan_serves_due_samples [OF step_planned] by simp
qed

lemma step_staged: "fst (new_transaction (sample_publisher None None) step_plan [] sample_registry) = Inr ()"
  by code_simp

lemma step_accepted:
  "case new_transaction (sample_publisher None None) step_plan [] sample_registry of (_, t, w) \<Rightarrow>
     (case accept (sample_publisher None None) t w of
        (Inr rp, _, _) \<Rightarrow> map rc_effect (rp_published rp) = [''c-effect'', ''b-effect'', ''a-effect''] \<and> rp_skipped rp = []
      | _ \<Rightarrow> False)"
  by code_simp

theorem replanning_offers_only_skipped_witness:
  "\<exists>(rp::report) pl'. length (rp_published rp) = 3
     \<and> plan_accepted_side_effects sample_digests sample_runtime sample_graph (sample_moment False 0) (rp_cursors rp) = Inr pl'
     \<and> pl_effects pl' = []"
proof -
  obtain t w where new: "new_transaction (sample_publisher None None) step_plan [] sample_registry = (Inr (), t, w)"
    using step_staged by (metis prod.collapse)
  then obtain rp t' w' where rp: "accept (sample_publisher None None) t w = (Inr rp, t', w')" "rp_skipped rp = []"
      "map rc_effect (rp_published rp) = [''c-effect'', ''b-effect'', ''a-effect'']"
    using step_accepted by (auto split: prod.splits sum.splits)
  have "cursors_ok []" by (simp add: cursors_ok_def)
  from replanning_offers_only_skipped [OF sample_nodes_built step_planned new rp(1) this] rp(2)
  obtain pl' where "plan_accepted_side_effects sample_digests sample_runtime sample_graph (sample_moment False 0) (rp_cursors rp) = Inr pl'"
      "pl_effects pl' = []" by blast
  moreover have "length (rp_published rp) = 3" using arg_cong [OF rp(3), of length] by simp
  ultimately show ?thesis by blast
qed

text \<open>One consumer, with a trigger of its own.\<close>

definition single_node :: "unit trigger_kind \<Rightarrow> unit manifest" where
  "single_node k = (sample_node ''a'' Monitor [])\<lparr>mf_schedule := \<lparr>sc_trigger = \<lparr>tg_domain = step_domain, tg_kind = k\<rparr>, sc_off = None\<rparr>\<rparr>"

definition single_graph :: "unit trigger_kind \<Rightarrow> unit consumer_graph" where
  "single_graph k = \<lparr>gr_nodes = [single_node k], gr_topology = [single_node k], gr_identity = ''graph''\<rparr>"

lemma sample_texts [simp]: "canonical_text ''a''" "canonical_text ''a-latticei''"
  by code_simp+

lemma single_built:
  "traverse (mk_manifest mf_id) [single_node k] = Inr [single_node k]"
  "mk_graph (\<lambda>_ _. ''graph'') [single_node k] = Inr (single_graph k)"
proof -
  show "traverse (mk_manifest mf_id) [single_node k] = Inr [single_node k]"
    by (simp add: mk_manifest_def single_node_def sample_node_def check_text_def check_providers_def has_accepted_balance_def Let_def)
  show "mk_graph (\<lambda>_ _. ''graph'') [single_node k] = Inr (single_graph k)"
    by (simp add: mk_graph_def single_node_def single_graph_def sample_node_def Let_def followers_def manifest_by_id_def
        List.map_filter_simps)
qed

lemma single_planned:
  assumes "consumer_is_due (single_node k) m = Inr True" and "consumer_occurrence sample_digests (single_node k) m = Inr occ"
    and "canonical_text occ" and "tp_clock (mo_point m) = main_clock"
  shows "plan_accepted_side_effects sample_digests sample_runtime (single_graph k) m [] =
     Inr \<lparr>pl_graph = ''graph'', pl_runtime = ''runtime'',
          pl_effects = [next_effect sample_digests (single_node k) \<lparr>py_identity = occ @ ''-payload'', py_occurrence = occ\<rparr> [] 0]\<rparr>"
proof -
  have node: "mf_id (single_node k) = ''a''" "mf_clock (single_node k) = main_clock" "mf_quantities (single_node k) = []"
      "mf_uri (single_node k) = ''a''" "resource_bindings sample_runtime (single_node k) = Inr []"
    by (simp_all add: single_node_def sample_node_def step_domain_def resource_bindings_def resource_rows_def sample_runtime_def)
  have p: "payload_for sample_digests sample_runtime [(''a'', [])] m (single_node k) =
      Inr \<lparr>py_identity = occ @ ''-payload'', py_occurrence = occ\<rparr>"
    using assms(2) by (simp add: payload_for_def node sample_digests_def)
  have has: "has_sample sample_digests m [] (single_node k)"
    using assms(1,2) by (simp add: has_sample_def cursor_of_def)
  then have "plannable sample_digests sample_runtime [(''a'', [])] m [] (single_node k)"
    using assms p by (simp add: plannable_def node)
  then have "plan_consumer sample_digests sample_runtime [(''a'', [])] m [] (single_node k) []
      = Inr [next_effect sample_digests (single_node k) \<lparr>py_identity = occ @ ''-payload'', py_occurrence = occ\<rparr> [] 0]"
    using has p by (simp add: plan_consumer_iff)
  then show ?thesis
    using assms(4)
    by (simp add: plan_accepted_side_effects_def single_graph_def node Let_def coverage_rows_def mk_coverage_def mk_plan_def
        sample_runtime_def [symmetric]) (simp add: sample_runtime_def)
qed

lemma lattice_moment:
  defines "m \<equiv> sample_moment False (lattice_point three_tenths 1)"
  shows "every_dt_occurrence three_tenths (mo_time m) = Inr (Some 1)"
    and "consumer_is_due (single_node (EveryDt three_tenths)) m = Inr True"
    and "consumer_occurrence sample_digests (single_node (EveryDt three_tenths)) m = Inr ''a-latticei''"
proof -
  have range: "in_range three_tenths 1" by (simp add: in_range_def three_tenths_def)
  note due = lattice_point_due [OF three_tenths_ok range]
  show occ: "every_dt_occurrence three_tenths (mo_time m) = Inr (Some 1)" using due by (simp add: m_def sample_moment_def)
  show "consumer_is_due (single_node (EveryDt three_tenths)) m = Inr True"
    using due by (simp add: consumer_is_due_def schedule_coordinate_def single_node_def domain_coordinate_def step_domain_def
        trigger_due_def m_def sample_moment_def)
  show "consumer_occurrence sample_digests (single_node (EveryDt three_tenths)) m = Inr ''a-latticei''"
    using occ by (simp add: consumer_occurrence_def consumer_evidence_def trigger_evidence_def single_node_def sample_node_def
        sample_digests_def)
qed

definition lattice_plan :: plan where
  "lattice_plan = \<lparr>pl_graph = ''graph'', pl_runtime = ''runtime'',
     pl_effects = [next_effect sample_digests (single_node (EveryDt 1)) \<lparr>py_identity = ''a-latticei-payload'', py_occurrence = ''a-latticei''\<rparr> [] 0]\<rparr>"

lemma lattice_planned:
  "plan_accepted_side_effects sample_digests sample_runtime (single_graph (EveryDt three_tenths))
     (sample_moment False (lattice_point three_tenths 1)) [] = Inr lattice_plan"
proof -
  have "next_effect sample_digests (single_node (EveryDt three_tenths)) p [] 0 = next_effect sample_digests (single_node (EveryDt 1)) p [] 0" for p
    by (simp add: next_effect_def single_node_def sample_node_def)
  then show ?thesis
    using single_planned [OF lattice_moment(2,3)] by (simp add: lattice_plan_def sample_moment_def)
qed

lemma lattice_accepted:
  "case new_transaction (sample_publisher None None) lattice_plan [] sample_registry of (Inr _, t, w) \<Rightarrow>
     (case accept (sample_publisher None None) t w of
        (Inr rp, _, _) \<Rightarrow> rp_skipped rp = [] \<and> map cu_last (rp_cursors rp) = [Some ''a-latticei'']
      | _ \<Rightarrow> False)
   | _ \<Rightarrow> False"
  by code_simp

theorem lattice_sample_offered_once_witness:
  "\<exists>rp::report. map cu_last (rp_cursors rp) = [Some ''a-latticei'']
     \<and> (\<forall>pl. plan_accepted_side_effects sample_digests sample_runtime (single_graph (EveryDt three_tenths))
              (sample_moment False (lattice_point three_tenths 1)) (rp_cursors rp) = Inr pl \<longrightarrow> ''a'' \<notin> ef_consumer ` set (pl_effects pl))"
proof -
  obtain t w rp t' w' where new: "new_transaction (sample_publisher None None) lattice_plan [] sample_registry = (Inr (), t, w)"
    and rp: "accept (sample_publisher None None) t w = (Inr rp, t', w')" "rp_skipped rp = []"
      "map cu_last (rp_cursors rp) = [Some ''a-latticei'']"
    using lattice_accepted by (auto split: prod.splits sum.splits)
  have fresh: "cursors_ok []" by (simp add: cursors_ok_def)
  let ?m = "sample_moment False (lattice_point three_tenths 1)"
  have "mf_id (single_node (EveryDt three_tenths)) \<notin> ef_consumer ` set (pl_effects pl)"
    if "plan_accepted_side_effects sample_digests sample_runtime (single_graph (EveryDt three_tenths)) ?m (rp_cursors rp) = Inr pl" for pl
    using lattice_sample_offered_once [OF single_built lattice_planned new rp(1) fresh rp(2) _ _ _ _ _ lattice_moment(1) that lattice_moment(1)]
    by (simp add: single_node_def sample_node_def step_domain_def sample_moment_def)
  then show ?thesis using rp(3) by (intro exI [of _ rp]) (simp add: single_node_def sample_node_def)
qed

definition start_plan :: plan where
  "start_plan = projr (plan_accepted_side_effects sample_digests sample_runtime (single_graph AtStart) (sample_moment True 0) [])"

theorem start_plans_no_balance_witness:
  "map ef_consumer (pl_effects start_plan) = [''a''] \<and> \<not> has_accepted_balance (single_node AtStart)"
proof -
  have plan: "plan_accepted_side_effects sample_digests sample_runtime (single_graph AtStart) (sample_moment True 0) [] = Inr start_plan"
    and names: "map ef_consumer (pl_effects start_plan) = [''a'']"
  proof -
    have "is_value (plan_accepted_side_effects sample_digests sample_runtime (single_graph AtStart) (sample_moment True 0) [])"
      by code_simp
    then show "plan_accepted_side_effects sample_digests sample_runtime (single_graph AtStart) (sample_moment True 0) [] = Inr start_plan"
      by (auto simp: start_plan_def is_value_iff)
    show "map ef_consumer (pl_effects start_plan) = [''a'']" by code_simp
  qed
  obtain e where "e \<in> set (pl_effects start_plan)" using names by (cases "pl_effects start_plan") auto
  from start_plans_no_balance [OF single_built plan _ this] names show ?thesis by (simp add: sample_moment_def)
qed

theorem next_deadline_is_earliest_witness:
  "next_consumer_deadline (single_graph (EveryDt three_tenths)) [sample_moment False 0] = Inr (Some (lattice_point three_tenths 1))
     \<and> 0 < lattice_point three_tenths 1"
proof -
  have range: "in_range three_tenths 1" by (simp add: in_range_def three_tenths_def)
  note first = first_deadline(1) [OF three_tenths_ok range] and pos = lattice_point(4) [OF three_tenths_ok range]
  have "next_consumer_deadline (single_graph (EveryDt three_tenths)) [sample_moment False 0] = Inr (Some (lattice_point three_tenths 1))"
    using first pos
    by (simp add: next_consumer_deadline_def single_graph_def deadline_step_def sample_moment_def single_node_def step_domain_def
        trigger_deadline_def)
  then show ?thesis
    using next_deadline_is_earliest [of "single_graph (EveryDt three_tenths)" "[sample_moment False 0]"] first
    by (fastforce simp: single_graph_def single_node_def sample_moment_def step_domain_def)
qed

end
