(* ===== verification/Pops_Strategy.thy ===== *)
theory Pops_Strategy
  imports Pops_Float
begin

text \<open>
  The step strategies of \<open>python/pops/time/_step/strategy.py\<close>: the four registered descriptors with
  the checks of their constructors, the runtime controls each accepts, and the restart manifest,
  written by \<open>run_control_payload\<close> and read back by \<open>validate_step_strategy_manifest\<close>. A canonical
  hexadecimal literal is the number it spells.
\<close>

section \<open>Numbers a caller passes\<close>

text \<open>\<open>NumOther\<close> is every value that is neither a \<open>bool\<close>, an \<open>int\<close> nor a \<open>float\<close>.\<close>

datatype num = NumBool bool | NumInt int | NumFloat rat | NumInf | NumNan | NumOther

fun numeric :: "num \<Rightarrow> bool" where
  "numeric (NumBool _) = False"
| "numeric NumOther = False"
| "numeric _ = True"

text \<open>\<open>float(value)\<close>; \<open>None\<close> is an infinity or a NaN.\<close>

fun float_of :: "num \<Rightarrow> rat option result" where
  "float_of (NumBool b) = Inr (Some (if b then 1 else 0))"
| "float_of (NumInt n) = (case fl (of_int n) of None \<Rightarrow> Inl OverflowError | Some q \<Rightarrow> Inr (Some q))"
| "float_of (NumFloat q) = Inr (Some q)"
| "float_of NumInf = Inr None"
| "float_of NumNan = Inr None"
| "float_of NumOther = Inl TypeError"

text \<open>A finite float holds a binary64.\<close>

fun num_ok :: "num \<Rightarrow> bool" where
  "num_ok (NumFloat q) = is_b64 q"
| "num_ok _ = True"

definition positive_float :: "num \<Rightarrow> rat result" where
  "positive_float v =
     raise_if (\<not> numeric v) TypeError
      (bindR (float_of v) (\<lambda>x. case x of None \<Rightarrow> Inl ValueError | Some q \<Rightarrow> raise_if (q \<le> 0) ValueError (Inr q)))"

fun positive_int :: "num \<Rightarrow> int result" where
  "positive_int (NumInt n) = raise_if (n \<le> 0) ValueError (Inr n)"
| "positive_int _ = Inl TypeError"

lemma b64_0 [simp]: "is_b64 0"
  by (simp add: is_b64_def)

lemma b64_1: "is_b64 1"
proof -
  have "magnitude 1 = 0" by (rule magnitude_unique) simp_all
  then have "ulp 1 = 2 powi (- 52)" by (simp add: ulp_def ulp_exp_def)
  then have "(1::rat) = of_int (2 ^ 52) * ulp 1" by (simp add: power_int_minus)
  then show ?thesis using fl_exact [of 1 "2 ^ 52"] by (simp add: is_b64_def)
qed

lemma float_of_b64: "num_ok v \<Longrightarrow> float_of v = Inr (Some q) \<Longrightarrow> numeric v \<Longrightarrow> is_b64 q"
  by (cases v) (auto intro: fl_is_b64 split: option.splits)

lemma positive_float_ok: "num_ok v \<Longrightarrow> positive_float v = Inr q \<Longrightarrow> is_b64 q \<and> 0 < q"
proof -
  assume v: "num_ok v" and p: "positive_float v = Inr q"
  obtain x where x: "numeric v" "float_of v = Inr x" and y: "(case x of None \<Rightarrow> Inl ValueError | Some q \<Rightarrow> raise_if (q \<le> 0) ValueError (Inr q)) = Inr q"
    using p by (auto simp: positive_float_def)
  then have "x = Some q" "0 < q" by (cases x; simp)+
  then show ?thesis using float_of_b64 [OF v] x by blast
qed

lemma positive_float_of_float [simp]: "0 < q \<Longrightarrow> positive_float (NumFloat q) = Inr q"
  by (simp add: positive_float_def)

section \<open>The strategies\<close>

record error_policy =
  ep_dt_init :: rat
  ep_rtol :: rat
  ep_atol :: rat
  ep_dt_min :: rat
  ep_dt_max :: rat
  ep_max_rejections :: int
  ep_shrink :: rat
  ep_growth :: rat

datatype strategy =
    FixedDt rat
  | AdaptiveCFL rat "rat option"
  | ErrorControlledDt error_policy
  | ExternalTimeGrid string

definition mk_fixed_dt :: "num \<Rightarrow> strategy result" where
  "mk_fixed_dt dt = bindR (positive_float dt) (\<lambda>q. Inr (FixedDt q))"

definition mk_adaptive_cfl :: "num \<Rightarrow> num option \<Rightarrow> strategy result" where
  "mk_adaptive_cfl cfl max_dt =
     bindR (positive_float cfl) (\<lambda>c.
       case max_dt of
         None \<Rightarrow> Inr (AdaptiveCFL c None)
       | Some v \<Rightarrow> bindR (positive_float v) (\<lambda>m. Inr (AdaptiveCFL c (Some m))))"

definition mk_error_controlled ::
  "num \<Rightarrow> num \<Rightarrow> num \<Rightarrow> num \<Rightarrow> num \<Rightarrow> num \<Rightarrow> num \<Rightarrow> num \<Rightarrow> strategy result" where
  "mk_error_controlled dt_init rtol atol dt_min dt_max max_rejections shrink growth =
     bindR (positive_float dt_init) (\<lambda>i. bindR (positive_float rtol) (\<lambda>r.
     bindR (positive_float atol) (\<lambda>a. bindR (positive_float dt_min) (\<lambda>lo.
     bindR (positive_float dt_max) (\<lambda>hi. bindR (positive_float shrink) (\<lambda>s.
     bindR (positive_float growth) (\<lambda>g. bindR (positive_int max_rejections) (\<lambda>m.
       raise_if (lo > i \<or> i > hi) ValueError
      (raise_if (\<not> s < 1) ValueError
      (raise_if (\<not> 1 \<le> g) ValueError
        (Inr (ErrorControlledDt
          \<lparr>ep_dt_init = i, ep_rtol = r, ep_atol = a, ep_dt_min = lo, ep_dt_max = hi,
           ep_max_rejections = m, ep_shrink = s, ep_growth = g\<rparr>))))))))))))"

text \<open>\<open>None\<close> is a value that is not text.\<close>

definition mk_external_grid :: "string option \<Rightarrow> strategy result" where
  "mk_external_grid grid_id =
     (case grid_id of None \<Rightarrow> Inl ValueError | Some g \<Rightarrow> raise_if (g = []) ValueError (Inr (ExternalTimeGrid g)))"

text \<open>What a constructed strategy satisfies.\<close>

definition policy_ok :: "error_policy \<Rightarrow> bool" where
  "policy_ok p \<longleftrightarrow>
     (\<forall>q \<in> {ep_dt_init p, ep_rtol p, ep_atol p, ep_dt_min p, ep_dt_max p, ep_shrink p, ep_growth p}. is_b64 q \<and> 0 < q)
     \<and> 0 < ep_max_rejections p \<and> ep_dt_min p \<le> ep_dt_init p \<and> ep_dt_init p \<le> ep_dt_max p
     \<and> ep_shrink p < 1 \<and> 1 \<le> ep_growth p"

fun strategy_ok :: "strategy \<Rightarrow> bool" where
  "strategy_ok (FixedDt dt) \<longleftrightarrow> is_b64 dt \<and> 0 < dt"
| "strategy_ok (AdaptiveCFL cfl m) \<longleftrightarrow> is_b64 cfl \<and> 0 < cfl \<and> (\<forall>q \<in> set_option m. is_b64 q \<and> 0 < q)"
| "strategy_ok (ErrorControlledDt p) \<longleftrightarrow> policy_ok p"
| "strategy_ok (ExternalTimeGrid g) \<longleftrightarrow> g \<noteq> []"

lemma mk_fixed_dt_ok: "num_ok dt \<Longrightarrow> mk_fixed_dt dt = Inr s \<Longrightarrow> strategy_ok s"
  using positive_float_ok by (auto simp: mk_fixed_dt_def)

lemma mk_adaptive_cfl_ok:
  "num_ok c \<Longrightarrow> (\<forall>m \<in> set_option mo. num_ok m) \<Longrightarrow> mk_adaptive_cfl c mo = Inr s \<Longrightarrow> strategy_ok s"
  using positive_float_ok by (auto simp: mk_adaptive_cfl_def split: option.splits)

lemma positive_int_ok: "positive_int v = Inr n \<Longrightarrow> 0 < n"
  by (cases v) auto

lemma mk_error_controlled_ok:
  assumes "list_all num_ok [i, r, a, lo, hi, s, g]" and "mk_error_controlled i r a lo hi m s g = Inr st"
  shows "strategy_ok st"
  using assms positive_float_ok positive_int_ok
  by (auto simp: mk_error_controlled_def policy_ok_def not_less)

lemma mk_external_grid_ok: "mk_external_grid g = Inr s \<Longrightarrow> strategy_ok s"
  by (auto simp: mk_external_grid_def split: option.splits)

section \<open>Runtime controls\<close>

datatype control = Scalar num | Sequence "num list" | OpaqueControl

type_synonym controls = "(string \<times> control) list"

definition control_keys :: "(string \<times> 'a) list \<Rightarrow> string set" where
  "control_keys d = fst ` set d"

text \<open>The keyword controls of a run; an empty name cannot be passed.\<close>

definition checked_names :: "controls \<Rightarrow> controls result" where
  "checked_names d = raise_if ([] \<in> control_keys d) TypeError (Inr d)"

fun positive_control :: "control \<Rightarrow> rat result" where
  "positive_control (Scalar v) = positive_float v"
| "positive_control _ = Inl TypeError"

text \<open>The values of a grid as floats, all finite; then each is compared with the next.\<close>

definition finite_float :: "num \<Rightarrow> rat result" where
  "finite_float v = bindR (float_of v) (\<lambda>x. case x of None \<Rightarrow> Inl ValueError | Some q \<Rightarrow> Inr q)"

definition check_grid :: "num list \<Rightarrow> rat list result" where
  "check_grid grid =
     raise_if (length grid < 2) ValueError
    (raise_if (\<not> list_all numeric grid) TypeError
    (bindR (traverse finite_float grid) (\<lambda>qs. raise_if (\<not> sorted_wrt (<) qs) ValueError (Inr qs))))"

definition validate_controls :: "strategy \<Rightarrow> controls \<Rightarrow> unit result" where
  "validate_controls s d =
     bindR (checked_names d) (\<lambda>values. case s of
       AdaptiveCFL _ _ \<Rightarrow>
         raise_if (\<not> control_keys values \<subseteq> {''dt_min'', ''dt_max''}) ValueError
        (bindR (traverse (\<lambda>(_, v). positive_control v) values) (\<lambda>_.
          case (map_of values ''dt_min'', map_of values ''dt_max'') of
            (Some lo, Some hi) \<Rightarrow>
              bindR (positive_control lo) (\<lambda>l. bindR (positive_control hi) (\<lambda>h. raise_if (h < l) ValueError (Inr ())))
          | _ \<Rightarrow> Inr ()))
     | ExternalTimeGrid g \<Rightarrow>
         raise_if (control_keys values \<noteq> {g}) ValueError
        (case map_of values g of
           Some (Sequence grid) \<Rightarrow> bindR (check_grid grid) (\<lambda>_. Inr ())
         | _ \<Rightarrow> Inl ValueError)
     | _ \<Rightarrow> raise_if (values \<noteq> []) ValueError (Inr ()))"

section \<open>The restart manifest\<close>

text \<open>
  A value of a manifest: a binary64 literal that spells a number, one of the same shape whose text
  is not the canonical spelling of a finite number, another number, or text. A spelled number that is
  not a binary64 rounds when it is read, so its spelling is not canonical either.
\<close>

datatype datum = Binary64 rat | BadBinary64 | Number num | Text string

type_synonym data = "(string \<times> datum) list"

fun from_binary64 :: "datum \<Rightarrow> rat result" where
  "from_binary64 (Binary64 q) = raise_if (\<not> is_b64 q) ValueError (Inr q)"
| "from_binary64 BadBinary64 = Inl ValueError"
| "from_binary64 _ = Inl TypeError"

lemma from_binary64_Inr: "from_binary64 v = Inr q \<longleftrightarrow> v = Binary64 q \<and> is_b64 q"
  by (cases v) auto

fun strategy_data :: "strategy \<Rightarrow> data" where
  "strategy_data (FixedDt dt) = [(''kind'', Text ''fixed_dt''), (''dt'', Binary64 dt)]"
| "strategy_data (AdaptiveCFL cfl m) =
     [(''kind'', Text ''adaptive_cfl''), (''cfl'', Binary64 cfl)]
     @ (case m of None \<Rightarrow> [] | Some q \<Rightarrow> [(''max_dt'', Binary64 q)])"
| "strategy_data (ErrorControlledDt p) =
     [(''kind'', Text ''error_controlled_dt''),
      (''dt_init'', Binary64 (ep_dt_init p)), (''rtol'', Binary64 (ep_rtol p)), (''atol'', Binary64 (ep_atol p)),
      (''dt_min'', Binary64 (ep_dt_min p)), (''dt_max'', Binary64 (ep_dt_max p)),
      (''shrink'', Binary64 (ep_shrink p)), (''growth'', Binary64 (ep_growth p)),
      (''max_rejections'', Number (NumInt (ep_max_rejections p)))]"
| "strategy_data (ExternalTimeGrid g) = [(''kind'', Text ''external_time_grid''), (''grid_id'', Text g)]"

text \<open>\<open>_binary64(payload[name])\<close> under a key set already checked, and the number a literal or a
  plain value becomes in the constructor.\<close>

definition literal_at :: "data \<Rightarrow> string \<Rightarrow> num result" where
  "literal_at d name =
     (case map_of d name of None \<Rightarrow> Inl KeyError | Some v \<Rightarrow> bindR (from_binary64 v) (\<lambda>q. Inr (NumFloat q)))"

fun as_num :: "datum option \<Rightarrow> num" where
  "as_num (Some (Number v)) = v"
| "as_num _ = NumOther"

fun as_text :: "datum option \<Rightarrow> string option" where
  "as_text (Some (Text s)) = Some s"
| "as_text _ = None"

definition fixed_from_data :: "data \<Rightarrow> strategy result" where
  "fixed_from_data d =
     raise_if (control_keys d \<noteq> {''kind'', ''dt''} \<or> map_of d ''kind'' \<noteq> Some (Text ''fixed_dt'')) ValueError
      (bindR (literal_at d ''dt'') mk_fixed_dt)"

definition adaptive_from_data :: "data \<Rightarrow> strategy result" where
  "adaptive_from_data d =
     raise_if (map_of d ''kind'' \<noteq> Some (Text ''adaptive_cfl'')
               \<or> control_keys d \<notin> {{''kind'', ''cfl''}, {''kind'', ''cfl'', ''max_dt''}}) ValueError
      (bindR (literal_at d ''cfl'') (\<lambda>c.
         if ''max_dt'' \<in> control_keys d then bindR (literal_at d ''max_dt'') (\<lambda>m. mk_adaptive_cfl c (Some m))
         else mk_adaptive_cfl c None))"

definition error_controlled_from_data :: "data \<Rightarrow> strategy result" where
  "error_controlled_from_data d =
     raise_if (map_of d ''kind'' \<noteq> Some (Text ''error_controlled_dt'')
               \<or> control_keys d \<noteq> {''kind'', ''dt_init'', ''rtol'', ''atol'', ''dt_min'', ''dt_max'', ''shrink'', ''growth'',
                                   ''max_rejections''}) ValueError
      (bindR (literal_at d ''dt_init'') (\<lambda>i. bindR (literal_at d ''rtol'') (\<lambda>r.
       bindR (literal_at d ''atol'') (\<lambda>a. bindR (literal_at d ''dt_min'') (\<lambda>lo.
       bindR (literal_at d ''dt_max'') (\<lambda>hi. bindR (literal_at d ''shrink'') (\<lambda>s.
       bindR (literal_at d ''growth'') (\<lambda>g.
         mk_error_controlled i r a lo hi (as_num (map_of d ''max_rejections'')) s g))))))))"

definition grid_from_data :: "data \<Rightarrow> strategy result" where
  "grid_from_data d =
     raise_if (control_keys d \<noteq> {''kind'', ''grid_id''} \<or> map_of d ''kind'' \<noteq> Some (Text ''external_time_grid'')) ValueError
      (mk_external_grid (as_text (map_of d ''grid_id'')))"

text \<open>The registry of the four providers.\<close>

definition registered :: "string \<Rightarrow> (data \<Rightarrow> strategy result) option" where
  "registered kind = map_of
     [(''fixed_dt'', fixed_from_data), (''adaptive_cfl'', adaptive_from_data),
      (''error_controlled_dt'', error_controlled_from_data), (''external_time_grid'', grid_from_data)] kind"

definition strategy_from_data :: "data \<Rightarrow> strategy result" where
  "strategy_from_data d =
     (case map_of d ''kind'' of
        Some (Text kind) \<Rightarrow> (case registered kind of None \<Rightarrow> Inl ValueError | Some provider \<Rightarrow> provider d)
      | _ \<Rightarrow> Inl TypeError)"

datatype control_datum = ScalarDatum datum | SequenceDatum "datum list"

type_synonym control_data = "(string \<times> control_datum) list"

fun restored_control :: "control_datum \<Rightarrow> control result" where
  "restored_control (ScalarDatum v) = bindR (from_binary64 v) (\<lambda>q. Inr (Scalar (NumFloat q)))"
| "restored_control (SequenceDatum vs) =
     bindR (traverse from_binary64 vs) (\<lambda>qs. Inr (Sequence (map NumFloat qs)))"

definition restore_controls :: "control_data \<Rightarrow> controls result" where
  "restore_controls d = traverse (\<lambda>(name, v). bindR (restored_control v) (\<lambda>c. Inr (name, c))) d"

text \<open>\<open>scalar_data(float(value))\<close>: a value that is not finite has no literal.\<close>

definition binary64_of :: "num \<Rightarrow> datum result" where
  "binary64_of v = bindR (finite_float v) (\<lambda>q. Inr (Binary64 q))"

fun control_literal :: "control \<Rightarrow> control_datum result" where
  "control_literal (Scalar v) = bindR (binary64_of v) (\<lambda>d. Inr (ScalarDatum d))"
| "control_literal (Sequence vs) = bindR (traverse binary64_of vs) (\<lambda>ds. Inr (SequenceDatum ds))"
| "control_literal OpaqueControl = Inl TypeError"

definition controls_data :: "controls \<Rightarrow> control_data result" where
  "controls_data d = traverse (\<lambda>(name, v). bindR (control_literal v) (\<lambda>c. Inr (name, c))) d"

type_synonym manifest = "data \<times> control_data"

definition run_control_payload :: "strategy \<Rightarrow> controls \<Rightarrow> manifest result" where
  "run_control_payload s d =
     bindR (validate_controls s d) (\<lambda>_. bindR (controls_data d) (\<lambda>c. Inr (strategy_data s, c)))"

text \<open>Mappings are compared as mappings: whatever the order of their rows.\<close>

definition same_mapping :: "('k \<times> 'v) list \<Rightarrow> ('k \<times> 'v) list \<Rightarrow> bool" where
  "same_mapping d e \<longleftrightarrow> set d = set e"

definition validate_manifest :: "manifest \<Rightarrow> manifest result" where
  "validate_manifest m =
     (let (descriptor, raw) = m in
      bindR (strategy_from_data descriptor) (\<lambda>s.
      bindR (restore_controls raw) (\<lambda>d.
      bindR (validate_controls s d) (\<lambda>_.
      bindR (controls_data d) (\<lambda>c.
        raise_if (\<not> (same_mapping (strategy_data s) descriptor \<and> same_mapping c raw)) ValueError
          (Inr (strategy_data s, c)))))))"

section \<open>Reading back what was written\<close>

lemma data_keys_kind:
  "control_keys (strategy_data s) = (case s of
     FixedDt _ \<Rightarrow> {''kind'', ''dt''}
   | AdaptiveCFL _ m \<Rightarrow> {''kind'', ''cfl''} \<union> (case m of None \<Rightarrow> {} | Some _ \<Rightarrow> {''max_dt''})
   | ErrorControlledDt _ \<Rightarrow> {''kind'', ''dt_init'', ''rtol'', ''atol'', ''dt_min'', ''dt_max'', ''shrink'', ''growth'', ''max_rejections''}
   | ExternalTimeGrid _ \<Rightarrow> {''kind'', ''grid_id''})"
  by (cases s) (auto simp: control_keys_def split: option.splits)

lemma strategy_data_back: "strategy_ok s \<Longrightarrow> strategy_from_data (strategy_data s) = Inr s"
proof (cases s)
  case (FixedDt dt)
  moreover assume "strategy_ok s"
  ultimately show ?thesis
    by (simp add: strategy_from_data_def registered_def fixed_from_data_def control_keys_def literal_at_def mk_fixed_dt_def)
next
  case (AdaptiveCFL c m)
  moreover assume "strategy_ok s"
  ultimately show ?thesis
    by (cases m) (auto simp: strategy_from_data_def registered_def adaptive_from_data_def control_keys_def literal_at_def
      mk_adaptive_cfl_def)
next
  case (ErrorControlledDt p)
  moreover assume "strategy_ok s"
  ultimately show ?thesis
    by (simp add: strategy_from_data_def registered_def error_controlled_from_data_def control_keys_def literal_at_def
      mk_error_controlled_def policy_ok_def not_less)
next
  case (ExternalTimeGrid g)
  moreover assume "strategy_ok s"
  ultimately show ?thesis
    by (simp add: strategy_from_data_def registered_def grid_from_data_def control_keys_def mk_external_grid_def)
qed

text \<open>A control read back from a manifest holds the floats of the original.\<close>

definition refloat :: "num \<Rightarrow> num" where
  "refloat v = (case finite_float v of Inl _ \<Rightarrow> v | Inr q \<Rightarrow> NumFloat q)"

fun refloat_control :: "control \<Rightarrow> control" where
  "refloat_control (Scalar v) = Scalar (refloat v)"
| "refloat_control (Sequence vs) = Sequence (map refloat vs)"
| "refloat_control OpaqueControl = OpaqueControl"

definition refloat_controls :: "controls \<Rightarrow> controls" where
  "refloat_controls d = map (\<lambda>(name, v). (name, refloat_control v)) d"

lemma finite_float_NumFloat [simp]: "finite_float (NumFloat q) = Inr q"
  by (simp add: finite_float_def)

lemma refloat_value: "finite_float v = Inr q \<Longrightarrow> refloat v = NumFloat q"
  by (simp add: refloat_def)

lemma map_of_refloat: "map_of (refloat_controls d) name = map_option refloat_control (map_of d name)"
  by (induction d) (auto simp: refloat_controls_def)

lemma keys_refloat [simp]: "control_keys (refloat_controls d) = control_keys d"
  by (force simp: control_keys_def refloat_controls_def)

fun control_ok :: "control \<Rightarrow> bool" where
  "control_ok (Scalar v) = num_ok v"
| "control_ok (Sequence vs) = list_all num_ok vs"
| "control_ok OpaqueControl = True"

definition controls_ok :: "controls \<Rightarrow> bool" where
  "controls_ok d \<longleftrightarrow> list_all (\<lambda>(_, v). control_ok v) d"

lemma finite_float_b64: "num_ok v \<Longrightarrow> finite_float v = Inr q \<Longrightarrow> is_b64 q"
  by (cases v) (auto simp: finite_float_def b64_1 intro: fl_is_b64 split: option.splits)

lemma sequence_back:
  "list_all num_ok vs \<Longrightarrow> traverse binary64_of vs = Inr ds \<Longrightarrow>
   traverse from_binary64 ds = Inr (map (\<lambda>v. case finite_float v of Inl _ \<Rightarrow> 0 | Inr q \<Rightarrow> q) vs)
   \<and> map NumFloat (map (\<lambda>v. case finite_float v of Inl _ \<Rightarrow> 0 | Inr q \<Rightarrow> q) vs) = map refloat vs
   \<and> traverse binary64_of (map refloat vs) = Inr ds"
  by (induction vs arbitrary: ds) (auto simp: binary64_of_def refloat_value finite_float_b64)

lemma control_back:
  "control_ok v \<Longrightarrow> control_literal v = Inr c \<Longrightarrow> restored_control c = Inr (refloat_control v) \<and> control_literal (refloat_control v) = Inr c"
  using sequence_back by (cases v) (auto simp: binary64_of_def refloat_value finite_float_b64)

lemma controls_back:
  "controls_ok d \<Longrightarrow> controls_data d = Inr c \<Longrightarrow> restore_controls c = Inr (refloat_controls d) \<and> controls_data (refloat_controls d) = Inr c"
proof (induction d arbitrary: c)
  case (Cons x d)
  then obtain name v k c' where ok: "control_ok v" "controls_ok d" and x: "x = (name, v)" and k: "control_literal v = Inr k" and c: "c = (name, k) # c'"
    and tail: "controls_data d = Inr c'"
    by (cases x) (auto simp: controls_data_def controls_ok_def)
  show ?case using Cons.IH [OF ok(2) tail] control_back [OF ok(1) k]
    by (simp add: x c controls_data_def restore_controls_def refloat_controls_def)
qed (simp add: controls_data_def restore_controls_def refloat_controls_def)

lemma positive_refloat: "positive_control v = Inr q \<Longrightarrow> positive_control (refloat_control v) = Inr q"
proof (cases v)
  case (Scalar w)
  assume "positive_control v = Inr q"
  then obtain x where x: "float_of w = Inr x" and y: "(case x of None \<Rightarrow> Inl ValueError | Some q \<Rightarrow> raise_if (q \<le> 0) ValueError (Inr q)) = Inr q"
    using Scalar by (auto simp: positive_float_def)
  then have q: "x = Some q" "0 < q" by (cases x; simp)+
  then have "finite_float w = Inr q" by (simp add: finite_float_def x)
  then show ?thesis using q by (simp add: Scalar refloat_value)
qed simp_all

lemma traverse_positive_refloat:
  "traverse (\<lambda>(_, v). positive_control v) d = Inr qs \<Longrightarrow> traverse (\<lambda>(_, v). positive_control v) (refloat_controls d) = Inr qs"
  by (induction d arbitrary: qs) (auto simp: refloat_controls_def positive_refloat)

lemma traverse_finite_refloat:
  "traverse finite_float vs = Inr qs \<Longrightarrow> traverse finite_float (map refloat vs) = Inr qs \<and> list_all numeric (map refloat vs)"
  by (induction vs arbitrary: qs) (auto simp: refloat_value)

lemma check_grid_refloat: "check_grid vs = Inr qs \<Longrightarrow> check_grid (map refloat vs) = Inr qs"
  using traverse_finite_refloat by (auto simp: check_grid_def)

lemma validate_refloat:
  assumes "validate_controls s d = Inr u" shows "validate_controls s (refloat_controls d) = Inr u"
proof (cases s)
  case (AdaptiveCFL c m)
  let ?lo = "map_of d ''dt_min''" and ?hi = "map_of d ''dt_max''"
  have "case (?lo, ?hi) of (Some lo, Some hi) \<Rightarrow> \<exists>l h. positive_control lo = Inr l \<and> positive_control hi = Inr h \<and> \<not> h < l | _ \<Rightarrow> True"
    using assms AdaptiveCFL by (auto simp: validate_controls_def checked_names_def split: option.splits)
  then show ?thesis using assms AdaptiveCFL traverse_positive_refloat [of d]
    by (auto simp: validate_controls_def checked_names_def map_of_refloat positive_refloat split: option.splits)
next
  case (ExternalTimeGrid g)
  then obtain grid qs where "map_of d g = Some (Sequence grid)" "check_grid grid = Inr qs"
    using assms by (auto simp: validate_controls_def checked_names_def split: option.splits control.splits)
  then show ?thesis using assms ExternalTimeGrid check_grid_refloat
    by (auto simp: validate_controls_def checked_names_def map_of_refloat)
qed (use assms in \<open>auto simp: validate_controls_def checked_names_def refloat_controls_def\<close>)

lemma manifest_back:
  assumes "strategy_ok s" and "controls_ok d" and "run_control_payload s d = Inr m"
  shows "validate_manifest m = Inr m"
proof -
  obtain c where v: "validate_controls s d = Inr ()" and c: "controls_data d = Inr c" and m: "m = (strategy_data s, c)"
    using assms(3) by (auto simp: run_control_payload_def)
  show ?thesis
    using strategy_data_back [OF assms(1)] controls_back [OF assms(2) c] validate_refloat [OF v]
    by (simp add: m validate_manifest_def same_mapping_def)
qed

text \<open>What a manifest restores is a constructed strategy.\<close>

lemma literal_ok: "literal_at d name = Inr v \<Longrightarrow> num_ok v"
  by (auto simp: literal_at_def split: option.splits simp: from_binary64_Inr)

lemmas provider_cases = raise_if_Inr_iff bindR_Inr_iff

lemma fixed_from_data_ok: "fixed_from_data d = Inr s \<Longrightarrow> strategy_ok s"
  unfolding fixed_from_data_def provider_cases by (elim conjE exE) (rule mk_fixed_dt_ok [OF literal_ok])

lemma adaptive_from_data_ok:
  assumes "adaptive_from_data d = Inr s" shows "strategy_ok s"
proof -
  obtain c where c: "literal_at d ''cfl'' = Inr c"
    and s: "(if ''max_dt'' \<in> control_keys d then bindR (literal_at d ''max_dt'') (\<lambda>m. mk_adaptive_cfl c (Some m))
             else mk_adaptive_cfl c None) = Inr s"
    using assms unfolding adaptive_from_data_def provider_cases by (elim conjE exE) (rule that)
  show ?thesis
  proof (cases "''max_dt'' \<in> control_keys d")
    case True
    then obtain m where "literal_at d ''max_dt'' = Inr m" "mk_adaptive_cfl c (Some m) = Inr s"
      using s by (simp only: if_True bindR_Inr_iff) blast
    then show ?thesis using mk_adaptive_cfl_ok [of c "Some m"] literal_ok c by simp
  next
    case False
    then have "mk_adaptive_cfl c None = Inr s" using s by (simp only: if_False)
    then show ?thesis using mk_adaptive_cfl_ok [of c None] literal_ok c by simp
  qed
qed

lemma error_controlled_from_data_ok:
  assumes "error_controlled_from_data d = Inr s" shows "strategy_ok s"
proof -
  obtain i r a lo hi sh g where "literal_at d ''dt_init'' = Inr i" "literal_at d ''rtol'' = Inr r"
    "literal_at d ''atol'' = Inr a" "literal_at d ''dt_min'' = Inr lo" "literal_at d ''dt_max'' = Inr hi"
    "literal_at d ''shrink'' = Inr sh" "literal_at d ''growth'' = Inr g"
    and s: "mk_error_controlled i r a lo hi (as_num (map_of d ''max_rejections'')) sh g = Inr s"
    using assms unfolding error_controlled_from_data_def provider_cases by (elim conjE exE) (rule that)
  then have "list_all num_ok [i, r, a, lo, hi, sh, g]" using literal_ok by simp
  then show ?thesis using s by (rule mk_error_controlled_ok)
qed

lemma grid_from_data_ok: "grid_from_data d = Inr s \<Longrightarrow> strategy_ok s"
  unfolding grid_from_data_def provider_cases by (elim conjE) (rule mk_external_grid_ok)

lemma strategy_from_data_ok:
  assumes "strategy_from_data d = Inr s" shows "strategy_ok s"
proof -
  obtain kind provider where k: "registered kind = Some provider" and p: "provider d = Inr s"
    using assms by (auto simp: strategy_from_data_def split: option.splits datum.splits)
  have "provider \<in> {fixed_from_data, adaptive_from_data, error_controlled_from_data, grid_from_data}"
    using k by (auto simp: registered_def split: if_splits)
  then show ?thesis
    using p fixed_from_data_ok adaptive_from_data_ok error_controlled_from_data_ok grid_from_data_ok by blast
qed

lemma restored_ok: "restore_controls c = Inr d \<Longrightarrow> controls_ok d"
proof (induction c arbitrary: d)
  case (Cons x c)
  have seq: "traverse from_binary64 vs = Inr qs \<Longrightarrow> list_all num_ok (map NumFloat qs)" for vs qs
    by (induction vs arbitrary: qs) (auto simp: from_binary64_Inr)
  have "restored_control v = Inr w \<Longrightarrow> control_ok w" for v w
    using seq by (cases v) (auto simp: from_binary64_Inr)
  then show ?case using Cons by (auto simp: restore_controls_def controls_ok_def split: prod.splits)
qed (simp add: restore_controls_def controls_ok_def)

lemma validated_manifest:
  assumes "validate_manifest m = Inr m'"
  shows "\<exists>s d. strategy_ok s \<and> controls_ok d \<and> run_control_payload s d = Inr m'
     \<and> strategy_from_data (fst m) = Inr s \<and> fst m' = strategy_data s"
proof -
  obtain s d c where "strategy_from_data (fst m) = Inr s" "restore_controls (snd m) = Inr d"
    "validate_controls s d = Inr ()" "controls_data d = Inr c" "m' = (strategy_data s, c)"
    using assms by (auto simp: validate_manifest_def split: prod.splits)
  then show ?thesis using strategy_from_data_ok restored_ok
    by (intro exI [of _ s] exI [of _ d]) (simp add: run_control_payload_def)
qed

lemma validate_manifest_idem: "validate_manifest m = Inr m' \<Longrightarrow> validate_manifest m' = Inr m'"
  using validated_manifest manifest_back by blast

text \<open>
  Claim C22. A strategy manifest written for a run is read back unchanged by the validation a restart makes,
  for every constructed strategy and every accepted set of runtime controls.
\<close>

theorem strategy_manifest_roundtrip:
  assumes "strategy_ok s" and "controls_ok d" and "run_control_payload s d = Inr m"
  shows "validate_manifest m = Inr m"
  using assms by (rule manifest_back)

theorem strategy_manifest_roundtrip_witness:
  "run_control_payload (ExternalTimeGrid ''g'') [(''g'', Sequence [NumFloat 0, NumFloat 1])]
     = Inr (strategy_data (ExternalTimeGrid ''g''), [(''g'', SequenceDatum [Binary64 0, Binary64 1])])
   \<and> validate_manifest (strategy_data (ExternalTimeGrid ''g''), [(''g'', SequenceDatum [Binary64 0, Binary64 1])])
     = Inr (strategy_data (ExternalTimeGrid ''g''), [(''g'', SequenceDatum [Binary64 0, Binary64 1])])"
proof -
  have w: "run_control_payload (ExternalTimeGrid ''g'') [(''g'', Sequence [NumFloat 0, NumFloat 1])]
     = Inr (strategy_data (ExternalTimeGrid ''g''), [(''g'', SequenceDatum [Binary64 0, Binary64 1])])"
    by (simp add: run_control_payload_def validate_controls_def checked_names_def control_keys_def check_grid_def
      controls_data_def binary64_of_def)
  then show ?thesis using strategy_manifest_roundtrip [OF _ _ w] by (simp add: controls_ok_def b64_1)
qed

end
