(* ===== verification/Pops_Order.thy ===== *)
theory Pops_Order
  imports Pops_Float
begin

text \<open>
  The order of binary64: rounding keeps a number on its side of every binary64, and the difference of
  two distinct ones is never rounded to zero. The step controllers and the temporal state rest on these.
\<close>

lemma ulp_multiple:
  assumes "0 < q" and "q \<le> v" and "is_b64 v" shows "\<exists>n. v = of_int n * ulp q"
proof -
  have v: "v = of_int (round_even (v / ulp v)) * ulp v" using fl_value [of v v] assms(3) by (simp add: is_b64_def)
  have vp: "0 < v" using assms by linarith
  have "2 powi magnitude q < (2::rat) powi (magnitude v + 1)"
    using magnitude_bounds(1) [OF assms(1)] magnitude_bounds(2) [OF vp] assms(2) by linarith
  then have "magnitude q \<le> magnitude v" by (simp only: powi_less_iff)
  then have "ulp_exp q \<le> ulp_exp v" using assms(1) vp by (simp add: ulp_exp_def)
  then have "ulp v = of_int (2 ^ nat (ulp_exp v - ulp_exp q)) * ulp q"
    using power2_multiple [of "ulp_exp v - ulp_exp q" "ulp_exp q"] by (simp add: ulp_def)
  then have "v = of_int (round_even (v / ulp v) * 2 ^ nat (ulp_exp v - ulp_exp q)) * ulp q" using v by simp
  then show ?thesis by blast
qed

lemma round_even_le: "q \<le> of_int n \<Longrightarrow> round_even q \<le> n"
  using round_even_near [of q] by (simp add: round_even_def Let_def split: if_splits) linarith+

lemma round_even_ge: "of_int n \<le> q \<Longrightarrow> n \<le> round_even q"
proof -
  assume "of_int n \<le> q"
  then have "n \<le> \<lfloor>q\<rfloor>" by (simp add: le_floor_iff)
  then show ?thesis by (simp add: round_even_def Let_def)
qed

text \<open>Rounding keeps a number on its side of a binary64.\<close>

lemma rounded_le:
  assumes "0 < q" and "q \<le> v" and "is_b64 v" shows "of_int (round_even (q / ulp q)) * ulp q \<le> v"
proof -
  obtain n where n: "v = of_int n * ulp q" using ulp_multiple [OF assms] by blast
  then have "q / ulp q \<le> of_int n" using assms(2) by (simp add: divide_le_eq)
  then have "round_even (q / ulp q) \<le> n" by (rule round_even_le)
  then have "of_int (round_even (q / ulp q)) \<le> (of_int n :: rat)" by (simp only: of_int_le_iff)
  then show ?thesis unfolding n by (rule mult_right_mono) (simp add: less_imp_le)
qed

lemma fl_le: "fl q = Some w \<Longrightarrow> 0 < q \<Longrightarrow> q \<le> v \<Longrightarrow> is_b64 v \<Longrightarrow> w \<le> v"
  using rounded_le [of q v] fl_value [of q w] by simp

lemma b64_small: "is_b64 v \<Longrightarrow> \<bar>v\<bar> < 2 powi 1024"
  by (auto simp: is_b64_def fl_def Let_def split: if_splits)

lemma fl_le_defined:
  assumes "0 < q" and "q \<le> v" and "is_b64 v" shows "\<exists>w. fl q = Some w"
proof -
  let ?w = "of_int (round_even (q / ulp q)) * ulp q"
  have "0 \<le> round_even (q / ulp q)" using assms(1) by (intro round_even_ge) (simp add: divide_nonneg_pos)
  then have "0 \<le> (of_int (round_even (q / ulp q)) :: rat)" by simp
  then have "0 \<le> ?w" by (rule mult_nonneg_nonneg) (simp add: less_imp_le)
  then have "\<bar>?w\<bar> < 2 powi 1024" using rounded_le [OF assms] b64_small [OF assms(3)] by linarith
  then show ?thesis by (simp add: fl_def Let_def)
qed

lemma fl_ge:
  assumes "fl q = Some w" and "0 < v" and "v \<le> q" and "is_b64 v" shows "v \<le> w"
proof -
  have qp: "0 < q" using assms by linarith
  have w: "w = of_int (round_even (q / ulp q)) * ulp q" using fl_value [OF assms(1)] .
  have v: "v = of_int (round_even (v / ulp v)) * ulp v" using fl_value [of v v] assms(4) by (simp add: is_b64_def)
  define P where "P = (2::rat) powi magnitude q"
  have goal: "of_int n * ulp q \<le> q \<Longrightarrow> of_int n * ulp q \<le> w" for n
  proof -
    assume "of_int n * ulp q \<le> q"
    then have "of_int n \<le> q / ulp q" by (simp add: le_divide_eq)
    then have "n \<le> round_even (q / ulp q)" by (rule round_even_ge)
    then have "of_int n \<le> (of_int (round_even (q / ulp q)) :: rat)" by (simp only: of_int_le_iff)
    then show ?thesis unfolding w by (rule mult_right_mono) (simp add: less_imp_le)
  qed
  show ?thesis
  proof (cases "ulp_exp v = ulp_exp q")
    case True
    then have u: "ulp v = ulp q" by (simp add: ulp_def)
    then have "v = of_int (round_even (v / ulp v)) * ulp q" using v by simp
    then show ?thesis using goal [of "round_even (v / ulp v)"] assms(3) by simp
  next
    case False
    then have neq: "magnitude v \<noteq> magnitude q" using assms(2) qp by (auto simp: ulp_exp_def)
    have "2 powi magnitude v < (2::rat) powi (magnitude q + 1)"
      using magnitude_bounds(1) [OF assms(2)] magnitude_bounds(2) [OF qp] assms(3) by linarith
    then have m: "magnitude v + 1 \<le> magnitude q" using neq by (simp only: powi_less_iff)
    have "v \<le> P" 
    proof -
      have "(2::rat) powi (magnitude v + 1) \<le> P" unfolding P_def using m by (simp add: powi_le_iff)
      then show ?thesis using magnitude_bounds(2) [OF assms(2)] by linarith
    qed
    moreover have "P \<le> w"
    proof (cases "ulp_exp q = magnitude q - 52")
      case True
      have "P = of_int (2 ^ 52) * ulp q"
        using power2_multiple [of 52 "magnitude q - 52"] by (simp add: P_def ulp_def True)
      then show ?thesis using goal [of "2 ^ 52"] magnitude_bounds(1) [OF qp] by (simp add: P_def)
    next
      case False
      then have "ulp_exp q = - 1074" "ulp_exp v = - 1074" using qp assms(2) m by (auto simp: ulp_exp_def max_def split: if_splits)
      then show ?thesis using \<open>ulp_exp v \<noteq> ulp_exp q\<close> by simp
    qed
    ultimately show ?thesis by linarith
  qed
qed

lemma fl_least: "is_b64 (2 powi (- 1074))"
proof -
  define m where "m = (2::rat) powi (- 1074)"
  have pos: "0 < m" unfolding m_def by (rule zero_less_power_int) simp
  have "m < 2 powi (- 1074 + 1)" unfolding m_def powi_less_iff by simp
  then have "magnitude m = - 1074" by (intro magnitude_unique) (simp_all only: m_def order_refl)
  then have "ulp_exp m = - 1074" using pos by (simp add: ulp_exp_def)
  then have "ulp m = m" by (simp only: ulp_def m_def)
  moreover have "\<bar>m\<bar> < 2 powi 1024" using pos unfolding m_def by (simp only: abs_of_pos powi_less_iff)
  ultimately have "fl m = Some m" by (intro fl_exact [of _ 1]) simp_all
  then show ?thesis unfolding is_b64_def m_def .
qed

text \<open>The difference of two binary64 is never rounded to zero.\<close>

lemma fl_diff_pos:
  assumes "is_b64 a" and "is_b64 b" and "b < a" and "fl (a - b) = Some d" shows "0 < d"
proof -
  define m where "m = (2::rat) powi (- 1074)"
  have mult: "\<exists>k. x = of_int k * m" if x: "is_b64 x" for x
  proof -
    obtain n e where e: "- 1074 \<le> e" "x = of_int n * 2 powi e" using b64_multiple [OF x] by blast
    then have "2 powi e = of_int (2 ^ nat (e + 1074)) * m" using power2_multiple [of "e + 1074" "- 1074"] by (simp add: m_def)
    then have "x = of_int (n * 2 ^ nat (e + 1074)) * m" by (simp add: e(2))
    then show ?thesis by blast
  qed
  obtain i j where i: "a = of_int i * m" "b = of_int j * m" using mult assms by blast
  have mp: "0 < m" by (simp add: m_def)
  have "j < i" using assms(3) mp by (simp add: i)
  then have "(1::rat) \<le> of_int (i - j)" by simp
  then have "m \<le> of_int (i - j) * m" using mp mult_right_mono [of 1 "of_int (i - j)" m] by simp
  then have "m \<le> a - b" by (simp add: i left_diff_distrib)
  then have "m \<le> d" using fl_ge [OF assms(4) mp] fl_least by (simp add: m_def)
  then show ?thesis using mp by linarith
qed

lemma b64_power:
  assumes "- 1074 \<le> k" and "k < 1024" shows "is_b64 (2 powi k)"
proof -
  define m where "m = (2::rat) powi k"
  have pos: "0 < m" unfolding m_def by (rule zero_less_power_int) simp
  have "m < 2 powi (k + 1)" unfolding m_def powi_less_iff by simp
  then have "magnitude m = k" by (intro magnitude_unique) (simp_all only: m_def order_refl)
  then have e: "ulp_exp m \<le> k" using pos assms(1) by (simp add: ulp_exp_def)
  have "m = of_int (2 ^ nat (k - ulp_exp m)) * ulp m"
    using power2_multiple [of "k - ulp_exp m" "ulp_exp m"] e by (simp add: m_def [symmetric] ulp_def [symmetric])
  moreover have "\<bar>m\<bar> < 2 powi 1024" using pos assms(2) unfolding m_def by (simp only: abs_of_pos powi_less_iff)
  ultimately show ?thesis using fl_exact unfolding is_b64_def m_def by blast
qed

lemma ulp_exp_mono: "0 < x \<Longrightarrow> x \<le> y \<Longrightarrow> ulp_exp x \<le> ulp_exp y"
proof -
  assume x: "0 < x" and y: "x \<le> y"
  then have yp: "0 < y" by linarith
  have "2 powi magnitude x < (2::rat) powi (magnitude y + 1)"
    using magnitude_bounds(1) [OF x] magnitude_bounds(2) [OF yp] y by linarith
  then have "magnitude x \<le> magnitude y" by (simp only: powi_less_iff)
  then show ?thesis using x yp by (simp add: ulp_exp_def)
qed

lemma ulp_mono: "0 < x \<Longrightarrow> x \<le> y \<Longrightarrow> ulp x \<le> ulp y"
  using ulp_exp_mono [of x y] by (simp add: ulp_def powi_le_iff)

lemma ulp_double:
  assumes "0 < x" and "y < 2 * x" and "0 < y" shows "ulp y \<le> 2 * ulp x"
proof -
  have "y < 2 powi (magnitude x + 1 + 1)"
    using magnitude_bounds(2) [OF assms(1)] assms(2) by (subst power_int_add) simp_all
  then have "2 powi magnitude y < (2::rat) powi (magnitude x + 1 + 1)" using magnitude_bounds(1) [OF assms(3)] by linarith
  then have "magnitude y \<le> magnitude x + 1" by (simp only: powi_less_iff)
  then have "ulp_exp y \<le> ulp_exp x + 1" using assms(1,3) by (auto simp: ulp_exp_def max_def)
  then have "ulp y \<le> 2 powi (ulp_exp x + 1)" by (simp add: ulp_def powi_le_iff)
  then show ?thesis by (simp add: ulp_def power_int_add)
qed

lemma ulp_le:
  assumes "0 < x" and "is_b64 x" shows "ulp x \<le> x"
proof -
  have x: "x = of_int (round_even (x / ulp x)) * ulp x" using fl_value [of x x] assms(2) by (simp add: is_b64_def)
  have "0 < round_even (x / ulp x)"
  proof (rule ccontr)
    assume "\<not> 0 < round_even (x / ulp x)"
    then have "of_int (round_even (x / ulp x)) \<le> (0::rat)" by simp
    then have "x \<le> 0" by (subst x) (simp add: mult_nonpos_nonneg less_imp_le)
    then show False using assms(1) by simp
  qed
  then have "(1::rat) \<le> of_int (round_even (x / ulp x))" by simp
  then have "1 * ulp x \<le> of_int (round_even (x / ulp x)) * ulp x" by (rule mult_right_mono) (simp add: less_imp_le)
  then show ?thesis using x by simp
qed

end
