(* ===== verification/Pops_Temporal.thy ===== *)
theory Pops_Temporal
  imports Pops_Strategy Pops_Order
begin

text \<open>
  The temporal restart state of \<open>python/pops/runtime/_temporal_restart.py\<close>: the installed clock
  schedule and its validation, the cursors of an accepted boundary, the queue of the next proposal,
  the transitions an attempt makes (\<open>accept\<close>, \<open>reject\<close>, \<open>fail\<close>), the checkpoint and what a restart
  reads from it. A JSON mapping of a fixed shape is a record; a hexadecimal text is the finite number
  it spells, and \<open>None\<close> when it is not the canonical spelling of one. An operation that raises
  returns no state: its caller restores the snapshot it took before. The interpolation providers of a
  synchronization and the typed data of a history are not validated here.
\<close>

section \<open>The clock schedule of a program\<close>

record clock_row =
  cr_id :: string
  cr_identity :: string
  cr_ticks :: int

record subcycle_row =
  sb_node :: int
  sb_parent :: string
  sb_child :: string
  sb_count :: int

record sync_row =
  sy_node :: int
  sy_source :: string
  sy_target :: string

record schedule_row =
  sc_node :: int
  sc_clock :: string
  sc_cache :: bool

record history_row =
  hi_name :: string
  hi_clock :: string
  hi_depth :: int
  hi_slots :: int
  hi_ncomp :: "int option"

record program_schedule =
  ps_primary :: string
  ps_clocks :: "clock_row list"
  ps_subcycles :: "subcycle_row list"
  ps_syncs :: "sync_row list"
  ps_schedules :: "schedule_row list"
  ps_histories :: "history_row list"

type_synonym clock_table = "(string \<times> int) list"

abbreviation keys :: "('k \<times> 'v) list \<Rightarrow> 'k set" where
  "keys d \<equiv> fst ` set d"

text \<open>\<open>cr_identity\<close> is the qualified id of the descriptor of the row.\<close>

definition check_clock :: "clock_row \<Rightarrow> clock_table \<Rightarrow> clock_table result" where
  "check_clock row clocks =
     raise_if (cr_id row \<noteq> cr_identity row) ValueError
    (raise_if (cr_identity row \<in> keys clocks) ValueError
    (raise_if (cr_ticks row \<le> 0) ValueError
      (Inr (clocks @ [(cr_identity row, cr_ticks row)]))))"

definition clock_table :: "program_schedule \<Rightarrow> clock_table result" where
  "clock_table p =
     raise_if (ps_primary p = []) ValueError
    (raise_if (ps_clocks p = []) ValueError
    (bindR (foldR check_clock (ps_clocks p) []) (\<lambda>clocks.
      raise_if (map_of clocks (ps_primary p) \<noteq> Some 1) ValueError (Inr clocks))))"

definition check_node :: "int \<Rightarrow> int list \<Rightarrow> int list result" where
  "check_node node seen = raise_if (node < 0) ValueError (raise_if (node \<in> set seen) ValueError (Inr (node # seen)))"

definition check_subcycle ::
  "clock_table \<Rightarrow> subcycle_row \<Rightarrow> int list \<times> (string \<times> string \<times> int) list
     \<Rightarrow> (int list \<times> (string \<times> string \<times> int) list) result" where
  "check_subcycle clocks row st =
     bindR (check_node (sb_node row) (fst st)) (\<lambda>nodes.
      raise_if (sb_count row \<le> 0) ValueError
     (raise_if (sb_parent row \<notin> keys clocks \<or> sb_child row \<notin> keys clocks \<or> sb_parent row = sb_child row) ValueError
     (raise_if (case map_of (snd st) (sb_child row) of None \<Rightarrow> False | Some r \<Rightarrow> r \<noteq> (sb_parent row, sb_count row)) ValueError
     (raise_if (the (map_of clocks (sb_child row)) \<noteq> the (map_of clocks (sb_parent row)) * sb_count row) ValueError
       (Inr (nodes, dict_set (sb_child row) (sb_parent row, sb_count row) (snd st)))))))"

definition check_subcycles :: "clock_table \<Rightarrow> program_schedule \<Rightarrow> unit result" where
  "check_subcycles clocks p =
     bindR (foldR (check_subcycle clocks) (ps_subcycles p) ([], [])) (\<lambda>(_, relations).
      raise_if (keys clocks - {ps_primary p} \<noteq> keys relations) ValueError (Inr ()))"

definition check_sync :: "clock_table \<Rightarrow> sync_row \<Rightarrow> int list \<Rightarrow> int list result" where
  "check_sync clocks row seen =
     bindR (check_node (sy_node row) seen) (\<lambda>nodes.
      raise_if (sy_source row \<notin> keys clocks \<or> sy_target row \<notin> keys clocks \<or> sy_source row = sy_target row) ValueError
       (Inr nodes))"

definition check_schedule :: "clock_table \<Rightarrow> schedule_row \<Rightarrow> int list \<Rightarrow> int list result" where
  "check_schedule clocks row seen =
     bindR (check_node (sc_node row) seen) (\<lambda>nodes. raise_if (sc_clock row \<notin> keys clocks) ValueError (Inr nodes))"

definition check_history :: "clock_table \<Rightarrow> history_row \<Rightarrow> string list \<Rightarrow> string list result" where
  "check_history clocks row names =
     raise_if (hi_name row = [] \<or> hi_name row \<in> set names) ValueError
    (raise_if (hi_clock row \<notin> keys clocks) ValueError
    (raise_if (hi_depth row \<le> 0) ValueError
    (raise_if (hi_slots row \<noteq> hi_depth row + 1) ValueError
    (raise_if (case hi_ncomp row of None \<Rightarrow> False | Some n \<Rightarrow> n \<le> 0) ValueError
      (Inr (hi_name row # names))))))"

definition validate_program_schedule :: "program_schedule \<Rightarrow> program_schedule result" where
  "validate_program_schedule p =
     bindR (clock_table p) (\<lambda>clocks.
     bindR (check_subcycles clocks p) (\<lambda>_.
     bindR (foldR (check_sync clocks) (ps_syncs p) []) (\<lambda>_.
     bindR (foldR (check_schedule clocks) (ps_schedules p) []) (\<lambda>_.
     bindR (foldR (check_history clocks) (ps_histories p) []) (\<lambda>_. Inr p)))))"

section \<open>The cursors of an accepted boundary\<close>

datatype schedule_key = MacroStepKey | SubcycleKey int | ScheduleKey int

text \<open>A schedule cursor: the macro step, and the iteration or the tick it stands at.\<close>

datatype schedule_cursor = AtMacroStep int | AtIteration int int | AtTick int int

record history_cursor =
  hc_clock :: string
  hc_newest :: int
  hc_oldest :: int
  hc_lags :: int
  hc_extended :: bool
  hc_initialized :: bool

record cursors =
  bc_clocks :: "(string \<times> rat \<times> int) list"
  bc_schedules :: "(schedule_key \<times> schedule_cursor) list"
  bc_syncs :: "(int \<times> int \<times> int \<times> int) list"
  bc_histories :: "(string \<times> history_cursor) list"
  bc_caches :: "(int \<times> string \<times> int \<times> bool) list"

definition ticks_at :: "program_schedule \<Rightarrow> int \<Rightarrow> clock_table" where
  "ticks_at p step = map (\<lambda>row. (cr_id row, step * cr_ticks row)) (ps_clocks p)"

definition tick_of :: "clock_table \<Rightarrow> string \<Rightarrow> int result" where
  "tick_of ticks clock = (case map_of ticks clock of None \<Rightarrow> Inl KeyError | Some n \<Rightarrow> Inr n)"

definition history_cursor :: "clock_table \<Rightarrow> int \<Rightarrow> history_row \<Rightarrow> (string \<times> history_cursor) result" where
  "history_cursor ticks step row =
     bindR (tick_of ticks (hi_clock row)) (\<lambda>tick.
       Inr (hi_name row,
         \<lparr>hc_clock = hi_clock row, hc_newest = tick, hc_oldest = max 0 (tick - hi_depth row),
          hc_lags = (if 0 < step then hi_depth row else 0),
          hc_extended = (0 < step \<and> tick < hi_depth row), hc_initialized = (0 < step)\<rparr>))"

definition boundary_cursors :: "program_schedule option \<Rightarrow> rat \<Rightarrow> int \<Rightarrow> cursors result" where
  "boundary_cursors schedule time step =
     (case schedule of
        None \<Rightarrow> Inr \<lparr>bc_clocks = [], bc_schedules = [(MacroStepKey, AtMacroStep step)], bc_syncs = [], bc_histories = [],
                     bc_caches = []\<rparr>
      | Some p \<Rightarrow>
          (let ticks = ticks_at p step in
           bindR (traverse (\<lambda>row. bindR (tick_of ticks (sc_clock row)) (\<lambda>tick.
                    Inr (ScheduleKey (sc_node row), AtTick step tick))) (ps_schedules p)) (\<lambda>schedules.
           bindR (traverse (\<lambda>row. bindR (tick_of ticks (sy_source row)) (\<lambda>s. bindR (tick_of ticks (sy_target row)) (\<lambda>t.
                    Inr (sy_node row, step, s, t)))) (ps_syncs p)) (\<lambda>syncs.
           bindR (traverse (history_cursor ticks step) (ps_histories p)) (\<lambda>histories.
           bindR (traverse (\<lambda>row. bindR (tick_of ticks (sc_clock row)) (\<lambda>tick.
                    Inr (sc_node row, sc_clock row, tick, 0 < step))) (filter sc_cache (ps_schedules p))) (\<lambda>caches.
             Inr \<lparr>bc_clocks = map (\<lambda>(clock, tick). (clock, time, tick)) ticks,
                  bc_schedules = (MacroStepKey, AtMacroStep step)
                    # map (\<lambda>row. (SubcycleKey (sb_node row), AtIteration step 0)) (ps_subcycles p) @ schedules,
                  bc_syncs = syncs, bc_histories = histories, bc_caches = caches\<rparr>))))))"

section \<open>The state\<close>

text \<open>The payload of an event: a single \<open>dt\<close> that is text, or anything else.\<close>

datatype payload = DtPayload "rat option" | OtherPayload

record event =
  ev_kind :: string
  ev_time :: "rat option"
  ev_cursor :: int
  ev_payload :: payload

datatype status = Accepted | Rejected | Failed

record attempt_stats =
  st_accepted :: int
  st_rejected :: int
  st_failed :: int

record temporal =
  tm_strategy :: "manifest option"
  tm_schedule :: "program_schedule option"
  tm_time :: rat
  tm_step :: int
  tm_cursors :: cursors
  tm_last_dt :: "rat option option"
  tm_queue :: "event list"
  tm_stats :: attempt_stats
  tm_status :: status
  tm_sync :: bool
  tm_restored :: bool

definition fresh_temporal :: temporal where
  "fresh_temporal =
     \<lparr>tm_strategy = None, tm_schedule = None, tm_time = 0, tm_step = 0,
      tm_cursors = \<lparr>bc_clocks = [], bc_schedules = [(MacroStepKey, AtMacroStep 0)], bc_syncs = [], bc_histories = [], bc_caches = []\<rparr>,
      tm_last_dt = None, tm_queue = [], tm_stats = \<lparr>st_accepted = 0, st_rejected = 0, st_failed = 0\<rparr>,
      tm_status = Accepted, tm_sync = True, tm_restored = False\<rparr>"

definition proposal_kind :: string where
  "proposal_kind = ''error_controlled_dt.proposal''"

text \<open>\<open>_clock\<close> and \<open>_require_live_clock\<close>: the step is not negative and the clock is the state's.\<close>

definition live_clock :: "temporal \<Rightarrow> rat \<Rightarrow> int \<Rightarrow> 'a result \<Rightarrow> 'a result" where
  "live_clock t time step k =
     raise_if (step < 0) ValueError (raise_if (time \<noteq> tm_time t \<or> step \<noteq> tm_step t) RuntimeError k)"

section \<open>Events\<close>

definition validate_event :: "event \<Rightarrow> event result" where
  "validate_event e =
     raise_if (ev_kind e = []) ValueError
    (raise_if (ev_time e = None) ValueError
    (raise_if (ev_cursor e < 0) ValueError (Inr e)))"

definition validate_queue :: "event list \<Rightarrow> event list result" where
  "validate_queue q = traverse validate_event q"

text \<open>\<open>_event\<close>: the time of the event is a sum that may overflow.\<close>

definition mk_event :: "string \<Rightarrow> rat option \<Rightarrow> int \<Rightarrow> payload \<Rightarrow> event result" where
  "mk_event kind time cursor payload =
     raise_if (time = None) ValueError
      (validate_event \<lparr>ev_kind = kind, ev_time = time, ev_cursor = cursor, ev_payload = payload\<rparr>)"

definition queue_proposal :: "rat \<Rightarrow> rat \<Rightarrow> int \<Rightarrow> bool \<Rightarrow> temporal \<Rightarrow> (event \<times> temporal) result" where
  "queue_proposal dt time step replace t =
     live_clock t time step
      (raise_if (dt \<le> 0) ValueError
       (bindR (mk_event proposal_kind (fl (time + dt)) (step + 1) (DtPayload (Some dt))) (\<lambda>candidate.
          case tm_queue t of
            [] \<Rightarrow> raise_if replace RuntimeError (Inr (candidate, t\<lparr>tm_queue := [candidate]\<rparr>))
          | head # rest \<Rightarrow>
              if replace then Inr (candidate, t\<lparr>tm_queue := candidate # rest\<rparr>)
              else raise_if (head \<noteq> candidate) RuntimeError (Inr (candidate, t)))))"

definition queued_proposal :: "rat \<Rightarrow> int \<Rightarrow> temporal \<Rightarrow> (event \<times> rat) result" where
  "queued_proposal time step t =
     live_clock t time step
      (case tm_queue t of
         [] \<Rightarrow> Inl RuntimeError
       | e # _ \<Rightarrow>
           raise_if (ev_kind e \<noteq> proposal_kind \<or> ev_cursor e \<noteq> step + 1) RuntimeError
            (case ev_payload e of
               OtherPayload \<Rightarrow> Inl KeyError
             | DtPayload None \<Rightarrow> Inl ValueError
             | DtPayload (Some dt) \<Rightarrow>
                 raise_if (ev_time e = None \<or> ev_time e \<noteq> fl (time + dt)) RuntimeError (Inr (e, dt))))"

section \<open>Binding a program and a run\<close>

definition configure_program :: "program_schedule \<Rightarrow> rat \<Rightarrow> int \<Rightarrow> temporal \<Rightarrow> temporal result" where
  "configure_program schedule time step t =
     live_clock t time step
      (bindR (validate_program_schedule schedule) (\<lambda>candidate.
       raise_if (tm_schedule t \<noteq> None \<and> tm_schedule t \<noteq> Some candidate) RuntimeError
        (bindR (boundary_cursors (Some candidate) time step) (\<lambda>cursors.
          if tm_restored t then raise_if (tm_cursors t \<noteq> cursors) RuntimeError (Inr (t\<lparr>tm_schedule := Some candidate\<rparr>))
          else Inr (t\<lparr>tm_schedule := Some candidate, tm_cursors := cursors\<rparr>)))))"

text \<open>The kind of a strategy descriptor.\<close>

definition manifest_kind :: "manifest \<Rightarrow> datum option" where
  "manifest_kind m = map_of (fst m) ''kind''"

definition is_error_controlled :: "manifest \<Rightarrow> bool" where
  "is_error_controlled m \<longleftrightarrow> manifest_kind m = Some (Text ''error_controlled_dt'')"

definition policy_from_data :: "data \<Rightarrow> error_policy result" where
  "policy_from_data d =
     bindR (error_controlled_from_data d) (\<lambda>s. case s of ErrorControlledDt p \<Rightarrow> Inr p | _ \<Rightarrow> Inl TypeError)"

text \<open>\<open>_run_binding\<close>: a prepared run names its schedule; a bare strategy manifest is one without.\<close>

definition run_binding :: "manifest \<times> program_schedule option \<Rightarrow> (manifest \<times> program_schedule option) result" where
  "run_binding b =
     bindR (validate_manifest (fst b)) (\<lambda>m.
       case snd b of None \<Rightarrow> Inr (m, None) | Some p \<Rightarrow> bindR (validate_program_schedule p) (\<lambda>q. Inr (m, Some q)))"

definition begin_run :: "manifest \<times> program_schedule option \<Rightarrow> rat \<Rightarrow> int \<Rightarrow> temporal \<Rightarrow> temporal result" where
  "begin_run binding time step t =
     raise_if (step < 0) ValueError
      (bindR (run_binding binding) (\<lambda>(candidate, prepared).
       raise_if (prepared \<noteq> tm_schedule t \<and> prepared \<noteq> None) RuntimeError
        (live_clock t time step
          (bindR (if tm_strategy t = None \<and> \<not> tm_restored t
                  then bindR (boundary_cursors (tm_schedule t) time step) (\<lambda>c.
                    Inr (t\<lparr>tm_time := time, tm_step := step, tm_cursors := c\<rparr>))
                  else Inr t) (\<lambda>t1.
           raise_if (tm_restored t1 \<and> tm_strategy t1 \<noteq> Some candidate) RuntimeError
            (if tm_restored t1 then Inr t1
             else if is_error_controlled candidate \<and> step = 0 \<and> tm_last_dt t1 = None \<and> tm_queue t1 = []
             then bindR (policy_from_data (fst candidate)) (\<lambda>policy.
               bindR (queue_proposal (ep_dt_init policy) time step False (t1\<lparr>tm_strategy := Some candidate\<rparr>)) (\<lambda>(_, t2). Inr t2))
             else Inr (t1\<lparr>tm_strategy := Some candidate\<rparr>)))))))"

section \<open>Attempts\<close>

definition before_attempt :: "rat \<Rightarrow> int \<Rightarrow> temporal \<Rightarrow> unit result" where
  "before_attempt time step t = live_clock t time step (Inr ())"

text \<open>\<open>before_queued_attempt\<close> and the same test in \<open>accept\<close>: the event is the head of the queue.\<close>

definition is_queue_head :: "event \<Rightarrow> temporal \<Rightarrow> bool" where
  "is_queue_head e t \<longleftrightarrow> (case tm_queue t of [] \<Rightarrow> False | head # _ \<Rightarrow> e = head)"

definition before_queued_attempt :: "event \<Rightarrow> rat \<Rightarrow> int \<Rightarrow> temporal \<Rightarrow> unit result" where
  "before_queued_attempt e time step t =
     bindR (before_attempt time step t) (\<lambda>_.
     bindR (validate_event e) (\<lambda>candidate. raise_if (\<not> is_queue_head candidate t) RuntimeError (Inr ())))"

definition accept :: "rat \<Rightarrow> int \<Rightarrow> rat \<Rightarrow> int \<Rightarrow> event option \<Rightarrow> temporal \<Rightarrow> temporal result" where
  "accept before old_step now step consumed t =
     raise_if (old_step < 0 \<or> step < 0) ValueError
    (raise_if (step \<noteq> old_step + 1 \<or> now \<le> before) RuntimeError
    (bindR (case consumed of
              None \<Rightarrow> Inr (tm_queue t)
            | Some e \<Rightarrow> bindR (validate_event e) (\<lambda>candidate.
                raise_if (\<not> is_queue_head candidate t) RuntimeError
                 (raise_if (ev_time candidate \<noteq> Some now \<or> ev_cursor candidate \<noteq> step) RuntimeError
                   (Inr (tl (tm_queue t)))))) (\<lambda>queue.
     bindR (boundary_cursors (tm_schedule t) now step) (\<lambda>cursors.
       Inr (t\<lparr>tm_queue := queue, tm_time := now, tm_step := step, tm_cursors := cursors,
              tm_last_dt := Some (fl (now - before)),
              tm_stats := (tm_stats t)\<lparr>st_accepted := st_accepted (tm_stats t) + 1\<rparr>,
              tm_status := Accepted, tm_sync := True, tm_restored := False\<rparr>)))))"

definition bump :: "status \<Rightarrow> attempt_stats \<Rightarrow> attempt_stats" where
  "bump s st = (case s of
     Accepted \<Rightarrow> st\<lparr>st_accepted := st_accepted st + 1\<rparr>
   | Rejected \<Rightarrow> st\<lparr>st_rejected := st_rejected st + 1\<rparr>
   | Failed \<Rightarrow> st\<lparr>st_failed := st_failed st + 1\<rparr>)"

definition record_unsuccessful :: "status \<Rightarrow> rat \<Rightarrow> int \<Rightarrow> temporal \<Rightarrow> temporal result" where
  "record_unsuccessful s time step t =
     live_clock t time step
      (Inr (t\<lparr>tm_stats := bump s (tm_stats t), tm_status := s, tm_sync := False, tm_restored := False\<rparr>))"

text \<open>The cursor of one qualified clock at the accepted boundary.\<close>

definition cursor_for_clock :: "string \<Rightarrow> temporal \<Rightarrow> (rat \<times> int) result" where
  "cursor_for_clock clock t =
     raise_if (tm_status t \<noteq> Accepted \<or> \<not> tm_sync t) RuntimeError
      (case map_of (bc_clocks (tm_cursors t)) clock of
         None \<Rightarrow> Inl RuntimeError
       | Some c \<Rightarrow> raise_if (fst c \<noteq> tm_time t) RuntimeError (Inr c))"

section \<open>Checkpoint and restart\<close>

definition validate_controller :: "rat option option \<Rightarrow> rat option option result" where
  "validate_controller prior =
     (case prior of
        None \<Rightarrow> Inr None
      | Some None \<Rightarrow> Inl ValueError
      | Some (Some dt) \<Rightarrow> raise_if (dt \<le> 0) ValueError (Inr prior))"

text \<open>\<open>min(dt_max, last * growth)\<close>: a product that overflows is above any bound.\<close>

definition next_proposal :: "error_policy \<Rightarrow> rat \<Rightarrow> rat" where
  "next_proposal p dt = (case fl (dt * ep_growth p) of None \<Rightarrow> ep_dt_max p | Some q \<Rightarrow> min (ep_dt_max p) q)"

definition validate_controller_events ::
  "event list \<Rightarrow> manifest \<Rightarrow> rat option option \<Rightarrow> rat \<Rightarrow> int \<Rightarrow> unit result" where
  "validate_controller_events events strategy prior time step =
     raise_if (step = 0 \<and> prior \<noteq> None) ValueError
    (raise_if (0 < step \<and> prior = None) ValueError
    (if \<not> is_error_controlled strategy then raise_if (events \<noteq> []) ValueError (Inr ())
     else
       (case events of
          [proposal] \<Rightarrow>
            raise_if (ev_kind proposal \<noteq> proposal_kind \<or> ev_cursor proposal \<noteq> step + 1) ValueError
             (case ev_payload proposal of
                DtPayload (Some dt) \<Rightarrow>
                  raise_if (dt \<le> 0) ValueError
                 (raise_if (ev_time proposal = None \<or> ev_time proposal \<noteq> fl (time + dt)) ValueError
                  (bindR (policy_from_data (fst strategy)) (\<lambda>policy.
                    case prior of
                      None \<Rightarrow> raise_if (step \<noteq> 0) ValueError (raise_if (dt \<noteq> ep_dt_init policy) ValueError (Inr ()))
                    | Some None \<Rightarrow> Inl ValueError
                    | Some (Some l) \<Rightarrow> raise_if (dt \<noteq> next_proposal policy l) ValueError (Inr ()))))
              | _ \<Rightarrow> Inl ValueError)
        | _ \<Rightarrow> Inl ValueError)))"

text \<open>The serialized state; \<open>sv_version\<close> is the schema version.\<close>

record saved =
  sv_version :: int
  sv_strategy :: manifest
  sv_schedule :: "program_schedule option"
  sv_time :: rat
  sv_step :: int
  sv_cursors :: cursors
  sv_last_dt :: "rat option option"
  sv_queue :: "event list"
  sv_stats :: attempt_stats
  sv_status :: status
  sv_sync :: bool

definition stats_ok :: "attempt_stats \<Rightarrow> bool" where
  "stats_ok s \<longleftrightarrow> 0 \<le> st_accepted s \<and> 0 \<le> st_rejected s \<and> 0 \<le> st_failed s"

definition validate_schedule_option :: "program_schedule option \<Rightarrow> program_schedule option result" where
  "validate_schedule_option s = (case s of None \<Rightarrow> Inr None | Some p \<Rightarrow> bindR (validate_program_schedule p) (\<lambda>q. Inr (Some q)))"

definition checkpoint :: "rat \<Rightarrow> int \<Rightarrow> temporal \<Rightarrow> saved result" where
  "checkpoint time step t =
     live_clock t time step
      (raise_if (tm_status t \<noteq> Accepted \<or> \<not> tm_sync t) RuntimeError
        (case tm_strategy t of
           None \<Rightarrow> Inl RuntimeError
         | Some m \<Rightarrow>
             bindR (validate_manifest m) (\<lambda>_.
             bindR (validate_schedule_option (tm_schedule t)) (\<lambda>_.
             bindR (boundary_cursors (tm_schedule t) time step) (\<lambda>expected.
               raise_if (tm_cursors t \<noteq> expected) RuntimeError
                (bindR (validate_controller (tm_last_dt t)) (\<lambda>_.
                 bindR (validate_queue (tm_queue t)) (\<lambda>events.
                 bindR (validate_controller_events events m (tm_last_dt t) time step) (\<lambda>_.
                   raise_if (\<not> stats_ok (tm_stats t)) RuntimeError
                    (Inr \<lparr>sv_version = 2, sv_strategy = m, sv_schedule = tm_schedule t, sv_time = tm_time t,
                          sv_step = tm_step t, sv_cursors = tm_cursors t, sv_last_dt = tm_last_dt t,
                          sv_queue = tm_queue t, sv_stats = tm_stats t, sv_status = tm_status t,
                          sv_sync = tm_sync t\<rparr>))))))))))"

text \<open>\<open>from_json\<close>; the installed schedule is \<open>None\<close> when the caller names none.\<close>

definition from_saved :: "saved \<Rightarrow> rat \<Rightarrow> int \<Rightarrow> program_schedule option option \<Rightarrow> temporal result" where
  "from_saved d time step installed =
     raise_if (sv_version d \<noteq> 2) ValueError
    (bindR (validate_manifest (sv_strategy d)) (\<lambda>strategy.
     bindR (validate_schedule_option (sv_schedule d)) (\<lambda>schedule.
     bindR (case installed of
              None \<Rightarrow> Inr ()
            | Some s \<Rightarrow> bindR (validate_schedule_option s) (\<lambda>i. raise_if (schedule \<noteq> i) ValueError (Inr ()))) (\<lambda>_.
       raise_if (step < 0) ValueError
      (raise_if (sv_time d \<noteq> time \<or> sv_step d \<noteq> step) ValueError
       (bindR (boundary_cursors schedule time step) (\<lambda>expected.
         raise_if (sv_cursors d \<noteq> expected) ValueError
        (raise_if (\<not> stats_ok (sv_stats d)) ValueError
        (raise_if (sv_status d \<noteq> Accepted \<or> \<not> sv_sync d) ValueError
         (bindR (validate_controller (sv_last_dt d)) (\<lambda>controller.
          bindR (validate_queue (sv_queue d)) (\<lambda>events.
          bindR (validate_controller_events events strategy controller time step) (\<lambda>_.
            Inr \<lparr>tm_strategy = Some strategy, tm_schedule = schedule, tm_time = time, tm_step = step,
                 tm_cursors = sv_cursors d, tm_last_dt = controller, tm_queue = events, tm_stats = sv_stats d,
                 tm_status = Accepted, tm_sync = True, tm_restored = True\<rparr>)))))))))))))"

section \<open>Validated schedules\<close>

lemma clock_fold:
  assumes "foldR check_clock rows acc = Inr clocks"
  shows "clocks = acc @ map (\<lambda>row. (cr_id row, cr_ticks row)) rows"
  using assms
proof (induction rows arbitrary: acc)
  case (Cons row rows)
  then obtain mid where m: "check_clock row acc = Inr mid" and r: "foldR check_clock rows mid = Inr clocks" by auto
  have "mid = acc @ [(cr_id row, cr_ticks row)]" using m by (auto simp: check_clock_def)
  then show ?case using Cons.IH [OF r] by simp
qed simp

lemma clock_table_value: "clock_table p = Inr clocks \<Longrightarrow> clocks = map (\<lambda>row. (cr_id row, cr_ticks row)) (ps_clocks p)"
  using clock_fold [of "ps_clocks p" "[]"] by (auto simp: clock_table_def)

lemma subcycle_step:
  assumes "check_subcycle clocks row st = Inr st'"
  shows "keys (snd st') = insert (sb_child row) (keys (snd st))" and "sb_parent row \<in> keys clocks" "sb_child row \<in> keys clocks"
    and "0 < sb_count row" "the (map_of clocks (sb_child row)) = the (map_of clocks (sb_parent row)) * sb_count row"
proof -
  have "snd st' = dict_set (sb_child row) (sb_parent row, sb_count row) (snd st)"
    and "\<not> (sb_parent row \<notin> keys clocks \<or> sb_child row \<notin> keys clocks \<or> sb_parent row = sb_child row)" "\<not> sb_count row \<le> 0"
    and "\<not> the (map_of clocks (sb_child row)) \<noteq> the (map_of clocks (sb_parent row)) * sb_count row"
    using assms unfolding check_subcycle_def bindR_Inr_iff raise_if_Inr_iff by (elim exE conjE; force)+
  then show "keys (snd st') = insert (sb_child row) (keys (snd st))" and "sb_parent row \<in> keys clocks" "sb_child row \<in> keys clocks"
    and "0 < sb_count row" "the (map_of clocks (sb_child row)) = the (map_of clocks (sb_parent row)) * sb_count row"
    by (simp_all add: not_le)
qed

lemma subcycle_fold:
  assumes "foldR (check_subcycle clocks) rows st = Inr st'"
  shows "keys (snd st') = keys (snd st) \<union> sb_child ` set rows
     \<and> (\<forall>row \<in> set rows. sb_parent row \<in> keys clocks \<and> sb_child row \<in> keys clocks \<and> 0 < sb_count row
           \<and> the (map_of clocks (sb_child row)) = the (map_of clocks (sb_parent row)) * sb_count row)"
  using assms
proof (induction rows arbitrary: st)
  case (Cons row rows)
  then obtain mid where m: "check_subcycle clocks row st = Inr mid" and r: "foldR (check_subcycle clocks) rows mid = Inr st'" by auto
  show ?case using Cons.IH [OF r] subcycle_step [OF m] by simp
qed simp

lemma sync_fold:
  "foldR (check_sync clocks) rows acc = Inr seen \<Longrightarrow> \<forall>row \<in> set rows. sy_source row \<in> keys clocks \<and> sy_target row \<in> keys clocks"
  by (induction rows arbitrary: acc) (auto simp: check_sync_def)

lemma schedule_fold:
  "foldR (check_schedule clocks) rows acc = Inr seen \<Longrightarrow> \<forall>row \<in> set rows. sc_clock row \<in> keys clocks"
  by (induction rows arbitrary: acc) (auto simp: check_schedule_def)

lemma history_fold:
  "foldR (check_history clocks) rows acc = Inr seen \<Longrightarrow> \<forall>row \<in> set rows. hi_clock row \<in> keys clocks"
  by (induction rows arbitrary: acc) (auto simp: check_history_def)

lemma schedule_parts:
  assumes "validate_program_schedule p = Inr q"
  shows "\<exists>clocks nodes rel s1 s2 s3. clock_table p = Inr clocks
     \<and> foldR (check_subcycle clocks) (ps_subcycles p) ([], []) = Inr (nodes, rel) \<and> keys clocks - {ps_primary p} = keys rel
     \<and> foldR (check_sync clocks) (ps_syncs p) [] = Inr s1 \<and> foldR (check_schedule clocks) (ps_schedules p) [] = Inr s2
     \<and> foldR (check_history clocks) (ps_histories p) [] = Inr s3 \<and> q = p"
proof -
  obtain clocks u s1 s2 s3 where a: "clock_table p = Inr clocks" "check_subcycles clocks p = Inr u"
    "foldR (check_sync clocks) (ps_syncs p) [] = Inr s1" "foldR (check_schedule clocks) (ps_schedules p) [] = Inr s2"
    "foldR (check_history clocks) (ps_histories p) [] = Inr s3" and "Inr p = (Inr q :: program_schedule result)"
    using assms unfolding validate_program_schedule_def bindR_Inr_iff by (elim exE conjE) (rule that)
  then have q: "q = p" by simp
  obtain x where f: "foldR (check_subcycle clocks) (ps_subcycles p) ([], []) = Inr x"
    and c: "(case x of (_, relations) \<Rightarrow> raise_if (keys clocks - {ps_primary p} \<noteq> keys relations) ValueError (Inr ())) = Inr u"
    using a(2) unfolding check_subcycles_def bindR_Inr_iff by (elim exE conjE) (rule that)
  obtain nodes rel where x: "x = (nodes, rel)" by (cases x)
  have "keys clocks - {ps_primary p} = keys rel" using c by (simp add: x)
  then show ?thesis using a f q x by (intro exI conjI) simp_all
qed

text \<open>A validated schedule: every name is a declared clock, and a child ticks \<open>count\<close> times as often as its parent.\<close>

definition schedule_ok :: "program_schedule \<Rightarrow> bool" where
  "schedule_ok p \<longleftrightarrow> validate_program_schedule p = Inr p"

lemma validated_schedule:
  assumes "validate_program_schedule p = Inr q"
  shows "q = p"
    and "\<forall>row \<in> set (ps_schedules p). sc_clock row \<in> cr_id ` set (ps_clocks p)"
    and "\<forall>row \<in> set (ps_syncs p). sy_source row \<in> cr_id ` set (ps_clocks p) \<and> sy_target row \<in> cr_id ` set (ps_clocks p)"
    and "\<forall>row \<in> set (ps_histories p). hi_clock row \<in> cr_id ` set (ps_clocks p)"
    and "\<forall>row \<in> set (ps_clocks p). cr_id row \<noteq> ps_primary p \<longrightarrow> cr_id row \<in> sb_child ` set (ps_subcycles p)"
    and "\<forall>row \<in> set (ps_subcycles p).
           the (map_of (ticks_at p 1) (sb_child row)) = the (map_of (ticks_at p 1) (sb_parent row)) * sb_count row
           \<and> sb_parent row \<in> cr_id ` set (ps_clocks p) \<and> sb_child row \<in> cr_id ` set (ps_clocks p) \<and> 0 < sb_count row"
    and "map_of (ticks_at p 1) (ps_primary p) = Some 1"
proof -
  obtain clocks nodes rel s1 s2 s3 where c: "clock_table p = Inr clocks"
    and sub: "foldR (check_subcycle clocks) (ps_subcycles p) ([], []) = Inr (nodes, rel)"
    and cover: "keys clocks - {ps_primary p} = keys rel"
    and sy: "foldR (check_sync clocks) (ps_syncs p) [] = Inr s1"
    and sc: "foldR (check_schedule clocks) (ps_schedules p) [] = Inr s2"
    and hi: "foldR (check_history clocks) (ps_histories p) [] = Inr s3" and q: "q = p"
    using schedule_parts [OF assms] by (elim exE conjE) (rule that)
  note v = clock_table_value [OF c]
  have k: "keys clocks = cr_id ` set (ps_clocks p)" unfolding v by (simp add: image_image)
  have t: "ticks_at p 1 = clocks" unfolding v by (simp add: ticks_at_def)
  show "q = p" by (rule q)
  show "\<forall>row \<in> set (ps_schedules p). sc_clock row \<in> cr_id ` set (ps_clocks p)" using schedule_fold [OF sc] unfolding k .
  show "\<forall>row \<in> set (ps_syncs p). sy_source row \<in> cr_id ` set (ps_clocks p) \<and> sy_target row \<in> cr_id ` set (ps_clocks p)"
    using sync_fold [OF sy] unfolding k .
  show "\<forall>row \<in> set (ps_histories p). hi_clock row \<in> cr_id ` set (ps_clocks p)" using history_fold [OF hi] unfolding k .
  have "keys rel = sb_child ` set (ps_subcycles p)" using conjunct1 [OF subcycle_fold [OF sub]] by simp
  then have rel: "cr_id ` set (ps_clocks p) - {ps_primary p} = sb_child ` set (ps_subcycles p)" using cover k by (simp only:)
  show "\<forall>row \<in> set (ps_clocks p). cr_id row \<noteq> ps_primary p \<longrightarrow> cr_id row \<in> sb_child ` set (ps_subcycles p)"
    unfolding rel [symmetric] by simp
  show "\<forall>row \<in> set (ps_subcycles p).
           the (map_of (ticks_at p 1) (sb_child row)) = the (map_of (ticks_at p 1) (sb_parent row)) * sb_count row
           \<and> sb_parent row \<in> cr_id ` set (ps_clocks p) \<and> sb_child row \<in> cr_id ` set (ps_clocks p) \<and> 0 < sb_count row"
    using conjunct2 [OF subcycle_fold [OF sub]] unfolding t k by (simp only: conj_ac)
  show "map_of (ticks_at p 1) (ps_primary p) = Some 1" using c unfolding t clock_table_def by simp
qed

lemma ticks_scaled: "map_of (ticks_at p step) c = map_option (\<lambda>n. step * n) (map_of (ticks_at p 1) c)"
proof -
  have "map_of (map (\<lambda>row. (cr_id row, step * cr_ticks row)) rows) c
      = map_option (\<lambda>n. step * n) (map_of (map (\<lambda>row. (cr_id row, cr_ticks row)) rows) c)" for rows :: "clock_row list"
    by (induction rows) auto
  then show ?thesis by (simp add: ticks_at_def)
qed

lemma tick_of_declared:
  assumes "c \<in> cr_id ` set (ps_clocks p)" shows "tick_of (ticks_at p step) c = Inr (the (map_of (ticks_at p step) c))"
proof -
  have "keys (ticks_at p step) = cr_id ` set (ps_clocks p)" by (force simp: ticks_at_def)
  then have "map_of (ticks_at p step) c \<noteq> None" using assms by (simp add: map_of_eq_None_iff)
  then show ?thesis by (auto simp: tick_of_def)
qed

lemma traverse_values: "(\<And>x. x \<in> set xs \<Longrightarrow> f x = Inr (g x)) \<Longrightarrow> traverse f xs = Inr (map g xs)"
  by (induction xs) auto

lemma boundary_value:
  assumes "schedule_ok p"
  shows "\<exists>c. boundary_cursors (Some p) time step = Inr c
     \<and> bc_clocks c = map (\<lambda>(clock, tick). (clock, time, tick)) (ticks_at p step)"
proof -
  note v = validated_schedule [OF assms [unfolded schedule_ok_def]]
  have a: "traverse (\<lambda>row. bindR (tick_of (ticks_at p step) (sc_clock row)) (\<lambda>tick. Inr (ScheduleKey (sc_node row), AtTick step tick)))
      (ps_schedules p) = Inr (map (\<lambda>row. (ScheduleKey (sc_node row), AtTick step (the (map_of (ticks_at p step) (sc_clock row))))) (ps_schedules p))"
    using v(2) by (intro traverse_values) (simp add: tick_of_declared)
  have b: "traverse (\<lambda>row. bindR (tick_of (ticks_at p step) (sy_source row)) (\<lambda>s. bindR (tick_of (ticks_at p step) (sy_target row))
      (\<lambda>t. Inr (sy_node row, step, s, t)))) (ps_syncs p)
      = Inr (map (\<lambda>row. (sy_node row, step, the (map_of (ticks_at p step) (sy_source row)), the (map_of (ticks_at p step) (sy_target row))))
        (ps_syncs p))"
    using v(3) by (intro traverse_values) (simp add: tick_of_declared)
  have c: "\<exists>h. traverse (history_cursor (ticks_at p step) step) (ps_histories p) = Inr h"
    using v(4) traverse_is_value [of "ps_histories p" "history_cursor (ticks_at p step) step"]
    by (force simp: history_cursor_def tick_of_declared is_value_iff)
  have d: "traverse (\<lambda>row. bindR (tick_of (ticks_at p step) (sc_clock row)) (\<lambda>tick. Inr (sc_node row, sc_clock row, tick, 0 < step)))
      (filter sc_cache (ps_schedules p))
      = Inr (map (\<lambda>row. (sc_node row, sc_clock row, the (map_of (ticks_at p step) (sc_clock row)), 0 < step)) (filter sc_cache (ps_schedules p)))"
    using v(2) by (intro traverse_values) (simp add: tick_of_declared)
  show ?thesis using c by (auto simp: boundary_cursors_def Let_def a b d)
qed

text \<open>
  At every accepted boundary the clocks of a validated schedule stand at nested ticks: the primary clock
  at the macro step, and the clock of a subcycle at \<open>count\<close> times the tick of its parent.
\<close>

theorem clock_ticks_nest:
  assumes "validate_program_schedule p = Inr q" and "boundary_cursors (Some q) time step = Inr c"
    and "row \<in> set (ps_subcycles q)"
  shows "\<exists>parent. map_of (bc_clocks c) (sb_parent row) = Some (time, parent)
     \<and> map_of (bc_clocks c) (sb_child row) = Some (time, parent * sb_count row)
     \<and> map_of (bc_clocks c) (ps_primary q) = Some (time, step)"
proof -
  note v = validated_schedule [OF assms(1)]
  have "schedule_ok q" using assms(1) v(1) by (simp add: schedule_ok_def)
  then have "bc_clocks c = map (\<lambda>(clock, tick). (clock, time, tick)) (ticks_at q step)"
    using boundary_value [of q time step] assms(2) by auto
  then have m: "map_of (bc_clocks c) k = map_option (Pair time) (map_of (ticks_at q step) k)" for k
    using map_of_map [of "Pair time" "ticks_at q step"] by (simp add: fun_eq_iff)
  have row: "the (map_of (ticks_at p 1) (sb_child row)) = the (map_of (ticks_at p 1) (sb_parent row)) * sb_count row"
    "sb_parent row \<in> cr_id ` set (ps_clocks p)" "sb_child row \<in> cr_id ` set (ps_clocks p)"
    using v(6) assms(3) by (simp_all add: v(1))
  have "\<exists>n. map_of (ticks_at p 1) k = Some n" if k: "k \<in> cr_id ` set (ps_clocks p)" for k
    using tick_of_declared [OF k, of 1] by (auto simp: tick_of_def split: option.splits)
  then obtain a b where "map_of (ticks_at p 1) (sb_parent row) = Some a" "map_of (ticks_at p 1) (sb_child row) = Some b"
    using row(2,3) by blast
  then show ?thesis using row(1) v(1,7) by (simp add: m ticks_scaled [of p step] mult.assoc)
qed

section \<open>The states a run reaches\<close>

text \<open>The proposal that is queued at a clock.\<close>

definition proposal_at :: "rat \<Rightarrow> int \<Rightarrow> rat \<Rightarrow> event" where
  "proposal_at time step dt =
     \<lparr>ev_kind = proposal_kind, ev_time = fl (time + dt), ev_cursor = step + 1, ev_payload = DtPayload (Some dt)\<rparr>"

definition queue_ok :: "temporal \<Rightarrow> bool" where
  "queue_ok t \<longleftrightarrow> tm_queue t = []
     \<or> (\<exists>m dt. tm_strategy t = Some m \<and> is_error_controlled m \<and> 0 < dt \<and> fl (tm_time t + dt) \<noteq> None
          \<and> tm_queue t = [proposal_at (tm_time t) (tm_step t) dt])"

fun last_dt_ok :: "int \<Rightarrow> rat option option \<Rightarrow> bool" where
  "last_dt_ok step None \<longleftrightarrow> step = 0"
| "last_dt_ok step (Some None) \<longleftrightarrow> False"
| "last_dt_ok step (Some (Some d)) \<longleftrightarrow> 0 < step \<and> 0 < d"

definition temporal_ok :: "temporal \<Rightarrow> bool" where
  "temporal_ok t \<longleftrightarrow>
     0 \<le> tm_step t \<and> 0 \<le> tm_time t \<and> is_b64 (tm_time t)
     \<and> (\<forall>m. tm_strategy t = Some m \<longrightarrow> validate_manifest m = Inr m)
     \<and> (\<forall>p. tm_schedule t = Some p \<longrightarrow> schedule_ok p)
     \<and> boundary_cursors (tm_schedule t) (tm_time t) (tm_step t) = Inr (tm_cursors t)
     \<and> (tm_status t = Accepted \<longleftrightarrow> tm_sync t)
     \<and> stats_ok (tm_stats t) \<and> st_accepted (tm_stats t) = tm_step t
     \<and> last_dt_ok (tm_step t) (tm_last_dt t)
     \<and> queue_ok t"

text \<open>
  The transitions of the state under the runtime: binding a program and a run, publishing a proposal,
  an attempt that lands, one that does not (with the rollback of the enclosing transaction, which
  keeps the statistics, or without it), and a checkpoint read back by another process.
\<close>

definition restore_stats :: "temporal \<Rightarrow> temporal \<Rightarrow> temporal" where
  "restore_stats snapshot failed =
     (let a = tm_stats snapshot; f = tm_stats failed in
      if st_rejected f < st_rejected a \<or> st_failed f < st_failed a then snapshot
      else snapshot\<lparr>tm_stats := a\<lparr>st_rejected := st_rejected a + st_rejected f - st_rejected a,
                                   st_failed := st_failed a + st_failed f - st_failed a\<rparr>\<rparr>)"

inductive temporal_step :: "temporal \<Rightarrow> temporal \<Rightarrow> bool" where
  configure: "configure_program p time step t = Inr t' \<Longrightarrow> temporal_step t t'"
| bind: "begin_run b time step t = Inr t' \<Longrightarrow> tm_queue t = [] \<or> tm_strategy t = Some (fst b) \<Longrightarrow> temporal_step t t'"
| queue: "tm_strategy t = Some m \<Longrightarrow> is_error_controlled m \<Longrightarrow> queue_proposal dt time step replace t = Inr (e, t')
    \<Longrightarrow> temporal_step t t'"
| attempt: "before_attempt time step t = Inr () \<Longrightarrow> tm_queue t = [] \<Longrightarrow> is_b64 now
    \<Longrightarrow> accept time step now step' None t = Inr t' \<Longrightarrow> temporal_step t t'"
| queued_attempt: "before_queued_attempt e time step t = Inr () \<Longrightarrow> is_b64 now
    \<Longrightarrow> accept time step now step' (Some e) t = Inr t' \<Longrightarrow> temporal_step t t'"
| unsuccessful: "s \<noteq> Accepted \<Longrightarrow> record_unsuccessful s time step t = Inr t' \<Longrightarrow> temporal_step t t'"
| rolled_back: "s \<noteq> Accepted \<Longrightarrow> record_unsuccessful s time step t = Inr t' \<Longrightarrow> temporal_step t (restore_stats t t')"
| restart: "checkpoint time step t = Inr d \<Longrightarrow> from_saved d time step installed = Inr t' \<Longrightarrow> temporal_step t t'"

inductive_cases temporal_stepE: "temporal_step t t'"

lemma live_clock_Inr [simp]:
  "live_clock t time step k = Inr x \<longleftrightarrow> 0 \<le> step \<and> time = tm_time t \<and> step = tm_step t \<and> k = Inr x"
  by (auto simp: live_clock_def)

lemma schedule_ok_validate: "validate_program_schedule p = Inr q \<Longrightarrow> q = p \<and> schedule_ok p"
  using validated_schedule(1) by (auto simp: schedule_ok_def)

lemma queue_proposal_value:
  assumes "queue_proposal dt time step replace t = Inr (e, t')"
  shows "e = proposal_at (tm_time t) (tm_step t) dt \<and> 0 < dt \<and> fl (tm_time t + dt) \<noteq> None \<and> time = tm_time t \<and> step = tm_step t
     \<and> t' = t\<lparr>tm_queue := e # tl (tm_queue t)\<rparr> \<and> (tm_queue t \<noteq> [] \<and> \<not> replace \<longrightarrow> hd (tm_queue t) = e)"
proof -
  have a: "0 \<le> step \<and> time = tm_time t \<and> step = tm_step t \<and> \<not> dt \<le> 0
    \<and> bindR (mk_event proposal_kind (fl (time + dt)) (step + 1) (DtPayload (Some dt))) (\<lambda>candidate.
          case tm_queue t of
            [] \<Rightarrow> raise_if replace RuntimeError (Inr (candidate, t\<lparr>tm_queue := [candidate]\<rparr>))
          | head # rest \<Rightarrow>
              if replace then Inr (candidate, t\<lparr>tm_queue := candidate # rest\<rparr>)
              else raise_if (head \<noteq> candidate) RuntimeError (Inr (candidate, t))) = Inr (e, t')"
    using assms unfolding queue_proposal_def live_clock_Inr raise_if_Inr_iff .
  then have live: "0 \<le> step" "time = tm_time t" "step = tm_step t" "0 < dt" by (simp_all add: not_le)
  obtain c where c: "mk_event proposal_kind (fl (time + dt)) (step + 1) (DtPayload (Some dt)) = Inr c"
    and q: "(case tm_queue t of
            [] \<Rightarrow> raise_if replace RuntimeError (Inr (c, t\<lparr>tm_queue := [c]\<rparr>))
          | head # rest \<Rightarrow>
              if replace then Inr (c, t\<lparr>tm_queue := c # rest\<rparr>)
              else raise_if (head \<noteq> c) RuntimeError (Inr (c, t))) = Inr (e, t')"
    using a unfolding bindR_Inr_iff by (elim exE conjE) (rule that)
  have c': "c = proposal_at (tm_time t) (tm_step t) dt" "fl (tm_time t + dt) \<noteq> None"
    using c live by (auto simp: mk_event_def validate_event_def proposal_at_def)
  show ?thesis using q live c' by (cases "tm_queue t") (auto split: if_splits)
qed

lemma queue_ok_queued:
  assumes "queue_ok t" and "tm_strategy t = Some m" "is_error_controlled m" and "queue_proposal dt time step replace t = Inr (e, t')"
  shows "queue_ok t'"
proof -
  have "tl (tm_queue t) = []" using assms(1) by (auto simp: queue_ok_def)
  then show ?thesis using queue_proposal_value [OF assms(4)] assms(2,3) by (auto simp: queue_ok_def)
qed

lemma temporal_ok_queue:
  assumes "temporal_ok t" and "tm_strategy t = Some m" "is_error_controlled m" and "queue_proposal dt time step replace t = Inr (e, t')"
  shows "temporal_ok t'"
proof -
  have "queue_ok t'" using queue_ok_queued [OF _ assms(2,3,4)] assms(1) by (simp add: temporal_ok_def)
  moreover obtain q where "t' = t\<lparr>tm_queue := q\<rparr>" using queue_proposal_value [OF assms(4)] by blast
  ultimately show ?thesis using assms(1) by (simp add: temporal_ok_def)
qed

lemma temporal_ok_configure:
  assumes "temporal_ok t" and "configure_program p time step t = Inr t'" shows "temporal_ok t'"
proof -
  obtain q c where p: "validate_program_schedule p = Inr q" and live: "time = tm_time t" "step = tm_step t"
    and c: "boundary_cursors (Some q) time step = Inr c"
    and t': "(if tm_restored t then raise_if (tm_cursors t \<noteq> c) RuntimeError (Inr (t\<lparr>tm_schedule := Some q\<rparr>))
          else Inr (t\<lparr>tm_schedule := Some q, tm_cursors := c\<rparr>)) = Inr t'"
    using assms(2) unfolding configure_program_def live_clock_Inr bindR_Inr_iff raise_if_Inr_iff by (elim exE conjE) (rule that)
  have "t' = t\<lparr>tm_schedule := Some q, tm_cursors := c\<rparr>" using t' by (auto split: if_splits)
  then show ?thesis using assms(1) schedule_ok_validate [OF p] c live by (simp add: temporal_ok_def queue_ok_def)
qed

lemma run_binding_manifest: "run_binding b = Inr (m, s) \<Longrightarrow> validate_manifest (fst b) = Inr m"
  by (auto simp: run_binding_def split: option.splits)

lemma temporal_ok_begin:
  assumes "temporal_ok t" and "begin_run b time step t = Inr t'" and q: "tm_queue t = [] \<or> tm_strategy t = Some (fst b)"
  shows "temporal_ok t'"
proof -
  obtain x where x: "run_binding b = Inr x" and body: "(case x of (candidate, prepared) \<Rightarrow>
       raise_if (prepared \<noteq> tm_schedule t \<and> prepared \<noteq> None) RuntimeError
        (live_clock t time step
          (bindR (if tm_strategy t = None \<and> \<not> tm_restored t
                  then bindR (boundary_cursors (tm_schedule t) time step) (\<lambda>c.
                    Inr (t\<lparr>tm_time := time, tm_step := step, tm_cursors := c\<rparr>))
                  else Inr t) (\<lambda>t1.
           raise_if (tm_restored t1 \<and> tm_strategy t1 \<noteq> Some candidate) RuntimeError
            (if tm_restored t1 then Inr t1
             else if is_error_controlled candidate \<and> step = 0 \<and> tm_last_dt t1 = None \<and> tm_queue t1 = []
             then bindR (policy_from_data (fst candidate)) (\<lambda>policy.
               bindR (queue_proposal (ep_dt_init policy) time step False (t1\<lparr>tm_strategy := Some candidate\<rparr>)) (\<lambda>(_, t2). Inr t2))
             else Inr (t1\<lparr>tm_strategy := Some candidate\<rparr>)))))) = Inr t'"
    using assms(2) unfolding begin_run_def bindR_Inr_iff raise_if_Inr_iff by (elim exE conjE) (rule that)
  obtain m s where xs: "x = (m, s)" by (cases x)
  have live: "time = tm_time t" "step = tm_step t" using body by (simp_all add: xs)
  have m: "validate_manifest (fst b) = Inr m" using run_binding_manifest x xs by simp
  have mm: "validate_manifest m = Inr m" by (rule validate_manifest_idem [OF m])
  have t1: "(if tm_strategy t = None \<and> \<not> tm_restored t
                  then bindR (boundary_cursors (tm_schedule t) time step) (\<lambda>c.
                    Inr (t\<lparr>tm_time := time, tm_step := step, tm_cursors := c\<rparr>))
                  else Inr t) = Inr t"
    using assms(1) live by (simp add: temporal_ok_def)
  have bound: "temporal_ok (t\<lparr>tm_strategy := Some m\<rparr>)"
  proof -
    have "queue_ok (t\<lparr>tm_strategy := Some m\<rparr>)"
    proof (cases "tm_queue t = []")
      case False
      then have s: "tm_strategy t = Some (fst b)" using q by simp
      then have "m = fst b" using m assms(1) by (simp add: temporal_ok_def)
      then show ?thesis using assms(1) s by (simp add: temporal_ok_def queue_ok_def)
    qed (simp add: queue_ok_def)
    then show ?thesis using assms(1) mm by (simp add: temporal_ok_def)
  qed
  note body' = body [unfolded xs prod.case t1 bindR.simps]
  show ?thesis
  proof (cases "tm_restored t")
    case True
    then show ?thesis using body' assms(1) by simp
  next
    case False
    show ?thesis
    proof (cases "is_error_controlled m \<and> step = 0 \<and> tm_last_dt t = None \<and> tm_queue t = []")
      case True
      then have "\<exists>dt e. queue_proposal dt time step False (t\<lparr>tm_strategy := Some m\<rparr>) = Inr (e, t')"
        using body' False live by auto
      then obtain dt e where "queue_proposal dt time step False (t\<lparr>tm_strategy := Some m\<rparr>) = Inr (e, t')" by blast
      then show ?thesis using temporal_ok_queue [OF bound _ conjunct1 [OF True]] by simp
    next
      case no: False
      have "t' = t\<lparr>tm_strategy := Some m\<rparr>" using body' False no by auto
      then show ?thesis using bound by simp
    qed
  qed
qed

text \<open>An attempt that lands: the head of the queue is consumed and the cursors are those of the new clock.\<close>

lemma accept_value:
  assumes "accept before old_step now step consumed t = Inr t'"
  shows "0 \<le> old_step \<and> step = old_step + 1 \<and> before < now
     \<and> boundary_cursors (tm_schedule t) now step = Inr (tm_cursors t')
     \<and> t' = t\<lparr>tm_queue := (case consumed of None \<Rightarrow> tm_queue t | Some _ \<Rightarrow> tl (tm_queue t)), tm_time := now, tm_step := step,
              tm_cursors := tm_cursors t', tm_last_dt := Some (fl (now - before)),
              tm_stats := (tm_stats t)\<lparr>st_accepted := st_accepted (tm_stats t) + 1\<rparr>,
              tm_status := Accepted, tm_sync := True, tm_restored := False\<rparr>
     \<and> (\<forall>e. consumed = Some e \<longrightarrow> is_queue_head e t \<and> ev_time e = Some now \<and> ev_cursor e = step)"
proof -
  have g: "\<not> (old_step < 0 \<or> step < 0) \<and> \<not> (step \<noteq> old_step + 1 \<or> now \<le> before)"
    using assms unfolding accept_def raise_if_Inr_iff by (elim conjE) (intro conjI)
  obtain q where q: "(case consumed of
              None \<Rightarrow> Inr (tm_queue t)
            | Some e \<Rightarrow> bindR (validate_event e) (\<lambda>candidate.
                raise_if (\<not> is_queue_head candidate t) RuntimeError
                 (raise_if (ev_time candidate \<noteq> Some now \<or> ev_cursor candidate \<noteq> step) RuntimeError
                   (Inr (tl (tm_queue t)))))) = Inr q"
    and r: "\<exists>c. boundary_cursors (tm_schedule t) now step = Inr c
      \<and> Inr (t\<lparr>tm_queue := q, tm_time := now, tm_step := step, tm_cursors := c,
              tm_last_dt := Some (fl (now - before)),
              tm_stats := (tm_stats t)\<lparr>st_accepted := st_accepted (tm_stats t) + 1\<rparr>,
              tm_status := Accepted, tm_sync := True, tm_restored := False\<rparr>) = (Inr t' :: temporal result)"
    using assms unfolding accept_def raise_if_Inr_iff bindR_Inr_iff by (elim exE conjE) (rule that, assumption, intro exI conjI)
  have e: "q = (case consumed of None \<Rightarrow> tm_queue t | Some _ \<Rightarrow> tl (tm_queue t))"
    "\<forall>e. consumed = Some e \<longrightarrow> is_queue_head e t \<and> ev_time e = Some now \<and> ev_cursor e = step"
    using q by (auto simp: validate_event_def split: option.splits)
  show ?thesis using g r e by auto
qed

lemma temporal_ok_accept:
  assumes ok: "temporal_ok t" and a: "accept (tm_time t) (tm_step t) now step consumed t = Inr t'" and b: "is_b64 now"
    and q: "consumed = None \<Longrightarrow> tm_queue t = []"
  shows "temporal_ok t'"
proof -
  note v = accept_value [OF a]
  have before: "0 \<le> tm_time t" "is_b64 (tm_time t)" "tm_time t < now" using ok v by (simp_all add: temporal_ok_def)
  have "\<exists>d. fl (now - tm_time t) = Some d" using before by (intro fl_le_defined [OF _ _ b]) simp_all
  then obtain d where d: "fl (now - tm_time t) = Some d" by blast
  have pos: "0 < d" by (rule fl_diff_pos [OF b before(2,3) d])
  have "tl (tm_queue t) = []" using ok by (auto simp: temporal_ok_def queue_ok_def)
  then have empty: "(case consumed of None \<Rightarrow> tm_queue t | Some _ \<Rightarrow> tl (tm_queue t)) = []"
    using q by (cases consumed) simp_all
  define c where "c = tm_cursors t'"
  have t': "t' = t\<lparr>tm_queue := [], tm_time := now, tm_step := step, tm_cursors := c, tm_last_dt := Some (Some d),
              tm_stats := (tm_stats t)\<lparr>st_accepted := st_accepted (tm_stats t) + 1\<rparr>,
              tm_status := Accepted, tm_sync := True, tm_restored := False\<rparr>"
    using v unfolding empty d c_def by (elim conjE)
  have "boundary_cursors (tm_schedule t) now step = Inr c" "step = tm_step t + 1" "0 \<le> tm_step t" unfolding c_def using v by blast+
  then show ?thesis using ok before pos b by (simp add: t' temporal_ok_def queue_ok_def stats_ok_def)
qed

lemma record_unsuccessful_value:
  "record_unsuccessful s time step t = Inr t' \<Longrightarrow>
   t' = t\<lparr>tm_stats := bump s (tm_stats t), tm_status := s, tm_sync := False, tm_restored := False\<rparr>"
  by (simp add: record_unsuccessful_def)

lemma temporal_ok_unsuccessful:
  assumes "temporal_ok t" and "s \<noteq> Accepted" and "record_unsuccessful s time step t = Inr t'"
  shows "temporal_ok t'" and "temporal_ok (restore_stats t t')"
  using assms(1,2) record_unsuccessful_value [OF assms(3)]
  by (cases s; simp add: temporal_ok_def queue_ok_def stats_ok_def bump_def restore_stats_def Let_def)+

text \<open>What a checkpoint holds, and what is read back from it.\<close>

definition save :: "manifest \<Rightarrow> temporal \<Rightarrow> saved" where
  "save m t =
     \<lparr>sv_version = 2, sv_strategy = m, sv_schedule = tm_schedule t, sv_time = tm_time t,
      sv_step = tm_step t, sv_cursors = tm_cursors t, sv_last_dt = tm_last_dt t,
      sv_queue = tm_queue t, sv_stats = tm_stats t, sv_status = tm_status t, sv_sync = tm_sync t\<rparr>"

lemma checkpoint_value:
  "checkpoint time step t = Inr d \<longleftrightarrow>
     0 \<le> step \<and> time = tm_time t \<and> step = tm_step t \<and> tm_status t = Accepted \<and> tm_sync t
     \<and> (\<exists>m m' s q c. tm_strategy t = Some m \<and> validate_manifest m = Inr m'
          \<and> validate_schedule_option (tm_schedule t) = Inr s \<and> boundary_cursors (tm_schedule t) time step = Inr (tm_cursors t)
          \<and> validate_controller (tm_last_dt t) = Inr c \<and> validate_queue (tm_queue t) = Inr q
          \<and> validate_controller_events q m (tm_last_dt t) time step = Inr () \<and> stats_ok (tm_stats t) \<and> d = save m t)"
  by (cases "tm_strategy t") (auto simp: checkpoint_def save_def)

lemma validate_queue_same: "validate_queue q = Inr q' \<Longrightarrow> q' = q"
  by (induction q arbitrary: q') (auto simp: validate_queue_def validate_event_def)

lemma validate_controller_same: "validate_controller c = Inr c' \<Longrightarrow> c' = c"
  by (auto simp: validate_controller_def split: option.splits)

lemma validate_schedule_option_same: "validate_schedule_option s = Inr s' \<Longrightarrow> s' = s"
  using validated_schedule(1) by (auto simp: validate_schedule_option_def split: option.splits)

lemma from_saved_save:
  assumes "checkpoint time step t = Inr d" and canonical: "\<forall>m. tm_strategy t = Some m \<longrightarrow> validate_manifest m = Inr m"
    and "installed \<in> {None, Some (tm_schedule t)}"
  shows "from_saved d time step installed = Inr (t\<lparr>tm_restored := True\<rparr>)"
proof -
  obtain m s q c where m: "tm_strategy t = Some m" and s: "validate_schedule_option (tm_schedule t) = Inr s"
    and b: "boundary_cursors (tm_schedule t) time step = Inr (tm_cursors t)"
    and c: "validate_controller (tm_last_dt t) = Inr c" and q: "validate_queue (tm_queue t) = Inr q"
    and ev: "validate_controller_events q m (tm_last_dt t) time step = Inr ()"
    and rest: "stats_ok (tm_stats t)" "d = save m t" "0 \<le> step" "time = tm_time t" "step = tm_step t"
      "tm_status t = Accepted" "tm_sync t"
    using assms(1) unfolding checkpoint_value by (elim exE conjE) (rule that)
  have mm: "validate_manifest m = Inr m" using canonical m by simp
  note same = validate_queue_same [OF q] validate_controller_same [OF c] validate_schedule_option_same [OF s]
  have i: "(case installed of
              None \<Rightarrow> Inr ()
            | Some s \<Rightarrow> bindR (validate_schedule_option s) (\<lambda>i. raise_if (tm_schedule t \<noteq> i) ValueError (Inr ()))) = Inr ()"
    using assms(3) s same(3) by (cases installed) auto
  show ?thesis
    using mm s b c q ev rest same i m by (simp add: from_saved_def save_def)
qed

lemma from_saved_value:
  assumes "from_saved d time step installed = Inr t'"
  shows "\<exists>m s c q. validate_manifest (sv_strategy d) = Inr m \<and> validate_schedule_option (sv_schedule d) = Inr s
     \<and> validate_controller (sv_last_dt d) = Inr c \<and> validate_queue (sv_queue d) = Inr q
     \<and> t' = \<lparr>tm_strategy = Some m, tm_schedule = s, tm_time = time, tm_step = step,
                 tm_cursors = sv_cursors d, tm_last_dt = c, tm_queue = q, tm_stats = sv_stats d,
                 tm_status = Accepted, tm_sync = True, tm_restored = True\<rparr>"
  using assms unfolding from_saved_def bindR_Inr_iff raise_if_Inr_iff by (elim exE conjE) (intro exI conjI, assumption+, simp)

lemma temporal_ok_restart:
  assumes ok: "temporal_ok t" and c: "checkpoint time step t = Inr d" and r: "from_saved d time step installed = Inr t'"
  shows "temporal_ok t'" and "t' = t\<lparr>tm_restored := True\<rparr>"
proof -
  obtain m where m: "tm_strategy t = Some m" "d = save m t" "time = tm_time t" "step = tm_step t" "tm_status t = Accepted" "tm_sync t"
    using c unfolding checkpoint_value by (elim exE conjE) (rule that)
  obtain n s l q where "validate_manifest m = Inr n" "validate_schedule_option (tm_schedule t) = Inr s"
    "validate_controller (tm_last_dt t) = Inr l" "validate_queue (tm_queue t) = Inr q"
     and t': "t' = \<lparr>tm_strategy = Some n, tm_schedule = s, tm_time = time, tm_step = step,
                 tm_cursors = tm_cursors t, tm_last_dt = l, tm_queue = q, tm_stats = tm_stats t,
                 tm_status = Accepted, tm_sync = True, tm_restored = True\<rparr>"
    using from_saved_value [OF r] by (auto simp: m(2) save_def)
  moreover have "validate_manifest m = Inr m" using ok m(1) by (simp add: temporal_ok_def)
  ultimately have "n = m" "s = tm_schedule t" "l = tm_last_dt t" "q = tm_queue t"
    using validate_queue_same validate_controller_same validate_schedule_option_same by auto
  then show e: "t' = t\<lparr>tm_restored := True\<rparr>" using t' m by simp
  show "temporal_ok t'" using ok by (simp add: e temporal_ok_def queue_ok_def)
qed

lemma temporal_step_ok:
  assumes "temporal_step t t'" and "temporal_ok t" shows "temporal_ok t'"
  using assms
proof (induction rule: temporal_step.induct)
  case (configure p time step t t')
  then show ?case using temporal_ok_configure by blast
next
  case (bind b time step t t')
  then show ?case using temporal_ok_begin by blast
next
  case (queue t m dt time step replace e t')
  then show ?case using temporal_ok_queue by blast
next
  case (attempt time step t now step' t')
  then show ?case using temporal_ok_accept [of t now step' None t'] by (simp add: before_attempt_def)
next
  case (queued_attempt e time step t now step' t')
  then have "time = tm_time t" "step = tm_step t" by (auto simp: before_queued_attempt_def before_attempt_def)
  then show ?case using queued_attempt temporal_ok_accept [of t now step' "Some e" t'] by simp
next
  case (unsuccessful s time step t t')
  then show ?case using temporal_ok_unsuccessful by blast
next
  case (rolled_back s time step t t')
  then show ?case using temporal_ok_unsuccessful by blast
next
  case (restart time step t d installed t')
  then show ?case using temporal_ok_restart by blast
qed

lemma temporal_ok_fresh: "temporal_ok fresh_temporal"
  by (simp add: temporal_ok_def fresh_temporal_def boundary_cursors_def queue_ok_def stats_ok_def)

text \<open>
  Claim C17. In every state a runtime reaches from a fresh one, through attempts that land or not, rollbacks and
  restarts: the cursors are those of one synchronized boundary, the accepted attempts count the macro steps, the state
  is synchronized exactly when the last attempt was accepted, a last step size is known exactly after the first step, and
  the queue holds at most the one proposal for the next step of an error-controlled strategy.
\<close>

theorem temporal_state_invariant:
  assumes "temporal_step\<^sup>*\<^sup>* fresh_temporal t"
  shows "boundary_cursors (tm_schedule t) (tm_time t) (tm_step t) = Inr (tm_cursors t)
     \<and> st_accepted (tm_stats t) = tm_step t
     \<and> (tm_status t = Accepted \<longleftrightarrow> tm_sync t)
     \<and> (tm_last_dt t = None \<longleftrightarrow> tm_step t = 0)
     \<and> (tm_queue t = [] \<or> (\<exists>m dt. tm_strategy t = Some m \<and> is_error_controlled m \<and> 0 < dt
          \<and> tm_queue t = [proposal_at (tm_time t) (tm_step t) dt]))"
proof -
  have "temporal_ok t" using assms by (induction rule: rtranclp_induct) (auto intro: temporal_ok_fresh temporal_step_ok)
  moreover have "last_dt_ok s l \<Longrightarrow> l = None \<longleftrightarrow> s = 0" for s l by (cases "(s, l)" rule: last_dt_ok.cases) auto
  ultimately show ?thesis by (auto simp: temporal_ok_def queue_ok_def)
qed

lemma reached_ok: "temporal_step\<^sup>*\<^sup>* fresh_temporal t \<Longrightarrow> temporal_ok t"
  by (induction rule: rtranclp_induct) (auto intro: temporal_ok_fresh temporal_step_ok)

section \<open>What can be checkpointed\<close>

lemma mk_error_controlled_kind: "mk_error_controlled i r a lo hi m s g = Inr st \<Longrightarrow> \<exists>p. st = ErrorControlledDt p"
  by (auto simp: mk_error_controlled_def)

lemma error_controlled_kind:
  assumes "error_controlled_from_data d = Inr s" shows "\<exists>p. s = ErrorControlledDt p"
  using assms unfolding error_controlled_from_data_def provider_cases by (elim conjE exE) (erule mk_error_controlled_kind)

lemma manifest_policy:
  assumes "validate_manifest m = Inr m'" and "is_error_controlled m"
  shows "\<exists>p. policy_from_data (fst m) = Inr p \<and> policy_ok p"
proof -
  obtain s where s: "strategy_ok s" "strategy_from_data (fst m) = Inr s" using validated_manifest [OF assms(1)] by blast
  have "registered ''error_controlled_dt'' = Some error_controlled_from_data" by (simp add: registered_def)
  then have e: "error_controlled_from_data (fst m) = Inr s"
    using s(2) assms(2) by (simp add: strategy_from_data_def is_error_controlled_def manifest_kind_def)
  then obtain p where "s = ErrorControlledDt p" using error_controlled_kind by blast
  then show ?thesis using e s(1) by (simp add: policy_from_data_def)
qed

text \<open>The next proposal an accepted state owes: \<open>dt_init\<close> before the first step, then the one derived from the last.\<close>

definition owed_proposal :: "error_policy \<Rightarrow> temporal \<Rightarrow> rat \<Rightarrow> bool" where
  "owed_proposal p t dt \<longleftrightarrow>
     (case tm_last_dt t of None \<Rightarrow> dt = ep_dt_init p | Some l \<Rightarrow> \<exists>d. l = Some d \<and> dt = next_proposal p d)"

lemma controller_events_value:
  assumes ok: "temporal_ok t" and m: "tm_strategy t = Some m"
  shows "validate_controller_events (tm_queue t) m (tm_last_dt t) (tm_time t) (tm_step t) = Inr ()
     \<longleftrightarrow> (is_error_controlled m \<longrightarrow> (\<exists>p dt. policy_from_data (fst m) = Inr p
            \<and> tm_queue t = [proposal_at (tm_time t) (tm_step t) dt] \<and> owed_proposal p t dt))"
proof -
  have l: "last_dt_ok (tm_step t) (tm_last_dt t)" using ok by (simp add: temporal_ok_def)
  have last: "\<not> (tm_step t = 0 \<and> tm_last_dt t \<noteq> None)" "\<not> (0 < tm_step t \<and> tm_last_dt t = None)"
    using l by (cases "(tm_step t, tm_last_dt t)" rule: last_dt_ok.cases; simp)+
  show ?thesis
  proof (cases "is_error_controlled m")
    case False
    then have "tm_queue t = []" using ok m by (auto simp: temporal_ok_def queue_ok_def)
    then show ?thesis using False last by (simp add: validate_controller_events_def)
  next
    case True
    have "validate_manifest m = Inr m" using ok m by (simp add: temporal_ok_def)
    then obtain p where p: "policy_from_data (fst m) = Inr p" using manifest_policy True by blast
    show ?thesis
    proof (cases "tm_queue t = []")
      case empty: True
      then show ?thesis using True last by (simp add: validate_controller_events_def)
    next
      case False
      then obtain dt where dt: "0 < dt" "fl (tm_time t + dt) \<noteq> None" "tm_queue t = [proposal_at (tm_time t) (tm_step t) dt]"
        using ok by (auto simp: temporal_ok_def queue_ok_def)
      have inj: "proposal_at (tm_time t) (tm_step t) dt = proposal_at (tm_time t) (tm_step t) x \<longleftrightarrow> x = dt" for x
        by (auto simp: proposal_at_def)
      have "validate_controller_events (tm_queue t) m (tm_last_dt t) (tm_time t) (tm_step t) = Inr () \<longleftrightarrow> owed_proposal p t dt"
        using True last dt p l
        by (cases "(tm_step t, tm_last_dt t)" rule: last_dt_ok.cases)
          (auto simp: validate_controller_events_def proposal_at_def owed_proposal_def)
      then show ?thesis using True p dt(3) by (simp add: inj)
    qed
  qed
qed

lemma checkpoint_iff:
  assumes ok: "temporal_ok t" and m: "tm_strategy t = Some m" and acc: "tm_status t = Accepted"
  shows "(\<exists>d. checkpoint (tm_time t) (tm_step t) t = Inr d)
     \<longleftrightarrow> (is_error_controlled m \<longrightarrow> (\<exists>p dt. policy_from_data (fst m) = Inr p
            \<and> tm_queue t = [proposal_at (tm_time t) (tm_step t) dt] \<and> owed_proposal p t dt))"
proof -
  have q: "validate_queue (tm_queue t) = Inr (tm_queue t)"
    using ok by (auto simp: temporal_ok_def queue_ok_def validate_queue_def validate_event_def proposal_at_def proposal_kind_def)
  have l: "last_dt_ok (tm_step t) (tm_last_dt t)" using ok by (simp add: temporal_ok_def)
  have c: "validate_controller (tm_last_dt t) = Inr (tm_last_dt t)"
    using l by (cases "(tm_step t, tm_last_dt t)" rule: last_dt_ok.cases) (simp_all add: validate_controller_def)
  have s: "validate_schedule_option (tm_schedule t) = Inr (tm_schedule t)"
    using ok by (auto simp: temporal_ok_def validate_schedule_option_def schedule_ok_def split: option.splits)
  have rest: "0 \<le> tm_step t" "tm_sync t" "validate_manifest m = Inr m" "stats_ok (tm_stats t)"
    "boundary_cursors (tm_schedule t) (tm_time t) (tm_step t) = Inr (tm_cursors t)"
    using ok m acc by (simp_all add: temporal_ok_def)
  have "(\<exists>d. checkpoint (tm_time t) (tm_step t) t = Inr d)
     \<longleftrightarrow> validate_controller_events (tm_queue t) m (tm_last_dt t) (tm_time t) (tm_step t) = Inr ()"
    unfolding checkpoint_value using q c s rest m acc by auto
  then show ?thesis unfolding controller_events_value [OF ok m] .
qed

text \<open>
  Claim C19. A reached state with an accepted last attempt can be checkpointed whenever its strategy is a fixed step, a CFL
  step or an external grid; under error control exactly when the queued proposal is the one the last step size owes.
\<close>

theorem accepted_boundary_checkpoints:
  assumes "temporal_step\<^sup>*\<^sup>* fresh_temporal t" and "tm_strategy t = Some m" and "tm_status t = Accepted"
  shows "(\<exists>d. checkpoint (tm_time t) (tm_step t) t = Inr d)
     \<longleftrightarrow> (is_error_controlled m \<longrightarrow> (\<exists>p dt. policy_from_data (fst m) = Inr p
            \<and> tm_queue t = [proposal_at (tm_time t) (tm_step t) dt] \<and> owed_proposal p t dt))"
  using checkpoint_iff [OF reached_ok [OF assms(1)] assms(2,3)] .

text \<open>
  What a restart reads from a checkpoint is the checkpointed state, marked as restored, whether or not the
  caller names the installed schedule.
\<close>

theorem restart_restores_the_state:
  assumes "temporal_step\<^sup>*\<^sup>* fresh_temporal t" and "checkpoint time step t = Inr d"
    and "installed \<in> {None, Some (tm_schedule t)}"
  shows "from_saved d time step installed = Inr (t\<lparr>tm_restored := True\<rparr>)"
  using from_saved_save [OF assms(2) _ assms(3)] reached_ok [OF assms(1)] by (simp add: temporal_ok_def)

text \<open>
  Two clocks that are each other's parent pass the validation, with any common tick count: nothing ties
  them to the primary clock.
\<close>

definition floating_clocks :: program_schedule where
  "floating_clocks =
     \<lparr>ps_primary = ''p'',
      ps_clocks = [\<lparr>cr_id = ''p'', cr_identity = ''p'', cr_ticks = 1\<rparr>, \<lparr>cr_id = ''a'', cr_identity = ''a'', cr_ticks = 7\<rparr>,
                   \<lparr>cr_id = ''b'', cr_identity = ''b'', cr_ticks = 7\<rparr>],
      ps_subcycles = [\<lparr>sb_node = 0, sb_parent = ''a'', sb_child = ''b'', sb_count = 1\<rparr>,
                      \<lparr>sb_node = 1, sb_parent = ''b'', sb_child = ''a'', sb_count = 1\<rparr>],
      ps_syncs = [], ps_schedules = [], ps_histories = []\<rparr>"

lemma floating_clocks_accepted: "validate_program_schedule floating_clocks = Inr floating_clocks"
  by (simp add: validate_program_schedule_def clock_table_def check_clock_def check_subcycles_def check_subcycle_def check_node_def
    floating_clocks_def insert_commute)

theorem clock_ticks_nest_witness:
  "\<exists>parent. map_of (bc_clocks \<lparr>bc_clocks = [(''p'', 0, 3), (''a'', 0, 21), (''b'', 0, 21)],
        bc_schedules = [(MacroStepKey, AtMacroStep 3), (SubcycleKey 0, AtIteration 3 0), (SubcycleKey 1, AtIteration 3 0)],
        bc_syncs = [], bc_histories = [], bc_caches = []\<rparr>) ''a'' = Some (0 :: rat, parent)"
proof -
  let ?c = "\<lparr>bc_clocks = [(''p'', 0, 3), (''a'', 0, 21), (''b'', 0, 21)],
        bc_schedules = [(MacroStepKey, AtMacroStep 3), (SubcycleKey 0, AtIteration 3 0), (SubcycleKey 1, AtIteration 3 0)],
        bc_syncs = [], bc_histories = [], bc_caches = []\<rparr>"
  have "boundary_cursors (Some floating_clocks) 0 3 = Inr ?c"
    by (simp add: boundary_cursors_def Let_def ticks_at_def floating_clocks_def)
  moreover have "\<lparr>sb_node = 0, sb_parent = ''a'', sb_child = ''b'', sb_count = 1\<rparr> \<in> set (ps_subcycles floating_clocks)"
    by (simp add: floating_clocks_def)
  ultimately show ?thesis
    using clock_ticks_nest [OF floating_clocks_accepted, of 0 3 ?c "\<lparr>sb_node = 0, sb_parent = ''a'', sb_child = ''b'', sb_count = 1\<rparr>"]
    by (simp only: subcycle_row.simps) blast
qed

section \<open>A run about to start\<close>

definition unit_step :: manifest where
  "unit_step = (strategy_data (FixedDt 1), [])"

definition about_to_run :: temporal where
  "about_to_run = fresh_temporal\<lparr>tm_strategy := Some unit_step\<rparr>"

lemma unit_step_valid: "validate_manifest unit_step = Inr unit_step"
  by (rule manifest_back [of "FixedDt 1" "[]"])
    (simp_all add: b64_1 controls_ok_def run_control_payload_def validate_controls_def checked_names_def control_keys_def
      controls_data_def unit_step_def)

lemma unit_step_plain: "\<not> is_error_controlled unit_step"
  by (simp add: is_error_controlled_def manifest_kind_def unit_step_def)

lemma about_to_run_reached: "temporal_step\<^sup>*\<^sup>* fresh_temporal about_to_run"
proof -
  have "begin_run (unit_step, None) 0 0 fresh_temporal = Inr about_to_run"
    using unit_step_plain unit_step_valid
    by (simp add: begin_run_def run_binding_def fresh_temporal_def boundary_cursors_def about_to_run_def)
  then have "temporal_step fresh_temporal about_to_run" by (rule bind) (simp add: fresh_temporal_def)
  then show ?thesis by (rule r_into_rtranclp)
qed

lemma about_to_run_accepted: "tm_status about_to_run = Accepted" "tm_strategy about_to_run = Some unit_step"
  by (simp_all add: about_to_run_def fresh_temporal_def)

theorem temporal_state_invariant_witness: "st_accepted (tm_stats about_to_run) = tm_step about_to_run"
  using temporal_state_invariant [OF about_to_run_reached] by blast

theorem accepted_boundary_checkpoints_witness: "\<exists>d. checkpoint (tm_time about_to_run) (tm_step about_to_run) about_to_run = Inr d"
  using accepted_boundary_checkpoints [OF about_to_run_reached about_to_run_accepted(2,1)] unit_step_plain by blast

theorem restart_restores_the_state_witness:
  "\<exists>d. from_saved d (tm_time about_to_run) (tm_step about_to_run) None = Inr (about_to_run\<lparr>tm_restored := True\<rparr>)"
proof -
  obtain d where "checkpoint (tm_time about_to_run) (tm_step about_to_run) about_to_run = Inr d"
    using checkpoint_iff [OF reached_ok [OF about_to_run_reached] about_to_run_accepted(2,1)] unit_step_plain by blast
  then show ?thesis using restart_restores_the_state [OF about_to_run_reached] by blast
qed

end
