(* ===== verification/Pops_Stepping.thy ===== *)
theory Pops_Stepping
  imports Pops_Temporal Pops_Cadence
begin

text \<open>
  The execution protocol of the step strategies (\<open>python/pops/runtime/_step_strategy.py\<close>) and the part of
  the run loop of \<open>python/pops/runtime/_runtime_instance.py\<close> around it: which interval each controller
  hands to the native executor, one native attempt inside its transaction, the retries of an
  error-controlled step, the collective decision on a failed attempt and the report of a transaction.
  What the native executor does with an attempt is an argument: it lands on a new clock, refuses the
  attempt, or breaks with an exception.
\<close>

section \<open>The interval of an attempt\<close>

text \<open>\<open>math.isclose(a, b, rel_tol=0.0, abs_tol=tol)\<close> of finite numbers.\<close>

definition isclose :: "rat \<Rightarrow> rat \<Rightarrow> rat \<Rightarrow> bool" where
  "isclose a b tol \<longleftrightarrow> a = b \<or> (case fl \<bar>b - a\<bar> of None \<Rightarrow> False | Some d \<Rightarrow> d \<le> tol)"

text \<open>
  An infinite \<open>t_end - now\<close> is the branch \<open>OverflowError\<close>: no interval is defined for it. A sum
  \<open>now + dt\<close> that overflows is close to nothing and greater than \<open>now\<close>.
\<close>

definition fixed_interval :: "rat \<Rightarrow> rat \<Rightarrow> rat \<Rightarrow> rat result" where
  "fixed_interval dt now t_end =
     (case fl (t_end - now) of
        None \<Rightarrow> Inl OverflowError
      | Some remaining \<Rightarrow>
          raise_if (\<not> 0 < remaining) RuntimeError
           (let d = (if fl (now + dt) = Some t_end then dt
                     else let s = min dt remaining in
                       case fl (now + s) of
                         None \<Rightarrow> s
                       | Some reach \<Rightarrow> if isclose reach t_end (4 * max (ulp reach) (ulp t_end)) then remaining else s) in
            raise_if (\<not> 0 < d) RuntimeError
             (raise_if (case fl (now + d) of None \<Rightarrow> False | Some reach \<Rightarrow> \<not> now < reach) RuntimeError (Inr d))))"

text \<open>The bounds the CFL controller passes: the maximum and the minimum step.\<close>

definition control_float :: "controls \<Rightarrow> string \<Rightarrow> rat option result" where
  "control_float d name =
     (case map_of d name of
        None \<Rightarrow> Inr None
      | Some (Scalar v) \<Rightarrow> bindR (finite_float v) (\<lambda>q. Inr (Some q))
      | Some _ \<Rightarrow> Inl TypeError)"

definition cfl_bounds :: "rat option \<Rightarrow> controls \<Rightarrow> rat \<Rightarrow> rat \<Rightarrow> (rat \<times> rat) result" where
  "cfl_bounds max_dt d now t_end =
     (case fl (t_end - now) of
        None \<Rightarrow> Inl OverflowError
      | Some remaining \<Rightarrow>
          bindR (control_float d ''dt_max'') (\<lambda>hi. bindR (control_float d ''dt_min'') (\<lambda>lo.
            let cap = (case max_dt of None \<Rightarrow> remaining | Some m \<Rightarrow> min remaining m) in
            Inr (case hi of None \<Rightarrow> cap | Some h \<Rightarrow> min cap h, case lo of None \<Rightarrow> 0 | Some l \<Rightarrow> l))))"

definition grid_same_time :: "rat \<Rightarrow> rat \<Rightarrow> bool" where
  "grid_same_time l r =
     (case fl \<bar>l - r\<bar> of None \<Rightarrow> False | Some d \<Rightarrow> d \<le> 4 * ulp (max 1 (max \<bar>l\<bar> \<bar>r\<bar>)))"

text \<open>\<open>bisect.bisect_left\<close> on a sorted list: the number of elements before the key.\<close>

definition bisect_left :: "rat list \<Rightarrow> rat \<Rightarrow> nat" where
  "bisect_left grid x = length (takeWhile (\<lambda>v. v < x) grid)"

definition grid_next :: "rat list \<Rightarrow> rat \<Rightarrow> rat \<Rightarrow> rat result" where
  "grid_next grid now t_end =
     (let i = bisect_left grid now in
      bindR (if i = length grid \<or> \<not> grid_same_time (grid ! i) now
             then raise_if (\<not> (0 < i \<and> grid_same_time (grid ! (i - 1)) now)) RuntimeError (Inr (i - 1))
             else Inr i) (\<lambda>index.
       raise_if (length grid \<le> index + 1) RuntimeError
        (let next_time = grid ! (index + 1) in
         raise_if (t_end < next_time \<and> \<not> grid_same_time next_time t_end) RuntimeError (Inr next_time))))"

section \<open>One attempt in its transaction\<close>

datatype outcome = Lands rat int | Refuses | Breaks exn

datatype attempt_end = Landed rat int | Refused | Fatal exn

definition native_attempt :: "rat \<Rightarrow> int \<Rightarrow> event option \<Rightarrow> outcome \<Rightarrow> temporal \<Rightarrow> temporal \<times> attempt_end" where
  "native_attempt time step queued result t =
     (case (case queued of None \<Rightarrow> before_attempt time step t | Some e \<Rightarrow> before_queued_attempt e time step t) of
        Inl x \<Rightarrow> (t, Fatal x)
      | Inr _ \<Rightarrow>
          (case result of
             Lands now step' \<Rightarrow>
               (case accept time step now step' queued t of Inl x \<Rightarrow> (t, Fatal x) | Inr t' \<Rightarrow> (t', Landed now step'))
           | Refuses \<Rightarrow>
               (case record_unsuccessful Rejected time step t of Inl x \<Rightarrow> (t, Fatal x) | Inr t' \<Rightarrow> (t', Refused))
           | Breaks e \<Rightarrow>
               (case record_unsuccessful Failed time step t of Inl x \<Rightarrow> (t, Fatal x) | Inr t' \<Rightarrow> (t', Fatal e))))"

text \<open>The check of the run loop after a step: a hard deadline was crossed by more than the tolerance.\<close>

definition crossed :: "rat option \<Rightarrow> rat \<Rightarrow> bool" where
  "crossed deadline reached =
     (case deadline of None \<Rightarrow> False | Some d \<Rightarrow> d < reached \<and> \<not> same_physical_time reached d)"

text \<open>The end of the next step and the deadline that is enforced on it.\<close>

definition step_target :: "rat option \<Rightarrow> rat \<Rightarrow> rat \<times> rat option" where
  "step_target deadline run_end =
     (case deadline of
        None \<Rightarrow> (run_end, None)
      | Some d \<Rightarrow>
          if d \<le> run_end then (if same_physical_time d run_end then run_end else d, Some d) else (run_end, None))"

definition check_grid_deadline :: "rat list \<Rightarrow> rat option \<Rightarrow> rat \<Rightarrow> unit result" where
  "check_grid_deadline grid deadline run_end =
     (case deadline of
        None \<Rightarrow> Inr ()
      | Some d \<Rightarrow>
          if run_end < d then Inr ()
          else raise_if (\<not> list_ex (\<lambda>v. d \<le> v \<and> same_physical_time v d) grid) ValueError (Inr ()))"

text \<open>
  The attempt of a controller without retries: the transaction restores the state, with the statistics
  of the failure, unless the step is accepted within its deadline.
\<close>

definition plain_attempt :: "rat option \<Rightarrow> rat \<Rightarrow> int \<Rightarrow> outcome \<Rightarrow> temporal \<Rightarrow> temporal \<times> attempt_end" where
  "plain_attempt deadline time step result t =
     (case native_attempt time step None result t of
        (t1, Landed now step') \<Rightarrow>
          if crossed deadline now then (restore_stats t t1, Fatal RuntimeError) else (t1, Landed now step')
      | (t1, r) \<Rightarrow> (restore_stats t t1, r))"

section \<open>Error-controlled steps\<close>

text \<open>\<open>accept\<close> of the error controller publishes the proposal of the next step.\<close>

definition controller_accept :: "error_policy \<Rightarrow> rat \<Rightarrow> rat \<Rightarrow> int \<Rightarrow> temporal \<Rightarrow> temporal result" where
  "controller_accept p proposal now step t =
     bindR (queue_proposal (next_proposal p proposal) now step False t) (\<lambda>(_, t'). Inr t')"

definition error_attempt ::
  "error_policy \<Rightarrow> rat option \<Rightarrow> rat \<Rightarrow> int \<Rightarrow> rat \<Rightarrow> event \<Rightarrow> outcome \<Rightarrow> temporal \<Rightarrow> temporal \<times> attempt_end" where
  "error_attempt p deadline time step proposal e result t =
     (case native_attempt time step (Some e) result t of
        (t1, Landed now step') \<Rightarrow>
          (case controller_accept p proposal now step' t1 of
             Inl x \<Rightarrow> (restore_stats t t1, Fatal x)
           | Inr t2 \<Rightarrow>
               if crossed deadline now then (restore_stats t t2, Fatal RuntimeError) else (t2, Landed now step'))
      | (t1, r) \<Rightarrow> (restore_stats t t1, r))"

text \<open>The retry after a refused attempt: \<open>None\<close> when the policy gives up.\<close>

definition error_retry :: "error_policy \<Rightarrow> int \<Rightarrow> rat \<Rightarrow> rat \<Rightarrow> int \<Rightarrow> temporal \<Rightarrow> (rat \<times> event \<times> temporal) option result" where
  "error_retry p attempts proposal time step t =
     (if ep_max_rejections p < attempts then Inr None
      else (case fl (proposal * ep_shrink p) of
              None \<Rightarrow> Inl OverflowError
            | Some reduced \<Rightarrow>
                if reduced < ep_dt_min p then Inr None
                else bindR (queue_proposal reduced time step True t) (\<lambda>(e, t'). Inr (Some (reduced, e, t')))))"

text \<open>
  How a step ends: accepted, with the next proposal and the new clock; refused after the last retry;
  or failed.
\<close>

datatype step_end = StepDone rat rat int temporal | StepRefused temporal | StepFailed exn temporal

text \<open>The attempts of one step: the intervals tried, and the end.\<close>

function error_loop ::
  "error_policy \<Rightarrow> (int \<Rightarrow> rat \<Rightarrow> outcome) \<Rightarrow> rat option \<Rightarrow> rat \<Rightarrow> int \<Rightarrow> int \<Rightarrow> rat \<Rightarrow> event \<Rightarrow> temporal \<Rightarrow> rat list \<times> step_end" where
  "error_loop p native deadline time step n proposal e t =
     (case error_attempt p deadline time step proposal e (native (n + 1) proposal) t of
        (t1, Landed now step') \<Rightarrow> ([proposal], StepDone (next_proposal p proposal) now step' t1)
      | (t1, Fatal x) \<Rightarrow> ([proposal], StepFailed x t1)
      | (t1, Refused) \<Rightarrow>
          (case error_retry p (n + 1) proposal time step t1 of
             Inl x \<Rightarrow> ([proposal], StepFailed x t1)
           | Inr None \<Rightarrow> ([proposal], StepRefused t1)
           | Inr (Some (reduced, e', t2)) \<Rightarrow>
               (let (ds, r) = error_loop p native deadline time step (n + 1) reduced e' t2 in (proposal # ds, r))))"
  by pat_completeness auto
termination
proof (relation "measure (\<lambda>(p, _, _, _, _, n, _). nat (ep_max_rejections p + 1 - n))", goal_cases)
  case 2
  then show ?case by (auto simp: error_retry_def split: if_splits option.splits)
qed simp

declare error_loop.simps [simp del]

text \<open>Preparing a step: the proposal is clipped by the end, and the queue head is the proposal.\<close>

definition clipped :: "rat \<Rightarrow> rat \<Rightarrow> rat \<Rightarrow> rat result" where
  "clipped dt time t_end = (case fl (t_end - time) of None \<Rightarrow> Inl OverflowError | Some remaining \<Rightarrow> Inr (min dt remaining))"

definition prepare_error :: "error_policy \<Rightarrow> rat \<Rightarrow> rat \<Rightarrow> rat \<Rightarrow> int \<Rightarrow> temporal \<Rightarrow> (rat \<times> event \<times> temporal) result" where
  "prepare_error p next_dt t_end time step t =
     bindR (clipped (min next_dt (ep_dt_max p)) time t_end) (\<lambda>proposal.
       if tm_queue t = [] then bindR (queue_proposal proposal time step False t) (\<lambda>(e, t'). Inr (proposal, e, t'))
       else bindR (queued_proposal time step t) (\<lambda>(e, queued).
         if proposal \<noteq> queued then bindR (queue_proposal proposal time step True t) (\<lambda>(e', t'). Inr (proposal, e', t'))
         else Inr (proposal, e, t)))"

definition error_step ::
  "error_policy \<Rightarrow> (int \<Rightarrow> rat \<Rightarrow> outcome) \<Rightarrow> rat \<Rightarrow> rat option \<Rightarrow> rat \<Rightarrow> rat \<Rightarrow> int \<Rightarrow> temporal \<Rightarrow> (rat list \<times> step_end) result" where
  "error_step p native next_dt deadline t_end time step t =
     bindR (prepare_error p next_dt t_end time step t) (\<lambda>(proposal, e, t').
       Inr (error_loop p native deadline time step 0 proposal e t'))"

text \<open>A controller made for a restored state takes its proposal from the queue.\<close>

definition controller_next_dt :: "error_policy \<Rightarrow> temporal \<Rightarrow> rat result" where
  "controller_next_dt p t =
     (if tm_restored t then bindR (queued_proposal (tm_time t) (tm_step t) t) (\<lambda>(_, dt). Inr dt) else Inr (ep_dt_init p))"

section \<open>Landing at the end of a step\<close>

text \<open>A number within four units in the last place of a positive binary64 is the same physical time.\<close>

lemma near_same_time:
  assumes "0 < E" and "is_b64 E" and "\<bar>l - E\<bar> \<le> 4 * ulp E" shows "same_physical_time l E"
proof (cases "l = E")
  case False
  then have pos: "0 < \<bar>l - E\<bar>" by simp
  have "E < 2 powi 1024" using b64_small [OF assms(2)] assms(1) by simp
  then have "2 powi magnitude E < (2::rat) powi 1024" using magnitude_bounds(1) [OF assms(1)] by linarith
  then have "ulp_exp E \<le> 971" using assms(1) by (simp only: powi_less_iff) (simp add: ulp_exp_def)
  moreover have "- 1074 \<le> ulp_exp E" by (simp add: ulp_exp_def)
  ultimately have b: "is_b64 (2 powi (ulp_exp E + 2))" by (intro b64_power) simp_all
  have four: "2 powi (ulp_exp E + 2) = 4 * ulp E" by (simp add: ulp_def power_int_add)
  obtain d where d: "fl \<bar>l - E\<bar> = Some d" using fl_le_defined [OF pos _ b] assms(3) four by auto
  have "d \<le> 4 * ulp E" using fl_le [OF d pos _ b] assms(3) four by simp
  also have "\<dots> \<le> 4 * max (ulp l) (ulp E)" by simp
  finally show ?thesis by (simp add: same_physical_time_def d)
qed (simp add: same_physical_time_def)

text \<open>A step of the whole remaining interval lands on the end, up to the tolerance.\<close>

lemma remaining_lands:
  assumes E: "is_b64 E" "0 \<le> now" "now < E" and r: "fl (E - now) = Some r" and l: "fl (now + r) = Some l"
  shows "\<bar>l - E\<bar> \<le> 3/2 * ulp E"
proof -
  have Ep: "0 < E" and dp: "0 < E - now" using E by linarith+
  have "\<bar>r - (E - now)\<bar> \<le> ulp (E - now) / 2" using rounded_near [of "E - now"] fl_value [OF r] by simp
  also have "\<dots> \<le> ulp E / 2" using ulp_mono [OF dp, of E] E(2) by simp
  finally have a: "\<bar>(now + r) - E\<bar> \<le> ulp E / 2" by linarith
  have u: "ulp E \<le> E" by (rule ulp_le [OF Ep E(1)])
  have up: "0 < ulp E" by simp
  have b: "0 < now + r" "now + r < 2 * E" using a u Ep by linarith+
  have "\<bar>l - (now + r)\<bar> \<le> ulp (now + r) / 2" using rounded_near [of "now + r"] fl_value [OF l] by simp
  also have "\<dots> \<le> ulp E" using ulp_double [OF Ep b(2,1)] by simp
  finally show ?thesis using a by linarith
qed

text \<open>No interval up to the remaining one crosses the end.\<close>

lemma landing_not_crossed:
  assumes E: "is_b64 E" "0 \<le> now" "now < E" and r: "fl (E - now) = Some r" and p: "0 < p" "p \<le> r" "is_b64 p"
    and l: "fl (now + p) = Some l"
  shows "\<not> crossed (Some E) l"
proof (cases "p \<le> E - now")
  case True
  then have "l \<le> E" using fl_le [OF l _ _ E(1)] p(1) E(2) by simp
  then show ?thesis by (simp add: crossed_def)
next
  case False
  have "r \<le> p" using fl_le [OF r _ _ p(3)] False E by simp
  then have "p = r" using p(2) by simp
  then have "\<bar>l - E\<bar> \<le> 3/2 * ulp E" using remaining_lands [OF E r] l by simp
  then have "\<bar>l - E\<bar> \<le> 4 * ulp E" using ulp_pos [of E] by linarith
  then show ?thesis using near_same_time [OF _ E(1)] E by (simp add: crossed_def)
qed

section \<open>Fixed steps\<close>

text \<open>
  Claim C21. An interval the fixed-step controller hands out advances binary64 time, does not cross the end of the
  step beyond the tolerance of the run loop, and is the authored step unless the end is reached.
\<close>

theorem fixed_dt_stops_at_the_end:
  assumes "is_b64 dt" and "is_b64 t_end" and "0 \<le> now"
    and "fixed_interval dt now t_end = Inr d" and "fl (now + d) = Some l"
  shows "now < l \<and> \<not> crossed (Some t_end) l \<and> (d = dt \<or> same_physical_time l t_end)"
proof -
  obtain r where r: "fl (t_end - now) = Some r" using assms(4) by (auto simp: fixed_interval_def split: option.splits)
  define s where "s = min dt r"
  have rpos: "0 < r" and dpos: "0 < d" and adv: "now < l"
    and d: "d = (if fl (now + dt) = Some t_end then dt
                 else case fl (now + s) of None \<Rightarrow> s | Some reach \<Rightarrow> if isclose reach t_end (4 * max (ulp reach) (ulp t_end)) then r else s)"
    using assms(4,5) by (auto simp: fixed_interval_def r Let_def s_def [symmetric])
  have lt: "now < t_end" using fl_pos [OF r rpos] by simp
  have whole: "same_physical_time l t_end" if dr: "d = r"
  proof -
    have "\<bar>l - t_end\<bar> \<le> 3/2 * ulp t_end" using remaining_lands [OF assms(2,3) lt r] assms(5) dr by simp
    then have "\<bar>l - t_end\<bar> \<le> 4 * ulp t_end" using ulp_pos [of t_end] by linarith
    then show ?thesis using near_same_time [OF _ assms(2)] lt assms(3) by simp
  qed
  consider "fl (now + dt) = Some t_end" "d = dt" | "d = r" | "d = dt" "dt \<le> r"
    using d by (auto simp: s_def min_def split: option.splits if_splits)
  then show ?thesis
  proof cases
    case 1
    then show ?thesis using assms(5) adv by (simp add: crossed_def)
  next
    case 2
    then show ?thesis using whole adv by (simp add: crossed_def)
  next
    case 3
    then show ?thesis using landing_not_crossed [OF assms(2,3) lt r dpos _ _ assms(5)] assms(1) adv by simp
  qed
qed

section \<open>CFL steps and external grids\<close>

text \<open>The maximum passed to the CFL step never exceeds the interval left, nor any declared maximum.\<close>

lemma cfl_bounds_cap:
  assumes "cfl_bounds max_dt d now t_end = Inr (hi, lo)"
  shows "\<exists>remaining. fl (t_end - now) = Some remaining \<and> hi \<le> remaining" and "max_dt = Some m \<Longrightarrow> hi \<le> m"
    and "control_float d ''dt_max'' = Inr (Some h) \<Longrightarrow> hi \<le> h"
proof -
  obtain remaining where r: "fl (t_end - now) = Some remaining" using assms by (cases "fl (t_end - now)") (simp_all add: cfl_bounds_def)
  obtain ho lo' where ho: "control_float d ''dt_max'' = Inr ho"
    and b: "(let cap = (case max_dt of None \<Rightarrow> remaining | Some m \<Rightarrow> min remaining m) in
            Inr (case ho of None \<Rightarrow> cap | Some h \<Rightarrow> min cap h, case lo' of None \<Rightarrow> 0 | Some l \<Rightarrow> l)) = (Inr (hi, lo) :: (rat \<times> rat) result)"
    using assms unfolding cfl_bounds_def r option.case bindR_Inr_iff by (elim exE conjE) (rule that)
  have hi: "hi = (case ho of None \<Rightarrow> (case max_dt of None \<Rightarrow> remaining | Some m \<Rightarrow> min remaining m)
      | Some h \<Rightarrow> min (case max_dt of None \<Rightarrow> remaining | Some m \<Rightarrow> min remaining m) h)"
    using b by (simp add: Let_def)
  show "\<exists>remaining. fl (t_end - now) = Some remaining \<and> hi \<le> remaining" using r by (cases ho; cases max_dt) (simp_all add: hi)
  show "max_dt = Some m \<Longrightarrow> hi \<le> m" by (cases ho) (simp_all add: hi)
  show "control_float d ''dt_max'' = Inr (Some h) \<Longrightarrow> hi \<le> h" using ho by (cases max_dt) (simp_all add: hi)
qed

text \<open>On a point of a strictly increasing grid the next point is the following one, none is skipped.\<close>

lemma bisect_left_point:
  assumes "sorted_wrt (<) grid" and "i < length grid" shows "bisect_left grid (grid ! i) = i"
proof -
  have "takeWhile (\<lambda>v. v < grid ! i) grid = take i grid"
    using assms by (intro takeWhile_eq_take_P_nth) (simp_all add: sorted_wrt_nth_less)
  then show ?thesis using assms(2) by (simp add: bisect_left_def)
qed

lemma grid_next_point:
  assumes "sorted_wrt (<) grid" and "i + 1 < length grid" and "grid ! (i + 1) \<le> t_end"
  shows "grid_next grid (grid ! i) t_end = Inr (grid ! (i + 1))"
  using assms bisect_left_point [OF assms(1), of i]
  by (simp add: grid_next_def grid_same_time_def Let_def less_imp_le)

section \<open>The attempts of an error-controlled step\<close>

lemma error_retry_value:
  assumes "error_retry p n proposal time step t = Inr (Some (reduced, e, t'))"
  shows "n \<le> ep_max_rejections p \<and> fl (proposal * ep_shrink p) = Some reduced \<and> ep_dt_min p \<le> reduced
     \<and> queue_proposal reduced time step True t = Inr (e, t')"
  using assms by (auto simp: error_retry_def split: if_splits option.splits)

lemma shrink_le:
  assumes "policy_ok p" and "0 < proposal" "is_b64 proposal" and "fl (proposal * ep_shrink p) = Some r"
  shows "r \<le> proposal" and "is_b64 r"
proof -
  have s: "0 < ep_shrink p" "ep_shrink p < 1" using assms(1) by (simp_all add: policy_ok_def)
  have "proposal * ep_shrink p \<le> proposal * 1" using s assms(2) by (intro mult_left_mono) simp_all
  then show "r \<le> proposal" using fl_le [OF assms(4) _ _ assms(3)] s assms(2) by simp
  show "is_b64 r" by (rule fl_is_b64 [OF assms(4)])
qed

lemma policy_dt_min: "policy_ok p \<Longrightarrow> 0 < ep_dt_min p"
  by (simp add: policy_ok_def)

definition descending :: "rat list \<Rightarrow> bool" where
  "descending ds \<longleftrightarrow> sorted_wrt (\<lambda>a b. b \<le> a) ds"

lemma error_loop_bounds:
  assumes "policy_ok p" and "0 < proposal" "is_b64 proposal" and "n \<le> ep_max_rejections p"
    and "error_loop p native deadline time step n proposal e t = (ds, r)"
  shows "\<exists>rest. ds = proposal # rest \<and> int (length ds) \<le> ep_max_rejections p + 1 - n
     \<and> (\<forall>d \<in> set rest. ep_dt_min p \<le> d \<and> d \<le> proposal \<and> is_b64 d) \<and> descending ds"
  using assms
proof (induction p native deadline time step n proposal e t arbitrary: ds r rule: error_loop.induct)
  case (1 p native deadline time step n proposal e t)
  obtain t1 a where a: "error_attempt p deadline time step proposal e (native (n + 1) proposal) t = (t1, a)" by fastforce
  show ?case
  proof (cases "\<exists>reduced e' t2. a = Refused \<and> error_retry p (n + 1) proposal time step t1 = Inr (Some (reduced, e', t2))")
    case False
    then have "ds = [proposal]"
      using "1.prems"(5) a
      by (auto simp: error_loop.simps [of p] split: attempt_end.splits sum.splits option.splits)
    then show ?thesis using "1.prems"(4) by (simp add: descending_def)
  next
    case True
    then obtain reduced e' t2 where ref: "a = Refused" and re: "error_retry p (n + 1) proposal time step t1 = Inr (Some (reduced, e', t2))"
      by blast
    note v = error_retry_value [OF re]
    obtain ds' r' where rec: "error_loop p native deadline time step (n + 1) reduced e' t2 = (ds', r')" by fastforce
    have ds: "ds = proposal # ds'"
      using "1.prems"(5) a ref re rec by (simp add: error_loop.simps [of p native deadline time step n])
    have s: "reduced \<le> proposal" "is_b64 reduced" using shrink_le [OF "1.prems"(1,2,3)] v by blast+
    have pos: "0 < reduced" using v policy_dt_min [OF "1.prems"(1)] by linarith
    have "\<exists>rest. ds' = reduced # rest \<and> int (length ds') \<le> ep_max_rejections p + 1 - (n + 1)
       \<and> (\<forall>d \<in> set rest. ep_dt_min p \<le> d \<and> d \<le> reduced \<and> is_b64 d) \<and> descending ds'"
      by (rule "1.IH" [OF a [symmetric] ref re refl refl refl "1.prems"(1) pos s(2) _ rec]) (use v in simp_all)
    then show ?thesis using s v by (force simp: ds descending_def)
  qed
qed

lemma clipped_value: "clipped dt time t_end = Inr q \<Longrightarrow> \<exists>r. fl (t_end - time) = Some r \<and> q = min dt r"
  by (auto simp: clipped_def split: option.splits)

lemma prepare_error_cases:
  assumes "prepare_error p next_dt t_end time step t = Inr (proposal, e, t')"
  shows "clipped (min next_dt (ep_dt_max p)) time t_end = Inr proposal
     \<and> ((\<exists>replace. queue_proposal proposal time step replace t = Inr (e, t'))
         \<or> tm_queue t \<noteq> [] \<and> t' = t \<and> queued_proposal time step t = Inr (e, proposal))"
proof -
  obtain c where c: "clipped (min next_dt (ep_dt_max p)) time t_end = Inr c"
    and b: "(if tm_queue t = [] then bindR (queue_proposal c time step False t) (\<lambda>(e, t'). Inr (c, e, t'))
       else bindR (queued_proposal time step t) (\<lambda>(e, queued).
         if c \<noteq> queued then bindR (queue_proposal c time step True t) (\<lambda>(e', t'). Inr (c, e', t'))
         else Inr (c, e, t))) = Inr (proposal, e, t')"
    using assms unfolding prepare_error_def bindR_Inr_iff by (elim exE conjE) (rule that)
  show ?thesis
  proof (cases "tm_queue t = []")
    case True
    then obtain x where x: "queue_proposal c time step False t = Inr x" "(case x of (e, t') \<Rightarrow> Inr (c, e, t')) = (Inr (proposal, e, t') :: (rat \<times> event \<times> temporal) result)"
      using b [unfolded if_P [OF True] bindR_Inr_iff] by (elim exE conjE) (rule that)
    then have "x = (e, t')" "c = proposal" by (cases x; simp)+
    then show ?thesis using c x(1) by blast
  next
    case False
    then obtain x where x: "queued_proposal time step t = Inr x"
      and y: "(case x of (e, queued) \<Rightarrow> if c \<noteq> queued then bindR (queue_proposal c time step True t) (\<lambda>(e', t'). Inr (c, e', t'))
         else Inr (c, e, t)) = Inr (proposal, e, t')"
      using b [unfolded if_not_P [OF False] bindR_Inr_iff] by (elim exE conjE) (rule that)
    obtain e0 q where xq: "x = (e0, q)" by (cases x)
    show ?thesis
    proof (cases "c = q")
      case True
      then have "e0 = e" "c = proposal" "t' = t" using y by (simp_all add: xq)
      then show ?thesis using c x False True by (simp add: xq)
    next
      case ne: False
      then obtain z where z: "queue_proposal c time step True t = Inr z" "(case z of (e', t') \<Rightarrow> Inr (c, e', t')) = (Inr (proposal, e, t') :: (rat \<times> event \<times> temporal) result)"
        using y [unfolded xq prod.case if_P [OF ne] bindR_Inr_iff] by (elim exE conjE) (rule that)
      then have "z = (e, t')" "c = proposal" by (cases z; simp)+
      then show ?thesis using c z(1) by blast
    qed
  qed
qed

lemma queued_proposal_value:
  assumes "queued_proposal time step t = Inr (e, q)" and "tm_queue t = [proposal_at (tm_time t) (tm_step t) dt]"
  shows "time = tm_time t \<and> step = tm_step t \<and> e = proposal_at (tm_time t) (tm_step t) dt \<and> dt = q"
proof -
  have "0 \<le> step \<and> time = tm_time t \<and> step = tm_step t
    \<and> (case [proposal_at (tm_time t) (tm_step t) dt] of
         [] \<Rightarrow> Inl RuntimeError
       | e # _ \<Rightarrow>
           raise_if (ev_kind e \<noteq> proposal_kind \<or> ev_cursor e \<noteq> step + 1) RuntimeError
            (case ev_payload e of
               OtherPayload \<Rightarrow> Inl KeyError
             | DtPayload None \<Rightarrow> Inl ValueError
             | DtPayload (Some dt) \<Rightarrow>
                 raise_if (ev_time e = None \<or> ev_time e \<noteq> fl (time + dt)) RuntimeError (Inr (e, dt)))) = Inr (e, q)"
    using assms(1) unfolding queued_proposal_def live_clock_Inr assms(2) .
  moreover have "ev_payload (proposal_at (tm_time t) (tm_step t) dt) = DtPayload (Some dt)" by (simp add: proposal_at_def)
  ultimately show ?thesis by (elim conjE) (auto simp del: Product_Type.split_paired_Ex)
qed

lemma prepare_error_value:
  assumes ok: "temporal_ok t" and p: "prepare_error p next_dt t_end time step t = Inr (proposal, e, t')"
  shows "\<exists>r. fl (t_end - time) = Some r \<and> proposal = min (min next_dt (ep_dt_max p)) r \<and> 0 < proposal
     \<and> time = tm_time t \<and> step = tm_step t \<and> e = proposal_at time step proposal \<and> t' = t\<lparr>tm_queue := [e]\<rparr>"
proof -
  note cases = prepare_error_cases [OF p]
  have c: "clipped (min next_dt (ep_dt_max p)) time t_end = Inr proposal" using cases by (rule conjunct1)
  from conjunct2 [OF cases]
  have q: "e = proposal_at time step proposal \<and> 0 < proposal \<and> time = tm_time t \<and> step = tm_step t \<and> t' = t\<lparr>tm_queue := [e]\<rparr>"
  proof (elim disjE exE conjE)
    fix replace
    assume v: "queue_proposal proposal time step replace t = Inr (e, t')"
    have "tl (tm_queue t) = []" using ok by (auto simp: temporal_ok_def queue_ok_def)
    then show ?thesis using queue_proposal_value [OF v] by simp
  next
    assume "tm_queue t \<noteq> []" and t': "t' = t" and qd: "queued_proposal time step t = Inr (e, proposal)"
    then obtain dt where dt: "tm_queue t = [proposal_at (tm_time t) (tm_step t) dt]" "0 < dt"
      using ok by (auto simp: temporal_ok_def queue_ok_def)
    have "time = tm_time t \<and> step = tm_step t \<and> e = proposal_at (tm_time t) (tm_step t) dt \<and> dt = proposal"
      by (rule queued_proposal_value [OF qd dt(1)])
    then show ?thesis using dt t' by simp
  qed
  then show ?thesis using clipped_value [OF c] by blast
qed

text \<open>
  Claim C18. An error-controlled step makes at most \<open>max_rejections + 1\<close> attempts. The first interval is at most the
  controller's, \<open>dt_max\<close> and the interval left; each later one is at least \<open>dt_min\<close> and at most the one before.
\<close>

theorem error_controlled_attempts_are_bounded:
  assumes "policy_ok p" and "temporal_step\<^sup>*\<^sup>* fresh_temporal t" and "is_b64 next_dt"
    and "error_step p native next_dt deadline t_end time step t = Inr (ds, r)"
  shows "\<exists>first rest. ds = first # rest \<and> int (length ds) \<le> ep_max_rejections p + 1
     \<and> 0 < first \<and> first \<le> next_dt \<and> first \<le> ep_dt_max p
     \<and> (\<forall>remaining. fl (t_end - time) = Some remaining \<longrightarrow> first \<le> remaining)
     \<and> (\<forall>d \<in> set rest. ep_dt_min p \<le> d) \<and> descending ds"
proof -
  obtain first e t' where pr: "prepare_error p next_dt t_end time step t = Inr (first, e, t')"
    and l: "error_loop p native deadline time step 0 first e t' = (ds, r)"
    using assms(4) by (auto simp: error_step_def)
  obtain r' where r': "fl (t_end - time) = Some r'" "first = min (min next_dt (ep_dt_max p)) r'" "0 < first"
    using prepare_error_value [OF reached_ok [OF assms(2)] pr] by blast
  have "is_b64 first" using r' assms(1,3) fl_is_b64 [OF r'(1)] by (auto simp: policy_ok_def min_def)
  moreover have "0 \<le> ep_max_rejections p" using assms(1) by (simp add: policy_ok_def)
  ultimately show ?thesis using error_loop_bounds [OF assms(1) r'(3) _ _ l] r' by auto
qed

text \<open>The transitions of the state under one attempt.\<close>

lemma native_attempt_landed:
  assumes "native_attempt time step (Some e) result t = (t1, Landed now step')"
  shows "before_queued_attempt e time step t = Inr () \<and> accept time step now step' (Some e) t = Inr t1"
  using assms by (auto simp: native_attempt_def split: sum.splits outcome.splits)

lemma native_attempt_not_landed:
  assumes "native_attempt time step (Some e) result t = (t1, r)" and "\<forall>now step'. r \<noteq> Landed now step'"
  shows "t1 = t \<or> (\<exists>s. s \<noteq> Accepted \<and> record_unsuccessful s time step t = Inr t1)"
  using assms by (auto simp: native_attempt_def split: sum.splits outcome.splits)

lemma restore_stats_same [simp]: "restore_stats t t = t"
  by (simp add: restore_stats_def Let_def)

text \<open>Rolling back keeps everything but the statistics.\<close>

lemma restore_stats_state: "\<exists>s. restore_stats t u = t\<lparr>tm_stats := s\<rparr>"
proof -
  have "t = t\<lparr>tm_stats := tm_stats t\<rparr>" by simp
  then show ?thesis unfolding restore_stats_def Let_def by (metis (no_types))
qed

lemma error_attempt_refused:
  assumes "error_attempt p deadline time step proposal e result t = (t1, Refused)"
  shows "(\<exists>s. t1 = t\<lparr>tm_stats := s\<rparr>) \<and> temporal_step\<^sup>*\<^sup>* t t1"
proof -
  obtain u r where n: "native_attempt time step (Some e) result t = (u, r)" by fastforce
  have "r = Refused" "t1 = restore_stats t u"
    using assms n by (auto simp: error_attempt_def split: attempt_end.splits sum.splits if_splits)
  moreover have "u = t \<or> (\<exists>s. s \<noteq> Accepted \<and> record_unsuccessful s time step t = Inr u)"
    using native_attempt_not_landed [OF n] \<open>r = Refused\<close> by simp
  moreover have "u = t \<or> temporal_step t (restore_stats t u)" using calculation(3) rolled_back by blast
  ultimately have "temporal_step\<^sup>*\<^sup>* t t1" by auto
  then show ?thesis using restore_stats_state [of t u] \<open>t1 = restore_stats t u\<close> by simp
qed

lemma error_attempt_landed:
  assumes "error_attempt p deadline time step proposal e result t = (t2, Landed now step')"
  shows "\<exists>t1. before_queued_attempt e time step t = Inr () \<and> accept time step now step' (Some e) t = Inr t1
     \<and> controller_accept p proposal now step' t1 = Inr t2 \<and> \<not> crossed deadline now"
proof -
  obtain u r where n: "native_attempt time step (Some e) result t = (u, r)" by fastforce
  have r: "r = Landed now step'" and c: "controller_accept p proposal now step' u = Inr t2 \<and> \<not> crossed deadline now"
    using assms n by (auto simp: error_attempt_def split: attempt_end.splits sum.splits if_splits)
  show ?thesis using native_attempt_landed [OF n [unfolded r]] c by blast
qed

text \<open>An accepted error-controlled attempt: it landed on the event it announced, and announced the next.\<close>

lemma error_attempt_accepted:
  assumes a: "error_attempt p deadline time step proposal e result t = (t2, Landed now step')"
    and reach: "temporal_step\<^sup>*\<^sup>* fresh_temporal t" and m: "tm_strategy t = Some m" "is_error_controlled m"
    and e: "e = proposal_at time step proposal"
  shows "temporal_step\<^sup>*\<^sup>* fresh_temporal t2 \<and> tm_status t2 = Accepted \<and> tm_strategy t2 = Some m \<and> tm_schedule t2 = tm_schedule t
     \<and> \<not> tm_restored t2 \<and> fl (time + proposal) = Some now \<and> step' = step + 1 \<and> tm_time t2 = now \<and> tm_step t2 = step'
     \<and> tm_last_dt t2 = Some (fl (now - time)) \<and> tm_queue t2 = [proposal_at now step' (next_proposal p proposal)]"
proof -
  obtain t1 where b: "before_queued_attempt e time step t = Inr ()" and acc: "accept time step now step' (Some e) t = Inr t1"
    and c: "controller_accept p proposal now step' t1 = Inr t2"
    using error_attempt_landed [OF a] by blast
  note v = accept_value [OF acc]
  have "\<forall>x. Some e = Some x \<longrightarrow> is_queue_head x t \<and> ev_time x = Some now \<and> ev_cursor x = step'" using v by (elim conjE)
  then have land: "fl (time + proposal) = Some now" by (simp add: e proposal_at_def)
  have step1: "temporal_step t t1" by (rule queued_attempt [OF b fl_is_b64 [OF land] acc])
  define c1 where "c1 = tm_cursors t1"
  have t1: "t1 = t\<lparr>tm_queue := tl (tm_queue t), tm_time := now, tm_step := step',
              tm_cursors := c1, tm_last_dt := Some (fl (now - time)),
              tm_stats := (tm_stats t)\<lparr>st_accepted := st_accepted (tm_stats t) + 1\<rparr>,
              tm_status := Accepted, tm_sync := True, tm_restored := False\<rparr>"
    using v unfolding c1_def option.case by (elim conjE)
  obtain x where x: "queue_proposal (next_proposal p proposal) now step' False t1 = Inr x"
    and y: "(case x of (_, t') \<Rightarrow> Inr t') = (Inr t2 :: temporal result)"
    using c unfolding controller_accept_def bindR_Inr_iff by (elim exE conjE) (rule that)
  obtain e2 where q: "queue_proposal (next_proposal p proposal) now step' False t1 = Inr (e2, t2)" using x y by (cases x) simp
  have s1: "tm_strategy t1 = Some m" using m(1) by (simp add: t1)
  have "temporal_step t1 t2" by (rule queue [OF s1 m(2) q])
  then have "temporal_step\<^sup>*\<^sup>* fresh_temporal t2"
    by (rule rtranclp.rtrancl_into_rtrancl [OF rtranclp.rtrancl_into_rtrancl [OF reach step1]])
  moreover have "tl (tm_queue t) = []" using reached_ok [OF reach] by (auto simp: temporal_ok_def queue_ok_def)
  moreover have "step' = step + 1" using v by (elim conjE)
  moreover have "t2 = t1\<lparr>tm_queue := [proposal_at now step' (next_proposal p proposal)]\<rparr>"
  proof -
    have "now = tm_time t1" "step' = tm_step t1" "tl (tm_queue t1) = []" using \<open>tl (tm_queue t) = []\<close> by (simp_all add: t1)
    then show ?thesis using queue_proposal_value [OF q] by simp
  qed
  ultimately show ?thesis using land m(1) unfolding t1 by simp
qed

text \<open>The whole loop.\<close>

lemma error_loop_done:
  assumes "error_loop p native deadline time step n proposal e t = (ds, StepDone nd now step' t')"
    and "temporal_step\<^sup>*\<^sup>* fresh_temporal t" and "tm_strategy t = Some m" "is_error_controlled m"
    and "e = proposal_at time step proposal" and "time = tm_time t" "step = tm_step t"
  shows "temporal_step\<^sup>*\<^sup>* fresh_temporal t' \<and> tm_status t' = Accepted \<and> tm_strategy t' = Some m \<and> tm_schedule t' = tm_schedule t
     \<and> \<not> tm_restored t' \<and> ds \<noteq> [] \<and> fl (time + last ds) = Some now \<and> step' = step + 1 \<and> tm_time t' = now \<and> tm_step t' = step'
     \<and> tm_last_dt t' = Some (fl (now - time)) \<and> nd = next_proposal p (last ds) \<and> tm_queue t' = [proposal_at now step' nd]"
  using assms
proof (induction p native deadline time step n proposal e t arbitrary: ds rule: error_loop.induct)
  case (1 p native deadline time step n proposal e t)
  obtain t1 a where a: "error_attempt p deadline time step proposal e (native (n + 1) proposal) t = (t1, a)" by fastforce
  note unfold = error_loop.simps [of p native deadline time step n proposal e t]
  show ?case
  proof (cases a)
    case (Landed x y)
    have "ds = [proposal]" "nd = next_proposal p proposal" "x = now" "y = step'" "t1 = t'"
      using "1.prems"(1) a Landed by (simp_all add: unfold)
    then show ?thesis using error_attempt_accepted [OF a [unfolded Landed] "1.prems"(2,3,4,5)] by simp
  next
    case Refused
    then obtain reduced e' t2 ds' where re: "error_retry p (n + 1) proposal time step t1 = Inr (Some (reduced, e', t2))"
      and rec: "error_loop p native deadline time step (n + 1) reduced e' t2 = (ds', StepDone nd now step' t')"
      and ds: "ds = proposal # ds'"
      using "1.prems"(1) a by (auto simp: unfold split: sum.splits option.splits prod.splits)
    have s1: "\<exists>s. t1 = t\<lparr>tm_stats := s\<rparr>" and r1: "temporal_step\<^sup>*\<^sup>* t t1" using error_attempt_refused [OF a [unfolded Refused]] by blast+
    have q: "queue_proposal reduced time step True t1 = Inr (e', t2)" using error_retry_value [OF re] by blast
    have m1: "tm_strategy t1 = Some m" "tm_time t1 = tm_time t" "tm_step t1 = tm_step t" "tm_schedule t1 = tm_schedule t"
      using s1 "1.prems"(3) by auto
    note qv = queue_proposal_value [OF q]
    have t2: "tm_strategy t2 = Some m" "tm_time t2 = tm_time t" "tm_step t2 = tm_step t" "tm_schedule t2 = tm_schedule t"
      "e' = proposal_at time step reduced"
      using qv m1 by auto
    have "temporal_step t1 t2" by (rule queue [OF m1(1) "1.prems"(4) q])
    then have "temporal_step\<^sup>*\<^sup>* fresh_temporal t2" by (rule rtranclp.rtrancl_into_rtrancl [OF rtranclp_trans [OF "1.prems"(2) r1]])
    then have "temporal_step\<^sup>*\<^sup>* fresh_temporal t' \<and> tm_status t' = Accepted \<and> tm_strategy t' = Some m \<and> tm_schedule t' = tm_schedule t2
     \<and> \<not> tm_restored t' \<and> ds' \<noteq> [] \<and> fl (time + last ds') = Some now \<and> step' = step + 1 \<and> tm_time t' = now \<and> tm_step t' = step'
     \<and> tm_last_dt t' = Some (fl (now - time)) \<and> nd = next_proposal p (last ds') \<and> tm_queue t' = [proposal_at now step' nd]"
      by (intro "1.IH" [OF a [symmetric] Refused re refl refl refl rec]) (use t2 "1.prems" in simp_all)
    then show ?thesis using t2(4) by (simp add: ds)
  next
    case (Fatal x)
    then show ?thesis using "1.prems"(1) a by (simp add: unfold)
  qed
qed

lemma error_step_done:
  assumes reach: "temporal_step\<^sup>*\<^sup>* fresh_temporal t" and m: "tm_strategy t = Some m" "is_error_controlled m"
    and s: "error_step p native next_dt deadline t_end time step t = Inr (ds, StepDone nd now step' t')"
  shows "temporal_step\<^sup>*\<^sup>* fresh_temporal t' \<and> tm_status t' = Accepted \<and> tm_strategy t' = Some m \<and> tm_schedule t' = tm_schedule t
     \<and> \<not> tm_restored t' \<and> ds \<noteq> [] \<and> fl (time + last ds) = Some now \<and> step' = step + 1 \<and> tm_time t' = now \<and> tm_step t' = step'
     \<and> tm_last_dt t' = Some (fl (now - time)) \<and> nd = next_proposal p (last ds) \<and> tm_queue t' = [proposal_at now step' nd]"
proof -
  obtain first e t0 where pr: "prepare_error p next_dt t_end time step t = Inr (first, e, t0)"
    and l: "error_loop p native deadline time step 0 first e t0 = (ds, StepDone nd now step' t')"
    using s by (auto simp: error_step_def)
  note v = prepare_error_value [OF reached_ok [OF reach] pr]
  have "t0 = t \<or> (\<exists>replace. queue_proposal first time step replace t = Inr (e, t0))"
    using prepare_error_cases [OF pr] by blast
  then have "temporal_step\<^sup>*\<^sup>* t t0" using queue [OF m] by (auto intro: r_into_rtranclp)
  then have r0: "temporal_step\<^sup>*\<^sup>* fresh_temporal t0" using reach by simp
  have t0: "tm_strategy t0 = Some m" "tm_schedule t0 = tm_schedule t" "time = tm_time t0" "step = tm_step t0" "e = proposal_at time step first"
    using v m(1) by auto
  show ?thesis using error_loop_done [OF l r0 t0(1) m(2) t0(5,3,4)] t0(2) by simp
qed

lemma checkpoint_after_step:
  assumes "temporal_step\<^sup>*\<^sup>* fresh_temporal t" and "tm_strategy t = Some m" and "is_error_controlled m"
    and "policy_from_data (fst m) = Inr p"
    and "error_step p native next_dt deadline t_end time step t = Inr (ds, StepDone nd now step' t')"
  shows "tm_status t' = Accepted \<and> ((\<exists>d. checkpoint now step' t' = Inr d)
     \<longleftrightarrow> (\<exists>h. fl (now - time) = Some h \<and> next_proposal p h = next_proposal p (last ds)))"
proof -
  note v = error_step_done [OF assms(1,2,3,5)]
  have ok: "temporal_ok t'" using reached_ok v by blast
  have inj: "proposal_at now step' x = proposal_at now step' y \<longleftrightarrow> x = y" for x y by (auto simp: proposal_at_def)
  have s: "tm_strategy t' = Some m" "tm_status t' = Accepted" "tm_time t' = now" "tm_step t' = step'"
    "tm_queue t' = [proposal_at now step' nd]" "tm_last_dt t' = Some (fl (now - time))" "nd = next_proposal p (last ds)"
    using v by blast+
  show ?thesis
    using checkpoint_iff [OF ok s(1,2)] s(2) unfolding s(3,4,5) inj owed_proposal_def s(6) option.case
    by (simp add: assms(3,4) s(7)) (auto simp: inj)
qed

text \<open>
  After an accepted error-controlled step the state can be checkpointed exactly when the proposal it queued,
  computed from the interval the step was given, is also the one computed from the difference of the two clocks.
\<close>

theorem error_controlled_checkpoint:
  assumes "temporal_step\<^sup>*\<^sup>* fresh_temporal t" and "tm_strategy t = Some m" and "is_error_controlled m"
    and "policy_from_data (fst m) = Inr p"
    and "error_step p native next_dt deadline t_end time step t = Inr (ds, StepDone nd now step' t')"
  shows "tm_status t' = Accepted \<and> ((\<exists>d. checkpoint now step' t' = Inr d)
     \<longleftrightarrow> (\<exists>h. fl (now - time) = Some h \<and> next_proposal p h = next_proposal p (last ds)))"
  using checkpoint_after_step [OF assms] .

text \<open>The deadline check never fires on a step that ends at the deadline.\<close>

lemma error_attempt_in_time:
  assumes E: "is_b64 E" "0 \<le> time" "time < E" and r: "fl (E - time) = Some r" and p: "0 < proposal" "proposal \<le> r" "is_b64 proposal"
    and e: "e = proposal_at time step proposal"
  shows "error_attempt p (Some E) time step proposal e result t = error_attempt p None time step proposal e result t"
proof -
  obtain u a where n: "native_attempt time step (Some e) result t = (u, a)" by fastforce
  show ?thesis
  proof (cases a)
    case (Landed now step')
    have acc: "accept time step now step' (Some e) t = Inr u" using native_attempt_landed [OF n [unfolded Landed]] by blast
    have "\<forall>x. Some e = Some x \<longrightarrow> is_queue_head x t \<and> ev_time x = Some now \<and> ev_cursor x = step'"
      using accept_value [OF acc] by (elim conjE)
    then have "fl (time + proposal) = Some now" by (simp add: e proposal_at_def)
    then have "\<not> crossed (Some E) now" by (rule landing_not_crossed [OF E r p])
    moreover have "\<not> crossed None now" by (simp add: crossed_def)
    ultimately show ?thesis by (auto simp: error_attempt_def n Landed split: sum.splits)
  qed (simp_all add: error_attempt_def n)
qed

lemma error_loop_in_time:
  assumes "policy_ok p" and "is_b64 E" "0 \<le> time" "time < E" "fl (E - time) = Some r"
    and "0 < proposal" "proposal \<le> r" "is_b64 proposal" "e = proposal_at time step proposal" "time = tm_time t" "step = tm_step t"
  shows "error_loop p native (Some E) time step n proposal e t = error_loop p native None time step n proposal e t"
  using assms
proof (induction p native "None :: rat option" time step n proposal e t rule: error_loop.induct)
  case (1 p native time step n proposal e t)
  obtain t1 a where a: "error_attempt p None time step proposal e (native (n + 1) proposal) t = (t1, a)" by fastforce
  have a': "error_attempt p (Some E) time step proposal e (native (n + 1) proposal) t = (t1, a)"
    using error_attempt_in_time [OF "1.prems"(2-9)] a by simp
  note unfold = error_loop.simps [of p native "Some E" time step n proposal e t] error_loop.simps [of p native None time step n proposal e t]
  show ?case
  proof (cases "\<exists>reduced e' t2. a = Refused \<and> error_retry p (n + 1) proposal time step t1 = Inr (Some (reduced, e', t2))")
    case False
    then show ?thesis unfolding unfold a a'
      by (auto split: attempt_end.splits sum.splits option.splits)
  next
    case True
    then obtain reduced e' t2 where ref: "a = Refused" and re: "error_retry p (n + 1) proposal time step t1 = Inr (Some (reduced, e', t2))"
      by blast
    note v = error_retry_value [OF re]
    have q: "queue_proposal reduced time step True t1 = Inr (e', t2)" using v by blast
    have s: "reduced \<le> proposal" "is_b64 reduced" using shrink_le [OF "1.prems"(1,6,8)] v by blast+
    have pos: "0 < reduced" using v policy_dt_min [OF "1.prems"(1)] by linarith
    have at2: "e' = proposal_at time step reduced" "time = tm_time t2" "step = tm_step t2" using queue_proposal_value [OF q] by auto
    have "error_loop p native (Some E) time step (n + 1) reduced e' t2 = error_loop p native None time step (n + 1) reduced e' t2"
      by (rule "1.hyps" [OF a [symmetric] ref re refl refl refl "1.prems"(1-5) pos _ s(2) at2]) (use s "1.prems"(7) in simp)
    then show ?thesis unfolding unfold a a' using ref re by simp
  qed
qed

text \<open>
  Claim C20. An error-controlled step that ends at a hard deadline never crosses it: the check of the run loop changes
  nothing, whatever the native executor does with the attempts.
\<close>

theorem error_controlled_stops_at_the_end:
  assumes "policy_ok p" and "temporal_step\<^sup>*\<^sup>* fresh_temporal t" and "is_b64 next_dt" and "is_b64 t_end" and "time < t_end"
  shows "error_step p native next_dt (Some t_end) t_end time step t = error_step p native next_dt None t_end time step t"
proof (cases "prepare_error p next_dt t_end time step t")
  case (Inr x)
  obtain first e t0 where x: "x = (first, e, t0)" by (cases x)
  note ok = reached_ok [OF assms(2)]
  obtain r where v: "fl (t_end - time) = Some r" "first = min (min next_dt (ep_dt_max p)) r" "0 < first"
    "time = tm_time t" "step = tm_step t" "e = proposal_at time step first" "t0 = t\<lparr>tm_queue := [e]\<rparr>"
    using prepare_error_value [OF ok Inr [unfolded x]] by blast
  have b: "is_b64 first" using v(2) assms(1,3) fl_is_b64 [OF v(1)] by (auto simp: policy_ok_def min_def)
  have "error_loop p native (Some t_end) time step 0 first e t0 = error_loop p native None time step 0 first e t0"
    by (rule error_loop_in_time [OF assms(1,4) _ assms(5) v(1,3) _ b v(6)]) (use v ok in \<open>simp_all add: temporal_ok_def\<close>)
  then show ?thesis by (simp add: error_step_def Inr x)
qed (simp add: error_step_def)

section \<open>The next attempt after a restart\<close>

fun reflag :: "bool \<Rightarrow> step_end \<Rightarrow> step_end" where
  "reflag b (StepDone nd now step t) = StepDone nd now step t"
| "reflag b (StepRefused t) = StepRefused (t\<lparr>tm_restored := b\<rparr>)"
| "reflag b (StepFailed x t) = StepFailed x (t\<lparr>tm_restored := b\<rparr>)"

abbreviation flag :: "bool \<Rightarrow> temporal \<Rightarrow> temporal" where
  "flag b t \<equiv> t\<lparr>tm_restored := b\<rparr>"

lemma live_clock_flag [simp]: "live_clock (flag b t) = live_clock t"
  by (simp add: live_clock_def fun_eq_iff)

lemma queue_proposal_flag:
  "queue_proposal dt time step replace (flag b t) = map_sum id (\<lambda>(e, u). (e, flag b u)) (queue_proposal dt time step replace t)"
  by (cases "mk_event proposal_kind (fl (time + dt)) (step + 1) (DtPayload (Some dt))")
    (auto simp: queue_proposal_def live_clock_def raise_if_def split: list.splits)

lemma queued_proposal_flag: "queued_proposal time step (flag b t) = queued_proposal time step t"
  by (simp add: queued_proposal_def)

lemma before_queued_flag: "before_queued_attempt e time step (flag b t) = before_queued_attempt e time step t"
  by (simp add: before_queued_attempt_def before_attempt_def is_queue_head_def)

lemma accept_flag: "accept before old_step now step c (flag b t) = accept before old_step now step c t"
  by (cases c) (simp_all add: accept_def is_queue_head_def)

lemma record_flag: "record_unsuccessful s time step (flag b t) = record_unsuccessful s time step t"
  by (simp add: record_unsuccessful_def)

lemma restore_flag: "restore_stats (flag b t) u = flag b (restore_stats t u)"
  by (simp add: restore_stats_def Let_def)

lemma restore_self: "restore_stats t (flag b t) = t"
  by (simp add: restore_stats_def Let_def)

lemmas flag_rules = queue_proposal_flag queued_proposal_flag before_queued_flag accept_flag record_flag restore_flag

lemma error_attempt_flag:
  assumes "error_attempt p deadline time step proposal e result t = (u, a)"
  shows "error_attempt p deadline time step proposal e result (flag b t)
     = (case a of Landed _ _ \<Rightarrow> u | _ \<Rightarrow> flag b u, a)"
  using assms
  by (auto simp: error_attempt_def native_attempt_def flag_rules restore_self split: sum.splits outcome.splits if_splits)

lemma error_retry_flag:
  "error_retry p n proposal time step (flag b t)
     = map_sum id (map_option (\<lambda>(r, e, u). (r, e, flag b u))) (error_retry p n proposal time step t)"
  by (cases "fl (proposal * ep_shrink p)"; cases "queue_proposal (the (fl (proposal * ep_shrink p))) time step True t")
    (auto simp: error_retry_def queue_proposal_flag)

lemma error_loop_flag:
  "error_loop p native deadline time step n proposal e (flag b t)
     = apsnd (reflag b) (error_loop p native deadline time step n proposal e t)"
proof (induction p native deadline time step n proposal e t rule: error_loop.induct)
  case (1 p native deadline time step n proposal e t)
  obtain t1 a where a: "error_attempt p deadline time step proposal e (native (n + 1) proposal) t = (t1, a)" by fastforce
  note f = error_attempt_flag [OF a, of b]
  note unfold = error_loop.simps [of p native deadline time step n proposal e]
  show ?case
  proof (cases a)
    case Refused
    show ?thesis
    proof (cases "\<exists>x. error_retry p (n + 1) proposal time step t1 = Inr (Some x)")
      case True
      then obtain reduced e' t2 where re: "error_retry p (n + 1) proposal time step t1 = Inr (Some (reduced, e', t2))"
        by (metis prod_cases3)
      have "error_loop p native deadline time step (n + 1) reduced e' (flag b t2)
          = apsnd (reflag b) (error_loop p native deadline time step (n + 1) reduced e' t2)"
        by (rule "1.IH" [OF a [symmetric] Refused re refl refl refl])
      then show ?thesis using f a re Refused by (simp add: unfold error_retry_flag split: prod.splits)
    next
      case False
      then show ?thesis using f a Refused by (auto simp: unfold error_retry_flag split: sum.splits option.splits)
    qed
  qed (use f a in \<open>simp_all add: unfold\<close>)
qed

lemma prepare_error_flag:
  "prepare_error p next_dt t_end time step (flag b t)
     = map_sum id (\<lambda>(q, e, u). (q, e, flag b u)) (prepare_error p next_dt t_end time step t)"
proof (cases "clipped (min next_dt (ep_dt_max p)) time t_end")
  case (Inr q)
  have r: "bindR (queue_proposal q time step replace (flag b t)) (\<lambda>(e, u). Inr (q, e, u))
      = map_sum id (\<lambda>(q, e, u). (q, e, flag b u)) (bindR (queue_proposal q time step replace t) (\<lambda>(e, u). Inr (q, e, u)))" for replace
    by (cases "queue_proposal q time step replace t") (auto simp: queue_proposal_flag)
  show ?thesis
    by (cases "queued_proposal time step t") (auto simp: prepare_error_def Inr queued_proposal_flag r)
qed (simp add: prepare_error_def)

lemma error_step_flag:
  "error_step p native next_dt deadline t_end time step (flag b t)
     = map_sum id (apsnd (reflag b)) (error_step p native next_dt deadline t_end time step t)"
  by (cases "prepare_error p next_dt t_end time step t") (auto simp: error_step_def prepare_error_flag error_loop_flag)

lemma begin_restored:
  assumes "temporal_ok t" and "tm_strategy t = Some m" and "tm_restored t"
  shows "begin_run (m, tm_schedule t) (tm_time t) (tm_step t) t = Inr t"
proof -
  have "run_binding (m, tm_schedule t) = Inr (m, tm_schedule t)"
    using assms by (auto simp: run_binding_def temporal_ok_def schedule_ok_def split: option.splits)
  then show ?thesis using assms by (simp add: begin_run_def live_clock_def temporal_ok_def)
qed

text \<open>
  Claim C16. A restart repeats the next step exactly: from the checkpoint written after an accepted error-controlled step,
  the restored and bound state gives the controller the proposal the uninterrupted run has, and the next step ends accepted
  with the same intervals, clock, proposal and state in both.
\<close>

theorem restart_repeats_the_next_step:
  assumes "temporal_step\<^sup>*\<^sup>* fresh_temporal t" and "tm_strategy t = Some m" and "is_error_controlled m"
    and "error_step p native next_dt deadline t_end time step t = Inr (ds, StepDone nd now step' t')"
    and "checkpoint now step' t' = Inr d" and "from_saved d now step' (Some (tm_schedule t')) = Inr r"
  shows "begin_run (m, tm_schedule t') now step' r = Inr r \<and> controller_next_dt p r = Inr nd
     \<and> (\<forall>native' deadline' t_end' ds' x now'' step'' u.
          error_step p native' nd deadline' t_end' now step' r = Inr (ds', StepDone x now'' step'' u)
          \<longleftrightarrow> error_step p native' nd deadline' t_end' now step' t' = Inr (ds', StepDone x now'' step'' u))"
proof -
  note v = error_step_done [OF assms(1-4)]
  have ok: "temporal_ok t'" using reached_ok v by blast
  have r: "r = flag True t'" by (rule temporal_ok_restart(2) [OF ok assms(5,6)])
  have okr: "temporal_ok r" by (rule temporal_ok_restart(1) [OF ok assms(5,6)])
  have f: "tm_time r = now" "tm_step r = step'" "tm_strategy r = Some m" "tm_restored r" "tm_schedule r = tm_schedule t'"
    "tm_queue r = [proposal_at now step' nd]"
    using v by (simp_all add: r)
  have "begin_run (m, tm_schedule t') now step' r = Inr r" using begin_restored [OF okr f(3,4)] by (simp add: f)
  moreover have "controller_next_dt p r = Inr nd"
  proof -
    have "0 \<le> step'" "fl (now + nd) \<noteq> None" using okr f by (auto simp: temporal_ok_def queue_ok_def proposal_at_def)
    then show ?thesis by (simp add: controller_next_dt_def f queued_proposal_def live_clock_def proposal_at_def)
  qed
  moreover have "reflag True z = StepDone x now'' step'' u \<longleftrightarrow> z = StepDone x now'' step'' u" for z x now'' step'' u
    by (cases z) auto
  then have "error_step p native' nd deadline' t_end' now step' r = Inr (ds', StepDone x now'' step'' u)
      \<longleftrightarrow> error_step p native' nd deadline' t_end' now step' t' = Inr (ds', StepDone x now'' step'' u)"
    for native' deadline' t_end' ds' x now'' step'' u
    unfolding r error_step_flag by (cases "error_step p native' nd deadline' t_end' now step' t'") auto
  ultimately show ?thesis by blast
qed

section \<open>The decision of all ranks\<close>

text \<open>
  What a rank reports of its attempt: nothing when it landed, else whether the error is a rejection, with
  the controls of the rejection (a status that is not text is \<open>None\<close>).
\<close>

record attempt_error =
  ae_rejected :: bool
  ae_status :: "string option"
  ae_phase :: string
  ae_disposition :: "string option"
  ae_reason :: int

definition solve_statuses :: "string list" where
  "solve_statuses =
     [''singular'', ''breakdown'', ''iteration_limit'', ''invalid_evaluation'', ''capability_failure'', ''invalid_input'',
      ''incompatible_rhs'', ''inadmissible_candidate'', ''safeguard_failure'']"

definition rejection_controls :: "attempt_error \<Rightarrow> string option \<times> string \<times> string option \<times> int" where
  "rejection_controls e = (ae_status e, ae_phase e, ae_disposition e, ae_reason e)"

datatype decision = Proceed | FailStep | RejectStep nat attempt_error

text \<open>The rows are in the order of the ranks; every rank sees the same ones.\<close>

primrec failed_ranks :: "nat \<Rightarrow> attempt_error option list \<Rightarrow> (nat \<times> attempt_error) list" where
  "failed_ranks rank [] = []"
| "failed_ranks rank (row # rows) = (case row of None \<Rightarrow> [] | Some e \<Rightarrow> [(rank, e)]) @ failed_ranks (Suc rank) rows"

definition collective_decision :: "attempt_error option list \<Rightarrow> decision" where
  "collective_decision rows =
     (let failures = failed_ranks 0 rows;
          fatal = filter (\<lambda>(_, e). \<not> ae_rejected e) failures;
          controls = remdups (map (\<lambda>(_, e). rejection_controls e) (filter (\<lambda>(_, e). ae_rejected e) failures)) in
      if failures = [] then Proceed
      else
        (let (rank, selected) = hd (if fatal \<noteq> [] then fatal else failures) in
         if fatal \<noteq> [] \<or> length failures \<noteq> length rows \<or> 1 < length controls then FailStep
         else if (case ae_status selected of None \<Rightarrow> True | Some s \<Rightarrow> s \<notin> set solve_statuses) then FailStep
         else if (case ae_disposition selected of None \<Rightarrow> True | Some d \<Rightarrow> d \<notin> {''retry'', ''reject''}) then FailStep
         else RejectStep rank selected))"

lemma failed_ranks_rows:
  "set (map snd (failed_ranks n rows)) = {e. Some e \<in> set rows}
   \<and> length (failed_ranks n rows) \<le> length rows
   \<and> (length (failed_ranks n rows) = length rows \<longleftrightarrow> None \<notin> set rows)"
proof (induction rows arbitrary: n)
  case (Cons row rows)
  show ?case using Cons.IH [of "Suc n"] by (cases row) auto
qed simp

lemma failed_ranks_first: "row = Some e \<Longrightarrow> failed_ranks n (row # rows) = (n, e) # failed_ranks (Suc n) rows"
  by simp

lemma remdups_one: "x \<in> set xs \<Longrightarrow> \<not> 1 < length (remdups xs) \<longleftrightarrow> (\<forall>y \<in> set xs. y = x)"
proof -
  assume x: "x \<in> set xs"
  have "length (remdups xs) = card (set xs)" by (simp add: length_remdups_card_conv)
  moreover have "\<not> 1 < card (set xs) \<longleftrightarrow> (\<forall>y \<in> set xs. y = x)"
    using x by (metis List.finite_set card_1_singletonE card_gt_0_iff empty_iff insertI1 insert_iff is_singletonI'
      is_singleton_altdef linorder_neqE_nat less_one not_less_iff_gr_or_eq)
  ultimately show ?thesis by simp
qed

lemma decision_proceeds: "collective_decision rows = Proceed \<longleftrightarrow> (\<forall>row \<in> set rows. row = None)"
proof -
  have "failed_ranks 0 rows = [] \<longleftrightarrow> set (map snd (failed_ranks 0 rows)) = {}" by simp
  also have "\<dots> \<longleftrightarrow> (\<forall>row \<in> set rows. row = None)" unfolding conjunct1 [OF failed_ranks_rows] by (auto simp: not_None_eq [symmetric] simp del: not_None_eq) (metis option.exhaust)
  finally show ?thesis by (auto simp: collective_decision_def Let_def split: prod.splits)
qed

definition valid_rejection :: "attempt_error \<Rightarrow> bool" where
  "valid_rejection e \<longleftrightarrow> (\<exists>s \<in> set solve_statuses. ae_status e = Some s) \<and> ae_disposition e \<in> {Some ''retry'', Some ''reject''}"

lemma decision_rejects:
  assumes F: "failed_ranks 0 rows = (k, x) # fs" and full: "None \<notin> set rows" and all: "\<forall>row \<in> set rows. \<exists>y. row = Some y \<and> ae_rejected y"
  shows "collective_decision rows =
     (if (\<forall>row \<in> set rows. \<exists>y. row = Some y \<and> rejection_controls y = rejection_controls x) \<and> valid_rejection x
      then RejectStep k x else FailStep)"
proof -
  let ?F = "failed_ranks 0 rows"
  have set: "set (map snd ?F) = {e. Some e \<in> set rows}" and len: "length ?F = length rows"
    using failed_ranks_rows [of 0 rows] full by blast+
  have rej: "ae_rejected (snd f)" if f: "f \<in> set ?F" for f
  proof -
    have "Some (snd f) \<in> set rows" using f set by auto
    then show ?thesis using all by fastforce
  qed
  then have fatal: "filter (\<lambda>(_, e). \<not> ae_rejected e) ?F = []" and keep: "filter (\<lambda>(_, e). ae_rejected e) ?F = ?F"
    by (auto simp: filter_empty_conv filter_id_conv split_beta)
  let ?cs = "map (\<lambda>(_, e). rejection_controls e) ?F"
  have "rejection_controls x \<in> set ?cs" using F by simp
  then have "\<not> 1 < length (remdups ?cs) \<longleftrightarrow> (\<forall>y \<in> set ?cs. y = rejection_controls x)" by (rule remdups_one)
  also have "\<dots> \<longleftrightarrow> (\<forall>y \<in> set (map snd ?F). rejection_controls y = rejection_controls x)" by (auto simp: split_beta)
  also have "\<dots> \<longleftrightarrow> (\<forall>row \<in> set rows. \<exists>y. row = Some y \<and> rejection_controls y = rejection_controls x)"
    unfolding set using all by fastforce
  finally have one: "1 < length (remdups ?cs) \<longleftrightarrow> \<not> (\<forall>row \<in> set rows. \<exists>y. row = Some y \<and> rejection_controls y = rejection_controls x)"
    by blast
  have valid: "\<not> (case ae_status x of None \<Rightarrow> True | Some s \<Rightarrow> s \<notin> set solve_statuses)
      \<and> \<not> (case ae_disposition x of None \<Rightarrow> True | Some d \<Rightarrow> d \<notin> {''retry'', ''reject''}) \<longleftrightarrow> valid_rejection x"
    unfolding valid_rejection_def by (cases "ae_status x"; cases "ae_disposition x"; simp)
  have hd: "hd ?F = (k, x)" and ne: "?F \<noteq> []" using F by simp_all
  define bad_status bad_disposition where
    "bad_status \<longleftrightarrow> (case ae_status x of None \<Rightarrow> True | Some s \<Rightarrow> s \<notin> set solve_statuses)" and
    "bad_disposition \<longleftrightarrow> (case ae_disposition x of None \<Rightarrow> True | Some d \<Rightarrow> d \<notin> {''retry'', ''reject''})"
  have "collective_decision rows = (if 1 < length (remdups ?cs) then FailStep else if bad_status then FailStep
      else if bad_disposition then FailStep else RejectStep k x)"
    unfolding collective_decision_def Let_def fatal keep bad_status_def bad_disposition_def
    by (simp only: if_not_P [OF ne] hd len prod.case not_True_eq_False simp_thms if_False if_True)
  then show ?thesis using one valid [folded bad_status_def bad_disposition_def] by (cases bad_status; cases bad_disposition) simp_all
qed

text \<open>
  Claim C23. The ranks decide to reject an attempt exactly when every rank rejected it with the same controls, and these
  name a known solve status and a known disposition; the attempt proceeds exactly when no rank reports an error, and
  anything else fails the step.
\<close>

theorem collective_rejection_is_unanimous:
  "((\<exists>rank. collective_decision rows = RejectStep rank e)
     \<longleftrightarrow> (\<exists>rest. rows = Some e # rest) \<and> valid_rejection e
        \<and> (\<forall>row \<in> set rows. \<exists>x. row = Some x \<and> ae_rejected x \<and> rejection_controls x = rejection_controls e))
   \<and> (collective_decision rows = Proceed \<longleftrightarrow> (\<forall>row \<in> set rows. row = None))"
proof (cases "rows = [] \<or> (\<exists>row \<in> set rows. \<forall>x. row = Some x \<longrightarrow> \<not> ae_rejected x)")
  case True
  have "collective_decision rows \<noteq> RejectStep rank x" for rank x
  proof (cases "None \<in> set rows")
    case none: True
    then have "length (failed_ranks 0 rows) \<noteq> length rows" using failed_ranks_rows by blast
    then show ?thesis by (simp add: collective_decision_def Let_def split: prod.splits)
  next
    case False
    show ?thesis
    proof (cases "rows = []")
      case ne: False
      then obtain y where "Some y \<in> set rows" "\<not> ae_rejected y" using True False by (metis not_None_eq)
      then have "\<exists>f \<in> set (failed_ranks 0 rows). \<not> ae_rejected (snd f)"
        using conjunct1 [OF failed_ranks_rows [of 0 rows]] by force
      then have "filter (\<lambda>(_, e). \<not> ae_rejected e) (failed_ranks 0 rows) \<noteq> []" by (force simp: filter_empty_conv)
      then show ?thesis by (simp add: collective_decision_def Let_def split: prod.splits)
    qed (simp add: collective_decision_def)
  qed
  moreover have "\<not> ((\<exists>rest. rows = Some e # rest)
      \<and> (\<forall>row \<in> set rows. \<exists>x. row = Some x \<and> ae_rejected x \<and> rejection_controls x = rejection_controls e))"
    using True by auto
  ultimately show ?thesis using decision_proceeds by blast
next
  case False
  then obtain x rest where rows: "rows = Some x # rest" by (cases rows; force)
  have all: "\<forall>row \<in> set rows. \<exists>y. row = Some y \<and> ae_rejected y" using False by blast
  then have "None \<notin> set rows" by blast
  define same where "same \<longleftrightarrow> (\<forall>row \<in> set rows. \<exists>y. row = Some y \<and> rejection_controls y = rejection_controls x)"
  have "failed_ranks 0 rows = (0, x) # failed_ranks (Suc 0) rest" by (simp add: rows)
  then have "collective_decision rows = (if same \<and> valid_rejection x then RejectStep 0 x else FailStep)"
    unfolding same_def using decision_rejects \<open>None \<notin> set rows\<close> all by blast
  then have "(\<exists>rank. collective_decision rows = RejectStep rank e) \<longleftrightarrow> x = e \<and> same \<and> valid_rejection e" by auto
  moreover have "(\<exists>rest. rows = Some e # rest) \<longleftrightarrow> x = e" by (simp add: rows)
  moreover have "x = e \<Longrightarrow> same \<longleftrightarrow> (\<forall>row \<in> set rows. \<exists>x. row = Some x \<and> ae_rejected x \<and> rejection_controls x = rejection_controls e)"
    unfolding same_def using all by fastforce
  ultimately show ?thesis using decision_proceeds [of rows] by blast
qed

section \<open>The report of a step transaction\<close>

definition report_phases :: "string list" where
  "report_phases = [''prepare'', ''stage'', ''solve'', ''synchronize'', ''guard'', ''effect'', ''commit'']"

record step_report =
  sr_status :: string
  sr_phase :: string
  sr_attempts :: int
  sr_staged :: "string list"
  sr_committed :: "string list"
  sr_rolled_back :: "string list"
  sr_projections :: "string list"

definition effects_named :: "string list \<Rightarrow> bool" where
  "effects_named xs \<longleftrightarrow> [] \<notin> set xs \<and> distinct xs"

definition check_report :: "step_report \<Rightarrow> step_report result" where
  "check_report r =
     raise_if (sr_status r \<notin> {''accepted'', ''rejected'', ''failed''}) ValueError
    (raise_if (sr_phase r \<notin> set report_phases) ValueError
    (raise_if (sr_attempts r \<le> 0) ValueError
    (raise_if (sr_status r = ''accepted'' \<and> sr_rolled_back r \<noteq> []) ValueError
    (raise_if (sr_status r \<noteq> ''accepted'' \<and> sr_committed r \<noteq> []) ValueError
    (raise_if (\<not> (effects_named (sr_staged r) \<and> effects_named (sr_committed r) \<and> effects_named (sr_rolled_back r))) ValueError
    (raise_if (sr_status r = ''accepted'' \<and> set (sr_committed r) \<noteq> set (sr_staged r)) ValueError
    (raise_if (sr_status r \<noteq> ''accepted'' \<and> set (sr_rolled_back r) \<noteq> set (sr_staged r)) ValueError
    (raise_if (\<not> effects_named (sr_projections r)) ValueError (Inr r)))))))))"

text \<open>
  \<open>_phase\<close>: the attribute of the error (\<open>None\<close>: it has none; \<open>Some None\<close>: it is not text), else the
  first phase the message names.
\<close>

fun contains :: "string \<Rightarrow> string \<Rightarrow> bool" where
  "contains pat [] \<longleftrightarrow> pat = []"
| "contains pat (c # cs) \<longleftrightarrow> take (length pat) (c # cs) = pat \<or> contains pat cs"

definition phase_of :: "string option option \<Rightarrow> string \<Rightarrow> string" where
  "phase_of attribute message =
     (case attribute of
        Some (Some s) \<Rightarrow> if s \<in> set report_phases then s else ''solve''
      | Some None \<Rightarrow> ''solve''
      | None \<Rightarrow> (case find (\<lambda>p. contains ('' during '' @ p @ '':'') message) report_phases of Some p \<Rightarrow> p | None \<Rightarrow> ''solve''))"

text \<open>
  \<open>_projections\<close>: the guards whose projection the native executor reports, in the declared order;
  the report is \<open>None\<close> when the executor has no protocol for it.
\<close>

definition projections :: "string list \<Rightarrow> string list option \<Rightarrow> string list result" where
  "projections declared consumed =
     (case consumed of
        None \<Rightarrow> raise_if (declared \<noteq> []) TypeError (Inr [])
      | Some executed \<Rightarrow>
          raise_if ([] \<in> set executed) TypeError
         (raise_if (\<not> distinct executed) ValueError
         (raise_if (\<not> set executed \<subseteq> set declared) RuntimeError
           (Inr (filter (\<lambda>name. name \<in> set executed) declared)))))"

text \<open>The plan of a step: the provisional stores, and the names of its guards with whether they project.\<close>

definition check_plan :: "string list \<Rightarrow> (string \<times> bool) list \<Rightarrow> unit result" where
  "check_plan stores guards =
     raise_if ([] \<in> fst ` set guards) ValueError
    (raise_if (stores = []) TypeError
    (raise_if (\<not> distinct stores) ValueError
    (raise_if (\<not> distinct (map fst guards)) ValueError (Inr ()))))"

definition provisional_stores :: "string list" where
  "provisional_stores =
     [''states'', ''fields'', ''topology'', ''flux_ledgers'', ''caches'', ''solver_warm_starts'', ''histories'', ''clocks'',
      ''schedules'', ''consumers'', ''diagnostics'', ''external_effects'']"

definition declared_projections :: "(string \<times> bool) list \<Rightarrow> string list" where
  "declared_projections guards = map fst (filter snd guards)"

definition failure_report :: "bool \<Rightarrow> string option option \<Rightarrow> string \<Rightarrow> int \<Rightarrow> string list \<Rightarrow> string list \<Rightarrow> step_report result" where
  "failure_report rejected attribute message attempts stores projected =
     check_report \<lparr>sr_status = (if rejected then ''rejected'' else ''failed''), sr_phase = phase_of attribute message,
       sr_attempts = attempts, sr_staged = stores, sr_committed = [], sr_rolled_back = stores, sr_projections = projected\<rparr>"

definition success_report :: "int \<Rightarrow> string list \<Rightarrow> string list \<Rightarrow> step_report result" where
  "success_report attempts stores projected =
     check_report \<lparr>sr_status = ''accepted'', sr_phase = ''commit'', sr_attempts = attempts, sr_staged = stores,
       sr_committed = stores, sr_rolled_back = [], sr_projections = projected\<rparr>"

lemma phase_of_valid: "phase_of attribute message \<in> set report_phases"
proof -
  have "''solve'' \<in> set report_phases" by (simp add: report_phases_def)
  moreover have "find P xs = Some x \<Longrightarrow> x \<in> set xs" for P and xs :: "string list" and x by (induction xs) (auto split: if_splits)
  ultimately show ?thesis by (auto simp: phase_of_def split: option.splits)
qed

lemma projections_named:
  assumes "check_plan stores guards = Inr ()" and "projections (declared_projections guards) consumed = Inr ps"
  shows "effects_named ps"
proof -
  have g: "distinct (map fst guards)" "[] \<notin> fst ` set guards" using assms(1) by (simp_all add: check_plan_def)
  then have "distinct (declared_projections guards)" "[] \<notin> set (declared_projections guards)"
    by (auto simp: declared_projections_def distinct_map_filter)
  then show ?thesis using assms(2) by (auto simp: projections_def effects_named_def split: option.splits)
qed

text \<open>
  Under a constructed plan the report of an attempt is always well-formed: on success it commits exactly the
  staged stores, on a rejection or a failure it rolls back exactly these and commits none, whatever phase or message the
  error carries and whichever declared projections ran.
\<close>

theorem step_reports_are_well_formed:
  assumes "check_plan stores guards = Inr ()" and "set stores \<subseteq> set provisional_stores" and "0 < attempts"
    and "projections (declared_projections guards) consumed = Inr ps"
  shows "(\<exists>r. success_report attempts stores ps = Inr r \<and> sr_committed r = stores \<and> sr_rolled_back r = [])
     \<and> (\<exists>r. failure_report rejected attribute message attempts stores ps = Inr r \<and> sr_rolled_back r = stores
           \<and> sr_committed r = [] \<and> sr_phase r \<in> set report_phases)"
proof -
  have "[] \<notin> set provisional_stores" by (simp add: provisional_stores_def)
  then have s: "effects_named stores" using assms(1,2) by (auto simp: effects_named_def check_plan_def)
  have p: "effects_named ps" by (rule projections_named [OF assms(1,4)])
  have e: "effects_named []" by (simp add: effects_named_def)
  have c: "''commit'' \<in> set report_phases" by (simp add: report_phases_def)
  show ?thesis using s p e c assms(3) phase_of_valid [of attribute message]
    by (simp add: success_report_def failure_report_def check_report_def)
qed

theorem step_reports_are_well_formed_witness:
  "\<exists>r. failure_report True None ''rejected during guard: low'' 2 [''states'', ''fields''] [''positive''] = Inr r
     \<and> sr_rolled_back r = [''states'', ''fields'']"
proof -
  have "check_plan [''states'', ''fields''] [(''positive'', True)] = Inr ()" by (simp add: check_plan_def)
  moreover have "set [''states'', ''fields''] \<subseteq> set provisional_stores" by (simp add: provisional_stores_def)
  moreover have "projections (declared_projections [(''positive'', True)]) (Some [''positive'']) = Inr [''positive'']"
    by (simp add: projections_def declared_projections_def)
  ultimately show ?thesis using step_reports_are_well_formed [of "[''states'', ''fields'']" "[(''positive'', True)]" 2] by fastforce
qed

section \<open>A run whose checkpoint is refused\<close>

text \<open>An attempt that lands where it announced is accepted.\<close>

lemma accept_lands:
  assumes ok: "temporal_ok t" and q: "tm_queue t = [proposal_at (tm_time t) (tm_step t) dt]" and land: "fl (tm_time t + dt) = Some now"
    and lt: "tm_time t < now"
  shows "\<exists>t1. accept (tm_time t) (tm_step t) now (tm_step t + 1) (Some (proposal_at (tm_time t) (tm_step t) dt)) t = Inr t1
     \<and> tm_queue t1 = [] \<and> tm_time t1 = now \<and> tm_step t1 = tm_step t + 1"
proof -
  have "\<exists>c. boundary_cursors (tm_schedule t) now (tm_step t + 1) = Inr c"
  proof (cases "tm_schedule t")
    case None
    then show ?thesis by (simp add: boundary_cursors_def)
  next
    case (Some p)
    then have "schedule_ok p" using ok by (simp add: temporal_ok_def)
    then show ?thesis using boundary_value Some by fastforce
  qed
  then obtain c where c: "boundary_cursors (tm_schedule t) now (tm_step t + 1) = Inr c" by blast
  have "0 \<le> tm_step t" using ok by (simp add: temporal_ok_def)
  moreover have "validate_event (proposal_at (tm_time t) (tm_step t) dt) = Inr (proposal_at (tm_time t) (tm_step t) dt)"
    using land calculation by (simp add: validate_event_def proposal_at_def proposal_kind_def)
  ultimately show ?thesis using c q land lt by (simp add: accept_def is_queue_head_def) (simp add: proposal_at_def)
qed

lemma error_step_lands:
  assumes ok: "temporal_ok t" and q: "tm_queue t = [proposal_at (tm_time t) (tm_step t) dt]" and land: "fl (tm_time t + dt) = Some now"
    and lt: "tm_time t < now" and clip: "clipped (min next_dt (ep_dt_max p)) (tm_time t) t_end = Inr dt"
    and next_ok: "0 < next_proposal p dt" "fl (now + next_proposal p dt) \<noteq> None"
    and native: "native 1 dt = Lands now (tm_step t + 1)"
  shows "\<exists>t'. error_step p native next_dt None t_end (tm_time t) (tm_step t) t
     = Inr ([dt], StepDone (next_proposal p dt) now (tm_step t + 1) t')"
proof -
  let ?e = "proposal_at (tm_time t) (tm_step t) dt"
  have step: "0 \<le> tm_step t" using ok by (simp add: temporal_ok_def)
  obtain t1 where acc: "accept (tm_time t) (tm_step t) now (tm_step t + 1) (Some ?e) t = Inr t1"
    and t1: "tm_queue t1 = []" "tm_time t1 = now" "tm_step t1 = tm_step t + 1"
    using accept_lands [OF ok q land lt] by blast
  have v: "validate_event ?e = Inr ?e" using land step by (simp add: validate_event_def proposal_at_def proposal_kind_def)
  have b: "before_queued_attempt ?e (tm_time t) (tm_step t) t = Inr ()"
    using v step q by (simp add: before_queued_attempt_def before_attempt_def is_queue_head_def live_clock_def)
  have n: "native_attempt (tm_time t) (tm_step t) (Some ?e) (native 1 dt) t = (t1, Landed now (tm_step t + 1))"
    by (simp add: native_attempt_def b native acc)
  have mk: "\<exists>x. mk_event proposal_kind (fl (now + next_proposal p dt)) (tm_step t + 1 + 1) (DtPayload (Some (next_proposal p dt))) = Inr x"
    using next_ok(2) step by (auto simp: mk_event_def validate_event_def proposal_kind_def)
  then obtain t2 where c: "controller_accept p dt now (tm_step t + 1) t1 = Inr t2"
    using next_ok(1) step t1 by (auto simp: controller_accept_def queue_proposal_def live_clock_def not_le)
  have a: "error_attempt p None (tm_time t) (tm_step t) dt ?e (native 1 dt) t = (t2, Landed now (tm_step t + 1))"
    by (simp add: error_attempt_def n c crossed_def)
  have qd: "queued_proposal (tm_time t) (tm_step t) t = Inr (?e, dt)"
    using q step land by (simp add: queued_proposal_def live_clock_def proposal_at_def)
  have pr: "prepare_error p next_dt t_end (tm_time t) (tm_step t) t = Inr (dt, ?e, t)"
    using clip q qd by (simp add: prepare_error_def)
  show ?thesis by (simp add: error_step_def pr error_loop.simps [of p native None "tm_time t" "tm_step t" 0] a)
qed

text \<open>Steps of 0.1 that double: binary64 0.1 and 0.2, and their sum.\<close>

definition tenth :: rat where
  "tenth = 3602879701896397 / 36028797018963968"

definition tenth_sum :: rat where
  "tenth_sum = 1351079888211149 / 4503599627370496"

definition doubling :: error_policy where
  "doubling = \<lparr>ep_dt_init = tenth, ep_rtol = 1, ep_atol = 1, ep_dt_min = tenth, ep_dt_max = 1, ep_max_rejections = 2,
     ep_shrink = tenth, ep_growth = 2\<rparr>"

definition doubling_run :: manifest where
  "doubling_run = (strategy_data (ErrorControlledDt doubling), [])"

text \<open>Three times the binary64 0.1 lies half-way between two binary64: the even one is 0.30000000000000004.\<close>

lemma fl_tie: "fl (3 * tenth) = Some tenth_sum"
proof -
  have "magnitude (3 * tenth) = - 2" by (rule magnitude_unique) (simp_all add: tenth_def)
  then have u: "ulp (3 * tenth) = 2 powi (- 54)" by (simp add: ulp_def ulp_exp_def) (simp add: tenth_def)
  have q: "3 * tenth / ulp (3 * tenth) = of_int 5404319552844595 + 1/2" unfolding u by (simp add: tenth_def)
  have "\<lfloor>of_int 5404319552844595 + 1/2 :: rat\<rfloor> = 5404319552844595" by (simp add: floor_eq_iff)
  then have "round_even (3 * tenth / ulp (3 * tenth)) = 5404319552844596" unfolding q round_even_def Let_def by simp
  then show ?thesis unfolding fl_def Let_def by (simp add: u tenth_sum_def)
qed

lemma fl_tenths:
  "fl tenth = Some tenth" "fl (2 * tenth) = Some (2 * tenth)" "fl (4 * tenth) = Some (4 * tenth)" "fl (3 * tenth) = Some tenth_sum"
  "fl (tenth_sum - tenth) = Some (7205759403792795 / 36028797018963968)"
  "fl (2 * (7205759403792795 / 36028797018963968)) = Some (7205759403792795 / 18014398509481984)"
  "fl (tenth_sum + 4 * tenth) = Some (6305039478318695 / 9007199254740992)" "fl 4 = Some 4"
  "fl (4 - tenth) = Some (8782019273372467 / 2251799813685248)" "fl 2 = Some 2"
  using fl_eval [of "- 4" tenth 7205759403792794] fl_eval [of "- 3" "2 * tenth" 7205759403792794]
    fl_eval [of "- 2" "4 * tenth" 7205759403792794] fl_tie
    fl_eval [of "- 3" "tenth_sum - tenth" 7205759403792795] fl_eval [of "- 2" "2 * (7205759403792795 / 36028797018963968)" 7205759403792795]
    fl_eval [of "- 1" "tenth_sum + 4 * tenth" 6305039478318695] fl_eval [of 2 4 4503599627370496]
    fl_eval [of 1 "4 - tenth" 8782019273372467] fl_eval [of 1 2 4503599627370496]
  by (simp_all add: tenth_def tenth_sum_def)

lemma doubling_ok: "policy_ok doubling"
  using fl_tenths(1,10) b64_1 by (simp add: policy_ok_def doubling_def is_b64_def) (simp add: tenth_def)

lemma doubling_valid: "validate_manifest doubling_run = Inr doubling_run" "is_error_controlled doubling_run"
  "policy_from_data (fst doubling_run) = Inr doubling"
proof -
  have s: "strategy_ok (ErrorControlledDt doubling)" using doubling_ok by simp
  show "validate_manifest doubling_run = Inr doubling_run"
    by (rule manifest_back [OF s, of "[]"])
      (simp_all add: controls_ok_def run_control_payload_def validate_controls_def checked_names_def control_keys_def
        controls_data_def doubling_run_def)
  show e: "is_error_controlled doubling_run" by (simp add: is_error_controlled_def manifest_kind_def doubling_run_def)
  have "registered ''error_controlled_dt'' = Some error_controlled_from_data" by (simp add: registered_def)
  then show "policy_from_data (fst doubling_run) = Inr doubling"
    using strategy_data_back [OF s] e
    by (simp add: strategy_from_data_def is_error_controlled_def manifest_kind_def doubling_run_def policy_from_data_def
      del: strategy_data.simps)
qed

text \<open>The state of the run after its binding, and an executor that always lands where it is told.\<close>

definition on_time :: "rat \<Rightarrow> int \<Rightarrow> int \<Rightarrow> rat \<Rightarrow> outcome" where
  "on_time time step attempts dt = (case fl (time + dt) of None \<Rightarrow> Breaks OverflowError | Some now \<Rightarrow> Lands now (step + 1))"

definition doubling_start :: temporal where
  "doubling_start = fresh_temporal\<lparr>tm_strategy := Some doubling_run, tm_queue := [proposal_at 0 0 tenth]\<rparr>"

lemma doubling_begins: "begin_run (doubling_run, None) 0 0 fresh_temporal = Inr doubling_start"
proof -
  have pos: "\<not> tenth \<le> 0" by (simp add: tenth_def)
  have init: "ep_dt_init doubling = tenth" by (simp add: doubling_def)
  have "mk_event proposal_kind (fl (0 + tenth)) (0 + 1) (DtPayload (Some tenth)) = Inr (proposal_at 0 0 tenth)"
    by (simp add: mk_event_def validate_event_def proposal_at_def proposal_kind_def fl_tenths(1))
  then have q: "queue_proposal tenth 0 0 False (fresh_temporal\<lparr>tm_strategy := Some doubling_run\<rparr>) = Inr (proposal_at 0 0 tenth, doubling_start)"
    using pos by (simp add: queue_proposal_def live_clock_def fresh_temporal_def doubling_start_def)
  have b: "run_binding (doubling_run, None) = Inr (doubling_run, None)" using doubling_valid(1) by (simp add: run_binding_def)
  have c: "boundary_cursors (tm_schedule fresh_temporal) 0 0 = Inr (tm_cursors fresh_temporal)"
    by (simp add: boundary_cursors_def fresh_temporal_def)
  have f: "fresh_temporal\<lparr>tm_time := 0, tm_step := 0, tm_cursors := tm_cursors fresh_temporal\<rparr> = fresh_temporal"
    "fresh_temporal\<lparr>tm_time := 0, tm_step := 0, tm_strategy := Some doubling_run\<rparr> = fresh_temporal\<lparr>tm_strategy := Some doubling_run\<rparr>"
    "\<not> tm_restored fresh_temporal" "tm_strategy fresh_temporal = None" "tm_schedule fresh_temporal = None"
    "tm_time fresh_temporal = 0" "tm_step fresh_temporal = 0" "tm_last_dt fresh_temporal = None" "tm_queue fresh_temporal = []"
    by (simp_all add: fresh_temporal_def)
  show ?thesis using q doubling_valid(2,3) c by (simp add: begin_run_def b live_clock_def init f)
qed

lemma doubling_reached: "temporal_step\<^sup>*\<^sup>* fresh_temporal doubling_start"
  using bind [OF doubling_begins] by (simp add: fresh_temporal_def r_into_rtranclp)

lemma doubling_start_state:
  "tm_strategy doubling_start = Some doubling_run" "tm_time doubling_start = 0" "tm_step doubling_start = 0"
  "tm_queue doubling_start = [proposal_at 0 0 tenth]"
  by (simp_all add: doubling_start_def fresh_temporal_def)

lemma doubling_proposals:
  "next_proposal doubling tenth = 2 * tenth" "next_proposal doubling (2 * tenth) = 4 * tenth"
  "next_proposal doubling (7205759403792795 / 36028797018963968) \<noteq> 4 * tenth"
  using fl_tenths(2,3,6) by (simp_all add: next_proposal_def doubling_def mult.commute) (simp_all add: tenth_def)

lemma doubling_first:
  "\<exists>t1. error_step doubling (on_time 0 0) tenth None 4 0 0 doubling_start = Inr ([tenth], StepDone (2 * tenth) tenth 1 t1)"
proof -
  have "clipped (min tenth (ep_dt_max doubling)) 0 4 = Inr tenth"
    using fl_tenths(8) by (simp add: clipped_def doubling_def) (simp add: tenth_def)
  moreover have "tenth + 2 * tenth = 3 * tenth" by simp
  moreover have "0 < tenth" by (simp add: tenth_def)
  ultimately show ?thesis
    using error_step_lands [OF reached_ok [OF doubling_reached], of tenth tenth tenth doubling 4 "on_time 0 0"]
      doubling_start_state fl_tenths(1,4) doubling_proposals(1) by (simp add: on_time_def)
qed

lemma doubling_second:
  assumes "error_step doubling (on_time 0 0) tenth None 4 0 0 doubling_start = Inr ([tenth], StepDone (2 * tenth) tenth 1 t1)"
  shows "\<exists>t2. error_step doubling (on_time tenth 1) (2 * tenth) None 4 tenth 1 t1 = Inr ([2 * tenth], StepDone (4 * tenth) tenth_sum 2 t2)"
proof -
  note v = error_step_done [OF doubling_reached doubling_start_state(1) doubling_valid(2) assms]
  have s: "temporal_ok t1" "tm_time t1 = tenth" "tm_step t1 = 1" "tm_queue t1 = [proposal_at tenth 1 (2 * tenth)]"
    using v reached_ok by auto
  have "clipped (min (2 * tenth) (ep_dt_max doubling)) tenth 4 = Inr (2 * tenth)"
    using fl_tenths(9) by (simp add: clipped_def doubling_def) (simp add: tenth_def)
  moreover have "tenth + 2 * tenth = 3 * tenth" by simp
  moreover have "tenth < tenth_sum" "0 < tenth" by (simp_all add: tenth_def tenth_sum_def)
  ultimately show ?thesis
    using error_step_lands [OF s(1), of "2 * tenth" tenth_sum "2 * tenth" doubling 4 "on_time tenth 1"]
      s(2-4) fl_tenths(4,7) doubling_proposals(2) by (simp add: on_time_def)
qed

text \<open>
  Claim C24. A run that only takes accepted steps can reach a boundary it cannot checkpoint: with steps of 0.1 and 0.2 under
  error control, the second accepted step of 0.2 measures as 0.20000000000000004 on the clock, and the proposal the
  controller queued is refused as inconsistent with it.
\<close>

theorem accepted_step_is_not_checkpointed:
  "\<exists>t1 t2. begin_run (doubling_run, None) 0 0 fresh_temporal = Inr doubling_start
     \<and> error_step doubling (on_time 0 0) tenth None 4 0 0 doubling_start = Inr ([tenth], StepDone (2 * tenth) tenth 1 t1)
     \<and> error_step doubling (on_time tenth 1) (2 * tenth) None 4 tenth 1 t1 = Inr ([2 * tenth], StepDone (4 * tenth) tenth_sum 2 t2)
     \<and> tm_status t2 = Accepted \<and> (\<nexists>d. checkpoint tenth_sum 2 t2 = Inr d)"
proof -
  obtain t1 where one: "error_step doubling (on_time 0 0) tenth None 4 0 0 doubling_start = Inr ([tenth], StepDone (2 * tenth) tenth 1 t1)"
    using doubling_first by blast
  obtain t2 where two: "error_step doubling (on_time tenth 1) (2 * tenth) None 4 tenth 1 t1 = Inr ([2 * tenth], StepDone (4 * tenth) tenth_sum 2 t2)"
    using doubling_second [OF one] by blast
  note v1 = error_step_done [OF doubling_reached doubling_start_state(1) doubling_valid(2) one]
  have r1: "temporal_step\<^sup>*\<^sup>* fresh_temporal t1" "tm_strategy t1 = Some doubling_run" using v1 by blast+
  note c = checkpoint_after_step [OF r1 doubling_valid(2,3) two]
  have "\<nexists>h. fl (tenth_sum - tenth) = Some h \<and> next_proposal doubling h = next_proposal doubling (last [2 * tenth])"
  proof (intro notI, elim exE conjE)
    fix h
    assume h: "fl (tenth_sum - tenth) = Some h" and n: "next_proposal doubling h = next_proposal doubling (last [2 * tenth])"
    have "h = 7205759403792795 / 36028797018963968" using h unfolding fl_tenths(5) option.inject by (rule sym)
    then show False using doubling_proposals(2,3) n unfolding last_ConsL [OF refl] by (simp only:)
  qed
  then show ?thesis using doubling_begins one two c by blast
qed

theorem error_controlled_attempts_are_bounded_witness:
  "\<exists>t1. error_step doubling (on_time 0 0) tenth None 4 0 0 doubling_start = Inr ([tenth], StepDone (2 * tenth) tenth 1 t1)
     \<and> int (length [tenth]) \<le> ep_max_rejections doubling + 1"
proof -
  obtain t1 where one: "error_step doubling (on_time 0 0) tenth None 4 0 0 doubling_start = Inr ([tenth], StepDone (2 * tenth) tenth 1 t1)"
    using doubling_first by blast
  have "is_b64 tenth" using fl_tenths(1) by (simp add: is_b64_def)
  then show ?thesis using error_controlled_attempts_are_bounded [OF doubling_ok doubling_reached _ one] one by blast
qed

theorem error_controlled_stops_at_the_end_witness:
  "\<exists>t1. error_step doubling (on_time 0 0) tenth (Some 4) 4 0 0 doubling_start = Inr ([tenth], StepDone (2 * tenth) tenth 1 t1)"
proof -
  have "is_b64 tenth" "is_b64 4" using fl_tenths(1,8) by (simp_all add: is_b64_def)
  then show ?thesis using error_controlled_stops_at_the_end [OF doubling_ok doubling_reached, of tenth 4 0 "on_time 0 0" 0] doubling_first by simp
qed

theorem error_controlled_checkpoint_witness:
  "\<exists>t1 d. error_step doubling (on_time 0 0) tenth None 4 0 0 doubling_start = Inr ([tenth], StepDone (2 * tenth) tenth 1 t1)
     \<and> checkpoint tenth 1 t1 = Inr d"
proof -
  obtain t1 where one: "error_step doubling (on_time 0 0) tenth None 4 0 0 doubling_start = Inr ([tenth], StepDone (2 * tenth) tenth 1 t1)"
    using doubling_first by blast
  show ?thesis
    using error_controlled_checkpoint [OF doubling_reached doubling_start_state(1) doubling_valid(2,3) one] fl_tenths(1) one by auto
qed

theorem restart_repeats_the_next_step_witness:
  "\<exists>t1 d r. checkpoint tenth 1 t1 = Inr d \<and> from_saved d tenth 1 (Some (tm_schedule t1)) = Inr r
     \<and> controller_next_dt doubling r = Inr (2 * tenth)"
proof -
  obtain t1 where one: "error_step doubling (on_time 0 0) tenth None 4 0 0 doubling_start = Inr ([tenth], StepDone (2 * tenth) tenth 1 t1)"
    using doubling_first by blast
  obtain d where d: "checkpoint tenth 1 t1 = Inr d"
    using checkpoint_after_step [OF doubling_reached doubling_start_state(1) doubling_valid(2,3) one] fl_tenths(1) by auto
  have "temporal_ok t1" using error_step_done [OF doubling_reached doubling_start_state(1) doubling_valid(2) one] reached_ok by blast
  then have r: "from_saved d tenth 1 (Some (tm_schedule t1)) = Inr (flag True t1)"
    using from_saved_save [OF d, of "Some (tm_schedule t1)"] by (simp add: temporal_ok_def)
  show ?thesis
    using restart_repeats_the_next_step [OF doubling_reached doubling_start_state(1) doubling_valid(2) one d r] d r by blast
qed

theorem fixed_dt_stops_at_the_end_witness: "fixed_interval 1 0 4 = Inr 1 \<and> \<not> crossed (Some 4) (1 :: rat)"
proof -
  have one: "fl 1 = Some 1" using b64_1 by (simp add: is_b64_def)
  have "\<not> isclose 1 4 (4 * max (ulp 1) (ulp 4))"
  proof -
    have "fl 3 = Some 3" using fl_eval [of 1 3 6755399441055744] by simp
    moreover have "magnitude 1 = 0" "magnitude 4 = 2" by (rule magnitude_unique; simp)+
    ultimately show ?thesis by (simp add: isclose_def ulp_def ulp_exp_def power_int_minus)
  qed
  then have i: "fixed_interval 1 0 4 = Inr 1" by (simp add: fixed_interval_def fl_tenths(8) one)
  have "is_b64 4" using fl_tenths(8) by (simp add: is_b64_def)
  then show ?thesis using fixed_dt_stops_at_the_end [OF b64_1, of 4 0 1 1] i one by simp
qed

theorem collective_rejection_is_unanimous_witness:
  "\<exists>rank. collective_decision
      [Some \<lparr>ae_rejected = True, ae_status = Some ''breakdown'', ae_phase = ''solve'', ae_disposition = Some ''retry'', ae_reason = 0\<rparr>,
       Some \<lparr>ae_rejected = True, ae_status = Some ''breakdown'', ae_phase = ''solve'', ae_disposition = Some ''retry'', ae_reason = 0\<rparr>]
     = RejectStep rank \<lparr>ae_rejected = True, ae_status = Some ''breakdown'', ae_phase = ''solve'', ae_disposition = Some ''retry'', ae_reason = 0\<rparr>"
  by (rule iffD2 [OF conjunct1 [OF collective_rejection_is_unanimous]]) (simp add: valid_rejection_def solve_statuses_def)

end
