(* ===== verification/Spec2Isabelle.thy ===== *)
theory Spec2Isabelle
  imports Pops_Recovery Pops_Certificate Pops_Integrators Pops_Passes Pops_Publications Pops_Identity Pops_Scratch Pops_Planning Pops_Stepping
begin

text \<open>
  A verification development of the Python package \<open>pops\<close> (\<open>python/pops\<close>): the exact numbers it
  computes with, the time methods it offers, the Programs it authors, optimises, freezes and
  certifies, the steps a run takes and the state it restarts from, the schedules and the planning of the
  outputs of an accepted step, the transaction that publishes them, and the durable journal observer frames are handed over with.

  \<^bold>\<open>Parts and how they interact.\<close> Every coefficient is a scalar literal (\<open>identity/scalar.py\<close>). A
  tableau of literals (\<open>time/_methods/tableau.py\<close>) is analysed by \<open>time/_methods/properties.py\<close>, which
  attaches a certificate. A factory of \<open>lib/time\<close> writes the method as a Program, through the builder
  of \<open>time/_program/operations.py\<close> and the affine algebra of \<open>time/values.py\<close>. The passes of
  \<open>time/_program/passes.py\<close> rewrite the flat Program before code generation. The normalised Program is
  the SSA graph of \<open>time/_graph\<close>, and \<open>certify_program_graph\<close> reads a tableau back from it. At run
  time a step strategy (\<open>time/_step\<close>) gives each attempt its interval (\<open>runtime/_step_strategy.py\<close>), clipped
  at the next deadline of a consumer, and an accepted attempt moves the temporal state
  (\<open>runtime/_temporal_restart.py\<close>) that a checkpoint stores. A graph of consumers (\<open>output/_consumer_contracts.py\<close>), each with a schedule of \<open>time/_schedule\<close>,
  is asked after every accepted step which samples are due (\<open>runtime/_consumer_planning.py\<close>); the effects
  of that plan are prepared and published together by \<open>runtime/_consumer_transaction.py\<close>, whose report
  holds the cursors the next plan starts from; and the frames a consumer committed pass through
  \<open>output/_durable_journal.py\<close>.

  \<^bold>\<open>Theories.\<close>
  \<^item> \<^verbatim>\<open>Pops_Prelude\<close>: exceptions as \<open>exn\<close>, results \<open>exn + 'a\<close> (\<open>Inl\<close> is a raise), sequencing
    (\<open>bindR\<close>, \<open>traverse\<close>, \<open>foldR\<close>, \<open>raise_if\<close>) and the list facts the components share.
  \<^item> \<^verbatim>\<open>Pops_Scalar\<close>, \<^verbatim>\<open>Pops_Literal\<close>: \<open>identity/scalar.py\<close>. A \<open>Decimal\<close> is its sign, coefficient and
    exponent, a binary64 its sign, significand and exponent, a \<open>ScalarLiteral\<close> the record \<open>literal\<close>;
    \<open>from_value\<close>, \<open>to_python\<close>, \<open>to_cpp\<close> and the decimal algebra keep their names. The lemmas show that
    a literal returns the number it was made from, that its C++ text denotes that number, and that
    decimal arithmetic is exact (with the exception found in division).
  \<^item> \<^verbatim>\<open>Pops_Encoding\<close>, \<^verbatim>\<open>Pops_Canonical\<close>, \<^verbatim>\<open>Pops_Identity\<close>: \<open>identity/encoding.py\<close> and
    \<open>identity/digest.py\<close>. Values live in a store of containers, so that reference cycles exist; the
    bytes of a value are proved to determine what it denotes, and a token the identity it names.
  \<^item> \<^verbatim>\<open>Pops_Tableau\<close>, \<^verbatim>\<open>Pops_Methods\<close>, \<^verbatim>\<open>Pops_RK_Steps\<close>: tableaux, their certificates, and the step
    an array of coefficients means. The lemmas tie the order test to rooted trees, the stability
    polynomial to the step of a linear rate, and the strong-stability table to convex decompositions.
  \<^item> \<^verbatim>\<open>Pops_Points\<close>, \<^verbatim>\<open>Pops_Affine\<close>, \<^verbatim>\<open>Pops_Program\<close>: clocks and points, the coefficient and
    affine algebra, the builder. The \<open>term_algebra\<close> locale states the algebra both carriers share. A
    Program is evaluated by \<open>venv\<close>; what its nodes call is the parameter record \<open>interp\<close>.
  \<^item> \<^verbatim>\<open>Pops_Integrators\<close>: the explicit Runge--Kutta factory as the sequence of builder calls it is,
    proved to compute the coupled step of its tableau.
  \<^item> \<^verbatim>\<open>Pops_Passes\<close>: the three passes and \<open>optimize\<close>, over flat nodes, proved to keep what a step
    commits and the effects it has, under the contract the kind tables state.
  \<^item> \<^verbatim>\<open>Pops_Scratch\<close>: the live ranges of step scratches, the greedy buffer reuse and the scratch plan
    (\<open>time/_program/inspection.py\<close>, \<open>codegen/scratch_plan.py\<close>), proved minimal, and sound for a step
    executed over the shared buffers when no alias outlives its scratch.
  \<^item> \<^verbatim>\<open>Pops_Graph\<close>, \<^verbatim>\<open>Pops_Certificate\<close>: construction of the SSA graph with all its checks, and the
    certificate read back from it.
  \<^item> \<^verbatim>\<open>Pops_Journal\<close>, \<^verbatim>\<open>Pops_Recovery\<close>: the journal as functions from a file system to a result and
    a list of file-system actions; a power failure may fall between any two, and \<open>journal_step\<close> is
    the step relation of requests and failures.
  \<^item> \<^verbatim>\<open>Pops_Float\<close>, \<^verbatim>\<open>Pops_Cadence\<close>: binary64 as the rationals it represents, with rounding to nearest
    even (\<open>fl\<close>), \<open>math.ulp\<close>, the shortest decimal that rounds to a number (\<open>str\<close>) and the product of
    that decimal with 50 digits; and the \<open>EveryDt\<close> trigger of \<open>time/_schedule/api.py\<close> over them. The
    lemmas bound the distance of a lattice time to \<open>k * interval\<close>, from which a run that lands on its
    deadlines samples every point, and a deadline passes over no more than roundoff.
  \<^item> \<^verbatim>\<open>Pops_Order\<close>: the order of binary64; rounding never carries a number past a binary64.
  \<^item> \<^verbatim>\<open>Pops_Strategy\<close>: \<open>time/_step/strategy.py\<close>. The four strategies with the checks of their
    constructors, their runtime controls, and the manifest a restart validates, proved to be read back
    unchanged.
  \<^item> \<^verbatim>\<open>Pops_Temporal\<close>: \<open>runtime/_temporal_restart.py\<close>. The clock schedule and its validation, the cursors of
    a boundary, and \<open>TemporalRestartState\<close> as the record \<open>temporal\<close>; \<open>temporal_step\<close> is the step relation of
    its operations, over which \<open>temporal_ok\<close> is invariant. The lemmas say which accepted boundaries can be
    checkpointed and that a restart restores the state.
  \<^item> \<^verbatim>\<open>Pops_Stepping\<close>: \<open>runtime/_step_strategy.py\<close>, \<open>time/_step/transaction.py\<close> and the attempt loop of
    \<open>runtime/_runtime_instance.py\<close>. The interval of each controller, one attempt in its transaction, the retries
    of an error-controlled step, the decision of all ranks and the reports. What the native executor does
    with an attempt is the argument \<open>outcome\<close>; the theorems hold for every executor.
  \<^item> \<^verbatim>\<open>Pops_Schedule\<close>: \<open>time/_schedule/ir.py\<close>, \<open>domains.py\<close>, \<open>api.py\<close>. Domains, triggers, policies and the
    native IR with the checks of their constructors, the lowering, and what a consumer reads at a moment.
  \<^item> \<^verbatim>\<open>Pops_Fields\<close>: \<open>fields/context.py\<close>, \<open>fields/policies.py\<close>. A field context, its transitions (the step
    relation \<open>field_step\<close>) and the resolution of a read.
  \<^item> \<^verbatim>\<open>Pops_ConsumerGraph\<close>: manifests, \<open>ConsumerGraph.__init__\<close> with its loop over a heap (\<open>pop_ready\<close>) and
    the checkpoint ordering of \<open>resolve\<close>. The invariant \<open>pops\<close> of the loop gives the topology, and its
    completeness says a graph is refused exactly for a cycle.
  \<^item> \<^verbatim>\<open>Pops_Planning\<close>: the planner; \<open>plan_accepted_side_effects\<close> is proved to hold the due samples
    (\<open>has_sample\<close>), and composed with the transaction to offer no sample twice.
  \<^item> \<^verbatim>\<open>Pops_Consumers\<close>, \<^verbatim>\<open>Pops_Transaction\<close>: cursors, effects, receipts and reports, and
    \<open>ConsumerTransaction\<close> as functions of the transaction object \<open>tx\<close>, over a record \<open>publisher\<close> of
    what a publisher does to a world. The lemmas say what an accepted transaction published.
  \<^item> \<^verbatim>\<open>Pops_Compensation\<close>: the locale \<open>compensating_publisher\<close>, the laws under which a transaction
    is all or nothing, and the proof that it is.
  \<^item> \<^verbatim>\<open>Pops_Publications\<close>: the diagnostics publisher of \<open>runtime/_runtime_consumers.py\<close>, with the
    interpretation of that locale.

  \<^bold>\<open>Bounds and fuel.\<close> Integers of the Python code are unbounded and are \<open>int\<close> or \<open>nat\<close>; the integer
  tokens of a C++ spelling are proved to fit their target types. The recursion of \<open>clone_node\<close> in
  \<open>Pops_Certificate\<close> and the liveness worklist of \<open>Pops_Passes\<close> follow references to smaller or
  unseen nodes; the first has fuel one more than the node's id, which is enough because a
  constructed graph only reads earlier nodes, and the second terminates by a measure. The publishing
  loop of \<open>accept\<close> may stage a row again; the measure \<open>attempts_left\<close> counts the attempts left. The
  encoder of identities enters a container it has not entered yet, of which a store has finitely many.
  The heap loop of the consumer graph terminates because the ready consumers and those with a positive
  degree decrease together. The retries of a step (\<open>error_loop\<close>) terminate by the number of rejections the
  policy still allows. The search for a shortest decimal starts at the power of ten of the number
  and ends by \<open>10 ^ -1074\<close> at the latest. The cadence theorems hold for intervals from \<open>2 ^ -1000\<close> on,
  \<open>2 ^ 49\<close> samples and times up to \<open>2 ^ 1000\<close>, beyond which the products leave the normal range.

  \<^bold>\<open>Not modelled.\<close> The compiled extension, MPI and the runtime that drives them, C++ emission, output
  file formats, and the declarative families (meshes, models, fields, moments, numerics) whose
  meaning lives in C++. Of the step protocol, the JSON shapes of a manifest (a mapping of a fixed shape is a
  record), the interpolation providers of a synchronization, the registration of other strategies and
  controllers and the snapshot of the native stores are left out; an infinite \<open>t_end - now\<close> is outside the
  model. Display names of nodes, debug provenance and the compatibility checks on
  typed spaces are left out of the builder. SHA-256 is a parameter of identities; elsewhere a digest is a
  function of the content. The manifest lists every part with its status.
\<close>

section \<open>From the tableau to the committed value\<close>

lemma zip_take_left: "zip (take (length ys) xs) ys = zip xs ys"
  by (metis min.idem take_all take_zip length_zip min.cobounded2)

lemma combine_prefix: "take (length ks) row' = row \<Longrightarrow> combine row' ks = combine row ks"
  by (metis combine_def zip_take_left)

lemma rk_rates_dense:
  "length A = length B \<Longrightarrow> \<forall>i < length A. take (length ks + i) (B ! i) = A ! i
    \<Longrightarrow> rk_rates f h y B ks = rk_rates f h y A ks"
proof (induction A arbitrary: B ks)
  case (Cons row A)
  obtain row' B' where B: "B = row' # B'" using Cons.prems(1) by (cases B) auto
  have "combine row' ks = combine row ks"
    using Cons.prems(2) [rule_format, of 0] by (intro combine_prefix) (simp_all add: B)
  moreover have "\<forall>i < length A. take (Suc (length ks) + i) (B' ! i) = A ! i"
  proof (intro allI impI)
    fix i assume "i < length A"
    then show "take (Suc (length ks) + i) (B' ! i) = A ! i"
      using Cons.prems(2) [rule_format, of "Suc i"] by (simp add: B)
  qed
  ultimately show ?case using Cons.IH [of B' "ks @ [f (y + h *\<^sub>R combine row ks)]"] Cons.prems(1) by (simp add: B)
qed simp

text \<open>The certificate pads the triangular rows with zeros; the step does not see it.\<close>

lemma rk_step_dense:
  assumes "tableau_ok t"
  shows "rk_step f h (dense_array (tab_A t) (tab_stages t)) b y = rk_step f h (map vals (tab_A t)) b y"
proof -
  have len: "length (tab_A t) = tab_stages t" "\<And>i. i < tab_stages t \<Longrightarrow> length (tab_A t ! i) = i"
    using assms by (auto simp: tableau_ok_def coefficients_ok_def tab_stages_def)
  have "take i (dense_array (tab_A t) (tab_stages t) ! i) = vals (tab_A t ! i)" if "i < tab_stages t" for i
    using that len by (auto simp: dense_array_def vals_def intro!: nth_equalityI)
  then show ?thesis
    unfolding rk_step_def by (subst rk_rates_dense [where A = "map vals (tab_A t)"]) (auto simp: len dense_array_def)
qed

text \<open>The rate a single route calls: the operator at the state and, if it reads one, at the field.\<close>

definition route_rate :: "('v::real_vector) interp \<Rightarrow> operator_handle \<Rightarrow> nat option \<Rightarrow> 'v \<Rightarrow> 'v" where
  "route_rate I rate flds u =
     in_rate I (oh_id rate) (take (oh_arity rate) [u, case flds of None \<Rightarrow> 0 | Some f \<Rightarrow> in_field I f [u]])"

lemma route_rates_single:
  "rk_system_step (route_rates I [rate] flds) h A b [y] = [rk_step (route_rate I rate flds) h A b y]"
proof -
  have step: "route_rates I [rate] flds [u] = [route_rate I rate flds u]" for u
    by (simp add: route_rates_def route_rate_def)
  have "rk_system (route_rates I [rate] flds) h [y] A [ks] = [rk_rates (route_rate I rate flds) h y A ks]" for ks
    by (induction A arbitrary: ks) (auto simp: stage_states_def step)
  then show ?thesis by (simp add: rk_system_step_def stage_states_def rk_step_def)
qed

lemma built_program_step:
  assumes "build_explicit_runge_kutta [r] flds t action (empty_program clk) = Inr ((), q)"
    and "tableau_ok t" and "tableau_exact t" and "certify_runge_kutta t = Inr cert"
  obtains n where "map_of (pr_commits q) (rt_state r) = Some n"
    and "venv I h q n = rk_step (route_rate I (rt_rate r) flds) h (mc_A cert) (mc_b cert) (in_state I (rt_state r))"
proof -
  have arrays: "mc_A cert = dense_array (tab_A t) (tab_stages t)" "mc_b cert = vals (tab_b t)"
    using certify_explicit [OF assms(2)] assms(4) by auto
  show ?thesis
    using built_runge_kutta [OF assms(1-3), of 0 I h] that
    by (auto simp: route_rates_single arrays rk_step_dense [OF assms(2)])
qed

text \<open>
  Claim C3. The program the factory builds for one state from a constructed, exact tableau commits
  the step of the coefficients its certificate lists; when the rate is linear, that is the certified
  stability polynomial of the rate applied to the initial state.\<close>

theorem built_program_matches_its_certificate:
  fixes I :: "('v::real_vector) interp"
  assumes "mk_tableau A b c name = Inr t" and "tableau_exact t" and "certify_runge_kutta t = Inr cert"
    and "build_explicit_runge_kutta [r] flds t action (empty_program clk) = Inr ((), q)"
  shows "\<exists>n. map_of (pr_commits q) (rt_state r) = Some n
     \<and> venv I h q n = rk_step (route_rate I (rt_rate r) flds) h (mc_A cert) (mc_b cert) (in_state I (rt_state r))
     \<and> (linear (route_rate I (rt_rate r) flds) \<longrightarrow>
          venv I h q n = (\<Sum>k<length (mp_stability (mc_properties cert)).
            (of_rat (mp_stability (mc_properties cert) ! k) * h ^ k)
              *\<^sub>R (route_rate I (rt_rate r) flds ^^ k) (in_state I (rt_state r))))"
proof -
  have ok: "tableau_ok t" using assms(1) by (rule mk_tableau_ok)
  obtain n where "map_of (pr_commits q) (rt_state r) = Some n"
    and "venv I h q n = rk_step (route_rate I (rt_rate r) flds) h (mc_A cert) (mc_b cert) (in_state I (rt_state r))"
    using built_program_step [OF assms(4) ok assms(2,3)] .
  moreover have "linear (route_rate I (rt_rate r) flds) \<Longrightarrow> rk_step (route_rate I (rt_rate r) flds) h (mc_A cert) (mc_b cert) (in_state I (rt_state r))
    = (\<Sum>k<length (mp_stability (mc_properties cert)).
            (of_rat (mp_stability (mc_properties cert) ! k) * h ^ k)
              *\<^sub>R (route_rate I (rt_rate r) flds ^^ k) (in_state I (rt_state r)))"
    using certificate_facts [OF ok assms(3)] by (intro linear_step) auto
  ultimately show ?thesis by metis
qed

definition doubling_rate :: "real interp" where
  "doubling_rate = \<lparr>in_state = (\<lambda>_. 3), in_rate = (\<lambda>_ us. 2 * hd us), in_source = (\<lambda>_ _. 0), in_linear = (\<lambda>_ _ u. u),
     in_field = (\<lambda>_ _. 0), in_solve = (\<lambda>_ u. u), in_history = (\<lambda>_ _. 0)\<rparr>"

theorem built_program_matches_its_certificate_witness:
  "\<exists>n. map_of (pr_commits sample_program) 7 = Some n \<and> venv doubling_rate (1/2) sample_program n = 15/2"
proof -
  obtain A b c name where built: "mk_tableau A b c name = Inr sample_tableau"
    using sample_facts(1) by (auto simp: ssprk2_tableau_def)
  have "map_sum id (mp_stability \<circ> mc_properties) (certify_runge_kutta sample_tableau) = Inr [1, 1, 1/2]" by code_simp
  then obtain cert where cert: "certify_runge_kutta sample_tableau = Inr cert" and p: "mp_stability (mc_properties cert) = [1, 1, 1/2]"
    by (cases "certify_runge_kutta sample_tableau") auto
  have rate: "route_rate doubling_rate (rt_rate sample_route) (Some 4) = (\<lambda>u. 2 * u)"
    by (simp add: route_rate_def doubling_rate_def sample_route_def fun_eq_iff)
  have "linear (\<lambda>u::real. 2 * u)" by (simp add: linear_iff algebra_simps)
  then show ?thesis
    using built_program_matches_its_certificate [OF built sample_facts(3) cert sample_facts(2), of doubling_rate "1/2"]
    unfolding rate p by (auto simp: sample_route_def doubling_rate_def of_rat_divide)
qed

end
